(* ===== verification/Hiper_Prelude.thy ===== *)
theory Hiper_Prelude
  imports "HOL-Library.Word"
begin

text \<open>
  Shared vocabulary of the development: the machine types, the error-or-value result with
  its sequencing combinator, unsigned subtraction with wrap-around, and the list lemmas that
  several components use. The theorem collections \<open>result_simps\<close> and
  \<open>overwrite_simps\<close> are handed to the simplifier by the component theories.
\<close>

unbundle bit_operations_syntax

section \<open>Machine types\<close>

type_synonym u8 = "8 word"
type_synonym u16 = "16 word"
type_synonym u32 = "32 word"
type_synonym u64 = "64 word"
type_synonym byte = "8 word"

text \<open>
  A \<open>size_t\<close> is a natural number below \<open>2 ^ 64\<close>; the only arithmetic of the program on
  sizes that can leave that range is subtraction, whose wrap-around is written out.
\<close>

definition usub :: "nat \<Rightarrow> nat \<Rightarrow> nat" where
  "usub a b = (if b \<le> a then a - b else a + 2 ^ 64 - b)"

lemma usub_le [simp]: "b \<le> a \<Longrightarrow> usub a b = a - b"
  by (simp add: usub_def)

section \<open>Results: an error or a value\<close>

named_theorems result_simps "evaluation of sequenced results"

definition bindE :: "'e + 'a \<Rightarrow> ('a \<Rightarrow> 'e + 'b) \<Rightarrow> 'e + 'b" where
  "bindE m f = (case m of Inl e \<Rightarrow> Inl e | Inr x \<Rightarrow> f x)"

lemma bindE_Inl [simp, result_simps]: "bindE (Inl e) f = Inl e"
  by (simp add: bindE_def)

lemma bindE_Inr [simp, result_simps]: "bindE (Inr x) f = f x"
  by (simp add: bindE_def)

lemma bindE_assoc: "bindE (bindE m f) g = bindE m (\<lambda>x. bindE (f x) g)"
  by (cases m) simp_all

lemma bindE_Inr_iff: "bindE m f = Inr y \<longleftrightarrow> (\<exists>x. m = Inr x \<and> f x = Inr y)"
  by (cases m) simp_all

lemma bindE_Inl_iff: "bindE m f = Inl e \<longleftrightarrow> m = Inl e \<or> (\<exists>x. m = Inr x \<and> f x = Inl e)"
  by (cases m) simp_all

lemma bindE_cong [fundef_cong]:
  "m = m' \<Longrightarrow> (\<And>x. m' = Inr x \<Longrightarrow> f x = g x) \<Longrightarrow> bindE m f = bindE m' g"
  by (cases m') simp_all

section \<open>Overwriting a window of a list\<close>

named_theorems overwrite_simps "how an overwritten list reads back"

definition overwrite :: "'a list \<Rightarrow> nat \<Rightarrow> 'a list \<Rightarrow> 'a list" where
  "overwrite xs p ys = take p xs @ ys @ drop (p + length ys) xs"

lemma overwrite_Nil [simp]: "overwrite xs p [] = xs"
  by (simp add: overwrite_def)

lemma length_overwrite [overwrite_simps]:
  "p \<le> length xs \<Longrightarrow> length (overwrite xs p ys) = max (length xs) (p + length ys)"
  by (simp add: overwrite_def max_def)

lemma length_overwrite_within [simp]:
  "p + length ys \<le> length xs \<Longrightarrow> length (overwrite xs p ys) = length xs"
  by (simp add: overwrite_def)

lemma overwrite_read [overwrite_simps]:
  "p \<le> length xs \<Longrightarrow> take (length ys) (drop p (overwrite xs p ys)) = ys"
  by (simp add: overwrite_def)

lemma take_overwrite [overwrite_simps]:
  "q \<le> p \<Longrightarrow> p \<le> length xs \<Longrightarrow> take q (overwrite xs p ys) = take q xs"
  by (simp add: overwrite_def min_def)

lemma drop_overwrite [overwrite_simps]:
  "p \<le> length xs \<Longrightarrow> drop (p + length ys) (overwrite xs p ys) = drop (p + length ys) xs"
  by (simp add: overwrite_def)

lemma overwrite_append:
  assumes "p \<le> length xs"
  shows "overwrite (overwrite xs p ys) (p + length ys) zs = overwrite xs p (ys @ zs)"
  using assms by (simp add: overwrite_def ac_simps)

lemma overwrite_overwrite_same:
  "p \<le> length xs \<Longrightarrow> length ys = length zs \<Longrightarrow>
   overwrite (overwrite xs p ys) p zs = overwrite xs p zs"
  by (simp add: overwrite_def)

lemma overwrite_append_right:
  "p + length ys \<le> length xs \<Longrightarrow> overwrite (xs @ zs) p ys = overwrite xs p ys @ zs"
  by (simp add: overwrite_def)

lemma overwrite_append_left:
  "p = length xs + q \<Longrightarrow> overwrite (xs @ zs) p ys = xs @ overwrite zs q ys"
  by (simp add: overwrite_def)

lemma take_overwrite_max:
  assumes "p \<le> n" and "p + length ys \<le> length xs" and "n \<le> length xs"
  shows "take (max n (p + length ys)) (overwrite xs p ys) = overwrite (take n xs) p ys"
proof -
  have "take (max n (p + length ys)) (overwrite xs p ys)
        = take p xs @ ys @ take (max n (p + length ys) - (p + length ys)) (drop (p + length ys) xs)"
    using assms by (simp add: overwrite_def)
  also have "take (max n (p + length ys) - (p + length ys)) (drop (p + length ys) xs)
        = drop (p + length ys) (take n xs)"
    by (simp add: drop_take max_def)
  finally show ?thesis
    using assms by (simp add: overwrite_def min_def)
qed

section \<open>Equal-length chunks\<close>

text \<open>A chain of blocks of \<open>B\<close> elements each, read as one list.\<close>

lemma length_concat_chunks:
  "\<forall>x\<in>set xss. length x = B \<Longrightarrow> length (concat xss) = length xss * B"
  by (induction xss) auto

lemma take_concat_chunks:
  "\<forall>x\<in>set xss. length x = B \<Longrightarrow> i \<le> length xss \<Longrightarrow> take (i * B) (concat xss) = concat (take i xss)"
proof (induction xss arbitrary: i)
  case Nil
  then show ?case by simp
next
  case (Cons x xss)
  then show ?case by (cases i) auto
qed

lemma drop_concat_chunks:
  "\<forall>x\<in>set xss. length x = B \<Longrightarrow> i \<le> length xss \<Longrightarrow> drop (i * B) (concat xss) = concat (drop i xss)"
proof (induction xss arbitrary: i)
  case Nil
  then show ?case by simp
next
  case (Cons x xss)
  then show ?case by (cases i) auto
qed

lemma concat_split_at:
  assumes "i < length xss"
  shows "concat xss = concat (take i xss) @ xss ! i @ concat (drop (Suc i) xss)"
proof -
  have "concat xss = concat (take i xss @ xss ! i # drop (Suc i) xss)"
    using assms by (simp only: id_take_nth_drop [symmetric])
  then show ?thesis by simp
qed

lemma concat_update_chunk:
  assumes "\<forall>x\<in>set xss. length x = B" and "i < length xss" and "s + length ys \<le> B"
  shows "concat (xss[i := overwrite (xss ! i) s ys]) = overwrite (concat xss) (i * B + s) ys"
proof -
  have len: "length (concat (take i xss)) = i * B"
    using assms by (subst length_concat_chunks [where B = B]) (auto dest: in_set_takeD)
  have nth: "length (xss ! i) = B"
    using assms by simp
  have "overwrite (concat xss) (i * B + s) ys
        = concat (take i xss) @ overwrite (xss ! i @ concat (drop (Suc i) xss)) s ys"
    by (subst concat_split_at [OF assms(2)], rule overwrite_append_left) (simp add: len)
  also have "overwrite (xss ! i @ concat (drop (Suc i) xss)) s ys
        = overwrite (xss ! i) s ys @ concat (drop (Suc i) xss)"
    by (rule overwrite_append_right) (simp add: nth assms)
  finally show ?thesis
    using assms(2) by (simp add: upd_conv_take_nth_drop)
qed

lemma chunk_window:
  assumes "\<forall>x\<in>set xss. length x = B" and "i < length xss" and "s + n \<le> B"
  shows "take n (drop (i * B + s) (concat xss)) = take n (drop s (xss ! i))"
proof -
  have "drop (i * B + s) (concat xss) = drop s (drop (i * B) (concat xss))"
    by (simp add: add.commute)
  also have "\<dots> = drop s (concat (drop i xss))"
    using assms by (simp add: drop_concat_chunks)
  also have "\<dots> = drop s (xss ! i @ concat (drop (Suc i) xss))"
    using assms(2) by (simp add: Cons_nth_drop_Suc [symmetric])
  finally show ?thesis
    using assms by simp
qed

end
