(* ===== verification/Endian.thy ===== *)
theory Endian
  imports Hiper_Prelude
begin

text \<open>
  Byte order: \<^verbatim>\<open>hiper/base/endian.hpp\<close>. Integers are words; their memory image on the (little
  endian) host is a list of bytes, and \<^verbatim>\<open>byteswap\<close> reverses that image.
\<close>

section \<open>The memory image of an integer\<close>

text \<open>\<^verbatim>\<open>memcpy\<close> of an integer on a little-endian host: the least significant byte comes first.\<close>

definition mem :: "'a::len word \<Rightarrow> byte list" where
  "mem w = map (\<lambda>i. ucast (drop_bit (8 * i) w)) [0..<LENGTH('a) div 8]"

definition of_mem :: "byte list \<Rightarrow> 'a::len word" where
  "of_mem bs = foldr (\<lambda>b acc. ucast b OR push_bit 8 acc) bs 0"

lemma length_mem [simp]: "length (mem (w :: 'a::len word)) = LENGTH('a) div 8"
  by (simp add: mem_def)

lemma of_mem_simps [simp]:
  "of_mem [] = 0"
  "of_mem (b # bs) = ucast b OR push_bit 8 (of_mem bs)"
  by (simp_all add: of_mem_def)

lemma bit_of_mem:
  "bit (of_mem bs :: 'a::len word) n \<longleftrightarrow>
     n < LENGTH('a) \<and> n div 8 < length bs \<and> bit (bs ! (n div 8)) (n mod 8)"
proof (induction bs arbitrary: n)
  case Nil
  then show ?case by simp
next
  case (Cons b bs)
  show ?case
  proof (cases "n < 8")
    case True
    then show ?thesis by (auto simp: bit_simps)
  next
    case False
    then have "\<not> bit b n" by (simp add: impossible_bit)
    moreover have "n div 8 = Suc ((n - 8) div 8)" "n mod 8 = (n - 8) mod 8"
      using False by (simp_all add: le_div_geq le_mod_geq)
    ultimately show ?thesis
      using False Cons.IH [of "n - 8"] by (auto simp: bit_simps)
  qed
qed

lemma of_mem_mem:
  assumes "8 dvd LENGTH('a)"
  shows "of_mem (mem w) = (w :: 'a::len word)"
proof (rule bit_word_eqI)
  fix n assume n: "n < LENGTH('a)"
  have "n div 8 < LENGTH('a) div 8"
    using n assms by (simp add: less_mult_imp_div_less)
  then show "bit (of_mem (mem w) :: 'a word) n \<longleftrightarrow> bit w n"
    using n by (simp add: bit_of_mem mem_def bit_simps)
qed

lemma mem_of_mem:
  assumes "length bs = LENGTH('a) div 8"
  shows "mem (of_mem bs :: 'a::len word) = bs"
proof (rule nth_equalityI)
  show "length (mem (of_mem bs :: 'a word)) = length bs"
    using assms by simp
next
  fix i assume "i < length (mem (of_mem bs :: 'a word))"
  then have i: "i < LENGTH('a) div 8" by simp
  show "mem (of_mem bs :: 'a word) ! i = bs ! i"
  proof (rule bit_word_eqI)
    fix n assume n: "n < LENGTH(8)"
    then have "8 * i + n < LENGTH('a)" using i by simp
    then show "bit (mem (of_mem bs :: 'a word) ! i) n \<longleftrightarrow> bit (bs ! i) n"
      using i n assms by (auto simp: mem_def bit_simps bit_of_mem)
  qed
qed

section \<open>Byte order\<close>

text \<open>
  \<^verbatim>\<open>bswap_16\<close>, \<^verbatim>\<open>bswap_32\<close> and \<^verbatim>\<open>bswap_64\<close> reverse the bytes of their argument; the template
  \<^verbatim>\<open>byteswap\<close> picks one by the size of its type, which here is the width of the word.
\<close>

definition byteswap :: "'a::len word \<Rightarrow> 'a word" where
  "byteswap w = of_mem (rev (mem w))"

lemma mem_byteswap: "mem (byteswap w) = rev (mem w)"
  by (simp add: byteswap_def mem_of_mem)

lemma byteswap_byteswap:
  "8 dvd LENGTH('a) \<Longrightarrow> byteswap (byteswap w) = (w :: 'a::len word)"
  by (subst byteswap_def) (simp add: mem_byteswap of_mem_mem)

text \<open>The host is little endian (\<^verbatim>\<open>HIPER_BYTE_ORDER == HIPER_LITTLE_ENDIAN\<close>).\<close>

datatype endianness = Little_endian | Big_endian

definition HIPER_BYTE_ORDER :: endianness where
  "HIPER_BYTE_ORDER = Little_endian"

definition byteswapOnLittleEndian :: "'a::len word \<Rightarrow> 'a word" where
  "byteswapOnLittleEndian t = byteswap t"

definition byteswapOnBigEndian :: "'a::len word \<Rightarrow> 'a word" where
  "byteswapOnBigEndian t = t"

end
