(* ===== verification/Ordered_Set.thy ===== *)
theory Ordered_Set
  imports Hiper_Prelude
begin

text \<open>
  The part of \<^verbatim>\<open>std::set\<close> and \<^verbatim>\<open>std::map\<close> that the program uses, as strictly increasing lists under the
  container's comparator. The operations are executable on any comparator; the locale
  \<open>strict_weak\<close> states what the C++ standard requires of one and proves the laws that the clients
  rely on, \<open>strict_total\<close> adds that equivalent keys are equal.
\<close>

section \<open>Operations\<close>

fun set_insert :: "('a \<Rightarrow> 'a \<Rightarrow> bool) \<Rightarrow> 'a \<Rightarrow> 'a list \<Rightarrow> 'a list" where
  "set_insert lt x [] = [x]"
| "set_insert lt x (y # ys) =
     (if lt x y then x # y # ys else if lt y x then y # set_insert lt x ys else y # ys)"

definition set_find :: "('a \<Rightarrow> 'a \<Rightarrow> bool) \<Rightarrow> 'a \<Rightarrow> 'a list \<Rightarrow> 'a option" where
  "set_find lt x xs = find (\<lambda>y. \<not> lt x y \<and> \<not> lt y x) xs"

text \<open>Erasing the element at an iterator, and the two parts that \<^verbatim>\<open>lower_bound\<close> separates.\<close>

definition set_erase :: "'a \<Rightarrow> 'a list \<Rightarrow> 'a list" where
  "set_erase x xs = remove1 x xs"

definition below :: "('a \<Rightarrow> 'a \<Rightarrow> bool) \<Rightarrow> 'a \<Rightarrow> 'a list \<Rightarrow> 'a list" where
  "below lt x xs = takeWhile (\<lambda>y. lt y x) xs"

definition lower_bound :: "('a \<Rightarrow> 'a \<Rightarrow> bool) \<Rightarrow> 'a \<Rightarrow> 'a list \<Rightarrow> 'a list" where
  "lower_bound lt x xs = dropWhile (\<lambda>y. lt y x) xs"

text \<open>A map is a set of pairs compared by their keys.\<close>

fun map_assign :: "('k \<Rightarrow> 'k \<Rightarrow> bool) \<Rightarrow> 'k \<Rightarrow> 'v \<Rightarrow> ('k \<times> 'v) list \<Rightarrow> ('k \<times> 'v) list" where
  "map_assign lt k v [] = [(k, v)]"
| "map_assign lt k v ((k', v') # m) =
     (if lt k k' then (k, v) # (k', v') # m
      else if lt k' k then (k', v') # map_assign lt k v m else (k', v) # m)"

fun map_find :: "('k \<Rightarrow> 'k \<Rightarrow> bool) \<Rightarrow> 'k \<Rightarrow> ('k \<times> 'v) list \<Rightarrow> 'v option" where
  "map_find lt k [] = None"
| "map_find lt k ((k', v') # m) = (if \<not> lt k k' \<and> \<not> lt k' k then Some v' else map_find lt k m)"

fun map_erase :: "('k \<Rightarrow> 'k \<Rightarrow> bool) \<Rightarrow> 'k \<Rightarrow> ('k \<times> 'v) list \<Rightarrow> ('k \<times> 'v) list" where
  "map_erase lt k [] = []"
| "map_erase lt k ((k', v') # m) =
     (if \<not> lt k k' \<and> \<not> lt k' k then m else (k', v') # map_erase lt k m)"

section \<open>Laws under a strict weak order\<close>

locale strict_weak =
  fixes lt :: "'a \<Rightarrow> 'a \<Rightarrow> bool"
  assumes irrefl: "\<not> lt x x"
    and trans: "lt x y \<Longrightarrow> lt y z \<Longrightarrow> lt x z"
    and weak: "lt x z \<Longrightarrow> lt x y \<or> lt y z"
begin

definition equiv :: "'a \<Rightarrow> 'a \<Rightarrow> bool" where
  "equiv x y \<longleftrightarrow> \<not> lt x y \<and> \<not> lt y x"

lemma equiv_refl: "equiv x x"
  by (simp add: equiv_def irrefl)

lemma equiv_sym: "equiv x y \<Longrightarrow> equiv y x"
  by (simp add: equiv_def)

lemma equiv_trans: "equiv x y \<Longrightarrow> equiv y z \<Longrightarrow> equiv x z"
  using weak by (auto simp: equiv_def)

lemma lt_asym: "lt x y \<Longrightarrow> \<not> lt y x"
  using irrefl trans by blast

lemma equiv_lt: "equiv x y \<Longrightarrow> lt x z \<longleftrightarrow> lt y z" "equiv x y \<Longrightarrow> lt z x \<longleftrightarrow> lt z y"
  using weak by (auto simp: equiv_def)

lemma set_insert_elems:
  "set (set_insert lt x xs) \<subseteq> insert x (set xs)"
  by (induction xs) auto

lemma set_insert_sorted: "sorted_wrt lt xs \<Longrightarrow> sorted_wrt lt (set_insert lt x xs)"
proof (induction xs)
  case (Cons y ys)
  then show ?case
    using set_insert_elems [of x ys] by (auto intro: trans)
qed simp

lemma set_insert_mem:
  "sorted_wrt lt xs \<Longrightarrow> \<forall>y\<in>set xs. \<not> equiv x y \<Longrightarrow> set (set_insert lt x xs) = insert x (set xs)"
  by (induction xs) (auto simp: equiv_def)

lemma set_find_Some: "set_find lt x xs = Some y \<Longrightarrow> y \<in> set xs \<and> equiv x y"
  unfolding set_find_def equiv_def by (induction xs) (auto split: if_splits)

lemma set_find_None: "set_find lt x xs = None \<longleftrightarrow> (\<forall>y\<in>set xs. \<not> equiv x y)"
  unfolding set_find_def equiv_def by (auto simp: find_None_iff)

lemma set_erase_sorted: "sorted_wrt lt xs \<Longrightarrow> sorted_wrt lt (set_erase x xs)"
  unfolding set_erase_def by (induction xs) (auto dest: notin_set_remove1 set_remove1_subset [THEN subsetD])

lemma sorted_distinct: "sorted_wrt lt xs \<Longrightarrow> distinct xs"
  by (induction xs) (auto simp: irrefl)

lemma set_erase_mem: "sorted_wrt lt xs \<Longrightarrow> set (set_erase x xs) = set xs - {x}"
  by (simp add: set_erase_def set_remove1_eq sorted_distinct)

lemma below_filter: "sorted_wrt lt xs \<Longrightarrow> below lt x xs = filter (\<lambda>y. lt y x) xs"
  unfolding below_def
proof (induction xs)
  case (Cons y ys)
  then show ?case
    using trans by (cases "lt y x") (auto simp: filter_empty_conv eq_commute [of "[]"])
qed simp

lemma lower_bound_filter: "sorted_wrt lt xs \<Longrightarrow> lower_bound lt x xs = filter (\<lambda>y. \<not> lt y x) xs"
  unfolding lower_bound_def
proof (induction xs)
  case (Cons y ys)
  then show ?case
    using trans by (cases "lt y x") (auto intro!: filter_True [symmetric])
qed simp

lemma map_assign_keys: "y \<in> fst ` set (map_assign lt k v m) \<Longrightarrow> y = k \<or> y \<in> fst ` set m"
  by (induction lt k v m rule: map_assign.induct) (auto split: if_splits)

lemma map_assign_sorted:
  "sorted_wrt lt (map fst m) \<Longrightarrow> sorted_wrt lt (map fst (map_assign lt k v m))"
proof (induction m)
  case (Cons e m)
  obtain l w where e: "e = (l, w)" by force
  have tail: "\<forall>y\<in>fst ` set m. lt l y" using Cons.prems e by simp
  have "\<forall>y\<in>fst ` set (map_assign lt k v m). lt l y" if "lt l k"
    using map_assign_keys [of _ k v m] tail that by blast
  moreover have "\<forall>y\<in>fst ` set m. lt k y" if "lt k l"
    using tail that trans by blast
  ultimately show ?case
    using Cons e by simp
qed simp

lemma map_find_equiv: "equiv k k' \<Longrightarrow> map_find lt k m = map_find lt k' m"
  by (induction m) (auto simp: equiv_lt)

lemma map_find_below: "sorted_wrt lt (map fst m) \<Longrightarrow> \<forall>y\<in>set (map fst m). lt k y \<Longrightarrow> map_find lt k m = None"
  by (induction m) auto

lemma map_find_assign:
  "sorted_wrt lt (map fst m) \<Longrightarrow>
   map_find lt k' (map_assign lt k v m) = (if equiv k k' then Some v else map_find lt k' m)"
proof (induction m)
  case Nil
  then show ?case by (auto simp: equiv_def)
next
  case (Cons e m)
  obtain l w where e: "e = (l, w)" by force
  consider "lt k l" | "lt l k" | "equiv k l" by (auto simp: equiv_def)
  then show ?case
  proof cases
    case 1
    then show ?thesis using e by (auto simp: equiv_def)
  next
    case 2
    moreover have "\<not> lt k l" by (rule lt_asym [OF 2])
    moreover have "equiv k k' \<Longrightarrow> lt l k'" using equiv_lt(2) [of k k' l] 2 by simp
    ultimately show ?thesis using Cons e by auto
  next
    case 3
    then have "\<not> lt k l" "\<not> lt l k" by (simp_all add: equiv_def)
    moreover have "equiv k k' \<longleftrightarrow> \<not> lt k' l \<and> \<not> lt l k'"
      using 3 equiv_lt [OF 3] by (auto simp: equiv_def)
    ultimately show ?thesis using e by auto
  qed
qed

lemma map_erase_keys: "y \<in> fst ` set (map_erase lt k m) \<Longrightarrow> y \<in> fst ` set m"
  by (induction lt k m rule: map_erase.induct) (auto split: if_splits)

lemma map_erase_sorted:
  "sorted_wrt lt (map fst m) \<Longrightarrow> sorted_wrt lt (map fst (map_erase lt k m))"
proof (induction m)
  case (Cons e m)
  obtain l w where e: "e = (l, w)" by force
  have "\<forall>y\<in>fst ` set m. lt l y" using Cons.prems e by simp
  then have "\<forall>y\<in>fst ` set (map_erase lt k m). lt l y"
    using map_erase_keys [of _ k m] by blast
  then show ?case using Cons e by simp
qed simp

lemma map_find_erase:
  "sorted_wrt lt (map fst m) \<Longrightarrow>
   map_find lt k' (map_erase lt k m) = (if equiv k k' then None else map_find lt k' m)"
proof (induction m)
  case (Cons e m)
  obtain l w where e: "e = (l, w)" by force
  show ?case
  proof (cases "equiv k l")
    case True
    have "map_find lt k' m = None" if "equiv k k'"
    proof (rule map_find_below)
      have "equiv k' l" using True that by (blast intro: equiv_trans equiv_sym)
      then show "\<forall>y\<in>set (map fst m). lt k' y" using Cons.prems e equiv_lt(1) by auto
    qed (use Cons.prems in simp)
    moreover have "equiv k k' \<longleftrightarrow> equiv k' l" using True by (blast intro: equiv_trans equiv_sym)
    ultimately show ?thesis using True e by (auto simp: equiv_def)
  next
    case False
    moreover have "equiv k k' \<Longrightarrow> \<not> equiv k' l" using False by (blast intro: equiv_trans)
    ultimately show ?thesis using Cons e by (auto simp: equiv_def)
  qed
qed simp

end

section \<open>Laws under a strict total order\<close>

locale strict_total = strict_weak +
  assumes tri: "x \<noteq> y \<Longrightarrow> lt x y \<or> lt y x"
begin

lemma equiv_eq: "equiv x y \<longleftrightarrow> x = y"
  using tri by (auto simp: equiv_def irrefl)

lemma set_find_iff: "set_find lt x xs = (if x \<in> set xs then Some x else None)"
  using set_find_Some [of x xs] set_find_None [of x xs]
  by (cases "set_find lt x xs") (auto simp: equiv_eq)

lemma set_insert_set: "sorted_wrt lt xs \<Longrightarrow> set (set_insert lt x xs) = insert x (set xs)"
  by (induction xs) (use tri in auto)

end

end
