(* ===== verification/Text.thy ===== *)
theory Text
  imports Hiper_Prelude
begin

text \<open>
Text utilities of src/hiper/base/util.cc: character classes, the printing of numbers that operator<< does, ToUpper and ToLower, Trim, TrimLeft and TrimRight, Dirname and Basename, UrlEncode and UrlDecode. Strings are lists of characters, read by their codes; the C locale is assumed for ctype.h. The lemmas show that printed numbers read back, what trimming keeps, how a path splits and that URL decoding inverts encoding.
\<close>

section \<open>Characters\<close>

text \<open>The classes of \<^verbatim>\<open>ctype.h\<close> in the C locale, by character code.\<close>

abbreviation code :: "char \<Rightarrow> nat" where "code \<equiv> of_char"
abbreviation chr :: "nat \<Rightarrow> char" where "chr n \<equiv> char_of n"

definition is_digit :: "char \<Rightarrow> bool" where "is_digit c \<longleftrightarrow> 48 \<le> code c \<and> code c \<le> 57"
definition is_upper :: "char \<Rightarrow> bool" where "is_upper c \<longleftrightarrow> 65 \<le> code c \<and> code c \<le> 90"
definition is_lower :: "char \<Rightarrow> bool" where "is_lower c \<longleftrightarrow> 97 \<le> code c \<and> code c \<le> 122"
definition is_alnum :: "char \<Rightarrow> bool" where "is_alnum c \<longleftrightarrow> is_digit c \<or> is_upper c \<or> is_lower c"
definition is_xdigit :: "char \<Rightarrow> bool" where
  "is_xdigit c \<longleftrightarrow> is_digit c \<or> 65 \<le> code c \<and> code c \<le> 70 \<or> 97 \<le> code c \<and> code c \<le> 102"

definition to_lower :: "char \<Rightarrow> char" where "to_lower c = (if is_upper c then chr (code c + 32) else c)"
definition to_upper :: "char \<Rightarrow> char" where "to_upper c = (if is_lower c then chr (code c - 32) else c)"

lemma code_lt [simp]: "code c < 256"
  by simp

lemma code_chr [simp]: "n < 256 \<Longrightarrow> code (chr n) = n"
  by simp

lemma to_lower_idem: "to_lower (to_lower c) = to_lower c"
  by (auto simp: to_lower_def is_upper_def)

lemma to_lower_fixed: "\<not> is_upper (to_lower c)"
  by (auto simp: to_lower_def is_upper_def)

definition ToUpper :: "string \<Rightarrow> string" where "ToUpper s = map to_upper s"
definition ToLower :: "string \<Rightarrow> string" where "ToLower s = map to_lower s"

lemma ToLower_ToUpper: "ToLower (ToUpper s) = ToLower s"
proof -
  have "to_lower (to_upper c) = to_lower c" for c
  proof (cases "is_lower c")
    case True
    then have b: "97 \<le> code c" "code c \<le> 122" by (simp_all add: is_lower_def)
    then have "code c - 32 < 256" "65 \<le> code c - 32" "code c - 32 \<le> 90" "code c - 32 + 32 = code c" by simp_all
    then have "to_lower (to_upper c) = chr (code c)"
      using True by (simp add: to_lower_def to_upper_def is_upper_def)
    moreover have "to_lower c = c" using b by (simp add: to_lower_def is_upper_def)
    ultimately show ?thesis by simp
  qed (simp add: to_upper_def)
  then show ?thesis by (simp add: ToLower_def ToUpper_def)
qed

section \<open>Numbers as text\<close>

definition dec_digit :: "nat \<Rightarrow> char" where "dec_digit d = chr (48 + d)"

text \<open>What \<^verbatim>\<open>operator<<\<close> prints for an unsigned and for a signed number, and in hexadecimal.\<close>

fun show_nat :: "nat \<Rightarrow> string" where
  "show_nat n = (if n < 10 then [dec_digit n] else show_nat (n div 10) @ [dec_digit (n mod 10)])"

declare show_nat.simps [simp del]

definition show_int :: "int \<Rightarrow> string" where
  "show_int i = (if i < 0 then ''-'' @ show_nat (nat (- i)) else show_nat (nat i))"

definition hex_digit :: "nat \<Rightarrow> char" where
  "hex_digit d = (if d < 10 then chr (48 + d) else chr (87 + d))"

fun show_hex :: "nat \<Rightarrow> string" where
  "show_hex n = (if n < 16 then [hex_digit n] else show_hex (n div 16) @ [hex_digit (n mod 16)])"

declare show_hex.simps [simp del]

definition dec_value :: "char \<Rightarrow> nat" where "dec_value c = code c - 48"

definition hex_value :: "char \<Rightarrow> nat" where
  "hex_value c = (if is_digit c then code c - 48 else if 97 \<le> code c then code c - 87 else code c - 55)"

definition read_dec :: "string \<Rightarrow> nat" where "read_dec s = foldl (\<lambda>a c. 10 * a + dec_value c) 0 s"
definition read_hex :: "string \<Rightarrow> nat" where "read_hex s = foldl (\<lambda>a c. 16 * a + hex_value c) 0 s"

lemma read_dec_snoc: "read_dec (s @ [c]) = 10 * read_dec s + dec_value c"
  by (simp add: read_dec_def)

lemma read_hex_snoc: "read_hex (s @ [c]) = 16 * read_hex s + hex_value c"
  by (simp add: read_hex_def)

lemma dec_digit_facts: "d < 10 \<Longrightarrow> is_digit (dec_digit d) \<and> dec_value (dec_digit d) = d"
  by (simp add: is_digit_def dec_value_def dec_digit_def)

lemma hex_digit_facts: "d < 16 \<Longrightarrow> is_xdigit (hex_digit d) \<and> hex_value (hex_digit d) = d"
  by (simp add: is_xdigit_def hex_value_def hex_digit_def is_digit_def)

lemma show_nat_digits: "\<forall>c\<in>set (show_nat n). is_digit c"
  by (induction n rule: show_nat.induct) (subst show_nat.simps, auto simp: dec_digit_facts)

lemma read_show_nat [simp]: "read_dec (show_nat n) = n"
proof (induction n rule: show_nat.induct)
  case (1 n)
  show ?case
  proof (cases "n < 10")
    case True
    then have "show_nat n = [] @ [dec_digit n]" by (subst show_nat.simps) simp
    then show ?thesis using dec_digit_facts [OF True] by (simp only: read_dec_snoc) (simp add: read_dec_def)
  next
    case False
    then have "show_nat n = show_nat (n div 10) @ [dec_digit (n mod 10)]" by (subst show_nat.simps) simp
    then show ?thesis using 1 [OF False] dec_digit_facts [of "n mod 10"] by (simp add: read_dec_snoc)
  qed
qed

lemma show_hex_digits: "\<forall>c\<in>set (show_hex n). is_xdigit c"
  by (induction n rule: show_hex.induct) (subst show_hex.simps, auto simp: hex_digit_facts)

lemma read_show_hex [simp]: "read_hex (show_hex n) = n"
proof (induction n rule: show_hex.induct)
  case (1 n)
  show ?case
  proof (cases "n < 16")
    case True
    then have "show_hex n = [] @ [hex_digit n]" by (subst show_hex.simps) simp
    then show ?thesis using hex_digit_facts [OF True] by (simp only: read_hex_snoc) (simp add: read_hex_def)
  next
    case False
    then have "show_hex n = show_hex (n div 16) @ [hex_digit (n mod 16)]" by (subst show_hex.simps) simp
    then show ?thesis using 1 [OF False] hex_digit_facts [of "n mod 16"] by (simp add: read_hex_snoc)
  qed
qed

lemma show_nat_inj: "show_nat m = show_nat n \<longleftrightarrow> m = n"
  by (metis read_show_nat)

lemma show_hex_inj: "show_hex m = show_hex n \<longleftrightarrow> m = n"
  by (metis read_show_hex)

lemma show_nat_not_Nil [simp]: "show_nat n \<noteq> []"
  by (subst show_nat.simps) simp

lemma show_hex_not_Nil [simp]: "show_hex n \<noteq> []"
  by (subst show_hex.simps) simp

section \<open>Finding characters\<close>

text \<open>
  \<^verbatim>\<open>find\<close>, \<^verbatim>\<open>rfind\<close>, \<^verbatim>\<open>find_first_not_of\<close> and \<^verbatim>\<open>find_last_not_of\<close> of \<^verbatim>\<open>std::string\<close>; \<open>None\<close> is \<^verbatim>\<open>npos\<close>.
\<close>

definition first_idx :: "(char \<Rightarrow> bool) \<Rightarrow> string \<Rightarrow> nat option" where
  "first_idx P s = (let n = length (takeWhile (\<lambda>c. \<not> P c) s) in if n < length s then Some n else None)"

definition last_idx :: "(char \<Rightarrow> bool) \<Rightarrow> string \<Rightarrow> nat option" where
  "last_idx P s = (case first_idx P (rev s) of None \<Rightarrow> None | Some n \<Rightarrow> Some (length s - 1 - n))"

lemma first_idx_None: "first_idx P s = None \<longleftrightarrow> (\<forall>c\<in>set s. \<not> P c)"
proof -
  have "length (takeWhile (\<lambda>c. \<not> P c) s) < length s \<longleftrightarrow> \<not> (\<forall>c\<in>set s. \<not> P c)"
    by (induction s) auto
  then show ?thesis by (simp add: first_idx_def Let_def)
qed

lemma first_idx_Some:
  "first_idx P s = Some n \<longleftrightarrow> (\<exists>a c b. s = a @ c # b \<and> length a = n \<and> P c \<and> (\<forall>x\<in>set a. \<not> P x))"
proof
  assume "first_idx P s = Some n"
  then have n: "n = length (takeWhile (\<lambda>c. \<not> P c) s)" "n < length s" by (auto simp: first_idx_def Let_def split: if_splits)
  then have "s = take n s @ s ! n # drop (Suc n) s" by (simp add: id_take_nth_drop)
  moreover have "P (s ! n)" using n nth_length_takeWhile [of "\<lambda>c. \<not> P c" s] by simp
  moreover have "\<forall>x\<in>set (take n s). \<not> P x" using n by (metis set_takeWhileD takeWhile_eq_take)
  ultimately show "\<exists>a c b. s = a @ c # b \<and> length a = n \<and> P c \<and> (\<forall>x\<in>set a. \<not> P x)"
    using n by (metis length_take min.absorb4)
next
  assume "\<exists>a c b. s = a @ c # b \<and> length a = n \<and> P c \<and> (\<forall>x\<in>set a. \<not> P x)"
  then show "first_idx P s = Some n" by (auto simp: first_idx_def)
qed

lemma last_idx_None: "last_idx P s = None \<longleftrightarrow> (\<forall>c\<in>set s. \<not> P c)"
proof -
  have "last_idx P s = None \<longleftrightarrow> first_idx P (rev s) = None" by (simp add: last_idx_def split: option.splits)
  then show ?thesis by (simp add: first_idx_None)
qed

lemma last_idx_Some:
  "last_idx P s = Some n \<longleftrightarrow> (\<exists>a c b. s = a @ c # b \<and> length a = n \<and> P c \<and> (\<forall>x\<in>set b. \<not> P x))"
proof
  assume "last_idx P s = Some n"
  then obtain m where m: "first_idx P (rev s) = Some m" "n = length s - 1 - m" by (auto simp: last_idx_def split: option.splits)
  then obtain a c b where r: "rev s = a @ c # b" "length a = m" "P c" "\<forall>x\<in>set a. \<not> P x" by (auto simp: first_idx_Some)
  from r(1) have "s = rev b @ c # rev a" by (metis rev.simps(2) rev_append rev_rev_ident append.assoc append_Cons append_Nil)
  then show "\<exists>a c b. s = a @ c # b \<and> length a = n \<and> P c \<and> (\<forall>x\<in>set b. \<not> P x)"
    using r m(2) by (intro exI [of _ "rev b"] exI [of _ c] exI [of _ "rev a"]) simp
next
  assume "\<exists>a c b. s = a @ c # b \<and> length a = n \<and> P c \<and> (\<forall>x\<in>set b. \<not> P x)"
  then obtain a c b where s: "s = a @ c # b" "length a = n" "P c" "\<forall>x\<in>set b. \<not> P x" by blast
  then have "rev s = rev b @ c # rev a \<and> length (rev b) = length b \<and> P c \<and> (\<forall>x\<in>set (rev b). \<not> P x)" by simp
  then have "first_idx P (rev s) = Some (length b)" unfolding first_idx_Some by blast
  then show "last_idx P s = Some n" using s by (simp add: last_idx_def)
qed

section \<open>Trimming and paths\<close>

definition white :: string where "white = [CHR '' '', CHR 0x09, CHR 0x0D, CHR 0x0A]"

text \<open>
  \<^verbatim>\<open>substr(pos, count)\<close>: positions behind the end throw, which none of the callers reaches.
\<close>

definition substr :: "nat \<Rightarrow> nat \<Rightarrow> string \<Rightarrow> string" where
  "substr pos n s = take n (drop pos s)"

definition Trim :: "string \<Rightarrow> string \<Rightarrow> string" where
  "Trim str delimit = (case first_idx (\<lambda>c. c \<notin> set delimit) str of
     None \<Rightarrow> ''''
   | Some begin_pos \<Rightarrow> (case last_idx (\<lambda>c. c \<notin> set delimit) str of
       None \<Rightarrow> substr begin_pos (length str) str
     | Some end_pos \<Rightarrow> substr begin_pos (end_pos - begin_pos + 1) str))"

definition TrimLeft :: "string \<Rightarrow> string \<Rightarrow> string" where
  "TrimLeft str delimit = (case first_idx (\<lambda>c. c \<notin> set delimit) str of
     None \<Rightarrow> '''' | Some begin_pos \<Rightarrow> drop begin_pos str)"

definition TrimRight :: "string \<Rightarrow> string \<Rightarrow> string" where
  "TrimRight str delimit = (case last_idx (\<lambda>c. c \<notin> set delimit) str of
     None \<Rightarrow> '''' | Some end_pos \<Rightarrow> substr 0 end_pos str)"

definition Dirname :: "string \<Rightarrow> string" where
  "Dirname filename =
     (if filename = [] then ''.''
      else case last_idx (\<lambda>c. c = CHR ''/'') filename of
        Some 0 \<Rightarrow> ''/''
      | None \<Rightarrow> ''.''
      | Some pos \<Rightarrow> substr 0 pos filename)"

definition Basename :: "string \<Rightarrow> string" where
  "Basename filename =
     (if filename = [] then filename
      else case last_idx (\<lambda>c. c = CHR ''/'') filename of
        None \<Rightarrow> filename
      | Some pos \<Rightarrow> drop (pos + 1) filename)"

lemma dir_base:
  assumes "filename = d @ CHR ''/'' # b" and "CHR ''/'' \<notin> set b"
  shows "Basename filename = b" and "Dirname filename = (if d = [] then ''/'' else d)"
proof -
  have "last_idx (\<lambda>c. c = CHR ''/'') filename = Some (length d)"
    unfolding last_idx_Some using assms by auto
  then show "Basename filename = b" "Dirname filename = (if d = [] then ''/'' else d)"
    using assms(1) by (auto simp: Basename_def Dirname_def substr_def split: nat.splits)
qed

lemma dir_base_plain: "CHR ''/'' \<notin> set filename \<Longrightarrow> Basename filename = filename \<and> Dirname filename = ''.''"
proof -
  assume "CHR ''/'' \<notin> set filename"
  then have "last_idx (\<lambda>c. c = CHR ''/'') filename = None" unfolding last_idx_None by auto
  then show ?thesis by (simp add: Basename_def Dirname_def)
qed

text \<open>A string is its leading delimiters, the part between the outermost other characters, and its trailing ones.\<close>

lemma trim_parts:
  assumes "\<exists>c\<in>set str. c \<notin> set delimit"
  obtains l m r where "str = l @ m @ r" and "set l \<subseteq> set delimit" and "set r \<subseteq> set delimit" and "m \<noteq> []"
    and "hd m \<notin> set delimit" and "last m \<notin> set delimit"
proof -
  let ?P = "\<lambda>c. c \<in> set delimit"
  define rest where "rest = dropWhile ?P str"
  define m where "m = rev (dropWhile ?P (rev rest))"
  define r where "r = rev (takeWhile ?P (rev rest))"
  have ne: "rest \<noteq> []" "\<not> ?P (hd rest)" using assms hd_dropWhile [of ?P str] by (auto simp: rest_def)
  have ex: "\<exists>c\<in>set rest. \<not> ?P c" using ne hd_in_set by blast
  have m: "m \<noteq> []" using ex by (auto simp: m_def)
  have rest: "rest = m @ r" unfolding m_def r_def by (metis rev_append rev_rev_ident takeWhile_dropWhile_id)
  have "str = takeWhile ?P str @ m @ r" using rest by (metis rest_def takeWhile_dropWhile_id)
  moreover have "set (takeWhile ?P str) \<subseteq> set delimit" by (auto dest: set_takeWhileD)
  moreover have "set r \<subseteq> set delimit" by (auto simp: r_def dest: set_takeWhileD)
  moreover have "hd m \<notin> set delimit" using ne(2) m by (simp add: rest)
  moreover have "last m \<notin> set delimit"
  proof -
    have "dropWhile ?P (rev rest) \<noteq> []" using m by (simp add: m_def)
    then have "\<not> ?P (hd (dropWhile ?P (rev rest)))" by (rule hd_dropWhile)
    then show ?thesis using m by (simp add: m_def last_rev)
  qed
  ultimately show ?thesis using that m by blast
qed

lemma trim_indices:
  assumes "str = l @ m @ r" and "set l \<subseteq> set delimit" and "set r \<subseteq> set delimit" and "m \<noteq> []"
    and "hd m \<notin> set delimit" and "last m \<notin> set delimit"
  shows "first_idx (\<lambda>c. c \<notin> set delimit) str = Some (length l)"
    and "last_idx (\<lambda>c. c \<notin> set delimit) str = Some (length l + length m - 1)"
proof -
  have "str = l @ hd m # (tl m @ r)" using assms(1,4) by simp
  then show "first_idx (\<lambda>c. c \<notin> set delimit) str = Some (length l)"
    unfolding first_idx_Some using assms by blast
  have "str = (l @ butlast m) @ last m # r" using assms(1,4) by simp
  moreover have "length (l @ butlast m) = length l + length m - 1" using assms(4) by (cases m) auto
  ultimately show "last_idx (\<lambda>c. c \<notin> set delimit) str = Some (length l + length m - 1)"
    unfolding last_idx_Some using assms by blast
qed

text \<open>
  \<^verbatim>\<open>Trim\<close> returns what lies between the outermost characters that are not delimiters, \<^verbatim>\<open>TrimLeft\<close> keeps
  what follows; \<^verbatim>\<open>TrimRight\<close>, whose \<^verbatim>\<open>substr\<close> counts one character too few, also removes the last character
  that is not a delimiter. A string of delimiters becomes empty.
\<close>

theorem trim_results:
  "set str \<subseteq> set delimit \<and> Trim str delimit = '''' \<and> TrimLeft str delimit = '''' \<and> TrimRight str delimit = ''''
   \<or> (\<exists>l m r. str = l @ m @ r \<and> set l \<subseteq> set delimit \<and> set r \<subseteq> set delimit \<and> m \<noteq> []
        \<and> hd m \<notin> set delimit \<and> last m \<notin> set delimit
        \<and> Trim str delimit = m \<and> TrimLeft str delimit = m @ r \<and> TrimRight str delimit = l @ butlast m)"
proof (cases "\<exists>c\<in>set str. c \<notin> set delimit")
  case False
  then have "first_idx (\<lambda>c. c \<notin> set delimit) str = None" "last_idx (\<lambda>c. c \<notin> set delimit) str = None"
    by (simp_all add: first_idx_None last_idx_None)
  then show ?thesis using False by (auto simp: Trim_def TrimLeft_def TrimRight_def)
next
  case True
  from trim_parts [OF this] obtain l m r where p: "str = l @ m @ r" "set l \<subseteq> set delimit" "set r \<subseteq> set delimit" "m \<noteq> []"
    "hd m \<notin> set delimit" "last m \<notin> set delimit" .
  note i = trim_indices [OF p]
  have "length l + length m - 1 - length l + 1 = length m" using p(4) by (cases m) auto
  then have "Trim str delimit = m" by (simp add: Trim_def i substr_def) (simp add: p(1))
  moreover have "TrimLeft str delimit = m @ r" by (simp add: TrimLeft_def i) (simp add: p(1))
  moreover have "TrimRight str delimit = l @ butlast m"
  proof -
    have "length l + length m - 1 = length (l @ butlast m)" using p(4) by (cases m) auto
    moreover have "str = (l @ butlast m) @ last m # r" using p(1,4) by simp
    ultimately show ?thesis unfolding TrimRight_def i substr_def by (metis append_eq_conv_conj drop0 option.simps(5))
  qed
  ultimately show ?thesis using p by blast
qed

section \<open>URL encoding\<close>

definition url_safe :: "char \<Rightarrow> bool" where
  "url_safe c \<longleftrightarrow> is_alnum c \<or> c = CHR ''-'' \<or> c = CHR ''_'' \<or> c = CHR ''.'' \<or> c = CHR ''~''"

text \<open>\<^verbatim>\<open>std::setw(2)\<close> with the fill character \<^verbatim>\<open>0\<close>, in hexadecimal.\<close>

definition hex2 :: "nat \<Rightarrow> string" where
  "hex2 n = (let h = show_hex n in replicate (2 - length h) (CHR ''0'') @ h)"

fun UrlEncode :: "bool \<Rightarrow> string \<Rightarrow> string" where
  "UrlEncode space_as_plus [] = []"
| "UrlEncode space_as_plus (ch # str) =
     (if url_safe ch then ch # UrlEncode space_as_plus str
      else if ch = CHR '' '' \<and> space_as_plus then CHR ''+'' # UrlEncode space_as_plus str
      else CHR ''%'' # hex2 (code ch) @ UrlEncode space_as_plus str)"

fun UrlDecode :: "bool \<Rightarrow> string \<Rightarrow> string" where
  "UrlDecode space_as_plus [] = []"
| "UrlDecode space_as_plus (c # str) =
     (if c = CHR ''%'' then
        (case str of
           a # b # rest \<Rightarrow>
             if is_xdigit a \<and> is_xdigit b then chr (read_hex [a, b]) # UrlDecode space_as_plus rest
             else CHR ''%'' # UrlDecode space_as_plus str
         | _ \<Rightarrow> CHR ''%'' # UrlDecode space_as_plus str)
      else if space_as_plus \<and> c = CHR ''+'' then CHR '' '' # UrlDecode space_as_plus str
      else c # UrlDecode space_as_plus str)"

lemma hex2_facts:
  assumes "n < 256"
  shows "\<exists>a b. hex2 n = [a, b] \<and> is_xdigit a \<and> is_xdigit b \<and> read_hex [a, b] = n"
proof (cases "n < 16")
  case True
  then have "hex2 n = [CHR ''0'', hex_digit n]" by (subst hex2_def) (subst show_hex.simps, simp)
  moreover have "is_xdigit (CHR ''0'')" by (simp add: is_xdigit_def is_digit_def)
  moreover have "hex_value (CHR ''0'') = 0" by (simp add: hex_value_def is_digit_def)
  ultimately show ?thesis using hex_digit_facts [OF True] by (simp add: read_hex_def)
next
  case False
  then have d: "n div 16 < 16" using assms by simp
  have "show_hex (n div 16) = [hex_digit (n div 16)]" using d by (subst show_hex.simps) simp
  then have "show_hex n = [hex_digit (n div 16), hex_digit (n mod 16)]" using False by (subst show_hex.simps) simp
  then show ?thesis using hex_digit_facts [OF d] hex_digit_facts [of "n mod 16"] by (simp add: hex2_def read_hex_def)
qed

text \<open>
  Decoding an encoded string gives it back, for every string of bytes: when spaces are encoded as
  plus signs the decoder must be told so, otherwise it need not.
\<close>

theorem url_roundtrip:
  "(plus_enc \<longrightarrow> plus_dec) \<longrightarrow> UrlDecode plus_dec (UrlEncode plus_enc str) = str"
proof (intro impI)
  assume p: "plus_enc \<longrightarrow> plus_dec"
  show "UrlDecode plus_dec (UrlEncode plus_enc str) = str"
  proof (induction str)
    case (Cons c s)
    have safe: "url_safe c \<Longrightarrow> c \<noteq> CHR ''%'' \<and> c \<noteq> CHR ''+''"
      by (auto simp: url_safe_def is_alnum_def is_digit_def is_upper_def is_lower_def)
    obtain a b where h: "hex2 (code c) = [a, b]" "is_xdigit a" "is_xdigit b" "read_hex [a, b] = code c"
      using hex2_facts [OF code_lt, of c] by blast
    show ?case using Cons.IH p safe h by auto
  qed simp
qed

theorem url_roundtrip_witness: "UrlDecode True (UrlEncode True ''a +%'') = ''a +%''"
  using url_roundtrip [of True True "''a +%''"] by simp

text \<open>Encoded text consists of safe characters, percent signs and plus signs.\<close>

lemma UrlEncode_alphabet: "c \<in> set (UrlEncode p s) \<Longrightarrow> url_safe c \<or> c = CHR ''%'' \<or> c = CHR ''+''"
proof (induction s)
  case (Cons x s)
  obtain a b where h: "hex2 (code x) = [a, b]" "is_xdigit a" "is_xdigit b" using hex2_facts [OF code_lt, of x] by blast
  then have "url_safe a" "url_safe b" by (auto simp: url_safe_def is_alnum_def is_xdigit_def is_upper_def is_lower_def)
  then show ?case using Cons h by (auto split: if_splits)
qed simp

lemma UrlDecode_malformed:
  "UrlDecode p [CHR ''%''] = ''%''" "UrlDecode p [CHR ''%'', a] = CHR ''%'' # UrlDecode p [a]"
  by simp_all

end
