(* ===== verification/Address.thy ===== *)
theory Address
  imports Endian Ordered_Set Text
begin

text \<open>
Socket addresses: src/hiper/base/address.cc and address.h. The structures of the system headers are records with ports and IPv4 addresses in network order; an address is one of four constructors, as the classes are. Modelled are construction, ports, comparison, masks and derived addresses, printing, the cutting of a host text for the resolver, and the walk over the interfaces. getaddrinfo, inet_pton and getifaddrs are parameters. The lemmas show that operator< is a strict weak order (an interpretation of strict_total on memory images), what the masks contain bit by bit, that CountBytes counts bits, that the printing loop for IPv6 equals a reference, and how host texts are cut.
\<close>

section \<open>Socket addresses\<close>

definition AF_UNSPEC :: u16 where "AF_UNSPEC = 0"
definition AF_UNIX :: u16 where "AF_UNIX = 1"
definition AF_INET :: u16 where "AF_INET = 2"
definition AF_INET6 :: u16 where "AF_INET6 = 10"

text \<open>
  The structures of \<^verbatim>\<open>netinet/in.h\<close> and \<^verbatim>\<open>sys/un.h\<close>; ports and IPv4 addresses are stored in network order,
  an IPv6 address is its sixteen bytes, \<open>sun_path\<close> has 108 bytes.
\<close>

record sockaddr_in =
  sin_family :: u16
  sin_port :: u16
  sin_addr :: u32
  sin_zero :: "byte list"

record sockaddr_in6 =
  sin6_family :: u16
  sin6_port :: u16
  sin6_flowinfo :: u32
  sin6_addr :: "byte list"
  sin6_scope_id :: u32

record sockaddr_un =
  sun_family :: u16
  sun_path :: "byte list"

record sockaddr =
  sa_family :: u16
  sa_data :: "byte list"

datatype address =
    IPv4Address sockaddr_in
  | IPv6Address sockaddr_in6
  | UnixAddress sockaddr_un nat
  | UnknownAddress sockaddr

text \<open>The bytes behind \<^verbatim>\<open>getAddr()\<close>, and \<^verbatim>\<open>getAddrLen()\<close>.\<close>

fun addr_image :: "address \<Rightarrow> byte list" where
  "addr_image (IPv4Address a) = mem (sin_family a) @ mem (sin_port a) @ mem (sin_addr a) @ sin_zero a"
| "addr_image (IPv6Address a) = mem (sin6_family a) @ mem (sin6_port a) @ mem (sin6_flowinfo a) @ sin6_addr a @ mem (sin6_scope_id a)"
| "addr_image (UnixAddress a n) = mem (sun_family a) @ sun_path a"
| "addr_image (UnknownAddress a) = mem (sa_family a) @ sa_data a"

fun getAddrLen :: "address \<Rightarrow> nat" where
  "getAddrLen (IPv4Address a) = 16"
| "getAddrLen (IPv6Address a) = 28"
| "getAddrLen (UnixAddress a n) = n"
| "getAddrLen (UnknownAddress a) = 16"

fun getFamily :: "address \<Rightarrow> u16" where
  "getFamily (IPv4Address a) = sin_family a"
| "getFamily (IPv6Address a) = sin6_family a"
| "getFamily (UnixAddress a n) = sun_family a"
| "getFamily (UnknownAddress a) = sa_family a"

text \<open>The sizes that the C structures have, and a length that stays within the structure.\<close>

fun addr_wf :: "address \<Rightarrow> bool" where
  "addr_wf (IPv4Address a) \<longleftrightarrow> length (sin_zero a) = 8"
| "addr_wf (IPv6Address a) \<longleftrightarrow> length (sin6_addr a) = 16"
| "addr_wf (UnixAddress a n) \<longleftrightarrow> length (sun_path a) = 108 \<and> n \<le> 110"
| "addr_wf (UnknownAddress a) \<longleftrightarrow> length (sa_data a) = 14"

section \<open>Construction\<close>

text \<open>\<^verbatim>\<open>Address::Create\<close> on a kernel structure; the three layouts are told apart by the family.\<close>

datatype raw_addr = Raw_in sockaddr_in | Raw_in6 sockaddr_in6 | Raw_other sockaddr

fun Address_Create :: "raw_addr option \<Rightarrow> address option" where
  "Address_Create None = None"
| "Address_Create (Some (Raw_in a)) = Some (IPv4Address a)"
| "Address_Create (Some (Raw_in6 a)) = Some (IPv6Address a)"
| "Address_Create (Some (Raw_other a)) = Some (UnknownAddress a)"

definition new_IPv4 :: "u32 \<Rightarrow> u16 \<Rightarrow> sockaddr_in" where
  "new_IPv4 address port = \<lparr>sin_family = AF_INET, sin_port = byteswapOnLittleEndian port,
     sin_addr = byteswapOnLittleEndian address, sin_zero = replicate 8 0\<rparr>"

definition new_IPv6 :: "byte list \<Rightarrow> u16 \<Rightarrow> sockaddr_in6" where
  "new_IPv6 address port = \<lparr>sin6_family = AF_INET6, sin6_port = byteswapOnLittleEndian port, sin6_flowinfo = 0,
     sin6_addr = address, sin6_scope_id = 0\<rparr>"

definition empty_IPv6 :: sockaddr_in6 where
  "empty_IPv6 = \<lparr>sin6_family = AF_INET6, sin6_port = 0, sin6_flowinfo = 0, sin6_addr = replicate 16 0, sin6_scope_id = 0\<rparr>"

text \<open>\<open>pton\<close> is \<^verbatim>\<open>inet_pton\<close>: the address in network order for a text it accepts.\<close>

definition IPv4_Create :: "(string \<Rightarrow> u32 option) \<Rightarrow> string \<Rightarrow> u16 \<Rightarrow> sockaddr_in option" where
  "IPv4_Create pton address port = (case pton address of None \<Rightarrow> None
     | Some a \<Rightarrow> Some ((new_IPv4 0 0)\<lparr>sin_family := AF_INET, sin_port := byteswapOnLittleEndian port, sin_addr := a\<rparr>))"

definition IPv6_Create :: "(string \<Rightarrow> byte list option) \<Rightarrow> string \<Rightarrow> u16 \<Rightarrow> sockaddr_in6 option" where
  "IPv6_Create pton address port = (case pton address of None \<Rightarrow> None
     | Some a \<Rightarrow> Some (empty_IPv6\<lparr>sin6_port := byteswapOnLittleEndian port, sin6_addr := a\<rparr>))"

definition getPort4 :: "sockaddr_in \<Rightarrow> u16" where "getPort4 a = byteswapOnLittleEndian (sin_port a)"
definition setPort4 :: "u16 \<Rightarrow> sockaddr_in \<Rightarrow> sockaddr_in" where "setPort4 v a = a\<lparr>sin_port := byteswapOnLittleEndian v\<rparr>"
definition getPort6 :: "sockaddr_in6 \<Rightarrow> u16" where "getPort6 a = byteswapOnLittleEndian (sin6_port a)"
definition setPort6 :: "u16 \<Rightarrow> sockaddr_in6 \<Rightarrow> sockaddr_in6" where "setPort6 v a = a\<lparr>sin6_port := byteswapOnLittleEndian v\<rparr>"

lemma port_roundtrip: "getPort4 (setPort4 v a) = v" "getPort6 (setPort6 v b) = v" "getPort4 (new_IPv4 x v) = v" "getPort6 (new_IPv6 y v) = v"
  by (simp_all add: getPort4_def setPort4_def getPort6_def setPort6_def new_IPv4_def new_IPv6_def
      byteswapOnLittleEndian_def byteswap_byteswap)

datatype addr_error = Path_too_long | Shift_overflow | Out_of_bounds

definition MAX_PATH_LEN :: nat where "MAX_PATH_LEN = 107"
definition SUN_OFFSET :: nat where "SUN_OFFSET = 2"

definition bytes :: "string \<Rightarrow> byte list" where "bytes s = map (\<lambda>c. of_nat (code c)) s"
definition chars :: "byte list \<Rightarrow> string" where "chars bs = map (\<lambda>b. chr (unat b)) bs"

definition empty_Unix :: "sockaddr_un \<times> nat" where
  "empty_Unix = (\<lparr>sun_family = AF_UNIX, sun_path = replicate 108 0\<rparr>, SUN_OFFSET + MAX_PATH_LEN)"

text \<open>\<^verbatim>\<open>path.c_str()\<close> ends with a NUL, which is copied too unless the path is an abstract name.\<close>

definition new_Unix :: "string \<Rightarrow> addr_error + sockaddr_un \<times> nat" where
  "new_Unix path =
     (let length0 = length path + 1;
          length1 = (if path \<noteq> [] \<and> hd path = chr 0 then length0 - 1 else length0)
      in if length1 > 108 then Inl Path_too_long
         else Inr (\<lparr>sun_family = AF_UNIX, sun_path = overwrite (replicate 108 0) 0 (take length1 (bytes path @ [0]))\<rparr>,
                   length1 + SUN_OFFSET))"

definition getPath :: "sockaddr_un \<Rightarrow> nat \<Rightarrow> string" where
  "getPath a n =
     (if n > SUN_OFFSET \<and> hd (sun_path a) = 0
      then [CHR 0x5C, CHR ''0''] @ chars (take (n - SUN_OFFSET - 1) (drop 1 (sun_path a)))
      else chars (takeWhile (\<lambda>b. b \<noteq> 0) (sun_path a)))"

section \<open>Comparison\<close>

text \<open>\<^verbatim>\<open>memcmp\<close> on the first \<open>n\<close> bytes.\<close>

fun memcmp :: "byte list \<Rightarrow> byte list \<Rightarrow> nat \<Rightarrow> int" where
  "memcmp (a # as) (b # bs) (Suc n) = (if a < b then - 1 else if b < a then 1 else memcmp as bs n)"
| "memcmp _ _ _ = 0"

definition addr_less :: "address \<Rightarrow> address \<Rightarrow> bool" where
  "addr_less lhs rhs =
     (let minlen = min (getAddrLen lhs) (getAddrLen rhs);
          result = memcmp (addr_image lhs) (addr_image rhs) minlen
      in if result < 0 then True
         else if result > 0 then False
         else getAddrLen lhs < getAddrLen rhs)"

definition addr_eq :: "address \<Rightarrow> address \<Rightarrow> bool" where
  "addr_eq lhs rhs \<longleftrightarrow> getAddrLen lhs = getAddrLen rhs \<and> memcmp (addr_image lhs) (addr_image rhs) (getAddrLen lhs) = 0"

section \<open>Masks\<close>

text \<open>
  \<^verbatim>\<open>(1 << (sizeof(T) * 8 - bits)) - 1\<close> on a 32-bit \<^verbatim>\<open>int\<close>: a shift by 32 or more (also for \<open>bits\<close> above the width,
  where the unsigned difference wraps) is undefined; a signed overflow wraps.
\<close>

definition CreateMask32 :: "u32 \<Rightarrow> addr_error + u32" where
  "CreateMask32 bits = (let n = usub 32 (unat bits) in
     if n \<ge> 32 then Inl Shift_overflow else Inr (push_bit n 1 - 1))"

definition CreateMask8 :: "u32 \<Rightarrow> addr_error + byte" where
  "CreateMask8 bits = (let n = usub 8 (unat bits) in
     if n \<ge> 32 then Inl Shift_overflow else Inr (ucast (push_bit n 1 - 1 :: u32)))"

function CountBytes :: "'a::len word \<Rightarrow> u32" where
  "CountBytes v = (if v = 0 then 0 else CountBytes (v AND (v - 1)) + 1)"
  by auto

lemma clear_lowest_less:
  fixes v :: "'a::len word"
  assumes "v \<noteq> 0"
  shows "unat (v AND (v - 1)) < unat v"
proof -
  have "v AND (v - 1) \<le> v - 1" using word_and_le2 by (metis and.commute)
  then have "unat (v AND (v - 1)) \<le> unat (v - 1)" by (simp add: word_le_nat_alt)
  also have "\<dots> < unat v" using assms by (simp add: unat_minus_one unat_gt_0)
  finally show ?thesis .
qed

termination CountBytes
  by (relation "measure unat") (simp_all add: clear_lowest_less)

declare CountBytes.simps [simp del]

definition broadcast4 :: "u32 \<Rightarrow> sockaddr_in \<Rightarrow> addr_error + sockaddr_in option" where
  "broadcast4 prefix_len a =
     (if prefix_len > 32 then Inr None
      else bindE (CreateMask32 prefix_len) (\<lambda>m. Inr (Some (a\<lparr>sin_addr := sin_addr a OR byteswapOnLittleEndian m\<rparr>))))"

definition network4 :: "u32 \<Rightarrow> sockaddr_in \<Rightarrow> addr_error + sockaddr_in option" where
  "network4 prefix_len a =
     (if prefix_len > 32 then Inr None
      else bindE (CreateMask32 prefix_len) (\<lambda>m. Inr (Some (a\<lparr>sin_addr := sin_addr a AND byteswapOnLittleEndian (NOT m)\<rparr>))))"

definition subnetMask4 :: "u32 \<Rightarrow> addr_error + sockaddr_in" where
  "subnetMask4 prefix_len =
     bindE (CreateMask32 prefix_len) (\<lambda>m. Inr \<lparr>sin_family = AF_INET, sin_port = 0,
       sin_addr = NOT (byteswapOnLittleEndian m), sin_zero = replicate 8 0\<rparr>)"

text \<open>An assignment to one byte of the address, then the loop over the bytes behind it.\<close>

definition fill_after :: "nat \<Rightarrow> byte \<Rightarrow> byte list \<Rightarrow> byte list" where
  "fill_after k v bs = take (Suc k) bs @ replicate (length bs - Suc k) v"

definition put_byte :: "nat \<Rightarrow> byte \<Rightarrow> byte list \<Rightarrow> addr_error + byte list" where
  "put_byte k v bs = (if k < length bs then Inr (bs[k := v]) else Inl Out_of_bounds)"

definition broadcast6 :: "u32 \<Rightarrow> sockaddr_in6 \<Rightarrow> addr_error + sockaddr_in6" where
  "broadcast6 prefix_len a =
     (let k = unat (prefix_len div 8) in
      bindE (CreateMask8 (prefix_len mod 8)) (\<lambda>m.
      bindE (put_byte k (sin6_addr a ! k OR m) (sin6_addr a)) (\<lambda>bs.
        Inr (a\<lparr>sin6_addr := fill_after k 0xff bs\<rparr>))))"

definition network6 :: "u32 \<Rightarrow> sockaddr_in6 \<Rightarrow> addr_error + sockaddr_in6" where
  "network6 prefix_len a =
     (let k = unat (prefix_len div 8) in
      bindE (CreateMask8 (prefix_len mod 8)) (\<lambda>m.
      bindE (put_byte k (sin6_addr a ! k AND NOT m) (sin6_addr a)) (\<lambda>bs.
        Inr (a\<lparr>sin6_addr := fill_after k 0 bs\<rparr>))))"

definition subnetMask6 :: "u32 \<Rightarrow> addr_error + sockaddr_in6" where
  "subnetMask6 prefix_len =
     (let k = unat (prefix_len div 8) in
      bindE (CreateMask8 (prefix_len mod 8)) (\<lambda>m.
      bindE (put_byte k (NOT m) (sin6_addr empty_IPv6)) (\<lambda>bs.
        Inr (empty_IPv6\<lparr>sin6_addr := replicate k 0xff @ drop k bs\<rparr>))))"

section \<open>Text\<close>

definition insert4 :: "sockaddr_in \<Rightarrow> string" where
  "insert4 a =
     (let addr = byteswapOnLittleEndian (sin_addr a)
      in show_nat (unat (drop_bit 24 addr AND 0xff)) @ ''.'' @ show_nat (unat (drop_bit 16 addr AND 0xff)) @ ''.''
         @ show_nat (unat (drop_bit 8 addr AND 0xff)) @ ''.'' @ show_nat (unat (addr AND 0xff))
         @ '':'' @ show_nat (unat (byteswapOnLittleEndian (sin_port a))))"

text \<open>The eight 16-bit groups as the host reads them, and the loop over them.\<close>

definition groups :: "byte list \<Rightarrow> u16 list" where
  "groups bs = map (\<lambda>i. of_mem [bs ! (2 * i), bs ! (2 * i + 1)]) [0..<8]"

fun insert6_loop :: "u16 list \<Rightarrow> nat \<Rightarrow> nat \<Rightarrow> bool \<Rightarrow> string \<Rightarrow> bool \<times> string" where
  "insert6_loop addr 0 i used_zeros os = (used_zeros, os)"
| "insert6_loop addr (Suc n) i used_zeros os =
     (if addr ! i = 0 \<and> \<not> used_zeros then insert6_loop addr n (Suc i) used_zeros os
      else
        let (used, os1) = (if i \<noteq> 0 \<and> addr ! (i - 1) = 0 \<and> \<not> used_zeros then (True, os @ '':'') else (used_zeros, os));
            os2 = (if i \<noteq> 0 then os1 @ '':'' else os1)
        in insert6_loop addr n (Suc i) used (os2 @ show_hex (unat (byteswapOnLittleEndian (addr ! i)))))"

definition insert6 :: "sockaddr_in6 \<Rightarrow> string" where
  "insert6 a =
     (let addr = groups (sin6_addr a);
          (used_zeros, os) = insert6_loop addr 8 0 False ''['';
          os1 = (if \<not> used_zeros \<and> addr ! 7 = 0 then os @ ''::'' else os)
      in os1 @ '']:'' @ show_nat (unat (byteswapOnLittleEndian (sin6_port a))))"

fun addr_toString :: "address \<Rightarrow> string" where
  "addr_toString (IPv4Address a) = insert4 a"
| "addr_toString (IPv6Address a) = insert6 a"
| "addr_toString (UnixAddress a n) = getPath a n"
| "addr_toString (UnknownAddress a) = ''[UnknownAddress family='' @ show_nat (unat (sa_family a)) @ '']''"

section \<open>Looking up\<close>

text \<open>
  How \<^verbatim>\<open>Lookup\<close> cuts a host text into the node and the service that it hands to \<^verbatim>\<open>getaddrinfo\<close>: the bracketed
  form first, then one colon, then the text as it is. The service pointer of the second form stays behind
  when there are several colons. Texts have no NUL inside.
\<close>

definition split_bracket :: "string \<Rightarrow> string \<times> string option" where
  "split_bracket host =
     (if host \<noteq> [] \<and> hd host = CHR ''['' then
        (case first_idx (\<lambda>c. c = CHR '']'') (tl host) of
           None \<Rightarrow> ('''', None)
         | Some n \<Rightarrow> (take n (tl host),
             (if drop (Suc n) (tl host) \<noteq> [] \<and> hd (drop (Suc n) (tl host)) = CHR '':'' then Some (drop (n + 2) (tl host)) else None)))
      else ('''', None))"

definition split_colon :: "string \<Rightarrow> string \<times> string option" where
  "split_colon host =
     (case first_idx (\<lambda>c. c = CHR '':'') host of
        None \<Rightarrow> ('''', None)
      | Some n \<Rightarrow> if CHR '':'' \<notin> set (drop (Suc n) host) then (take n host, Some (drop (Suc n) host))
                   else ('''', Some (drop n host)))"

definition split_host :: "string \<Rightarrow> string \<times> string option" where
  "split_host host =
     (let (node, service) = split_bracket host;
          (node1, service1) = (if node = [] then split_colon host else (node, service))
      in (if node1 = [] then host else node1, service1))"

text \<open>\<open>gai\<close> is \<^verbatim>\<open>getaddrinfo\<close>: the structures of its result list, or \<open>None\<close> for an error.\<close>

definition Lookup :: "(string \<Rightarrow> string option \<Rightarrow> raw_addr list option) \<Rightarrow> string \<Rightarrow> address option list \<Rightarrow> bool \<times> address option list" where
  "Lookup gai host result =
     (let (node, service) = split_host host in
      case gai node service of
        None \<Rightarrow> (False, result)
      | Some rs \<Rightarrow> (let result1 = result @ map (\<lambda>r. Address_Create (Some r)) rs in (result1 \<noteq> [], result1)))"

definition LookupAny :: "(string \<Rightarrow> string option \<Rightarrow> raw_addr list option) \<Rightarrow> string \<Rightarrow> address option" where
  "LookupAny gai host = (let (ok, result) = Lookup gai host [] in if ok then hd result else None)"

definition is_ip :: "address option \<Rightarrow> bool" where
  "is_ip a = (case a of Some (IPv4Address _) \<Rightarrow> True | Some (IPv6Address _) \<Rightarrow> True | _ \<Rightarrow> False)"

definition LookupAnyIPAddress :: "(string \<Rightarrow> string option \<Rightarrow> raw_addr list option) \<Rightarrow> string \<Rightarrow> address option" where
  "LookupAnyIPAddress gai host = (let (ok, result) = Lookup gai host [] in
     if ok then (case find is_ip result of None \<Rightarrow> None | Some a \<Rightarrow> a) else None)"

definition IPAddress_Create :: "(string \<Rightarrow> string option \<Rightarrow> raw_addr list option) \<Rightarrow> string \<Rightarrow> u16 \<Rightarrow> address option" where
  "IPAddress_Create gai address port =
     (case gai address None of
        None \<Rightarrow> None
      | Some [] \<Rightarrow> None
      | Some (r # _) \<Rightarrow> (case Address_Create (Some r) of
            Some (IPv4Address a) \<Rightarrow> Some (IPv4Address (setPort4 port a))
          | Some (IPv6Address a) \<Rightarrow> Some (IPv6Address (setPort6 port a))
          | _ \<Rightarrow> None))"

section \<open>The interfaces of the machine\<close>

text \<open>
  One entry of \<^verbatim>\<open>getifaddrs\<close>: the interface's name, its address (a null pointer for some interfaces) and its netmask.
\<close>

record ifaddr =
  ifa_name :: string
  ifa_addr :: "raw_addr option"
  ifa_netmask :: raw_addr

definition raw_family :: "raw_addr \<Rightarrow> u16" where
  "raw_family r = (case r of Raw_in a \<Rightarrow> sin_family a | Raw_in6 a \<Rightarrow> sin6_family a | Raw_other a \<Rightarrow> sa_family a)"

fun prefix_of :: "raw_addr \<Rightarrow> u32" where
  "prefix_of (Raw_in m) = CountBytes (sin_addr m)"
| "prefix_of (Raw_in6 m) = foldl (\<lambda>n b. n + CountBytes b) 0 (sin6_addr m)"
| "prefix_of (Raw_other m) = - 1"

text \<open>A \<^verbatim>\<open>multimap\<close> is the list of its entries in order of insertion; equal keys keep that order.\<close>

fun interface_loop :: "u16 \<Rightarrow> ifaddr list \<Rightarrow> (string \<times> address \<times> u32) list \<Rightarrow> addr_error + (string \<times> address \<times> u32) list" where
  "interface_loop family [] result = Inr result"
| "interface_loop family (i # is) result =
     (case ifa_addr i of
        None \<Rightarrow> Inl Out_of_bounds
      | Some r \<Rightarrow>
          if family \<noteq> AF_UNSPEC \<and> family \<noteq> raw_family r then interface_loop family is result
          else (case r of
              Raw_in a \<Rightarrow> interface_loop family is (result @ [(ifa_name i, IPv4Address a, prefix_of (ifa_netmask i))])
            | Raw_in6 a \<Rightarrow> interface_loop family is (result @ [(ifa_name i, IPv6Address a, prefix_of (ifa_netmask i))])
            | Raw_other a \<Rightarrow> interface_loop family is result))"

definition GetInterfaceAddresses :: "ifaddr list option \<Rightarrow> u16 \<Rightarrow> addr_error + bool \<times> (string \<times> address \<times> u32) list" where
  "GetInterfaceAddresses interfaces family =
     (case interfaces of None \<Rightarrow> Inr (False, [])
      | Some is \<Rightarrow> bindE (interface_loop family is []) (\<lambda>result. Inr (result \<noteq> [], result)))"

definition GetInterfaceAddresses_of :: "ifaddr list option \<Rightarrow> string \<Rightarrow> u16 \<Rightarrow> addr_error + bool \<times> (address \<times> u32) list" where
  "GetInterfaceAddresses_of interfaces iface family =
     (if iface = [] \<or> iface = ''*'' then
        Inr (True, (if family = AF_INET \<or> family = AF_UNSPEC then [(IPv4Address (new_IPv4 0 0), 0)] else [])
                 @ (if family = AF_INET6 \<or> family = AF_UNSPEC then [(IPv6Address empty_IPv6, 0)] else []))
      else bindE (GetInterfaceAddresses interfaces family) (\<lambda>(ok, results).
        if \<not> ok then Inr (False, [])
        else (let r = map snd (filter (\<lambda>e. fst e = iface) results) in Inr (r \<noteq> [], r))))"

section \<open>The order of addresses\<close>

definition bytes_less :: "byte list \<Rightarrow> byte list \<Rightarrow> bool" where
  "bytes_less as bs =
     (let r = memcmp as bs (min (length as) (length bs)) in r < 0 \<or> r = 0 \<and> length as < length bs)"

lemma bytes_less_simps [simp]:
  "\<not> bytes_less as []" "bytes_less [] (b # bs)"
  "bytes_less (a # as) (b # bs) \<longleftrightarrow> a < b \<or> a = b \<and> bytes_less as bs"
  by (auto simp: bytes_less_def Let_def)

lemma bytes_less_trans: "bytes_less as bs \<Longrightarrow> bytes_less bs cs \<Longrightarrow> bytes_less as cs"
proof (induction as arbitrary: bs cs)
  case Nil
  then show ?case by (cases bs; cases cs) auto
next
  case (Cons a as)
  obtain b bs' where bs: "bs = b # bs'" using Cons.prems by (cases bs) auto
  obtain c cs' where cs: "cs = c # cs'" using Cons.prems bs by (cases cs) auto
  show ?case using Cons bs cs by (auto intro: less_trans)
qed

lemma bytes_less_total: "as \<noteq> bs \<Longrightarrow> bytes_less as bs \<or> bytes_less bs as"
proof (induction as arbitrary: bs)
  case Nil
  then show ?case by (cases bs) auto
next
  case (Cons a as)
  then show ?case by (cases bs) (auto simp: linorder_neq_iff)
qed

lemma bytes_less_irrefl: "\<not> bytes_less as as"
  by (induction as) auto

interpretation addr_bytes: strict_total bytes_less
proof unfold_locales
  fix x y z :: "byte list"
  show "\<not> bytes_less x x" by (rule bytes_less_irrefl)
  show "bytes_less x y \<Longrightarrow> bytes_less y z \<Longrightarrow> bytes_less x z" by (rule bytes_less_trans)
  show "bytes_less x z \<Longrightarrow> bytes_less x y \<or> bytes_less y z"
    using bytes_less_total bytes_less_trans by metis
  show "x \<noteq> y \<Longrightarrow> bytes_less x y \<or> bytes_less y x" by (rule bytes_less_total)
qed

definition addr_key :: "address \<Rightarrow> byte list" where
  "addr_key a = take (getAddrLen a) (addr_image a)"

lemma addr_image_length: "addr_wf a \<Longrightarrow> getAddrLen a \<le> length (addr_image a)"
  by (cases a) auto

lemma memcmp_take: "memcmp (take m as) (take n bs) k = memcmp as bs (min k (min m n))"
proof (induction as bs k arbitrary: m n rule: memcmp.induct)
  case (1 a as b bs k)
  then show ?case by (cases m; cases n) auto
qed (auto simp: take_Cons' split: list.splits)

lemma addr_less_key: "addr_wf a \<Longrightarrow> addr_wf b \<Longrightarrow> addr_less a b = bytes_less (addr_key a) (addr_key b)"
  using addr_image_length [of a] addr_image_length [of b]
  by (simp add: addr_less_def bytes_less_def addr_key_def Let_def memcmp_take)

lemma memcmp_eq: "n \<le> length as \<Longrightarrow> n \<le> length bs \<Longrightarrow> memcmp as bs n = 0 \<longleftrightarrow> take n as = take n bs"
  by (induction as bs n rule: memcmp.induct) auto

lemma addr_eq_key: "addr_wf a \<Longrightarrow> addr_wf b \<Longrightarrow> addr_eq a b \<longleftrightarrow> addr_key a = addr_key b"
proof -
  assume wf: "addr_wf a" "addr_wf b"
  note l = addr_image_length [OF wf(1)] addr_image_length [OF wf(2)]
  have "addr_key a = addr_key b \<Longrightarrow> getAddrLen a = getAddrLen b"
    using l by (metis addr_key_def length_take min.absorb2)
  then show ?thesis
    using l by (auto simp: addr_eq_def addr_key_def memcmp_eq)
qed

text \<open>
  Property C23. Addresses can be the keys of ordered containers: \<^verbatim>\<open>operator<\<close> is a strict weak order on all addresses,
  of whatever families, two addresses are equivalent under it exactly when \<^verbatim>\<open>operator==\<close> holds, and it is the
  lexicographic order of their memory images.
\<close>

theorem address_order:
  assumes "addr_wf a" and "addr_wf b" and "addr_wf c"
  shows "\<not> addr_less a a \<and> (addr_less a b \<and> addr_less b c \<longrightarrow> addr_less a c)
    \<and> (addr_less a c \<longrightarrow> addr_less a b \<or> addr_less b c)
    \<and> (addr_eq a b \<longleftrightarrow> \<not> addr_less a b \<and> \<not> addr_less b a)
    \<and> (addr_less a b \<longleftrightarrow> bytes_less (addr_key a) (addr_key b))"
  using addr_bytes.irrefl addr_bytes.trans addr_bytes.weak bytes_less_total [of "addr_key a" "addr_key b"] bytes_less_irrefl
  by (auto simp: addr_less_key addr_eq_key assms)

theorem address_order_witness:
  "\<not> addr_less (IPv4Address (new_IPv4 0x7F000001 80)) (IPv4Address (new_IPv4 0x7F000001 80))
   \<and> addr_less (IPv4Address (new_IPv4 0x7F000001 80)) (IPv6Address empty_IPv6)"
proof -
  have wf: "addr_wf (IPv4Address (new_IPv4 0x7F000001 80))" "addr_wf (IPv6Address empty_IPv6)"
    by (simp_all add: new_IPv4_def empty_IPv6_def)
  have "bytes_less (addr_key (IPv4Address (new_IPv4 0x7F000001 80))) (addr_key (IPv6Address empty_IPv6))"
    by code_simp
  with address_order [OF wf(1,2,2)] show ?thesis by simp
qed

section \<open>Counting the bits of a netmask\<close>

fun popcount :: "nat \<Rightarrow> nat" where
  "popcount n = (if n = 0 then 0 else n mod 2 + popcount (n div 2))"

declare popcount.simps [simp del]

lemma popcount_0 [simp]: "popcount 0 = 0"
  by (simp add: popcount.simps)

lemma popcount_double [simp]: "popcount (2 * n) = popcount n" "popcount (Suc (2 * n)) = Suc (popcount n)"
  by (subst popcount.simps, simp)+

lemma bit_nat_less: "bit (n :: nat) i \<Longrightarrow> i < n"
proof -
  assume "bit n i"
  then have "n div 2 ^ i \<noteq> 0" by (metis bit_iff_odd even_zero)
  then have "2 ^ i \<le> n" by (metis div_less not_le)
  then show ?thesis using less_exp [of i] by linarith
qed

lemma popcount_card: "popcount n = card {i. bit n i}"
proof (induction n rule: popcount.induct)
  case (1 n)
  show ?case
  proof (cases "n = 0")
    case False
    have fin: "finite {i. bit (n div 2) i}"
      by (rule finite_subset [of _ "{..<n div 2}"]) (auto dest: bit_nat_less)
    have "bit n i \<longleftrightarrow> i = 0 \<and> odd n \<or> (\<exists>j. i = Suc j \<and> bit (n div 2) j)" for i
      by (cases i) (simp_all add: bit_0 bit_Suc)
    then have "{i. bit n i} = (if odd n then {0} else {}) \<union> Suc ` {i. bit (n div 2) i}"
      by auto
    then have "card {i. bit n i} = (if odd n then 1 else 0) + card {i. bit (n div 2) i}"
      using fin by (simp add: card_image card_insert_if image_iff)
    then show ?thesis using 1 False by (subst popcount.simps) (simp add: odd_iff_mod_2_eq_one)
  qed simp
qed

lemma popcount_clear: "n \<noteq> 0 \<Longrightarrow> Suc (popcount (n AND (n - 1))) = popcount n" for n :: nat
proof (induction n rule: popcount.induct)
  case (1 n)
  show ?case
  proof (cases "even n")
    case True
    then obtain k where k: "n = 2 * k" by blast
    then have "n - 1 = Suc (2 * (k - 1))" using 1(2) by auto
    then have "n AND (n - 1) = 2 * (k AND (k - 1))" by (simp add: k and_nat_rec [of "2 * k"])
    then show ?thesis using 1 k by simp
  next
    case False
    then obtain k where k: "n = Suc (2 * k)" by (auto elim: oddE)
    then have "n AND (n - 1) = 2 * k" by (simp add: and_nat_rec [of "Suc (2 * k)"])
    then show ?thesis by (simp add: k)
  qed
qed

lemma CountBytes_popcount: "popcount (unat v) < 2 ^ 32 \<Longrightarrow> unat (CountBytes v) = popcount (unat v)" for v :: "'a::len word"
proof (induction v rule: CountBytes.induct)
  case (1 v)
  show ?case
  proof (cases "v = 0")
    case False
    let ?w = "v AND (v - 1)"
    have "unat ?w = unat v AND (unat v - 1)"
      using False by (simp add: unsigned_and_eq unat_minus_one)
    then have s: "Suc (popcount (unat ?w)) = popcount (unat v)"
      using popcount_clear [of "unat v"] False by (simp add: unat_eq_0)
    then have "unat (CountBytes ?w) = popcount (unat ?w)" using 1 False by simp
    then have "unat (CountBytes ?w) + 1 = popcount (unat v)" using s by simp
    moreover have "unat (CountBytes ?w + 1) = unat (CountBytes ?w) + 1"
      using calculation 1(2) by (subst unat_add_lem [THEN iffD1]) simp_all
    ultimately show ?thesis using False by (subst CountBytes.simps) simp
  qed (simp add: CountBytes.simps)
qed

lemma popcount_le: "n < 2 ^ k \<Longrightarrow> popcount n \<le> k"
proof (induction k arbitrary: n)
  case (Suc k)
  then have "n div 2 < 2 ^ k" by (simp add: less_mult_imp_div_less)
  then have "popcount (n div 2) \<le> k" by (rule Suc.IH)
  moreover have "n mod 2 \<le> 1" by simp
  ultimately show ?case by (subst popcount.simps) auto
qed simp

text \<open>
  The loop of \<^verbatim>\<open>CountBytes\<close>, which clears the lowest set bit in each round, ends for every value and returns the
  number of its set bits.
\<close>

theorem CountBytes_counts:
  "unat (CountBytes (v :: u32)) = card {i. bit v i} \<and> unat (CountBytes (b :: byte)) = card {i. bit b i}"
proof -
  have "popcount (unat v) \<le> 32" "popcount (unat b) \<le> 8"
    using popcount_le [of "unat v" 32] popcount_le [of "unat b" 8] unsigned_less [of v, where 'a = nat] unsigned_less [of b, where 'a = nat]
    by simp_all
  then show ?thesis by (simp add: CountBytes_popcount popcount_card bit_unsigned_iff)
qed

section \<open>Prefixes\<close>

lemma bit_byteswap:
  assumes "8 dvd LENGTH('a)" and "n < LENGTH('a)"
  shows "bit (byteswap (w :: 'a::len word)) n \<longleftrightarrow> bit w (8 * (LENGTH('a) div 8 - 1 - n div 8) + n mod 8)"
proof -
  have q: "n div 8 < LENGTH('a) div 8" using assms by (simp add: less_mult_imp_div_less)
  then have "rev (mem w) ! (n div 8) = ucast (drop_bit (8 * (LENGTH('a) div 8 - 1 - n div 8)) w)"
    by (simp add: rev_nth mem_def)
  then show ?thesis using q assms(2) by (simp add: byteswap_def bit_of_mem bit_simps)
qed

lemma byteswap_bitwise:
  fixes a b :: u32
  shows "byteswap (a AND b) = byteswap a AND byteswap b" "byteswap (a OR b) = byteswap a OR byteswap b"
    "byteswap (NOT a) = NOT (byteswap a)"
proof -
  have pos: "8 * (3 - n div 8) + n mod 8 < 32" for n :: nat
    using mod_less_divisor [of 8 n] by linarith
  show "byteswap (a AND b) = byteswap a AND byteswap b" "byteswap (a OR b) = byteswap a OR byteswap b"
    by (rule bit_word_eqI, simp add: bit_byteswap bit_simps)+
  show "byteswap (NOT a) = NOT (byteswap a)"
    by (rule bit_word_eqI) (use pos in \<open>simp add: bit_byteswap bit_not_iff\<close>)
qed

definition host4 :: "sockaddr_in \<Rightarrow> u32" where "host4 a = byteswapOnLittleEndian (sin_addr a)"

lemma CreateMask32_mask:
  assumes "1 \<le> p" and "p \<le> 32"
  shows "CreateMask32 p = Inr (mask (32 - unat p))"
proof -
  have "1 \<le> unat p" "unat p \<le> 32" using assms by (simp_all add: word_le_nat_alt)
  then show ?thesis by (simp add: CreateMask32_def Let_def mask_eq_exp_minus_1 push_bit_eq_mult)
qed

lemma CreateMask32_zero: "CreateMask32 0 = Inl Shift_overflow"
  by (simp add: CreateMask32_def)

lemma CreateMask8_mask:
  assumes "p < 8"
  shows "CreateMask8 p = Inr (mask (8 - unat p))"
proof -
  have "unat p < 8" using assms by (simp add: word_less_nat_alt)
  moreover have "(ucast (mask n :: u32) :: byte) = mask n" for n
    by (rule bit_word_eqI) (simp add: bit_simps)
  ultimately show ?thesis by (simp add: CreateMask8_def Let_def mask_eq_exp_minus_1 push_bit_eq_mult)
qed

lemma masks4:
  assumes "1 \<le> p" and "p \<le> 32" and "i < 32"
  shows "\<exists>n b m. network4 p a = Inr (Some n) \<and> broadcast4 p a = Inr (Some b) \<and> subnetMask4 p = Inr m
    \<and> n = a\<lparr>sin_addr := sin_addr n\<rparr> \<and> b = a\<lparr>sin_addr := sin_addr b\<rparr>
    \<and> (bit (host4 n) i \<longleftrightarrow> bit (host4 a) i \<and> 32 - unat p \<le> i)
    \<and> (bit (host4 b) i \<longleftrightarrow> bit (host4 a) i \<or> i < 32 - unat p)
    \<and> (bit (host4 m) i \<longleftrightarrow> 32 - unat p \<le> i)"
proof -
  note m = CreateMask32_mask [OF assms(1,2)]
  have sw: "byteswap (byteswap x) = x" for x :: u32 by (simp add: byteswap_byteswap)
  show ?thesis
    using assms(2,3)
    by (auto simp: network4_def broadcast4_def subnetMask4_def m host4_def byteswapOnLittleEndian_def
        byteswap_bitwise sw bit_simps not_less [symmetric])
qed

text \<open>The bits of an IPv6 address, counted from the front as prefixes are.\<close>

definition bit_at :: "byte list \<Rightarrow> nat \<Rightarrow> bool" where
  "bit_at bs i = bit (bs ! (i div 8)) (7 - i mod 8)"

lemma prefix_position:
  fixes i k :: nat
  assumes "i < 128" and "k < 128"
  shows "i < k \<longleftrightarrow> i div 8 < k div 8 \<or> i div 8 = k div 8 \<and> i mod 8 < k mod 8"
proof -
  have "i = 8 * (i div 8) + i mod 8" "k = 8 * (k div 8) + k mod 8" by simp_all
  moreover have "i mod 8 < 8" "k mod 8 < 8" by simp_all
  ultimately show ?thesis by linarith
qed

lemma masks6:
  assumes "p < 128" and "length (sin6_addr a) = 16" and "i < 128"
  shows "\<exists>n b m. network6 p a = Inr n \<and> broadcast6 p a = Inr b \<and> subnetMask6 p = Inr m
    \<and> n = a\<lparr>sin6_addr := sin6_addr n\<rparr> \<and> b = a\<lparr>sin6_addr := sin6_addr b\<rparr>
    \<and> (bit_at (sin6_addr n) i \<longleftrightarrow> bit_at (sin6_addr a) i \<and> i < unat p)
    \<and> (bit_at (sin6_addr b) i \<longleftrightarrow> bit_at (sin6_addr a) i \<or> unat p \<le> i)
    \<and> (bit_at (sin6_addr m) i \<longleftrightarrow> i < unat p)"
proof -
  define k where "k = unat (p div 8)"
  have p: "unat p < 128" using assms(1) by (simp add: word_less_nat_alt)
  have k: "k = unat p div 8" "k < 16" using p by (simp_all add: k_def unat_div)
  have r: "unat (p mod 8) = unat p mod 8" by (simp add: unat_mod)
  then have "p mod 8 < 8" by (simp add: word_less_nat_alt)
  note m = CreateMask8_mask [OF this, unfolded r]
  let ?r = "unat p mod 8"
  have q: "i div 8 < 16" using assms(3) by simp
  have b7: "7 - i mod 8 < 8 - ?r \<longleftrightarrow> ?r \<le> i mod 8" using mod_less_divisor [of 8 i] by linarith
  have l8: "7 - i mod 8 < (8 :: nat)" by simp
  have ff: "bit (0xff :: byte) (7 - i mod 8)"
  proof -
    have "(0xff :: byte) = mask 8" by (simp add: mask_eq_exp_minus_1)
    then show ?thesis by (simp only: bit_mask_iff) simp
  qed
  have lt: "i < unat p \<longleftrightarrow> i div 8 < k \<or> i div 8 = k \<and> i mod 8 < ?r"
    using prefix_position [OF assms(3) p] k(1) by simp
  have n: "network6 p a = Inr (a\<lparr>sin6_addr := fill_after k 0 ((sin6_addr a)[k := sin6_addr a ! k AND NOT (mask (8 - ?r))])\<rparr>)"
    using k assms(2) m by (simp add: network6_def put_byte_def Let_def flip: k_def)
  have b: "broadcast6 p a = Inr (a\<lparr>sin6_addr := fill_after k 0xff ((sin6_addr a)[k := sin6_addr a ! k OR mask (8 - ?r)])\<rparr>)"
    using k assms(2) m by (simp add: broadcast6_def put_byte_def Let_def flip: k_def)
  have s: "subnetMask6 p = Inr (empty_IPv6\<lparr>sin6_addr := replicate k 0xff @ drop k ((sin6_addr empty_IPv6)[k := NOT (mask (8 - ?r))])\<rparr>)"
    using k m by (simp add: subnetMask6_def put_byte_def empty_IPv6_def Let_def flip: k_def)
  have fill: "fill_after k v bs ! j = (if j \<le> k then bs ! j else v)" if "length bs = 16" "j < 16" for v j and bs :: "byte list"
    using that k(2) by (auto simp: fill_after_def nth_append min_def)
  have nb: "bit_at (fill_after k 0 ((sin6_addr a)[k := sin6_addr a ! k AND NOT (mask (8 - ?r))])) i
      \<longleftrightarrow> bit_at (sin6_addr a) i \<and> i < unat p"
    using assms(2) q k(2) b7 l8 unfolding lt by (auto simp: bit_at_def fill nth_list_update bit_simps)
  have bb: "bit_at (fill_after k 0xff ((sin6_addr a)[k := sin6_addr a ! k OR mask (8 - ?r)])) i
      \<longleftrightarrow> bit_at (sin6_addr a) i \<or> \<not> i < unat p"
    using assms(2) q k(2) b7 ff l8 unfolding lt by (auto simp: bit_at_def fill nth_list_update bit_simps)
  have sb: "bit_at (replicate k 0xff @ drop k ((sin6_addr empty_IPv6)[k := NOT (mask (8 - ?r))])) i \<longleftrightarrow> i < unat p"
    using q k(2) b7 ff l8 unfolding lt by (auto simp: bit_at_def empty_IPv6_def nth_append nth_list_update bit_simps)
  show ?thesis using n b s nb bb sb by (simp add: not_less)
qed

text \<open>
  The network address, the broadcast address and the subnet mask of a prefix length, bit by bit: the network
  address keeps the bits of the prefix and clears the others, the broadcast address sets the others, the mask has exactly
  the bits of the prefix; all other fields stay. IPv4 for lengths from 1 to 32, IPv6 from 0 to 127; for IPv4 and length 0 the
  mask is a shift by the full width, and for IPv6 and length 128 the first byte behind the address is accessed.
\<close>

theorem prefix_masks:
  assumes "length (sin6_addr a6) = 16"
  shows "(1 \<le> p \<and> p \<le> 32 \<and> i < 32 \<longrightarrow> (\<exists>n b m. network4 p a4 = Inr (Some n) \<and> broadcast4 p a4 = Inr (Some b) \<and> subnetMask4 p = Inr m
      \<and> n = a4\<lparr>sin_addr := sin_addr n\<rparr> \<and> b = a4\<lparr>sin_addr := sin_addr b\<rparr>
      \<and> (bit (host4 n) i \<longleftrightarrow> bit (host4 a4) i \<and> 32 - unat p \<le> i)
      \<and> (bit (host4 b) i \<longleftrightarrow> bit (host4 a4) i \<or> i < 32 - unat p)
      \<and> (bit (host4 m) i \<longleftrightarrow> 32 - unat p \<le> i)))
    \<and> (p < 128 \<and> i < 128 \<longrightarrow> (\<exists>n b m. network6 p a6 = Inr n \<and> broadcast6 p a6 = Inr b \<and> subnetMask6 p = Inr m
      \<and> n = a6\<lparr>sin6_addr := sin6_addr n\<rparr> \<and> b = a6\<lparr>sin6_addr := sin6_addr b\<rparr>
      \<and> (bit_at (sin6_addr n) i \<longleftrightarrow> bit_at (sin6_addr a6) i \<and> i < unat p)
      \<and> (bit_at (sin6_addr b) i \<longleftrightarrow> bit_at (sin6_addr a6) i \<or> unat p \<le> i)
      \<and> (bit_at (sin6_addr m) i \<longleftrightarrow> i < unat p)))
    \<and> network4 0 a4 = Inl Shift_overflow \<and> broadcast4 0 a4 = Inl Shift_overflow
    \<and> network6 128 a6 = Inl Out_of_bounds \<and> broadcast6 128 a6 = Inl Out_of_bounds"
proof (intro conjI impI)
  show "1 \<le> p \<and> p \<le> 32 \<and> i < 32 \<Longrightarrow> \<exists>n b m. network4 p a4 = Inr (Some n) \<and> broadcast4 p a4 = Inr (Some b) \<and> subnetMask4 p = Inr m
      \<and> n = a4\<lparr>sin_addr := sin_addr n\<rparr> \<and> b = a4\<lparr>sin_addr := sin_addr b\<rparr>
      \<and> (bit (host4 n) i \<longleftrightarrow> bit (host4 a4) i \<and> 32 - unat p \<le> i)
      \<and> (bit (host4 b) i \<longleftrightarrow> bit (host4 a4) i \<or> i < 32 - unat p)
      \<and> (bit (host4 m) i \<longleftrightarrow> 32 - unat p \<le> i)"
    by (rule masks4) simp_all
  show "p < 128 \<and> i < 128 \<Longrightarrow> \<exists>n b m. network6 p a6 = Inr n \<and> broadcast6 p a6 = Inr b \<and> subnetMask6 p = Inr m
      \<and> n = a6\<lparr>sin6_addr := sin6_addr n\<rparr> \<and> b = a6\<lparr>sin6_addr := sin6_addr b\<rparr>
      \<and> (bit_at (sin6_addr n) i \<longleftrightarrow> bit_at (sin6_addr a6) i \<and> i < unat p)
      \<and> (bit_at (sin6_addr b) i \<longleftrightarrow> bit_at (sin6_addr a6) i \<or> unat p \<le> i)
      \<and> (bit_at (sin6_addr m) i \<longleftrightarrow> i < unat p)"
    using masks6 [of p a6 i] assms by blast
qed (simp_all add: network4_def broadcast4_def CreateMask32_zero network6_def broadcast6_def put_byte_def assms CreateMask8_mask [of 0, simplified])

theorem prefix_masks_witness:
  "\<exists>n. network4 24 (new_IPv4 0xC0A80181 0) = Inr (Some n) \<and> (bit (host4 n) 7 \<longleftrightarrow> False)"
  using prefix_masks [of empty_IPv6 24 7 "new_IPv4 0xC0A80181 0"] by (auto simp: empty_IPv6_def)

section \<open>The text of an IPv6 address\<close>

text \<open>The reference: the first run of zero groups is written as two colons, the other groups in hexadecimal.\<close>

definition group_text :: "u16 \<Rightarrow> string" where
  "group_text w = show_hex (unat (byteswapOnLittleEndian w))"

fun join :: "string list \<Rightarrow> string" where
  "join [] = ''''"
| "join [s] = s"
| "join (s # t # ss) = s @ '':'' @ join (t # ss)"

definition ipv6_text :: "u16 list \<Rightarrow> string" where
  "ipv6_text ws =
     (if 0 \<notin> set ws then join (map group_text ws)
      else join (map group_text (takeWhile (\<lambda>w. w \<noteq> 0) ws)) @ ''::''
           @ join (map group_text (dropWhile (\<lambda>w. w = 0) (dropWhile (\<lambda>w. w \<noteq> 0) ws))))"

definition colon_all :: "u16 list \<Rightarrow> string" where
  "colon_all ws = concat (map (\<lambda>w. '':'' @ group_text w) ws)"

lemma colon_all_simps [simp]: "colon_all [] = ''''" "colon_all (w # ws) = '':'' @ group_text w @ colon_all ws"
  by (simp_all add: colon_all_def)

lemma join_colon: "ws \<noteq> [] \<Longrightarrow> '':'' @ join (map group_text ws) = colon_all ws"
proof (induction ws)
  case (Cons w ws)
  then show ?case by (cases ws) auto
qed simp

lemma join_cons: "join (s # map group_text ws) = s @ colon_all ws"
  using join_colon [of ws] by (cases ws) simp_all

lemma loop_used:
  "length addr = i + n \<Longrightarrow> 0 < i \<Longrightarrow> insert6_loop addr n i True os = (True, os @ colon_all (drop i addr))"
proof (induction n arbitrary: i os)
  case (Suc n)
  then have d: "drop i addr = addr ! i # drop (Suc i) addr" by (simp add: Cons_nth_drop_Suc)
  then show ?case using Suc by (simp add: Let_def group_text_def)
qed simp

lemma loop_zeros:
  "length addr = i + n \<Longrightarrow> 0 < i \<Longrightarrow> addr ! (i - 1) = 0 \<Longrightarrow>
   insert6_loop addr n i False os =
     (let post = dropWhile (\<lambda>w. w = 0) (drop i addr) in if post = [] then (False, os) else (True, os @ '':'' @ colon_all post))"
proof (induction n arbitrary: i os)
  case (Suc n)
  then have d: "drop i addr = addr ! i # drop (Suc i) addr" by (simp add: Cons_nth_drop_Suc)
  show ?case
  proof (cases "addr ! i = 0")
    case True
    then show ?thesis using Suc d by simp
  next
    case False
    then show ?thesis using Suc.prems d by (simp add: Let_def loop_used group_text_def)
  qed
qed simp

lemma loop_first:
  "length addr = i + n \<Longrightarrow> i = 0 \<or> addr ! (i - 1) \<noteq> 0 \<Longrightarrow>
   insert6_loop addr n i False os =
     (let ws = drop i addr; pre = takeWhile (\<lambda>w. w \<noteq> 0) ws; post = dropWhile (\<lambda>w. w = 0) (dropWhile (\<lambda>w. w \<noteq> 0) ws);
          os1 = os @ (if i = 0 then join (map group_text pre) else colon_all pre)
      in if post = [] then (False, os1) else (True, os1 @ '':'' @ colon_all post))"
proof (induction n arbitrary: i os)
  case (Suc n)
  then have d: "drop i addr = addr ! i # drop (Suc i) addr" by (simp add: Cons_nth_drop_Suc)
  show ?case
  proof (cases "addr ! i = 0")
    case True
    then show ?thesis using Suc.prems d loop_zeros [of addr "Suc i" n os] by (simp add: Let_def)
  next
    case False
    let ?ws = "drop (Suc i) addr"
    have step: "insert6_loop addr (Suc n) i False os
        = insert6_loop addr n (Suc i) False ((if i = 0 then os else os @ '':'') @ group_text (addr ! i))"
      using False Suc.prems(2) by (auto simp: Let_def group_text_def)
    have ih: "insert6_loop addr n (Suc i) False os' =
        (let pre = takeWhile (\<lambda>w. w \<noteq> 0) ?ws; post = dropWhile (\<lambda>w. w = 0) (dropWhile (\<lambda>w. w \<noteq> 0) ?ws); os1 = os' @ colon_all pre
         in if post = [] then (False, os1) else (True, os1 @ '':'' @ colon_all post))" for os'
      using Suc.IH [of "Suc i" os'] Suc.prems(1) False by (simp add: Let_def)
    have pre: "takeWhile (\<lambda>w. w \<noteq> 0) (drop i addr) = addr ! i # takeWhile (\<lambda>w. w \<noteq> 0) ?ws"
      "dropWhile (\<lambda>w. w \<noteq> 0) (drop i addr) = dropWhile (\<lambda>w. w \<noteq> 0) ?ws" using False by (simp_all add: d)
    define A where "A = takeWhile (\<lambda>w. w \<noteq> 0) ?ws"
    define B where "B = dropWhile (\<lambda>w. w = 0) (dropWhile (\<lambda>w. w \<noteq> 0) ?ws)"
    have tx: "(if i = 0 then os else os @ '':'') @ group_text (addr ! i) @ colon_all A
        = os @ (if i = 0 then join (map group_text (addr ! i # A)) else colon_all (addr ! i # A))"
      by (simp only: list.map join_cons colon_all_simps) simp
    have tx2: "(if i = 0 then os else os @ '':'') @ group_text (addr ! i) @ colon_all A @ X
        = os @ (if i = 0 then join (map group_text (addr ! i # A)) else colon_all (addr ! i # A)) @ X" for X
      using arg_cong [OF tx, of "\<lambda>s. s @ X"] by (simp only: append_assoc)
    show ?thesis
      unfolding step ih pre Let_def A_def [symmetric] B_def [symmetric] append_assoc tx2 unfolding tx by (rule refl)
  qed
qed (simp add: Let_def)

lemma groups_length [simp]: "length (groups bs) = 8"
  by (simp add: groups_def)

text \<open>
  Property C24. The loop that prints an IPv6 address, with its flag for the zeros, is equivalent to the reference: the
  first run of zero groups becomes two colons, all other groups are separated by single colons.
\<close>

theorem ipv6_text_reference:
  "addr_toString (IPv6Address a) = ''['' @ ipv6_text (groups (sin6_addr a)) @ '']:'' @ show_nat (unat (getPort6 a))"
proof -
  let ?g = "groups (sin6_addr a)"
  define pre where "pre = takeWhile (\<lambda>w. w \<noteq> 0) ?g"
  define rest where "rest = dropWhile (\<lambda>w. w \<noteq> 0) ?g"
  define post where "post = dropWhile (\<lambda>w. w = 0) rest"
  have g: "?g = pre @ rest" by (simp add: pre_def rest_def)
  have loop: "insert6_loop ?g 8 0 False ''['' =
      (if post = [] then (False, ''['' @ join (map group_text pre)) else (True, ''['' @ join (map group_text pre) @ '':'' @ colon_all post))"
    using loop_first [of ?g 0 8 "''[''"]
    unfolding Let_def drop_0 pre_def [symmetric] rest_def [symmetric] post_def [symmetric] by simp
  have ne: "?g \<noteq> []" by (simp add: groups_def)
  have last: "?g ! 7 = last ?g" using last_conv_nth [OF ne] by simp
  have z: "0 \<in> set ?g \<longleftrightarrow> rest \<noteq> []" by (auto simp: rest_def)
  have nz: "0 \<notin> set pre" by (auto simp: pre_def dest: set_takeWhileD)
  show ?thesis
  proof (cases "rest = []")
    case True
    have "?g ! 7 \<in> set pre" using True g last last_in_set [OF ne] by simp
    then have "?g ! 7 \<noteq> 0" using nz by metis
    then show ?thesis using True z loop g by (simp add: insert6_def ipv6_text_def getPort6_def post_def)
  next
    case False
    show ?thesis
    proof (cases "post = []")
      case True
      then have "\<forall>w\<in>set rest. w = 0" by (simp add: post_def)
      then have "?g ! 7 = 0" using False g last by (metis last_appendR last_in_set)
      then show ?thesis using True False z loop
        by (simp add: insert6_def ipv6_text_def getPort6_def flip: pre_def rest_def post_def)
    next
      case p: False
      have "'':'' @ colon_all post = ''::'' @ join (map group_text post)" using join_colon [OF p] by simp
      then show ?thesis using p False z loop
        by (simp add: insert6_def ipv6_text_def getPort6_def flip: pre_def rest_def post_def)
    qed
  qed
qed

lemma loopback_text: "addr_toString (IPv6Address (new_IPv6 (replicate 15 0 @ [1]) 80)) = ''[::1]:80''"
  by code_simp

section \<open>The text of an IPv4 address\<close>

lemma octets_text:
  "addr_toString (IPv4Address a) = show_nat (unat (host4 a) div 2 ^ 24) @ ''.'' @ show_nat (unat (host4 a) div 2 ^ 16 mod 256)
     @ ''.'' @ show_nat (unat (host4 a) div 2 ^ 8 mod 256) @ ''.'' @ show_nat (unat (host4 a) mod 256)
     @ '':'' @ show_nat (unat (getPort4 a))"
proof -
  have m: "unat (x AND 0xff) = unat x mod 256" for x :: u32
  proof -
    have "(0xff :: u32) = mask 8" by (simp add: mask_eq_exp_minus_1)
    then have "x AND 0xff = take_bit 8 x" by (simp add: take_bit_eq_mask)
    from this show ?thesis unfolding \<open>x AND 0xff = take_bit 8 x\<close> by (simp add: unat_mod unsigned_take_bit_eq take_bit_eq_mod)
  qed
  have "unat (host4 a) div 2 ^ 24 < 256"
    using unsigned_less [of "host4 a", where 'a = nat] by (simp add: less_mult_imp_div_less)
  then show ?thesis
    by (simp add: insert4_def m host4_def getPort4_def Let_def unsigned_drop_bit_eq drop_bit_eq_div unat_div)
qed

section \<open>Unix paths\<close>

lemma chars_bytes [simp]: "chars (bytes s) = s"
  by (induction s) (simp_all add: chars_def bytes_def unat_of_nat take_bit_nat_eq_self)

lemma unix_path_roundtrip:
  assumes "path \<noteq> []" and "chr 0 \<notin> set path" and "length path \<le> 107"
  shows "\<exists>a n. new_Unix path = Inr (a, n) \<and> getPath a n = path"
proof -
  have h: "hd path \<noteq> chr 0" using assms(1,2) hd_in_set by metis
  have ne: "b \<noteq> 0" if mem: "b \<in> set (bytes path)" for b
  proof -
    obtain c where c: "c \<in> set path" "b = of_nat (code c)" using mem by (auto simp: bytes_def)
    have "unat b = code c" using c(2) by (simp add: unat_of_nat take_bit_nat_eq_self)
    moreover have "code c \<noteq> 0" using c(1) assms(2) by (metis char_of_char)
    ultimately show ?thesis by auto
  qed
  let ?p = "bytes path @ 0 # replicate (107 - length path) 0"
  have len: "length (bytes path) = length path" by (simp add: bytes_def)
  have "new_Unix path = Inr (\<lparr>sun_family = AF_UNIX, sun_path = ?p\<rparr>, length path + 1 + SUN_OFFSET)"
    using assms h by (auto simp: new_Unix_def Let_def overwrite_def len Suc_diff_le)
  moreover have "getPath \<lparr>sun_family = AF_UNIX, sun_path = ?p\<rparr> (length path + 1 + SUN_OFFSET) = path"
  proof -
    have "bytes path \<noteq> []" using assms(1) by (simp add: bytes_def)
    then have "hd ?p \<noteq> 0" using ne hd_in_set by simp
    moreover have "takeWhile (\<lambda>b. b \<noteq> 0) ?p = bytes path"
      using ne by (simp add: takeWhile_append)
    ultimately show ?thesis by (simp add: getPath_def)
  qed
  ultimately show ?thesis by blast
qed

lemma unix_path_too_long: "chr 0 \<notin> set path \<Longrightarrow> 108 \<le> length path \<Longrightarrow> new_Unix path = Inl Path_too_long"
  by (cases path) (auto simp: new_Unix_def Let_def)

section \<open>Host and service\<close>

lemma idx_after: "c \<notin> set a \<Longrightarrow> first_idx (\<lambda>x. x = c) (a @ c # b) = Some (length a)"
  unfolding first_idx_Some by blast

lemma idx_none: "c \<notin> set a \<Longrightarrow> first_idx (\<lambda>x. x = c) a = None"
  unfolding first_idx_None by blast

lemma split_unbracketed: "h \<noteq> [] \<Longrightarrow> hd h \<noteq> CHR ''['' \<Longrightarrow>
  split_host (h @ s) = (case split_colon (h @ s) of (node, service) \<Rightarrow> (if node = [] then h @ s else node, service))"
  by (simp add: split_host_def split_bracket_def)

lemma split_colons:
  assumes "h \<noteq> []" and "hd h \<noteq> CHR ''[''" and "CHR '':'' \<notin> set h"
  shows "split_host (h @ '':'' @ s) = (if CHR '':'' \<in> set s then (h @ '':'' @ s, Some ('':'' @ s)) else (h, Some s))"
    and "split_host h = (h, None)"
  using split_unbracketed [OF assms(1,2), of "'':'' @ s"] split_unbracketed [OF assms(1,2), of "[]"] assms(1)
    idx_after [OF assms(3), of s] idx_none [OF assms(3)]
  by (simp_all add: split_colon_def)

lemma split_bracketed:
  assumes "h \<noteq> []" and "CHR '']'' \<notin> set h"
  shows "split_host (''['' @ h @ '']:'' @ s) = (h, Some s)" and "split_host (''['' @ h @ '']'') = (h, None)"
proof -
  have "split_bracket (''['' @ h @ '']:'' @ s) = (h, Some s)" "split_bracket (''['' @ h @ '']'') = (h, None)"
    using idx_after [OF assms(2), of "CHR '':'' # s"] idx_after [OF assms(2), of "[]"]
    by (simp_all add: split_bracket_def)
  then show "split_host (''['' @ h @ '']:'' @ s) = (h, Some s)" "split_host (''['' @ h @ '']'') = (h, None)"
    using assms(1) by (simp_all only: split_host_def split_conv Let_def) simp_all
qed

text \<open>
  How a host text is cut for the resolver: "host:service" and "[address]:service" into their two parts, a text
  without a colon into no service. A bare IPv6 address, which has several colons, keeps a stray service that starts at
  its first colon.
\<close>

theorem split_host_cases:
  assumes "h \<noteq> []" and "hd h \<noteq> CHR ''[''" and "CHR '':'' \<notin> set h" and "CHR '']'' \<notin> set v6" and "v6 \<noteq> []"
  shows "split_host h = (h, None)
    \<and> split_host (''['' @ v6 @ '']:'' @ s) = (v6, Some s) \<and> split_host (''['' @ v6 @ '']'') = (v6, None)
    \<and> split_host (h @ '':'' @ s) = (if CHR '':'' \<in> set s then (h @ '':'' @ s, Some ('':'' @ s)) else (h, Some s))"
  using split_colons [OF assms(1-3)] split_bracketed [OF assms(5,4)] by blast

theorem split_host_cases_witness:
  "split_host ''localhost'' = (''localhost'', None) \<and> split_host ''[::1]:80'' = (''::1'', Some ''80'')"
  using split_host_cases [of "''localhost''" "''::1''" "''80''"] by simp

end
