(* ===== verification/Byte_Store.thy ===== *)
theory Byte_Store
  imports Hiper_Prelude
begin

text \<open>
  The contract between the typed serialisers of \<^verbatim>\<open>ByteArray\<close> and the block chain below them: a
  store is a sequence of bytes with a position; \<open>wr\<close> overwrites from the position on and moves
  behind what it wrote, \<open>rd\<close> returns the bytes at the position and moves behind them, \<open>seek\<close> moves
  the position, and no operation changes the configuration \<open>cfg\<close> (the byte order).
\<close>

locale byte_store =
  fixes inv :: "'s \<Rightarrow> bool"
    and content :: "'s \<Rightarrow> byte list"
    and pos :: "'s \<Rightarrow> nat"
    and cfg :: "'s \<Rightarrow> 'c"
    and wr :: "byte list \<Rightarrow> 's \<Rightarrow> 'e + 's"
    and rd :: "nat \<Rightarrow> 's \<Rightarrow> 'e + byte list \<times> 's"
    and seek :: "nat \<Rightarrow> 's \<Rightarrow> 'e + 's"
    and short :: 'e
  assumes pos_le: "inv s \<Longrightarrow> pos s \<le> length (content s)"
    and wr_ok: "inv s \<Longrightarrow> \<exists>s'. wr bs s = Inr s' \<and> inv s' \<and> cfg s' = cfg s
          \<and> content s' = overwrite (content s) (pos s) bs \<and> pos s' = pos s + length bs"
    and rd_ok: "inv s \<Longrightarrow> 0 < n \<Longrightarrow> n \<le> length (content s) - pos s \<Longrightarrow>
          \<exists>s'. rd n s = Inr (take n (drop (pos s) (content s)), s') \<and> inv s' \<and> cfg s' = cfg s
             \<and> content s' = content s \<and> pos s' = pos s + n"
    and rd_short: "inv s \<Longrightarrow> length (content s) - pos s < n \<Longrightarrow> rd n s = Inl short"
    and seek_ok: "inv s \<Longrightarrow> p \<le> length (content s) \<Longrightarrow>
          \<exists>s'. seek p s = Inr s' \<and> inv s' \<and> cfg s' = cfg s \<and> content s' = content s \<and> pos s' = p"
begin

definition unread :: "'s \<Rightarrow> byte list" where
  "unread s = drop (pos s) (content s)"

text \<open>\<open>reads_as r bs v\<close>: wherever the bytes \<open>bs\<close> come next, the reader \<open>r\<close> consumes exactly them and returns \<open>v\<close>.\<close>

definition reads_as :: "'c \<Rightarrow> ('s \<Rightarrow> 'e + 'v \<times> 's) \<Rightarrow> byte list \<Rightarrow> 'v \<Rightarrow> bool" where
  "reads_as c r bs v \<longleftrightarrow> (\<forall>s rest. inv s \<and> cfg s = c \<and> unread s = bs @ rest \<longrightarrow>
     (\<exists>s'. r s = Inr (v, s') \<and> inv s' \<and> cfg s' = c \<and> unread s' = rest
        \<and> content s' = content s \<and> pos s' = pos s + length bs))"

lemma reads_asI:
  assumes "\<And>s rest. inv s \<Longrightarrow> cfg s = c \<Longrightarrow> unread s = bs @ rest \<Longrightarrow>
     \<exists>s'. r s = Inr (v, s') \<and> inv s' \<and> cfg s' = c \<and> unread s' = rest
        \<and> content s' = content s \<and> pos s' = pos s + length bs"
  shows "reads_as c r bs v"
  using assms by (auto simp: reads_as_def)

lemma reads_asD:
  assumes "reads_as c r bs v" and "inv s" and "cfg s = c" and "unread s = bs @ rest"
  obtains s' where "r s = Inr (v, s')" and "inv s'" and "cfg s' = c" and "unread s' = rest"
    and "content s' = content s" and "pos s' = pos s + length bs"
  using assms unfolding reads_as_def by blast

lemma reads_as_cong:
  assumes "reads_as c r bs v" and "\<And>s. inv s \<Longrightarrow> cfg s = c \<Longrightarrow> r' s = r s"
  shows "reads_as c r' bs v"
  using assms by (simp add: reads_as_def)

lemma reads_as_rd:
  assumes "bs \<noteq> []"
  shows "reads_as c (rd (length bs)) bs bs"
proof (rule reads_asI)
  fix s rest
  assume s: "inv s" "cfg s = c" "unread s = bs @ rest"
  have le: "length bs \<le> length (content s) - pos s"
    using arg_cong [OF s(3), of length] by (simp add: unread_def)
  have tk: "take (length bs) (drop (pos s) (content s)) = bs"
    using s(3) by (simp add: unread_def)
  obtain s' where "rd (length bs) s = Inr (bs, s')" "inv s'" "cfg s' = cfg s"
      "content s' = content s" "pos s' = pos s + length bs"
    using rd_ok [OF s(1) _ le] assms tk by auto
  moreover have "drop (pos s + length bs) (content s) = rest"
    using s(3) by (metis add.commute append_eq_conv_conj drop_drop unread_def)
  ultimately show "\<exists>s'. rd (length bs) s = Inr (bs, s') \<and> inv s' \<and> cfg s' = c \<and> unread s' = rest
        \<and> content s' = content s \<and> pos s' = pos s + length bs"
    using s(2) by (auto simp: unread_def)
qed

lemma reads_as_return: "reads_as c (\<lambda>s. Inr (v, s)) [] v"
  by (rule reads_asI) simp

lemma reads_as_bind:
  assumes "reads_as c r bs v" and "reads_as c (f v) bs' v'"
  shows "reads_as c (\<lambda>s. bindE (r s) (\<lambda>(x, s'). f x s')) (bs @ bs') v'"
proof (rule reads_asI)
  fix s rest
  assume s: "inv s" "cfg s = c" "unread s = (bs @ bs') @ rest"
  then have "unread s = bs @ (bs' @ rest)" by simp
  from reads_asD [OF assms(1) s(1,2) this]
  obtain s1 where 1: "r s = Inr (v, s1)" "inv s1" "cfg s1 = c" "unread s1 = bs' @ rest"
    "content s1 = content s" "pos s1 = pos s + length bs" by blast
  from reads_asD [OF assms(2) 1(2,3,4)]
  obtain s2 where "f v s1 = Inr (v', s2)" "inv s2" "cfg s2 = c" "unread s2 = rest"
    "content s2 = content s1" "pos s2 = pos s1 + length bs'" by blast
  with 1 show "\<exists>s'. bindE (r s) (\<lambda>(x, s'). f x s') = Inr (v', s') \<and> inv s' \<and> cfg s' = c \<and> unread s' = rest
        \<and> content s' = content s \<and> pos s' = pos s + length (bs @ bs')"
    by simp
qed

lemma reads_as_map:
  assumes "reads_as c r bs v"
  shows "reads_as c (\<lambda>s. bindE (r s) (\<lambda>(x, s'). Inr (g x, s'))) bs (g v)"
  using reads_as_bind [OF assms reads_as_return, of g] by simp

text \<open>\<open>writes_as w bs\<close>: the writer \<open>w\<close> puts exactly the bytes \<open>bs\<close> at the position.\<close>

definition writes_as :: "'c \<Rightarrow> ('s \<Rightarrow> 'e + 's) \<Rightarrow> byte list \<Rightarrow> bool" where
  "writes_as c w bs \<longleftrightarrow> (\<forall>s. inv s \<and> cfg s = c \<longrightarrow>
     (\<exists>s'. w s = Inr s' \<and> inv s' \<and> cfg s' = c
        \<and> content s' = overwrite (content s) (pos s) bs \<and> pos s' = pos s + length bs))"

lemma writes_asD:
  assumes "writes_as c w bs" and "inv s" and "cfg s = c"
  obtains s' where "w s = Inr s'" and "inv s'" and "cfg s' = c"
    and "content s' = overwrite (content s) (pos s) bs" and "pos s' = pos s + length bs"
  using assms unfolding writes_as_def by blast

lemma writes_as_cong:
  assumes "writes_as c w bs" and "\<And>s. inv s \<Longrightarrow> cfg s = c \<Longrightarrow> w' s = w s"
  shows "writes_as c w' bs"
  using assms by (simp add: writes_as_def)

lemma writes_as_wr: "writes_as c (wr bs) bs"
  using wr_ok by (auto simp: writes_as_def)

lemma writes_as_return: "writes_as c Inr []"
  by (simp add: writes_as_def)

lemma writes_as_bind:
  assumes "writes_as c w bs" and "writes_as c w' bs'"
  shows "writes_as c (\<lambda>s. bindE (w s) w') (bs @ bs')"
  unfolding writes_as_def
proof (intro allI impI, elim conjE)
  fix s assume s: "inv s" "cfg s = c"
  from writes_asD [OF assms(1) s]
  obtain s1 where 1: "w s = Inr s1" "inv s1" "cfg s1 = c"
    "content s1 = overwrite (content s) (pos s) bs" "pos s1 = pos s + length bs" by blast
  from writes_asD [OF assms(2) 1(2,3)]
  obtain s2 where 2: "w' s1 = Inr s2" "inv s2" "cfg s2 = c"
    "content s2 = overwrite (content s1) (pos s1) bs'" "pos s2 = pos s1 + length bs'" by blast
  have "content s2 = overwrite (content s) (pos s) (bs @ bs')"
    using 1 2 pos_le [OF s(1)] by (simp add: overwrite_def ac_simps)
  with 1 2 show "\<exists>s'. bindE (w s) w' = Inr s' \<and> inv s' \<and> cfg s' = c
      \<and> content s' = overwrite (content s) (pos s) (bs @ bs') \<and> pos s' = pos s + length (bs @ bs')"
    by simp
qed

text \<open>Writing, moving back and reading with a matching reader gives the value back.\<close>

lemma write_seek_read:
  assumes "inv s" and "writes_as (cfg s) w bs" and "reads_as (cfg s) r bs v"
  shows "\<exists>s1 s2 s3. w s = Inr s1 \<and> seek (pos s) s1 = Inr s2 \<and> r s2 = Inr (v, s3)
     \<and> inv s3 \<and> content s3 = content s1 \<and> pos s3 = pos s1"
proof -
  from writes_asD [OF assms(2,1) refl]
  obtain s1 where s1: "w s = Inr s1" "inv s1" "cfg s1 = cfg s"
    "content s1 = overwrite (content s) (pos s) bs" "pos s1 = pos s + length bs" by blast
  have le: "pos s \<le> length (content s1)"
    using pos_le [OF s1(2)] s1(5) by simp
  obtain s2 where s2: "seek (pos s) s1 = Inr s2" "inv s2" "cfg s2 = cfg s1"
      "content s2 = content s1" "pos s2 = pos s"
    using seek_ok [OF s1(2) le] by blast
  have "unread s2 = bs @ drop (pos s + length bs) (content s)"
    using s2 s1 pos_le [OF assms(1)] by (simp add: unread_def overwrite_def)
  from reads_asD [OF assms(3) s2(2) _ this] s2 s1 show ?thesis by auto
qed

end

end
