(* ===== verification/ByteArray.thy ===== *)
theory ByteArray
  imports Byte_Store Endian
begin

text \<open>
  The byte buffer of \<^verbatim>\<open>hiper/base/bytearray.cc\<close>: a chain of equally sized memory blocks with a
  cursor. This theory holds the state, the cursor operations (\<^verbatim>\<open>addCapacity\<close>, \<^verbatim>\<open>write\<close>, the two
  \<^verbatim>\<open>read\<close>s, \<^verbatim>\<open>setPosition\<close>, \<^verbatim>\<open>clear\<close>), the invariant that every operation keeps, and the
  refinement of the block chain to a flat byte list with a position.

  A \<^verbatim>\<open>Node*\<close> is an index into the list of blocks, the null pointer is \<open>None\<close>. A dereference
  of a null pointer and a \<^verbatim>\<open>memcpy\<close> outside its block are the error \<open>Bad_access\<close>.
\<close>

section \<open>State\<close>

datatype ba_error = Out_of_range string | Bad_access

record bytearray =
  ba_base :: nat
  ba_pos :: nat
  ba_cap :: nat
  ba_size :: nat
  ba_endian :: endianness
  ba_nodes :: "byte list list"
  ba_cur :: "nat option"

text \<open>
  \<^verbatim>\<open>Node(size_t s)\<close> allocates \<open>s\<close> bytes without initialising them: their value is
  indeterminate, and 0 here. No property below depends on it.
\<close>

definition new_node :: "nat \<Rightarrow> byte list" where
  "new_node s = replicate s 0"

definition new_bytearray :: "nat \<Rightarrow> bytearray" where
  "new_bytearray base = \<lparr>ba_base = base, ba_pos = 0, ba_cap = base, ba_size = 0,
     ba_endian = Big_endian, ba_nodes = [new_node base], ba_cur = Some 0\<rparr>"

definition isLittleEndian :: "bytearray \<Rightarrow> bool" where
  "isLittleEndian ba \<longleftrightarrow> ba_endian ba = Little_endian"

definition setIsLittleEndian :: "bool \<Rightarrow> bytearray \<Rightarrow> bytearray" where
  "setIsLittleEndian val ba =
     (if val then ba\<lparr>ba_endian := Little_endian\<rparr> else ba\<lparr>ba_endian := Big_endian\<rparr>)"

definition getReadSize :: "bytearray \<Rightarrow> nat" where
  "getReadSize ba = usub (ba_size ba) (ba_pos ba)"

definition getCapacity :: "bytearray \<Rightarrow> nat" where
  "getCapacity ba = usub (ba_cap ba) (ba_pos ba)"

definition next_node :: "byte list list \<Rightarrow> nat \<Rightarrow> nat option" where
  "next_node ns i = (if Suc i < length ns then Some (Suc i) else None)"

definition deref :: "byte list list \<Rightarrow> nat option \<Rightarrow> ba_error + nat \<times> byte list" where
  "deref ns c = (case c of None \<Rightarrow> Inl Bad_access
     | Some i \<Rightarrow> if i < length ns then Inr (i, ns ! i) else Inl Bad_access)"

definition memcpy_to :: "byte list \<Rightarrow> nat \<Rightarrow> byte list \<Rightarrow> ba_error + byte list" where
  "memcpy_to blk off bs =
     (if off + length bs \<le> length blk then Inr (overwrite blk off bs) else Inl Bad_access)"

definition memcpy_from :: "byte list \<Rightarrow> nat \<Rightarrow> nat \<Rightarrow> ba_error + byte list" where
  "memcpy_from blk off n =
     (if off + n \<le> length blk then Inr (take n (drop off blk)) else Inl Bad_access)"

section \<open>Operations\<close>

text \<open>
  \<^verbatim>\<open>ceil(1.0 * size / base_size_)\<close> is the rounded-up quotient (exact in double arithmetic for
  every size below \<open>2 ^ 53\<close>).
\<close>

definition addCapacity :: "nat \<Rightarrow> bytearray \<Rightarrow> bytearray" where
  "addCapacity n ba =
     (if n = 0 then ba
      else let old_cap = getCapacity ba in
        if old_cap \<ge> n then ba
        else let sz = n - old_cap;
                 count = (sz + ba_base ba - 1) div ba_base ba;
                 first = (if count = 0 then None else Some (length (ba_nodes ba)));
                 ba' = ba\<lparr>ba_nodes := ba_nodes ba @ replicate count (new_node (ba_base ba)),
                          ba_cap := ba_cap ba + count * ba_base ba\<rparr>
             in if old_cap = 0 then ba'\<lparr>ba_cur := first\<rparr> else ba')"

text \<open>
  The copy loop of \<^verbatim>\<open>write\<close>. Its arguments are the blocks, \<^verbatim>\<open>cur_\<close>, \<^verbatim>\<open>cur_shift\<close>, \<^verbatim>\<open>cur_left\<close>,
  \<^verbatim>\<open>position_\<close> and the bytes of \<^verbatim>\<open>buf\<close> from \<^verbatim>\<open>buf_pos\<close> on, whose number is the loop variable \<^verbatim>\<open>size\<close>.
\<close>

function write_loop :: "byte list list \<Rightarrow> nat option \<Rightarrow> nat \<Rightarrow> nat \<Rightarrow> nat \<Rightarrow> byte list
    \<Rightarrow> ba_error + byte list list \<times> nat option \<times> nat" where
  "write_loop ns c shift left pos buf =
     (if buf = [] then Inr (ns, c, pos)
      else bindE (deref ns c) (\<lambda>(i, blk).
        if length buf \<le> left then
          bindE (memcpy_to blk shift buf) (\<lambda>blk'.
            Inr (ns[i := blk'],
                 if length blk = shift + length buf then next_node ns i else c,
                 pos + length buf))
        else
          bindE (memcpy_to blk shift (take left buf)) (\<lambda>blk'.
            bindE (deref ns (next_node ns i)) (\<lambda>(j, blk2).
              write_loop (ns[i := blk']) (Some j) 0 (length blk2) (pos + left) (drop left buf)))))"
  by pat_completeness auto
termination
  by (relation "measure (\<lambda>(ns, c, shift, left, pos, buf). case c of None \<Rightarrow> 0 | Some i \<Rightarrow> length ns - i)")
    (auto simp: deref_def next_node_def split: option.splits if_splits)

declare write_loop.simps [simp del]

definition ba_write :: "byte list \<Rightarrow> bytearray \<Rightarrow> ba_error + bytearray" where
  "ba_write buf ba0 =
     (if buf = [] then Inr ba0
      else let ba = addCapacity (length buf) ba0;
               cur_shift = ba_pos ba mod ba_base ba
           in bindE (deref (ba_nodes ba) (ba_cur ba)) (\<lambda>(i, blk).
                bindE (write_loop (ba_nodes ba) (ba_cur ba) cur_shift (usub (length blk) cur_shift)
                         (ba_pos ba) buf)
                  (\<lambda>(ns, c, pos).
                     Inr (ba\<lparr>ba_nodes := ns, ba_cur := c, ba_pos := pos,
                             ba_size := if pos > ba_size ba then pos else ba_size ba\<rparr>))))"

text \<open>
  The copy loop that the two \<^verbatim>\<open>read\<close>s share: it returns the bytes put into \<^verbatim>\<open>buf\<close>, the block
  pointer and the number of bytes it advanced.
\<close>

function read_loop :: "byte list list \<Rightarrow> nat option \<Rightarrow> nat \<Rightarrow> nat \<Rightarrow> nat \<Rightarrow> nat
    \<Rightarrow> ba_error + byte list \<times> nat option \<times> nat" where
  "read_loop ns c shift left pos n =
     (if n = 0 then Inr ([], c, pos)
      else bindE (deref ns c) (\<lambda>(i, blk).
        if n \<le> left then
          bindE (memcpy_from blk shift n) (\<lambda>bs.
            Inr (bs, if length blk = shift + n then next_node ns i else c, pos + n))
        else
          bindE (memcpy_from blk shift left) (\<lambda>bs.
            bindE (deref ns (next_node ns i)) (\<lambda>(j, blk2).
              bindE (read_loop ns (Some j) 0 (length blk2) (pos + left) (n - left))
                (\<lambda>(bs', c', pos'). Inr (bs @ bs', c', pos'))))))"
  by pat_completeness auto
termination
  by (relation "measure (\<lambda>(ns, c, shift, left, pos, n). case c of None \<Rightarrow> 0 | Some i \<Rightarrow> length ns - i)")
    (auto simp: deref_def next_node_def split: option.splits if_splits)

declare read_loop.simps [simp del]

definition not_enough_len :: ba_error where
  "not_enough_len = Out_of_range ''not enough len''"

text \<open>
  \<^verbatim>\<open>read(buf, size)\<close> computes \<^verbatim>\<open>cur_->size\<close> before its loop, so it dereferences the cursor even
  when \<^verbatim>\<open>size\<close> is 0.
\<close>

definition ba_read :: "nat \<Rightarrow> bytearray \<Rightarrow> ba_error + byte list \<times> bytearray" where
  "ba_read n ba =
     (if n > getReadSize ba then Inl not_enough_len
      else let cur_shift = ba_pos ba mod ba_base ba in
        bindE (deref (ba_nodes ba) (ba_cur ba)) (\<lambda>(i, blk).
          bindE (read_loop (ba_nodes ba) (ba_cur ba) cur_shift (usub (length blk) cur_shift)
                   (ba_pos ba) n)
            (\<lambda>(bs, c, pos). Inr (bs, ba\<lparr>ba_cur := c, ba_pos := pos\<rparr>))))"

text \<open>
  \<^verbatim>\<open>read(buf, size, position) const\<close> starts in the block of the cursor, whatever \<^verbatim>\<open>position\<close> is.
\<close>

definition ba_read_at :: "nat \<Rightarrow> nat \<Rightarrow> bytearray \<Rightarrow> ba_error + byte list" where
  "ba_read_at n position ba =
     (if n > usub (ba_size ba) position then Inl not_enough_len
      else let npos = position mod ba_base ba in
        bindE (deref (ba_nodes ba) (ba_cur ba)) (\<lambda>(i, blk).
          bindE (read_loop (ba_nodes ba) (ba_cur ba) npos (usub (length blk) npos) position n)
            (\<lambda>(bs, c, pos). Inr bs)))"

text \<open>The walk of \<^verbatim>\<open>setPosition\<close> along the chain.\<close>

function seek_loop :: "byte list list \<Rightarrow> nat option \<Rightarrow> nat \<Rightarrow> ba_error + nat option" where
  "seek_loop ns c v =
     bindE (deref ns c) (\<lambda>(i, blk).
       if v > length blk then
         (case next_node ns i of None \<Rightarrow> Inl Bad_access
          | Some j \<Rightarrow> seek_loop ns (Some j) (v - length blk))
       else if v = length blk then Inr (next_node ns i)
       else Inr c)"
  by pat_completeness auto
termination
  by (relation "measure (\<lambda>(ns, c, v). case c of None \<Rightarrow> 0 | Some i \<Rightarrow> length ns - i)")
    (auto simp: deref_def next_node_def split: option.splits if_splits)

declare seek_loop.simps [simp del]

definition setPosition :: "nat \<Rightarrow> bytearray \<Rightarrow> ba_error + bytearray" where
  "setPosition v ba =
     (if v > ba_cap ba then Inl (Out_of_range ''set_position out of range'')
      else bindE (seek_loop (ba_nodes ba) (Some 0) v) (\<lambda>c.
        Inr (ba\<lparr>ba_pos := v, ba_size := if v > ba_size ba then v else ba_size ba, ba_cur := c\<rparr>)))"

definition ba_clear :: "bytearray \<Rightarrow> bytearray" where
  "ba_clear ba = ba\<lparr>ba_pos := 0, ba_size := 0, ba_cap := ba_base ba,
     ba_nodes := take 1 (ba_nodes ba), ba_cur := Some 0\<rparr>"

section \<open>Invariant and abstraction\<close>

definition cursor_at :: "nat \<Rightarrow> nat \<Rightarrow> nat \<Rightarrow> nat option" where
  "cursor_at B len p = (if p div B < len then Some (p div B) else None)"

definition blocks_ok :: "nat \<Rightarrow> byte list list \<Rightarrow> bool" where
  "blocks_ok B ns \<longleftrightarrow> (\<forall>b\<in>set ns. length b = B)"

definition ba_wf :: "bytearray \<Rightarrow> bool" where
  "ba_wf ba \<longleftrightarrow> 0 < ba_base ba \<and> ba_nodes ba \<noteq> [] \<and> blocks_ok (ba_base ba) (ba_nodes ba)
     \<and> ba_cap ba = length (ba_nodes ba) * ba_base ba
     \<and> ba_pos ba \<le> ba_size ba \<and> ba_size ba \<le> ba_cap ba
     \<and> ba_cur ba = cursor_at (ba_base ba) (length (ba_nodes ba)) (ba_pos ba)"

definition ba_content :: "bytearray \<Rightarrow> byte list" where
  "ba_content ba = take (ba_size ba) (concat (ba_nodes ba))"

lemma blocks_ok_nth: "blocks_ok B ns \<Longrightarrow> i < length ns \<Longrightarrow> length (ns ! i) = B"
  by (simp add: blocks_ok_def)

lemma blocks_ok_update: "blocks_ok B ns \<Longrightarrow> length b = B \<Longrightarrow> blocks_ok B (ns[i := b])"
  by (auto simp: blocks_ok_def dest: set_update_subset_insert [THEN subsetD])

lemma blocks_ok_append:
  "blocks_ok B ns \<Longrightarrow> blocks_ok B (ns @ replicate k (new_node B))"
  by (auto simp: blocks_ok_def new_node_def)

lemma blocks_ok_length: "blocks_ok B ns \<Longrightarrow> length (concat ns) = length ns * B"
  by (simp add: blocks_ok_def length_concat_chunks)

lemma cursor_at_next:
  assumes "shift < B"
  shows "cursor_at B len (i * B + shift) = (if i < len then Some i else None)"
  using assms by (simp add: cursor_at_def)

lemma cursor_at_block_end: "0 < B \<Longrightarrow> cursor_at B len (Suc i * B) = (if Suc i < len then Some (Suc i) else None)"
  by (simp only: cursor_at_def nonzero_mult_div_cancel_right)

lemma deref_Some [simp]: "i < length ns \<Longrightarrow> deref ns (Some i) = Inr (i, ns ! i)"
  by (simp add: deref_def)

lemma deref_None [simp]: "deref ns None = Inl Bad_access"
  by (simp add: deref_def)

lemma cursor_step:
  assumes "0 < B" and "shift + n \<le> B" and "shift < B" and "i < length ns"
  shows "(if B = shift + n then next_node ns i else Some i) = cursor_at B (length ns) (i * B + shift + n)"
proof (cases "B = shift + n")
  case True
  then have "i * B + shift + n = Suc i * B" by simp
  moreover have "cursor_at B (length ns) (Suc i * B) = next_node ns i"
    using assms(1) by (simp only: cursor_at_block_end next_node_def)
  ultimately show ?thesis
    using True by (simp add: ac_simps)
next
  case False
  with assms have "shift + n < B" by simp
  with False assms show ?thesis
    using cursor_at_next [of "shift + n" B "length ns" i] by (simp add: add.assoc)
qed

lemma write_loop_spec:
  assumes "blocks_ok B ns" and "0 < B" and "i < length ns" and "shift < B"
    and "buf \<noteq> []" and "i * B + shift + length buf \<le> length ns * B"
  shows "\<exists>ns'. write_loop ns (Some i) shift (B - shift) (i * B + shift) buf
           = Inr (ns', cursor_at B (length ns) (i * B + shift + length buf), i * B + shift + length buf)
         \<and> length ns' = length ns \<and> blocks_ok B ns'
         \<and> concat ns' = overwrite (concat ns) (i * B + shift) buf"
  using assms
proof (induction "length ns - i" arbitrary: ns i shift buf rule: less_induct)
  case less
  have len: "length (ns ! i) = B" using less.prems by (simp add: blocks_ok_nth)
  have ch: "\<forall>b\<in>set ns. length b = B" using less.prems by (simp add: blocks_ok_def)
  show ?case
  proof (cases "length buf \<le> B - shift")
    case True
    let ?ns' = "ns[i := overwrite (ns ! i) shift buf]"
    have "write_loop ns (Some i) shift (B - shift) (i * B + shift) buf
        = Inr (?ns', if B = shift + length buf then next_node ns i else Some i, i * B + shift + length buf)"
      using less.prems True len
      by (subst write_loop.simps) (simp add: memcpy_to_def)
    moreover have "blocks_ok B ?ns'"
      using less.prems True len by (intro blocks_ok_update) simp_all
    moreover have "concat ?ns' = overwrite (concat ns) (i * B + shift) buf"
      using less.prems True by (intro concat_update_chunk [OF ch]) simp_all
    ultimately show ?thesis
      using less.prems True by (simp add: cursor_step)
  next
    case False
    let ?l = "B - shift"
    let ?blk = "overwrite (ns ! i) shift (take ?l buf)"
    let ?ns1 = "ns[i := ?blk]"
    have lt: "length (take ?l buf) = ?l" using False by simp
    have end_pos: "i * B + shift + ?l = Suc i * B" using less.prems by simp
    have "Suc i * B < length ns * B"
      using less.prems False end_pos by (metis add_less_cancel_left not_le_imp_less order_less_le_trans)
    then have j: "Suc i < length ns" using less.prems(2) by (metis mult_less_cancel2)
    have ok1: "blocks_ok B ?ns1"
      using less.prems lt len by (intro blocks_ok_update) simp_all
    have c1: "concat ?ns1 = overwrite (concat ns) (i * B + shift) (take ?l buf)"
      using less.prems lt by (intro concat_update_chunk [OF ch]) simp_all
    have "write_loop ns (Some i) shift ?l (i * B + shift) buf
        = write_loop ?ns1 (Some (Suc i)) 0 (B - 0) (Suc i * B + 0) (drop ?l buf)"
      using less.prems False len j lt end_pos blocks_ok_nth [OF less.prems(1) j]
      by (subst write_loop.simps) (simp add: memcpy_to_def next_node_def ac_simps)
    moreover have "\<exists>ns'. write_loop ?ns1 (Some (Suc i)) 0 (B - 0) (Suc i * B + 0) (drop ?l buf)
           = Inr (ns', cursor_at B (length ?ns1) (Suc i * B + 0 + length (drop ?l buf)), Suc i * B + 0 + length (drop ?l buf))
         \<and> length ns' = length ?ns1 \<and> blocks_ok B ns'
         \<and> concat ns' = overwrite (concat ?ns1) (Suc i * B + 0) (drop ?l buf)"
    proof (rule less.hyps)
      show "length ?ns1 - Suc i < length ns - i" using j by simp
      show "blocks_ok B ?ns1" by (rule ok1)
      show "Suc i * B + 0 + length (drop ?l buf) \<le> length ?ns1 * B"
        using less.prems False end_pos by simp
    qed (use less.prems False j in auto)
    ultimately obtain ns' where
      w: "write_loop ns (Some i) shift ?l (i * B + shift) buf
           = Inr (ns', cursor_at B (length ns) (Suc i * B + length (drop ?l buf)), Suc i * B + length (drop ?l buf))"
      and l: "length ns' = length ns" "blocks_ok B ns'"
      and c: "concat ns' = overwrite (concat ?ns1) (Suc i * B) (drop ?l buf)"
      by auto
    have tot: "Suc i * B + length (drop ?l buf) = i * B + shift + length buf"
      using False less.prems by simp
    have "concat ns' = overwrite (overwrite (concat ns) (i * B + shift) (take ?l buf))
        (i * B + shift + length (take ?l buf)) (drop ?l buf)"
      using c c1 end_pos lt by (simp add: ac_simps)
    also have "\<dots> = overwrite (concat ns) (i * B + shift) (take ?l buf @ drop ?l buf)"
      by (rule overwrite_append) (use less.prems lt in \<open>simp add: blocks_ok_length end_pos\<close>)
    finally have fin: "concat ns' = overwrite (concat ns) (i * B + shift) buf"
      by simp
    show ?thesis
      by (rule exI [of _ ns']) (use w l fin in \<open>simp only: tot simp_thms\<close>)
  qed
qed

lemma read_loop_spec:
  assumes "blocks_ok B ns" and "0 < B" and "i < length ns" and "shift < B"
    and "i * B + shift + n \<le> length ns * B"
  shows "read_loop ns (Some i) shift (B - shift) (i * B + shift) n
           = Inr (take n (drop (i * B + shift) (concat ns)),
                  cursor_at B (length ns) (i * B + shift + n), i * B + shift + n)"
  using assms
proof (induction "length ns - i" arbitrary: ns i shift n rule: less_induct)
  case less
  have len: "length (ns ! i) = B" using less.prems by (simp add: blocks_ok_nth)
  have ch: "\<forall>b\<in>set ns. length b = B" using less.prems by (simp add: blocks_ok_def)
  show ?case
  proof (cases "n \<le> B - shift")
    case True
    have "take n (drop (i * B + shift) (concat ns)) = take n (drop shift (ns ! i))"
      using less.prems True by (intro chunk_window [OF ch]) simp_all
    then show ?thesis
      using less.prems True len cursor_step [of B shift n i ns] cursor_at_next [of shift B "length ns" i]
      by (subst read_loop.simps) (auto simp add: memcpy_from_def)
  next
    case False
    let ?l = "B - shift"
    have end_pos: "i * B + shift + ?l = Suc i * B" using less.prems by simp
    have "Suc i * B < length ns * B"
      using less.prems False end_pos by (metis add_less_cancel_left not_le_imp_less order_less_le_trans)
    then have j: "Suc i < length ns" using less.prems(2) by (metis mult_less_cancel2)
    have w: "take ?l (drop (i * B + shift) (concat ns)) = take ?l (drop shift (ns ! i))"
      using less.prems by (intro chunk_window [OF ch]) simp_all
    have IH: "read_loop ns (Some (Suc i)) 0 (B - 0) (Suc i * B + 0) (n - ?l)
        = Inr (take (n - ?l) (drop (Suc i * B + 0) (concat ns)),
               cursor_at B (length ns) (Suc i * B + 0 + (n - ?l)), Suc i * B + 0 + (n - ?l))"
      by (rule less.hyps) (use less.prems False j end_pos in auto)
    have tot: "Suc i * B + (n - ?l) = i * B + shift + n"
      using False less.prems by simp
    have "take n (drop (i * B + shift) (concat ns))
        = take ?l (drop (i * B + shift) (concat ns)) @ take (n - ?l) (drop (Suc i * B) (concat ns))"
      using False end_pos take_add [of ?l "n - ?l" "drop (i * B + shift) (concat ns)"] by (simp add: ac_simps)
    moreover have "read_loop ns (Some i) shift ?l (i * B + shift) n
        = Inr (take ?l (drop shift (ns ! i)) @ take (n - ?l) (drop (Suc i * B) (concat ns)),
               cursor_at B (length ns) (Suc i * B + (n - ?l)), Suc i * B + (n - ?l))"
      using less.prems False len j end_pos IH blocks_ok_nth [OF less.prems(1) j]
      by (subst read_loop.simps) (simp add: memcpy_from_def next_node_def ac_simps)
    ultimately show ?thesis
      unfolding tot w by simp
  qed
qed

lemma seek_loop_spec:
  assumes "blocks_ok B ns" and "0 < B" and "i < length ns" and "i * B + v \<le> length ns * B"
  shows "seek_loop ns (Some i) v = Inr (cursor_at B (length ns) (i * B + v))"
  using assms
proof (induction "length ns - i" arbitrary: i v rule: less_induct)
  case less
  have len: "length (ns ! i) = B" using less.prems by (simp add: blocks_ok_nth)
  consider "v < B" | "v = B" | "B < v" by linarith
  then show ?case
  proof cases
    case 1
    then show ?thesis
      using less.prems len cursor_at_next [of v B "length ns" i] by (subst seek_loop.simps) simp
  next
    case 2
    moreover have "cursor_at B (length ns) (Suc i * B) = next_node ns i"
      using less.prems by (simp only: cursor_at_block_end next_node_def)
    ultimately show ?thesis
      using less.prems len by (subst seek_loop.simps) (simp add: ac_simps)
  next
    case 3
    have "Suc i * B < length ns * B" using 3 less.prems by simp
    then have j: "Suc i < length ns" using less.prems(2) by (metis mult_less_cancel2)
    have "seek_loop ns (Some (Suc i)) (v - B) = Inr (cursor_at B (length ns) (Suc i * B + (v - B)))"
      by (rule less.hyps) (use less.prems 3 j in auto)
    then show ?thesis
      using less.prems len 3 j by (subst seek_loop.simps) (simp add: next_node_def)
  qed
qed

lemma ba_wf_length: "ba_wf ba \<Longrightarrow> length (concat (ba_nodes ba)) = ba_cap ba"
  by (simp add: ba_wf_def blocks_ok_length)

lemma length_ba_content: "ba_wf ba \<Longrightarrow> length (ba_content ba) = ba_size ba"
  by (simp add: ba_content_def ba_wf_length) (simp add: ba_wf_def)

lemma ceil_div_mult:
  assumes "0 < (b::nat)"
  shows "n \<le> (n + b - 1) div b * b"
proof -
  have "(n + b - 1) mod b < b" using assms by simp
  moreover have "(n + b - 1) div b * b + (n + b - 1) mod b = n + b - 1" by simp
  ultimately show ?thesis by linarith
qed

lemma addCapacity_spec:
  assumes "ba_wf ba"
  shows "ba_wf (addCapacity n ba)" and "ba_content (addCapacity n ba) = ba_content ba"
    and "n \<le> ba_cap (addCapacity n ba) - ba_pos ba"
    and "ba_pos (addCapacity n ba) = ba_pos ba" and "ba_size (addCapacity n ba) = ba_size ba"
    and "ba_base (addCapacity n ba) = ba_base ba" and "ba_endian (addCapacity n ba) = ba_endian ba"
    and "ba_cap ba \<le> ba_cap (addCapacity n ba)"
proof -
  let ?old = "getCapacity ba" and ?B = "ba_base ba" and ?ns = "ba_nodes ba"
  have old: "?old = ba_cap ba - ba_pos ba" and le: "ba_pos ba \<le> ba_cap ba"
    using assms by (auto simp: getCapacity_def ba_wf_def)
  have B: "0 < ?B" using assms by (simp add: ba_wf_def)
  let ?k = "(n - ?old + ?B - 1) div ?B"
  let ?ns' = "?ns @ replicate ?k (new_node ?B)"
  let ?ba' = "addCapacity n ba"
  show "ba_pos ?ba' = ba_pos ba" "ba_size ?ba' = ba_size ba" "ba_base ?ba' = ba_base ba"
    "ba_endian ?ba' = ba_endian ba" "ba_cap ba \<le> ba_cap ?ba'"
    by (simp_all add: addCapacity_def Let_def)
  have "ba_wf ?ba' \<and> ba_content ?ba' = ba_content ba \<and> n \<le> ba_cap ?ba' - ba_pos ba"
  proof (cases "n = 0 \<or> n \<le> ?old")
    case True
    then show ?thesis using assms old by (auto simp: addCapacity_def)
  next
    case False
    have k: "n - ?old \<le> ?k * ?B" by (rule ceil_div_mult [OF B])
    then have k0: "?k \<noteq> 0" using False by (intro notI) simp
    have ba': "?ba' = ba\<lparr>ba_nodes := ?ns', ba_cap := ba_cap ba + ?k * ?B,
        ba_cur := if ?old = 0 then Some (length ?ns) else ba_cur ba\<rparr>"
      using False k0 by (cases "?old = 0") (simp_all add: addCapacity_def Let_def)
    have len: "ba_cap ba = length ?ns * ?B" using assms by (simp add: ba_wf_def)
    have "(if ?old = 0 then Some (length ?ns) else ba_cur ba) = cursor_at ?B (length ?ns') (ba_pos ba)"
    proof (cases "?old = 0")
      case True
      then have "ba_pos ba = length ?ns * ?B" using old le len by simp
      then show ?thesis using True B k0 by (simp add: cursor_at_def)
    next
      case False
      then have "ba_pos ba < length ?ns * ?B" using old len by simp
      then have "ba_pos ba div ?B < length ?ns" by (simp add: less_mult_imp_div_less)
      then show ?thesis using False assms by (simp add: ba_wf_def cursor_at_def)
    qed
    then have wf: "ba_wf ?ba'"
      using assms blocks_ok_append unfolding ba' by (auto simp: ba_wf_def add_mult_distrib)
    have "ba_content ?ba' = ba_content ba"
      using assms ba_wf_length [OF assms] unfolding ba' by (simp add: ba_content_def ba_wf_def)
    moreover have "n \<le> ba_cap ?ba' - ba_pos ba"
      using k old le False unfolding ba' by simp
    ultimately show ?thesis using wf by simp
  qed
  then show "ba_wf ?ba'" "ba_content ?ba' = ba_content ba" "n \<le> ba_cap ?ba' - ba_pos ba"
    by simp_all
qed

section \<open>The operations on the flat view\<close>

lemma ba_wf_pos_div:
  assumes "ba_wf ba" and "ba_pos ba < ba_cap ba"
  shows "ba_pos ba div ba_base ba < length (ba_nodes ba)"
    and "ba_cur ba = Some (ba_pos ba div ba_base ba)"
proof -
  show *: "ba_pos ba div ba_base ba < length (ba_nodes ba)"
    using assms by (simp add: ba_wf_def less_mult_imp_div_less)
  show "ba_cur ba = Some (ba_pos ba div ba_base ba)"
    using assms * by (simp add: ba_wf_def cursor_at_def)
qed

lemma ba_wf_new: "0 < base \<Longrightarrow> ba_wf (new_bytearray base)"
  by (simp add: ba_wf_def new_bytearray_def blocks_ok_def new_node_def cursor_at_def)

lemma ba_content_new: "ba_content (new_bytearray base) = []"
  by (simp add: ba_content_def new_bytearray_def)

lemma ba_read_size: "ba_wf ba \<Longrightarrow> getReadSize ba = length (ba_content ba) - ba_pos ba"
  by (simp add: getReadSize_def length_ba_content) (simp add: ba_wf_def)

lemma ba_write_spec:
  assumes "ba_wf ba"
  shows "\<exists>ba'. ba_write bs ba = Inr ba' \<and> ba_wf ba' \<and> ba_endian ba' = ba_endian ba
     \<and> ba_content ba' = overwrite (ba_content ba) (ba_pos ba) bs
     \<and> ba_pos ba' = ba_pos ba + length bs"
proof (cases "bs = []")
  case True
  then show ?thesis using assms by (simp add: ba_write_def)
next
  case False
  let ?a = "addCapacity (length bs) ba"
  let ?B = "ba_base ?a" and ?ns = "ba_nodes ?a" and ?p = "ba_pos ba"
  note a = addCapacity_spec [OF assms, of "length bs"]
  have B: "0 < ?B" and ok: "blocks_ok ?B ?ns" and cap: "ba_cap ?a = length ?ns * ?B"
    using a(1) by (simp_all add: ba_wf_def)
  have ps: "?p \<le> ba_size ba" "ba_size ba \<le> ba_cap ba" using assms by (simp_all add: ba_wf_def)
  have room: "?p + length bs \<le> length ?ns * ?B"
    using a(3,8) ps cap by linarith
  moreover have "0 < length bs" using False by simp
  ultimately have "ba_pos ?a < ba_cap ?a" using a(4) cap by linarith
  note cur = ba_wf_pos_div [OF a(1) this]
  let ?i = "?p div ?B" and ?s = "?p mod ?B"
  have i: "?i < length ?ns" and c: "ba_cur ?a = Some ?i" using cur a(4) by simp_all
  have p: "?i * ?B + ?s = ?p" by simp
  obtain ns' where
    w: "write_loop ?ns (Some ?i) ?s (?B - ?s) (?i * ?B + ?s) bs
        = Inr (ns', cursor_at ?B (length ?ns) (?i * ?B + ?s + length bs), ?i * ?B + ?s + length bs)"
    and l: "length ns' = length ?ns" and ok': "blocks_ok ?B ns'"
    and cc: "concat ns' = overwrite (concat ?ns) (?i * ?B + ?s) bs"
    using write_loop_spec [OF ok B i _ False, of ?s] B room unfolding p by auto
  let ?ba' = "?a\<lparr>ba_nodes := ns', ba_cur := cursor_at ?B (length ?ns) (?p + length bs),
     ba_pos := ?p + length bs, ba_size := max (ba_size ba) (?p + length bs)\<rparr>"
  have "ba_write bs ba = Inr ?ba'"
    using False c i w a(4,5) blocks_ok_nth [OF ok i] B
    by (simp add: ba_write_def Let_def max_def p less_imp_le)
  moreover have "ba_wf ?ba'"
    using a(1,8) ok' l room ps i by (auto simp: ba_wf_def)
  moreover have "ba_content ?ba' = overwrite (ba_content ba) ?p bs"
  proof -
    have "ba_content ?ba' = take (max (ba_size ba) (?p + length bs)) (overwrite (concat ?ns) ?p bs)"
      using cc p by (simp add: ba_content_def)
    also have "\<dots> = overwrite (take (ba_size ba) (concat ?ns)) ?p bs"
      using ps room a(8) cap by (intro take_overwrite_max) (simp_all add: blocks_ok_length [OF ok])
    finally show ?thesis using a(2,5) by (simp add: ba_content_def)
  qed
  ultimately show ?thesis using a(7) by auto
qed

lemma read_loop_at_cursor:
  assumes "ba_wf ba" and "0 < n" and "n \<le> ba_cap ba - ba_pos ba"
  shows "read_loop (ba_nodes ba) (ba_cur ba) (ba_pos ba mod ba_base ba)
           (usub (length (ba_nodes ba ! (ba_pos ba div ba_base ba))) (ba_pos ba mod ba_base ba)) (ba_pos ba) n
         = Inr (take n (drop (ba_pos ba) (concat (ba_nodes ba))),
                cursor_at (ba_base ba) (length (ba_nodes ba)) (ba_pos ba + n), ba_pos ba + n)"
    and "deref (ba_nodes ba) (ba_cur ba)
         = Inr (ba_pos ba div ba_base ba, ba_nodes ba ! (ba_pos ba div ba_base ba))"
proof -
  let ?B = "ba_base ba" and ?p = "ba_pos ba"
  have lt: "?p < ba_cap ba" using assms by linarith
  note cur = ba_wf_pos_div [OF assms(1) lt]
  have B: "0 < ?B" and ok: "blocks_ok ?B (ba_nodes ba)" and cap: "ba_cap ba = length (ba_nodes ba) * ?B"
    using assms(1) by (simp_all add: ba_wf_def)
  have "?p div ?B * ?B + ?p mod ?B + n \<le> length (ba_nodes ba) * ?B"
    using assms(3) lt cap by simp
  from read_loop_spec [OF ok B cur(1) _ this] B
  show "read_loop (ba_nodes ba) (ba_cur ba) (?p mod ?B)
           (usub (length (ba_nodes ba ! (?p div ?B))) (?p mod ?B)) ?p n
         = Inr (take n (drop ?p (concat (ba_nodes ba))),
                cursor_at ?B (length (ba_nodes ba)) (?p + n), ?p + n)"
    using cur blocks_ok_nth [OF ok cur(1)] by (simp add: less_imp_le)
  show "deref (ba_nodes ba) (ba_cur ba) = Inr (?p div ?B, ba_nodes ba ! (?p div ?B))"
    using cur by simp
qed

lemma ba_content_window:
  "ba_wf ba \<Longrightarrow> n \<le> ba_size ba - ba_pos ba \<Longrightarrow>
   take n (drop (ba_pos ba) (concat (ba_nodes ba))) = take n (drop (ba_pos ba) (ba_content ba))"
  by (simp add: ba_content_def drop_take min_def)

lemma ba_read_spec:
  assumes "ba_wf ba" and "0 < n" and "n \<le> length (ba_content ba) - ba_pos ba"
  shows "\<exists>ba'. ba_read n ba = Inr (take n (drop (ba_pos ba) (ba_content ba)), ba') \<and> ba_wf ba'
     \<and> ba_endian ba' = ba_endian ba \<and> ba_content ba' = ba_content ba \<and> ba_pos ba' = ba_pos ba + n"
proof -
  have sz: "n \<le> ba_size ba - ba_pos ba" and le: "ba_size ba \<le> ba_cap ba" "ba_pos ba \<le> ba_size ba"
    using assms by (simp_all add: length_ba_content) (simp_all add: ba_wf_def)
  then have "n \<le> ba_cap ba - ba_pos ba" by linarith
  note r = read_loop_at_cursor [OF assms(1,2) this]
  let ?ba' = "ba\<lparr>ba_cur := cursor_at (ba_base ba) (length (ba_nodes ba)) (ba_pos ba + n), ba_pos := ba_pos ba + n\<rparr>"
  have "ba_read n ba = Inr (take n (drop (ba_pos ba) (ba_content ba)), ?ba')"
    using r assms by (simp add: ba_read_def ba_read_size Let_def ba_content_window [OF assms(1) sz])
  moreover have "ba_wf ?ba'"
    using assms sz le by (simp add: ba_wf_def)
  ultimately show ?thesis by (simp add: ba_content_def)
qed

lemma ba_read_short:
  "ba_wf ba \<Longrightarrow> length (ba_content ba) - ba_pos ba < n \<Longrightarrow> ba_read n ba = Inl not_enough_len"
  by (simp add: ba_read_def ba_read_size)

lemma setPosition_spec:
  assumes "ba_wf ba"
  shows "if v \<le> ba_cap ba
    then \<exists>ba'. setPosition v ba = Inr ba' \<and> ba_wf ba' \<and> ba_endian ba' = ba_endian ba
       \<and> ba_content ba' = take (max v (ba_size ba)) (concat (ba_nodes ba)) \<and> ba_pos ba' = v
    else setPosition v ba = Inl (Out_of_range ''set_position out of range'')"
proof (cases "v \<le> ba_cap ba")
  case True
  have "seek_loop (ba_nodes ba) (Some 0) v = Inr (cursor_at (ba_base ba) (length (ba_nodes ba)) (0 * ba_base ba + v))"
    using assms True by (intro seek_loop_spec) (simp_all add: ba_wf_def)
  then show ?thesis
    using True assms by (auto simp: setPosition_def ba_wf_def ba_content_def max_def)
qed (simp add: setPosition_def)

lemma ba_clear_spec:
  assumes "ba_wf ba"
  shows "ba_wf (ba_clear ba)" and "ba_content (ba_clear ba) = []" and "ba_pos (ba_clear ba) = 0"
    and "ba_endian (ba_clear ba) = ba_endian ba"
proof -
  have "length (take 1 (ba_nodes ba)) = 1"
    using assms by (cases "ba_nodes ba") (simp_all add: ba_wf_def)
  then show "ba_wf (ba_clear ba)"
    using assms by (auto simp: ba_wf_def ba_clear_def blocks_ok_def cursor_at_def dest: in_set_takeD)
qed (simp_all add: ba_clear_def ba_content_def)

lemma setIsLittleEndian_spec:
  "ba_wf ba \<Longrightarrow> ba_wf (setIsLittleEndian v ba)"
  "ba_content (setIsLittleEndian v ba) = ba_content ba"
  "ba_pos (setIsLittleEndian v ba) = ba_pos ba"
  "isLittleEndian (setIsLittleEndian v ba) = v"
  by (simp_all add: setIsLittleEndian_def ba_wf_def ba_content_def isLittleEndian_def)

interpretation bstore: byte_store ba_wf ba_content ba_pos ba_endian ba_write ba_read setPosition not_enough_len
proof unfold_locales
  fix s :: bytearray and p
  assume s: "ba_wf s" and p: "p \<le> length (ba_content s)"
  then have "p \<le> ba_size s" by (simp add: length_ba_content)
  moreover have "ba_size s \<le> ba_cap s" using s by (simp add: ba_wf_def)
  ultimately show "\<exists>s'. setPosition p s = Inr s' \<and> ba_wf s' \<and> ba_endian s' = ba_endian s
      \<and> ba_content s' = ba_content s \<and> ba_pos s' = p"
    using setPosition_spec [OF s, of p] by (simp add: max_def ba_content_def) 
qed (auto simp: ba_write_spec ba_read_short length_ba_content intro: ba_read_spec, simp add: ba_wf_def)

end
