(* ===== verification/ByteArrayBuffers.thy ===== *)
theory ByteArrayBuffers
  imports ByteArray
begin

text \<open>
  The bulk operations of \<^verbatim>\<open>hiper/base/bytearray.cc\<close>: the scatter/gather buffers handed to the socket
  calls, files and string conversions. A run of buffers is characterised by the stretch of the block
  chain it covers; filling and reading it is then an operation on the flat content.
\<close>

section \<open>Scatter/gather buffers\<close>

text \<open>An \<^verbatim>\<open>iovec\<close>: the address \<^verbatim>\<open>cur->ptr + npos\<close> as a block and an offset into it, and a length.\<close>

record iovec =
  iov_block :: nat
  iov_off :: nat
  iov_len :: nat

text \<open>The loop that the three buffer functions share, from \<^verbatim>\<open>cur\<close>, \<^verbatim>\<open>npos\<close>, \<^verbatim>\<open>ncap\<close> and \<^verbatim>\<open>len\<close>.\<close>

function iov_loop :: "byte list list \<Rightarrow> nat option \<Rightarrow> nat \<Rightarrow> nat \<Rightarrow> nat \<Rightarrow> ba_error + iovec list" where
  "iov_loop ns cur npos ncap len =
     (if len = 0 then Inr []
      else bindE (deref ns cur) (\<lambda>(i, blk).
        if len \<le> ncap then
          Inr [\<lparr>iov_block = i, iov_off = npos, iov_len = len\<rparr>]
        else
          bindE (deref ns (next_node ns i)) (\<lambda>(j, blk2).
            bindE (iov_loop ns (Some j) 0 (length blk2) (len - ncap)) (\<lambda>iovs.
              Inr (\<lparr>iov_block = i, iov_off = npos, iov_len = ncap\<rparr> # iovs)))))"
  by pat_completeness auto
termination
  by (relation "measure (\<lambda>(ns, cur, npos, ncap, len). case cur of None \<Rightarrow> 0 | Some i \<Rightarrow> length ns - i)")
    (auto simp: deref_def next_node_def split: option.splits if_splits)

declare iov_loop.simps [simp del]

text \<open>The result is the returned size and the vector of buffers, to whose end the new ones were pushed.\<close>

definition getReadBuffers :: "iovec list \<Rightarrow> nat \<Rightarrow> bytearray \<Rightarrow> ba_error + nat \<times> iovec list" where
  "getReadBuffers buffers len0 ba =
     (let len = (if len0 > getReadSize ba then getReadSize ba else len0) in
      if len = 0 then Inr (0, buffers)
      else let npos = ba_pos ba mod ba_base ba in
        bindE (deref (ba_nodes ba) (ba_cur ba)) (\<lambda>(i, blk).
          bindE (iov_loop (ba_nodes ba) (ba_cur ba) npos (usub (length blk) npos) len) (\<lambda>iovs.
            Inr (len, buffers @ iovs))))"

text \<open>The walk from \<^verbatim>\<open>root_\<close>: \<^verbatim>\<open>count\<close> steps along \<^verbatim>\<open>next\<close>.\<close>

fun walk :: "byte list list \<Rightarrow> nat option \<Rightarrow> nat \<Rightarrow> ba_error + nat option" where
  "walk ns cur 0 = Inr cur"
| "walk ns cur (Suc count) = bindE (deref ns cur) (\<lambda>(i, blk). walk ns (next_node ns i) count)"

definition getReadBuffersAt :: "iovec list \<Rightarrow> nat \<Rightarrow> nat \<Rightarrow> bytearray \<Rightarrow> ba_error + nat \<times> iovec list" where
  "getReadBuffersAt buffers len0 position ba =
     (let len = (if len0 > getReadSize ba then getReadSize ba else len0) in
      if len = 0 then Inr (0, buffers)
      else let npos = position mod ba_base ba; count = position div ba_base ba in
        bindE (walk (ba_nodes ba) (Some 0) count) (\<lambda>cur.
          bindE (deref (ba_nodes ba) cur) (\<lambda>(i, blk).
            bindE (iov_loop (ba_nodes ba) cur npos (usub (length blk) npos) len) (\<lambda>iovs.
              Inr (len, buffers @ iovs)))))"

definition getWriteBuffers :: "iovec list \<Rightarrow> nat \<Rightarrow> bytearray \<Rightarrow> ba_error + nat \<times> iovec list \<times> bytearray" where
  "getWriteBuffers buffers len ba0 =
     (if len = 0 then Inr (0, buffers, ba0)
      else let ba = addCapacity len ba0; npos = ba_pos ba mod ba_base ba in
        bindE (deref (ba_nodes ba) (ba_cur ba)) (\<lambda>(i, blk).
          bindE (iov_loop (ba_nodes ba) (ba_cur ba) npos (usub (length blk) npos) len) (\<lambda>iovs.
            Inr (len, buffers @ iovs, ba))))"

section \<open>Files and strings\<close>

text \<open>
  \<^verbatim>\<open>writeToFile\<close>: the file is the list of bytes written to it (\<open>Inr None\<close> when the stream does not
  open, which is the \<^verbatim>\<open>return false\<close>). The length is a signed 64-bit value; \<^verbatim>\<open>ofs.write\<close> with a
  negative one reads outside the block.
\<close>

function file_loop :: "nat \<Rightarrow> byte list list \<Rightarrow> nat option \<Rightarrow> nat \<Rightarrow> int \<Rightarrow> ba_error + byte list" where
  "file_loop base ns cur pos read_size =
     (if read_size \<le> 0 then Inr []
      else let diff = pos mod base;
               len = (if read_size > int base then int base else read_size) - int diff in
        bindE (deref ns cur) (\<lambda>(i, blk).
          if len < 0 then Inl Bad_access
          else bindE (memcpy_from blk diff (nat len)) (\<lambda>bs.
            bindE (case next_node ns i of
                     None \<Rightarrow> if read_size - len \<le> 0 then Inr [] else Inl Bad_access
                   | Some j \<Rightarrow> file_loop base ns (Some j) (pos + nat len) (read_size - len))
              (\<lambda>bs'. Inr (bs @ bs')))))"
  by pat_completeness auto
termination
  by (relation "measure (\<lambda>(base, ns, cur, pos, rs). case cur of None \<Rightarrow> 0 | Some i \<Rightarrow> length ns - i)")
    (auto simp: deref_def next_node_def split: option.splits if_splits)

declare file_loop.simps [simp del]

definition writeToFile :: "bool \<Rightarrow> bytearray \<Rightarrow> ba_error + byte list option" where
  "writeToFile opens ba =
     (if \<not> opens then Inr None
      else bindE (file_loop (ba_base ba) (ba_nodes ba) (ba_cur ba) (ba_pos ba) (int (getReadSize ba)))
             (\<lambda>bs. Inr (Some bs)))"

text \<open>
  The loop of \<^verbatim>\<open>readFromFile\<close>: \<^verbatim>\<open>ifs.read\<close> delivers up to \<^verbatim>\<open>base_size_\<close> bytes and reaches the end
  of the file exactly when it delivers fewer.
\<close>

function ifs_loop :: "nat \<Rightarrow> byte list \<Rightarrow> bytearray \<Rightarrow> ba_error + bytearray" where
  "ifs_loop base file ba =
     bindE (ba_write (take base file) ba) (\<lambda>ba'.
       if length file < base \<or> base = 0 then Inr ba' else ifs_loop base (drop base file) ba')"
  by pat_completeness auto
termination
  by (relation "measure (\<lambda>(base, file, ba). length file + (if length file < base then 0 else 1))") auto

declare ifs_loop.simps [simp del]

definition readFromFile :: "byte list option \<Rightarrow> bytearray \<Rightarrow> ba_error + bool \<times> bytearray" where
  "readFromFile file ba =
     (case file of None \<Rightarrow> Inr (False, ba)
      | Some bs \<Rightarrow> bindE (ifs_loop (ba_base ba) bs ba) (\<lambda>ba'. Inr (True, ba')))"

definition ba_toString :: "bytearray \<Rightarrow> ba_error + byte list" where
  "ba_toString ba =
     (let n = getReadSize ba in if n = 0 then Inr [] else ba_read_at n (ba_pos ba) ba)"

definition hex_digit :: "nat \<Rightarrow> char" where
  "hex_digit d = ''0123456789abcdef'' ! d"

definition hex_byte :: "byte \<Rightarrow> string" where
  "hex_byte b = [hex_digit (unat b div 16), hex_digit (unat b mod 16)]"

definition toHexString :: "bytearray \<Rightarrow> ba_error + string" where
  "toHexString ba = bindE (ba_toString ba) (\<lambda>str.
     Inr (concat (map (\<lambda>i. (if 0 < i \<and> i mod 32 = 0 then [CHR 0x0A] else []) @ hex_byte (str ! i) @ '' '')
                   [0..<length str])))"

section \<open>What the buffers denote\<close>

definition iov_ok :: "byte list list \<Rightarrow> iovec \<Rightarrow> bool" where
  "iov_ok ns v \<longleftrightarrow> iov_block v < length ns \<and> iov_off v + iov_len v \<le> length (ns ! iov_block v)"

definition iov_bytes :: "byte list list \<Rightarrow> iovec list \<Rightarrow> byte list" where
  "iov_bytes ns iovs = concat (map (\<lambda>v. take (iov_len v) (drop (iov_off v) (ns ! iov_block v))) iovs)"

text \<open>A scatter read (\<^verbatim>\<open>readv\<close>, \<^verbatim>\<open>recvmsg\<close>) of the bytes \<open>bs\<close> fills the buffers in turn.\<close>

fun iov_store :: "byte list list \<Rightarrow> iovec list \<Rightarrow> byte list \<Rightarrow> byte list list" where
  "iov_store ns [] bs = ns"
| "iov_store ns (v # vs) bs =
     iov_store (ns[iov_block v := overwrite (ns ! iov_block v) (iov_off v) (take (iov_len v) bs)]) vs
       (drop (iov_len v) bs)"

text \<open>A run of buffers that covers the \<open>n\<close> bytes of the chain from position \<open>p\<close> on.\<close>

inductive covers :: "nat \<Rightarrow> nat \<Rightarrow> nat \<Rightarrow> iovec list \<Rightarrow> nat \<Rightarrow> bool" for B len where
  covers_Nil: "covers B len p [] 0"
| covers_Cons: "iov_block v < len \<Longrightarrow> iov_off v + iov_len v \<le> B \<Longrightarrow>
    covers B len (iov_block v * B + iov_off v + iov_len v) vs n \<Longrightarrow>
    p = iov_block v * B + iov_off v \<Longrightarrow> m = iov_len v + n \<Longrightarrow> covers B len p (v # vs) m"

lemma iov_loop_covers:
  assumes "blocks_ok B ns" and "0 < B" and "i < length ns" and "shift < B"
    and "i * B + shift + n \<le> length ns * B"
  shows "\<exists>iovs. iov_loop ns (Some i) shift (B - shift) n = Inr iovs \<and> covers B (length ns) (i * B + shift) iovs n"
  using assms
proof (induction "length ns - i" arbitrary: i shift n rule: less_induct)
  case less
  have len: "length (ns ! i) = B" using less.prems by (simp add: blocks_ok_nth)
  consider "n = 0" | "0 < n" "n \<le> B - shift" | "B - shift < n" by linarith
  then show ?case
  proof cases
    case 1
    then show ?thesis by (subst iov_loop.simps) (simp add: covers_Nil)
  next
    case 2
    have "covers B (length ns) (i * B + shift) [\<lparr>iov_block = i, iov_off = shift, iov_len = n\<rparr>] n"
      using 2 less.prems by (intro covers_Cons [where n = 0] covers_Nil) auto
    then show ?thesis using 2 less.prems by (subst iov_loop.simps) simp
  next
    case 3
    let ?l = "B - shift"
    have end_pos: "i * B + shift + ?l = Suc i * B" using less.prems by simp
    have "i * B + shift + ?l < i * B + shift + n" using 3 by simp
    then have "Suc i * B < length ns * B" using less.prems(5) unfolding end_pos by (rule less_le_trans)
    then have j: "Suc i < length ns" using less.prems(2) by (metis mult_less_cancel2)
    have "Suc i * B + (n - ?l) = i * B + shift + n" unfolding end_pos [symmetric] using 3 by simp
    then have tot: "Suc i * B + 0 + (n - ?l) \<le> length ns * B" using less.prems(5) by simp
    have "\<exists>iovs. iov_loop ns (Some (Suc i)) 0 (B - 0) (n - ?l) = Inr iovs
        \<and> covers B (length ns) (Suc i * B + 0) iovs (n - ?l)"
      by (rule less.hyps [OF _ less.prems(1,2) j _ tot]) (use less.prems(2,3) in simp_all)
    then obtain iovs where r: "iov_loop ns (Some (Suc i)) 0 B (n - ?l) = Inr iovs"
      and c: "covers B (length ns) (Suc i * B) iovs (n - ?l)" by auto
    have "covers B (length ns) (i * B + shift) (\<lparr>iov_block = i, iov_off = shift, iov_len = ?l\<rparr> # iovs) n"
    proof (rule covers_Cons [where n = "n - ?l"])
      show "covers B (length ns) (iov_block \<lparr>iov_block = i, iov_off = shift, iov_len = ?l\<rparr> * B
          + iov_off \<lparr>iov_block = i, iov_off = shift, iov_len = ?l\<rparr>
          + iov_len \<lparr>iov_block = i, iov_off = shift, iov_len = ?l\<rparr>) iovs (n - ?l)"
        using c by (simp only: iovec.simps end_pos)
    qed (use less.prems 3 in simp_all)
    then show ?thesis
      using r 3 less.prems j blocks_ok_nth [OF less.prems(1) j]
      by (subst iov_loop.simps) (simp add: next_node_def)
  qed
qed

lemma covers_bytes:
  "covers B (length ns) p iovs n \<Longrightarrow> blocks_ok B ns \<Longrightarrow> iov_bytes ns iovs = take n (drop p (concat ns))"
proof (induction rule: covers.induct)
  case covers_Nil
  then show ?case by (simp add: iov_bytes_def)
next
  case (covers_Cons v vs n p m)
  have ch: "\<forall>b\<in>set ns. length b = B" using covers_Cons.prems by (simp add: blocks_ok_def)
  have "take (iov_len v) (drop p (concat ns)) = take (iov_len v) (drop (iov_off v) (ns ! iov_block v))"
    unfolding covers_Cons.hyps(4) using covers_Cons.hyps by (intro chunk_window [OF ch]) simp_all
  moreover have "iov_bytes ns vs = take n (drop (p + iov_len v) (concat ns))"
    using covers_Cons by simp
  ultimately show ?case
    using take_add [of "iov_len v" n "drop p (concat ns)"]
    by (simp add: iov_bytes_def covers_Cons.hyps(5) add.commute)
qed

lemma covers_length: "covers B len p iovs n \<Longrightarrow> sum_list (map iov_len iovs) = n"
  by (induction rule: covers.induct) simp_all

lemma covers_store:
  "covers B (length ns) p iovs n \<Longrightarrow> blocks_ok B ns \<Longrightarrow> length bs \<le> n \<Longrightarrow>
   length (iov_store ns iovs bs) = length ns \<and> blocks_ok B (iov_store ns iovs bs)
   \<and> concat (iov_store ns iovs bs) = overwrite (concat ns) p bs"
proof (induction iovs arbitrary: ns p n bs)
  case Nil
  then show ?case by (auto elim: covers.cases)
next
  case (Cons v vs)
  from Cons.prems(1) obtain k where k: "iov_block v < length ns" "iov_off v + iov_len v \<le> B"
    "covers B (length ns) (p + iov_len v) vs k" "p = iov_block v * B + iov_off v" "n = iov_len v + k"
    by (cases rule: covers.cases) auto
  let ?a = "take (iov_len v) bs"
  let ?ns = "ns[iov_block v := overwrite (ns ! iov_block v) (iov_off v) ?a]"
  have ch: "\<forall>b\<in>set ns. length b = B" using Cons.prems by (simp add: blocks_ok_def)
  have ok: "blocks_ok B ?ns"
    using Cons.prems(2) k blocks_ok_nth [of B ns "iov_block v"] by (intro blocks_ok_update) simp_all
  have c: "concat ?ns = overwrite (concat ns) p ?a"
    unfolding k(4) using k by (intro concat_update_chunk [OF ch]) simp_all
  have IH: "length (iov_store ?ns vs (drop (iov_len v) bs)) = length ?ns
      \<and> blocks_ok B (iov_store ?ns vs (drop (iov_len v) bs))
      \<and> concat (iov_store ?ns vs (drop (iov_len v) bs)) = overwrite (concat ?ns) (p + iov_len v) (drop (iov_len v) bs)"
    by (rule Cons.IH [OF _ ok]) (use k Cons.prems(3) in auto)
  show ?case
  proof (cases "iov_len v \<le> length bs")
    case True
    have "iov_block v * B + iov_off v + iov_len v \<le> length ns * B"
      using k(1,2) by (metis add.assoc add_le_cancel_left le_trans mult_Suc mult_le_mono1 Suc_leI add.commute)
    then have "overwrite (overwrite (concat ns) p ?a) (p + iov_len v) (drop (iov_len v) bs)
        = overwrite (concat ns) p (?a @ drop (iov_len v) bs)"
      using overwrite_append [of p "concat ns" ?a] True k(4) blocks_ok_length [OF Cons.prems(2)] by simp
    then show ?thesis using IH c by simp
  next
    case False
    then show ?thesis using IH c by simp
  qed
qed

lemma iov_loop_at_cursor:
  assumes "ba_wf ba" and "0 < n" and "n \<le> ba_cap ba - ba_pos ba"
  shows "\<exists>iovs. iov_loop (ba_nodes ba) (ba_cur ba) (ba_pos ba mod ba_base ba)
           (usub (length (ba_nodes ba ! (ba_pos ba div ba_base ba))) (ba_pos ba mod ba_base ba)) n = Inr iovs
         \<and> covers (ba_base ba) (length (ba_nodes ba)) (ba_pos ba) iovs n"
    and "deref (ba_nodes ba) (ba_cur ba)
         = Inr (ba_pos ba div ba_base ba, ba_nodes ba ! (ba_pos ba div ba_base ba))"
proof -
  let ?B = "ba_base ba" and ?p = "ba_pos ba"
  have lt: "?p < ba_cap ba" using assms by linarith
  note cur = ba_wf_pos_div [OF assms(1) lt]
  have B: "0 < ?B" and ok: "blocks_ok ?B (ba_nodes ba)" and cap: "ba_cap ba = length (ba_nodes ba) * ?B"
    using assms(1) by (simp_all add: ba_wf_def)
  have "?p div ?B * ?B + ?p mod ?B + n \<le> length (ba_nodes ba) * ?B"
    using assms(3) lt cap by simp
  from iov_loop_covers [OF ok B cur(1) _ this] B
  show "\<exists>iovs. iov_loop (ba_nodes ba) (ba_cur ba) (?p mod ?B)
           (usub (length (ba_nodes ba ! (?p div ?B))) (?p mod ?B)) n = Inr iovs
         \<and> covers ?B (length (ba_nodes ba)) ?p iovs n"
    using cur blocks_ok_nth [OF ok cur(1)] by (simp add: less_imp_le)
  show "deref (ba_nodes ba) (ba_cur ba) = Inr (?p div ?B, ba_nodes ba ! (?p div ?B))"
    using cur by simp
qed

lemma getReadBuffers_spec:
  assumes "ba_wf ba"
  shows "\<exists>iovs. getReadBuffers buffers len ba = Inr (min len (getReadSize ba), buffers @ iovs)
     \<and> iov_bytes (ba_nodes ba) iovs = take len (drop (ba_pos ba) (ba_content ba))
     \<and> sum_list (map iov_len iovs) = min len (getReadSize ba)"
proof -
  let ?n = "min len (getReadSize ba)"
  have rs: "getReadSize ba = ba_size ba - ba_pos ba" and le: "ba_pos ba \<le> ba_size ba" "ba_size ba \<le> ba_cap ba"
    using assms by (simp_all add: ba_read_size length_ba_content) (simp_all add: ba_wf_def)
  have n: "(if len > getReadSize ba then getReadSize ba else len) = ?n" by simp
  show ?thesis
  proof (cases "?n = 0")
    case True
    moreover have "take len (drop (ba_pos ba) (ba_content ba)) = []"
      using True rs length_ba_content [OF assms] by auto
    ultimately show ?thesis
      unfolding getReadBuffers_def Let_def n by (intro exI [of _ "[]"]) (simp add: iov_bytes_def)
  next
    case False
    have "?n \<le> ba_cap ba - ba_pos ba" using rs le by linarith
    with False iov_loop_at_cursor [OF assms, of ?n] obtain iovs where
      l: "iov_loop (ba_nodes ba) (ba_cur ba) (ba_pos ba mod ba_base ba)
           (usub (length (ba_nodes ba ! (ba_pos ba div ba_base ba))) (ba_pos ba mod ba_base ba)) ?n = Inr iovs"
      and c: "covers (ba_base ba) (length (ba_nodes ba)) (ba_pos ba) iovs ?n"
      and d: "deref (ba_nodes ba) (ba_cur ba)
         = Inr (ba_pos ba div ba_base ba, ba_nodes ba ! (ba_pos ba div ba_base ba))"
      by auto
    have "iov_bytes (ba_nodes ba) iovs = take ?n (drop (ba_pos ba) (concat (ba_nodes ba)))"
      using covers_bytes [OF c] assms by (simp add: ba_wf_def)
    also have "\<dots> = take ?n (drop (ba_pos ba) (ba_content ba))"
      using rs by (intro ba_content_window [OF assms]) simp
    also have "\<dots> = take len (drop (ba_pos ba) (ba_content ba))"
      using rs length_ba_content [OF assms] by (simp add: min_def)
    finally show ?thesis
      using False l d covers_length [OF c] unfolding getReadBuffers_def Let_def n if_not_P [OF False]
      by simp
  qed
qed

lemma walk_root: "count < length ns \<Longrightarrow> i + count < length ns \<Longrightarrow> walk ns (Some i) count = Inr (Some (i + count))"
  by (induction count arbitrary: i) (simp_all add: next_node_def)

lemma getReadBuffersAt_spec:
  assumes "ba_wf ba" and "position + min len (getReadSize ba) \<le> ba_cap ba"
  shows "\<exists>iovs. getReadBuffersAt buffers len position ba = Inr (min len (getReadSize ba), buffers @ iovs)
     \<and> iov_bytes (ba_nodes ba) iovs = take (min len (getReadSize ba)) (drop position (concat (ba_nodes ba)))"
proof -
  let ?n = "min len (getReadSize ba)" and ?B = "ba_base ba" and ?ns = "ba_nodes ba"
  have n: "(if len > getReadSize ba then getReadSize ba else len) = ?n" by simp
  have B: "0 < ?B" and ok: "blocks_ok ?B ?ns" and cap: "ba_cap ba = length ?ns * ?B"
    using assms(1) by (simp_all add: ba_wf_def)
  show ?thesis
  proof (cases "?n = 0")
    case True
    then show ?thesis
      unfolding getReadBuffersAt_def Let_def n by (intro exI [of _ "[]"]) (simp add: iov_bytes_def)
  next
    case False
    then have "position < length ?ns * ?B" using assms(2) cap by linarith
    then have i: "position div ?B < length ?ns" by (simp add: less_mult_imp_div_less)
    have "position div ?B * ?B + position mod ?B + ?n \<le> length ?ns * ?B" using assms(2) cap by simp
    from iov_loop_covers [OF ok B i _ this] B obtain iovs where
      l: "iov_loop ?ns (Some (position div ?B)) (position mod ?B) (?B - position mod ?B) ?n = Inr iovs"
      and c: "covers ?B (length ?ns) position iovs ?n" by auto
    have "usub (length (?ns ! (position div ?B))) (position mod ?B) = ?B - position mod ?B"
      using blocks_ok_nth [OF ok i] B by (simp add: less_imp_le)
    with False l i walk_root [of "position div ?B" ?ns 0] covers_bytes [OF c ok] show ?thesis
      unfolding getReadBuffersAt_def Let_def n if_not_P [OF False] by simp
  qed
qed

lemma getWriteBuffers_spec:
  assumes "ba_wf ba"
  shows "\<exists>iovs. getWriteBuffers buffers len ba = Inr (len, buffers @ iovs, addCapacity len ba)
     \<and> covers (ba_base ba) (length (ba_nodes (addCapacity len ba))) (ba_pos ba) iovs len"
proof (cases "len = 0")
  case True
  then show ?thesis
    by (intro exI [of _ "[]"]) (simp add: getWriteBuffers_def addCapacity_def covers.covers_Nil)
next
  case False
  note a = addCapacity_spec [OF assms, of len]
  have "len \<le> ba_cap (addCapacity len ba) - ba_pos (addCapacity len ba)" using a(3,4) by simp
  from iov_loop_at_cursor [OF a(1) _ this] False show ?thesis
    by (auto simp: getWriteBuffers_def Let_def a)
qed

lemma scatter_fill:
  assumes "ba_wf ba" and "length bs \<le> len" and "getWriteBuffers [] len ba = Inr (n, iovs, ba1)"
  shows "\<exists>ba2. setPosition (ba_pos ba1 + length bs) (ba1\<lparr>ba_nodes := iov_store (ba_nodes ba1) iovs bs\<rparr>) = Inr ba2
     \<and> ba_wf ba2 \<and> ba_content ba2 = overwrite (ba_content ba) (ba_pos ba) bs
     \<and> ba_pos ba2 = ba_pos ba + length bs"
proof -
  note a = addCapacity_spec [OF assms(1), of len]
  from getWriteBuffers_spec [OF assms(1), of "[]" len] assms(3)
  have ba1: "ba1 = addCapacity len ba"
    and c: "covers (ba_base ba) (length (ba_nodes ba1)) (ba_pos ba) iovs len" by auto
  let ?ns = "iov_store (ba_nodes ba1) iovs bs"
  let ?b = "ba1\<lparr>ba_nodes := ?ns\<rparr>"
  have ok: "blocks_ok (ba_base ba) (ba_nodes ba1)" using a(1,6) by (simp add: ba1 ba_wf_def)
  note st = covers_store [OF c ok assms(2)]
  have wf: "ba_wf ?b" using a(1,6) st by (auto simp: ba1 ba_wf_def)
  have ps: "ba_pos ba \<le> ba_size ba" "ba_size ba \<le> ba_cap ba" using assms(1) by (simp_all add: ba_wf_def)
  have room: "ba_pos ba + length bs \<le> ba_cap ba1"
    using a(3) assms(2) ps(1,2) a(8) unfolding ba1 by linarith
  have "take (max (ba_pos ba + length bs) (ba_size ba)) (concat ?ns) = overwrite (take (ba_size ba) (concat (ba_nodes ba1))) (ba_pos ba) bs"
  proof -
    have "take (max (ba_size ba) (ba_pos ba + length bs)) (overwrite (concat (ba_nodes ba1)) (ba_pos ba) bs)
      = overwrite (take (ba_size ba) (concat (ba_nodes ba1))) (ba_pos ba) bs"
      using ps room a(8) ba_wf_length [OF a(1)] unfolding ba1 by (intro take_overwrite_max) simp_all
    then show ?thesis using st by (simp add: max.commute)
  qed
  also have "take (ba_size ba) (concat (ba_nodes ba1)) = ba_content ba"
    using a(2,5) by (simp add: ba1 ba_content_def)
  finally have cont: "take (max (ba_pos ba + length bs) (ba_size ba)) (concat ?ns) = overwrite (ba_content ba) (ba_pos ba) bs" .
  have "ba_pos ba1 + length bs \<le> ba_cap ?b" using room a(4) by (simp add: ba1)
  with setPosition_spec [OF wf, of "ba_pos ba1 + length bs"] show ?thesis
    using cont a(4,5) by (auto simp: ba1)
qed

section \<open>Files\<close>

lemma file_loop_aligned:
  assumes "blocks_ok B ns" and "0 < B" and "i < length ns" and "i * B + n \<le> length ns * B"
  shows "file_loop B ns (Some i) (i * B) (int n) = Inr (take n (drop (i * B) (concat ns)))"
  using assms
proof (induction "length ns - i" arbitrary: i n rule: less_induct)
  case less
  have len: "length (ns ! i) = B" using less.prems by (simp add: blocks_ok_nth)
  have ch: "\<forall>b\<in>set ns. length b = B" using less.prems by (simp add: blocks_ok_def)
  have win: "m \<le> B \<Longrightarrow> take m (drop (i * B) (concat ns)) = take m (ns ! i)" for m
    using chunk_window [OF ch less.prems(3), of 0 m] by simp
  consider "n = 0" | "0 < n" "n \<le> B" | "B < n" by linarith
  then show ?case
  proof cases
    case 1
    then show ?thesis by (subst file_loop.simps) simp
  next
    case 2
    have "file_loop B ns (Some j) p 0 = Inr []" for j p by (subst file_loop.simps) simp
    then show ?thesis
      using 2 less.prems len win by (subst file_loop.simps) (auto simp: memcpy_from_def Let_def split: option.splits)
  next
    case 3
    have e: "Suc i * B = i * B + B" by simp
    have "i * B + B < i * B + n" using 3 by simp
    then have "Suc i * B < length ns * B" using less.prems(4) unfolding e by (rule less_le_trans)
    then have j: "Suc i < length ns" using less.prems(2) by (metis mult_less_cancel2)
    have "Suc i * B + (n - B) \<le> length ns * B" unfolding e using 3 less.prems(4) by simp
    then have IH: "file_loop B ns (Some (Suc i)) (Suc i * B) (int (n - B)) = Inr (take (n - B) (drop (Suc i * B) (concat ns)))"
      by (intro less.hyps [OF _ less.prems(1,2) j]) (use less.prems(3) in simp_all)
    have "int n - int B = int (n - B)" using 3 by simp
    then have "file_loop B ns (Some i) (i * B) (int n) = Inr (take B (ns ! i) @ take (n - B) (drop (Suc i * B) (concat ns)))"
      using 3 IH j less.prems len unfolding e
      by (subst file_loop.simps) (simp add: memcpy_from_def next_node_def add.commute)
    also have "take B (ns ! i) @ take (n - B) (drop (Suc i * B) (concat ns)) = take n (drop (i * B) (concat ns))"
      using take_add [of B "n - B" "drop (i * B) (concat ns)"] 3 win [of B] unfolding e by (simp add: add.commute)
    finally show ?thesis .
  qed
qed

lemma writeToFile_aligned:
  assumes "ba_wf ba" and "ba_pos ba mod ba_base ba = 0"
  shows "writeToFile True ba = Inr (Some (drop (ba_pos ba) (ba_content ba)))"
proof (cases "ba_pos ba < ba_size ba")
  case True
  have le: "ba_size ba \<le> ba_cap ba" and B: "0 < ba_base ba" and ok: "blocks_ok (ba_base ba) (ba_nodes ba)"
    and cap: "ba_cap ba = length (ba_nodes ba) * ba_base ba" using assms by (simp_all add: ba_wf_def)
  then have "ba_pos ba < ba_cap ba" using True by linarith
  note cur = ba_wf_pos_div [OF assms(1) this]
  have p: "ba_pos ba div ba_base ba * ba_base ba = ba_pos ba" using assms(2) by (metis add.right_neutral div_mult_mod_eq)
  have rs: "getReadSize ba = ba_size ba - ba_pos ba" using assms(1) True by (simp add: getReadSize_def)
  have "ba_pos ba div ba_base ba * ba_base ba + getReadSize ba \<le> length (ba_nodes ba) * ba_base ba"
    using rs le True cap p by simp
  from file_loop_aligned [OF ok B cur(1) this] show ?thesis
    by (simp add: writeToFile_def cur(2) p rs ba_content_window [OF assms(1)])
      (simp add: length_ba_content [OF assms(1)])
next
  case False
  then have "getReadSize ba = 0" using assms(1) by (simp add: getReadSize_def ba_wf_def)
  then show ?thesis using False by (simp add: writeToFile_def file_loop.simps ba_content_def)
qed

lemma ifs_loop_spec:
  assumes "ba_wf ba" and "0 < base"
  shows "\<exists>ba'. ifs_loop base cs ba = Inr ba' \<and> ba_wf ba' \<and> ba_endian ba' = ba_endian ba
     \<and> ba_content ba' = overwrite (ba_content ba) (ba_pos ba) cs \<and> ba_pos ba' = ba_pos ba + length cs"
  using assms
proof (induction base cs ba rule: ifs_loop.induct)
  case (1 base cs ba)
  from ba_write_spec [OF 1(2), of "take base cs"] obtain b1 where
    b1: "ba_write (take base cs) ba = Inr b1" "ba_wf b1" "ba_endian b1 = ba_endian ba"
      "ba_content b1 = overwrite (ba_content ba) (ba_pos ba) (take base cs)"
      "ba_pos b1 = ba_pos ba + length (take base cs)" by blast
  show ?case
  proof (cases "length cs < base")
    case True
    then show ?thesis using b1 by (subst ifs_loop.simps) simp
  next
    case False
    then have tk: "length (take base cs) = base" by simp
    from False 1(1) [OF b1(1) _ b1(2) 1(3)] 1(3) obtain b2 where
      b2: "ifs_loop base (drop base cs) b1 = Inr b2" "ba_wf b2" "ba_endian b2 = ba_endian b1"
        "ba_content b2 = overwrite (ba_content b1) (ba_pos b1) (drop base cs)"
        "ba_pos b2 = ba_pos b1 + length (drop base cs)" by auto
    have "ba_pos ba \<le> length (ba_content ba)" using 1(2) length_ba_content [OF 1(2)] by (simp add: ba_wf_def)
    then have "ba_content b2 = overwrite (ba_content ba) (ba_pos ba) (take base cs @ drop base cs)"
      using b1(4,5) b2(4) by (simp only: overwrite_append)
    then show ?thesis using b1 b2 False 1(3) by (subst ifs_loop.simps) simp
  qed
qed

lemma ba_toString_spec: "ba_wf ba \<Longrightarrow> ba_toString ba = Inr (drop (ba_pos ba) (ba_content ba))"
proof -
  assume wf: "ba_wf ba"
  then have le: "ba_pos ba \<le> ba_size ba" "ba_size ba \<le> ba_cap ba" by (simp_all add: ba_wf_def)
  have rs: "getReadSize ba = ba_size ba - ba_pos ba" using le by (simp add: getReadSize_def)
  show ?thesis
  proof (cases "ba_pos ba < ba_size ba")
    case True
    then have "0 < getReadSize ba" "getReadSize ba \<le> ba_cap ba - ba_pos ba" using rs le by simp_all
    from read_loop_at_cursor [OF wf this] True le show ?thesis
      by (simp add: ba_toString_def Let_def ba_read_at_def rs ba_content_window [OF wf])
        (simp add: length_ba_content [OF wf])
  next
    case False
    then show ?thesis using rs by (simp add: ba_toString_def ba_content_def)
  qed
qed

lemma writeToFile_spanning:
  assumes "ba_wf ba" and "ba_pos ba mod ba_base ba = 0 \<or> ba_base ba \<le> getReadSize ba"
  shows "writeToFile True ba = Inr (Some (drop (ba_pos ba) (ba_content ba)))"
proof (cases "ba_pos ba mod ba_base ba = 0")
  case True
  then show ?thesis by (rule writeToFile_aligned [OF assms(1)])
next
  case False
  let ?B = "ba_base ba" and ?ns = "ba_nodes ba" and ?n = "getReadSize ba"
  let ?i = "ba_pos ba div ?B" and ?d = "ba_pos ba mod ?B"
  have le: "ba_pos ba \<le> ba_size ba" "ba_size ba \<le> ba_cap ba" and B: "0 < ?B" and ok: "blocks_ok ?B ?ns"
    and cap: "ba_cap ba = length ?ns * ?B" using assms(1) by (simp_all add: ba_wf_def)
  have n: "?n = ba_size ba - ba_pos ba" using le by (simp add: getReadSize_def)
  have big: "?B \<le> ?n" using assms(2) False by simp
  have tot: "ba_pos ba + ?n \<le> length ?ns * ?B" using le cap n by simp
  have "ba_pos ba < ba_cap ba" using tot B big unfolding cap by linarith
  note cur = ba_wf_pos_div [OF assms(1) this]
  have d: "?d < ?B" "0 < ?d" using B False by simp_all
  define m where "m = ?B - ?d"
  have m: "?d + m = ?B" "m \<le> ?n" using d big by (simp_all add: m_def)
  have p: "?i * ?B + ?d = ba_pos ba" by simp
  have e: "ba_pos ba + m = Suc ?i * ?B" unfolding mult_Suc using p m by linarith
  have "ba_pos ba + m < ba_pos ba + ?n" using d big m by linarith
  then have "Suc ?i * ?B < length ?ns * ?B" unfolding e using tot by (rule less_le_trans)
  then have j: "Suc ?i < length ?ns" using B by (metis mult_less_cancel2)
  have "Suc ?i * ?B + (?n - m) \<le> length ?ns * ?B" unfolding e [symmetric] using tot m by simp
  from file_loop_aligned [OF ok B j this]
  have rest: "file_loop ?B ?ns (Some (Suc ?i)) (ba_pos ba + m) (int (?n - m))
      = Inr (take (?n - m) (drop (ba_pos ba + m) (concat ?ns)))" unfolding e .
  have blk: "length (?ns ! ?i) = ?B" by (rule blocks_ok_nth [OF ok cur(1)])
  have win: "take m (drop ?d (?ns ! ?i)) = take m (drop (ba_pos ba) (concat ?ns))"
    using chunk_window [of ?ns ?B ?i ?d m] ok cur(1) m p by (simp add: blocks_ok_def)
  have len: "(if int ?n > int ?B then int ?B else int ?n) - int ?d = int m" using big m by auto
  have sub: "int ?n - int m = int (?n - m)" using m by simp
  have pos: "\<not> int ?n \<le> 0" using big B by simp
  have "file_loop ?B ?ns (Some ?i) (ba_pos ba) (int ?n)
      = Inr (take m (drop ?d (?ns ! ?i)) @ take (?n - m) (drop (ba_pos ba + m) (concat ?ns)))"
    by (subst file_loop.simps, simp only: Let_def len if_not_P [OF pos] deref_Some [OF cur(1)] bindE_Inr prod.case)
      (simp add: memcpy_from_def next_node_def blk m j rest [folded sub])
  also have "take m (drop ?d (?ns ! ?i)) @ take (?n - m) (drop (ba_pos ba + m) (concat ?ns))
      = take ?n (drop (ba_pos ba) (concat ?ns))"
    unfolding win using take_add [of m "?n - m" "drop (ba_pos ba) (concat ?ns)"] m by (simp add: add.commute)
  also have "\<dots> = take ?n (drop (ba_pos ba) (ba_content ba))"
    by (rule ba_content_window [OF assms(1)]) (simp add: n)
  also have "\<dots> = drop (ba_pos ba) (ba_content ba)"
    using n length_ba_content [OF assms(1)] by simp
  finally show ?thesis by (simp add: writeToFile_def cur(2))
qed

text \<open>
  Property C28. A scatter read into the write buffers is a write: after \<^verbatim>\<open>getWriteBuffers(buffers, len)\<close>,
  storing any \<open>n \<le> len\<close> received bytes into the buffers and \<^verbatim>\<open>setPosition(position + n)\<close> (what
  \<^verbatim>\<open>SocketStream::read\<close> does) gives a well-formed array whose content is the old one with the bytes
  written at the position.
\<close>

theorem getWriteBuffers_receive:
  assumes "ba_wf ba" and "length bs \<le> len" and "getWriteBuffers [] len ba = Inr (n, iovs, ba1)"
  shows "\<exists>ba2. setPosition (ba_pos ba1 + length bs) (ba1\<lparr>ba_nodes := iov_store (ba_nodes ba1) iovs bs\<rparr>) = Inr ba2
     \<and> ba_wf ba2 \<and> ba_content ba2 = overwrite (ba_content ba) (ba_pos ba) bs
     \<and> ba_pos ba2 = ba_pos ba + length bs"
  by (rule scatter_fill [OF assms])

lemma getWriteBuffers_example:
  "getWriteBuffers [] 6 (new_bytearray 4) = Inr (6, [\<lparr>iov_block = 0, iov_off = 0, iov_len = 4\<rparr>,
     \<lparr>iov_block = 1, iov_off = 0, iov_len = 2\<rparr>], addCapacity 6 (new_bytearray 4))"
  by (simp add: getWriteBuffers_def new_bytearray_def addCapacity_def getCapacity_def new_node_def
      deref_def next_node_def iov_loop.simps)

theorem getWriteBuffers_receive_witness:
  "\<exists>ba2. setPosition (ba_pos (addCapacity 6 (new_bytearray 4)) + length [1 :: byte, 2, 3, 4, 5])
       ((addCapacity 6 (new_bytearray 4))\<lparr>ba_nodes := iov_store (ba_nodes (addCapacity 6 (new_bytearray 4)))
           [\<lparr>iov_block = 0, iov_off = 0, iov_len = 4\<rparr>, \<lparr>iov_block = 1, iov_off = 0, iov_len = 2\<rparr>] [1, 2, 3, 4, 5]\<rparr>)
       = Inr ba2
     \<and> ba_wf ba2 \<and> ba_content ba2 = overwrite (ba_content (new_bytearray 4)) (ba_pos (new_bytearray 4)) [1, 2, 3, 4, 5]
     \<and> ba_pos ba2 = ba_pos (new_bytearray 4) + length [1 :: byte, 2, 3, 4, 5]"
  by (rule getWriteBuffers_receive [OF _ _ getWriteBuffers_example]) (simp_all add: ba_wf_new)

text \<open>
  \<^verbatim>\<open>writeToFile\<close> writes exactly the unread bytes when the position is at a block boundary or
  at least a whole block is unread, and \<^verbatim>\<open>readFromFile\<close> of that file into another array writes them at
  its position.
\<close>

theorem bytearray_file_roundtrip:
  assumes "ba_wf ba" and "ba_pos ba mod ba_base ba = 0 \<or> ba_base ba \<le> getReadSize ba" and "ba_wf bb"
  shows "\<exists>bs bb'. writeToFile True ba = Inr (Some bs) \<and> bs = drop (ba_pos ba) (ba_content ba)
     \<and> readFromFile (Some bs) bb = Inr (True, bb') \<and> ba_wf bb'
     \<and> ba_content bb' = overwrite (ba_content bb) (ba_pos bb) bs \<and> ba_pos bb' = ba_pos bb + length bs"
proof -
  have "0 < ba_base bb" using assms(3) by (simp add: ba_wf_def)
  from ifs_loop_spec [OF assms(3) this, of "drop (ba_pos ba) (ba_content ba)"] show ?thesis
    by (auto simp: writeToFile_spanning [OF assms(1,2)] readFromFile_def)
qed

theorem bytearray_file_roundtrip_witness:
  "\<exists>bs bb'. writeToFile True (new_bytearray 4) = Inr (Some bs) \<and> bs = drop (ba_pos (new_bytearray 4)) (ba_content (new_bytearray 4))
     \<and> readFromFile (Some bs) (new_bytearray 3) = Inr (True, bb') \<and> ba_wf bb'
     \<and> ba_content bb' = overwrite (ba_content (new_bytearray 3)) (ba_pos (new_bytearray 3)) bs
     \<and> ba_pos bb' = ba_pos (new_bytearray 3) + length bs"
  by (rule bytearray_file_roundtrip) (simp_all add: ba_wf_new, simp add: new_bytearray_def)

text \<open>
  With the cursor inside the last block, off its start, \<^verbatim>\<open>writeToFile\<close> does not return the
  unread bytes: the length of the first chunk is too small by the offset, so the loop goes on past the
  end of the chain (or starts with a negative length).
\<close>

theorem writeToFile_last_block:
  assumes "ba_wf ba" and "Suc (ba_pos ba div ba_base ba) = length (ba_nodes ba)"
    and "ba_pos ba mod ba_base ba \<noteq> 0" and "0 < getReadSize ba"
  shows "writeToFile True ba = Inl Bad_access"
proof -
  let ?B = "ba_base ba" and ?ns = "ba_nodes ba" and ?n = "getReadSize ba"
  let ?i = "ba_pos ba div ?B" and ?d = "ba_pos ba mod ?B"
  have le: "ba_pos ba \<le> ba_size ba" "ba_size ba \<le> ba_cap ba" and B: "0 < ?B" and ok: "blocks_ok ?B ?ns"
    and cap: "ba_cap ba = length ?ns * ?B" using assms(1) by (simp_all add: ba_wf_def)
  have n: "?n = ba_size ba - ba_pos ba" using le by (simp add: getReadSize_def)
  have "ba_pos ba < ba_cap ba" using assms(4) le n by simp
  note cur = ba_wf_pos_div [OF assms(1) this]
  have p: "?i * ?B + ?d = ba_pos ba" by simp
  have "?i * ?B + ?d + ?n \<le> Suc ?i * ?B"
    unfolding p assms(2) cap [symmetric] using n le by linarith
  then have small: "?d + ?n \<le> ?B" unfolding mult_Suc by linarith
  have len: "(if int ?n > int ?B then int ?B else int ?n) - int ?d = int ?n - int ?d" using small by auto
  have pos: "\<not> int ?n \<le> 0" using assms(4) by simp
  have "file_loop ?B ?ns (Some ?i) (ba_pos ba) (int ?n) = Inl Bad_access"
    using assms(2,3) blocks_ok_nth [OF ok cur(1)] small
    by (subst file_loop.simps, simp only: Let_def len if_not_P [OF pos] deref_Some [OF cur(1)] bindE_Inr prod.case)
      (simp add: memcpy_from_def next_node_def)
  then show ?thesis by (simp add: writeToFile_def cur(2))
qed

lemma file_example_wf:
  "ba_wf \<lparr>ba_base = 4, ba_pos = 1, ba_cap = 4, ba_size = 3, ba_endian = Big_endian,
     ba_nodes = [[7, 8, 9, 0]], ba_cur = Some 0\<rparr>"
  by (simp add: ba_wf_def blocks_ok_def cursor_at_def)

theorem writeToFile_last_block_witness:
  "writeToFile True \<lparr>ba_base = 4, ba_pos = 1, ba_cap = 4, ba_size = 3, ba_endian = Big_endian,
     ba_nodes = [[7, 8, 9, 0]], ba_cur = Some 0\<rparr> = Inl Bad_access"
  by (rule writeToFile_last_block [OF file_example_wf]) (simp_all add: getReadSize_def)

end
