(* ===== verification/ByteArrayCodec.thy ===== *)
theory ByteArrayCodec
  imports ByteArray
begin

text \<open>
  The typed readers and writers of \<^verbatim>\<open>hiper/base/bytearray.cc\<close> (fixed-width integers in the byte order
  of the array, zigzag and variable-length integers, floating-point bit patterns, strings with a
  length prefix). Every writer is shown to put a known byte sequence at the position and every
  reader to take that sequence off it, through the facts of the interface \<open>byte_store\<close> on the block
  chain; any sequence of fields then reads back as it was written.
\<close>

section \<open>Fixed-width integers\<close>

text \<open>The body shared by the fixed-width writers and readers, for the width of the word.\<close>

definition write_fixed :: "'a::len word \<Rightarrow> bytearray \<Rightarrow> ba_error + bytearray" where
  "write_fixed value ba =
     (let value' = (if ba_endian ba \<noteq> HIPER_BYTE_ORDER then byteswap value else value)
      in ba_write (mem value') ba)"

definition read_fixed :: "bytearray \<Rightarrow> ba_error + 'a::len word \<times> bytearray" where
  "read_fixed ba = bindE (ba_read (LENGTH('a) div 8) ba) (\<lambda>(bs, ba').
     let v = of_mem bs in
     Inr (if ba_endian ba' = HIPER_BYTE_ORDER then v else byteswap v, ba'))"

definition writeFint8 :: "byte \<Rightarrow> bytearray \<Rightarrow> ba_error + bytearray" where
  "writeFint8 value ba = ba_write [value] ba"

definition writeFuint8 :: "byte \<Rightarrow> bytearray \<Rightarrow> ba_error + bytearray" where
  "writeFuint8 value ba = ba_write [value] ba"

definition writeFint16 :: "u16 \<Rightarrow> bytearray \<Rightarrow> ba_error + bytearray" where
  "writeFint16 = write_fixed"

definition writeFuint16 :: "u16 \<Rightarrow> bytearray \<Rightarrow> ba_error + bytearray" where
  "writeFuint16 = write_fixed"

definition writeFint32 :: "u32 \<Rightarrow> bytearray \<Rightarrow> ba_error + bytearray" where
  "writeFint32 = write_fixed"

definition writeFuint32 :: "u32 \<Rightarrow> bytearray \<Rightarrow> ba_error + bytearray" where
  "writeFuint32 = write_fixed"

definition writeFint64 :: "u64 \<Rightarrow> bytearray \<Rightarrow> ba_error + bytearray" where
  "writeFint64 = write_fixed"

definition writeFuint64 :: "u64 \<Rightarrow> bytearray \<Rightarrow> ba_error + bytearray" where
  "writeFuint64 = write_fixed"

definition readFint8 :: "bytearray \<Rightarrow> ba_error + byte \<times> bytearray" where
  "readFint8 ba = bindE (ba_read 1 ba) (\<lambda>(bs, ba'). Inr (of_mem bs, ba'))"

definition readFuint8 :: "bytearray \<Rightarrow> ba_error + byte \<times> bytearray" where
  "readFuint8 ba = bindE (ba_read 1 ba) (\<lambda>(bs, ba'). Inr (of_mem bs, ba'))"

definition readFint16 :: "bytearray \<Rightarrow> ba_error + u16 \<times> bytearray" where
  "readFint16 = read_fixed"

definition readFuint16 :: "bytearray \<Rightarrow> ba_error + u16 \<times> bytearray" where
  "readFuint16 = read_fixed"

definition readFint32 :: "bytearray \<Rightarrow> ba_error + u32 \<times> bytearray" where
  "readFint32 = read_fixed"

definition readFuint32 :: "bytearray \<Rightarrow> ba_error + u32 \<times> bytearray" where
  "readFuint32 = read_fixed"

definition readFint64 :: "bytearray \<Rightarrow> ba_error + u64 \<times> bytearray" where
  "readFint64 = read_fixed"

definition readFuint64 :: "bytearray \<Rightarrow> ba_error + u64 \<times> bytearray" where
  "readFuint64 = read_fixed"

section \<open>Zigzag and variable-length integers\<close>

text \<open>
  Signed values are words read as two's complement. For the least value, \<^verbatim>\<open>-v\<close> overflows; the
  model takes the wrap-around of the machine.
\<close>

definition EncodeZigzag32 :: "u32 \<Rightarrow> u32" where
  "EncodeZigzag32 v = (if sint v < 0 then (- v) * 2 - 1 else v * 2)"

definition EncodeZigzag64 :: "u64 \<Rightarrow> u64" where
  "EncodeZigzag64 v = (if sint v < 0 then (- v) * 2 - 1 else v * 2)"

definition DecodeZigzag32 :: "u32 \<Rightarrow> u32" where
  "DecodeZigzag32 v = drop_bit 1 v XOR - (v AND 1)"

definition DecodeZigzag64 :: "u64 \<Rightarrow> u64" where
  "DecodeZigzag64 v = drop_bit 1 v XOR - (v AND 1)"

text \<open>The loop that fills \<^verbatim>\<open>tmp\<close>: seven bits per byte, the top bit set on all but the last.\<close>

function varint :: "'a::len word \<Rightarrow> byte list" where
  "varint value =
     (if 128 \<le> unat value then ucast ((value AND 0x7F) OR 0x80) # varint (drop_bit 7 value)
      else [ucast value])"
  by pat_completeness auto
termination
  by (relation "measure unat") (simp_all only: in_measure wf_measure unat_drop_bit_eq, simp add: drop_bit_eq_div)

declare varint.simps [simp del]

definition writeUint32 :: "u32 \<Rightarrow> bytearray \<Rightarrow> ba_error + bytearray" where
  "writeUint32 value ba = ba_write (varint value) ba"

definition writeInt32 :: "u32 \<Rightarrow> bytearray \<Rightarrow> ba_error + bytearray" where
  "writeInt32 value ba = writeUint32 (EncodeZigzag32 value) ba"

definition writeUint64 :: "u64 \<Rightarrow> bytearray \<Rightarrow> ba_error + bytearray" where
  "writeUint64 value ba = ba_write (varint value) ba"

definition writeInt64 :: "u64 \<Rightarrow> bytearray \<Rightarrow> ba_error + bytearray" where
  "writeInt64 value ba = writeUint64 (EncodeZigzag64 value) ba"

text \<open>The read loop \<^verbatim>\<open>for (int i = 0; i < 32; i += 7)\<close>, with the bound of the result's width.\<close>

function varint_loop :: "nat \<Rightarrow> 'a::len word \<Rightarrow> bytearray \<Rightarrow> ba_error + 'a word \<times> bytearray" where
  "varint_loop i result ba =
     (if i < LENGTH('a) then
        bindE (readFuint8 ba) (\<lambda>(b, ba').
          if b < 0x80 then Inr (result OR push_bit i (ucast b), ba')
          else varint_loop (i + 7) (result OR push_bit i (ucast (b AND 0x7F))) ba')
      else Inr (result, ba))"
  by pat_completeness auto
termination
  by (relation "measure (\<lambda>(i, (result :: 'a word), ba). LENGTH('a) - i)") auto

declare varint_loop.simps [simp del]

definition readUint32 :: "bytearray \<Rightarrow> ba_error + u32 \<times> bytearray" where
  "readUint32 ba = varint_loop 0 0 ba"

definition readInt32 :: "bytearray \<Rightarrow> ba_error + u32 \<times> bytearray" where
  "readInt32 ba = bindE (readUint32 ba) (\<lambda>(v, ba'). Inr (DecodeZigzag32 v, ba'))"

definition readUint64 :: "bytearray \<Rightarrow> ba_error + u64 \<times> bytearray" where
  "readUint64 ba = varint_loop 0 0 ba"

definition readInt64 :: "bytearray \<Rightarrow> ba_error + u64 \<times> bytearray" where
  "readInt64 ba = bindE (readUint64 ba) (\<lambda>(v, ba'). Inr (DecodeZigzag64 v, ba'))"

section \<open>Floating-point values and strings\<close>

text \<open>A \<^verbatim>\<open>float\<close> or \<^verbatim>\<open>double\<close> is its bit pattern: the code only copies it to and from an integer.\<close>

definition writeFloat :: "u32 \<Rightarrow> bytearray \<Rightarrow> ba_error + bytearray" where
  "writeFloat value ba = writeFuint32 value ba"

definition writeDouble :: "u64 \<Rightarrow> bytearray \<Rightarrow> ba_error + bytearray" where
  "writeDouble value ba = writeFuint64 value ba"

definition readFloat :: "bytearray \<Rightarrow> ba_error + u32 \<times> bytearray" where
  "readFloat ba = bindE (readFuint32 ba) (\<lambda>(v, ba'). Inr (v, ba'))"

definition readDouble :: "bytearray \<Rightarrow> ba_error + u64 \<times> bytearray" where
  "readDouble ba = bindE (readFuint64 ba) (\<lambda>(v, ba'). Inr (v, ba'))"

text \<open>The length passed to the fixed-width writer is converted to its width.\<close>

definition writeStringF16 :: "byte list \<Rightarrow> bytearray \<Rightarrow> ba_error + bytearray" where
  "writeStringF16 value ba = bindE (writeFuint16 (of_nat (length value)) ba) (ba_write value)"

definition writeStringF32 :: "byte list \<Rightarrow> bytearray \<Rightarrow> ba_error + bytearray" where
  "writeStringF32 value ba = bindE (writeFuint32 (of_nat (length value)) ba) (ba_write value)"

definition writeStringF64 :: "byte list \<Rightarrow> bytearray \<Rightarrow> ba_error + bytearray" where
  "writeStringF64 value ba = bindE (writeFuint64 (of_nat (length value)) ba) (ba_write value)"

definition writeStringVint :: "byte list \<Rightarrow> bytearray \<Rightarrow> ba_error + bytearray" where
  "writeStringVint value ba = bindE (writeUint64 (of_nat (length value)) ba) (ba_write value)"

definition writeStringWithoutLength :: "byte list \<Rightarrow> bytearray \<Rightarrow> ba_error + bytearray" where
  "writeStringWithoutLength value ba = ba_write value ba"

definition readStringF16 :: "bytearray \<Rightarrow> ba_error + byte list \<times> bytearray" where
  "readStringF16 ba = bindE (readFuint16 ba) (\<lambda>(len, ba'). ba_read (unat len) ba')"

definition readStringF32 :: "bytearray \<Rightarrow> ba_error + byte list \<times> bytearray" where
  "readStringF32 ba = bindE (readFuint32 ba) (\<lambda>(len, ba'). ba_read (unat len) ba')"

definition readStringF64 :: "bytearray \<Rightarrow> ba_error + byte list \<times> bytearray" where
  "readStringF64 ba = bindE (readFuint64 ba) (\<lambda>(len, ba'). ba_read (unat len) ba')"

definition readStringVint :: "bytearray \<Rightarrow> ba_error + byte list \<times> bytearray" where
  "readStringVint ba = bindE (readUint64 ba) (\<lambda>(len, ba'). ba_read (unat len) ba')"

section \<open>Round trips of the single fields\<close>

lemma bit_push1: "bit (push_bit 1 (v::'a::len word)) m \<longleftrightarrow> 0 < m \<and> m < LENGTH('a) \<and> bit v (m - 1)"
  by (simp only: bit_push_bit_iff possible_bit_word Suc_le_eq One_nat_def conj_commute conj_left_commute)
lemma zigzag_word_pos:
  fixes v p :: "'a::len word"
  assumes n: "n < LENGTH('a)" and False: "\<not> bit v (LENGTH('a) - 1)" 
  and bp: "\<And>m. bit p m \<longleftrightarrow> 0 < m \<and> m < LENGTH('a) \<and> bit v (m - 1)"
  shows "bit (drop_bit 1 p XOR - (p AND 1)) n = bit v n"
proof -
    have zero: "p AND 1 = 0"
      by (rule bit_word_eqI) (auto simp: bit_and_iff bit_1_iff bp)
    have top: "\<not> Suc n < LENGTH('a) \<Longrightarrow> \<not> bit v n"
      using False n by (cases "Suc n = LENGTH('a)") (auto dest: sym)
    show ?thesis unfolding zero using n top by (auto simp: bit_xor_iff bit_drop_bit_eq bp)
qed
lemma zigzag_word_neg:
  fixes v p :: "'a::len word"
  assumes n: "n < LENGTH('a)" and True: "bit v (LENGTH('a) - 1)" 
  and bp: "\<And>m. bit p m \<longleftrightarrow> 0 < m \<and> m < LENGTH('a) \<and> bit v (m - 1)"
  shows "bit (drop_bit 1 (NOT p) XOR - (NOT p AND 1)) n = bit v n"
proof -
    have one: "NOT p AND 1 = 1"
      by (rule bit_word_eqI) (auto simp: bit_and_iff bit_not_iff bit_1_iff bp)
    have top: "\<not> Suc n < LENGTH('a) \<Longrightarrow> bit v n"
      using True n by (cases "Suc n = LENGTH('a)") (auto dest: sym)
    show ?thesis unfolding one using n top by (auto simp: bit_xor_iff bit_not_iff bit_drop_bit_eq bit_minus_1_iff bp)
qed
lemma zigzag_word:
  fixes v :: "'a::len word"
  defines "e \<equiv> (if sint v < 0 then (- v) * 2 - 1 else v * 2)"
  shows "drop_bit 1 e XOR - (e AND 1) = v"
proof (rule bit_word_eqI)
  fix n assume n: "n < LENGTH('a)"
  have neg: "(- v) * 2 - 1 = NOT (push_bit 1 v)" and pos: "v * 2 = push_bit 1 v"
    by (simp_all add: not_eq_complement push_bit_eq_mult)
  have sgn: "sint v < 0 \<longleftrightarrow> bit v (LENGTH('a) - 1)"
    by (simp add: bit_last_iff)
  show "bit (drop_bit 1 e XOR - (e AND 1)) n \<longleftrightarrow> bit v n"
    unfolding e_def neg pos sgn
    using zigzag_word_neg [OF n _ bit_push1] zigzag_word_pos [OF n _ bit_push1] by simp
qed

lemma zigzag32_roundtrip: "DecodeZigzag32 (EncodeZigzag32 v) = v"
  unfolding DecodeZigzag32_def EncodeZigzag32_def by (rule zigzag_word)

lemma zigzag64_roundtrip: "DecodeZigzag64 (EncodeZigzag64 v) = v"
  unfolding DecodeZigzag64_def EncodeZigzag64_def by (rule zigzag_word)

section \<open>The bytes of each field\<close>

definition fixed_bytes :: "endianness \<Rightarrow> 'a::len word \<Rightarrow> byte list" where
  "fixed_bytes e v = mem (if e \<noteq> HIPER_BYTE_ORDER then byteswap v else v)"

lemma length_fixed_bytes: "length (fixed_bytes e (v :: 'a::len word)) = LENGTH('a) div 8"
  by (simp add: fixed_bytes_def)

lemma ba_read_endian: "ba_read n ba = Inr (bs, ba') \<Longrightarrow> ba_endian ba' = ba_endian ba"
  by (auto simp: ba_read_def Let_def bindE_Inr_iff split: if_splits)

lemma mem_byte: "mem (v :: byte) = [v]"
  by (simp add: mem_def)

lemma of_mem_byte: "of_mem [v] = (v :: byte)"
  by (simp add: mem_byte [symmetric] of_mem_mem)

lemma writes_as_fixed: "bstore.writes_as e (write_fixed v) (fixed_bytes e v)"
  by (rule bstore.writes_as_cong [OF bstore.writes_as_wr])
    (simp add: write_fixed_def fixed_bytes_def)

lemma reads_as_fixed:
  fixes v :: "'a::len word"
  assumes "8 dvd LENGTH('a)"
  shows "bstore.reads_as e read_fixed (fixed_bytes e v) v"
proof -
  have ne: "fixed_bytes e v \<noteq> []"
    using assms length_fixed_bytes [of e v] by (auto simp: dvd_div_eq_0_iff)
  let ?g = "\<lambda>bs. if e = HIPER_BYTE_ORDER then of_mem bs else byteswap (of_mem bs :: 'a word)"
  have g: "?g (fixed_bytes e v) = v"
    using assms by (simp add: fixed_bytes_def of_mem_mem byteswap_byteswap)
  have "bstore.reads_as e (\<lambda>s. bindE (ba_read (length (fixed_bytes e v)) s) (\<lambda>(x, s'). Inr (?g x, s')))
      (fixed_bytes e v) (?g (fixed_bytes e v))"
    by (rule bstore.reads_as_map [OF bstore.reads_as_rd [OF ne]])
  then show ?thesis
    unfolding g
    by (rule bstore.reads_as_cong)
      (auto simp: read_fixed_def length_fixed_bytes Let_def dest: ba_read_endian intro!: bindE_cong)
qed

lemma writes_as_byte: "bstore.writes_as e (writeFuint8 v) [v]"
  by (rule bstore.writes_as_cong [OF bstore.writes_as_wr]) (simp add: writeFuint8_def)

lemma reads_as_byte: "bstore.reads_as e readFuint8 [v] v"
  using bstore.reads_as_map [OF bstore.reads_as_rd [of "[v]" e], of "of_mem :: byte list \<Rightarrow> byte"]
  by (simp add: readFuint8_def [abs_def] of_mem_byte)

lemma writes_as_varint: "bstore.writes_as e (ba_write (varint v)) (varint v)"
  by (rule bstore.writes_as_wr)

text \<open>Seven bits at a time: what one turn of the two loops does to the value.\<close>

lemma bit_word_0x7F: "bit (0x7F :: 'a::len word) n \<longleftrightarrow> n < 7 \<and> n < LENGTH('a)"
proof -
  have "(0x7F :: 'a word) = mask 7" by (simp add: mask_eq_exp_minus_1)
  then show ?thesis by (simp only: bit_mask_iff possible_bit_word conj_commute)
qed

lemma bit_word_0x80: "bit (0x80 :: 'a::len word) n \<longleftrightarrow> n = 7 \<and> n < LENGTH('a)"
proof -
  have "(0x80 :: 'a word) = 2 ^ 7" by simp
  then show ?thesis by (simp only: bit_exp_iff possible_bit_word conj_commute)
qed

lemmas varint_bits = bit_word_0x7F bit_word_0x80 bit_and_iff bit_or_iff bit_unsigned_iff

lemma varint_low_byte:
  fixes v :: "'a::len word"
  assumes "8 \<le> LENGTH('a)"
  defines "b \<equiv> ucast ((v AND 0x7F) OR 0x80) :: byte"
  shows "\<not> b < 0x80" and "(ucast (b AND 0x7F) :: 'a word) = v AND 0x7F"
proof -
  have b7: "bit b 7"
    using assms by (simp add: varint_bits)
  show "\<not> b < 0x80"
  proof
    assume "b < 0x80"
    then have "unat b div 2 ^ 7 = 0"
      by (simp add: word_less_nat_alt)
    moreover have "bit (unat b) 7"
      using b7 by (simp add: bit_unsigned_iff)
    ultimately show False by (simp add: bit_iff_odd)
  qed
  show "(ucast (b AND 0x7F) :: 'a word) = v AND 0x7F"
    unfolding b_def varint_bits using assms(1) by (intro bit_word_eqI) (simp only: varint_bits, auto)
qed

lemma varint_join:
  fixes v :: "'a::len word"
  shows "push_bit i (v AND 0x7F) OR push_bit (i + 7) (drop_bit 7 v) = push_bit i v"
proof (rule bit_word_eqI)
  fix n assume n: "n < LENGTH('a)"
  have "\<not> n - i < 7 \<Longrightarrow> 7 + (n - (i + 7)) = n - i" by simp
  then show "bit (push_bit i (v AND 0x7F) OR push_bit (i + 7) (drop_bit 7 v)) n \<longleftrightarrow> bit (push_bit i v) n"
    unfolding varint_bits bit_push_bit_iff possible_bit_word bit_drop_bit_eq
    using n by (cases "n - i < 7") auto
qed

lemma unat_drop_bit_7: "unat (drop_bit 7 (v :: 'a::len word)) = unat v div 128"
proof -
  have "unat (drop_bit 7 v) = drop_bit 7 (unat v)" by (rule unat_drop_bit_eq)
  then show ?thesis by (simp only: drop_bit_eq_div) simp
qed

lemma ucast_small:
  fixes v :: "'a::len word"
  assumes "unat v < 128" and "8 \<le> LENGTH('a)"
  shows "(ucast (ucast v :: byte) :: 'a word) = v" and "(ucast v :: byte) < 0x80"
proof -
  have uc: "unat (ucast w :: 'c::len word) = unat w" if "unat w < 128" "8 \<le> LENGTH('c)" for w :: "'b::len word"
  proof -
    have "(2::nat) ^ 8 \<le> 2 ^ LENGTH('c)" using that by (intro power_increasing) simp_all
    then have "unat w < 2 ^ LENGTH('c)" using that by simp
    then show ?thesis by (simp add: unsigned_ucast_eq take_bit_nat_eq_self)
  qed
  have u: "unat (ucast v :: byte) = unat v"
    using assms by (simp add: uc)
  then show "(ucast v :: byte) < 0x80"
    using assms by (simp add: word_less_nat_alt)
  have "unat (ucast (ucast v :: byte) :: 'a word) = unat v"
    using u assms by (simp add: uc)
  then show "(ucast (ucast v :: byte) :: 'a word) = v" by (simp only: word_unat_eq_iff)
qed

lemma reads_as_varint_loop:
  fixes v :: "'a::len word"
  assumes "8 \<le> LENGTH('a)" and "unat v < 2 ^ (LENGTH('a) - i)" and "i < LENGTH('a)"
  shows "bstore.reads_as e (varint_loop i r) (varint v) (r OR push_bit i v)"
  using assms(2,3)
proof (induction v arbitrary: i r rule: varint.induct)
  case (1 v)
  let ?f = "\<lambda>(b :: byte) ba. if b < 0x80 then Inr (r OR push_bit i (ucast b), ba)
     else varint_loop (i + 7) (r OR push_bit i (ucast (b AND 0x7F))) ba"
  have unroll: "varint_loop i r ba = bindE (readFuint8 ba) (\<lambda>(b, ba'). ?f b ba')" for ba
    using 1(3) by (subst varint_loop.simps) simp
  show ?case
  proof (cases "128 \<le> unat v")
    case True
    let ?b = "ucast ((v AND 0x7F) OR 0x80) :: byte"
    have "(2::nat) ^ 7 < 2 ^ (LENGTH('a) - i)" using True 1(2) by simp
    then have i: "i + 7 < LENGTH('a)" by (simp only: power_strict_increasing_iff)
    have "unat v < 2 ^ 7 * 2 ^ (LENGTH('a) - (i + 7))"
      using 1(2) i by (simp only: power_add [symmetric]) (simp add: algebra_simps)
    then have d: "unat (drop_bit 7 v) < 2 ^ (LENGTH('a) - (i + 7))"
      by (simp add: unat_drop_bit_7 less_mult_imp_div_less mult.commute)
    from 1(1) [OF True d i]
    have "bstore.reads_as e (?f ?b) (varint (drop_bit 7 v))
        ((r OR push_bit i (v AND 0x7F)) OR push_bit (i + 7) (drop_bit 7 v))"
      using varint_low_byte [OF assms(1), of v] by simp
    from bstore.reads_as_bind [where f = ?f, OF reads_as_byte this]
    show ?thesis
      using True varint_join [of i v]
      by (subst varint.simps) (simp add: unroll [abs_def] or.assoc)
  next
    case False
    then have lt: "unat v < 128" by simp
    have "?f (ucast v) = (\<lambda>ba. Inr (r OR push_bit i v, ba))"
      by (simp only: ucast_small [OF lt assms(1)] if_True)
    then have "bstore.reads_as e (?f (ucast v)) [] (r OR push_bit i v)"
      by (simp only: bstore.reads_as_return)
    from bstore.reads_as_bind [where f = ?f, OF reads_as_byte this]
    show ?thesis
      using False by (subst varint.simps) (simp add: unroll [abs_def])
  qed
qed

lemma reads_as_varint:
  fixes v :: "'a::len word"
  assumes "8 \<le> LENGTH('a)"
  shows "bstore.reads_as e (varint_loop 0 0) (varint v) v"
  using reads_as_varint_loop [OF assms, of v 0 e 0] assms by simp

lemma length_varint:
  fixes v :: "'a::len word"
  shows "unat v < 2 ^ (7 * Suc k) \<Longrightarrow> length (varint v) \<le> Suc k"
proof (induction v arbitrary: k rule: varint.induct)
  case (1 v)
  show ?case
  proof (cases "128 \<le> unat v")
    case True
    then obtain k' where k: "k = Suc k'" using 1(2) by (cases k) auto
    have "unat (drop_bit 7 v) < 2 ^ (7 * Suc k')"
      using 1(2) unfolding unat_drop_bit_7
      by (intro less_mult_imp_div_less) (simp add: k power_add)
    from 1(1) [OF True this] True k show ?thesis by (subst varint.simps) simp
  next
    case False
    then show ?thesis by (subst varint.simps) simp
  qed
qed

section \<open>Sequences of fields\<close>

text \<open>One constructor per typed writer, and one kind per typed reader.\<close>

datatype field =
    Fint8 byte
  | Fuint8 byte
  | Fint16 u16
  | Fuint16 u16
  | Fint32 u32
  | Fuint32 u32
  | Fint64 u64
  | Fuint64 u64
  | Int32 u32
  | Uint32 u32
  | Int64 u64
  | Uint64 u64
  | Float u32
  | Double u64
  | StringF16 "byte list"
  | StringF32 "byte list"
  | StringF64 "byte list"
  | StringVint "byte list"

datatype field_kind =
    K_Fint8 | K_Fuint8 | K_Fint16 | K_Fuint16 | K_Fint32 | K_Fuint32 | K_Fint64 | K_Fuint64 | K_Int32
  | K_Uint32 | K_Int64 | K_Uint64 | K_Float | K_Double | K_StringF16 | K_StringF32 | K_StringF64 | K_StringVint

fun kind_of :: "field \<Rightarrow> field_kind" where
  "kind_of (Fint8 v) = K_Fint8"
| "kind_of (Fuint8 v) = K_Fuint8"
| "kind_of (Fint16 v) = K_Fint16"
| "kind_of (Fuint16 v) = K_Fuint16"
| "kind_of (Fint32 v) = K_Fint32"
| "kind_of (Fuint32 v) = K_Fuint32"
| "kind_of (Fint64 v) = K_Fint64"
| "kind_of (Fuint64 v) = K_Fuint64"
| "kind_of (Int32 v) = K_Int32"
| "kind_of (Uint32 v) = K_Uint32"
| "kind_of (Int64 v) = K_Int64"
| "kind_of (Uint64 v) = K_Uint64"
| "kind_of (Float v) = K_Float"
| "kind_of (Double v) = K_Double"
| "kind_of (StringF16 v) = K_StringF16"
| "kind_of (StringF32 v) = K_StringF32"
| "kind_of (StringF64 v) = K_StringF64"
| "kind_of (StringVint v) = K_StringVint"

fun write_field :: "field \<Rightarrow> bytearray \<Rightarrow> ba_error + bytearray" where
  "write_field (Fint8 v) = writeFint8 v"
| "write_field (Fuint8 v) = writeFuint8 v"
| "write_field (Fint16 v) = writeFint16 v"
| "write_field (Fuint16 v) = writeFuint16 v"
| "write_field (Fint32 v) = writeFint32 v"
| "write_field (Fuint32 v) = writeFuint32 v"
| "write_field (Fint64 v) = writeFint64 v"
| "write_field (Fuint64 v) = writeFuint64 v"
| "write_field (Int32 v) = writeInt32 v"
| "write_field (Uint32 v) = writeUint32 v"
| "write_field (Int64 v) = writeInt64 v"
| "write_field (Uint64 v) = writeUint64 v"
| "write_field (Float v) = writeFloat v"
| "write_field (Double v) = writeDouble v"
| "write_field (StringF16 v) = writeStringF16 v"
| "write_field (StringF32 v) = writeStringF32 v"
| "write_field (StringF64 v) = writeStringF64 v"
| "write_field (StringVint v) = writeStringVint v"

definition tagged :: "('v \<Rightarrow> field) \<Rightarrow> (bytearray \<Rightarrow> ba_error + 'v \<times> bytearray)
    \<Rightarrow> bytearray \<Rightarrow> ba_error + field \<times> bytearray" where
  "tagged c r ba = bindE (r ba) (\<lambda>(v, ba'). Inr (c v, ba'))"

fun read_field :: "field_kind \<Rightarrow> bytearray \<Rightarrow> ba_error + field \<times> bytearray" where
  "read_field K_Fint8 = tagged Fint8 readFint8"
| "read_field K_Fuint8 = tagged Fuint8 readFuint8"
| "read_field K_Fint16 = tagged Fint16 readFint16"
| "read_field K_Fuint16 = tagged Fuint16 readFuint16"
| "read_field K_Fint32 = tagged Fint32 readFint32"
| "read_field K_Fuint32 = tagged Fuint32 readFuint32"
| "read_field K_Fint64 = tagged Fint64 readFint64"
| "read_field K_Fuint64 = tagged Fuint64 readFuint64"
| "read_field K_Int32 = tagged Int32 readInt32"
| "read_field K_Uint32 = tagged Uint32 readUint32"
| "read_field K_Int64 = tagged Int64 readInt64"
| "read_field K_Uint64 = tagged Uint64 readUint64"
| "read_field K_Float = tagged Float readFloat"
| "read_field K_Double = tagged Double readDouble"
| "read_field K_StringF16 = tagged StringF16 readStringF16"
| "read_field K_StringF32 = tagged StringF32 readStringF32"
| "read_field K_StringF64 = tagged StringF64 readStringF64"
| "read_field K_StringVint = tagged StringVint readStringVint"

fun write_fields :: "field list \<Rightarrow> bytearray \<Rightarrow> ba_error + bytearray" where
  "write_fields [] ba = Inr ba"
| "write_fields (f # fs) ba = bindE (write_field f ba) (write_fields fs)"

fun read_fields :: "field_kind list \<Rightarrow> bytearray \<Rightarrow> ba_error + field list \<times> bytearray" where
  "read_fields [] ba = Inr ([], ba)"
| "read_fields (k # ks) ba = bindE (read_field k ba) (\<lambda>(f, ba').
     bindE (read_fields ks ba') (\<lambda>(fs, ba''). Inr (f # fs, ba'')))"

text \<open>
  The fields that survive a round trip: a string must fit the width of its length prefix and must
  not be empty (see \<open>ba_read_zero\<close> below).
\<close>

fun field_ok :: "field \<Rightarrow> bool" where
  "field_ok (StringF16 s) \<longleftrightarrow> s \<noteq> [] \<and> length s < 2 ^ 16"
| "field_ok (StringF32 s) \<longleftrightarrow> s \<noteq> [] \<and> length s < 2 ^ 32"
| "field_ok (StringF64 s) \<longleftrightarrow> s \<noteq> [] \<and> length s < 2 ^ 64"
| "field_ok (StringVint s) \<longleftrightarrow> s \<noteq> [] \<and> length s < 2 ^ 64"
| "field_ok _ \<longleftrightarrow> True"

fun field_bytes :: "endianness \<Rightarrow> field \<Rightarrow> byte list" where
  "field_bytes e (Fint8 v) = [v]"
| "field_bytes e (Fuint8 v) = [v]"
| "field_bytes e (Fint16 v) = fixed_bytes e v"
| "field_bytes e (Fuint16 v) = fixed_bytes e v"
| "field_bytes e (Fint32 v) = fixed_bytes e v"
| "field_bytes e (Fuint32 v) = fixed_bytes e v"
| "field_bytes e (Fint64 v) = fixed_bytes e v"
| "field_bytes e (Fuint64 v) = fixed_bytes e v"
| "field_bytes e (Int32 v) = varint (EncodeZigzag32 v)"
| "field_bytes e (Uint32 v) = varint v"
| "field_bytes e (Int64 v) = varint (EncodeZigzag64 v)"
| "field_bytes e (Uint64 v) = varint v"
| "field_bytes e (Float v) = fixed_bytes e v"
| "field_bytes e (Double v) = fixed_bytes e v"
| "field_bytes e (StringF16 v) = fixed_bytes e (of_nat (length v) :: u16) @ v"
| "field_bytes e (StringF32 v) = fixed_bytes e (of_nat (length v) :: u32) @ v"
| "field_bytes e (StringF64 v) = fixed_bytes e (of_nat (length v) :: u64) @ v"
| "field_bytes e (StringVint v) = varint (of_nat (length v) :: u64) @ v"

lemmas field_writer_defs =
  writeFint8_def writeFuint8_def writeFint16_def writeFuint16_def writeFint32_def writeFuint32_def
  writeFint64_def writeFuint64_def writeUint32_def writeInt32_def writeUint64_def writeInt64_def
  writeFloat_def writeDouble_def writeStringF16_def writeStringF32_def writeStringF64_def
  writeStringVint_def

lemmas fixed_reader_defs =
  readFint16_def readFuint16_def readFint32_def readFuint32_def readFint64_def readFuint64_def

text \<open>A string is written as its length prefix and its bytes, and read back the same way.\<close>

lemma writes_as_prefixed:
  assumes "\<And>ba. w ba = bindE (wp ba) (ba_write s)" and "bstore.writes_as e wp bs"
  shows "bstore.writes_as e w (bs @ s)"
  using bstore.writes_as_bind [OF assms(2) bstore.writes_as_wr] by (simp add: assms(1) [abs_def])

lemma reads_as_prefixed:
  fixes len :: "'a::len word"
  assumes "\<And>ba. r ba = bindE (rp ba) (\<lambda>(len, ba'). ba_read (unat (len :: 'a word)) ba')"
    and "bstore.reads_as e rp bs (of_nat (length s))" and "s \<noteq> []" and "length s < 2 ^ LENGTH('a)"
  shows "bstore.reads_as e r (bs @ s) s"
proof -
  have "unat (of_nat (length s) :: 'a word) = length s"
    using assms(4) by (simp add: unsigned_of_nat take_bit_nat_eq_self)
  then have "bstore.reads_as e (ba_read (unat (of_nat (length s) :: 'a word))) s s"
    using bstore.reads_as_rd [OF assms(3), of e] by simp
  from bstore.reads_as_bind [where f = "\<lambda>len. ba_read (unat len)", OF assms(2) this] show ?thesis
    by (simp add: assms(1) [abs_def])
qed

lemma writes_as_field: "bstore.writes_as e (write_field f) (field_bytes e f)"
  by (cases f)
    (simp_all add: field_writer_defs [abs_def] bstore.writes_as_wr writes_as_fixed writes_as_varint
      writes_as_prefixed [OF refl writes_as_fixed] writes_as_prefixed [OF refl writes_as_varint])

lemma reads_as_tagged:
  "bstore.reads_as e r bs v \<Longrightarrow> bstore.reads_as e (tagged c r) bs (c v)"
  using bstore.reads_as_map [of e r bs v c] by (simp add: tagged_def [abs_def])

lemma reads_as_string:
  assumes "s \<noteq> []"
  shows "length s < 2 ^ 16 \<Longrightarrow> bstore.reads_as e readStringF16 (fixed_bytes e (of_nat (length s) :: u16) @ s) s"
    and "length s < 2 ^ 32 \<Longrightarrow> bstore.reads_as e readStringF32 (fixed_bytes e (of_nat (length s) :: u32) @ s) s"
    and "length s < 2 ^ 64 \<Longrightarrow> bstore.reads_as e readStringF64 (fixed_bytes e (of_nat (length s) :: u64) @ s) s"
    and "length s < 2 ^ 64 \<Longrightarrow> bstore.reads_as e readStringVint (varint (of_nat (length s) :: u64) @ s) s"
proof -
  show "bstore.reads_as e readStringF16 (fixed_bytes e (of_nat (length s) :: u16) @ s) s" if "length s < 2 ^ 16"
    by (rule reads_as_prefixed [OF readStringF16_def])
      (use that assms in \<open>simp_all add: fixed_reader_defs reads_as_fixed\<close>)
  show "bstore.reads_as e readStringF32 (fixed_bytes e (of_nat (length s) :: u32) @ s) s" if "length s < 2 ^ 32"
    by (rule reads_as_prefixed [OF readStringF32_def])
      (use that assms in \<open>simp_all add: fixed_reader_defs reads_as_fixed\<close>)
  show "bstore.reads_as e readStringF64 (fixed_bytes e (of_nat (length s) :: u64) @ s) s" if "length s < 2 ^ 64"
    by (rule reads_as_prefixed [OF readStringF64_def])
      (use that assms in \<open>simp_all add: fixed_reader_defs reads_as_fixed\<close>)
  show "bstore.reads_as e readStringVint (varint (of_nat (length s) :: u64) @ s) s" if "length s < 2 ^ 64"
    by (rule reads_as_prefixed [OF readStringVint_def])
      (use that assms in \<open>simp_all add: readUint64_def [abs_def] reads_as_varint\<close>)
qed

lemma reads_as_zigzag:
  "bstore.reads_as e readInt32 (varint (EncodeZigzag32 v)) v"
  "bstore.reads_as e readInt64 (varint (EncodeZigzag64 w)) w"
proof -
  show "bstore.reads_as e readInt32 (varint (EncodeZigzag32 v)) v"
    using bstore.reads_as_map [where g = DecodeZigzag32, OF reads_as_varint [where e = e and v = "EncodeZigzag32 v"]]
    by (simp add: readInt32_def [abs_def] readUint32_def zigzag32_roundtrip)
  show "bstore.reads_as e readInt64 (varint (EncodeZigzag64 w)) w"
    using bstore.reads_as_map [where g = DecodeZigzag64, OF reads_as_varint [where e = e and v = "EncodeZigzag64 w"]]
    by (simp add: readInt64_def [abs_def] readUint64_def zigzag64_roundtrip)
qed

lemma reads_as_scalars:
  "bstore.reads_as e readFint8 [b] b"
  "bstore.reads_as e readFloat (fixed_bytes e v) v"
  "bstore.reads_as e readDouble (fixed_bytes e w) w"
  "bstore.reads_as e readUint32 (varint v) v"
  "bstore.reads_as e readUint64 (varint w) w"
  using reads_as_byte [of e b] reads_as_varint [where e = e and v = v] reads_as_varint [where e = e and v = w]
    bstore.reads_as_map [where g = id, OF reads_as_fixed [where e = e and v = v]]
    bstore.reads_as_map [where g = id, OF reads_as_fixed [where e = e and v = w]]
  by (simp_all add: readFuint8_def [abs_def] readFint8_def [abs_def] readFloat_def [abs_def]
      readDouble_def [abs_def] readUint32_def [abs_def] readUint64_def [abs_def] fixed_reader_defs)

lemma reads_as_field:
  "field_ok f \<Longrightarrow> bstore.reads_as e (read_field (kind_of f)) (field_bytes e f) f"
  by (cases f)
    (simp_all add: reads_as_tagged reads_as_scalars reads_as_byte reads_as_zigzag reads_as_string
      fixed_reader_defs reads_as_fixed)

lemma writes_as_fields:
  "bstore.writes_as e (write_fields fs) (concat (map (field_bytes e) fs))"
proof (induction fs)
  case Nil
  then show ?case by (simp add: bstore.writes_as_return)
next
  case (Cons f fs)
  from bstore.writes_as_bind [OF writes_as_field Cons] show ?case by simp
qed

lemma reads_as_fields:
  "list_all field_ok fs \<Longrightarrow>
   bstore.reads_as e (read_fields (map kind_of fs)) (concat (map (field_bytes e) fs)) fs"
proof (induction fs)
  case Nil
  then show ?case by (simp add: bstore.reads_as_return)
next
  case (Cons f fs)
  then have "bstore.reads_as e (\<lambda>ba. bindE (read_fields (map kind_of fs) ba) (\<lambda>(fs, ba'). Inr (f # fs, ba')))
      (concat (map (field_bytes e) fs)) (f # fs)"
    by (intro bstore.reads_as_map) simp
  from bstore.reads_as_bind [where f = "\<lambda>f ba. bindE (read_fields (map kind_of fs) ba) (\<lambda>(fs, ba'). Inr (f # fs, ba'))",
      OF reads_as_field this] Cons.prems
  show ?case by simp
qed

section \<open>Properties\<close>

lemma ba_wf_cursor_null: "ba_wf ba \<Longrightarrow> ba_cur ba = None \<longleftrightarrow> ba_pos ba = ba_cap ba"
proof -
  assume wf: "ba_wf ba"
  then have B: "0 < ba_base ba" and cap: "ba_cap ba = length (ba_nodes ba) * ba_base ba"
    and le: "ba_pos ba \<le> ba_cap ba" and cur: "ba_cur ba = cursor_at (ba_base ba) (length (ba_nodes ba)) (ba_pos ba)"
    by (simp_all add: ba_wf_def)
  have "ba_pos ba div ba_base ba < length (ba_nodes ba) \<longleftrightarrow> ba_pos ba < ba_cap ba"
    unfolding cap using B by (simp add: div_less_iff_less_mult)
  then show ?thesis using cur le by (auto simp: cursor_at_def)
qed

text \<open>
  Property C3. For every well-formed byte array and every list of typed fields (integers of all widths and
  signs, in either byte order, variable-length integers, floats, and strings that are not empty and shorter than
  their length prefix can say): writing them one after the other succeeds, growing the chain where needed; after
  setting the position back, the matching readers return exactly those fields and leave the
  position where the writers left it. The restriction \<open>field_ok\<close> is needed: an empty string whose prefix ends at the capacity is read through
  a null pointer (\<open>ba_read_zero\<close>), and \<^verbatim>\<open>writeStringF16\<close> cuts the length of a longer text to 16 bits.
\<close>

theorem bytearray_fields_roundtrip:
  assumes "ba_wf ba" and "list_all field_ok fs"
  shows "\<exists>ba1 ba2 ba3. write_fields fs ba = Inr ba1 \<and> setPosition (ba_pos ba) ba1 = Inr ba2
     \<and> read_fields (map kind_of fs) ba2 = Inr (fs, ba3)
     \<and> ba_wf ba3 \<and> ba_content ba3 = ba_content ba1 \<and> ba_pos ba3 = ba_pos ba1"
  by (rule bstore.write_seek_read [OF assms(1) writes_as_fields reads_as_fields [OF assms(2)]])

theorem bytearray_fields_roundtrip_witness:
  "\<exists>ba1 ba2 ba3.
     write_fields [Fint16 7, Int64 (- 3), Uint32 300, StringF16 [1, 2, 3], Double 9] (new_bytearray 4) = Inr ba1
     \<and> setPosition (ba_pos (new_bytearray 4)) ba1 = Inr ba2
     \<and> read_fields (map kind_of [Fint16 7, Int64 (- 3), Uint32 300, StringF16 [1, 2, 3], Double 9]) ba2
         = Inr ([Fint16 7, Int64 (- 3), Uint32 300, StringF16 [1, 2, 3], Double 9], ba3)
     \<and> ba_wf ba3 \<and> ba_content ba3 = ba_content ba1 \<and> ba_pos ba3 = ba_pos ba1"
  by (rule bytearray_fields_roundtrip) (simp_all add: ba_wf_new)

text \<open>
  A \<^verbatim>\<open>read\<close> of zero bytes changes nothing, unless the position stands at the end of
  the capacity: then the cursor is the null pointer and \<^verbatim>\<open>read\<close> dereferences it (so an empty
  string whose length prefix ends at the capacity cannot be read back).
\<close>

theorem ba_read_zero:
  assumes "ba_wf ba"
  shows "ba_read 0 ba = (if ba_pos ba < ba_cap ba then Inr ([], ba) else Inl Bad_access)"
proof (cases "ba_pos ba < ba_cap ba")
  case True
  from ba_wf_pos_div [OF assms this] True show ?thesis
    by (simp add: ba_read_def Let_def read_loop.simps)
next
  case False
  moreover have "ba_pos ba \<le> ba_cap ba" using assms by (simp add: ba_wf_def)
  ultimately have "ba_cur ba = None" using ba_wf_cursor_null [OF assms] by simp
  with False show ?thesis by (simp add: ba_read_def)
qed

theorem ba_read_zero_witness:
  "ba_wf (new_bytearray 4) \<and> ba_read 0 (new_bytearray 4) = Inr ([], new_bytearray 4)"
  using ba_read_zero [OF ba_wf_new, of 4] by (simp add: ba_wf_new) (simp add: new_bytearray_def)

text \<open>
  Property C38. The variable-length encoding never overruns the writers' buffers: at most five bytes for
  32-bit values, at most ten for 64-bit values (\<^verbatim>\<open>uint8_t tmp[5]\<close> and \<^verbatim>\<open>uint8_t tmp[10]\<close>).
\<close>

theorem varint_buffer_bound:
  "length (varint (v :: u32)) \<le> 5 \<and> length (varint (w :: u64)) \<le> 10"
proof
  have "unat v < 2 ^ 32" using unsigned_less [of v] by simp
  then show "length (varint v) \<le> 5"
    using length_varint [of v 4] by simp
  have "unat w < 2 ^ 64" using unsigned_less [of w] by simp
  then show "length (varint w) \<le> 10"
    using length_varint [of w 9] by simp
qed

end
