(* ===== verification/FileUtil.thy ===== *)
theory FileUtil
  imports Text
begin

text \<open>
  \<^verbatim>\<open>FSUtil\<close> of \<^verbatim>\<open>base/util.cc\<close> over the calls of the operating system, which are a parameter: listing a tree, making a path,
  removing, moving and linking, pid files, and opening a stream for writing. The recursive functions are
  \<open>partial_function\<close>s, shown to end on every finite tree; the rules of the calls are those of POSIX on a tree
  of files that is walked by absolute paths of plain names, with refusals of any call on any path. What a removal leaves and what
  making a path adds is given exactly, and a file system in memory keeps the rules.
\<close>

section \<open>The calls of the operating system\<close>

text \<open>
  \<open>'w\<close> is the state of the file system. \<open>c_listing\<close> is \<^verbatim>\<open>opendir\<close> with the entries that the calls of \<^verbatim>\<open>readdir\<close> then
  give, in their order (\<open>None\<close>: the directory cannot be opened); \<open>c_lstat\<close> gives the mode; the others say whether the call
  returned 0. \<open>c_first_line\<close> is \<^verbatim>\<open>getline\<close> on a stream opened for the file; \<open>c_append\<close> whether an output stream can
  be opened for appending.
\<close>

datatype d_type = DT_DIR | DT_REG | DT_OTHER

record 'w fs_calls =
  c_access :: "string \<Rightarrow> 'w \<Rightarrow> bool"
  c_lstat :: "string \<Rightarrow> 'w \<Rightarrow> u32 option"
  c_listing :: "string \<Rightarrow> 'w \<Rightarrow> (d_type \<times> string) list option"
  c_mkdir :: "string \<Rightarrow> 'w \<Rightarrow> bool \<times> 'w"
  c_unlink :: "string \<Rightarrow> 'w \<Rightarrow> bool \<times> 'w"
  c_rmdir :: "string \<Rightarrow> 'w \<Rightarrow> bool \<times> 'w"
  c_rename :: "string \<Rightarrow> string \<Rightarrow> 'w \<Rightarrow> bool \<times> 'w"
  c_symlink :: "string \<Rightarrow> string \<Rightarrow> 'w \<Rightarrow> bool \<times> 'w"
  c_realpath :: "string \<Rightarrow> 'w \<Rightarrow> string option"
  c_kill0 :: "int \<Rightarrow> 'w \<Rightarrow> bool"
  c_first_line :: "string \<Rightarrow> 'w \<Rightarrow> string option"
  c_append :: "string \<Rightarrow> 'w \<Rightarrow> bool \<times> 'w"

definition S_IFDIR :: u32 where "S_IFDIR = 0x4000"

definition slash :: char where "slash = CHR ''/''"

definition child :: "string \<Rightarrow> string \<Rightarrow> string" where "child path name = path @ slash # name"

definition dots :: "string \<Rightarrow> bool" where "dots name \<longleftrightarrow> name = ''.'' \<or> name = ''..''"

section \<open>Listing a tree\<close>

definition has_subfix :: "string \<Rightarrow> string \<Rightarrow> bool" where
  "has_subfix subfix filename \<longleftrightarrow>
     subfix = [] \<or> \<not> length filename < length subfix \<and> drop (length filename - length subfix) filename = subfix"

text \<open>
  The calls of \<^verbatim>\<open>ListAllFile\<close>: a job is a call for a path or what is left of its loop over the entries. A tree that has no
  end (\<^verbatim>\<open>readdir\<close> never says so) would be \<open>None\<close>.
\<close>

partial_function (option) list_run ::
  "'w fs_calls \<Rightarrow> 'w \<Rightarrow> string \<Rightarrow> string + string \<times> (d_type \<times> string) list \<Rightarrow> string list \<Rightarrow> string list option" where
  "list_run c w subfix job files = (case job of
     Inl path \<Rightarrow>
       if \<not> c_access c path w then Some files
       else (case c_listing c path w of
         None \<Rightarrow> Some files
       | Some entries \<Rightarrow> list_run c w subfix (Inr (path, entries)) files)
   | Inr (path, entries) \<Rightarrow> (case entries of
         [] \<Rightarrow> Some files
       | (ty, name) # rest \<Rightarrow>
           if ty = DT_DIR then
             if dots name then list_run c w subfix (Inr (path, rest)) files
             else Option.bind (list_run c w subfix (Inl (child path name)) files)
               (\<lambda>files1. list_run c w subfix (Inr (path, rest)) files1)
           else if ty = DT_REG \<and> has_subfix subfix name
           then list_run c w subfix (Inr (path, rest)) (files @ [child path name])
           else list_run c w subfix (Inr (path, rest)) files))"

definition ListAllFile :: "'w fs_calls \<Rightarrow> string list \<Rightarrow> string \<Rightarrow> string \<Rightarrow> 'w \<Rightarrow> string list option" where
  "ListAllFile c files path subfix w = list_run c w subfix (Inl path) files"

section \<open>Making directories\<close>

definition mkdir1 :: "'w fs_calls \<Rightarrow> string \<Rightarrow> 'w \<Rightarrow> bool \<times> 'w" where
  "mkdir1 c dirname w = (if c_access c dirname w then (True, w) else c_mkdir c dirname w)"

text \<open>\<^verbatim>\<open>strchr(path + k, '/')\<close> as an index into the path.\<close>

definition next_slash :: "string \<Rightarrow> nat \<Rightarrow> nat option" where
  "next_slash path k = map_option (\<lambda>i. k + i) (first_idx (\<lambda>c. c = slash) (drop k path))"

lemma next_slash_bounds: "next_slash path k = Some j \<Longrightarrow> k \<le> j \<and> j < length path"
proof -
  assume "next_slash path k = Some j"
  then obtain a b where a: "j = k + length a" "drop k path = a @ slash # b" by (auto simp: next_slash_def first_idx_Some)
  then have "length path - k = length a + 1 + length b" by (metis length_drop length_append length_Cons add_Suc_right add.right_neutral Suc_eq_plus1 add_Suc)
  then show ?thesis using a(1) by simp
qed

function mkdir_loop :: "'w fs_calls \<Rightarrow> string \<Rightarrow> nat option \<Rightarrow> 'w \<Rightarrow> bool \<times> 'w" where
  "mkdir_loop c path ptr w = (case ptr of
     None \<Rightarrow> (True, w)
   | Some k \<Rightarrow> (case mkdir1 c (take k path) w of
       (ok, w1) \<Rightarrow> if \<not> ok then (False, w1) else mkdir_loop c path (next_slash path (k + 1)) w1))"
  by pat_completeness auto
termination
proof (relation "measure (\<lambda>(c, path, ptr, w). case ptr of None \<Rightarrow> 0 | Some k \<Rightarrow> Suc (length path - k))", goal_cases)
  case (2 c path ptr w k)
  then show ?case by (cases "next_slash path (k + 1)") (auto dest!: next_slash_bounds)
qed auto

declare mkdir_loop.simps [simp del]

text \<open>
  \<^verbatim>\<open>Mkdir\<close>. For an empty name the search for a slash starts behind the terminator of the copy: the error \<open>Past_end\<close>.
\<close>

datatype fs_error = Past_end

definition Mkdir :: "'w fs_calls \<Rightarrow> string \<Rightarrow> 'w \<Rightarrow> fs_error + bool \<times> 'w" where
  "Mkdir c dirname w =
     (if c_lstat c dirname w \<noteq> None then Inr (True, w)
      else if dirname = [] then Inl Past_end
      else (case mkdir_loop c dirname (next_slash dirname 1) w of
        (ok, w1) \<Rightarrow> if \<not> ok then Inr (False, w1)
          else (case mkdir1 c dirname w1 of (ok, w2) \<Rightarrow> Inr (ok, w2))))"

section \<open>Removing\<close>

definition Unlink :: "'w fs_calls \<Rightarrow> string \<Rightarrow> bool \<Rightarrow> 'w \<Rightarrow> bool \<times> 'w" where
  "Unlink c filename exist w = (if \<not> exist \<and> c_lstat c filename w = None then (True, w) else c_unlink c filename w)"

text \<open>The calls of \<^verbatim>\<open>Rm\<close>: for a path, or what is left of its loop over the entries with the flag \<^verbatim>\<open>ret\<close>.\<close>

partial_function (option) rm_run ::
  "'w fs_calls \<Rightarrow> string + string \<times> (d_type \<times> string) list \<times> bool \<Rightarrow> 'w \<Rightarrow> (bool \<times> 'w) option" where
  "rm_run c job w = (case job of
     Inl path \<Rightarrow> (case c_lstat c path w of
         None \<Rightarrow> Some (True, w)
       | Some mode \<Rightarrow>
           if mode AND S_IFDIR = 0 then Some (Unlink c path False w)
           else (case c_listing c path w of
             None \<Rightarrow> Some (False, w)
           | Some entries \<Rightarrow> rm_run c (Inr (path, entries, True)) w))
   | Inr (path, entries, ret) \<Rightarrow> (case entries of
         [] \<Rightarrow> (case c_rmdir c path w of (ok, w1) \<Rightarrow> Some (ret \<and> ok, w1))
       | (ty, name) # rest \<Rightarrow>
           if dots name then rm_run c (Inr (path, rest, ret)) w
           else Option.bind (rm_run c (Inl (child path name)) w)
             (\<lambda>(ret1, w1). rm_run c (Inr (path, rest, ret1)) w1)))"

definition Rm :: "'w fs_calls \<Rightarrow> string \<Rightarrow> 'w \<Rightarrow> (bool \<times> 'w) option" where
  "Rm c path w = rm_run c (Inl path) w"

definition Mv :: "'w fs_calls \<Rightarrow> string \<Rightarrow> string \<Rightarrow> 'w \<Rightarrow> (bool \<times> 'w) option" where
  "Mv c from_path to_path w = (case Rm c to_path w of
     None \<Rightarrow> None
   | Some (ok, w1) \<Rightarrow> if \<not> ok then Some (False, w1) else Some (c_rename c from_path to_path w1))"

definition Symlink :: "'w fs_calls \<Rightarrow> string \<Rightarrow> string \<Rightarrow> 'w \<Rightarrow> (bool \<times> 'w) option" where
  "Symlink c from_path to_path w = (case Rm c to_path w of
     None \<Rightarrow> None
   | Some (ok, w1) \<Rightarrow> if \<not> ok then Some (False, w1) else Some (c_symlink c from_path to_path w1))"

section \<open>Other services\<close>

definition Realpath :: "'w fs_calls \<Rightarrow> string \<Rightarrow> string \<Rightarrow> 'w \<Rightarrow> bool \<times> string" where
  "Realpath c path rpath w =
     (if c_lstat c path w = None then (False, rpath)
      else (case c_realpath c path w of None \<Rightarrow> (False, rpath) | Some p \<Rightarrow> (True, p)))"

text \<open>\<^verbatim>\<open>atoi\<close> of the C library: blanks, a sign, the digits; the result is cut to an \<^verbatim>\<open>int\<close>.\<close>

definition is_space :: "char \<Rightarrow> bool" where "is_space c \<longleftrightarrow> code c = 32 \<or> 9 \<le> code c \<and> code c \<le> 13"

definition atoi :: "string \<Rightarrow> int" where
  "atoi s = (let t = dropWhile is_space s;
       v = (\<lambda>u. int (read_dec (takeWhile is_digit u)))
     in sint (word_of_int (case t of
          [] \<Rightarrow> 0
        | c # u \<Rightarrow> if c = CHR ''-'' then - v u else if c = CHR ''+'' then v u else v t) :: 32 word))"

definition IsRunningPidfile :: "'w fs_calls \<Rightarrow> string \<Rightarrow> 'w \<Rightarrow> bool" where
  "IsRunningPidfile c pidfile w =
     (if c_lstat c pidfile w = None then False
      else (case c_first_line c pidfile w of
        None \<Rightarrow> False
      | Some line \<Rightarrow>
          if line = [] then False
          else let pid = atoi line in if pid \<le> 1 then False else c_kill0 c pid w))"

text \<open>
  An output stream: whether its file is open and whether the stream is good. \<^verbatim>\<open>open\<close> fails on a stream whose file is
  open and on a file that cannot be opened, and makes the stream good when it succeeds; \<^verbatim>\<open>close\<close> fails without a file.
\<close>

record ofs = of_open :: bool  of_good :: bool

definition new_ofs :: ofs where "new_ofs = \<lparr>of_open = False, of_good = True\<rparr>"

definition ofs_open :: "'w fs_calls \<Rightarrow> string \<Rightarrow> ofs \<Rightarrow> 'w \<Rightarrow> ofs \<times> 'w" where
  "ofs_open c filename f w =
     (if of_open f then (f\<lparr>of_good := False\<rparr>, w)
      else (case c_append c filename w of
        (ok, w1) \<Rightarrow> (if ok then \<lparr>of_open = True, of_good = True\<rparr> else f\<lparr>of_good := False\<rparr>, w1)))"

definition ofs_close :: "ofs \<Rightarrow> ofs" where
  "ofs_close f = (if of_open f then f\<lparr>of_open := False\<rparr> else f\<lparr>of_good := False\<rparr>)"

definition OpenForWrite :: "'w fs_calls \<Rightarrow> ofs \<Rightarrow> string \<Rightarrow> 'w \<Rightarrow> fs_error + bool \<times> ofs \<times> 'w" where
  "OpenForWrite c f filename w = (case ofs_open c filename f w of
     (f1, w1) \<Rightarrow>
       if \<not> of_open f1 then
         bindE (Mkdir c (Dirname filename) w1) (\<lambda>(_, w2). case ofs_open c filename f1 w2 of
           (f2, w3) \<Rightarrow> Inr (of_open f2, f2, w3))
       else Inr (True, f1, w1))"

section \<open>The files of a tree\<close>

text \<open>A directory tree as the calls show it: the entries of a directory, with the dots left out, are its subtrees.\<close>

datatype fs_tree = Reg | Special | Dir "(string \<times> fs_tree) list"

definition tree_kind :: "fs_tree \<Rightarrow> d_type" where
  "tree_kind t = (case t of Reg \<Rightarrow> DT_REG | Special \<Rightarrow> DT_OTHER | Dir _ \<Rightarrow> DT_DIR)"

definition entries_of :: "(string \<times> fs_tree) list \<Rightarrow> (d_type \<times> string) list" where
  "entries_of ts = map (\<lambda>(n, t). (tree_kind t, n)) ts"

definition no_dots :: "(d_type \<times> string) list \<Rightarrow> (d_type \<times> string) list" where
  "no_dots ds = filter (\<lambda>(ty, n). \<not> (ty = DT_DIR \<and> dots n)) ds"

fun shown :: "'w fs_calls \<Rightarrow> 'w \<Rightarrow> string \<Rightarrow> fs_tree \<Rightarrow> bool" where
  "shown c w path Reg \<longleftrightarrow> True"
| "shown c w path Special \<longleftrightarrow> True"
| "shown c w path (Dir ts) \<longleftrightarrow> c_access c path w
     \<and> (case c_listing c path w of None \<Rightarrow> False | Some ds \<Rightarrow> no_dots ds = entries_of ts)
     \<and> (\<forall>(n, t) \<in> set ts. shown c w (child path n) t)"

text \<open>The paths of the regular files whose name has the suffix, in the order of a depth-first walk.\<close>

fun tree_files :: "string \<Rightarrow> string \<Rightarrow> string \<Rightarrow> fs_tree \<Rightarrow> string list" where
  "tree_files subfix path name Reg = (if has_subfix subfix name then [path] else [])"
| "tree_files subfix path name Special = []"
| "tree_files subfix path name (Dir ts) = concat (map (\<lambda>(n, t). tree_files subfix (child path n) n t) ts)"

lemma list_run_empty: "list_run c w sf (Inr (path, [])) files = Some files"
  by (subst list_run.simps) simp

lemma list_run_dots: "dots n \<Longrightarrow> list_run c w sf (Inr (path, (DT_DIR, n) # ds)) files = list_run c w sf (Inr (path, ds)) files"
  by (subst list_run.simps) simp

lemma list_run_entry:
  assumes "\<And>files. tree_kind t = DT_DIR \<Longrightarrow> list_run c w sf (Inl (child path n)) files = Some (files @ tree_files sf (child path n) n t)"
    and "\<not> (tree_kind t = DT_DIR \<and> dots n)"
  shows "list_run c w sf (Inr (path, (tree_kind t, n) # ds)) files = list_run c w sf (Inr (path, ds)) (files @ tree_files sf (child path n) n t)"
  using assms by (subst list_run.simps) (cases t; simp add: tree_kind_def)

lemma list_run_tree:
  "shown c w path (Dir ts) \<Longrightarrow> list_run c w sf (Inl path) files = Some (files @ tree_files sf path n (Dir ts))"
proof (induction "Dir ts" arbitrary: path ts n files rule: fs_tree.induct)
  case (Dir ts)
  obtain ds where ds: "c_access c path w" "c_listing c path w = Some ds" "no_dots ds = entries_of ts"
    using Dir.prems by (auto split: option.splits)
  have sub: "list_run c w sf (Inl (child path m)) files = Some (files @ tree_files sf (child path m) m t)"
    if m: "(m, t) \<in> set ts" and k: "tree_kind t = DT_DIR" for m t files
  proof -
    obtain us where t: "t = Dir us" using k by (cases t) (simp_all add: tree_kind_def)
    have "\<forall>(n, t) \<in> set ts. shown c w (child path n) t" using Dir.prems by (simp split: option.splits)
    then have sh: "shown c w (child path m) (Dir us)" using m t by fast
    show ?thesis unfolding t by (rule Dir.hyps [OF m _ sh]) (simp add: t)
  qed
  have "no_dots ds = entries_of us \<Longrightarrow> set us \<subseteq> set ts \<Longrightarrow>
      list_run c w sf (Inr (path, ds)) files = Some (files @ tree_files sf path n (Dir us))" for us files
  proof (induction ds arbitrary: us files)
    case Nil
    then show ?case by (simp add: no_dots_def entries_of_def list_run_empty)
  next
    case (Cons d ds)
    obtain ty m where d: "d = (ty, m)" by (cases d) auto
    show ?case
    proof (cases "ty = DT_DIR \<and> dots m")
      case True
      then show ?thesis using Cons.IH [of us files] Cons.prems d by (simp add: no_dots_def list_run_dots)
    next
      case False
      then obtain t vs where us: "us = (m, t) # vs" "ty = tree_kind t" "no_dots ds = entries_of vs"
        using Cons.prems(1) d by (cases us) (auto simp: no_dots_def entries_of_def)
      have "list_run c w sf (Inr (path, d # ds)) files = list_run c w sf (Inr (path, ds)) (files @ tree_files sf (child path m) m t)"
        unfolding d us(2) by (rule list_run_entry) (use sub us Cons.prems(2) False in auto)
      then show ?thesis using Cons.IH [OF us(3)] us Cons.prems(2) by simp
    qed
  qed
  from this [OF ds(3), of files] ds show ?case by (subst list_run.simps) simp
qed

text \<open>
  Property C31. \<^verbatim>\<open>ListAllFile\<close> returns for every finite tree and appends to the list exactly the paths of the regular files
  below the directory whose names end in the suffix, in the order of the entries; a path that does not exist adds nothing.
\<close>

theorem ListAllFile_lists:
  assumes "shown c w path (Dir ts)"
  shows "ListAllFile c files path subfix w = Some (files @ tree_files subfix path name (Dir ts))
    \<and> (\<not> c_access c other w \<longrightarrow> ListAllFile c files other subfix w = Some files)"
proof -
  have "list_run c w subfix (Inl other) files = Some files" if "\<not> c_access c other w"
    using that by (subst list_run.simps) simp
  then show ?thesis using list_run_tree [OF assms] by (simp add: ListAllFile_def)
qed

text \<open>A small tree: two configuration files, one of them in a subdirectory, and a text.\<close>

definition sample_calls :: "unit fs_calls" where
  "sample_calls =
    \<lparr>c_access = \<lambda>p w. p = ''/c'' \<or> p = ''/c/d'', c_lstat = \<lambda>p w. None,
     c_listing = \<lambda>p w. if p = ''/c'' then Some [(DT_DIR, ''.''), (DT_REG, ''a.yml''), (DT_DIR, ''..''), (DT_DIR, ''d''), (DT_REG, ''n.txt'')]
       else Some [(DT_REG, ''b.yml''), (DT_OTHER, ''s.yml'')],
     c_mkdir = \<lambda>p w. (False, w), c_unlink = \<lambda>p w. (False, w), c_rmdir = \<lambda>p w. (False, w), c_rename = \<lambda>p q w. (False, w),
     c_symlink = \<lambda>p q w. (False, w), c_realpath = \<lambda>p w. None, c_kill0 = \<lambda>p w. False, c_first_line = \<lambda>p w. None,
     c_append = \<lambda>p w. (False, w)\<rparr>"

theorem ListAllFile_lists_witness:
  "ListAllFile sample_calls [] ''/c'' ''.yml'' () = Some [''/c/a.yml'', ''/c/d/b.yml'']"
proof -
  let ?t = "[(''a.yml'', Reg), (''d'', Dir [(''b.yml'', Reg), (''s.yml'', Special)]), (''n.txt'', Reg)]"
  have "shown sample_calls () ''/c'' (Dir ?t)"
    by (simp add: sample_calls_def child_def slash_def no_dots_def dots_def entries_of_def tree_kind_def)
  from ListAllFile_lists [OF this, of "[]" "''.yml''"] show ?thesis by (simp add: child_def slash_def has_subfix_def)
qed

section \<open>The tree of the files\<close>

text \<open>
  The abstract file system, a tree that is walked along lists of plain names: a leaf with its mode (a regular file, a link, a
  socket), or a directory with its entries. \<open>look\<close> is what is at a path and \<open>put_at\<close> the tree with something else (or
  nothing) there.
\<close>

datatype fnode = Leaf u32 | Folder "string \<rightharpoonup> fnode"

primrec look :: "string list \<Rightarrow> fnode option \<Rightarrow> fnode option" where
  "look [] t = t"
| "look (n # ns) t = (case t of Some (Folder es) \<Rightarrow> look ns (es n) | _ \<Rightarrow> None)"

primrec put_at :: "string list \<Rightarrow> fnode option \<Rightarrow> fnode option \<Rightarrow> fnode option" where
  "put_at [] r t = r"
| "put_at (n # ns) r t = (case t of Some (Folder es) \<Rightarrow> Some (Folder (es(n := put_at ns r (es n)))) | _ \<Rightarrow> t)"

definition names_of :: "(d_type \<times> string) list \<Rightarrow> string list" where
  "names_of ds = filter (\<lambda>n. \<not> dots n) (map snd ds)"

definition plain_name :: "string \<Rightarrow> bool" where "plain_name n \<longleftrightarrow> n \<noteq> [] \<and> slash \<notin> set n \<and> \<not> dots n"

definition abs_path :: "string list \<Rightarrow> string" where "abs_path ns = concat (map (\<lambda>n. slash # n) ns)"

lemma abs_path_Cons: "abs_path (n # ns) = slash # n @ abs_path ns" "abs_path [] = []"
  by (simp_all add: abs_path_def)

definition full_path :: "string list \<Rightarrow> bool" where "full_path ns \<longleftrightarrow> ns \<noteq> [] \<and> list_all plain_name ns"

lemma look_append: "look (ns @ ms) t = look ms (look ns t)"
proof (induction ns arbitrary: t)
  case (Cons n ns)
  have "look ms None = None" by (cases ms) simp_all
  then show ?case using Cons.IH by (simp split: option.split fnode.split)
qed simp

lemma look_put: "look ns t \<noteq> None \<Longrightarrow> look ns (put_at ns r t) = r"
  by (induction ns arbitrary: t) (auto split: option.splits fnode.splits)

lemma put_at_twice: "put_at ns r (put_at ns s t) = put_at ns r t"
  by (induction ns arbitrary: t) (auto split: option.split fnode.split)

lemma put_look: "look ns t = r \<Longrightarrow> put_at ns r t = t"
  by (induction ns arbitrary: t) (auto split: option.split fnode.split simp: fun_upd_idem)

lemma put_entry: "look ns t = Some (Folder es) \<Longrightarrow> put_at (ns @ [n]) r t = put_at ns (Some (Folder (es(n := r)))) t"
  by (induction ns arbitrary: t) (auto split: option.splits fnode.splits)

text \<open>
  What a call can be refused for (permissions, a busy device, a file system mounted read-only): the refusals are a function of
  the state, so that any environment which does not change them while the program walks the tree is covered.
\<close>

datatype fs_call = On_lstat | On_opendir | On_remove | On_access | On_mkdir

type_synonym 'w refusals = "'w \<Rightarrow> string list \<Rightarrow> fs_call \<Rightarrow> bool"

text \<open>
  What a removal leaves of a tree, read off the tree and the refusals: a leaf stays when it cannot be seen or unlinked, or when its
  mode has the bit of \<^verbatim>\<open>S_IFDIR\<close> (a socket or a block device, which \<^verbatim>\<open>Rm\<close> takes for a directory); a directory stays as it
  is when it cannot be seen or opened, and else with what is left of its entries, and goes when they are all gone.
\<close>

primrec residue :: "fnode \<Rightarrow> (string list \<Rightarrow> fs_call \<Rightarrow> bool) \<Rightarrow> string list \<Rightarrow> fnode option" where
  "residue (Leaf m) d ns = (if d ns On_lstat \<or> d ns On_remove \<or> m AND S_IFDIR \<noteq> 0 then Some (Leaf m) else None)"
| "residue (Folder es) d ns =
    (if d ns On_lstat \<or> d ns On_opendir then Some (Folder es)
     else (let us = (\<lambda>n. case map_option residue (es n) of None \<Rightarrow> None | Some f \<Rightarrow> f d (ns @ [n]))
       in if us = Map.empty \<and> \<not> d ns On_remove then None else Some (Folder us)))"

section \<open>Removing a tree\<close>

text \<open>
  What POSIX says of the calls on an absolute path of plain names at which the tree has something, with the state of the file
  system after a failed call as before. \<open>stat_rule\<close>: \<^verbatim>\<open>lstat\<close> gives the mode or is refused. \<open>listing_rule\<close>: a socket or a block device
  cannot be opened as a directory; a directory gives its entries, in any order and besides the dots, or is refused. \<open>unlink_rule\<close> and
  \<open>rmdir_rule\<close>: the call removes the file, or the empty directory, or is refused; a directory with entries is not removed.
\<close>

lemma rm_empty: "rm_run c (Inr (p, [], ret)) w = (case c_rmdir c p w of (ok, w1) \<Rightarrow> Some (ret \<and> ok, w1))"
  by (subst rm_run.simps) simp

lemma rm_dots: "dots n \<Longrightarrow> rm_run c (Inr (p, (ty, n) # ds, ret)) w = rm_run c (Inr (p, ds, ret)) w"
  by (subst rm_run.simps) simp

lemma rm_entry:
  "\<not> dots n \<Longrightarrow> rm_run c (Inl (child p n)) w = Some (ret1, w1) \<Longrightarrow> rm_run c (Inr (p, (ty, n) # ds, ret)) w = rm_run c (Inr (p, ds, ret1)) w1"
  by (subst rm_run.simps) simp

lemma abs_path_snoc: "abs_path (ns @ [n]) = child (abs_path ns) n"
  by (simp add: abs_path_def child_def)

lemma full_path_snoc: "full_path ns \<Longrightarrow> full_path (ns @ [n]) \<longleftrightarrow> plain_name n"
  by (simp add: full_path_def)

definition stat_rule :: "'w fs_calls \<Rightarrow> ('w \<Rightarrow> fnode option) \<Rightarrow> 'w refusals \<Rightarrow> bool" where
  "stat_rule c view deny \<longleftrightarrow> (\<forall>w ns t. full_path ns \<and> look ns (view w) = Some t \<longrightarrow>
     (case c_lstat c (abs_path ns) w of
        None \<Rightarrow> deny w ns On_lstat
      | Some m \<Rightarrow> \<not> deny w ns On_lstat \<and> (case t of Leaf k \<Rightarrow> m = k | Folder es \<Rightarrow> m AND S_IFDIR \<noteq> 0)))"

definition listing_rule :: "'w fs_calls \<Rightarrow> ('w \<Rightarrow> fnode option) \<Rightarrow> 'w refusals \<Rightarrow> bool" where
  "listing_rule c view deny \<longleftrightarrow>
     (\<forall>w ns k. full_path ns \<and> look ns (view w) = Some (Leaf k) \<and> k AND S_IFDIR \<noteq> 0 \<longrightarrow> c_listing c (abs_path ns) w = None)
   \<and> (\<forall>w ns es. full_path ns \<and> look ns (view w) = Some (Folder es) \<longrightarrow>
       (case c_listing c (abs_path ns) w of
          None \<Rightarrow> deny w ns On_opendir
        | Some ds \<Rightarrow> \<not> deny w ns On_opendir \<and> distinct (names_of ds) \<and> set (names_of ds) = dom es \<and> list_all plain_name (names_of ds)))"

text \<open>A call that removes: done and true, or refused, and then nothing has changed.\<close>

definition removes :: "('w \<Rightarrow> fnode option) \<Rightarrow> 'w refusals \<Rightarrow> string list \<Rightarrow> bool \<Rightarrow> 'w \<Rightarrow> bool \<times> 'w \<Rightarrow> bool" where
  "removes view deny ns can w r \<longleftrightarrow> (case r of (ok, w1) \<Rightarrow>
     ok = can \<and> view w1 = (if can then put_at ns None (view w) else view w) \<and> deny w1 = deny w)"

definition unlink_rule :: "'w fs_calls \<Rightarrow> ('w \<Rightarrow> fnode option) \<Rightarrow> 'w refusals \<Rightarrow> bool" where
  "unlink_rule c view deny \<longleftrightarrow> (\<forall>w ns k. full_path ns \<and> look ns (view w) = Some (Leaf k) \<longrightarrow>
     removes view deny ns (\<not> deny w ns On_remove) w (c_unlink c (abs_path ns) w))"

definition rmdir_rule :: "'w fs_calls \<Rightarrow> ('w \<Rightarrow> fnode option) \<Rightarrow> 'w refusals \<Rightarrow> bool" where
  "rmdir_rule c view deny \<longleftrightarrow> (\<forall>w ns es. full_path ns \<and> look ns (view w) = Some (Folder es) \<longrightarrow>
     removes view deny ns (es = Map.empty \<and> \<not> deny w ns On_remove) w (c_rmdir c (abs_path ns) w))"

definition fs_laws :: "'w fs_calls \<Rightarrow> ('w \<Rightarrow> fnode option) \<Rightarrow> 'w refusals \<Rightarrow> bool" where
  "fs_laws c view deny \<longleftrightarrow> stat_rule c view deny \<and> listing_rule c view deny \<and> unlink_rule c view deny \<and> rmdir_rule c view deny"

text \<open>What one call of \<^verbatim>\<open>Rm\<close> does to the tree.\<close>

definition rm_does :: "'w fs_calls \<Rightarrow> ('w \<Rightarrow> fnode option) \<Rightarrow> 'w refusals \<Rightarrow> string list \<Rightarrow> fnode \<Rightarrow> 'w \<Rightarrow> bool" where
  "rm_does c view deny ns t w \<longleftrightarrow> (\<exists>ok w1. rm_run c (Inl (abs_path ns)) w = Some (ok, w1)
     \<and> view w1 = put_at ns (residue t (deny w) ns) (view w) \<and> deny w1 = deny w
     \<and> (ok \<longleftrightarrow> deny w ns On_lstat \<or> residue t (deny w) ns = None))"

text \<open>The entries after the loop has treated some of them.\<close>

definition left_in :: "(string list \<Rightarrow> fs_call \<Rightarrow> bool) \<Rightarrow> string list \<Rightarrow> string list \<Rightarrow> (string \<rightharpoonup> fnode) \<Rightarrow> (string \<rightharpoonup> fnode)" where
  "left_in d ns names es = (\<lambda>n. if n \<in> set names then (case es n of None \<Rightarrow> None | Some t \<Rightarrow> residue t d (ns @ [n])) else es n)"

lemma residue_folder:
  "residue (Folder es) d ns = (if d ns On_lstat \<or> d ns On_opendir then Some (Folder es)
     else (let us = (\<lambda>n. case es n of None \<Rightarrow> None | Some t \<Rightarrow> residue t d (ns @ [n]))
       in if us = Map.empty \<and> \<not> d ns On_remove then None else Some (Folder us)))"
proof -
  have "(case map_option residue (es n) of None \<Rightarrow> None | Some f \<Rightarrow> f d (ns @ [n])) = (case es n of None \<Rightarrow> None | Some t \<Rightarrow> residue t d (ns @ [n]))" for n
    by (simp split: option.split)
  then show ?thesis by simp
qed

text \<open>The loop over the entries: what of them is refused stays, and the walk goes on.\<close>

lemma rm_loop:
  assumes laws: "fs_laws c view deny" and ns: "full_path ns"
    and IH: "\<And>n t w. n \<in> set (names_of ds) \<Longrightarrow> es n = Some t \<Longrightarrow> look (ns @ [n]) (view w) = Some t \<Longrightarrow> deny w = d \<Longrightarrow> rm_does c view deny (ns @ [n]) t w"
    and "look ns (view w) = Some (Folder us)" and "deny w = d"
    and "distinct (names_of ds)" and "list_all plain_name (names_of ds)" and "\<forall>n \<in> set (names_of ds). us n = es n \<and> es n \<noteq> None"
    and "ret \<or> us \<noteq> Map.empty \<and> (\<exists>n. n \<notin> set (names_of ds) \<and> us n \<noteq> None)"
  shows "\<exists>ok w1. rm_run c (Inr (abs_path ns, ds, ret)) w = Some (ok, w1)
     \<and> (let vs = left_in d ns (names_of ds) us; r = (if vs = Map.empty \<and> \<not> d ns On_remove then None else Some (Folder vs))
        in view w1 = put_at ns r (view w) \<and> deny w1 = d \<and> (ok \<longleftrightarrow> r = None))"
  using IH assms(4-)
proof (induction ds arbitrary: w us ret)
  case Nil
  obtain ok w1 where r: "c_rmdir c (abs_path ns) w = (ok, w1)" by force
  have "removes view deny ns (us = Map.empty \<and> \<not> deny w ns On_remove) w (c_rmdir c (abs_path ns) w)"
    using laws ns Nil.prems(2) unfolding fs_laws_def rmdir_rule_def by blast
  then have "ok = (us = Map.empty \<and> \<not> d ns On_remove)" "view w1 = (if us = Map.empty \<and> \<not> d ns On_remove then put_at ns None (view w) else view w)" "deny w1 = d"
    using r Nil.prems(3) by (simp_all add: removes_def)
  moreover have "us = Map.empty \<Longrightarrow> ret" using Nil.prems(7) by auto
  moreover have "left_in d ns (names_of []) us = us" by (simp add: left_in_def names_of_def)
  ultimately show ?case using put_look [OF Nil.prems(2)] by (auto simp: rm_empty r Let_def)
next
  case (Cons e ds)
  obtain ty n where e: "e = (ty, n)" by (cases e) auto
  show ?case
  proof (cases "dots n")
    case True
    then have "names_of (e # ds) = names_of ds" using e by (simp add: names_of_def)
    then show ?thesis using Cons.IH [of w us ret] Cons.prems True e by (simp add: rm_dots)
  next
    case False
    then have nm: "names_of (e # ds) = n # names_of ds" using e by (simp add: names_of_def)
    obtain t where t: "us n = Some t" "es n = Some t" using Cons.prems(6) nm by auto
    have lk: "look (ns @ [n]) (view w) = Some t" using Cons.prems(2) t(1) by (simp add: look_append)
    obtain ok w1 where w1: "rm_run c (Inl (abs_path (ns @ [n]))) w = Some (ok, w1)"
      "view w1 = put_at (ns @ [n]) (residue t d (ns @ [n])) (view w)" "deny w1 = d"
      "ok \<longleftrightarrow> d (ns @ [n]) On_lstat \<or> residue t d (ns @ [n]) = None"
      using Cons.prems(1) [OF _ t(2) lk Cons.prems(3)] nm Cons.prems(3) by (auto simp: rm_does_def)
    let ?us = "us(n := residue t d (ns @ [n]))"
    have v: "view w1 = put_at ns (Some (Folder ?us)) (view w)" unfolding w1(2) by (rule put_entry [OF Cons.prems(2)])
    have l1: "look ns (view w1) = Some (Folder ?us)" unfolding v using Cons.prems(2) by (simp add: look_put)
    have n: "n \<notin> set (names_of ds)" using Cons.prems(4) nm by simp
    have "\<forall>m \<in> set (names_of ds). ?us m = es m \<and> es m \<noteq> None" using Cons.prems(6) nm n by auto
    moreover have "ok \<or> ?us \<noteq> Map.empty \<and> (\<exists>m. m \<notin> set (names_of ds) \<and> ?us m \<noteq> None)"
    proof (cases "residue t d (ns @ [n]) = None")
      case False
      then show ?thesis using n by (auto simp: fun_eq_iff)
    qed (simp add: w1(4))
    moreover have "\<And>m t w. m \<in> set (names_of ds) \<Longrightarrow> es m = Some t \<Longrightarrow> look (ns @ [m]) (view w) = Some t \<Longrightarrow> deny w = d \<Longrightarrow> rm_does c view deny (ns @ [m]) t w"
      by (rule Cons.prems(1)) (simp_all add: nm)
    moreover have "distinct (names_of ds)" "list_all plain_name (names_of ds)" using Cons.prems(4,5) nm by simp_all
    ultimately obtain ok2 w2 where w2: "rm_run c (Inr (abs_path ns, ds, ok)) w1 = Some (ok2, w2)"
      "let vs = left_in d ns (names_of ds) ?us; r = (if vs = Map.empty \<and> \<not> d ns On_remove then None else Some (Folder vs))
        in view w2 = put_at ns r (view w1) \<and> deny w2 = d \<and> (ok2 \<longleftrightarrow> r = None)"
      using Cons.IH [OF _ l1 w1(3), of ok] by blast
    have "left_in d ns (names_of ds) ?us = left_in d ns (names_of (e # ds)) us"
      using n t nm by (auto simp: left_in_def fun_eq_iff)
    then show ?thesis using w2 rm_entry [OF False w1(1) [unfolded abs_path_snoc], where ret = ret and ty = ty and ds = ds]
      by (simp add: e v put_at_twice)
  qed
qed

lemma rm_node:
  assumes laws: "fs_laws c view deny"
  shows "full_path ns \<Longrightarrow> look ns (view w) = Some t \<Longrightarrow> rm_does c view deny ns t w"
proof (induction t arbitrary: ns w)
  case (Leaf k)
  obtain ok w1 where u: "c_unlink c (abs_path ns) w = (ok, w1)" by force
  have rm: "removes view deny ns (\<not> deny w ns On_remove) w (ok, w1)"
    using laws Leaf unfolding fs_laws_def unlink_rule_def u [symmetric] by blast
  have l: "k AND S_IFDIR \<noteq> 0 \<Longrightarrow> c_listing c (abs_path ns) w = None"
    using laws Leaf unfolding fs_laws_def listing_rule_def by blast
  have "case c_lstat c (abs_path ns) w of None \<Rightarrow> deny w ns On_lstat
      | Some m \<Rightarrow> \<not> deny w ns On_lstat \<and> (case Leaf k of Leaf k \<Rightarrow> m = k | Folder es \<Rightarrow> m AND S_IFDIR \<noteq> 0)"
    using laws Leaf unfolding fs_laws_def stat_rule_def by blast
  then show ?case using rm l put_look [OF Leaf(2)]
    by (cases "c_lstat c (abs_path ns) w"; cases "k AND S_IFDIR = 0")
      (auto simp: rm_does_def rm_run.simps [of c "Inl (abs_path ns)"] Unlink_def u removes_def split: if_splits)
next
  case (Folder es)
  have st: "case c_lstat c (abs_path ns) w of None \<Rightarrow> deny w ns On_lstat
      | Some m \<Rightarrow> \<not> deny w ns On_lstat \<and> (case Folder es of Leaf k \<Rightarrow> m = k | Folder es \<Rightarrow> m AND S_IFDIR \<noteq> 0)"
    using laws Folder.prems unfolding fs_laws_def stat_rule_def by blast
  have li: "case c_listing c (abs_path ns) w of
          None \<Rightarrow> deny w ns On_opendir
        | Some ds \<Rightarrow> \<not> deny w ns On_opendir \<and> distinct (names_of ds) \<and> set (names_of ds) = dom es \<and> list_all plain_name (names_of ds)"
    using laws Folder.prems unfolding fs_laws_def listing_rule_def by blast
  show ?case
  proof (cases "deny w ns On_lstat \<or> deny w ns On_opendir")
    case True
    then show ?thesis using st li put_look [OF Folder.prems(2)]
      by (auto simp: rm_does_def rm_run.simps [of c "Inl (abs_path ns)"] split: option.splits)
  next
    case False
    then obtain m ds where m: "c_lstat c (abs_path ns) w = Some m" "m AND S_IFDIR \<noteq> 0" "c_listing c (abs_path ns) w = Some ds"
      and ds: "distinct (names_of ds)" "set (names_of ds) = dom es" "list_all plain_name (names_of ds)"
      using st li by (auto split: option.splits)
    have IH: "rm_does c view deny (ns @ [n]) t w'"
      if "n \<in> set (names_of ds)" "es n = Some t" "look (ns @ [n]) (view w') = Some t" "deny w' = deny w" for n t w'
      using Folder.IH [of "Some t" t "ns @ [n]" w'] that ds(3) full_path_snoc [OF Folder.prems(1), of n]
      by (metis list.pred_set option.set_intros rangeI)
    have e: "left_in (deny w) ns (names_of ds) es = (\<lambda>n. case es n of None \<Rightarrow> None | Some t \<Rightarrow> residue t (deny w) (ns @ [n]))"
      unfolding left_in_def ds(2) by (auto simp: fun_eq_iff split: option.split)
    have nn: "\<forall>n \<in> set (names_of ds). es n = es n \<and> es n \<noteq> None" using ds(2) by auto
    obtain ok w1 where r: "rm_run c (Inr (abs_path ns, ds, True)) w = Some (ok, w1)"
      "let vs = left_in (deny w) ns (names_of ds) es; r = (if vs = Map.empty \<and> \<not> deny w ns On_remove then None else Some (Folder vs))
        in view w1 = put_at ns r (view w) \<and> deny w1 = deny w \<and> (ok \<longleftrightarrow> r = None)"
      using rm_loop [OF laws Folder.prems(1) IH Folder.prems(2) refl ds(1,3) nn, where ret = True] by blast
    have "rm_run c (Inl (abs_path ns)) w = Some (ok, w1)" using r(1) m by (subst rm_run.simps) simp
    moreover have "residue (Folder es) (deny w) ns = (let vs = left_in (deny w) ns (names_of ds) es
        in if vs = Map.empty \<and> \<not> deny w ns On_remove then None else Some (Folder vs))"
      unfolding e residue_folder using False by simp
    ultimately show ?thesis unfolding rm_does_def using r(2) False by (simp only: Let_def) blast
  qed
qed

text \<open>Nothing stands against removing the tree: no call is refused on any path of it, and no leaf has the bit of directories.\<close>

definition unopposed :: "fnode \<Rightarrow> (string list \<Rightarrow> fs_call \<Rightarrow> bool) \<Rightarrow> string list \<Rightarrow> bool" where
  "unopposed t d ns \<longleftrightarrow> (\<forall>ms s. look ms (Some t) = Some s \<longrightarrow>
     (\<forall>k. \<not> d (ns @ ms) k) \<and> (case s of Leaf m \<Rightarrow> m AND S_IFDIR = 0 | Folder es \<Rightarrow> True))"

lemma unopposed_entry: "unopposed (Folder es) d ns \<Longrightarrow> es n = Some t \<Longrightarrow> unopposed t d (ns @ [n])"
  unfolding unopposed_def by (metis append.assoc append_Cons append_Nil fnode.simps(6) look.simps(2) option.simps(5))

lemma residue_unopposed: "unopposed t d ns \<Longrightarrow> residue t d ns = None"
proof (induction t arbitrary: ns)
  case (Leaf m)
  show ?case using Leaf.prems [unfolded unopposed_def, rule_format, of "[]" "Leaf m"] by simp
next
  case (Folder es)
  have d: "\<not> d ns k" for k using Folder.prems [unfolded unopposed_def, rule_format, of "[]" "Folder es"] by simp
  have "residue t d (ns @ [n]) = None" if "es n = Some t" for n t
    by (rule Folder.IH [of "Some t"]) (use that unopposed_entry [OF Folder.prems that] in \<open>auto intro: range_eqI [of _ es n]\<close>)
  then have "(\<lambda>n. case es n of None \<Rightarrow> None | Some t \<Rightarrow> residue t d (ns @ [n])) = Map.empty"
    by (auto simp: fun_eq_iff split: option.split)
  then show ?case using d by (simp add: residue_folder del: residue.simps)
qed

text \<open>
  Property C26. \<^verbatim>\<open>Rm\<close> on the absolute path of a finite tree ends, under the POSIX rules of the calls, of which any may be refused
  on any path. A refusal does not stop the walk: exactly the \<open>residue\<close> of the tree is left at the path, and nothing
  elsewhere has changed. It returns true when the path is gone and false when something is left, except that it also returns true
  when \<^verbatim>\<open>lstat\<close> is refused on the path itself. If nothing on the tree is refused and no leaf has the mode bit of directories,
  it returns true and the path is gone.
\<close>

theorem Rm_removes_tree:
  assumes "fs_laws c view deny" and "full_path ns" and "look ns (view w) = Some t"
  shows "\<exists>ok w1. Rm c (abs_path ns) w = Some (ok, w1)
    \<and> view w1 = put_at ns (residue t (deny w) ns) (view w)
    \<and> (ok \<longleftrightarrow> look ns (view w1) = None \<or> deny w ns On_lstat)
    \<and> (unopposed t (deny w) ns \<longrightarrow> ok \<and> look ns (view w1) = None)"
proof -
  obtain ok w1 where r: "rm_run c (Inl (abs_path ns)) w = Some (ok, w1)" "view w1 = put_at ns (residue t (deny w) ns) (view w)"
    "ok \<longleftrightarrow> deny w ns On_lstat \<or> residue t (deny w) ns = None"
    using rm_node [OF assms] unfolding rm_does_def by blast
  have l: "look ns (view w1) = residue t (deny w) ns" unfolding r(2) using assms(3) by (simp add: look_put)
  show ?thesis
    unfolding Rm_def by (rule exI [of _ ok], rule exI [of _ w1]) (use r l residue_unopposed in auto)
qed

text \<open>
  \<^verbatim>\<open>Mv\<close> removes the destination before it renames: moving a path onto itself, or onto a directory that contains
  it, deletes the source with all that is below it and then fails.
\<close>

theorem Mv_loses_source:
  assumes "fs_laws c view deny" and "full_path ns" and "look ns (view w) = Some t" and "unopposed t (deny w) ns"
    and "\<And>w. look (ns @ ms) (view w) = None \<Longrightarrow> \<exists>w1. c_rename c (abs_path (ns @ ms)) (abs_path ns) w = (False, w1) \<and> view w1 = view w"
  shows "\<exists>w1. Mv c (abs_path (ns @ ms)) (abs_path ns) w = Some (False, w1) \<and> view w1 = put_at ns None (view w)"
proof -
  obtain ok w1 where r: "Rm c (abs_path ns) w = Some (ok, w1)" "ok" "view w1 = put_at ns (residue t (deny w) ns) (view w)"
    "look ns (view w1) = None"
    using rm_node [OF assms(1-3)] residue_unopposed [OF assms(4)] assms(3) unfolding rm_does_def Rm_def by (auto simp: look_put)
  have "look (ns @ ms) (view w1) = None" using r(4) by (cases ms) (simp_all add: look_append)
  from assms(5) [OF this] obtain w2 where "c_rename c (abs_path (ns @ ms)) (abs_path ns) w1 = (False, w2)" "view w2 = view w1" by blast
  then show ?thesis using r residue_unopposed [OF assms(4)] by (simp add: Mv_def)
qed

section \<open>Making a path\<close>

text \<open>The paths that lead to an absolute path.\<close>

primrec path_prefixes :: "string \<Rightarrow> string list \<Rightarrow> string list" where
  "path_prefixes pre [] = []"
| "path_prefixes pre (n # ns) = child pre n # path_prefixes (child pre n) ns"

primrec mkdir_all :: "'w fs_calls \<Rightarrow> string list \<Rightarrow> 'w \<Rightarrow> bool \<times> 'w" where
  "mkdir_all c [] w = (True, w)"
| "mkdir_all c (q # qs) w = (case mkdir1 c q w of (ok, w1) \<Rightarrow> if ok then mkdir_all c qs w1 else (False, w1))"

lemma mkdir_all_append:
  "mkdir_all c (qs @ rs) w = (case mkdir_all c qs w of (ok, w1) \<Rightarrow> if ok then mkdir_all c rs w1 else (False, w1))"
  by (induction qs arbitrary: w) (auto split: prod.splits)

lemma next_slash_name:
  assumes "slash \<notin> set m"
  shows "next_slash (pre @ slash # m @ abs_path ms) (length pre + 1) = (if ms = [] then None else Some (length (child pre m)))"
proof (cases ms)
  case Nil
  have "first_idx (\<lambda>c. c = slash) m = None" using assms by (auto simp: first_idx_None)
  then show ?thesis using Nil by (simp add: next_slash_def abs_path_Cons)
next
  case (Cons a as)
  have "first_idx (\<lambda>c. c = slash) (m @ slash # a @ abs_path as) = Some (length m)"
    unfolding first_idx_Some using assms by blast
  then show ?thesis using Cons by (simp add: next_slash_def abs_path_Cons child_def)
qed

lemma prefixes_last: "ns \<noteq> [] \<Longrightarrow> path_prefixes pre ns = butlast (path_prefixes pre ns) @ [pre @ abs_path ns]"
proof (induction ns arbitrary: pre)
  case (Cons n ns)
  show ?case
  proof (cases "ns = []")
    case True
    then show ?thesis by (simp add: child_def abs_path_Cons)
  next
    case False
    then have "path_prefixes (child pre n) ns \<noteq> []" by (cases ns) simp_all
    then show ?thesis using Cons.IH [OF False, of "child pre n"] by (simp add: child_def abs_path_Cons)
  qed
qed simp

lemma mkdir_loop_names:
  "\<forall>n\<in>set (m # ms). slash \<notin> set n \<Longrightarrow>
   mkdir_loop c (pre @ abs_path (m # ms)) (Some (length pre)) w = mkdir_all c (pre # butlast (path_prefixes pre (m # ms))) w"
proof (induction ms arbitrary: pre m w)
  case Nil
  then show ?case
    using next_slash_name [of m pre "[]"] by (subst mkdir_loop.simps) (auto simp: abs_path_Cons mkdir_loop.simps [of c _ None] split: prod.splits)
next
  case (Cons a as)
  have n: "next_slash (pre @ abs_path (m # a # as)) (length pre + 1) = Some (length (child pre m))"
    using next_slash_name [of m pre "a # as"] Cons.prems by (simp add: abs_path_Cons)
  have "mkdir_loop c (pre @ abs_path (m # a # as)) (Some (length (child pre m))) w1 = mkdir_all c (child pre m # butlast (path_prefixes (child pre m) (a # as))) w1" for w1
    using Cons.IH [of a "child pre m" w1] Cons.prems by (simp add: child_def abs_path_Cons)
  then show ?case using n by (subst mkdir_loop.simps) (simp split: prod.splits)
qed

lemma Mkdir_names:
  assumes "ns \<noteq> []" and "\<forall>n\<in>set ns. slash \<notin> set n" and "c_lstat c (abs_path ns) w = None"
  shows "Mkdir c (abs_path ns) w = Inr (mkdir_all c (path_prefixes [] ns) w)"
proof -
  obtain m ms where ns: "ns = m # ms" using assms(1) by (cases ns) auto
  have n: "next_slash (abs_path ns) 1 = (if ms = [] then None else Some (length (child [] m)))"
    using next_slash_name [of m "[]" ms] assms(2) ns by (simp add: abs_path_Cons)
  have "mkdir_loop c (abs_path ns) (next_slash (abs_path ns) 1) w = mkdir_all c (butlast (path_prefixes [] ns)) w"
  proof (cases ms)
    case Nil
    then show ?thesis using n ns by (simp add: mkdir_loop.simps)
  next
    case (Cons a as)
    then show ?thesis using n ns mkdir_loop_names [of a as c "child [] m" w] assms(2) by (simp add: child_def abs_path_Cons)
  qed
  moreover have "abs_path ns \<noteq> []" using ns by (simp add: abs_path_Cons)
  moreover have "mkdir_all c (path_prefixes [] ns) w = (case mkdir_all c (butlast (path_prefixes [] ns)) w of (ok, w1) \<Rightarrow>
      if ok then mkdir1 c (abs_path ns) w1 else (False, w1))"
    by (subst prefixes_last [OF assms(1)]) (simp add: mkdir_all_append split: prod.splits if_splits)
  ultimately show ?thesis using assms(3) by (simp add: Mkdir_def split: prod.splits)
qed

text \<open>
  What POSIX says of the calls \<^verbatim>\<open>Mkdir\<close> makes. \<open>stat_missing\<close>: what is missing in a directory, and all below it, is neither seen
  nor accessible. \<open>access_rule\<close>: an existing directory is accessible unless that is refused. \<open>mkdir_rule\<close>: \<^verbatim>\<open>mkdir\<close> makes an empty
  directory where nothing is; else, or refused, it fails and nothing has changed.
\<close>

definition stat_missing :: "'w fs_calls \<Rightarrow> ('w \<Rightarrow> fnode option) \<Rightarrow> bool" where
  "stat_missing c view \<longleftrightarrow> (\<forall>w ns n ms es. full_path (ns @ n # ms) \<and> look ns (view w) = Some (Folder es) \<and> es n = None \<longrightarrow>
     c_lstat c (abs_path (ns @ n # ms)) w = None \<and> \<not> c_access c (abs_path (ns @ n # ms)) w)"

definition access_rule :: "'w fs_calls \<Rightarrow> ('w \<Rightarrow> fnode option) \<Rightarrow> 'w refusals \<Rightarrow> bool" where
  "access_rule c view deny \<longleftrightarrow> (\<forall>w ns es. full_path ns \<and> look ns (view w) = Some (Folder es) \<longrightarrow>
     (c_access c (abs_path ns) w \<longleftrightarrow> \<not> deny w ns On_access))"

definition mkdir_rule :: "'w fs_calls \<Rightarrow> ('w \<Rightarrow> fnode option) \<Rightarrow> 'w refusals \<Rightarrow> bool" where
  "mkdir_rule c view deny \<longleftrightarrow> (\<forall>w ns n es ok w1. full_path (ns @ [n]) \<and> look ns (view w) = Some (Folder es) \<and>
       c_mkdir c (abs_path (ns @ [n])) w = (ok, w1) \<longrightarrow>
     ok = (es n = None \<and> \<not> deny w (ns @ [n]) On_mkdir)
     \<and> view w1 = (if ok then put_at (ns @ [n]) (Some (Folder Map.empty)) (view w) else view w) \<and> deny w1 = deny w)"

definition mkdir_rules :: "'w fs_calls \<Rightarrow> ('w \<Rightarrow> fnode option) \<Rightarrow> 'w refusals \<Rightarrow> bool" where
  "mkdir_rules c view deny \<longleftrightarrow> stat_rule c view deny \<and> stat_missing c view \<and> access_rule c view deny \<and> mkdir_rule c view deny"

text \<open>
  The reference: the walk from \<open>pre\<close> down the names, on the tree alone, with the flag whether it came to the end.
\<close>

primrec make_path :: "(string list \<Rightarrow> fs_call \<Rightarrow> bool) \<Rightarrow> string list \<Rightarrow> string list \<Rightarrow> fnode option \<Rightarrow> bool \<times> fnode option" where
  "make_path d pre [] t = (True, t)"
| "make_path d pre (n # ns) t =
     (if look (pre @ [n]) t = None then
        if d (pre @ [n]) On_mkdir then (False, t)
        else make_path d (pre @ [n]) ns (put_at (pre @ [n]) (Some (Folder Map.empty)) t)
      else if d (pre @ [n]) On_access then (False, t) else make_path d (pre @ [n]) ns t)"

text \<open>What exists on the way from a tree down the names is a directory.\<close>

primrec free_below :: "string list \<Rightarrow> fnode \<Rightarrow> bool" where
  "free_below [] t \<longleftrightarrow> (\<exists>es. t = Folder es)"
| "free_below (n # ns) t \<longleftrightarrow> (case t of Leaf k \<Rightarrow> False | Folder es \<Rightarrow> (case es n of None \<Rightarrow> True | Some s \<Rightarrow> free_below ns s))"

lemma mkdir_all_tree:
  assumes rules: "mkdir_rules c view deny"
  shows "look pre (view w) = Some (Folder es) \<Longrightarrow> free_below ns (Folder es) \<Longrightarrow> list_all plain_name (pre @ ns) \<Longrightarrow>
    \<exists>ok w1 fs. mkdir_all c (path_prefixes (abs_path pre) ns) w = (ok, w1) \<and> make_path (deny w) pre ns (view w) = (ok, view w1)
      \<and> (ok \<longrightarrow> look (pre @ ns) (view w1) = Some (Folder fs))"
proof (induction ns arbitrary: pre es w)
  case Nil
  then show ?case by auto
next
  case (Cons n ns)
  let ?q = "pre @ [n]"
  have q: "full_path ?q" using Cons.prems(3) by (simp add: full_path_def)
  have c: "child (abs_path pre) n = abs_path ?q" by (simp add: abs_path_snoc)
  have l: "look ?q (view w) = es n" using Cons.prems(1) by (simp add: look_append)
  obtain ok w1 where k: "c_mkdir c (abs_path ?q) w = (ok, w1)" by force
  have k1: "ok = (es n = None \<and> \<not> deny w ?q On_mkdir)" "view w1 = (if ok then put_at ?q (Some (Folder Map.empty)) (view w) else view w)"
    "deny w1 = deny w"
    using rules q Cons.prems(1) k unfolding mkdir_rules_def mkdir_rule_def by blast+
  show ?case
  proof (cases "es n")
    case None
    then have a: "\<not> c_access c (abs_path ?q) w"
      using rules q Cons.prems(1) unfolding mkdir_rules_def stat_missing_def by (metis append_Cons append_Nil)
    show ?thesis
    proof (cases "deny w ?q On_mkdir")
      case True
      then show ?thesis using None a k k1 c l by (auto simp: mkdir1_def)
    next
      case False
      then have v: "ok" "view w1 = put_at ?q (Some (Folder Map.empty)) (view w)" using k1 None by simp_all
      have "look ?q (put_at ?q r (view w)) = r" for r unfolding put_entry [OF Cons.prems(1)] by (simp add: look_append look_put Cons.prems(1))
      then have "look ?q (view w1) = Some (Folder Map.empty)" by (simp add: v(2))
      moreover have "free_below ns (Folder Map.empty)" by (cases ns) simp_all
      moreover have "list_all plain_name (?q @ ns)" using Cons.prems(3) by simp
      ultimately obtain ok2 w2 fs where "mkdir_all c (path_prefixes (abs_path ?q) ns) w1 = (ok2, w2)"
        "make_path (deny w1) ?q ns (view w1) = (ok2, view w2)" "ok2 \<longrightarrow> look (?q @ ns) (view w2) = Some (Folder fs)"
        using Cons.IH by blast
      then show ?thesis using None False a k k1(3) v c l by (auto simp: mkdir1_def)
    qed
  next
    case (Some s)
    then obtain fs where s: "s = Folder fs" "free_below ns (Folder fs)"
      using Cons.prems(2) by (cases s; cases ns) auto
    have lq: "look ?q (view w) = Some (Folder fs)" using l Some s by simp
    have a: "c_access c (abs_path ?q) w \<longleftrightarrow> \<not> deny w ?q On_access"
      using rules q lq unfolding mkdir_rules_def access_rule_def by blast
    show ?thesis
    proof (cases "deny w ?q On_access")
      case True
      then show ?thesis using Some a k k1 c l by (auto simp: mkdir1_def)
    next
      case False
      moreover have "list_all plain_name (?q @ ns)" using Cons.prems(3) by simp
      from Cons.IH [OF lq s(2) this] obtain ok2 w2 fs where "mkdir_all c (path_prefixes (abs_path ?q) ns) w = (ok2, w2)"
        "make_path (deny w) ?q ns (view w) = (ok2, view w2)" "ok2 \<longrightarrow> look (?q @ ns) (view w2) = Some (Folder fs)" by blast
      ultimately show ?thesis using Some a c l by (auto simp: mkdir1_def)
    qed
  qed
qed

lemma free_missing:
  "free_below ns (Folder es) \<Longrightarrow> look ns (Some (Folder es)) = None \<Longrightarrow>
   \<exists>ms n rest fs. ns = ms @ n # rest \<and> look ms (Some (Folder es)) = Some (Folder fs) \<and> fs n = None"
proof (induction ns arbitrary: es)
  case (Cons n ns)
  show ?case
  proof (cases "es n")
    case None
    then show ?thesis by (intro exI [of _ "[]"] exI [of _ n] exI [of _ ns] exI [of _ es]) simp
  next
    case (Some s)
    then obtain gs where s: "s = Folder gs" "free_below ns (Folder gs)" using Cons.prems(1) by (cases s; cases ns) auto
    then obtain ms m rest fs where "ns = ms @ m # rest" "look ms (Some (Folder gs)) = Some (Folder fs)" "fs m = None"
      using Cons.IH [of gs] Cons.prems(2) Some by auto
    then show ?thesis using Some s by (intro exI [of _ "n # ms"]) simp
  qed
qed simp

lemma make_path_granted:
  "(\<And>ms. full_path ms \<Longrightarrow> (\<exists>rest. ns = ms @ rest) \<Longrightarrow> \<not> d (pre @ ms) On_mkdir \<and> \<not> d (pre @ ms) On_access) \<Longrightarrow> list_all plain_name ns \<Longrightarrow> fst (make_path d pre ns t)"
proof (induction ns arbitrary: pre t)
  case (Cons n ns)
  have h: "\<not> d (pre @ [n]) On_mkdir \<and> \<not> d (pre @ [n]) On_access"
    using Cons.prems(1) [of "[n]"] Cons.prems(2) by (simp add: full_path_def)
  have "\<not> d ((pre @ [n]) @ ms) On_mkdir \<and> \<not> d ((pre @ [n]) @ ms) On_access" if "full_path ms" "\<exists>rest. ns = ms @ rest" for ms
    using Cons.prems(1) [of "n # ms"] Cons.prems(2) that by (simp add: full_path_def)
  then show ?case using Cons.IH [of "pre @ [n]"] Cons.prems(2) h by simp
qed simp

text \<open>
  Property C27. \<^verbatim>\<open>Mkdir\<close> on an absolute path of plain names, where what exists on the way is a directory. A path that can be seen
  counts as done and nothing changes. Else the tree and the result are those of the reference \<open>make_path\<close>: the missing
  directories are made from the root downwards, and the first refusal ends the call with false, what was made so far being kept.
  When it returns true the path is a directory, and it does when no \<^verbatim>\<open>mkdir\<close> or \<^verbatim>\<open>access\<close> on the way is refused.
\<close>

theorem Mkdir_makes_path:
  assumes "mkdir_rules c view deny" and "full_path ns" and "view w = Some root" and "free_below ns root"
  shows "if look ns (view w) \<noteq> None \<and> \<not> deny w ns On_lstat then Mkdir c (abs_path ns) w = Inr (True, w)
    else \<exists>ok w1. Mkdir c (abs_path ns) w = Inr (ok, w1) \<and> make_path (deny w) [] ns (view w) = (ok, view w1)
      \<and> (ok \<longrightarrow> (\<exists>es. look ns (view w1) = Some (Folder es)))
      \<and> ((\<forall>ms rest. ns = ms @ rest \<longrightarrow> \<not> deny w ms On_mkdir \<and> \<not> deny w ms On_access) \<longrightarrow> ok)"
proof -
  obtain es where es: "root = Folder es" using assms(4) by (cases root; cases ns) auto
  have p: "ns \<noteq> []" "list_all plain_name ns" using assms(2) by (simp_all add: full_path_def)
  then have sl: "\<forall>n\<in>set ns. slash \<notin> set n" by (simp add: list_all_iff plain_name_def)
  have st: "c_lstat c (abs_path ns) w = None \<longleftrightarrow> look ns (view w) = None \<or> deny w ns On_lstat"
  proof (cases "look ns (view w)")
    case None
    then obtain ms n rest fs where f: "ns = ms @ n # rest" "look ms (view w) = Some (Folder fs)" "fs n = None"
      using free_missing [of ns es] assms(3,4) es by auto
    then have "full_path (ms @ n # rest)" using assms(2) by simp
    then have "c_lstat c (abs_path ns) w = None" using assms(1) f(2,3) unfolding f(1) mkdir_rules_def stat_missing_def by blast
    then show ?thesis using None by simp
  next
    case (Some t)
    then have "case c_lstat c (abs_path ns) w of None \<Rightarrow> deny w ns On_lstat
      | Some m \<Rightarrow> \<not> deny w ns On_lstat \<and> (case t of Leaf k \<Rightarrow> m = k | Folder es \<Rightarrow> m AND S_IFDIR \<noteq> 0)"
      using assms(1,2) unfolding mkdir_rules_def stat_rule_def by blast
    then show ?thesis using Some by (auto split: option.splits)
  qed
  show ?thesis
  proof (cases "look ns (view w) \<noteq> None \<and> \<not> deny w ns On_lstat")
    case True
    then have "c_lstat c (abs_path ns) w \<noteq> None" using st by simp
    then show ?thesis using True by (simp add: Mkdir_def)
  next
    case False
    then have "c_lstat c (abs_path ns) w = None" using st by auto
    then have m: "Mkdir c (abs_path ns) w = Inr (mkdir_all c (path_prefixes [] ns) w)" by (rule Mkdir_names [OF p(1) sl])
    have "look [] (view w) = Some (Folder es)" using assms(3) es by simp
    from mkdir_all_tree [OF assms(1) this, of ns] assms(4) es p(2) obtain ok w1 fs where
      r: "mkdir_all c (path_prefixes [] ns) w = (ok, w1)" "make_path (deny w) [] ns (view w) = (ok, view w1)"
        "ok \<longrightarrow> look ns (view w1) = Some (Folder fs)" by (auto simp: abs_path_Cons)
    have g: "ok" if "\<forall>ms rest. ns = ms @ rest \<longrightarrow> \<not> deny w ms On_mkdir \<and> \<not> deny w ms On_access"
      using make_path_granted [of ns "deny w" "[]" "view w"] that p(2) r(2) by auto
    show ?thesis unfolding if_not_P [OF False] m r(1) using r(2,3) g by auto
  qed
qed

section \<open>A file system in memory\<close>

text \<open>
  Calls on a tree with lists of entries and a list of refusals, which keep the rules.
\<close>

datatype mem = M_leaf u32 | M_dir "(string \<times> mem) list"

record mem_state = m_tree :: "mem option"  m_refused :: "(string list \<times> fs_call) list"

fun shape :: "mem \<Rightarrow> fnode" where
  "shape (M_leaf k) = Leaf k"
| "shape (M_dir ts) = Folder (\<lambda>n. if plain_name n then map_of (map (\<lambda>(k, t). (k, shape t)) ts) n else None)"

definition m_view :: "mem_state \<Rightarrow> fnode option" where "m_view w = map_option shape (m_tree w)"

definition m_deny :: "mem_state refusals" where "m_deny w ns k \<longleftrightarrow> (ns, k) \<in> set (m_refused w)"

primrec m_look :: "string list \<Rightarrow> mem option \<Rightarrow> mem option" where
  "m_look [] t = t"
| "m_look (n # ns) t = (case t of Some (M_dir ts) \<Rightarrow> m_look ns (map_of ts n) | _ \<Rightarrow> None)"

primrec m_put :: "string list \<Rightarrow> mem option \<Rightarrow> mem option \<Rightarrow> mem option" where
  "m_put [] r t = r"
| "m_put (n # ns) r t = (case t of
     Some (M_dir ts) \<Rightarrow> (let us = filter (\<lambda>(k, _). k \<noteq> n) ts in
       Some (M_dir (case m_put ns r (map_of ts n) of None \<Rightarrow> us | Some u \<Rightarrow> (n, u) # us)))
   | _ \<Rightarrow> t)"

lemma map_of_shape: "map_of (map (\<lambda>(k, t). (k, shape t)) ts) n = map_option shape (map_of ts n)"
  by (induction ts) auto

lemma look_shape: "list_all plain_name ns \<Longrightarrow> look ns (map_option shape t) = map_option shape (m_look ns t)"
  by (induction ns arbitrary: t) (auto simp: map_of_shape split: option.split mem.split)

lemma map_of_others: "map_of (filter (\<lambda>(k, _). k \<noteq> n) ts) m = (if m = n then None else map_of ts m)"
  by (induction ts) auto

lemma put_shape: "list_all plain_name ns \<Longrightarrow> map_option shape (m_put ns r t) = put_at ns (map_option shape r) (map_option shape t)"
proof (induction ns arbitrary: t)
  case (Cons n ns)
  show ?case
  proof (cases "\<exists>ts. t = Some (M_dir ts)")
    case True
    then obtain ts where t: "t = Some (M_dir ts)" by blast
    have "put_at ns (map_option shape r) (map_option shape (map_of ts n)) = map_option shape (m_put ns r (map_of ts n))"
      using Cons by simp
    then show ?thesis using Cons.prems
      by (cases "m_put ns r (map_of ts n)") (auto simp: t Let_def map_of_shape map_of_others fun_eq_iff)
  next
    case False
    then show ?thesis by (cases t; cases "the t") (auto split: option.splits mem.splits)
  qed
qed simp

text \<open>The names of an absolute path.\<close>

function path_names :: "string \<Rightarrow> string list" where
  "path_names [] = []"
| "path_names (s # p) = takeWhile (\<lambda>x. x \<noteq> slash) p # path_names (dropWhile (\<lambda>x. x \<noteq> slash) p)"
  by pat_completeness auto
termination by (relation "measure length") (auto simp: le_imp_less_Suc length_dropWhile_le)

lemma path_names_abs: "list_all plain_name ns \<Longrightarrow> path_names (abs_path ns) = ns"
proof (induction ns)
  case (Cons n ns)
  have n: "\<forall>x\<in>set n. x \<noteq> slash" using Cons.prems by (auto simp: plain_name_def)
  have "takeWhile (\<lambda>x. x \<noteq> slash) (abs_path ns) = []" "dropWhile (\<lambda>x. x \<noteq> slash) (abs_path ns) = abs_path ns"
    by (cases ns; simp add: abs_path_Cons)+
  then have "takeWhile (\<lambda>x. x \<noteq> slash) (n @ abs_path ns) = n" "dropWhile (\<lambda>x. x \<noteq> slash) (n @ abs_path ns) = abs_path ns"
    using n by (simp_all add: takeWhile_append dropWhile_append)
  then show ?case using Cons by (simp add: abs_path_Cons)
qed (simp add: abs_path_Cons)

definition m_names :: "(string \<times> mem) list \<Rightarrow> string list" where "m_names ts = filter plain_name (remdups (map fst ts))"

definition m_done :: "bool \<Rightarrow> string list \<Rightarrow> mem option \<Rightarrow> mem_state \<Rightarrow> bool \<times> mem_state" where
  "m_done can ns r w = (can, if can then w\<lparr>m_tree := m_put ns r (m_tree w)\<rparr> else w)"

definition mem_calls :: "mem_state fs_calls" where
  "mem_calls =
    \<lparr>c_access = \<lambda>p w. m_look (path_names p) (m_tree w) \<noteq> None \<and> \<not> m_deny w (path_names p) On_access,
     c_lstat = \<lambda>p w. if m_deny w (path_names p) On_lstat then None
       else map_option (\<lambda>t. case t of M_leaf k \<Rightarrow> k | M_dir ts \<Rightarrow> 0x4000) (m_look (path_names p) (m_tree w)),
     c_listing = \<lambda>p w. if m_deny w (path_names p) On_opendir then None
       else (case m_look (path_names p) (m_tree w) of
         Some (M_dir ts) \<Rightarrow> Some ((DT_DIR, ''.'') # (DT_DIR, ''..'') # map (\<lambda>n. (DT_OTHER, n)) (m_names ts)) | _ \<Rightarrow> None),
     c_mkdir = \<lambda>p w. m_done (m_look (path_names p) (m_tree w) = None \<and> \<not> m_deny w (path_names p) On_mkdir) (path_names p) (Some (M_dir [])) w,
     c_unlink = \<lambda>p w. m_done ((\<exists>k. m_look (path_names p) (m_tree w) = Some (M_leaf k)) \<and> \<not> m_deny w (path_names p) On_remove) (path_names p) None w,
     c_rmdir = \<lambda>p w. m_done ((case m_look (path_names p) (m_tree w) of Some (M_dir ts) \<Rightarrow> m_names ts = [] | _ \<Rightarrow> False)
       \<and> \<not> m_deny w (path_names p) On_remove) (path_names p) None w,
     c_rename = \<lambda>p q w. (m_look (path_names p) (m_tree w) \<noteq> None, w),
     c_symlink = \<lambda>p q w. (False, w), c_realpath = \<lambda>p w. None, c_kill0 = \<lambda>p w. False, c_first_line = \<lambda>p w. None,
     c_append = \<lambda>p w. (True, w)\<rparr>"

lemma m_names: "names_of ((DT_DIR, ''.'') # (DT_DIR, ''..'') # map (\<lambda>n. (DT_OTHER, n)) (m_names ts)) = m_names ts"
  "distinct (m_names ts)" "list_all plain_name (m_names ts)" "shape (M_dir ts) = Folder es \<Longrightarrow> set (m_names ts) = dom es"
proof -
  have "\<not> dots n" if "n \<in> set (m_names ts)" for n using that by (simp add: m_names_def plain_name_def)
  then show "names_of ((DT_DIR, ''.'') # (DT_DIR, ''..'') # map (\<lambda>n. (DT_OTHER, n)) (m_names ts)) = m_names ts"
    by (simp add: names_of_def dots_def comp_def filter_id_conv)
  show "distinct (m_names ts)" "list_all plain_name (m_names ts)" by (simp_all add: m_names_def list_all_iff)
  have "n \<in> set (m_names ts) \<longleftrightarrow> plain_name n \<and> map_of ts n \<noteq> None" for n
    unfolding map_of_eq_None_iff by (auto simp: m_names_def)
  then show "shape (M_dir ts) = Folder es \<Longrightarrow> set (m_names ts) = dom es"
    by (auto simp only: shape.simps fnode.inject dom_def map_of_shape) (auto split: if_splits)
qed

lemma m_view_look: "full_path ns \<Longrightarrow> look ns (m_view w) = map_option shape (m_look ns (m_tree w))"
  by (simp add: m_view_def look_shape full_path_def)

lemma m_view_root: "list_all plain_name ns \<Longrightarrow> look ns (m_view w) = map_option shape (m_look ns (m_tree w))"
  by (simp add: m_view_def look_shape)

lemma shape_Leaf: "shape t = Leaf k \<longleftrightarrow> t = M_leaf k" by (cases t) auto

lemma m_done_removes:
  "full_path ns \<Longrightarrow> removes m_view m_deny ns can w (m_done can ns None w)"
  by (simp add: removes_def m_done_def m_view_def put_shape full_path_def m_deny_def fun_eq_iff)

lemma mem_stat: "stat_rule mem_calls m_view m_deny"
  unfolding stat_rule_def
proof (intro allI impI, elim conjE)
  fix w ns t
  assume h: "full_path ns" "look ns (m_view w) = Some t"
  then have p: "path_names (abs_path ns) = ns" by (simp add: full_path_def path_names_abs)
  obtain m where m: "m_look ns (m_tree w) = Some m" "t = shape m" using h m_view_look [of ns w] by auto
  have d: "(0x4000 :: u32) AND S_IFDIR \<noteq> 0" by (simp add: S_IFDIR_def)
  show "case c_lstat mem_calls (abs_path ns) w of None \<Rightarrow> m_deny w ns On_lstat
      | Some k \<Rightarrow> \<not> m_deny w ns On_lstat \<and> (case t of Leaf l \<Rightarrow> k = l | Folder es \<Rightarrow> k AND S_IFDIR \<noteq> 0)"
    using d by (cases m) (simp_all add: mem_calls_def p m)
qed

lemma mem_listing: "listing_rule mem_calls m_view m_deny"
  unfolding listing_rule_def
proof (intro conjI allI impI; elim conjE)
  fix w ns k
  assume h: "full_path ns" "look ns (m_view w) = Some (Leaf k)"
  then have p: "path_names (abs_path ns) = ns" by (simp add: full_path_def path_names_abs)
  have "m_look ns (m_tree w) = Some (M_leaf k)" using h m_view_look [of ns w] by (auto simp: shape_Leaf)
  then show "c_listing mem_calls (abs_path ns) w = None" by (simp add: mem_calls_def p)
next
  fix w ns es
  assume h: "full_path ns" "look ns (m_view w) = Some (Folder es)"
  then have p: "path_names (abs_path ns) = ns" by (simp add: full_path_def path_names_abs)
  obtain m where m: "m_look ns (m_tree w) = Some m" "shape m = Folder es" using h m_view_look [of ns w] by auto
  then obtain ts where t: "m = M_dir ts" by (cases m) auto
  show "case c_listing mem_calls (abs_path ns) w of None \<Rightarrow> m_deny w ns On_opendir
      | Some ds \<Rightarrow> \<not> m_deny w ns On_opendir \<and> distinct (names_of ds) \<and> set (names_of ds) = dom es \<and> list_all plain_name (names_of ds)"
    using m_names(2,3) m_names(4) [OF m(2) [unfolded t]] by (simp add: mem_calls_def p m t m_names(1))
qed

lemma mem_unlink: "unlink_rule mem_calls m_view m_deny"
  unfolding unlink_rule_def
proof (intro allI impI, elim conjE)
  fix w ns k
  assume h: "full_path ns" "look ns (m_view w) = Some (Leaf k)"
  then have p: "path_names (abs_path ns) = ns" by (simp add: full_path_def path_names_abs)
  have "m_look ns (m_tree w) = Some (M_leaf k)" using h m_view_look [of ns w] by (auto simp: shape_Leaf)
  then show "removes m_view m_deny ns (\<not> m_deny w ns On_remove) w (c_unlink mem_calls (abs_path ns) w)"
    using m_done_removes [OF h(1)] by (simp add: mem_calls_def p)
qed

lemma mem_rmdir: "rmdir_rule mem_calls m_view m_deny"
  unfolding rmdir_rule_def
proof (intro allI impI, elim conjE)
  fix w ns es
  assume h: "full_path ns" "look ns (m_view w) = Some (Folder es)"
  then have p: "path_names (abs_path ns) = ns" by (simp add: full_path_def path_names_abs)
  obtain m where m: "m_look ns (m_tree w) = Some m" "shape m = Folder es" using h m_view_look [of ns w] by auto
  then obtain ts where t: "m = M_dir ts" by (cases m) auto
  have "m_names ts = [] \<longleftrightarrow> es = Map.empty" using m_names(4) [OF m(2) [unfolded t]] by (metis dom_eq_empty_conv set_empty)
  then show "removes m_view m_deny ns (es = Map.empty \<and> \<not> m_deny w ns On_remove) w (c_rmdir mem_calls (abs_path ns) w)"
    using m_done_removes [OF h(1)] by (simp add: mem_calls_def p m t)
qed

lemma mem_rules: "fs_laws mem_calls m_view m_deny"
  by (simp add: fs_laws_def mem_stat mem_listing mem_unlink mem_rmdir)

lemma m_look_append: "m_look (ns @ ms) t = m_look ms (m_look ns t)"
proof (induction ns arbitrary: t)
  case (Cons n ns)
  have "m_look ms None = None" by (cases ms) simp_all
  then show ?case using Cons.IH by (simp split: option.split mem.split)
qed simp

lemma m_folder:
  assumes "full_path (ns @ ms)" and "look ns (m_view w) = Some (Folder es)"
  obtains ts where "m_look ns (m_tree w) = Some (M_dir ts)" "\<And>n. plain_name n \<Longrightarrow> es n = map_option shape (map_of ts n)"
proof -
  have "list_all plain_name ns" using assms(1) by (simp add: full_path_def)
  then obtain m where m: "m_look ns (m_tree w) = Some m" "shape m = Folder es" using assms(2) m_view_root [of ns w] by auto
  then obtain ts where t: "m = M_dir ts" by (cases m) auto
  show ?thesis by (rule that) (use m t in \<open>auto simp: map_of_shape\<close>)
qed

lemma mem_mkdir_rules: "mkdir_rules mem_calls m_view m_deny"
proof -
  have 1: "stat_missing mem_calls m_view"
    unfolding stat_missing_def
  proof (intro allI impI, elim conjE)
    fix w ns n ms es
    assume h: "full_path (ns @ n # ms)" "look ns (m_view w) = Some (Folder es)" "es n = None"
    then have p: "path_names (abs_path (ns @ n # ms)) = ns @ n # ms" by (simp add: full_path_def path_names_abs del: list_all_append)
    have "plain_name n" using h(1) by (simp add: full_path_def)
    moreover from m_folder [OF h(1,2)] obtain ts where "m_look ns (m_tree w) = Some (M_dir ts)"
      "\<And>n. plain_name n \<Longrightarrow> es n = map_option shape (map_of ts n)" by blast
    moreover have "m_look ms None = None" by (cases ms) simp_all
    ultimately have "m_look (ns @ n # ms) (m_tree w) = None" using h(3) by (simp add: m_look_append)
    then show "c_lstat mem_calls (abs_path (ns @ n # ms)) w = None \<and> \<not> c_access mem_calls (abs_path (ns @ n # ms)) w"
      by (simp add: mem_calls_def p)
  qed
  have 2: "access_rule mem_calls m_view m_deny"
    unfolding access_rule_def
  proof (intro allI impI, elim conjE)
    fix w ns es
    assume h: "full_path ns" "look ns (m_view w) = Some (Folder es)"
    then have p: "path_names (abs_path ns) = ns" by (simp add: full_path_def path_names_abs)
    have "m_look ns (m_tree w) \<noteq> None" using h m_view_look [of ns w] by auto
    then show "c_access mem_calls (abs_path ns) w = (\<not> m_deny w ns On_access)" by (simp add: mem_calls_def p)
  qed
  have 3: "mkdir_rule mem_calls m_view m_deny"
    unfolding mkdir_rule_def
  proof (intro allI impI, elim conjE)
    fix w ns n es ok w1
    assume h: "full_path (ns @ [n])" "look ns (m_view w) = Some (Folder es)" and k: "c_mkdir mem_calls (abs_path (ns @ [n])) w = (ok, w1)"
    then have p: "path_names (abs_path (ns @ [n])) = ns @ [n]" by (simp add: full_path_def path_names_abs del: list_all_append)
    have n: "plain_name n" using h(1) by (simp add: full_path_def)
    from m_folder [OF h] obtain ts where t: "m_look ns (m_tree w) = Some (M_dir ts)"
      "\<And>n. plain_name n \<Longrightarrow> es n = map_option shape (map_of ts n)" by blast
    have l: "m_look (ns @ [n]) (m_tree w) = None \<longleftrightarrow> es n = None" using t n by (simp add: m_look_append)
    have e: "shape (M_dir []) = Folder Map.empty" by (simp add: fun_eq_iff)
    have "m_view (w\<lparr>m_tree := m_put (ns @ [n]) (Some (M_dir [])) (m_tree w)\<rparr>) = put_at (ns @ [n]) (Some (Folder Map.empty)) (m_view w)"
      using h(1) e by (simp add: m_view_def put_shape full_path_def del: shape.simps)
    then show "ok = (es n = None \<and> \<not> m_deny w (ns @ [n]) On_mkdir)
       \<and> m_view w1 = (if ok then put_at (ns @ [n]) (Some (Folder Map.empty)) (m_view w) else m_view w) \<and> m_deny w1 = m_deny w"
      using k unfolding mem_calls_def m_done_def by (auto simp: p l m_deny_def fun_eq_iff split: if_splits)
  qed
  from 1 2 3 show ?thesis by (simp add: mkdir_rules_def mem_stat)
qed

text \<open>A tree with a directory to remove, and the calls that are refused on it.\<close>

definition mem_a :: mem where "mem_a = M_dir [(''b'', M_dir [(''c'', M_leaf 0x8000)]), (''d'', M_leaf 0x8000)]"

definition mem_sample :: "(string list \<times> fs_call) list \<Rightarrow> mem_state" where
  "mem_sample rs = \<lparr>m_tree = Some (M_dir [(''a'', mem_a), (''e'', M_leaf 0x8000)]), m_refused = rs\<rparr>"

lemma sample_paths: "abs_path [''a''] = ''/a''" "full_path [''a'']" "look [''a''] (m_view (mem_sample rs)) = Some (shape mem_a)"
  by (simp_all add: abs_path_def slash_def full_path_def plain_name_def dots_def m_view_def mem_sample_def)

lemma sample_names: "plain_name ''a''" "plain_name ''b''" "plain_name ''c''" "plain_name ''d''" "plain_name ''e''"
  by (simp_all add: slash_def plain_name_def dots_def)

definition stuck :: "(string list \<times> fs_call) list" where "stuck = [([''a'', ''b'', ''c''], On_remove)]"

lemma sample_residue:
  "residue (shape mem_a) (m_deny (mem_sample stuck)) [''a''] = Some (Folder [''b'' \<mapsto> Folder [''c'' \<mapsto> Leaf 0x8000]])"
proof -
  have d: "m_deny (mem_sample stuck) ns k \<longleftrightarrow> ns = [''a'', ''b'', ''c''] \<and> k = On_remove" for ns k
    by (simp add: m_deny_def mem_sample_def stuck_def)
  have b: "residue (shape (M_dir [(''c'', M_leaf 0x8000)])) (m_deny (mem_sample stuck)) [''a'', ''b''] = Some (Folder [''c'' \<mapsto> Leaf 0x8000])"
  proof -
    have "(\<lambda>n. case if plain_name n then map_of (map (\<lambda>(k, t). (k, shape t)) [(''c'', M_leaf 0x8000)]) n else None of
        None \<Rightarrow> None | Some t \<Rightarrow> residue t (m_deny (mem_sample stuck)) ([''a'', ''b''] @ [n])) = [''c'' \<mapsto> Leaf 0x8000]"
      by (auto simp: fun_eq_iff d sample_names)
    then show ?thesis unfolding shape.simps residue_folder by (simp add: d Let_def fun_eq_iff)
  qed
  have x: "residue (shape (M_leaf 0x8000)) (m_deny (mem_sample stuck)) [''a'', ''d''] = None" by (simp add: d S_IFDIR_def)
  have "(\<lambda>n. case if plain_name n then map_of (map (\<lambda>(k, t). (k, shape t)) [(''b'', M_dir [(''c'', M_leaf 0x8000)]), (''d'', M_leaf 0x8000)]) n else None of
        None \<Rightarrow> None | Some t \<Rightarrow> residue t (m_deny (mem_sample stuck)) ([''a''] @ [n])) = [''b'' \<mapsto> Folder [''c'' \<mapsto> Leaf 0x8000]]"
    using b x by (auto simp: fun_eq_iff sample_names simp del: shape.simps residue.simps)
  then show ?thesis unfolding mem_a_def shape.simps(2) residue_folder by (simp add: d Let_def fun_eq_iff)
qed

lemma unopposed_Leaf: "unopposed (Leaf m) d ns \<longleftrightarrow> (\<forall>k. \<not> d ns k) \<and> m AND S_IFDIR = 0"
proof -
  have "look ms (Some (Leaf m)) = Some s \<longleftrightarrow> ms = [] \<and> s = Leaf m" for ms s by (cases ms) auto
  then show ?thesis by (auto simp: unopposed_def)
qed

lemma unopposed_Folder: "(\<And>k. \<not> d ns k) \<Longrightarrow> (\<And>n t. es n = Some t \<Longrightarrow> unopposed t d (ns @ [n])) \<Longrightarrow> unopposed (Folder es) d ns"
  unfolding unopposed_def
proof (intro allI impI, goal_cases)
  case (1 ms s)
  show ?case
  proof (cases ms)
    case Nil
    then show ?thesis using 1 by auto
  next
    case (Cons n rest)
    then obtain t where "es n = Some t" "look rest (Some t) = Some s" using 1(3) by (cases "es n"; cases rest) auto
    then show ?thesis using 1(2) [of n t] Cons by auto
  qed
qed

lemma sample_unopposed: "unopposed (shape mem_a) (m_deny (mem_sample [])) [''a'']"
proof -
  have d: "\<not> m_deny (mem_sample []) ns k" for ns k by (simp add: m_deny_def mem_sample_def)
  have l: "unopposed (Leaf 0x8000) (m_deny (mem_sample [])) ns" for ns by (simp add: unopposed_Leaf d S_IFDIR_def)
  have b: "unopposed (shape (M_dir [(''c'', M_leaf 0x8000)])) (m_deny (mem_sample [])) ns" for ns
    unfolding shape.simps by (rule unopposed_Folder) (auto simp: d l split: if_splits)
  show ?thesis
    unfolding mem_a_def shape.simps(2) by (rule unopposed_Folder) (use d l b in \<open>auto split: if_splits\<close>)
qed

theorem Rm_removes_tree_witness:
  "(\<exists>w1. Rm mem_calls ''/a'' (mem_sample []) = Some (True, w1) \<and> look [''a''] (m_view w1) = None \<and> look [''e''] (m_view w1) = Some (Leaf 0x8000))
   \<and> (\<exists>w1. Rm mem_calls ''/a'' (mem_sample stuck) = Some (False, w1)
     \<and> look [''a'', ''b'', ''c''] (m_view w1) = Some (Leaf 0x8000) \<and> look [''a'', ''d''] (m_view w1) = None)"
proof
  obtain ok w1 where r: "Rm mem_calls ''/a'' (mem_sample []) = Some (ok, w1)"
      "m_view w1 = put_at [''a''] (residue (shape mem_a) (m_deny (mem_sample [])) [''a'']) (m_view (mem_sample []))"
      "ok" "look [''a''] (m_view w1) = None"
    using Rm_removes_tree [OF mem_rules sample_paths(2,3), of "[]"] sample_unopposed unfolding sample_paths(1) by blast
  have "look [''e''] (m_view w1) = Some (Leaf 0x8000)"
    unfolding r(2) by (simp add: m_view_def mem_sample_def sample_names del: residue.simps)
  then show "\<exists>w1. Rm mem_calls ''/a'' (mem_sample []) = Some (True, w1) \<and> look [''a''] (m_view w1) = None \<and> look [''e''] (m_view w1) = Some (Leaf 0x8000)"
    using r(1,3,4) by (intro exI [of _ w1]) simp
next
  have nd: "\<not> m_deny (mem_sample stuck) [''a''] On_lstat" by (simp add: m_deny_def mem_sample_def stuck_def)
  obtain ok w1 where r: "Rm mem_calls ''/a'' (mem_sample stuck) = Some (ok, w1)"
      "m_view w1 = put_at [''a''] (Some (Folder [''b'' \<mapsto> Folder [''c'' \<mapsto> Leaf 0x8000]])) (m_view (mem_sample stuck))"
      "ok \<longleftrightarrow> look [''a''] (m_view w1) = None \<or> m_deny (mem_sample stuck) [''a''] On_lstat"
    using Rm_removes_tree [OF mem_rules sample_paths(2,3), of stuck] unfolding sample_paths(1) sample_residue by blast
  have "look [''a''] (m_view (mem_sample stuck)) \<noteq> None" using sample_paths(3) by simp
  then have l: "look ([''a''] @ ms) (m_view w1) = look ms (Some (Folder [''b'' \<mapsto> Folder [''c'' \<mapsto> Leaf 0x8000]]))" for ms
    unfolding look_append r(2) look_put [OF \<open>look [''a''] (m_view (mem_sample stuck)) \<noteq> None\<close>] by simp
  show "\<exists>w1. Rm mem_calls ''/a'' (mem_sample stuck) = Some (False, w1)
     \<and> look [''a'', ''b'', ''c''] (m_view w1) = Some (Leaf 0x8000) \<and> look [''a'', ''d''] (m_view w1) = None"
    using r(1,3) nd l [of "[]"] l [of "[''b'', ''c'']"] l [of "[''d'']"] by (intro exI [of _ w1]) simp
qed

theorem Mv_loses_source_witness:
  "\<exists>w1. Mv mem_calls ''/a/d'' ''/a'' (mem_sample []) = Some (False, w1) \<and> look [''a'', ''d''] (m_view w1) = None"
proof -
  have p: "abs_path ([''a''] @ [''d'']) = ''/a/d''" by (simp add: abs_path_def slash_def)
  have r: "\<exists>w1. c_rename mem_calls (abs_path ([''a''] @ [''d''])) (abs_path [''a'']) w = (False, w1) \<and> m_view w1 = m_view w"
    if "look ([''a''] @ [''d'']) (m_view w) = None" for w
  proof -
    have "full_path ([''a''] @ [''d''])" by (simp add: full_path_def sample_names)
    then have "m_look ([''a''] @ [''d'']) (m_tree w) = None" "path_names (abs_path ([''a''] @ [''d''])) = [''a''] @ [''d'']"
      using that m_view_look [of "[''a''] @ [''d'']" w] by (simp_all add: full_path_def path_names_abs del: append.simps)
    then show ?thesis by (simp add: mem_calls_def)
  qed
  from Mv_loses_source [OF mem_rules sample_paths(2,3) sample_unopposed r] obtain w1 where
    w1: "Mv mem_calls ''/a/d'' ''/a'' (mem_sample []) = Some (False, w1)" "m_view w1 = put_at [''a''] None (m_view (mem_sample []))"
    unfolding p sample_paths(1) by blast
  have "look [''a''] (m_view w1) = None" unfolding w1(2) by (rule look_put, unfold sample_paths(3)) simp
  then have "look [''a'', ''d''] (m_view w1) = None" using look_append [of "[''a'']" "[''d'']" "m_view w1"] by simp
  then show ?thesis using w1(1) by blast
qed

theorem Mkdir_makes_path_witness:
  "(\<exists>w1 es. Mkdir mem_calls ''/a/x/y'' (mem_sample []) = Inr (True, w1) \<and> look [''a'', ''x'', ''y''] (m_view w1) = Some (Folder es))
   \<and> Mkdir mem_calls ''/a/b'' (mem_sample []) = Inr (True, mem_sample [])
   \<and> (\<exists>w1. Mkdir mem_calls ''/a/x/y'' (mem_sample [([''a'', ''x''], On_mkdir)]) = Inr (False, w1) \<and> m_view w1 = m_view (mem_sample []))"
proof -
  let ?ns = "[''a'', ''x'', ''y'']"
  have x: "plain_name ''x''" "plain_name ''y''" by (simp_all add: slash_def plain_name_def dots_def)
  have i: "full_path ?ns" "full_path [''a'', ''b'']" by (simp_all add: full_path_def x sample_names)
  have a: "abs_path ?ns = ''/a/x/y''" "abs_path [''a'', ''b''] = ''/a/b''" by (simp_all add: abs_path_def slash_def)
  let ?root = "shape (M_dir [(''a'', mem_a), (''e'', M_leaf 0x8000)])"
  have v: "m_view (mem_sample rs) = Some ?root" for rs by (simp add: m_view_def mem_sample_def)
  have f: "free_below ?ns ?root" "free_below [''a'', ''b''] ?root" by (simp_all add: mem_a_def x sample_names)
  have l: "look ?ns (m_view (mem_sample rs)) = None" "look [''a'', ''b''] (m_view (mem_sample rs)) \<noteq> None" for rs
    unfolding v by (simp_all add: mem_a_def sample_names)
  have d: "\<not> m_deny (mem_sample []) ns k" for ns k by (simp add: m_deny_def mem_sample_def)
  have 1: "\<exists>w1 es. Mkdir mem_calls ''/a/x/y'' (mem_sample []) = Inr (True, w1) \<and> look ?ns (m_view w1) = Some (Folder es)"
    using Mkdir_makes_path [OF mem_mkdir_rules i(1) v f(1), of "[]"] l(1) [of "[]"] d unfolding a by auto
  have 2: "Mkdir mem_calls ''/a/b'' (mem_sample []) = Inr (True, mem_sample [])"
    using Mkdir_makes_path [OF mem_mkdir_rules i(2) v f(2), of "[]"] l(2) [of "[]"] d unfolding a by simp
  let ?rs = "[([''a'', ''x''], On_mkdir)]"
  have e: "m_deny (mem_sample ?rs) ns k \<longleftrightarrow> ns = [''a'', ''x''] \<and> k = On_mkdir" for ns k
    by (simp add: m_deny_def mem_sample_def)
  have "look [''a''] (m_view (mem_sample rs)) = Some (shape mem_a)" "look [''a'', ''x''] (m_view (mem_sample rs)) = None" for rs
    unfolding v by (simp_all add: mem_a_def sample_names x)
  then have m: "make_path (m_deny (mem_sample ?rs)) [] ?ns (m_view (mem_sample ?rs)) = (False, m_view (mem_sample ?rs))"
    by (simp add: e del: look.simps put_at.simps)
  have 3: "\<exists>w1. Mkdir mem_calls ''/a/x/y'' (mem_sample ?rs) = Inr (False, w1) \<and> m_view w1 = m_view (mem_sample [])"
    using Mkdir_makes_path [OF mem_mkdir_rules i(1) v f(1), of ?rs] l(1) [of ?rs] unfolding a m v [of "[]"] v [of ?rs, symmetric] by auto
  from 1 2 3 show ?thesis by blast
qed

end
