(* ===== verification/Env.thy ===== *)
theory Env
  imports FileUtil
begin

text \<open>
  \<^verbatim>\<open>Env\<close> of \<^verbatim>\<open>base/env.cc\<close>: the arguments of the program and their parsing, the help, and absolute paths. A command line of
  options is shown to be read back.
\<close>

section \<open>The environment of the program\<close>

record env =
  en_args :: "string \<rightharpoonup> string"
  en_helps :: "(string \<times> string) list"
  en_program :: string
  en_exe :: string
  en_cwd :: string

definition new_Env :: env where
  "new_Env = \<lparr>en_args = Map.empty, en_helps = [], en_program = [], en_exe = [], en_cwd = []\<rparr>"

definition Env_add :: "string \<Rightarrow> string \<Rightarrow> env \<Rightarrow> env" where
  "Env_add key val e = e\<lparr>en_args := (en_args e)(key \<mapsto> val)\<rparr>"

definition Env_has :: "string \<Rightarrow> env \<Rightarrow> bool" where "Env_has key e \<longleftrightarrow> en_args e key \<noteq> None"

definition Env_del :: "string \<Rightarrow> env \<Rightarrow> env" where
  "Env_del key e = e\<lparr>en_args := (en_args e)(key := None)\<rparr>"

definition Env_get :: "string \<Rightarrow> string \<Rightarrow> env \<Rightarrow> string" where
  "Env_get key default_value e = (case en_args e key of Some v \<Rightarrow> v | None \<Rightarrow> default_value)"

definition removeHelp :: "string \<Rightarrow> env \<Rightarrow> env" where
  "removeHelp key e = e\<lparr>en_helps := filter (\<lambda>(k, _). k \<noteq> key) (en_helps e)\<rparr>"

definition addHelp :: "string \<Rightarrow> string \<Rightarrow> env \<Rightarrow> env" where
  "addHelp key desc e = (let e1 = removeHelp key e in e1\<lparr>en_helps := en_helps e1 @ [(key, desc)]\<rparr>)"

text \<open>The text of \<^verbatim>\<open>printHelp\<close>; \<^verbatim>\<open>setw(5)\<close> pads the dash that follows it.\<close>

definition printHelp :: "env \<Rightarrow> string" where
  "printHelp e = ''Usage: '' @ en_program e @ '' [options]'' @ [CHR 0x0A]
     @ concat (map (\<lambda>(k, d). ''    -'' @ k @ '' : '' @ d @ [CHR 0x0A]) (en_helps e))"

definition getAbsolutePath :: "string \<Rightarrow> env \<Rightarrow> string" where
  "getAbsolutePath path e = (if path = [] then ''/'' else if path ! 0 = slash then path else en_cwd e @ path)"

text \<open>The work path is the value of a setting; \<open>None\<close> is the null pointer when the setting was not registered.\<close>

datatype env_error = Null_setting | Null_argv

definition getAbsoluteWorkPath :: "string option \<Rightarrow> string \<Rightarrow> env_error + string" where
  "getAbsoluteWorkPath work_path path =
     (if path = [] then Inr ''/'' else if path ! 0 = slash then Inr path
      else (case work_path of None \<Rightarrow> Inl Null_setting | Some wp \<Rightarrow> Inr (wp @ [slash] @ path)))"

definition getConfigPath :: "env \<Rightarrow> string" where
  "getConfigPath e = getAbsolutePath (Env_get ''c'' ''conf'' e) e"

section \<open>The command line\<close>

text \<open>
  The loop over the arguments from the second one on, with the option that waits for its value. The first component is
  false when an argument is refused.
\<close>

primrec arg_loop :: "string list \<Rightarrow> string option \<Rightarrow> env \<Rightarrow> bool \<times> env" where
  "arg_loop [] now_key e = (True, case now_key of None \<Rightarrow> e | Some k \<Rightarrow> Env_add k [] e)"
| "arg_loop (a # as) now_key e =
     (if a \<noteq> [] \<and> a ! 0 = CHR ''-'' then
        if length a > 1 then arg_loop as (Some (drop 1 a)) (case now_key of None \<Rightarrow> e | Some k \<Rightarrow> Env_add k [] e)
        else (False, e)
      else (case now_key of
          Some k \<Rightarrow> arg_loop as None (Env_add k a e)
        | None \<Rightarrow> (False, e)))"

text \<open>\<open>exe\<close> is what \<^verbatim>\<open>readlink\<close> leaves in the buffer. An empty \<^verbatim>\<open>argv\<close> is a null pointer read as a string.\<close>

definition Env_init :: "string \<Rightarrow> string list \<Rightarrow> env \<Rightarrow> env_error + bool \<times> env" where
  "Env_init exe argv e = (case argv of
     [] \<Rightarrow> Inl Null_argv
   | program # args \<Rightarrow>
       let cwd = (case last_idx (\<lambda>c. c = slash) exe of None \<Rightarrow> exe | Some pos \<Rightarrow> substr 0 pos exe) @ [slash]
       in Inr (arg_loop args None (e\<lparr>en_exe := exe, en_cwd := cwd, en_program := program\<rparr>)))"

text \<open>Options as they are meant: a name with or without a value; an option without one has the empty value.\<close>

type_synonym opt = "string \<times> string option"

definition opt_args :: "opt \<Rightarrow> string list" where
  "opt_args p = (case p of (k, None) \<Rightarrow> [CHR ''-'' # k] | (k, Some v) \<Rightarrow> [CHR ''-'' # k, v])"

definition opt_ok :: "opt \<Rightarrow> bool" where
  "opt_ok p \<longleftrightarrow> fst p \<noteq> [] \<and> (case snd p of None \<Rightarrow> True | Some v \<Rightarrow> v = [] \<or> v ! 0 \<noteq> CHR ''-'')"

definition opt_value :: "opt \<Rightarrow> string" where "opt_value p = (case snd p of None \<Rightarrow> [] | Some v \<Rightarrow> v)"

definition pending :: "string option \<Rightarrow> env \<Rightarrow> env" where
  "pending now_key e = (case now_key of None \<Rightarrow> e | Some k \<Rightarrow> Env_add k [] e)"

lemma pending_simps [simp]: "pending None e = e" "pending (Some k) e = Env_add k [] e"
  by (simp_all add: pending_def)

lemma arg_loop_opts:
  "\<forall>p\<in>set ps. opt_ok p \<Longrightarrow> arg_loop (concat (map opt_args ps)) k e = (True, fold (\<lambda>p. Env_add (fst p) (opt_value p)) ps (pending k e))"
proof (induction ps arbitrary: k e)
  case (Cons p ps)
  obtain n v where p: "p = (n, v)" by (cases p)
  have n: "n \<noteq> []" using Cons.prems p by (simp add: opt_ok_def)
  have IH: "arg_loop (concat (map opt_args ps)) k e = (True, fold (\<lambda>p. Env_add (fst p) (opt_value p)) ps (pending k e))" for k e
    using Cons by simp
  show ?case
  proof (cases v)
    case None
    then have "opt_args p = [CHR ''-'' # n]" "opt_value p = []" by (simp_all add: p opt_args_def opt_value_def)
    then show ?thesis using n IH by (simp add: pending_def [symmetric]) (simp add: p)
  next
    case (Some w)
    then have w: "\<not> (w \<noteq> [] \<and> w ! 0 = CHR ''-'')" using Cons.prems p by (auto simp: opt_ok_def)
    have "opt_args p = [CHR ''-'' # n, w]" "opt_value p = w" using Some by (simp_all add: p opt_args_def opt_value_def)
    then show ?thesis using n w IH by (auto simp: pending_def [symmetric]) (auto simp: p)
  qed
qed (simp add: pending_def)

lemma arg_loop_values:
  "\<forall>p\<in>set ps. opt_ok p \<and> snd p \<noteq> None \<Longrightarrow>
   arg_loop (concat (map opt_args ps) @ rest) None e = arg_loop rest None (fold (\<lambda>p. Env_add (fst p) (opt_value p)) ps e)"
proof (induction ps arbitrary: e)
  case (Cons p ps)
  then obtain n w where p: "p = (n, Some w)" "n \<noteq> []" "\<not> (w \<noteq> [] \<and> w ! 0 = CHR ''-'')" by (cases p) (auto simp: opt_ok_def)
  then have "opt_args p = [CHR ''-'' # n, w]" "opt_value p = w" by (simp_all add: opt_args_def opt_value_def)
  then show ?case using p Cons by auto
qed simp

lemma fold_add_args:
  "en_args (fold (\<lambda>p. Env_add (fst p) (opt_value p)) ps e) = en_args e ++ map_of (rev (map (\<lambda>p. (fst p, opt_value p)) ps))"
  by (induction ps arbitrary: e) (simp_all add: Env_add_def map_add_def fun_eq_iff split: option.splits)

text \<open>
  Property C37. A command line of well-formed options is read back: \<^verbatim>\<open>init\<close> returns true and afterwards every option has the
  value that its last occurrence gives it, the empty one when it has none, and the others have the value of before. A lone
  dash, or a value that no option waits for, makes \<^verbatim>\<open>init\<close> return false after the options before it.
\<close>

theorem command_line_roundtrip:
  assumes "\<forall>p\<in>set ps. opt_ok p"
  shows "\<exists>e1. Env_init exe (program # concat (map opt_args ps)) e = Inr (True, e1) \<and> en_program e1 = program
      \<and> (\<forall>k. en_args e1 k = (case map_of (rev (map (\<lambda>p. (fst p, opt_value p)) ps)) k of Some v \<Rightarrow> Some v | None \<Rightarrow> en_args e k))
      \<and> (\<forall>bad rest. (\<forall>p\<in>set ps. snd p \<noteq> None) \<and> (bad = ''-'' \<or> bad = [] \<or> bad ! 0 \<noteq> CHR ''-'') \<longrightarrow>
           Env_init exe (program # concat (map opt_args ps) @ bad # rest) e = Inr (False, e1))"
proof -
  let ?cwd = "(case last_idx (\<lambda>c. c = slash) exe of None \<Rightarrow> exe | Some pos \<Rightarrow> substr 0 pos exe) @ [slash]"
  let ?e = "e\<lparr>en_exe := exe, en_cwd := ?cwd, en_program := program\<rparr>"
  let ?f = "fold (\<lambda>p. Env_add (fst p) (opt_value p)) ps ?e"
  have "en_program (fold (\<lambda>p. Env_add (fst p) (opt_value p)) ps e0) = en_program e0" for e0
    by (induction ps arbitrary: e0) (simp_all add: Env_add_def)
  then have 1: "en_program ?f = program" by simp
  have 2: "en_args ?f k = (case map_of (rev (map (\<lambda>p. (fst p, opt_value p)) ps)) k of Some v \<Rightarrow> Some v | None \<Rightarrow> en_args e k)" for k
    by (simp add: fold_add_args map_add_def)
  have 3: "Env_init exe (program # concat (map opt_args ps)) e = Inr (True, ?f)"
    using arg_loop_opts [OF assms, of None ?e] by (simp add: Env_init_def Let_def)
  have 4: "Env_init exe (program # concat (map opt_args ps) @ bad # rest) e = Inr (False, ?f)"
    if "\<forall>p\<in>set ps. snd p \<noteq> None" "bad = ''-'' \<or> bad = [] \<or> bad ! 0 \<noteq> CHR ''-''" for bad rest
  proof -
    have "arg_loop (concat (map opt_args ps) @ bad # rest) None ?e = arg_loop (bad # rest) None ?f"
      by (rule arg_loop_values) (use assms that(1) in blast)
    also have "\<dots> = (False, ?f)" using that(2) by auto
    finally show ?thesis by (simp add: Env_init_def Let_def)
  qed
  show ?thesis by (rule exI [of _ ?f]) (use 1 2 3 4 in blast)
qed

theorem command_line_roundtrip_witness:
  "\<exists>e1. Env_init ''/bin/x'' [''x'', ''-c'', ''etc'', ''-d''] new_Env = Inr (True, e1) \<and> en_args e1 ''c'' = Some ''etc'' \<and> en_args e1 ''d'' = Some []"
proof -
  let ?ps = "[(''c'', Some ''etc''), (''d'', None)]"
  have ok: "\<forall>p\<in>set ?ps. opt_ok p" by (simp add: opt_ok_def)
  have "concat (map opt_args ?ps) = [''-c'', ''etc'', ''-d'']" by (simp add: opt_args_def)
  with command_line_roundtrip [OF ok, of "''/bin/x''" "''x''" new_Env] obtain e1 where
    "Env_init ''/bin/x'' [''x'', ''-c'', ''etc'', ''-d''] new_Env = Inr (True, e1)"
    "\<forall>k. en_args e1 k = (case map_of (rev (map (\<lambda>p. (fst p, opt_value p)) ?ps)) k of Some v \<Rightarrow> Some v | None \<Rightarrow> en_args new_Env k)" by auto
  then show ?thesis by (auto simp: opt_value_def)
qed

end
