(* ===== verification/Config.thy ===== *)
theory Config
  imports Env
begin

text \<open>
  Configuration variables and their register, \<^verbatim>\<open>base/config.h\<close> and \<^verbatim>\<open>base/config.cc\<close>. Variables of all types share one store
  and carry the name of their type; the conversions of \<^verbatim>\<open>LexicalCast\<close> and the nodes of yaml-cpp are parameters. The
  lines that the functions write to the log are left out. The lemmas show what a change of a value does, that types are kept by every sequence of
  operations, what loading a document does to the variables, and what is not loaded again.
\<close>

section \<open>Configuration variables\<close>

text \<open>
  A variable \<^verbatim>\<open>ConfigVar<T>\<close> carries the name of its type. \<open>'v\<close> is the union of the values of all types and \<open>'w\<close> the state
  that the listeners work on; a listener returns whether it ended without an exception. The listeners are ordered by their
  keys, as in the map. The variables are shared by pointer: they live in a store and are named by their index.
\<close>

type_synonym ('v, 'w) on_change_cb = "'v \<Rightarrow> 'v \<Rightarrow> 'w \<Rightarrow> bool \<times> 'w"

record ('v, 'w) config_var =
  cv_name :: string
  cv_description :: string
  cv_type :: string
  cv_val :: 'v
  cv_cbs :: "(u64 \<times> ('v, 'w) on_change_cb) list"

text \<open>The register, the store, the counter of listeners of each type, the times of the loaded files, and the outside world.\<close>

record ('v, 'w) config =
  cf_datas :: "string \<rightharpoonup> nat"
  cf_vars :: "('v, 'w) config_var list"
  cf_fun_id :: "string \<Rightarrow> u64"
  cf_times :: "string \<Rightarrow> u64"
  cf_world :: 'w

definition new_Config :: "'w \<Rightarrow> ('v, 'w) config" where
  "new_Config w = \<lparr>cf_datas = Map.empty, cf_vars = [], cf_fun_id = (\<lambda>_. 0), cf_times = (\<lambda>_. 0), cf_world = w\<rparr>"

text \<open>The conversions \<^verbatim>\<open>LexicalCast\<close> between texts and values of a type; \<open>None\<close> is a \<^verbatim>\<open>std::exception\<close>.\<close>

record 'v casts =
  FromStr :: "string \<Rightarrow> string \<Rightarrow> 'v option"
  ToStr :: "string \<Rightarrow> 'v \<Rightarrow> string option"

definition new_ConfigVar :: "string \<Rightarrow> string \<Rightarrow> 'v \<Rightarrow> string \<Rightarrow> ('v, 'w) config_var" where
  "new_ConfigVar ty name default_value description =
     \<lparr>cv_name = ToLower name, cv_description = description, cv_type = ty, cv_val = default_value, cv_cbs = []\<rparr>"

definition upd_var :: "nat \<Rightarrow> (('v, 'w) config_var \<Rightarrow> ('v, 'w) config_var) \<Rightarrow> ('v, 'w) config \<Rightarrow> ('v, 'w) config" where
  "upd_var i f s = s\<lparr>cf_vars := (cf_vars s)[i := f (cf_vars s ! i)]\<rparr>"

definition ConfigVar_toString :: "'v casts \<Rightarrow> nat \<Rightarrow> ('v, 'w) config \<Rightarrow> string" where
  "ConfigVar_toString c i s =
     (let x = cf_vars s ! i in case ToStr c (cv_type x) (cv_val x) of Some t \<Rightarrow> t | None \<Rightarrow> [])"

definition getValue :: "nat \<Rightarrow> ('v, 'w) config \<Rightarrow> 'v" where "getValue i s = cv_val (cf_vars s ! i)"

text \<open>The loop over the listeners; it stops at one that throws.\<close>

primrec call_all :: "(u64 \<times> ('v, 'w) on_change_cb) list \<Rightarrow> 'v \<Rightarrow> 'v \<Rightarrow> 'w \<Rightarrow> bool \<times> 'w" where
  "call_all [] old v w = (True, w)"
| "call_all (cb # cbs) old v w = (case snd cb old v w of (ok, w1) \<Rightarrow> if ok then call_all cbs old v w1 else (False, w1))"

text \<open>\<^verbatim>\<open>setValue\<close>: the listeners run before the value changes; false when one of them throws.\<close>

definition setValue :: "nat \<Rightarrow> 'v \<Rightarrow> ('v, 'w) config \<Rightarrow> bool \<times> ('v, 'w) config" where
  "setValue i v s =
     (let x = cf_vars s ! i
      in if v = cv_val x then (True, s)
         else (case call_all (cv_cbs x) (cv_val x) v (cf_world s) of
           (ok, w1) \<Rightarrow> if ok then (True, upd_var i (\<lambda>x. x\<lparr>cv_val := v\<rparr>) (s\<lparr>cf_world := w1\<rparr>))
                       else (False, s\<lparr>cf_world := w1\<rparr>)))"

text \<open>\<^verbatim>\<open>fromString\<close> catches the exceptions and returns false in every case.\<close>

definition fromString :: "'v casts \<Rightarrow> nat \<Rightarrow> string \<Rightarrow> ('v, 'w) config \<Rightarrow> bool \<times> ('v, 'w) config" where
  "fromString c i val s = (case FromStr c (cv_type (cf_vars s ! i)) val of
     None \<Rightarrow> (False, s)
   | Some v \<Rightarrow> (False, snd (setValue i v s)))"

text \<open>Insertion into the ordered map of listeners; a key that is there is overwritten.\<close>

primrec cb_insert :: "u64 \<Rightarrow> ('v, 'w) on_change_cb \<Rightarrow> (u64 \<times> ('v, 'w) on_change_cb) list \<Rightarrow> (u64 \<times> ('v, 'w) on_change_cb) list" where
  "cb_insert k cb [] = [(k, cb)]"
| "cb_insert k cb (x # xs) = (if k < fst x then (k, cb) # x # xs else if k = fst x then (k, cb) # xs else x # cb_insert k cb xs)"

definition addListener :: "nat \<Rightarrow> ('v, 'w) on_change_cb \<Rightarrow> ('v, 'w) config \<Rightarrow> u64 \<times> ('v, 'w) config" where
  "addListener i cb s =
     (let ty = cv_type (cf_vars s ! i); k = cf_fun_id s ty + 1
      in (k, upd_var i (\<lambda>x. x\<lparr>cv_cbs := cb_insert k cb (cv_cbs x)\<rparr>) (s\<lparr>cf_fun_id := (cf_fun_id s)(ty := k)\<rparr>)))"

definition delListener :: "nat \<Rightarrow> u64 \<Rightarrow> ('v, 'w) config \<Rightarrow> ('v, 'w) config" where
  "delListener i key s = upd_var i (\<lambda>x. x\<lparr>cv_cbs := filter (\<lambda>(k, _). k \<noteq> key) (cv_cbs x)\<rparr>) s"

definition getListener :: "nat \<Rightarrow> u64 \<Rightarrow> ('v, 'w) config \<Rightarrow> ('v, 'w) on_change_cb option" where
  "getListener i key s = map_of (cv_cbs (cf_vars s ! i)) key"

definition clearListener :: "nat \<Rightarrow> ('v, 'w) config \<Rightarrow> ('v, 'w) config" where
  "clearListener i s = upd_var i (\<lambda>x. x\<lparr>cv_cbs := []\<rparr>) s"

section \<open>The register\<close>

definition name_chars :: string where "name_chars = ''abcdefghikjlmnopqrstuvwxyz._012345678''"

definition name_valid :: "string \<Rightarrow> bool" where "name_valid name \<longleftrightarrow> (\<forall>c\<in>set name. c \<in> set name_chars)"

datatype config_error = Invalid_argument

text \<open>\<^verbatim>\<open>Lookup\<close> with a default: the pointer is null when a variable of another type has the name.\<close>

definition Config_Lookup :: "string \<Rightarrow> string \<Rightarrow> 'v \<Rightarrow> string \<Rightarrow> ('v, 'w) config \<Rightarrow> config_error + nat option \<times> ('v, 'w) config" where
  "Config_Lookup ty name default_value description s = (case cf_datas s name of
     Some i \<Rightarrow> if cv_type (cf_vars s ! i) = ty then Inr (Some i, s) else Inr (None, s)
   | None \<Rightarrow>
       if \<not> name_valid name then Inl Invalid_argument
       else Inr (Some (length (cf_vars s)),
         s\<lparr>cf_vars := cf_vars s @ [new_ConfigVar ty name default_value description],
           cf_datas := (cf_datas s)(name \<mapsto> length (cf_vars s))\<rparr>))"

definition Config_Find :: "string \<Rightarrow> string \<Rightarrow> ('v, 'w) config \<Rightarrow> nat option" where
  "Config_Find ty name s = (case cf_datas s name of
     None \<Rightarrow> None
   | Some i \<Rightarrow> if cv_type (cf_vars s ! i) = ty then Some i else None)"

definition LookupBase :: "string \<Rightarrow> ('v, 'w) config \<Rightarrow> nat option" where "LookupBase name s = cf_datas s name"

text \<open>\<^verbatim>\<open>Visit\<close>: \<open>names\<close> is the order in which the hash table lists its keys.\<close>

definition Visit :: "string list \<Rightarrow> (nat \<Rightarrow> ('v, 'w) config \<Rightarrow> ('v, 'w) config) \<Rightarrow> ('v, 'w) config \<Rightarrow> ('v, 'w) config" where
  "Visit names cb s = fold (\<lambda>n t. case cf_datas s n of None \<Rightarrow> t | Some i \<Rightarrow> cb i t) names s"

section \<open>Loading\<close>

text \<open>
  The nodes of yaml-cpp: whether a node is a map or a scalar, its scalar text, its entries with the texts of their keys, and its
  printing.
\<close>

record 'n yaml =
  IsMap :: "'n \<Rightarrow> bool"
  IsScalar :: "'n \<Rightarrow> bool"
  Scalar :: "'n \<Rightarrow> string"
  entries :: "'n \<Rightarrow> (string \<times> 'n) list"
  show_node :: "'n \<Rightarrow> string"

definition join_name :: "string \<Rightarrow> string \<Rightarrow> string" where
  "join_name prefix key = (if prefix = [] then key else prefix @ ''.'' @ key)"

text \<open>The calls of \<^verbatim>\<open>ListAllMember\<close>: for a node, or what is left of its loop over the entries.\<close>

partial_function (option) members_run ::
  "'n yaml \<Rightarrow> (string \<times> 'n) + string \<times> (string \<times> 'n) list \<Rightarrow> (string \<times> 'n) list \<Rightarrow> (string \<times> 'n) list option" where
  "members_run y job output = (case job of
     Inl (prefix, node) \<Rightarrow>
       if \<not> name_valid prefix then Some output
       else if IsMap y node then members_run y (Inr (prefix, entries y node)) (output @ [(prefix, node)])
       else Some (output @ [(prefix, node)])
   | Inr (prefix, es) \<Rightarrow> (case es of
         [] \<Rightarrow> Some output
       | (k, n) # rest \<Rightarrow> Option.bind (members_run y (Inl (join_name prefix k, n)) output) (members_run y (Inr (prefix, rest)))))"

definition ListAllMember :: "'n yaml \<Rightarrow> string \<Rightarrow> 'n \<Rightarrow> (string \<times> 'n) list \<Rightarrow> (string \<times> 'n) list option" where
  "ListAllMember y prefix node output = members_run y (Inl (prefix, node)) output"

definition load_node :: "'n yaml \<Rightarrow> 'v casts \<Rightarrow> string \<times> 'n \<Rightarrow> ('v, 'w) config \<Rightarrow> ('v, 'w) config" where
  "load_node y c i s =
     (if fst i = [] then s
      else (case LookupBase (ToLower (fst i)) s of
        None \<Rightarrow> s
      | Some var \<Rightarrow> snd (fromString c var (if IsScalar y (snd i) then Scalar y (snd i) else show_node y (snd i)) s)))"

definition LoadFromYaml :: "'n yaml \<Rightarrow> 'v casts \<Rightarrow> 'n \<Rightarrow> ('v, 'w) config \<Rightarrow> ('v, 'w) config option" where
  "LoadFromYaml y c root s = map_option (\<lambda>all_nodes. fold (load_node y c) all_nodes s) (ListAllMember y [] root [])"

text \<open>
  Loading a directory: \<open>mtime\<close> is the time of modification that \<^verbatim>\<open>lstat\<close> gives, \<open>LoadFile\<close> the parser of files
  (\<open>None\<close>: it throws). A file whose time is the recorded one is left out unless the loading is forced.
\<close>

definition load_file :: "'n yaml \<Rightarrow> 'v casts \<Rightarrow> ('w \<Rightarrow> string \<Rightarrow> u64) \<Rightarrow> ('w \<Rightarrow> string \<Rightarrow> 'n option) \<Rightarrow> bool \<Rightarrow> string
    \<Rightarrow> ('v, 'w) config \<Rightarrow> ('v, 'w) config option" where
  "load_file y c mtime LoadFile force i s =
     (let t = mtime (cf_world s) i
      in if \<not> force \<and> cf_times s i = t then Some s
         else let s1 = s\<lparr>cf_times := (cf_times s)(i := t)\<rparr>
              in case LoadFile (cf_world s1) i of
                   None \<Rightarrow> Some s1
                 | Some root \<Rightarrow> LoadFromYaml y c root s1)"

primrec load_files :: "'n yaml \<Rightarrow> 'v casts \<Rightarrow> ('w \<Rightarrow> string \<Rightarrow> u64) \<Rightarrow> ('w \<Rightarrow> string \<Rightarrow> 'n option) \<Rightarrow> bool \<Rightarrow> string list
    \<Rightarrow> ('v, 'w) config \<Rightarrow> ('v, 'w) config option" where
  "load_files y c mtime LoadFile force [] s = Some s"
| "load_files y c mtime LoadFile force (i # is) s =
     Option.bind (load_file y c mtime LoadFile force i s) (load_files y c mtime LoadFile force is)"

definition LoadFromConfDir :: "'w fs_calls \<Rightarrow> 'n yaml \<Rightarrow> 'v casts \<Rightarrow> ('w \<Rightarrow> string \<Rightarrow> u64) \<Rightarrow> ('w \<Rightarrow> string \<Rightarrow> 'n option) \<Rightarrow> env \<Rightarrow> string \<Rightarrow> bool
    \<Rightarrow> ('v, 'w) config \<Rightarrow> ('v, 'w) config option" where
  "LoadFromConfDir fs y c mtime LoadFile e path force s =
     Option.bind (ListAllFile fs [] (getAbsolutePath path e) ''.yml'' (cf_world s)) (\<lambda>files. load_files y c mtime LoadFile force files s)"

section \<open>Setting a value\<close>

text \<open>
  Setting the value that a variable has does nothing at all. Otherwise every listener is called once, in the
  order of the keys, with the old and the new value, before the value changes; when none of them throws the variable then has the new
  value, and when one throws those after it are not called and the value stays. No other variable changes. \<^verbatim>\<open>fromString\<close>
  returns false even when it has set the value.
\<close>

theorem setValue_notifies:
  "(v = getValue i s \<longrightarrow> setValue i v s = (True, s))
   \<and> (v \<noteq> getValue i s \<and> (\<forall>cb\<in>set (cv_cbs (cf_vars s ! i)). \<forall>old new w. fst (snd cb old new w)) \<longrightarrow>
        (let w1 = fold (\<lambda>cb w. snd (snd cb (getValue i s) v w)) (cv_cbs (cf_vars s ! i)) (cf_world s)
         in setValue i v s = (True, s\<lparr>cf_world := w1, cf_vars := (cf_vars s)[i := (cf_vars s ! i)\<lparr>cv_val := v\<rparr>]\<rparr>)))
   \<and> (v \<noteq> getValue i s \<and> (\<exists>before cb after. cv_cbs (cf_vars s ! i) = before @ cb # after
          \<and> (\<forall>b\<in>set before. \<forall>w. fst (snd b (getValue i s) v w)) \<and> (\<forall>w. \<not> fst (snd cb (getValue i s) v w))) \<longrightarrow>
        \<not> fst (setValue i v s) \<and> cf_vars (snd (setValue i v s)) = cf_vars s)
   \<and> \<not> fst (fromString c i txt s)"
proof -
  have all: "call_all cbs old v w = (True, fold (\<lambda>cb w. snd (snd cb old v w)) cbs w)"
    if "\<forall>cb\<in>set cbs. \<forall>old new w. fst (snd cb old new w)" for cbs :: "(u64 \<times> ('a, 'b) on_change_cb) list" and old w
    using that by (induction cbs arbitrary: w) (auto split: prod.splits simp: prod_eq_iff)
  have some: "\<not> fst (call_all (before @ cb # after) old v w)"
    if "\<forall>b\<in>set before. \<forall>w. fst (snd b old v w)" "\<forall>w. \<not> fst (snd cb old v w)"
    for before after :: "(u64 \<times> ('a, 'b) on_change_cb) list" and cb old w
    using that by (induction before arbitrary: w) (auto split: prod.splits simp: prod_eq_iff)
  have 1: "v = getValue i s \<longrightarrow> setValue i v s = (True, s)" by (simp add: setValue_def getValue_def)
  have 2: "v \<noteq> getValue i s \<and> (\<forall>cb\<in>set (cv_cbs (cf_vars s ! i)). \<forall>old new w. fst (snd cb old new w)) \<longrightarrow>
        (let w1 = fold (\<lambda>cb w. snd (snd cb (getValue i s) v w)) (cv_cbs (cf_vars s ! i)) (cf_world s)
         in setValue i v s = (True, s\<lparr>cf_world := w1, cf_vars := (cf_vars s)[i := (cf_vars s ! i)\<lparr>cv_val := v\<rparr>]\<rparr>))"
    by (simp add: setValue_def getValue_def all upd_var_def Let_def)
  have 3: "v \<noteq> getValue i s \<and> (\<exists>before cb after. cv_cbs (cf_vars s ! i) = before @ cb # after
          \<and> (\<forall>b\<in>set before. \<forall>w. fst (snd b (getValue i s) v w)) \<and> (\<forall>w. \<not> fst (snd cb (getValue i s) v w))) \<longrightarrow>
        \<not> fst (setValue i v s) \<and> cf_vars (snd (setValue i v s)) = cf_vars s"
  proof (intro impI, elim conjE exE)
    fix before cb "after"
    assume a: "v \<noteq> getValue i s" "cv_cbs (cf_vars s ! i) = before @ cb # after"
      "\<forall>b\<in>set before. \<forall>w. fst (snd b (getValue i s) v w)" "\<forall>w. \<not> fst (snd cb (getValue i s) v w)"
    then have "\<not> fst (call_all (before @ cb # after) (getValue i s) v (cf_world s))" using some by blast
    then show "\<not> fst (setValue i v s) \<and> cf_vars (snd (setValue i v s)) = cf_vars s"
      using a(1,2) by (auto simp: setValue_def getValue_def Let_def split: prod.splits)
  qed
  have 4: "\<not> fst (fromString c i txt s)" by (simp add: fromString_def split: option.splits)
  from 1 2 3 4 show ?thesis by blast
qed

definition counted :: "(int, nat) config" where
  "counted = (new_Config 5)\<lparr>cf_datas := [''n'' \<mapsto> 0],
     cf_vars := [(new_ConfigVar ''int'' ''n'' 1 '''')\<lparr>cv_cbs := [(1, \<lambda>old new w. (True, w + nat new)), (2, \<lambda>old new w. (True, 2 * w))]\<rparr>]\<rparr>"

theorem setValue_notifies_witness:
  "fst (setValue 0 3 counted) \<and> cf_world (snd (setValue 0 3 counted)) = 16 \<and> getValue 0 (snd (setValue 0 3 counted)) = 3"
proof -
  have "(3 :: int) \<noteq> getValue 0 counted" "\<forall>cb\<in>set (cv_cbs (cf_vars counted ! 0)). \<forall>old new w. fst (snd cb old new w)"
    by (simp_all add: counted_def getValue_def new_ConfigVar_def)
  with setValue_notifies [of 3 0 counted undefined "[]"]
  have "setValue 0 3 counted = (True, counted\<lparr>cf_world := fold (\<lambda>cb w. snd (snd cb (getValue 0 counted) 3 w)) (cv_cbs (cf_vars counted ! 0)) (cf_world counted),
      cf_vars := (cf_vars counted)[0 := (cf_vars counted ! 0)\<lparr>cv_val := 3\<rparr>]\<rparr>)" by (simp add: Let_def)
  then show ?thesis by (simp add: counted_def getValue_def new_ConfigVar_def new_Config_def)
qed

section \<open>Types\<close>

text \<open>\<open>has ty v\<close>: the value has the type of this name.\<close>

definition var_ok :: "(string \<Rightarrow> 'v \<Rightarrow> bool) \<Rightarrow> ('v, 'w) config_var \<Rightarrow> bool" where
  "var_ok has x \<longleftrightarrow> has (cv_type x) (cv_val x)"

definition config_ok :: "(string \<Rightarrow> 'v \<Rightarrow> bool) \<Rightarrow> ('v, 'w) config \<Rightarrow> bool" where
  "config_ok has s \<longleftrightarrow> (\<forall>x\<in>set (cf_vars s). var_ok has x)
     \<and> (\<forall>n i. cf_datas s n = Some i \<longrightarrow> i < length (cf_vars s) \<and> name_valid n \<and> cv_name (cf_vars s ! i) = n)"

definition casts_ok :: "(string \<Rightarrow> 'v \<Rightarrow> bool) \<Rightarrow> 'v casts \<Rightarrow> bool" where
  "casts_ok has c \<longleftrightarrow> (\<forall>ty t v. FromStr c ty t = Some v \<longrightarrow> has ty v)"

text \<open>The operations of a well-typed program, one call at a time.\<close>

inductive config_step :: "(string \<Rightarrow> 'v \<Rightarrow> bool) \<Rightarrow> 'n yaml \<Rightarrow> 'v casts \<Rightarrow> ('v, 'w) config \<Rightarrow> ('v, 'w) config \<Rightarrow> bool"
  for has y c where
  look_up: "Config_Lookup ty name v d s = Inr (r, t) \<Longrightarrow> has ty v \<Longrightarrow> config_step has y c s t"
| set_value: "i < length (cf_vars s) \<Longrightarrow> has (cv_type (cf_vars s ! i)) v \<Longrightarrow> config_step has y c s (snd (setValue i v s))"
| from_text: "i < length (cf_vars s) \<Longrightarrow> config_step has y c s (snd (fromString c i txt s))"
| add_listener: "i < length (cf_vars s) \<Longrightarrow> config_step has y c s (snd (addListener i cb s))"
| del_listener: "i < length (cf_vars s) \<Longrightarrow> config_step has y c s (delListener i k s)"
| clear_listener: "i < length (cf_vars s) \<Longrightarrow> config_step has y c s (clearListener i s)"
| load: "load_file y c mtime LoadFile force f s = Some t \<Longrightarrow> config_step has y c s t"

text \<open>What every operation keeps: the types, the names and the register but for new entries.\<close>

definition grows :: "('v, 'w) config \<Rightarrow> ('v, 'w) config \<Rightarrow> bool" where
  "grows s t \<longleftrightarrow> cf_datas s \<subseteq>\<^sub>m cf_datas t \<and> length (cf_vars s) \<le> length (cf_vars t)
     \<and> (\<forall>i<length (cf_vars s). cv_type (cf_vars t ! i) = cv_type (cf_vars s ! i) \<and> cv_name (cf_vars t ! i) = cv_name (cf_vars s ! i))"

lemma grows_refl [simp]: "grows s s" by (simp add: grows_def)

lemma grows_trans: "grows s t \<Longrightarrow> grows t u \<Longrightarrow> grows s u"
proof -
  assume a: "grows s t" "grows t u"
  then have "cf_datas s \<subseteq>\<^sub>m cf_datas u" unfolding grows_def by (blast intro: map_le_trans)
  moreover have "length (cf_vars s) \<le> length (cf_vars u)" using a unfolding grows_def by linarith
  moreover have "cv_type (cf_vars u ! i) = cv_type (cf_vars s ! i) \<and> cv_name (cf_vars u ! i) = cv_name (cf_vars s ! i)" if "i < length (cf_vars s)" for i
    using a that unfolding grows_def by simp
  ultimately show "grows s u" by (simp add: grows_def)
qed

lemma valid_lower: "name_valid n \<Longrightarrow> ToLower n = n"
proof -
  have "\<forall>c\<in>set name_chars. to_lower c = c" by code_simp
  then show "name_valid n \<Longrightarrow> ToLower n = n" by (auto simp: name_valid_def ToLower_def intro!: map_idI)
qed

lemma upd_var_ok:
  assumes "config_ok has s" and "i < length (cf_vars s)" and "cf_vars t = (cf_vars s)[i := x]" and "cf_datas t = cf_datas s"
    and "cv_type x = cv_type (cf_vars s ! i)" "cv_name x = cv_name (cf_vars s ! i)" "has (cv_type x) (cv_val x)"
  shows "config_ok has t \<and> grows s t"
proof -
  have "var_ok has z" if "z \<in> set ((cf_vars s)[i := x])" for z
    using that assms(1,7) set_update_subset_insert [of "cf_vars s" i x] by (auto simp: config_ok_def var_ok_def)
  moreover have "cv_name ((cf_vars s)[i := x] ! j) = cv_name (cf_vars s ! j)" "cv_type ((cf_vars s)[i := x] ! j) = cv_type (cf_vars s ! j)"
    if "j < length (cf_vars s)" for j
    using that assms(2,5,6) by (simp_all add: nth_list_update)
  ultimately show ?thesis using assms(1,3,4) by (auto simp: config_ok_def grows_def)
qed

lemma setValue_ok:
  assumes "config_ok has s" and "i < length (cf_vars s)" and "has (cv_type (cf_vars s ! i)) v"
  shows "config_ok has (snd (setValue i v s)) \<and> grows s (snd (setValue i v s))"
proof -
  obtain ok w1 where c: "call_all (cv_cbs (cf_vars s ! i)) (cv_val (cf_vars s ! i)) v (cf_world s) = (ok, w1)" by fastforce
  show ?thesis
  proof (cases "v = cv_val (cf_vars s ! i) \<or> \<not> ok")
    case True
    then have "cf_vars (snd (setValue i v s)) = cf_vars s \<and> cf_datas (snd (setValue i v s)) = cf_datas s"
      using c by (auto simp: setValue_def Let_def)
    then show ?thesis using assms(1) by (simp add: config_ok_def grows_def)
  next
    case False
    then have e: "snd (setValue i v s) = upd_var i (\<lambda>x. x\<lparr>cv_val := v\<rparr>) (s\<lparr>cf_world := w1\<rparr>)" using c by (simp add: setValue_def Let_def)
    show ?thesis
      by (rule upd_var_ok [OF assms(1,2), where x = "(cf_vars s ! i)\<lparr>cv_val := v\<rparr>"]) (simp_all add: e upd_var_def assms(3))
  qed
qed

lemma fromString_ok:
  assumes "casts_ok has c" and "config_ok has s" and "i < length (cf_vars s)"
  shows "config_ok has (snd (fromString c i txt s)) \<and> grows s (snd (fromString c i txt s))"
proof (cases "FromStr c (cv_type (cf_vars s ! i)) txt")
  case None
  then show ?thesis using assms(2) by (simp add: fromString_def)
next
  case (Some v)
  then have "has (cv_type (cf_vars s ! i)) v" using assms(1) by (simp add: casts_ok_def)
  then show ?thesis using setValue_ok [OF assms(2,3)] Some by (simp add: fromString_def)
qed

lemma load_node_ok:
  assumes "casts_ok has c" and "config_ok has s"
  shows "config_ok has (load_node y c p s) \<and> grows s (load_node y c p s)"
proof (cases "fst p = [] \<or> LookupBase (ToLower (fst p)) s = None")
  case True
  then show ?thesis using assms(2) by (auto simp: load_node_def)
next
  case False
  then obtain i where i: "LookupBase (ToLower (fst p)) s = Some i" by blast
  then have "i < length (cf_vars s)" using assms(2) by (simp add: LookupBase_def config_ok_def)
  from fromString_ok [OF assms this] show ?thesis using False i by (simp add: load_node_def)
qed

lemma load_nodes_ok:
  "casts_ok has c \<Longrightarrow> config_ok has s \<Longrightarrow> config_ok has (fold (load_node y c) ps s) \<and> grows s (fold (load_node y c) ps s)"
proof (induction ps arbitrary: s)
  case (Cons p ps)
  have 1: "config_ok has (load_node y c p s) \<and> grows s (load_node y c p s)" by (rule load_node_ok [OF Cons.prems])
  then have "config_ok has (fold (load_node y c) ps (load_node y c p s)) \<and> grows (load_node y c p s) (fold (load_node y c) ps (load_node y c p s))"
    using Cons.IH [OF Cons.prems(1)] by blast
  then show ?case using 1 grows_trans by (simp only: fold.simps o_apply) blast
qed simp

lemma load_file_ok:
  assumes "casts_ok has c" and "config_ok has s" and "load_file y c mtime LoadFile force f s = Some t"
  shows "config_ok has t \<and> grows s t"
proof -
  let ?s1 = "s\<lparr>cf_times := (cf_times s)(f := mtime (cf_world s) f)\<rparr>"
  have s1: "config_ok has ?s1" "grows s ?s1" using assms(2) by (simp_all add: config_ok_def grows_def)
  consider "t = s" | "t = ?s1" | ps where "t = fold (load_node y c) ps ?s1"
    using assms(3) by (auto simp: load_file_def Let_def LoadFromYaml_def split: if_splits option.splits)
  then show ?thesis
  proof cases
    case 3
    then show ?thesis using load_nodes_ok [OF assms(1) s1(1)] grows_trans [OF s1(2)] by blast
  qed (use assms(2) s1 in auto)
qed

lemma Config_Lookup_ok:
  assumes "config_ok has s" and "has ty v" and "Config_Lookup ty name v d s = Inr (r, t)"
  shows "config_ok has t \<and> grows s t"
proof (cases "cf_datas s name")
  case (Some i)
  then have "t = s" using assms(3) by (auto simp: Config_Lookup_def split: if_splits)
  then show ?thesis using assms(1) by simp
next
  case None
  then have n: "name_valid name" "t = s\<lparr>cf_vars := cf_vars s @ [new_ConfigVar ty name v d], cf_datas := (cf_datas s)(name \<mapsto> length (cf_vars s))\<rparr>"
    using assms(3) by (auto simp: Config_Lookup_def split: if_splits)
  have "var_ok has (new_ConfigVar ty name v d)" "cv_name (new_ConfigVar ty name v d) = name"
    using assms(2) valid_lower [OF n(1)] by (simp_all add: var_ok_def new_ConfigVar_def)
  then have "config_ok has t" using assms(1) n by (auto simp: config_ok_def nth_append less_Suc_eq)
  moreover have "grows s t" using None n(2) by (auto simp: grows_def nth_append map_le_def)
  ultimately show ?thesis by blast
qed

lemma config_step_ok:
  "config_step has y c s t \<Longrightarrow> casts_ok has c \<Longrightarrow> config_ok has s \<Longrightarrow> config_ok has t \<and> grows s t"
proof (induction rule: config_step.induct)
  case (add_listener i s cb)
  have "has (cv_type (cf_vars s ! i)) (cv_val (cf_vars s ! i))" using add_listener by (simp add: config_ok_def var_ok_def)
  then show ?case
    using upd_var_ok [OF add_listener(3,1), where x = "(cf_vars s ! i)\<lparr>cv_cbs := cb_insert (cf_fun_id s (cv_type (cf_vars s ! i)) + 1) cb (cv_cbs (cf_vars s ! i))\<rparr>"]
    by (simp add: addListener_def upd_var_def Let_def)
next
  case (del_listener i s k)
  have "has (cv_type (cf_vars s ! i)) (cv_val (cf_vars s ! i))" using del_listener by (simp add: config_ok_def var_ok_def)
  then show ?case
    using upd_var_ok [OF del_listener(3,1), where x = "(cf_vars s ! i)\<lparr>cv_cbs := filter (\<lambda>(l, _). l \<noteq> k) (cv_cbs (cf_vars s ! i))\<rparr>"]
    by (simp add: delListener_def upd_var_def)
next
  case (clear_listener i s)
  have "has (cv_type (cf_vars s ! i)) (cv_val (cf_vars s ! i))" using clear_listener by (simp add: config_ok_def var_ok_def)
  then show ?case
    using upd_var_ok [OF clear_listener(3,1), where x = "(cf_vars s ! i)\<lparr>cv_cbs := []\<rparr>"] by (simp add: clearListener_def upd_var_def)
next
  case (look_up ty name v d s r t)
  show ?case by (rule Config_Lookup_ok [OF look_up(4,2,1)])
next
  case (set_value i s v)
  show ?case by (rule setValue_ok [OF set_value(4,1,2)])
next
  case (from_text i s z)
  show ?case by (rule fromString_ok [OF from_text(2,3,1)])
next
  case (load mtime LoadFile force f s t)
  show ?case by (rule load_file_ok [OF load(2,3,1)])
qed

text \<open>
  Property C8. Configuration variables are type safe: after any sequence of lookups, assignments, conversions from text,
  registrations of listeners and loads of files, a lookup that names a type gives no pointer or a variable whose value
  has this type, every variable is registered under its own valid name, and what was registered stays with its type.
\<close>

theorem config_types:
  assumes "casts_ok has c" and "(config_step has y c)\<^sup>*\<^sup>* (new_Config w) s" and "(config_step has y c)\<^sup>*\<^sup>* s t"
  shows "config_ok has t \<and> grows s t \<and> (\<forall>ty name i. Config_Find ty name t = Some i \<longrightarrow> has ty (getValue i t) \<and> cv_name (cf_vars t ! i) = name)
    \<and> (\<forall>ty name i. Config_Find ty name s = Some i \<longrightarrow> Config_Find ty name t = Some i)"
proof -
  have all: "config_ok has u \<and> grows s u" if "(config_step has y c)\<^sup>*\<^sup>* s u" "config_ok has s" for s u
    using that by (induction rule: rtranclp_induct) (use config_step_ok [OF _ assms(1)] grows_trans in \<open>auto, blast\<close>)
  have "config_ok has (new_Config w)" by (simp add: config_ok_def new_Config_def)
  then have s: "config_ok has s" using all [OF assms(2)] by blast
  then have t: "config_ok has t" "grows s t" using all [OF assms(3)] by blast+
  have "has ty (getValue i t) \<and> cv_name (cf_vars t ! i) = name" if "Config_Find ty name t = Some i" for ty name i
  proof -
    have i: "cf_datas t name = Some i" "cv_type (cf_vars t ! i) = ty" using that by (auto simp: Config_Find_def split: option.splits if_splits)
    then have l: "i < length (cf_vars t)" "cv_name (cf_vars t ! i) = name" using t(1) by (simp_all add: config_ok_def)
    then have "var_ok has (cf_vars t ! i)" using t(1) by (simp add: config_ok_def)
    then show ?thesis using i l by (simp add: var_ok_def getValue_def)
  qed
  moreover have "Config_Find ty name t = Some i" if "Config_Find ty name s = Some i" for ty name i
  proof -
    have i: "cf_datas s name = Some i" "cv_type (cf_vars s ! i) = ty" using that by (auto simp: Config_Find_def split: option.splits if_splits)
    then have "i < length (cf_vars s)" using s by (simp add: config_ok_def)
    moreover have "cf_datas t name = Some i" using t(2) i(1) by (metis grows_def map_le_def domI)
    ultimately show ?thesis using t(2) i by (simp add: Config_Find_def grows_def)
  qed
  ultimately show ?thesis using t by blast
qed

text \<open>Two types: numbers that are written in decimal, and texts.\<close>

datatype sample_value = Num nat | Txt string

definition sample_has :: "string \<Rightarrow> sample_value \<Rightarrow> bool" where
  "sample_has ty v \<longleftrightarrow> (case v of Num _ \<Rightarrow> ty = ''int'' | Txt _ \<Rightarrow> ty = ''string'')"

definition sample_casts :: "sample_value casts" where
  "sample_casts = \<lparr>FromStr = \<lambda>ty t. if ty = ''int'' then (if t \<noteq> [] \<and> list_all is_digit t then Some (Num (read_dec t)) else None)
       else if ty = ''string'' then Some (Txt t) else None,
     ToStr = \<lambda>ty v. case v of Num n \<Rightarrow> Some (show_nat n) | Txt t \<Rightarrow> Some t\<rparr>"

lemma sample_casts_ok: "casts_ok sample_has sample_casts"
  by (auto simp: casts_ok_def sample_has_def sample_casts_def split: if_splits)

theorem config_types_witness:
  "\<exists>(s :: (sample_value, unit) config) (t :: (sample_value, unit) config). Config_Find ''int'' ''tcp.port'' s = Some 0 \<and> Config_Find ''int'' ''tcp.port'' t = Some 0
     \<and> getValue 0 t = Num 80 \<and> sample_has ''int'' (getValue 0 t)"
proof -
  let ?c0 = "new_Config () :: (sample_value, unit) config"
  let ?s = "?c0\<lparr>cf_vars := [new_ConfigVar ''int'' ''tcp.port'' (Num 8080) ''''], cf_datas := [''tcp.port'' \<mapsto> 0]\<rparr>"
  let ?t = "snd (fromString sample_casts 0 ''80'' ?s)"
  have "name_valid ''tcp.port''" by (simp add: name_valid_def name_chars_def)
  then have "Config_Lookup ''int'' ''tcp.port'' (Num 8080) '''' ?c0 = Inr (Some 0, ?s)"
    by (simp add: Config_Lookup_def new_Config_def)
  then have "config_step sample_has undefined sample_casts ?c0 ?s" by (rule look_up) (simp add: sample_has_def)
  then have s: "(config_step sample_has undefined sample_casts)\<^sup>*\<^sup>* ?c0 ?s" by (rule r_into_rtranclp)
  have "config_step sample_has undefined sample_casts ?s ?t" by (rule from_text) simp
  then have t: "(config_step sample_has undefined sample_casts)\<^sup>*\<^sup>* ?s ?t" by (rule r_into_rtranclp)
  have f: "Config_Find ''int'' ''tcp.port'' ?s = Some 0" by (simp add: Config_Find_def new_ConfigVar_def)
  have "read_dec ''80'' = 80" "list_all is_digit ''80''" by code_simp+
  then have v: "getValue 0 ?t = Num 80"
    by (simp add: getValue_def fromString_def setValue_def sample_casts_def new_ConfigVar_def upd_var_def Let_def)
  from config_types [OF sample_casts_ok s t] f
  have "Config_Find ''int'' ''tcp.port'' ?t = Some 0" "sample_has ''int'' (getValue 0 ?t)" by blast+
  then show ?thesis using f v by (intro exI [of _ ?s] exI [of _ ?t] conjI)
qed

section \<open>Loading a document\<close>

text \<open>
  The members of a finite document: the nodes with their dotted names, in the order of the walk; what is below a name with a character
  that is not allowed is left out.
\<close>

inductive members :: "'n yaml \<Rightarrow> string \<Rightarrow> 'n \<Rightarrow> (string \<times> 'n) list \<Rightarrow> bool"
  and members_all :: "'n yaml \<Rightarrow> string \<Rightarrow> (string \<times> 'n) list \<Rightarrow> (string \<times> 'n) list \<Rightarrow> bool"
  for y where
  refused: "\<not> name_valid p \<Longrightarrow> members y p n []"
| leaf: "name_valid p \<Longrightarrow> \<not> IsMap y n \<Longrightarrow> members y p n [(p, n)]"
| inner: "name_valid p \<Longrightarrow> IsMap y n \<Longrightarrow> members_all y p (entries y n) ms \<Longrightarrow> members y p n ((p, n) # ms)"
| none: "members_all y p [] []"
| more: "members y (join_name p k) n ms \<Longrightarrow> members_all y p es ns \<Longrightarrow> members_all y p ((k, n) # es) (ms @ ns)"

lemma members_listed:
  "members y p n ms \<Longrightarrow> members_run y (Inl (p, n)) acc = Some (acc @ ms)"
  "members_all y p es ms \<Longrightarrow> members_run y (Inr (p, es)) acc = Some (acc @ ms)"
proof (induction arbitrary: acc and acc rule: members_members_all.inducts)
  case (refused p n)
  then show ?case by (subst members_run.simps) simp
next
  case (leaf p n)
  then show ?case by (subst members_run.simps) simp
next
  case (inner p n ms)
  then show ?case by (subst members_run.simps) simp
next
  case (none p)
  then show ?case by (subst members_run.simps) simp
next
  case (more p k n ms es ns)
  then show ?case by (subst members_run.simps) simp
qed

lemma members_valid:
  "members y p n ms \<Longrightarrow> \<forall>(k, _)\<in>set ms. name_valid k"
  "members_all y p es ms \<Longrightarrow> \<forall>(k, _)\<in>set ms. name_valid k"
  by (induction rule: members_members_all.inducts) auto

definition node_text :: "'n yaml \<Rightarrow> 'n \<Rightarrow> string" where
  "node_text y n = (if IsScalar y n then Scalar y n else show_node y n)"

definition no_throw :: "('v, 'w) config \<Rightarrow> bool" where
  "no_throw s \<longleftrightarrow> (\<forall>x\<in>set (cf_vars s). \<forall>cb\<in>set (cv_cbs x). \<forall>old new w. fst (snd cb old new w))"

text \<open>The value that a text gives a variable.\<close>

definition loaded :: "'v casts \<Rightarrow> ('v, 'w) config_var \<Rightarrow> string \<Rightarrow> 'v" where
  "loaded c x t = (case FromStr c (cv_type x) t of Some v \<Rightarrow> v | None \<Rightarrow> cv_val x)"

lemma call_all_quiet: "\<forall>cb\<in>set cbs. \<forall>old new w. fst (snd cb old new w) \<Longrightarrow> fst (call_all cbs old v w)"
  by (induction cbs arbitrary: w) (auto split: prod.splits simp: prod_eq_iff)

lemma fromString_quiet:
  assumes "no_throw s" and "i < length (cf_vars s)"
  shows "cf_datas (snd (fromString c i t s)) = cf_datas s
    \<and> cf_vars (snd (fromString c i t s)) = (cf_vars s)[i := (cf_vars s ! i)\<lparr>cv_val := loaded c (cf_vars s ! i) t\<rparr>]"
proof (cases "FromStr c (cv_type (cf_vars s ! i)) t")
  case None
  then show ?thesis by (simp add: fromString_def loaded_def)
next
  case (Some v)
  have "\<forall>cb\<in>set (cv_cbs (cf_vars s ! i)). \<forall>old new w. fst (snd cb old new w)" using assms(1) nth_mem [OF assms(2)] unfolding no_throw_def by blast
  from call_all_quiet [OF this] have "fst (call_all (cv_cbs (cf_vars s ! i)) (cv_val (cf_vars s ! i)) v (cf_world s))" .
  then obtain w1 where "call_all (cv_cbs (cf_vars s ! i)) (cv_val (cf_vars s ! i)) v (cf_world s) = (True, w1)" by (metis prod.collapse)
  then show ?thesis using Some by (auto simp: fromString_def loaded_def setValue_def upd_var_def Let_def)
qed

lemma no_throw_update: "no_throw s \<Longrightarrow> i < length (cf_vars s) \<Longrightarrow> cf_vars t = (cf_vars s)[i := (cf_vars s ! i)\<lparr>cv_val := v\<rparr>] \<Longrightarrow> no_throw t"
proof -
  assume a: "no_throw s" "i < length (cf_vars s)" "cf_vars t = (cf_vars s)[i := (cf_vars s ! i)\<lparr>cv_val := v\<rparr>]"
  have "cv_cbs x \<in> cv_cbs ` set (cf_vars s)" if "x \<in> set (cf_vars t)" for x
    using that a(2,3) set_update_subset_insert [of "cf_vars s" i "(cf_vars s ! i)\<lparr>cv_val := v\<rparr>"] nth_mem [OF a(2)] by auto
  then show "no_throw t" using a(1) by (fastforce simp: no_throw_def)
qed

definition reg_ok :: "('v, 'w) config \<Rightarrow> bool" where
  "reg_ok s \<longleftrightarrow> (\<forall>n i. cf_datas s n = Some i \<longrightarrow> i < length (cf_vars s)) \<and> inj_on (cf_datas s) (dom (cf_datas s))"

lemma load_nodes_values:
  "no_throw s \<Longrightarrow> reg_ok s \<Longrightarrow> distinct (map fst ms) \<Longrightarrow> \<forall>(k, _)\<in>set ms. name_valid k \<Longrightarrow>
   cf_datas (fold (load_node y c) ms s) = cf_datas s \<and> length (cf_vars (fold (load_node y c) ms s)) = length (cf_vars s)
   \<and> (\<forall>n i. cf_datas s n = Some i \<longrightarrow> cf_vars (fold (load_node y c) ms s) ! i =
        (case map_of ms n of Some d \<Rightarrow> if n = [] then cf_vars s ! i else (cf_vars s ! i)\<lparr>cv_val := loaded c (cf_vars s ! i) (node_text y d)\<rparr>
          | None \<Rightarrow> cf_vars s ! i))"
proof (induction ms arbitrary: s)
  case (Cons m ms)
  obtain k d where m: "m = (k, d)" by (cases m)
  let ?u = "load_node y c m s"
  have low: "ToLower k = k" using valid_lower Cons.prems(4) m by auto
  have u: "no_throw ?u \<and> cf_datas ?u = cf_datas s \<and> length (cf_vars ?u) = length (cf_vars s) \<and>
    (\<forall>n i. cf_datas s n = Some i \<longrightarrow> cf_vars ?u ! i =
        (if n = k \<and> k \<noteq> [] then (cf_vars s ! i)\<lparr>cv_val := loaded c (cf_vars s ! i) (node_text y d)\<rparr> else cf_vars s ! i))"
  proof (cases "k = [] \<or> cf_datas s k = None")
    case True
    then have "?u = s" using low m by (auto simp: load_node_def LookupBase_def)
    then show ?thesis using True Cons.prems(1) by auto
  next
    case False
    then obtain i where i: "cf_datas s k = Some i" "k \<noteq> []" by blast
    then have l: "i < length (cf_vars s)" using Cons.prems(2) by (simp add: reg_ok_def)
    have e: "?u = snd (fromString c i (node_text y d) s)" using i low m by (simp add: load_node_def LookupBase_def node_text_def)
    have v: "cf_datas ?u = cf_datas s" "cf_vars ?u = (cf_vars s)[i := (cf_vars s ! i)\<lparr>cv_val := loaded c (cf_vars s ! i) (node_text y d)\<rparr>]"
      using fromString_quiet [OF Cons.prems(1) l] e by simp_all
    have "cf_vars ?u ! j = (if n = k \<and> k \<noteq> [] then (cf_vars s ! j)\<lparr>cv_val := loaded c (cf_vars s ! j) (node_text y d)\<rparr> else cf_vars s ! j)"
      if n: "cf_datas s n = Some j" for n j
    proof (cases "n = k")
      case True
      then show ?thesis using n i l v(2) by simp
    next
      case False
      have "j \<noteq> i"
      proof
        assume "j = i"
        then have "cf_datas s n = cf_datas s k" using n i(1) by simp
        then show False using False n i(1) Cons.prems(2) unfolding reg_ok_def by (meson inj_onD domI)
      qed
      then show ?thesis using False v(2) by simp
    qed
    then show ?thesis using v no_throw_update [OF Cons.prems(1) l v(2)] by simp
  qed
  then have "reg_ok ?u" using Cons.prems(2) by (simp add: reg_ok_def)
  moreover have "distinct (map fst ms)" "\<forall>(k, _)\<in>set ms. name_valid k" "k \<notin> fst ` set ms" using Cons.prems(3,4) m by auto
  moreover have "map_of ms k = None" using calculation(4) by (simp add: map_of_eq_None_iff)
  ultimately show ?case using Cons.IH [of ?u] u m by (auto split: option.splits)
qed simp

text \<open>
  Property C30. Loading a finite document returns, registers nothing, and gives every variable whose name is the dotted name of a node
  the value of the node's text: the scalar itself, or the printed subtree. A text that the type of the variable does not accept
  leaves its value, as do names that no node has; nodes below a key with a character that is not allowed, the digit nine
  among them, are not looked at.
\<close>

theorem LoadFromYaml_values:
  assumes "members y [] root ms" and "distinct (map fst ms)" and "no_throw s" and "reg_ok s"
  shows "\<exists>t. LoadFromYaml y c root s = Some t \<and> cf_datas t = cf_datas s
    \<and> (\<forall>n i. cf_datas s n = Some i \<longrightarrow> getValue i t =
        (case map_of ms n of Some d \<Rightarrow> if n = [] then getValue i s else loaded c (cf_vars s ! i) (node_text y d) | None \<Rightarrow> getValue i s))
    \<and> (\<forall>n. CHR ''9'' \<in> set n \<longrightarrow> map_of ms n = None)"
proof -
  have v: "\<forall>(k, _)\<in>set ms. name_valid k" by (rule members_valid(1) [OF assms(1)])
  have "LoadFromYaml y c root s = Some (fold (load_node y c) ms s)"
    using members_listed(1) [OF assms(1), of "[]"] by (simp add: LoadFromYaml_def ListAllMember_def)
  moreover have "map_of ms n = None" if "CHR ''9'' \<in> set n" for n
  proof -
    have "CHR ''9'' \<notin> set name_chars" by code_simp
    then have "\<not> name_valid n" using that unfolding name_valid_def by blast
    then have "(n, d) \<notin> set ms" for d using v by fast
    then show ?thesis using map_of_SomeD [of ms n] by (cases "map_of ms n") simp_all
  qed
  moreover have "getValue i (fold (load_node y c) ms s)
      = (case map_of ms n of Some d \<Rightarrow> if n = [] then getValue i s else loaded c (cf_vars s ! i) (node_text y d) | None \<Rightarrow> getValue i s)"
    if "cf_datas s n = Some i" for n i
  proof -
    have "cf_vars (fold (load_node y c) ms s) ! i =
        (case map_of ms n of Some d \<Rightarrow> if n = [] then cf_vars s ! i else (cf_vars s ! i)\<lparr>cv_val := loaded c (cf_vars s ! i) (node_text y d)\<rparr>
          | None \<Rightarrow> cf_vars s ! i)" using load_nodes_values [OF assms(3,4,2) v, of y c] that by blast
    then show ?thesis by (cases "map_of ms n") (simp_all add: getValue_def)
  qed
  moreover have "cf_datas (fold (load_node y c) ms s) = cf_datas s" using load_nodes_values [OF assms(3,4,2) v, of y c] by blast
  ultimately show ?thesis by blast
qed

text \<open>A document in memory.\<close>

datatype doc = Scl string | Mp "(string \<times> doc) list"

definition doc_yaml :: "doc yaml" where
  "doc_yaml = \<lparr>IsMap = \<lambda>d. case d of Mp _ \<Rightarrow> True | Scl _ \<Rightarrow> False, IsScalar = \<lambda>d. case d of Scl _ \<Rightarrow> True | Mp _ \<Rightarrow> False,
     Scalar = \<lambda>d. case d of Scl s \<Rightarrow> s | Mp _ \<Rightarrow> [], entries = \<lambda>d. case d of Mp es \<Rightarrow> es | Scl _ \<Rightarrow> [], show_node = \<lambda>d. ''{}''\<rparr>"

lemma doc_simps [simp]: "IsMap doc_yaml (Mp es)" "\<not> IsMap doc_yaml (Scl s)" "entries doc_yaml (Mp es) = es" "node_text doc_yaml (Scl s) = s"
  by (simp_all add: doc_yaml_def node_text_def)

lemma one_leaf:
  "name_valid (join_name p k) \<Longrightarrow> members_all y p es ns \<Longrightarrow> \<not> IsMap y n \<Longrightarrow> members_all y p ((k, n) # es) ((join_name p k, n) # ns)"
  using more [OF leaf, of p k y n es ns] by simp

lemma one_refused: "\<not> name_valid (join_name p k) \<Longrightarrow> members_all y p es ns \<Longrightarrow> members_all y p ((k, n) # es) ns"
  using more [OF refused, of p k y es ns n] by simp

theorem LoadFromYaml_values_witness:
  "\<exists>(s :: (sample_value, unit) config) t. getValue 0 s = Num 8080
     \<and> LoadFromYaml doc_yaml sample_casts (Mp [(''tcp'', Mp [(''port'', Scl ''80''), (''h9'', Scl ''1'')])]) s = Some t \<and> getValue 0 t = Num 80"
proof -
  let ?s = "(new_Config () :: (sample_value, unit) config)\<lparr>cf_vars := [new_ConfigVar ''int'' ''tcp.port'' (Num 8080) ''''], cf_datas := [''tcp.port'' \<mapsto> 0]\<rparr>"
  let ?in = "Mp [(''port'', Scl ''80''), (''h9'', Scl ''1'')]" and ?ms = "[(''tcp.port'', Scl ''80'')]"
  let ?root = "Mp [(''tcp'', ?in)]"
  have valid: "name_valid []" "name_valid ''tcp''" "name_valid ''tcp.port''" "\<not> name_valid ''tcp.h9''" by (simp_all add: name_valid_def name_chars_def)
  have "members_all doc_yaml ''tcp'' [(''port'', Scl ''80''), (''h9'', Scl ''1'')] ?ms"
    using one_leaf [OF _ one_refused [OF _ none], of "''tcp''" "''port''" "''h9''" doc_yaml "Scl ''80''" "Scl ''1''"] valid by (simp add: join_name_def)
  then have "members doc_yaml ''tcp'' ?in ((''tcp'', ?in) # ?ms)" using inner [of "''tcp''" doc_yaml ?in ?ms] valid by simp
  then have "members_all doc_yaml [] [(''tcp'', ?in)] (((''tcp'', ?in) # ?ms) @ [])"
    using more [OF _ none, of doc_yaml "[]" "''tcp''" ?in "(''tcp'', ?in) # ?ms"] by (simp add: join_name_def)
  then have m: "members doc_yaml [] ?root (([], ?root) # (''tcp'', ?in) # ?ms)" using inner [of "[]" doc_yaml ?root] valid by simp
  have d: "distinct (map fst (([], ?root) # (''tcp'', ?in) # ?ms))" by simp
  have q: "no_throw ?s" "reg_ok ?s" by (simp_all add: no_throw_def reg_ok_def new_ConfigVar_def)
  from LoadFromYaml_values [OF m d q, of sample_casts] obtain t where
    t: "LoadFromYaml doc_yaml sample_casts ?root ?s = Some t" "getValue 0 t = loaded sample_casts (cf_vars ?s ! 0) ''80''" by auto
  have "read_dec ''80'' = 80" "list_all is_digit ''80''" by code_simp+
  then have "getValue 0 t = Num 80" "getValue 0 ?s = Num 8080"
    using t(2) by (simp_all add: loaded_def sample_casts_def new_ConfigVar_def getValue_def)
  then show ?thesis using t(1) by blast
qed

section \<open>Loading a directory again\<close>

lemma load_node_times: "cf_times (load_node y c p s) = cf_times s"
  by (auto simp: load_node_def fromString_def setValue_def upd_var_def Let_def split: option.splits prod.splits)

lemma load_nodes_times: "cf_times (fold (load_node y c) ps s) = cf_times s"
  by (induction ps arbitrary: s) (simp_all add: load_node_times)

lemma load_file_times:
  "load_file y c mtime LoadFile force i s = Some t \<Longrightarrow> cf_times t = (cf_times s)(i := mtime (cf_world s) i)"
  by (auto simp: load_file_def Let_def LoadFromYaml_def load_nodes_times split: if_splits option.splits)

lemma load_files_times:
  assumes "\<And>w i. mtime w i = tm i"
  shows "load_files y c mtime LoadFile force is s = Some t \<Longrightarrow> cf_times t = (\<lambda>i. if i \<in> set is then tm i else cf_times s i)"
proof (induction "is" arbitrary: s)
  case (Cons i "is")
  then obtain u where u: "load_file y c mtime LoadFile force i s = Some u" "load_files y c mtime LoadFile force is u = Some t"
    by (auto simp: bind_eq_Some_conv)
  from Cons.IH [OF u(2)] load_file_times [OF u(1)] show ?case by (auto simp: assms fun_eq_iff)
qed simp

lemma load_files_skip:
  assumes "\<And>w i. mtime w i = tm i"
  shows "\<forall>i\<in>set is. cf_times s i = tm i \<Longrightarrow> load_files y c mtime LoadFile False is s = Some s"
  by (induction "is") (simp_all add: load_file_def assms)

text \<open>
  A directory that was loaded and has not changed is not read again without force: the second load returns and changes nothing
  at all. This holds for the files that could not be parsed, too, and for a file whose time of modification is zero it
  holds already the first time.
\<close>

theorem unchanged_files_skipped:
  assumes "\<And>w i. mtime w i = tm i" and "\<And>w. ListAllFile fs [] (getAbsolutePath path e) ''.yml'' w = Some files"
    and "LoadFromConfDir fs y c mtime LoadFile e path force s = Some t"
  shows "LoadFromConfDir fs y c mtime LoadFile e path False t = Some t
    \<and> (tm i = 0 \<and> cf_times s i = 0 \<longrightarrow> load_file y c mtime LoadFile False i s = Some s)"
proof -
  have "load_files y c mtime LoadFile force files s = Some t" using assms(2,3) by (simp add: LoadFromConfDir_def)
  from load_files_times [OF assms(1) this] have "\<forall>i\<in>set files. cf_times t i = tm i" by simp
  from load_files_skip [where mtime = mtime and tm = tm, OF assms(1) this, of y c LoadFile] show ?thesis
    using assms(1,2) by (simp only: LoadFromConfDir_def bind.bind_lunit load_file_def) (simp add: Let_def)
qed

theorem unchanged_files_skipped_witness:
  "\<exists>t. LoadFromConfDir sample_calls doc_yaml sample_casts (\<lambda>_ _. 7) (\<lambda>_ _. None) new_Env ''/c'' False (new_Config ()) = Some t
     \<and> LoadFromConfDir sample_calls doc_yaml sample_casts (\<lambda>_ _. 7) (\<lambda>_ _. None) new_Env ''/c'' False t = Some t \<and> cf_times t ''/c/a.yml'' = 7"
proof -
  let ?t = "(new_Config () :: (sample_value, unit) config)\<lparr>cf_times := (\<lambda>_. 0)(''/c/a.yml'' := 7, ''/c/d/b.yml'' := 7)\<rparr>"
  have f: "ListAllFile sample_calls [] (getAbsolutePath ''/c'' new_Env) ''.yml'' w = Some [''/c/a.yml'', ''/c/d/b.yml'']" for w
    using list_run_tree [of sample_calls w "''/c''" "[(''a.yml'', Reg), (''d'', Dir [(''b.yml'', Reg), (''s.yml'', Special)]), (''n.txt'', Reg)]" "''.yml''" "[]" "[]"]
    by (simp add: ListAllFile_def getAbsolutePath_def sample_calls_def child_def slash_def no_dots_def dots_def entries_of_def tree_kind_def has_subfix_def)
  have l: "LoadFromConfDir sample_calls doc_yaml sample_casts (\<lambda>_ _. 7) (\<lambda>_ _. None) new_Env ''/c'' False (new_Config ()) = Some ?t"
    by (simp add: LoadFromConfDir_def f load_file_def new_Config_def Let_def)
  from unchanged_files_skipped [where tm = "\<lambda>_. 7", OF refl f l] l show ?thesis by (intro exI [of _ ?t]) simp
qed

end
