(* ===== verification/LogFormat.thy ===== *)
theory LogFormat
  imports Text
begin

text \<open>
  The levels, the events and the formatter of \<^verbatim>\<open>base/log.cc\<close>: \<^verbatim>\<open>LogFormatter::init\<close> with its two loops, the table of items, and what
  each item prints. The lemmas follow the loops over a pattern that is built from literal text and items, and over the
  two kinds of patterns that are refused.
\<close>

section \<open>Levels and events\<close>

text \<open>The enumerators in the order of their values; \<open>level_num\<close> is the value.\<close>

datatype log_level = LV_UNKNOW | LV_DEBUG | LV_INFO | LV_WARN | LV_ERROR | LV_FATAL

primrec level_num :: "log_level \<Rightarrow> nat" where
  "level_num LV_UNKNOW = 0" | "level_num LV_DEBUG = 1" | "level_num LV_INFO = 2"
| "level_num LV_WARN = 3" | "level_num LV_ERROR = 4" | "level_num LV_FATAL = 5"

instantiation log_level :: linorder
begin

definition less_eq_log_level :: "log_level \<Rightarrow> log_level \<Rightarrow> bool" where
  "less_eq_log_level a b \<longleftrightarrow> level_num a \<le> level_num b"

definition less_log_level :: "log_level \<Rightarrow> log_level \<Rightarrow> bool" where
  "less_log_level a b \<longleftrightarrow> level_num a < level_num b"

instance
proof
  fix a b :: log_level
  show "a \<le> b \<Longrightarrow> b \<le> a \<Longrightarrow> a = b" by (cases a; cases b; simp add: less_eq_log_level_def)
qed (auto simp: less_eq_log_level_def less_log_level_def)

end

definition LogLevel_ToString :: "log_level \<Rightarrow> string" where
  "LogLevel_ToString level = (case level of
     LV_DEBUG \<Rightarrow> ''DEBUG'' | LV_INFO \<Rightarrow> ''INFO'' | LV_WARN \<Rightarrow> ''WARN'' | LV_ERROR \<Rightarrow> ''ERROR'' | LV_FATAL \<Rightarrow> ''FATAL''
   | LV_UNKNOW \<Rightarrow> ''UNKNOW'')"

definition LogLevel_FromString :: "string \<Rightarrow> log_level" where
  "LogLevel_FromString str =
     (if str = ''debug'' then LV_DEBUG else if str = ''info'' then LV_INFO else if str = ''warn'' then LV_WARN
      else if str = ''error'' then LV_ERROR else if str = ''fatal'' then LV_FATAL
      else if str = ''DEBUG'' then LV_DEBUG else if str = ''INFO'' then LV_INFO else if str = ''WARN'' then LV_WARN
      else if str = ''ERROR'' then LV_ERROR else if str = ''FATAL'' then LV_FATAL else LV_UNKNOW)"

lemma level_text: "LogLevel_FromString (LogLevel_ToString l) = l"
  by (cases l) (simp_all add: LogLevel_FromString_def LogLevel_ToString_def)

lemma unknown_least: "LV_UNKNOW \<le> l"
  by (simp add: less_eq_log_level_def)

record log_event =
  ev_file :: string
  ev_line :: "32 word"
  ev_elapse :: u32
  ev_threadId :: u32
  ev_fiberId :: u32
  ev_time :: u64
  ev_threadName :: string
  ev_ss :: string
  ev_level :: log_level

text \<open>
  The event of the macro \<^verbatim>\<open>LOG_LEVEL\<close>: the identifier of the fiber is cut to 32 bits by the constructor.
\<close>

definition new_LogEvent :: "log_level \<Rightarrow> string \<Rightarrow> 32 word \<Rightarrow> u32 \<Rightarrow> u32 \<Rightarrow> u32 \<Rightarrow> u64 \<Rightarrow> string \<Rightarrow> log_event" where
  "new_LogEvent level file line elapse thread_id fiber_id time thread_name =
     \<lparr>ev_file = file, ev_line = line, ev_elapse = elapse, ev_threadId = thread_id, ev_fiberId = fiber_id, ev_time = time,
      ev_threadName = thread_name, ev_ss = '''', ev_level = level\<rparr>"

section \<open>The items of a format\<close>

datatype format_item =
    MessageItem | LevelItem | ElapseItem | NameItem | ThreadIdItem | NewLineItem | DateTimeItem string
  | FilenameItem | LineItem | TabItem | FiberIdItem | ThreadNameItem | StringItem string

text \<open>
  \<open>date\<close> is what \<^verbatim>\<open>localtime_r\<close> and \<^verbatim>\<open>strftime\<close> of the C library leave in the buffer of 64 bytes for a format and a time;
  \<open>name\<close> is the name of the logger.
\<close>

definition item_format :: "(string \<Rightarrow> u64 \<Rightarrow> string) \<Rightarrow> string \<Rightarrow> log_level \<Rightarrow> log_event \<Rightarrow> format_item \<Rightarrow> string" where
  "item_format date name level ev i = (case i of
     MessageItem \<Rightarrow> ev_ss ev
   | LevelItem \<Rightarrow> LogLevel_ToString level
   | ElapseItem \<Rightarrow> show_nat (unat (ev_elapse ev))
   | NameItem \<Rightarrow> name
   | ThreadIdItem \<Rightarrow> show_nat (unat (ev_threadId ev))
   | FiberIdItem \<Rightarrow> show_nat (unat (ev_fiberId ev))
   | ThreadNameItem \<Rightarrow> ev_threadName ev
   | DateTimeItem f \<Rightarrow> date f (ev_time ev)
   | FilenameItem \<Rightarrow> ev_file ev
   | LineItem \<Rightarrow> show_int (sint (ev_line ev))
   | NewLineItem \<Rightarrow> [CHR 0x0A]
   | TabItem \<Rightarrow> [CHR 0x09]
   | StringItem s \<Rightarrow> s)"

definition default_date :: string where "default_date = ''%Y-%m-%d %H:%M:%S''"

definition new_DateTimeItem :: "string \<Rightarrow> format_item" where
  "new_DateTimeItem f = DateTimeItem (if f = [] then default_date else f)"

text \<open>The table \<^verbatim>\<open>s_format_items\<close>: what \<^verbatim>\<open>find\<close> on it and the constructor it holds give.\<close>

definition s_format_items :: "string \<Rightarrow> (string \<Rightarrow> format_item) option" where
  "s_format_items str =
     (if str = ''m'' then Some (\<lambda>_. MessageItem) else if str = ''p'' then Some (\<lambda>_. LevelItem)
      else if str = ''r'' then Some (\<lambda>_. ElapseItem) else if str = ''c'' then Some (\<lambda>_. NameItem)
      else if str = ''t'' then Some (\<lambda>_. ThreadIdItem) else if str = ''n'' then Some (\<lambda>_. NewLineItem)
      else if str = ''d'' then Some new_DateTimeItem else if str = ''f'' then Some (\<lambda>_. FilenameItem)
      else if str = ''l'' then Some (\<lambda>_. LineItem) else if str = ''T'' then Some (\<lambda>_. TabItem)
      else if str = ''F'' then Some (\<lambda>_. FiberIdItem) else if str = ''N'' then Some (\<lambda>_. ThreadNameItem)
      else None)"

section \<open>Parsing a pattern\<close>

definition is_alpha :: "char \<Rightarrow> bool" where "is_alpha c \<longleftrightarrow> is_upper c \<or> is_lower c"

text \<open>
  The inner loop of \<^verbatim>\<open>LogFormatter::init\<close>, from the character behind the percent sign at \<open>i\<close>: the position, the status,
  the start of the braces, and the two strings.
\<close>

function item_loop :: "string \<Rightarrow> nat \<Rightarrow> nat \<Rightarrow> bool \<Rightarrow> nat \<Rightarrow> string \<Rightarrow> string \<Rightarrow> nat \<times> bool \<times> string \<times> string" where
  "item_loop pattern i n fmt_status fmt_begin str fmt =
     (if n < length pattern then
        if \<not> fmt_status \<and> \<not> is_alpha (pattern ! n) \<and> pattern ! n \<noteq> CHR ''{'' \<and> pattern ! n \<noteq> CHR ''}''
        then (n, fmt_status, substr (i + 1) (n - i - 1) pattern, fmt)
        else if \<not> fmt_status \<and> pattern ! n = CHR ''{''
        then item_loop pattern i (n + 1) True n (substr (i + 1) (n - i - 1) pattern) fmt
        else if fmt_status \<and> pattern ! n = CHR ''}''
        then (n + 1, False, str, substr (fmt_begin + 1) (n - fmt_begin - 1) pattern)
        else item_loop pattern i (n + 1) fmt_status fmt_begin
               (if n + 1 = length pattern \<and> str = [] then drop (i + 1) pattern else str) fmt
      else (n, fmt_status, str, fmt))"
  by pat_completeness auto
termination by (relation "measure (\<lambda>(p, i, n, _). length p - n)") auto

declare item_loop.simps [simp del]

lemma item_loop_forward: "n \<le> fst (item_loop p i n st b s f)"
proof (induction p i n st b s f rule: item_loop.induct)
  case (1 p i n st b s f)
  show ?case by (subst item_loop.simps) (use 1 in \<open>auto simp: Let_def\<close>)
qed

type_synonym piece = "string \<times> string \<times> nat"

definition flush :: "string \<Rightarrow> piece list" where
  "flush nstr = (if nstr = [] then [] else [(nstr, [], 0)])"

definition pattern_error :: string where "pattern_error = ''<<pattern_error>>''"

text \<open>The outer loop: the position, the literal text so far, the pieces so far and the error flag.\<close>

function pattern_loop :: "string \<Rightarrow> nat \<Rightarrow> string \<Rightarrow> piece list \<Rightarrow> bool \<Rightarrow> piece list \<times> bool" where
  "pattern_loop pattern i nstr vec err =
     (if i < length pattern then
        if pattern ! i \<noteq> CHR ''%'' then pattern_loop pattern (i + 1) (nstr @ [pattern ! i]) vec err
        else if i + 1 < length pattern \<and> pattern ! (i + 1) = CHR ''%''
        then pattern_loop pattern (i + 1) (nstr @ [CHR ''%'']) vec err
        else (case item_loop pattern i (i + 1) False 0 [] [] of (n, fmt_status, str, fmt) \<Rightarrow>
          if \<not> fmt_status then pattern_loop pattern n [] (vec @ flush nstr @ [(str, fmt, 1)]) err
          else pattern_loop pattern (i + 1) nstr (vec @ [(pattern_error, fmt, 0)]) True)
      else (vec @ flush nstr, err))"
  by pat_completeness auto
termination
proof (relation "measure (\<lambda>(p, i, _). length p - i)", goal_cases)
  case (4 p i nstr vec err n)
  have "i + 1 \<le> fst (item_loop p i (i + 1) False 0 [] [])" by (rule item_loop_forward)
  then have "i + 1 \<le> n" by (simp only: 4(4) [symmetric] fst_conv)
  then show ?case using 4(1) by simp
qed auto

declare pattern_loop.simps [simp del]

section \<open>Formatters\<close>

record formatter =
  fm_pattern :: string
  fm_items :: "format_item list"
  fm_error :: bool

definition make_item :: "piece \<Rightarrow> format_item \<times> bool" where
  "make_item i = (case i of (str, fmt, kind) \<Rightarrow>
     if kind = 0 then (StringItem str, False)
     else (case s_format_items str of
        None \<Rightarrow> (StringItem (''<<error_format %'' @ str @ ''>>''), True)
      | Some mk \<Rightarrow> (mk fmt, False)))"

definition new_LogFormatter :: "string \<Rightarrow> formatter" where
  "new_LogFormatter pattern = (case pattern_loop pattern 0 [] [] False of (vec, err) \<Rightarrow>
     \<lparr>fm_pattern = pattern, fm_items = map (fst \<circ> make_item) vec, fm_error = err \<or> list_ex (snd \<circ> make_item) vec\<rparr>)"

definition LogFormatter_format :: "(string \<Rightarrow> u64 \<Rightarrow> string) \<Rightarrow> formatter \<Rightarrow> string \<Rightarrow> log_level \<Rightarrow> log_event \<Rightarrow> string" where
  "LogFormatter_format date fm name level ev = concat (map (item_format date name level ev) (fm_items fm))"

section \<open>What a pattern parses to\<close>

text \<open>A pattern as its author means it: literal text, items, and items with an argument in braces.\<close>

datatype spec = Lit string | Item char | Braced char string

primrec spec_text :: "spec \<Rightarrow> string" where
  "spec_text (Lit s) = s"
| "spec_text (Item c) = [CHR ''%'', c]"
| "spec_text (Braced c f) = CHR ''%'' # c # CHR ''{'' # f @ [CHR ''}'']"

definition pattern_of :: "spec list \<Rightarrow> string" where "pattern_of l = concat (map spec_text l)"

definition known :: "char \<Rightarrow> bool" where "known c \<longleftrightarrow> c \<in> set ''mprctndflTFN''"

definition spec_item :: "spec \<Rightarrow> format_item" where
  "spec_item s = (case s of Lit t \<Rightarrow> StringItem t | Item c \<Rightarrow> the (s_format_items [c]) [] | Braced c f \<Rightarrow> the (s_format_items [c]) f)"

text \<open>Where the name of an item ends: at the end, or at a character that is neither a letter nor a brace.\<close>

definition stops :: "string \<Rightarrow> bool" where
  "stops s \<longleftrightarrow> (case s of [] \<Rightarrow> True | c # _ \<Rightarrow> \<not> is_alpha c \<and> c \<noteq> CHR ''{'' \<and> c \<noteq> CHR ''}'')"

fun specs_ok :: "spec list \<Rightarrow> bool" where
  "specs_ok [] \<longleftrightarrow> True"
| "specs_ok (Lit s # l) \<longleftrightarrow> s \<noteq> [] \<and> CHR ''%'' \<notin> set s \<and> (case l of Lit _ # _ \<Rightarrow> False | _ \<Rightarrow> True) \<and> specs_ok l"
| "specs_ok (Item c # l) \<longleftrightarrow> known c \<and> stops (pattern_of l) \<and> specs_ok l"
| "specs_ok (Braced c f # l) \<longleftrightarrow> known c \<and> CHR ''}'' \<notin> set f \<and> specs_ok l"

lemma known_alpha: "known c \<Longrightarrow> is_alpha c \<and> c \<noteq> CHR ''%''"
  by (auto simp: known_def is_alpha_def is_upper_def is_lower_def)

lemma known_item: "known c \<Longrightarrow> s_format_items [c] \<noteq> None"
  by (auto simp: known_def s_format_items_def)

lemma nth_here [simp]: "(pre @ c # post) ! length pre = c"
  by (rule nth_append_length)

lemma pattern_literal:
  "CHR ''%'' \<notin> set s \<Longrightarrow> pattern_loop (pre @ s @ post) (length pre) nstr vec err
     = pattern_loop (pre @ s @ post) (length pre + length s) (nstr @ s) vec err"
proof (induction s arbitrary: pre nstr)
  case (Cons c s)
  have "pattern_loop (pre @ (c # s) @ post) (length pre) nstr vec err
      = pattern_loop ((pre @ [c]) @ s @ post) (length (pre @ [c])) (nstr @ [c]) vec err"
  proof -
    have "c \<noteq> CHR ''%''" using Cons.prems by auto
    then show ?thesis by (subst pattern_loop.simps) simp
  qed
  then show ?case using Cons.IH [of "pre @ [c]" "nstr @ [c]"] Cons.prems by simp
qed simp

lemma braces_loop:
  "CHR ''}'' \<notin> set f \<Longrightarrow> str \<noteq> [] \<Longrightarrow> item_loop (pre @ f @ CHR ''}'' # post) i (length pre) True b str fmt
     = (length pre + length f + 1, False, str, substr (b + 1) (length pre + length f - b - 1) (pre @ f @ CHR ''}'' # post))"
proof (induction f arbitrary: pre)
  case Nil
  then show ?case by (subst item_loop.simps) simp
next
  case (Cons c f)
  have "item_loop (pre @ (c # f) @ CHR ''}'' # post) i (length pre) True b str fmt
      = item_loop ((pre @ [c]) @ f @ CHR ''}'' # post) i (length (pre @ [c])) True b str fmt"
  proof -
    have "c \<noteq> CHR ''}''" using Cons.prems by auto
    then show ?thesis using Cons.prems by (subst item_loop.simps) simp
  qed
  then show ?case using Cons.IH [of "pre @ [c]"] Cons.prems by simp
qed

lemma item_name_loop:
  assumes "is_alpha c" and "stops post"
  shows "item_loop (pre @ CHR ''%'' # c # post) (length pre) (length pre + 1) False 0 [] [] = (length pre + 2, False, [c], [])"
proof -
  let ?p = "pre @ CHR ''%'' # c # post"
  have c: "c \<noteq> CHR ''{''" "c \<noteq> CHR ''}''" using assms(1) by (auto simp: is_alpha_def is_upper_def is_lower_def)
  have n: "?p ! Suc (length pre) = c" "?p ! (length pre + 2) = post ! 0" by (simp_all add: nth_append)
  have "item_loop ?p (length pre) (length pre + 1) False 0 [] []
      = item_loop ?p (length pre) (length pre + 2) False 0 (if post = [] then [c] else []) []"
    using assms(1) c n by (subst item_loop.simps) simp
  also have "\<dots> = (length pre + 2, False, [c], [])"
    using assms(2) n by (subst item_loop.simps) (auto simp: stops_def substr_def split: list.splits)
  finally show ?thesis .
qed

lemma item_braces_loop:
  assumes "is_alpha c" and "CHR ''}'' \<notin> set f"
  shows "item_loop (pre @ CHR ''%'' # c # CHR ''{'' # f @ CHR ''}'' # post) (length pre) (length pre + 1) False 0 [] []
    = (length pre + length f + 4, False, [c], f)"
proof -
  let ?p = "pre @ CHR ''%'' # c # CHR ''{'' # f @ CHR ''}'' # post"
  have c: "c \<noteq> CHR ''{''" "c \<noteq> CHR ''}''" using assms(1) by (auto simp: is_alpha_def is_upper_def is_lower_def)
  have n: "?p ! Suc (length pre) = c" "?p ! (length pre + 2) = CHR ''{''" by (simp_all add: nth_append)
  have "item_loop ?p (length pre) (length pre + 1) False 0 [] [] = item_loop ?p (length pre) (length pre + 2) False 0 [] []"
    using assms(1) c n by (subst item_loop.simps) simp
  also have "\<dots> = item_loop ?p (length pre) (length pre + 2 + 1) True (length pre + 2) [c] []"
    using n by (subst item_loop.simps) (simp add: substr_def is_alpha_def is_upper_def is_lower_def)
  also have "\<dots> = (length pre + length f + 4, False, [c], f)"
    using braces_loop [OF assms(2), of "[c]" "pre @ [CHR ''%'', c, CHR ''{'']" post "length pre" "length pre + 2" "[]"] by (simp add: substr_def)
  finally show ?thesis .
qed

lemma pattern_item:
  assumes "is_alpha c" and "stops post"
  shows "pattern_loop (pre @ CHR ''%'' # c # post) (length pre) nstr vec err
    = pattern_loop (pre @ CHR ''%'' # c # post) (length pre + 2) [] (vec @ flush nstr @ [([c], [], 1)]) err"
proof -
  have "c \<noteq> CHR ''%''" using assms(1) by (auto simp: is_alpha_def is_upper_def is_lower_def)
  then show ?thesis using item_name_loop [OF assms, of pre] by (subst pattern_loop.simps) (simp add: nth_append)
qed

lemma pattern_braces:
  assumes "is_alpha c" and "CHR ''}'' \<notin> set f"
  shows "pattern_loop (pre @ CHR ''%'' # c # CHR ''{'' # f @ CHR ''}'' # post) (length pre) nstr vec err
    = pattern_loop (pre @ CHR ''%'' # c # CHR ''{'' # f @ CHR ''}'' # post) (length (pre @ CHR ''%'' # c # CHR ''{'' # f @ [CHR ''}''])) [] (vec @ flush nstr @ [([c], f, 1)]) err"
proof -
  have "c \<noteq> CHR ''%''" using assms(1) by (auto simp: is_alpha_def is_upper_def is_lower_def)
  then show ?thesis using item_braces_loop [OF assms, of pre post] by (subst pattern_loop.simps) (simp add: nth_append eval_nat_numeral)
qed

text \<open>The pieces of a pattern.\<close>

primrec spec_piece :: "spec \<Rightarrow> piece" where
  "spec_piece (Lit s) = (s, [], 0)"
| "spec_piece (Item c) = ([c], [], 1)"
| "spec_piece (Braced c f) = ([c], f, 1)"

lemma pattern_of_simps: "pattern_of [] = []" "pattern_of (s # l) = spec_text s @ pattern_of l"
  by (simp_all add: pattern_of_def)

lemma pattern_end: "pattern_loop p (length p) nstr vec err = (vec @ flush nstr, err)"
  by (subst pattern_loop.simps) simp

lemma pattern_loop_specs:
  "specs_ok l \<Longrightarrow> nstr = [] \<or> (case l of Lit _ # _ \<Rightarrow> False | _ \<Rightarrow> True) \<Longrightarrow>
   pattern_loop (pre @ pattern_of l) (length pre) nstr vec err = (vec @ flush nstr @ map spec_piece l, err)"
proof (induction l arbitrary: pre nstr vec)
  case Nil
  then show ?case by (simp add: pattern_of_simps pattern_end)
next
  case (Cons s l)
  show ?case
  proof (cases s)
    case (Lit t)
    then have "CHR ''%'' \<notin> set t" "t \<noteq> []" "specs_ok l" "case l of Lit _ # _ \<Rightarrow> False | _ \<Rightarrow> True" "nstr = []" using Cons.prems by auto
    then show ?thesis
      using Lit pattern_literal [of t pre "pattern_of l" "[]" vec err] Cons.IH [of t "pre @ t" vec]
      by (simp add: pattern_of_simps flush_def)
  next
    case (Item c)
    then have c: "known c" "stops (pattern_of l)" "specs_ok l" using Cons.prems by auto
    then show ?thesis
      using Item pattern_item [of c "pattern_of l" pre nstr vec err] known_alpha [OF c(1)] Cons.IH [of "[]" "pre @ [CHR ''%'', c]"]
      by (simp add: pattern_of_simps flush_def)
  next
    case (Braced c f)
    then have c: "known c" "CHR ''}'' \<notin> set f" "specs_ok l" using Cons.prems by auto
    then show ?thesis
      using Braced pattern_braces [OF _ c(2), of c pre "pattern_of l" nstr vec err] known_alpha [OF c(1)]
        Cons.IH [of "[]" "pre @ spec_text (Braced c f)"]
      by (simp add: pattern_of_simps flush_def add.commute)
  qed
qed

lemma make_spec_item: "specs_ok [s] \<Longrightarrow> make_item (spec_piece s) = (spec_item s, False)"
  by (cases s) (auto simp: make_item_def spec_item_def dest!: known_item)

lemma specs_ok_each: "specs_ok l \<Longrightarrow> s \<in> set l \<Longrightarrow> make_item (spec_piece s) = (spec_item s, False)"
  by (induction l rule: specs_ok.induct) (auto simp: make_spec_item stops_def pattern_of_def make_item_def spec_item_def dest!: known_item)

text \<open>
  Property C32. A pattern of literal text, items and items with an argument in braces is parsed to exactly these items, in
  their order and without an error, and formatting an event concatenates what each of them prints.
\<close>

theorem pattern_items:
  assumes "specs_ok l"
  shows "new_LogFormatter (pattern_of l) = \<lparr>fm_pattern = pattern_of l, fm_items = map spec_item l, fm_error = False\<rparr>
    \<and> LogFormatter_format date (new_LogFormatter (pattern_of l)) name level ev = concat (map (item_format date name level ev \<circ> spec_item) l)"
proof -
  have "pattern_loop (pattern_of l) 0 [] [] False = (map spec_piece l, False)"
    using pattern_loop_specs [OF assms, of "[]" "[]" "[]" False] by (simp add: flush_def)
  moreover have "map (fst \<circ> make_item) (map spec_piece l) = map spec_item l" "\<not> list_ex (snd \<circ> make_item) (map spec_piece l)"
    using specs_ok_each [OF assms] by (auto simp: list_ex_iff)
  ultimately have "new_LogFormatter (pattern_of l) = \<lparr>fm_pattern = pattern_of l, fm_items = map spec_item l, fm_error = False\<rparr>"
    by (simp add: new_LogFormatter_def)
  then show ?thesis by (simp add: LogFormatter_format_def)
qed

definition default_pattern :: string where
  "default_pattern = ''%d{%Y-%m-%d %H:%M:%S}%T%t%T%N%T%F%T[%p]%T[%c]%T%f:%l%T%m%n''"

definition default_specs :: "spec list" where
  "default_specs = [Braced CHR ''d'' default_date, Item CHR ''T'', Item CHR ''t'', Item CHR ''T'', Item CHR ''N'', Item CHR ''T'', Item CHR ''F'',
     Item CHR ''T'', Lit ''['', Item CHR ''p'', Lit '']'', Item CHR ''T'', Lit ''['', Item CHR ''c'', Lit '']'', Item CHR ''T'', Item CHR ''f'', Lit '':'',
     Item CHR ''l'', Item CHR ''T'', Item CHR ''m'', Item CHR ''n'']"

theorem pattern_items_witness:
  "fm_items (new_LogFormatter default_pattern) = map spec_item default_specs \<and> \<not> fm_error (new_LogFormatter default_pattern)"
proof -
  have "specs_ok default_specs" by code_simp
  moreover have "pattern_of default_specs = default_pattern" by code_simp
  ultimately show ?thesis using pattern_items [of default_specs] by simp
qed

section \<open>Patterns that are refused\<close>

lemma open_braces_loop:
  "CHR ''}'' \<notin> set f \<Longrightarrow> str \<noteq> [] \<Longrightarrow> item_loop (pre @ f) i (length pre) True b str fmt = (length pre + length f, True, str, fmt)"
proof (induction f arbitrary: pre)
  case Nil
  then show ?case by (subst item_loop.simps) simp
next
  case (Cons c f)
  have "item_loop (pre @ (c # f)) i (length pre) True b str fmt = item_loop ((pre @ [c]) @ f) i (length (pre @ [c])) True b str fmt"
  proof -
    have "c \<noteq> CHR ''}''" using Cons.prems by auto
    then show ?thesis using Cons.prems by (subst item_loop.simps) simp
  qed
  then show ?case using Cons.IH [of "pre @ [c]"] Cons.prems by simp
qed

lemma item_open_loop:
  assumes "is_alpha c" and "CHR ''}'' \<notin> set f"
  shows "item_loop (pre @ CHR ''%'' # c # CHR ''{'' # f) (length pre) (length pre + 1) False 0 [] []
    = (length pre + length f + 3, True, [c], [])"
proof -
  let ?p = "pre @ CHR ''%'' # c # CHR ''{'' # f"
  have c: "c \<noteq> CHR ''{''" "c \<noteq> CHR ''}''" using assms(1) by (auto simp: is_alpha_def is_upper_def is_lower_def)
  have n: "?p ! Suc (length pre) = c" "?p ! (length pre + 2) = CHR ''{''" by (simp_all add: nth_append)
  have "item_loop ?p (length pre) (length pre + 1) False 0 [] [] = item_loop ?p (length pre) (length pre + 2) False 0 [] []"
    using assms(1) c n by (subst item_loop.simps) simp
  also have "\<dots> = item_loop ?p (length pre) (length pre + 2 + 1) True (length pre + 2) [c] []"
    using n by (subst item_loop.simps) (simp add: substr_def is_alpha_def is_upper_def is_lower_def)
  also have "\<dots> = (length pre + length f + 3, True, [c], [])"
    using open_braces_loop [OF assms(2), of "[c]" "pre @ [CHR ''%'', c, CHR ''{'']" "length pre" "length pre + 2" "[]"]
    by (simp add: eval_nat_numeral)
  finally show ?thesis .
qed

lemma pattern_two_percents:
  assumes "CHR ''%'' \<notin> set s"
  shows "pattern_loop (s @ ''%%'') 0 [] [] False = ([(s @ ''%'', [], 0), ([], [], 1)], False)"
proof -
  let ?p = "s @ ''%%''"
  have n: "?p ! length s = CHR ''%''" "?p ! Suc (length s) = CHR ''%''" by (simp_all add: nth_append)
  have i: "item_loop ?p (Suc (length s)) (Suc (Suc (length s))) False 0 [] [] = (length ?p, False, [], [])"
    by (subst item_loop.simps) simp
  have "pattern_loop ?p 0 [] [] False = pattern_loop ?p (length s) s [] False"
    using pattern_literal [OF assms, of "[]" "''%%''" "[]"] by simp
  also have "\<dots> = pattern_loop ?p (Suc (length s)) (s @ ''%'') [] False" using n by (subst pattern_loop.simps) simp
  also have "\<dots> = pattern_loop ?p (length ?p) [] (flush (s @ ''%'') @ [([], [], 1)]) False" using n i by (subst pattern_loop.simps) simp
  finally show ?thesis by (simp only: pattern_end) (simp add: flush_def)
qed

lemma pattern_open:
  assumes "CHR ''%'' \<notin> set s" "is_alpha c" "CHR ''}'' \<notin> set f" "CHR ''%'' \<notin> set f"
  shows "pattern_loop (s @ CHR ''%'' # c # CHR ''{'' # f) 0 [] [] False = ([(pattern_error, [], 0), (s @ c # CHR ''{'' # f, [], 0)], True)"
proof -
  let ?p = "s @ CHR ''%'' # c # CHR ''{'' # f"
  have c: "c \<noteq> CHR ''%''" using assms(2) by (auto simp: is_alpha_def is_upper_def is_lower_def)
  have n: "?p ! Suc (length s) = c" by (simp add: nth_append)
  have "pattern_loop ?p 0 [] [] False = pattern_loop ?p (length s) s [] False"
    using pattern_literal [OF assms(1), of "[]" "CHR ''%'' # c # CHR ''{'' # f" "[]"] by simp
  also have "\<dots> = pattern_loop ?p (Suc (length s)) s [(pattern_error, [], 0)] True"
    using n c item_open_loop [OF assms(2,3), of s] by (subst pattern_loop.simps) simp
  also have "\<dots> = pattern_loop ?p (length ?p) (s @ c # CHR ''{'' # f) [(pattern_error, [], 0)] True"
    using pattern_literal [of "c # CHR ''{'' # f" "s @ ''%''" "[]" s "[(pattern_error, [], 0)]" True] c assms(4) by simp
  finally show ?thesis by (simp only: pattern_end) (simp add: flush_def)
qed

text \<open>
  Two percent signs are not the escape that the comment in \<^verbatim>\<open>init\<close> promises: the second one is read again
  as the start of an item, so that a pattern ending in two of them is refused. An item whose brace is not closed is
  refused too, and the marker for it comes before the text that precedes it in the pattern.
\<close>

theorem formatter_errors:
  assumes "CHR ''%'' \<notin> set s"
  shows "new_LogFormatter (s @ ''%%'')
      = \<lparr>fm_pattern = s @ ''%%'', fm_items = [StringItem (s @ ''%''), StringItem ''<<error_format %>>''], fm_error = True\<rparr>
    \<and> (is_alpha c \<and> CHR ''}'' \<notin> set f \<and> CHR ''%'' \<notin> set f \<longrightarrow> new_LogFormatter (s @ CHR ''%'' # c # CHR ''{'' # f)
      = \<lparr>fm_pattern = s @ CHR ''%'' # c # CHR ''{'' # f, fm_items = [StringItem pattern_error, StringItem (s @ c # CHR ''{'' # f)], fm_error = True\<rparr>)"
  by (simp add: new_LogFormatter_def pattern_two_percents pattern_open assms make_item_def s_format_items_def)

theorem formatter_errors_witness:
  "fm_error (new_LogFormatter ''100%%'') \<and> fm_items (new_LogFormatter ''at %d{%H'') \<noteq> []
    \<and> fm_items (new_LogFormatter ''at %d{H'') = [StringItem pattern_error, StringItem ''at d{H'']"
proof -
  have 1: "CHR ''%'' \<notin> set ''100''" "CHR ''%'' \<notin> set ''at ''" "is_alpha (CHR ''d'')" "CHR ''}'' \<notin> set ''H''" "CHR ''%'' \<notin> set ''H''" by code_simp+
  have "fm_items (new_LogFormatter ''at %d{%H'') \<noteq> []" by code_simp
  then show ?thesis using formatter_errors [OF 1(1)] formatter_errors [OF 1(2), of "CHR ''d''" "''H''"] 1(3-5) by simp
qed

end
