(* ===== verification/LogSystem.thy ===== *)
theory LogSystem
  imports LogFormat FileUtil
begin

text \<open>
  Loggers, appenders and the manager of \<^verbatim>\<open>base/log.cc\<close>, and the listener of the setting \<open>logs\<close>. Pointers are indices into a
  store. The lemmas show what one appender, one list of appenders and one logger write, and that everything
  else of the state stays.
\<close>

section \<open>Loggers and appenders\<close>

text \<open>
  Loggers and appenders are shared by pointer, so they live in a store and are named by their index. \<open>Stdout\<close> and \<open>File\<close> are
  the two classes of appenders; a file appender has its name, its stream and the time of the last opening. An appender that
  nothing refers to any more stays in the store.
\<close>

datatype sink = Stdout | File string ofs u64

record appender =
  ap_sink :: sink
  ap_level :: log_level
  ap_hasFormatter :: bool
  ap_formatter :: "formatter option"

record logger =
  lg_name :: string
  lg_level :: log_level
  lg_appenders :: "nat list"
  lg_formatter :: "formatter option"
  lg_root :: "nat option"

text \<open>The manager, the store, what was written to \<^verbatim>\<open>std::cout\<close>, and the files.\<close>

record 'w log_sys =
  ls_loggers :: "logger list"
  ls_appenders :: "appender list"
  ls_names :: "string \<rightharpoonup> nat"
  ls_root :: nat
  ls_out :: string
  ls_files :: 'w

text \<open>
  The environment: the calls on files, the insertion of a text into an open file (the stream stays good when it succeeds),
  the printing of times, and whether the program runs with the argument \<^verbatim>\<open>-d\<close>.
\<close>

record 'w log_env =
  le_fs :: "'w fs_calls"
  le_write :: "string \<Rightarrow> string \<Rightarrow> 'w \<Rightarrow> bool \<times> 'w"
  le_date :: "string \<Rightarrow> u64 \<Rightarrow> string"
  le_daemon :: bool

datatype log_error = Null_formatter | Null_appender | Log_fs fs_error

definition endl :: string where "endl = [CHR 0x0A]"

definition upd_logger :: "nat \<Rightarrow> (logger \<Rightarrow> logger) \<Rightarrow> 'w log_sys \<Rightarrow> 'w log_sys" where
  "upd_logger l f s = s\<lparr>ls_loggers := (ls_loggers s)[l := f (ls_loggers s ! l)]\<rparr>"

definition upd_appender :: "nat \<Rightarrow> (appender \<Rightarrow> appender) \<Rightarrow> 'w log_sys \<Rightarrow> 'w log_sys" where
  "upd_appender a f s = s\<lparr>ls_appenders := (ls_appenders s)[a := f (ls_appenders s ! a)]\<rparr>"

definition print_out :: "string \<Rightarrow> 'w log_sys \<Rightarrow> 'w log_sys" where
  "print_out t s = s\<lparr>ls_out := ls_out s @ t\<rparr>"

section \<open>Appenders\<close>

definition new_StdoutLogAppender :: appender where
  "new_StdoutLogAppender = \<lparr>ap_sink = Stdout, ap_level = LV_DEBUG, ap_hasFormatter = False, ap_formatter = None\<rparr>"

definition LogAppender_setFormatter :: "formatter option \<Rightarrow> appender \<Rightarrow> appender" where
  "LogAppender_setFormatter val a = a\<lparr>ap_formatter := val, ap_hasFormatter := (val \<noteq> None)\<rparr>"

definition reopen :: "'w log_env \<Rightarrow> string \<Rightarrow> ofs \<Rightarrow> 'w \<Rightarrow> log_error + bool \<times> ofs \<times> 'w" where
  "reopen env filename f w =
     (case OpenForWrite (le_fs env) (if of_good f then ofs_close f else f) filename w of
        Inl e \<Rightarrow> Inl (Log_fs e) | Inr r \<Rightarrow> Inr r)"

definition new_FileLogAppender :: "'w log_env \<Rightarrow> string \<Rightarrow> 'w \<Rightarrow> log_error + appender \<times> 'w" where
  "new_FileLogAppender env filename w = bindE (reopen env filename new_ofs w) (\<lambda>(_, f, w1).
     Inr (\<lparr>ap_sink = File filename f 0, ap_level = LV_DEBUG, ap_hasFormatter = False, ap_formatter = None\<rparr>, w1))"

text \<open>Inserting a text into a stream: nothing happens on a stream that is not good.\<close>

definition ofs_write :: "'w log_env \<Rightarrow> string \<Rightarrow> string \<Rightarrow> ofs \<Rightarrow> 'w \<Rightarrow> ofs \<times> 'w" where
  "ofs_write env filename t f w =
     (if \<not> of_good f then (f, w)
      else if \<not> of_open f then (f\<lparr>of_good := False\<rparr>, w)
      else (case le_write env filename t w of (ok, w1) \<Rightarrow> (f\<lparr>of_good := ok\<rparr>, w1)))"

definition StdoutLogAppender_log :: "'w log_env \<Rightarrow> nat \<Rightarrow> string \<Rightarrow> log_level \<Rightarrow> log_event \<Rightarrow> 'w log_sys \<Rightarrow> log_error + 'w log_sys" where
  "StdoutLogAppender_log env a name level ev s =
     (if level \<ge> ap_level (ls_appenders s ! a) then
        (case ap_formatter (ls_appenders s ! a) of
           None \<Rightarrow> Inl Null_formatter
         | Some fm \<Rightarrow> Inr (print_out (LogFormatter_format (le_date env) fm name level ev) s))
      else Inr s)"

definition file_text :: "'w log_env \<Rightarrow> nat \<Rightarrow> string \<Rightarrow> ofs \<Rightarrow> u64 \<Rightarrow> string \<Rightarrow> 'w log_sys \<Rightarrow> 'w log_sys" where
  "file_text env a filename f last_time t s = (case ofs_write env filename t f (ls_files s) of
     (f1, w1) \<Rightarrow>
       let s1 = upd_appender a (\<lambda>x. x\<lparr>ap_sink := File filename f1 last_time\<rparr>) (s\<lparr>ls_files := w1\<rparr>)
       in if \<not> of_good f1 then print_out (''error'' @ endl) s1 else s1)"

definition FileLogAppender_log ::
  "'w log_env \<Rightarrow> nat \<Rightarrow> string \<Rightarrow> ofs \<Rightarrow> u64 \<Rightarrow> string \<Rightarrow> log_level \<Rightarrow> log_event \<Rightarrow> 'w log_sys \<Rightarrow> log_error + 'w log_sys" where
  "FileLogAppender_log env a filename f lastTime name level ev s =
     (if level \<ge> ap_level (ls_appenders s ! a) then
        (let now = ev_time ev
         in bindE (if now \<ge> lastTime + 3
                   then bindE (reopen env filename f (ls_files s)) (\<lambda>(_, f1, w1). Inr (f1, now, s\<lparr>ls_files := w1\<rparr>))
                   else Inr (f, lastTime, s))
              (\<lambda>(f1, last_time, s1). case ap_formatter (ls_appenders s1 ! a) of
                 None \<Rightarrow> Inl Null_formatter
               | Some fm \<Rightarrow> Inr (file_text env a filename f1 last_time (LogFormatter_format (le_date env) fm name level ev) s1)))
      else Inr s)"

definition LogAppender_log :: "'w log_env \<Rightarrow> string \<Rightarrow> log_level \<Rightarrow> log_event \<Rightarrow> nat \<Rightarrow> 'w log_sys \<Rightarrow> log_error + 'w log_sys" where
  "LogAppender_log env name level ev a s = (case ap_sink (ls_appenders s ! a) of
     Stdout \<Rightarrow> StdoutLogAppender_log env a name level ev s
   | File filename f last_time \<Rightarrow> FileLogAppender_log env a filename f last_time name level ev s)"

section \<open>Loggers\<close>

definition default_pattern_of_Logger :: string where
  "default_pattern_of_Logger = ''%d{%Y-%m-%d %H:%M:%S}%T%t%T%N%T%F%T[%p]%T[%c]%T%f:%l%T%m%n''"

definition new_Logger :: "string \<Rightarrow> logger" where
  "new_Logger name = \<lparr>lg_name = name, lg_level = LV_DEBUG, lg_appenders = [],
     lg_formatter = Some (new_LogFormatter default_pattern_of_Logger), lg_root = None\<rparr>"

definition hand_formatter :: "formatter option \<Rightarrow> nat \<Rightarrow> 'w log_sys \<Rightarrow> 'w log_sys" where
  "hand_formatter fm a s = (if ap_hasFormatter (ls_appenders s ! a) then s else upd_appender a (\<lambda>x. x\<lparr>ap_formatter := fm\<rparr>) s)"

definition Logger_setFormatter :: "nat \<Rightarrow> formatter option \<Rightarrow> 'w log_sys \<Rightarrow> 'w log_sys" where
  "Logger_setFormatter l val s = fold (hand_formatter val) (lg_appenders (ls_loggers s ! l)) (upd_logger l (\<lambda>x. x\<lparr>lg_formatter := val\<rparr>) s)"

definition Logger_setPattern :: "nat \<Rightarrow> string \<Rightarrow> 'w log_sys \<Rightarrow> 'w log_sys" where
  "Logger_setPattern l val s =
     (let s1 = print_out (''---'' @ val @ endl) s; new_val = new_LogFormatter val
      in if fm_error new_val
         then print_out (''Logger setFormatter name='' @ lg_name (ls_loggers s ! l) @ '' value='' @ val @ '' invalid formatter'' @ endl) s1
         else Logger_setFormatter l (Some new_val) s1)"

definition addAppender :: "nat \<Rightarrow> nat \<Rightarrow> 'w log_sys \<Rightarrow> 'w log_sys" where
  "addAppender l a s =
     (let s1 = (if ap_formatter (ls_appenders s ! a) = None
                then upd_appender a (\<lambda>x. x\<lparr>ap_formatter := lg_formatter (ls_loggers s ! l)\<rparr>) s else s)
      in upd_logger l (\<lambda>x. x\<lparr>lg_appenders := lg_appenders x @ [a]\<rparr>) s1)"

definition delAppender :: "nat \<Rightarrow> nat \<Rightarrow> 'w log_sys \<Rightarrow> 'w log_sys" where
  "delAppender l a s = upd_logger l (\<lambda>x. x\<lparr>lg_appenders := remove1 a (lg_appenders x)\<rparr>) s"

definition clearAppenders :: "nat \<Rightarrow> 'w log_sys \<Rightarrow> 'w log_sys" where
  "clearAppenders l s = upd_logger l (\<lambda>x. x\<lparr>lg_appenders := []\<rparr>) s"

definition setLevel :: "nat \<Rightarrow> log_level \<Rightarrow> 'w log_sys \<Rightarrow> 'w log_sys" where
  "setLevel l v s = upd_logger l (\<lambda>x. x\<lparr>lg_level := v\<rparr>) s"

primrec log_all :: "'w log_env \<Rightarrow> string \<Rightarrow> log_level \<Rightarrow> log_event \<Rightarrow> nat list \<Rightarrow> 'w log_sys \<Rightarrow> log_error + 'w log_sys" where
  "log_all env name level ev [] s = Inr s"
| "log_all env name level ev (a # as) s = bindE (LogAppender_log env name level ev a s) (log_all env name level ev as)"

partial_function (option) Logger_log :: "'w log_env \<Rightarrow> nat \<Rightarrow> log_level \<Rightarrow> log_event \<Rightarrow> 'w log_sys \<Rightarrow> (log_error + 'w log_sys) option" where
  "Logger_log env l level ev s =
     (if level \<ge> lg_level (ls_loggers s ! l) then
        if lg_appenders (ls_loggers s ! l) \<noteq> [] then
          Some (log_all env (lg_name (ls_loggers s ! l)) level ev (lg_appenders (ls_loggers s ! l)) s)
        else (case lg_root (ls_loggers s ! l) of
          None \<Rightarrow> Some (Inr s)
        | Some r \<Rightarrow> Logger_log env r level ev s)
      else Some (Inr s))"

text \<open>The macro \<^verbatim>\<open>LOG_LEVEL\<close> with the wrapper whose destructor logs the event: the text is in the event.\<close>

definition LOG_LEVEL :: "'w log_env \<Rightarrow> nat \<Rightarrow> log_event \<Rightarrow> 'w log_sys \<Rightarrow> (log_error + 'w log_sys) option" where
  "LOG_LEVEL env l ev s =
     (if lg_level (ls_loggers s ! l) \<le> ev_level ev then Logger_log env l (ev_level ev) ev s else Some (Inr s))"

section \<open>The manager\<close>

definition new_LoggerManager :: "'w \<Rightarrow> 'w log_sys" where
  "new_LoggerManager w = addAppender 0 0
     \<lparr>ls_loggers = [new_Logger ''root''], ls_appenders = [new_StdoutLogAppender], ls_names = [''root'' \<mapsto> 0], ls_root = 0,
      ls_out = [], ls_files = w\<rparr>"

definition getLogger :: "string \<Rightarrow> 'w log_sys \<Rightarrow> nat \<times> 'w log_sys" where
  "getLogger name s = (case ls_names s name of
     Some l \<Rightarrow> (l, s)
   | None \<Rightarrow> (length (ls_loggers s),
       s\<lparr>ls_loggers := ls_loggers s @ [(new_Logger name)\<lparr>lg_root := Some (ls_root s)\<rparr>],
         ls_names := (ls_names s)(name \<mapsto> length (ls_loggers s))\<rparr>))"

section \<open>The logs of the configuration\<close>

record appender_define =
  ad_type :: int
  ad_level :: log_level
  ad_formatter :: string
  ad_file :: string

record log_define =
  ld_name :: string
  ld_level :: log_level
  ld_formatter :: string
  ld_appenders :: "appender_define list"

text \<open>The comparison of definitions, which compares the appenders of the first one with themselves.\<close>

definition define_eq :: "log_define \<Rightarrow> log_define \<Rightarrow> bool" where
  "define_eq d oth \<longleftrightarrow> ld_name d = ld_name oth \<and> ld_level d = ld_level oth \<and> ld_formatter d = ld_formatter oth
     \<and> ld_appenders d = ld_appenders d"

text \<open>\<^verbatim>\<open>find\<close> in a set of definitions, which are ordered by their names.\<close>

definition find_define :: "string \<Rightarrow> log_define list \<Rightarrow> log_define option" where
  "find_define name ds = find (\<lambda>d. ld_name d = name) ds"

definition put_appender :: "appender \<Rightarrow> 'w log_sys \<Rightarrow> nat \<times> 'w log_sys" where
  "put_appender a s = (length (ls_appenders s), s\<lparr>ls_appenders := ls_appenders s @ [a]\<rparr>)"

definition make_appender :: "'w log_env \<Rightarrow> appender_define \<Rightarrow> 'w log_sys \<Rightarrow> log_error + appender option \<times> 'w log_sys" where
  "make_appender env a s =
     (if ad_type a = 1 then bindE (new_FileLogAppender env (ad_file a) (ls_files s)) (\<lambda>(ap, w1). Inr (Some ap, s\<lparr>ls_files := w1\<rparr>))
      else if ad_type a = 2 then Inr (if \<not> le_daemon env then Some new_StdoutLogAppender else None, s)
      else Inl Null_appender)"

definition dress_appender :: "appender_define \<Rightarrow> string \<Rightarrow> appender \<Rightarrow> 'w log_sys \<Rightarrow> appender \<times> 'w log_sys" where
  "dress_appender a name ap s =
     (let ap1 = ap\<lparr>ap_level := ad_level a\<rparr>; fmt = new_LogFormatter (ad_formatter a)
      in if ad_formatter a = [] then (ap1, s)
         else if \<not> fm_error fmt then (LogAppender_setFormatter (Some fmt) ap1, s)
         else (ap1, print_out (''log.name='' @ name @ '' appender type='' @ show_int (ad_type a) @ '' formatter='' @ ad_formatter a
                 @ '' is invalid'' @ endl) s))"

definition add_define :: "'w log_env \<Rightarrow> nat \<Rightarrow> string \<Rightarrow> appender_define \<Rightarrow> 'w log_sys \<Rightarrow> log_error + 'w log_sys" where
  "add_define env l name a s = bindE (make_appender env a s) (\<lambda>(oap, s1). case oap of
     None \<Rightarrow> Inr s1
   | Some ap \<Rightarrow> (case dress_appender a name ap s1 of
       (ap1, s2) \<Rightarrow> (case put_appender ap1 s2 of (i, s3) \<Rightarrow> Inr (addAppender l i s3))))"

primrec add_defines :: "'w log_env \<Rightarrow> nat \<Rightarrow> string \<Rightarrow> appender_define list \<Rightarrow> 'w log_sys \<Rightarrow> log_error + 'w log_sys" where
  "add_defines env l name [] s = Inr s"
| "add_defines env l name (a # as) s = bindE (add_define env l name a s) (add_defines env l name as)"

definition apply_define :: "'w log_env \<Rightarrow> log_define \<Rightarrow> 'w log_sys \<Rightarrow> log_error + 'w log_sys" where
  "apply_define env i s = (case getLogger (ld_name i) s of
     (l, s1) \<Rightarrow>
       let s2 = setLevel l (ld_level i) s1;
           s3 = (if ld_formatter i \<noteq> [] then Logger_setPattern l (ld_formatter i) s2 else s2)
       in add_defines env l (ld_name i) (ld_appenders i) (clearAppenders l s3))"

primrec apply_new :: "'w log_env \<Rightarrow> log_define list \<Rightarrow> log_define list \<Rightarrow> 'w log_sys \<Rightarrow> log_error + 'w log_sys" where
  "apply_new env old_value [] s = Inr s"
| "apply_new env old_value (i # is) s =
     (case find_define (ld_name i) old_value of
        Some d \<Rightarrow> if define_eq i d then apply_new env old_value is s
                  else bindE (apply_define env i s) (apply_new env old_value is)
      | None \<Rightarrow> bindE (apply_define env i s) (apply_new env old_value is))"

definition drop_logger :: "string \<Rightarrow> 'w log_sys \<Rightarrow> 'w log_sys" where
  "drop_logger name s = (case getLogger name s of (l, s1) \<Rightarrow> clearAppenders l (setLevel l LV_UNKNOW s1))"

primrec drop_old :: "log_define list \<Rightarrow> log_define list \<Rightarrow> 'w log_sys \<Rightarrow> 'w log_sys" where
  "drop_old new_value [] s = s"
| "drop_old new_value (i # is) s =
     drop_old new_value is (if find_define (ld_name i) new_value = None then drop_logger (ld_name i) s else s)"

text \<open>The listener of \<^verbatim>\<open>LogIniter\<close>; \<open>ev\<close> is the event of its own line.\<close>

definition logs_changed ::
  "'w log_env \<Rightarrow> log_event \<Rightarrow> log_define list \<Rightarrow> log_define list \<Rightarrow> 'w log_sys \<Rightarrow> (log_error + 'w log_sys) option" where
  "logs_changed env ev old_value new_value s = map_option (\<lambda>r. bindE r (\<lambda>s1.
     bindE (apply_new env old_value new_value s1) (\<lambda>s2. Inr (drop_old new_value old_value s2)))) (LOG_LEVEL env (ls_root s) ev s)"

section \<open>Where an event is written\<close>

text \<open>What of an appender does not change when it writes: the name of its file (none for \<^verbatim>\<open>std::cout\<close>), its level and formatter.\<close>

definition sink_name :: "sink \<Rightarrow> string option" where
  "sink_name k = (case k of Stdout \<Rightarrow> None | File f _ _ \<Rightarrow> Some f)"

definition ap_view :: "appender \<Rightarrow> string option \<times> log_level \<times> bool \<times> formatter option" where
  "ap_view a = (sink_name (ap_sink a), ap_level a, ap_hasFormatter a, ap_formatter a)"

definition stream_ok :: "appender \<Rightarrow> bool" where
  "stream_ok a \<longleftrightarrow> (case ap_sink a of Stdout \<Rightarrow> True | File _ f _ \<Rightarrow> of_open f \<and> of_good f)"

definition logger_ok :: "'w log_sys \<Rightarrow> logger \<Rightarrow> bool" where
  "logger_ok s l \<longleftrightarrow> lg_formatter l \<noteq> None \<and> (lg_root l = None \<or> lg_root l = Some (ls_root s))
     \<and> (\<forall>a\<in>set (lg_appenders l). a < length (ls_appenders s) \<and> ap_formatter (ls_appenders s ! a) \<noteq> None)"

definition log_ok :: "'w log_sys \<Rightarrow> bool" where
  "log_ok s \<longleftrightarrow> ls_root s < length (ls_loggers s) \<and> lg_root (ls_loggers s ! ls_root s) = None
     \<and> (\<forall>l\<in>set (ls_loggers s). logger_ok s l) \<and> (\<forall>a\<in>set (ls_appenders s). stream_ok a)
     \<and> (\<forall>n l. ls_names s n = Some l \<longrightarrow> l < length (ls_loggers s) \<and> lg_name (ls_loggers s ! l) = n)"

text \<open>Files that can always be opened and written; \<open>view\<close> is their content.\<close>

definition files_ok :: "'w log_env \<Rightarrow> ('w \<Rightarrow> string \<Rightarrow> string) \<Rightarrow> bool" where
  "files_ok env view \<longleftrightarrow>
     (\<forall>f w. fst (c_append (le_fs env) f w) \<and> view (snd (c_append (le_fs env) f w)) = view w)
   \<and> (\<forall>f t w. fst (le_write env f t w) \<and> view (snd (le_write env f t w)) = (view w)(f := view w f @ t))"

text \<open>Two states that differ in the streams, the output and the files only.\<close>

definition same_logs :: "'w log_sys \<Rightarrow> 'w log_sys \<Rightarrow> bool" where
  "same_logs s t \<longleftrightarrow> ls_loggers t = ls_loggers s \<and> map ap_view (ls_appenders t) = map ap_view (ls_appenders s)
     \<and> ls_names t = ls_names s \<and> ls_root t = ls_root s"

lemma same_logs_refl [simp]: "same_logs s s"
  by (simp add: same_logs_def)

lemma same_logs_trans: "same_logs s t \<Longrightarrow> same_logs t u \<Longrightarrow> same_logs s u"
  by (simp add: same_logs_def)

lemma same_logs_length: "same_logs s t \<Longrightarrow> length (ls_appenders t) = length (ls_appenders s)"
  unfolding same_logs_def by (metis length_map)

lemma same_logs_ap:
  assumes "same_logs s t" and "a < length (ls_appenders s)"
  shows "ap_view (ls_appenders t ! a) = ap_view (ls_appenders s ! a)"
  using assms same_logs_length [OF assms(1)] unfolding same_logs_def by (metis nth_map)

lemma ap_viewD:
  "ap_view a = ap_view b \<Longrightarrow> sink_name (ap_sink a) = sink_name (ap_sink b) \<and> ap_level a = ap_level b
     \<and> ap_hasFormatter a = ap_hasFormatter b \<and> ap_formatter a = ap_formatter b"
  by (simp add: ap_view_def)

lemma same_logs_ok:
  assumes "same_logs s t" and "log_ok s" and "\<forall>a\<in>set (ls_appenders t). stream_ok a"
  shows "log_ok t"
proof -
  have "logger_ok t l" if "l \<in> set (ls_loggers s)" for l
  proof -
    have "logger_ok s l" using that assms(2) by (simp add: log_ok_def)
    moreover have "ap_formatter (ls_appenders t ! a) = ap_formatter (ls_appenders s ! a)" if "a < length (ls_appenders s)" for a
      using ap_viewD [OF same_logs_ap [OF assms(1) that]] by simp
    ultimately show ?thesis
      using same_logs_length [OF assms(1)] assms(1) by (simp add: logger_ok_def same_logs_def)
  qed
  then show ?thesis using assms unfolding log_ok_def same_logs_def by simp
qed

text \<open>The text of one appender, and what it adds to \<^verbatim>\<open>std::cout\<close> (no name) or to a file.\<close>

definition ap_text :: "'w log_env \<Rightarrow> string \<Rightarrow> log_level \<Rightarrow> log_event \<Rightarrow> appender \<Rightarrow> string" where
  "ap_text env name level ev a = (if ap_level a \<le> level then LogFormatter_format (le_date env) (the (ap_formatter a)) name level ev else [])"

definition adds :: "'w log_env \<Rightarrow> string \<Rightarrow> log_level \<Rightarrow> log_event \<Rightarrow> appender list \<Rightarrow> string option \<Rightarrow> string" where
  "adds env name level ev as k = concat (map (ap_text env name level ev) (filter (\<lambda>a. sink_name (ap_sink a) = k) as))"

definition written :: "('w \<Rightarrow> string \<Rightarrow> string) \<Rightarrow> 'w log_sys \<Rightarrow> string option \<Rightarrow> string" where
  "written view s k = (case k of None \<Rightarrow> ls_out s | Some f \<Rightarrow> view (ls_files s) f)"

lemma adds_simps [simp]: "adds env name level ev [] k = []"
  "adds env name level ev (a # as) k = (if sink_name (ap_sink a) = k then ap_text env name level ev a else []) @ adds env name level ev as k"
  by (simp_all add: adds_def)

lemma ap_text_view: "ap_view a = ap_view b \<Longrightarrow> ap_text env name level ev a = ap_text env name level ev b"
  by (auto simp: ap_text_def dest!: ap_viewD)

lemma adds_view: "map ap_view as = map ap_view bs \<Longrightarrow> adds env name level ev as = adds env name level ev bs"
proof (induction as arbitrary: bs)
  case (Cons a as)
  then obtain b cs where b: "bs = b # cs" "ap_view a = ap_view b" "map ap_view as = map ap_view cs" by (cases bs) auto
  then show ?case using Cons.IH [OF b(3)] ap_text_view [OF b(2)] ap_viewD [OF b(2)] by (simp add: fun_eq_iff)
qed simp

lemma reopen_works:
  assumes "files_ok env view" and "of_open f \<and> of_good f \<or> \<not> of_open f"
  shows "\<exists>w1. reopen env name f w = Inr (True, \<lparr>of_open = True, of_good = True\<rparr>, w1) \<and> view w1 = view w"
proof -
  have "fst (c_append (le_fs env) name w)" "view (snd (c_append (le_fs env) name w)) = view w" using assms(1) by (simp_all add: files_ok_def)
  then obtain w1 where "c_append (le_fs env) name w = (True, w1)" "view w1 = view w" by (metis prod.collapse)
  then show ?thesis using assms(2) by (auto simp: reopen_def OpenForWrite_def ofs_open_def ofs_close_def)
qed

lemma ap_view_stream: "ap_view (x\<lparr>ap_sink := File f g t\<rparr>) = ap_view x \<longleftrightarrow> sink_name (ap_sink x) = Some f"
  by (auto simp: ap_view_def sink_name_def)

lemma file_text_effect:
  assumes "files_ok env view" and "a < length (ls_appenders s)" and "sink_name (ap_sink (ls_appenders s ! a)) = Some f"
    and "of_open g \<and> of_good g" and "\<forall>a\<in>set (ls_appenders s). stream_ok a"
  shows "\<exists>t. file_text env a f g last_time txt s = t \<and> same_logs s t \<and> (\<forall>a\<in>set (ls_appenders t). stream_ok a)
    \<and> (\<forall>k. written view t k = written view s k @ (if k = Some f then txt else []))"
proof -
  have "fst (le_write env f txt (ls_files s))"
    "view (snd (le_write env f txt (ls_files s))) = (view (ls_files s))(f := view (ls_files s) f @ txt)" using assms(1) by (simp_all add: files_ok_def)
  then obtain w1 where w: "le_write env f txt (ls_files s) = (True, w1)" "view w1 = (view (ls_files s))(f := view (ls_files s) f @ txt)"
    by (metis prod.collapse)
  let ?x = "(ls_appenders s ! a)\<lparr>ap_sink := File f (g\<lparr>of_good := True\<rparr>) last_time\<rparr>"
  have t: "file_text env a f g last_time txt s = s\<lparr>ls_files := w1, ls_appenders := (ls_appenders s)[a := ?x]\<rparr>"
    using w assms(4) by (simp add: file_text_def ofs_write_def upd_appender_def Let_def)
  have "map ap_view ((ls_appenders s)[a := ?x]) = map ap_view (ls_appenders s)"
    using assms(2,3) by (simp add: map_update ap_view_stream [THEN iffD2]) (metis list_update_id nth_map)
  moreover have "stream_ok ?x" using assms(4) by (simp add: stream_ok_def)
  ultimately show ?thesis unfolding t using assms(5) w(2)
    by (auto simp: same_logs_def written_def split: option.splits dest!: set_update_subset_insert [THEN subsetD])
qed

lemma appender_writes:
  assumes "files_ok env view" and "a < length (ls_appenders s)" and "ap_formatter (ls_appenders s ! a) \<noteq> None"
    and "\<forall>a\<in>set (ls_appenders s). stream_ok a"
  shows "\<exists>t. LogAppender_log env name level ev a s = Inr t \<and> same_logs s t \<and> (\<forall>a\<in>set (ls_appenders t). stream_ok a)
    \<and> (\<forall>k. written view t k = written view s k @ adds env name level ev [ls_appenders s ! a] k)"
proof -
  let ?a = "ls_appenders s ! a"
  obtain fm where fm: "ap_formatter ?a = Some fm" using assms(3) by blast
  show ?thesis
  proof (cases "ap_level ?a \<le> level")
    case False
    then show ?thesis using assms(4)
      by (cases "ap_sink ?a") (simp_all add: LogAppender_log_def StdoutLogAppender_log_def FileLogAppender_log_def ap_text_def)
  next
    case lv: True
    show ?thesis
    proof (cases "ap_sink ?a")
      case Stdout
      then show ?thesis using lv fm assms(4)
        by (auto simp: LogAppender_log_def StdoutLogAppender_log_def print_out_def same_logs_def written_def ap_text_def sink_name_def split: option.splits)
    next
      case (File f g last_time)
      let ?txt = "LogFormatter_format (le_date env) fm name level ev"
      have g: "of_open g \<and> of_good g" 
      proof -
        have "stream_ok ?a" using assms(2,4) by simp
        then show ?thesis using File by (simp add: stream_ok_def)
      qed
      obtain w1 where r: "reopen env f g (ls_files s) = Inr (True, \<lparr>of_open = True, of_good = True\<rparr>, w1)" "view w1 = view (ls_files s)"
        using reopen_works [OF assms(1) disjI1 [OF g], of f "ls_files s"] by blast
      define h where "h = (if ev_time ev \<ge> last_time + 3 then \<lparr>of_open = True, of_good = True\<rparr> else g)"
      define s1 where "s1 = (if ev_time ev \<ge> last_time + 3 then s\<lparr>ls_files := w1\<rparr> else s)"
      define lt where "lt = (if ev_time ev \<ge> last_time + 3 then ev_time ev else last_time)"
      have e: "LogAppender_log env name level ev a s = Inr (file_text env a f h lt ?txt s1)"
        using lv fm File r(1) by (simp add: LogAppender_log_def FileLogAppender_log_def Let_def h_def s1_def lt_def)
      have s1: "ls_appenders s1 = ls_appenders s" "\<And>k. written view s1 k = written view s k" "same_logs s s1"
        by (auto simp: s1_def written_def same_logs_def r(2) split: option.splits)
      have "of_open h \<and> of_good h" using g by (simp add: h_def)
      from file_text_effect [OF assms(1) _ _ this, of a s1 f lt ?txt] assms(2,4) File s1(1) obtain t where
        t: "file_text env a f h lt ?txt s1 = t" "same_logs s1 t" "\<forall>a\<in>set (ls_appenders t). stream_ok a"
          "\<forall>k. written view t k = written view s1 k @ (if k = Some f then ?txt else [])" by (auto simp: sink_name_def)
      have "ap_text env name level ev ?a = ?txt" using lv fm by (simp add: ap_text_def)
      then show ?thesis using e t s1 File same_logs_trans [OF s1(3) t(2)] by (auto simp: sink_name_def)
    qed
  qed
qed

lemma log_all_writes:
  assumes "files_ok env view"
  shows "\<forall>a\<in>set as. a < length (ls_appenders s) \<and> ap_formatter (ls_appenders s ! a) \<noteq> None \<Longrightarrow> \<forall>a\<in>set (ls_appenders s). stream_ok a \<Longrightarrow>
    \<exists>t. log_all env name level ev as s = Inr t \<and> same_logs s t \<and> (\<forall>a\<in>set (ls_appenders t). stream_ok a)
      \<and> (\<forall>k. written view t k = written view s k @ adds env name level ev (map ((!) (ls_appenders s)) as) k)"
proof (induction as arbitrary: s)
  case (Cons a as)
  from appender_writes [OF assms, of a s name level ev] Cons.prems obtain u where
    u: "LogAppender_log env name level ev a s = Inr u" "same_logs s u" "\<forall>a\<in>set (ls_appenders u). stream_ok a"
      "\<forall>k. written view u k = written view s k @ adds env name level ev [ls_appenders s ! a] k" by auto
  have v: "ap_view (ls_appenders u ! b) = ap_view (ls_appenders s ! b)" if "b \<in> set as" for b
    using same_logs_ap [OF u(2)] Cons.prems(1) that by simp
  have "\<forall>a\<in>set as. a < length (ls_appenders u) \<and> ap_formatter (ls_appenders u ! a) \<noteq> None"
    using Cons.prems(1) v same_logs_length [OF u(2)] ap_viewD [OF v] by simp
  from Cons.IH [OF this u(3)] obtain t where
    t: "log_all env name level ev as u = Inr t" "same_logs u t" "\<forall>a\<in>set (ls_appenders t). stream_ok a"
      "\<forall>k. written view t k = written view u k @ adds env name level ev (map ((!) (ls_appenders u)) as) k" by blast
  have "map ap_view (map ((!) (ls_appenders u)) as) = map ap_view (map ((!) (ls_appenders s)) as)" using v by simp
  from adds_view [OF this] have "adds env name level ev (map ((!) (ls_appenders u)) as) = adds env name level ev (map ((!) (ls_appenders s)) as)" .
  then show ?case using u t same_logs_trans [OF u(2) t(2)] by simp
qed simp

text \<open>The logger that writes an event: the logger itself when it has appenders, else the root, if their levels let it pass.\<close>

definition writing_logger :: "'w log_sys \<Rightarrow> nat \<Rightarrow> log_level \<Rightarrow> logger option" where
  "writing_logger s l level = (let x = ls_loggers s ! l; r = ls_loggers s ! ls_root s
     in if level < lg_level x then None
        else if lg_appenders x \<noteq> [] then Some x
        else if lg_root x = None \<or> level < lg_level r then None else Some r)"

definition outcome :: "'w log_env \<Rightarrow> 'w log_sys \<Rightarrow> nat \<Rightarrow> log_level \<Rightarrow> log_event \<Rightarrow> string option \<Rightarrow> string" where
  "outcome env s l level ev k = (case writing_logger s l level of
     None \<Rightarrow> []
   | Some x \<Rightarrow> adds env (lg_name x) level ev (map ((!) (ls_appenders s)) (lg_appenders x)) k)"

lemma logger_writes:
  assumes "files_ok env view" and "log_ok s" and "x \<in> set (ls_loggers s)"
  shows "\<exists>t. log_all env (lg_name x) level ev (lg_appenders x) s = Inr t \<and> same_logs s t \<and> log_ok t
      \<and> (\<forall>k. written view t k = written view s k @ adds env (lg_name x) level ev (map ((!) (ls_appenders s)) (lg_appenders x)) k)"
proof -
  have "\<forall>a\<in>set (lg_appenders x). a < length (ls_appenders s) \<and> ap_formatter (ls_appenders s ! a) \<noteq> None" "\<forall>a\<in>set (ls_appenders s). stream_ok a"
    using assms(2,3) by (auto simp: log_ok_def logger_ok_def)
  from log_all_writes [OF assms(1) this] obtain t where
    "log_all env (lg_name x) level ev (lg_appenders x) s = Inr t" "same_logs s t" "\<forall>a\<in>set (ls_appenders t). stream_ok a"
    "\<forall>k. written view t k = written view s k @ adds env (lg_name x) level ev (map ((!) (ls_appenders s)) (lg_appenders x)) k" by blast
  then show ?thesis using same_logs_ok [OF _ assms(2)] by blast
qed

lemma Logger_log_outcome:
  assumes "files_ok env view" and "log_ok s" and "l < length (ls_loggers s)"
  shows "\<exists>t. Logger_log env l level ev s = Some (Inr t) \<and> same_logs s t \<and> log_ok t
    \<and> (\<forall>k. written view t k = written view s k @ outcome env s l level ev k)"
proof -
  let ?x = "ls_loggers s ! l" and ?r = "ls_loggers s ! ls_root s"
  have x: "?x \<in> set (ls_loggers s)" and r: "?r \<in> set (ls_loggers s)" and rr: "lg_root ?r = None"
    and xr: "lg_root ?x = None \<or> lg_root ?x = Some (ls_root s)"
    using assms(2,3) nth_mem by (auto simp: log_ok_def logger_ok_def)
  have dn: "Logger_log env i level ev s = Some (log_all env (lg_name (ls_loggers s ! i)) level ev (lg_appenders (ls_loggers s ! i)) s)"
    if "lg_level (ls_loggers s ! i) \<le> level" "lg_appenders (ls_loggers s ! i) \<noteq> [] \<or> lg_root (ls_loggers s ! i) = None" for i
    using that by (subst Logger_log.simps) auto
  have skip: "Logger_log env i level ev s = Some (Inr s)" if "level < lg_level (ls_loggers s ! i)" for i
    using that by (subst Logger_log.simps) (auto simp: not_le)
  consider "level < lg_level ?x" | "lg_level ?x \<le> level" "lg_appenders ?x \<noteq> [] \<or> lg_root ?x = None"
    | "lg_level ?x \<le> level" "lg_appenders ?x = []" "lg_root ?x = Some (ls_root s)" using xr by (metis not_le)
  then show ?thesis
  proof cases
    case 1
    then show ?thesis using skip [of l] assms(2) by (simp add: outcome_def writing_logger_def Let_def)
  next
    case 2
    have "outcome env s l level ev = adds env (lg_name ?x) level ev (map ((!) (ls_appenders s)) (lg_appenders ?x))"
      using 2 by (auto simp: outcome_def writing_logger_def Let_def fun_eq_iff not_less)
    then show ?thesis using dn [of l] 2 logger_writes [OF assms(1,2) x] by simp
  next
    case 3
    then have l: "Logger_log env l level ev s = Logger_log env (ls_root s) level ev s" by (subst Logger_log.simps) simp
    show ?thesis
    proof (cases "lg_level ?r \<le> level")
      case True
      then have "outcome env s l level ev = adds env (lg_name ?r) level ev (map ((!) (ls_appenders s)) (lg_appenders ?r))"
        using 3 by (auto simp: outcome_def writing_logger_def Let_def fun_eq_iff)
      then show ?thesis using l dn [of "ls_root s"] True rr logger_writes [OF assms(1,2) r] by simp
    next
      case False
      then show ?thesis using l skip [of "ls_root s"] 3 assms(2) by (simp add: not_le outcome_def writing_logger_def Let_def)
    qed
  qed
qed

text \<open>
  Property C15. While files can be opened for appending and written (\<open>files_ok\<close>), logging an event returns, and adds to the console and to every file exactly the formatted texts of the
  appenders whose level lets it pass, in their order, of one logger: the logger itself when it has appenders, otherwise the
  root, whose name then stands for the logger's. Nothing is written below the level of either. Loggers, appenders (but for
  the state of the streams) and the manager stay as they are, and the state stays well-formed.
\<close>

theorem log_delivery:
  assumes "files_ok env view" and "log_ok s" and "l < length (ls_loggers s)"
  shows "\<exists>t. Logger_log env l level ev s = Some (Inr t) \<and> same_logs s t \<and> log_ok t
    \<and> (\<forall>k. written view t k = written view s k @ outcome env s l level ev k)"
  by (rule Logger_log_outcome [OF assms])

text \<open>Files as a map from names to texts.\<close>

definition map_calls :: "(string \<Rightarrow> string) fs_calls" where
  "map_calls = \<lparr>c_access = \<lambda>p w. True, c_lstat = \<lambda>p w. None, c_listing = \<lambda>p w. None, c_mkdir = \<lambda>p w. (True, w), c_unlink = \<lambda>p w. (True, w),
     c_rmdir = \<lambda>p w. (True, w), c_rename = \<lambda>p q w. (True, w), c_symlink = \<lambda>p q w. (True, w), c_realpath = \<lambda>p w. None,
     c_kill0 = \<lambda>p w. False, c_first_line = \<lambda>p w. None, c_append = \<lambda>p w. (True, w)\<rparr>"

definition map_env :: "(string \<Rightarrow> string) log_env" where
  "map_env = \<lparr>le_fs = map_calls, le_write = \<lambda>f t w. (True, w(f := w f @ t)), le_date = \<lambda>f t. ''now'', le_daemon = False\<rparr>"

lemma map_env_ok: "files_ok map_env (\<lambda>w. w)"
  by (simp add: files_ok_def map_env_def map_calls_def)

lemma log_ok_start: "log_ok (new_LoggerManager w)"
  by (simp add: log_ok_def logger_ok_def new_LoggerManager_def addAppender_def upd_logger_def upd_appender_def new_Logger_def
      new_StdoutLogAppender_def stream_ok_def Let_def)

definition sample_event :: log_event where
  "sample_event = (new_LogEvent LV_WARN ''a.cc'' 7 0 1 2 3 ''main'')\<lparr>ev_ss := ''hello''\<rparr>"

theorem log_delivery_witness:
  "\<exists>t. Logger_log map_env 0 LV_WARN sample_event (new_LoggerManager (\<lambda>_. [])) = Some (Inr t) \<and> log_ok t
    \<and> ls_out t = ''now'' @ CHR 0x09 # ''1'' @ CHR 0x09 # ''main'' @ CHR 0x09 # ''2'' @ CHR 0x09 # ''[WARN]'' @ CHR 0x09 # ''[root]'' @ CHR 0x09
        # ''a.cc:7'' @ CHR 0x09 # ''hello'' @ [CHR 0x0A]"
proof -
  let ?s = "new_LoggerManager (\<lambda>_. []) :: (string \<Rightarrow> string) log_sys"
  have l: "0 < length (ls_loggers ?s)" and o: "ls_out ?s = []"
    by (simp_all add: new_LoggerManager_def addAppender_def upd_logger_def upd_appender_def Let_def)
  from log_delivery [OF map_env_ok log_ok_start l, of LV_WARN sample_event] obtain t where
    t: "Logger_log map_env 0 LV_WARN sample_event ?s = Some (Inr t)" "log_ok t"
    "\<forall>k. written (\<lambda>w. w) t k = written (\<lambda>w. w) ?s k @ outcome map_env ?s 0 LV_WARN sample_event k"
    by blast
  then have "ls_out t = outcome map_env ?s 0 LV_WARN sample_event None" using t(3) [THEN spec, of None] o by (simp add: written_def)
  also have "\<dots> = ''now'' @ CHR 0x09 # ''1'' @ CHR 0x09 # ''main'' @ CHR 0x09 # ''2'' @ CHR 0x09 # ''[WARN]'' @ CHR 0x09 # ''[root]'' @ CHR 0x09
        # ''a.cc:7'' @ CHR 0x09 # ''hello'' @ [CHR 0x0A]" by code_simp
  finally show ?thesis using t(1,2) by blast
qed

end
