(* ===== verification/LogConfig.thy ===== *)
theory LogConfig
  imports LogSystem
begin

text \<open>
  The effect of a changed configuration on the loggers, through the view of a logger as its level, formatter and
  appenders. Each operation of a logger is a \<open>step_to\<close> a new view of this logger that leaves all others alone; the
  listener is a sequence of such steps.
\<close>

section \<open>Applying a configuration\<close>

text \<open>A logger as the configuration sees it: its level, its formatter and its appenders. Appenders are not shared.\<close>

type_synonym logger_view = "log_level \<times> formatter option \<times> (string option \<times> log_level \<times> bool \<times> formatter option) list"

definition idx_view :: "'w log_sys \<Rightarrow> nat \<Rightarrow> logger_view" where
  "idx_view s l = (lg_level (ls_loggers s ! l), lg_formatter (ls_loggers s ! l),
     map (\<lambda>a. ap_view (ls_appenders s ! a)) (lg_appenders (ls_loggers s ! l)))"

definition log_view :: "'w log_sys \<Rightarrow> string \<Rightarrow> logger_view option" where
  "log_view s name = map_option (idx_view s) (ls_names s name)"

definition unshared :: "'w log_sys \<Rightarrow> bool" where
  "unshared s \<longleftrightarrow> (\<forall>l m. l < length (ls_loggers s) \<and> m < length (ls_loggers s) \<and> l \<noteq> m \<longrightarrow>
     set (lg_appenders (ls_loggers s ! l)) \<inter> set (lg_appenders (ls_loggers s ! m)) = {})"

definition logs_ok :: "'w log_sys \<Rightarrow> bool" where "logs_ok s \<longleftrightarrow> log_ok s \<and> unshared s"

text \<open>A change of one logger to a given view.\<close>

definition step_to :: "nat \<Rightarrow> logger_view \<Rightarrow> 'w log_sys \<Rightarrow> 'w log_sys \<Rightarrow> bool" where
  "step_to l v s t \<longleftrightarrow> logs_ok t \<and> ls_names t = ls_names s \<and> length (ls_loggers t) = length (ls_loggers s) \<and> ls_root t = ls_root s
     \<and> idx_view t l = v \<and> (\<forall>m<length (ls_loggers s). m \<noteq> l \<longrightarrow> idx_view t m = idx_view s m)"

lemma step_to_trans: "step_to l v s t \<Longrightarrow> step_to l v1 t u \<Longrightarrow> step_to l v1 s u"
  by (simp add: step_to_def)

lemma step_to_refl: "logs_ok s \<Longrightarrow> step_to l (idx_view s l) s s"
  by (simp add: step_to_def)

lemma step_to_ok: "step_to l v s t \<Longrightarrow> logs_ok t" and step_to_view: "step_to l v s t \<Longrightarrow> idx_view t l = v"
  and step_to_length: "step_to l v s t \<Longrightarrow> length (ls_loggers t) = length (ls_loggers s)"
  by (simp_all add: step_to_def)

text \<open>Changes outside the loggers and appenders.\<close>

lemma step_to_outside:
  assumes "logs_ok s" and "ls_loggers t = ls_loggers s" "ls_appenders t = ls_appenders s" "ls_names t = ls_names s" "ls_root t = ls_root s"
  shows "step_to l (idx_view s l) s t"
  using assms by (simp add: step_to_def logs_ok_def log_ok_def logger_ok_def unshared_def idx_view_def)

lemma print_out_step: "logs_ok s \<Longrightarrow> step_to l (idx_view s l) s (print_out t s)"
  by (rule step_to_outside) (simp_all add: print_out_def)

text \<open>A change of the record of a logger.\<close>

lemma upd_logger_step:
  assumes "logs_ok s" and "l < length (ls_loggers s)"
    and "lg_name (f (ls_loggers s ! l)) = lg_name (ls_loggers s ! l)" "lg_root (f (ls_loggers s ! l)) = lg_root (ls_loggers s ! l)"
    and "lg_formatter (f (ls_loggers s ! l)) \<noteq> None"
    and "set (lg_appenders (f (ls_loggers s ! l))) \<subseteq> set (lg_appenders (ls_loggers s ! l))"
  shows "step_to l (lg_level (f (ls_loggers s ! l)), lg_formatter (f (ls_loggers s ! l)),
      map (\<lambda>a. ap_view (ls_appenders s ! a)) (lg_appenders (f (ls_loggers s ! l)))) s (upd_logger l f s)"
proof -
  let ?x = "ls_loggers s ! l" and ?t = "upd_logger l f s"
  have o: "log_ok s" and u: "unshared s" using assms(1) by (simp_all add: logs_ok_def)
  have t: "ls_loggers ?t = (ls_loggers s)[l := f ?x]" "ls_appenders ?t = ls_appenders s" "ls_names ?t = ls_names s" "ls_root ?t = ls_root s"
    by (simp_all add: upd_logger_def)
  have "logger_ok s ?x" using o assms(2) by (simp add: log_ok_def)
  then have fx: "logger_ok s (f ?x)" using assms(4-6) by (auto simp: logger_ok_def)
  have l: "\<forall>y\<in>set (ls_loggers ?t). logger_ok ?t y"
  proof
    fix y assume "y \<in> set (ls_loggers ?t)"
    then have "y = f ?x \<or> y \<in> set (ls_loggers s)" unfolding t using set_update_subset_insert [of "ls_loggers s" l "f ?x"] by blast
    then have "logger_ok s y" using o fx by (auto simp: log_ok_def)
    then show "logger_ok ?t y" by (simp add: logger_ok_def t)
  qed
  have "log_ok ?t"
    using o l assms(2-4) by (auto simp: log_ok_def t nth_list_update)
  moreover have "unshared ?t"
    using u assms(2,6) unfolding unshared_def t by (auto simp: nth_list_update)
  ultimately show ?thesis using assms(2) by (simp add: step_to_def logs_ok_def t idx_view_def)
qed

lemma setLevel_step:
  assumes "logs_ok s" and "l < length (ls_loggers s)" and "idx_view s l = (lv, F, A)"
  shows "step_to l (v, F, A) s (setLevel l v s)"
proof -
  have "lg_formatter (ls_loggers s ! l) \<noteq> None" using assms(1,2) by (simp add: logs_ok_def log_ok_def logger_ok_def)
  then show ?thesis using upd_logger_step [OF assms(1,2), of "\<lambda>x. x\<lparr>lg_level := v\<rparr>"] assms(3) by (simp add: setLevel_def idx_view_def)
qed

lemma clearAppenders_step:
  assumes "logs_ok s" and "l < length (ls_loggers s)" and "idx_view s l = (lv, F, A)"
  shows "step_to l (lv, F, []) s (clearAppenders l s)"
proof -
  have "lg_formatter (ls_loggers s ! l) \<noteq> None" using assms(1,2) by (simp add: logs_ok_def log_ok_def logger_ok_def)
  then show ?thesis using upd_logger_step [OF assms(1,2), of "\<lambda>x. x\<lparr>lg_appenders := []\<rparr>"] assms(3) by (simp add: clearAppenders_def idx_view_def)
qed

text \<open>Handing a formatter to the appenders of a logger.\<close>

definition dressed :: "appender list \<Rightarrow> appender list \<Rightarrow> nat set \<Rightarrow> bool" where
  "dressed xs ys N \<longleftrightarrow> length ys = length xs \<and> (\<forall>a. a \<notin> N \<longrightarrow> ys ! a = xs ! a)
     \<and> (\<forall>a<length xs. ap_sink (ys ! a) = ap_sink (xs ! a) \<and> (ap_formatter (xs ! a) \<noteq> None \<longrightarrow> ap_formatter (ys ! a) \<noteq> None))"

lemma hand_all: "\<exists>ys. fold (hand_formatter (Some fm)) as s = s\<lparr>ls_appenders := ys\<rparr> \<and> dressed (ls_appenders s) ys (set as)"
proof (induction as arbitrary: s)
  case Nil
  show ?case by (rule exI [of _ "ls_appenders s"]) (simp add: dressed_def)
next
  case (Cons a as)
  define zs where "zs = (if ap_hasFormatter (ls_appenders s ! a) then ls_appenders s
      else (ls_appenders s)[a := (ls_appenders s ! a)\<lparr>ap_formatter := Some fm\<rparr>])"
  have h: "hand_formatter (Some fm) a s = s\<lparr>ls_appenders := zs\<rparr>" by (simp add: hand_formatter_def zs_def upd_appender_def)
  have z: "dressed (ls_appenders s) zs {a}" 
    by (cases "a < length (ls_appenders s)") (auto simp: dressed_def zs_def nth_list_update list_update_beyond)
  from Cons.IH [of "s\<lparr>ls_appenders := zs\<rparr>"] obtain ys where
    ys: "fold (hand_formatter (Some fm)) as (s\<lparr>ls_appenders := zs\<rparr>) = s\<lparr>ls_appenders := ys\<rparr>" "dressed zs ys (set as)" by auto
  have "dressed (ls_appenders s) ys (set (a # as))" using z ys(2) by (auto simp: dressed_def)
  then show ?case using h ys(1) by auto
qed

lemma dressed_step:
  assumes "logs_ok s" and "l < length (ls_loggers s)" and "dressed (ls_appenders s) ys (set (lg_appenders (ls_loggers s ! l)))"
  shows "step_to l (lg_level (ls_loggers s ! l), lg_formatter (ls_loggers s ! l), map (\<lambda>a. ap_view (ys ! a)) (lg_appenders (ls_loggers s ! l)))
    s (s\<lparr>ls_appenders := ys\<rparr>)"
proof -
  have o: "log_ok s" and u: "unshared s" using assms(1) by (simp_all add: logs_ok_def)
  have d: "length ys = length (ls_appenders s)" "\<And>a. a \<notin> set (lg_appenders (ls_loggers s ! l)) \<Longrightarrow> ys ! a = ls_appenders s ! a"
    "\<And>a. a < length (ls_appenders s) \<Longrightarrow> ap_sink (ys ! a) = ap_sink (ls_appenders s ! a)"
    "\<And>a. a < length (ls_appenders s) \<Longrightarrow> ap_formatter (ls_appenders s ! a) \<noteq> None \<Longrightarrow> ap_formatter (ys ! a) \<noteq> None"
    using assms(3) by (simp_all add: dressed_def)
  have "logger_ok (s\<lparr>ls_appenders := ys\<rparr>) x" if "x \<in> set (ls_loggers s)" for x
  proof -
    have "logger_ok s x" using o that by (simp add: log_ok_def)
    then show ?thesis using d(1,4) by (simp add: logger_ok_def)
  qed
  moreover have "stream_ok a" if a: "a \<in> set ys" for a
  proof -
    obtain i where i: "i < length ys" "a = ys ! i" using a by (auto simp: in_set_conv_nth)
    then have "stream_ok (ls_appenders s ! i)" using o d(1) by (simp add: log_ok_def)
    then show ?thesis using d(3) [of i] i d(1) by (simp add: stream_ok_def)
  qed
  ultimately have "log_ok (s\<lparr>ls_appenders := ys\<rparr>)" using o by (simp add: log_ok_def)
  moreover have "unshared (s\<lparr>ls_appenders := ys\<rparr>)" using u by (simp add: unshared_def)
  moreover have "idx_view (s\<lparr>ls_appenders := ys\<rparr>) m = idx_view s m" if "m < length (ls_loggers s)" "m \<noteq> l" for m
  proof -
    have "set (lg_appenders (ls_loggers s ! m)) \<inter> set (lg_appenders (ls_loggers s ! l)) = {}" using u that assms(2) by (simp add: unshared_def)
    then have "ys ! a = ls_appenders s ! a" if "a \<in> set (lg_appenders (ls_loggers s ! m))" for a using d(2) that by blast
    then show ?thesis by (simp add: idx_view_def)
  qed
  ultimately show ?thesis by (simp add: step_to_def logs_ok_def) (simp add: idx_view_def)
qed

lemma Logger_setFormatter_step:
  assumes "logs_ok s" and "l < length (ls_loggers s)" and "idx_view s l = (lv, F, A)"
  shows "\<exists>A1. step_to l (lv, Some fm, A1) s (Logger_setFormatter l (Some fm) s)"
proof -
  let ?s1 = "upd_logger l (\<lambda>x. x\<lparr>lg_formatter := Some fm\<rparr>) s"
  have 1: "step_to l (lv, Some fm, A) s ?s1"
    using upd_logger_step [OF assms(1,2), of "\<lambda>x. x\<lparr>lg_formatter := Some fm\<rparr>"] assms(3) by (simp add: idx_view_def)
  have x: "ls_loggers ?s1 ! l = (ls_loggers s ! l)\<lparr>lg_formatter := Some fm\<rparr>" using assms(2) by (simp add: upd_logger_def)
  obtain ys where ys: "fold (hand_formatter (Some fm)) (lg_appenders (ls_loggers s ! l)) ?s1 = ?s1\<lparr>ls_appenders := ys\<rparr>"
    "dressed (ls_appenders ?s1) ys (set (lg_appenders (ls_loggers ?s1 ! l)))"
    using hand_all [of fm "lg_appenders (ls_loggers s ! l)" ?s1] x by auto
  have "step_to l (lg_level (ls_loggers ?s1 ! l), lg_formatter (ls_loggers ?s1 ! l),
      map (\<lambda>a. ap_view (ys ! a)) (lg_appenders (ls_loggers ?s1 ! l))) ?s1 (?s1\<lparr>ls_appenders := ys\<rparr>)"
    by (rule dressed_step [OF step_to_ok [OF 1] _ ys(2)]) (use assms(2) in \<open>simp add: upd_logger_def\<close>)
  then have "step_to l (lv, Some fm, map (\<lambda>a. ap_view (ys ! a)) (lg_appenders (ls_loggers s ! l))) ?s1 (Logger_setFormatter l (Some fm) s)"
    using x assms(3) ys(1) by (simp add: Logger_setFormatter_def idx_view_def)
  then show ?thesis using step_to_trans [OF 1] by blast
qed

text \<open>Adding an appender of its own to a logger.\<close>

lemma addAppender_step:
  assumes "logs_ok s" and "l < length (ls_loggers s)" and "idx_view s l = (lv, Some F, A)" and "stream_ok ap"
    and "put_appender ap s = (i, u)"
  shows "step_to l (lv, Some F, A @ [(sink_name (ap_sink ap), ap_level ap, ap_hasFormatter ap,
      (if ap_formatter ap = None then Some F else ap_formatter ap))]) s (addAppender l i u)"
proof -
  let ?n = "length (ls_appenders s)" and ?x = "ls_loggers s ! l"
  define bp where "bp = (if ap_formatter ap = None then ap\<lparr>ap_formatter := Some F\<rparr> else ap)"
  define t where "t = s\<lparr>ls_appenders := ls_appenders s @ [bp], ls_loggers := (ls_loggers s)[l := ?x\<lparr>lg_appenders := lg_appenders ?x @ [?n]\<rparr>]\<rparr>"
  have o: "log_ok s" and u: "unshared s" using assms(1) by (simp_all add: logs_ok_def)
  have x: "logger_ok s ?x" using o assms(2) by (simp add: log_ok_def)
  have F: "lg_level ?x = lv" "lg_formatter ?x = Some F" "map (\<lambda>a. ap_view (ls_appenders s ! a)) (lg_appenders ?x) = A"
    using assms(3) by (simp_all add: idx_view_def)
  have t: "addAppender l i u = t"
    using assms(5) F(2) assms(2) by (auto simp: put_appender_def addAppender_def upd_appender_def upd_logger_def t_def bp_def Let_def)
  have fields: "ls_names t = ls_names s" "ls_root t = ls_root s" "length (ls_loggers t) = length (ls_loggers s)"
    "ls_appenders t = ls_appenders s @ [bp]" by (simp_all add: t_def)
  have b: "ap_formatter bp \<noteq> None" "stream_ok bp" "ap_sink bp = ap_sink ap" using assms(4) by (auto simp: bp_def stream_ok_def)
  have old: "a < ?n \<Longrightarrow> ls_appenders t ! a = ls_appenders s ! a" for a by (simp add: fields nth_append)
  have in_range: "a < ?n" if "m < length (ls_loggers s)" "a \<in> set (lg_appenders (ls_loggers s ! m))" for m a
    using o that by (auto simp: log_ok_def logger_ok_def)
  have keep: "logger_ok t y" if "logger_ok s y" for y
    using that old by (auto simp: logger_ok_def fields)
  have lx: "logger_ok t (?x\<lparr>lg_appenders := lg_appenders ?x @ [?n]\<rparr>)"
    using keep [OF x] b(1) by (auto simp: logger_ok_def fields)
  have "\<forall>y\<in>set (ls_loggers t). logger_ok t y"
  proof
    fix y assume "y \<in> set (ls_loggers t)"
    then have "y = ?x\<lparr>lg_appenders := lg_appenders ?x @ [?n]\<rparr> \<or> y \<in> set (ls_loggers s)"
      using set_update_subset_insert [of "ls_loggers s" l] by (fastforce simp: t_def)
    then show "logger_ok t y" using lx keep o by (auto simp: log_ok_def)
  qed
  then have "log_ok t" using o assms(2) b(2) by (auto simp: log_ok_def fields t_def nth_list_update)
  moreover have "unshared t"
    unfolding unshared_def
  proof (intro allI impI, elim conjE)
    fix p q assume pq: "p < length (ls_loggers t)" "q < length (ls_loggers t)" "p \<noteq> q"
    then have "set (lg_appenders (ls_loggers s ! p)) \<inter> set (lg_appenders (ls_loggers s ! q)) = {}" using u by (simp add: unshared_def fields)
    moreover have "?n \<notin> set (lg_appenders (ls_loggers s ! p))" "?n \<notin> set (lg_appenders (ls_loggers s ! q))"
      using in_range pq by (auto simp: fields)
    ultimately show "set (lg_appenders (ls_loggers t ! p)) \<inter> set (lg_appenders (ls_loggers t ! q)) = {}"
      using pq assms(2) by (auto simp: t_def nth_list_update)
  qed
  moreover have "idx_view t m = idx_view s m" if "m < length (ls_loggers s)" "m \<noteq> l" for m
  proof -
    have "ls_loggers t ! m = ls_loggers s ! m" using that by (simp add: t_def)
    then show ?thesis using old in_range [OF that(1)] by (simp add: idx_view_def)
  qed
  moreover have "idx_view t l = (lv, Some F, A @ [ap_view bp])"
  proof -
    have "map (\<lambda>a. ap_view (ls_appenders t ! a)) (lg_appenders ?x) = A"
      unfolding F(3) [symmetric] by (rule map_cong [OF refl]) (use old in_range [OF assms(2)] in simp)
    moreover have "ls_appenders t ! ?n = bp" by (simp add: fields)
    moreover have "ls_loggers t ! l = ?x\<lparr>lg_appenders := lg_appenders ?x @ [?n]\<rparr>" using assms(2) by (simp add: t_def)
    ultimately show ?thesis using F(1,2) by (simp add: idx_view_def)
  qed
  moreover have "ap_view bp = (sink_name (ap_sink ap), ap_level ap, ap_hasFormatter ap, (if ap_formatter ap = None then Some F else ap_formatter ap))"
    by (simp add: bp_def ap_view_def)
  ultimately show ?thesis unfolding t by (simp add: step_to_def logs_ok_def fields)
qed

text \<open>What a definition of the configuration asks for.\<close>

definition good_pattern :: "string \<Rightarrow> bool" where
  "good_pattern p \<longleftrightarrow> p \<noteq> [] \<and> \<not> fm_error (new_LogFormatter p)"

definition wanted_views :: "'w log_env \<Rightarrow> formatter \<Rightarrow> appender_define \<Rightarrow> (string option \<times> log_level \<times> bool \<times> formatter option) list" where
  "wanted_views env F a =
     (if ad_type a = 2 \<and> le_daemon env then []
      else [(if ad_type a = 1 then Some (ad_file a) else None, ad_level a, good_pattern (ad_formatter a),
             Some (if good_pattern (ad_formatter a) then new_LogFormatter (ad_formatter a) else F))])"

definition formatter_after :: "log_define \<Rightarrow> formatter \<Rightarrow> formatter" where
  "formatter_after i F = (if good_pattern (ld_formatter i) then new_LogFormatter (ld_formatter i) else F)"

lemma new_file_appender:
  assumes "files_ok env view"
  shows "\<exists>ap w1. new_FileLogAppender env f w = Inr (ap, w1) \<and> ap_sink ap = File f \<lparr>of_open = True, of_good = True\<rparr> 0
    \<and> ap_formatter ap = None \<and> \<not> ap_hasFormatter ap"
proof -
  obtain w1 where "reopen env f new_ofs w = Inr (True, \<lparr>of_open = True, of_good = True\<rparr>, w1)"
    using reopen_works [OF assms, of new_ofs f w] by (auto simp: new_ofs_def)
  then show ?thesis by (simp add: new_FileLogAppender_def)
qed

lemma add_define_step:
  assumes "files_ok env view" and "logs_ok s" and "l < length (ls_loggers s)" and "idx_view s l = (lv, Some F, A)"
    and "ad_type a = 1 \<or> ad_type a = 2"
  shows "\<exists>t. add_define env l name a s = Inr t \<and> step_to l (lv, Some F, A @ wanted_views env F a) s t"
proof (cases "ad_type a = 2 \<and> le_daemon env")
  case True
  then show ?thesis using step_to_refl [OF assms(2), of l] assms(4)
    by (intro exI [of _ s]) (simp add: add_define_def make_appender_def wanted_views_def)
next
  case False
  obtain ap s1 where m: "make_appender env a s = Inr (Some ap, s1)" "stream_ok ap" "ap_formatter ap = None" "\<not> ap_hasFormatter ap"
    "sink_name (ap_sink ap) = (if ad_type a = 1 then Some (ad_file a) else None)"
    "ls_loggers s1 = ls_loggers s" "ls_appenders s1 = ls_appenders s" "ls_names s1 = ls_names s" "ls_root s1 = ls_root s"
  proof (cases "ad_type a = 1")
    case True
    obtain ap w1 where "new_FileLogAppender env (ad_file a) (ls_files s) = Inr (ap, w1)" "ap_sink ap = File (ad_file a) \<lparr>of_open = True, of_good = True\<rparr> 0"
      "ap_formatter ap = None" "\<not> ap_hasFormatter ap" using new_file_appender [OF assms(1)] by blast
    then show ?thesis using True that [of ap "s\<lparr>ls_files := w1\<rparr>"] by (simp add: make_appender_def stream_ok_def sink_name_def)
  next
    case f: False
    then show ?thesis using False assms(5) that [of new_StdoutLogAppender s]
      by (auto simp: make_appender_def stream_ok_def sink_name_def new_StdoutLogAppender_def)
  qed
  obtain ap1 s2 where d: "dress_appender a name ap s1 = (ap1, s2)" by (cases "dress_appender a name ap s1") auto
  then have s2: "ls_loggers s2 = ls_loggers s" "ls_appenders s2 = ls_appenders s" "ls_names s2 = ls_names s" "ls_root s2 = ls_root s"
    using m by (auto simp: dress_appender_def print_out_def Let_def split: if_splits)
  have ap1: "ap_sink ap1 = ap_sink ap" "ap_level ap1 = ad_level a" "ap_hasFormatter ap1 = good_pattern (ad_formatter a)"
    "ap_formatter ap1 = (if good_pattern (ad_formatter a) then Some (new_LogFormatter (ad_formatter a)) else None)"
    using d m(3,4) by (auto simp: dress_appender_def LogAppender_setFormatter_def good_pattern_def Let_def split: if_splits)
  have 2: "step_to l (lv, Some F, A) s s2" using step_to_outside [OF assms(2) s2, of l] assms(4) by simp
  obtain i u where p: "put_appender ap1 s2 = (i, u)" by (cases "put_appender ap1 s2") auto
  have "stream_ok ap1" using m(2) ap1(1) by (simp add: stream_ok_def)
  from addAppender_step [OF step_to_ok [OF 2] _ step_to_view [OF 2] this p]
  have "step_to l (lv, Some F, A @ wanted_views env F a) s2 (addAppender l i u)"
    using assms(3) False m(5) ap1 by (auto simp: s2 wanted_views_def split: if_splits)
  from step_to_trans [OF 2 this] show ?thesis by (simp add: add_define_def m(1) d p)
qed

lemma add_defines_step:
  assumes "files_ok env view"
  shows "logs_ok s \<Longrightarrow> l < length (ls_loggers s) \<Longrightarrow> idx_view s l = (lv, Some F, A) \<Longrightarrow> \<forall>a\<in>set as. ad_type a = 1 \<or> ad_type a = 2 \<Longrightarrow>
    \<exists>t. add_defines env l name as s = Inr t \<and> step_to l (lv, Some F, A @ concat (map (wanted_views env F) as)) s t"
proof (induction as arbitrary: s A)
  case Nil
  then show ?case using step_to_refl [OF Nil.prems(1), of l] by simp
next
  case (Cons a as)
  have "ad_type a = 1 \<or> ad_type a = 2" using Cons.prems(4) by simp
  from add_define_step [OF assms Cons.prems(1-3) this, of name] obtain u where
    u: "add_define env l name a s = Inr u" "step_to l (lv, Some F, A @ wanted_views env F a) s u" by blast
  have "l < length (ls_loggers u)" "\<forall>a\<in>set as. ad_type a = 1 \<or> ad_type a = 2"
    using step_to_length [OF u(2)] Cons.prems(2,4) by simp_all
  from Cons.IH [OF step_to_ok [OF u(2)] this(1) step_to_view [OF u(2)] this(2)] obtain t where
    t: "add_defines env l name as u = Inr t" "step_to l (lv, Some F, (A @ wanted_views env F a) @ concat (map (wanted_views env F) as)) u t" by blast
  show ?case using u(1) t(1) step_to_trans [OF u(2) t(2)] by simp
qed

text \<open>Looking a logger up, or making it.\<close>

definition view_or_new :: "'w log_sys \<Rightarrow> string \<Rightarrow> logger_view" where
  "view_or_new s name = (case log_view s name of Some v \<Rightarrow> v | None \<Rightarrow> (LV_DEBUG, lg_formatter (new_Logger name), []))"

lemma getLogger_step:
  assumes "logs_ok s" and "getLogger name s = (l, t)"
  shows "logs_ok t \<and> ls_names t name = Some l \<and> l < length (ls_loggers t) \<and> ls_root t = ls_root s \<and> idx_view t l = view_or_new s name
    \<and> (\<forall>n. n \<noteq> name \<longrightarrow> ls_names t n = ls_names s n \<and> log_view t n = log_view s n)"
proof (cases "ls_names s name")
  case (Some k)
  then show ?thesis using assms by (auto simp: getLogger_def logs_ok_def log_ok_def view_or_new_def log_view_def)
next
  case None
  let ?x = "(new_Logger name)\<lparr>lg_root := Some (ls_root s)\<rparr>"
  have o: "log_ok s" and u: "unshared s" using assms(1) by (simp_all add: logs_ok_def)
  have t: "l = length (ls_loggers s)" "ls_loggers t = ls_loggers s @ [?x]" "ls_appenders t = ls_appenders s" "ls_root t = ls_root s"
    "ls_names t = (ls_names s)(name \<mapsto> length (ls_loggers s))" using assms(2) None by (auto simp: getLogger_def)
  have n: "lg_name ?x = name" "lg_appenders ?x = []" "lg_level ?x = LV_DEBUG" "lg_formatter ?x = lg_formatter (new_Logger name)" "lg_formatter ?x \<noteq> None"
    by (simp_all add: new_Logger_def)
  have "log_ok t" using o n(1,2,5) by (auto simp: log_ok_def t logger_ok_def nth_append intro: less_SucI)
  moreover have "unshared t" using u n(2) by (auto simp: unshared_def t nth_append less_Suc_eq)
  moreover have "idx_view t m = idx_view s m" if "m < length (ls_loggers s)" for m using that by (simp add: idx_view_def t nth_append)
  then have "log_view t m = log_view s m" if "m \<noteq> name" for m
    using that o by (cases "ls_names s m") (auto simp: log_view_def t log_ok_def)
  moreover have "idx_view t l = view_or_new s name"
    using None n by (simp add: view_or_new_def log_view_def idx_view_def t)
  ultimately show ?thesis using t by (simp add: logs_ok_def)
qed

lemma step_log_view:
  assumes "logs_ok s" and "step_to l v s t" and "ls_names s n = Some l"
  shows "log_view t = (log_view s)(n \<mapsto> v)"
proof
  fix m
  have o: "k < length (ls_loggers s) \<and> lg_name (ls_loggers s ! k) = m" if "ls_names s m = Some k" for m k
    using assms(1) that unfolding logs_ok_def log_ok_def by blast
  have e: "ls_names t = ls_names s" "idx_view t l = v" "\<And>k. k < length (ls_loggers s) \<Longrightarrow> k \<noteq> l \<Longrightarrow> idx_view t k = idx_view s k"
    using assms(2) unfolding step_to_def by blast+
  show "log_view t m = ((log_view s)(n \<mapsto> v)) m"
  proof (cases "ls_names s m")
    case None
    then have "m \<noteq> n" using assms(3) by auto
    then show ?thesis using None by (simp add: log_view_def e(1))
  next
    case (Some k)
    show ?thesis
    proof (cases "m = n")
      case True
      then show ?thesis using e(2) assms(3) by (simp add: log_view_def e(1))
    next
      case False
      then have "k \<noteq> l" using o [OF Some] o [OF assms(3)] by auto
      then show ?thesis using Some False o [OF Some] by (simp add: log_view_def e)
    qed
  qed
qed

definition default_formatter :: formatter where "default_formatter = new_LogFormatter default_pattern_of_Logger"

definition formatter_in :: "logger_view option \<Rightarrow> formatter" where
  "formatter_in v = (case v of Some (_, Some F, _) \<Rightarrow> F | _ \<Rightarrow> default_formatter)"

text \<open>The view of a logger after its definition was applied, and after its definition has gone.\<close>

definition target :: "'w log_env \<Rightarrow> log_define \<Rightarrow> logger_view option \<Rightarrow> logger_view" where
  "target env i v = (let F = formatter_after i (formatter_in v) in (ld_level i, Some F, concat (map (wanted_views env F) (ld_appenders i))))"

definition dropped :: "logger_view option \<Rightarrow> logger_view" where
  "dropped v = (LV_UNKNOW, Some (formatter_in v), [])"

lemma view_or_new_formatter:
  assumes "logs_ok s"
  shows "\<exists>lv A. view_or_new s n = (lv, Some (formatter_in (log_view s n)), A)"
proof (cases "ls_names s n")
  case None
  then show ?thesis by (simp add: view_or_new_def log_view_def formatter_in_def new_Logger_def default_formatter_def)
next
  case (Some l)
  then have "l < length (ls_loggers s)" using assms by (simp add: logs_ok_def log_ok_def)
  then have "lg_formatter (ls_loggers s ! l) \<noteq> None" using assms by (simp add: logs_ok_def log_ok_def logger_ok_def)
  then show ?thesis using Some by (auto simp: view_or_new_def log_view_def formatter_in_def idx_view_def)
qed

lemma setPattern_step:
  assumes "logs_ok s" and "l < length (ls_loggers s)" and "idx_view s l = (lv, Some F, A)" and "p \<noteq> []"
  shows "\<exists>A1. step_to l (lv, Some (if good_pattern p then new_LogFormatter p else F), A1) s (Logger_setPattern l p s)"
proof -
  let ?s1 = "print_out (''---'' @ p @ endl) s"
  have 1: "step_to l (lv, Some F, A) s ?s1" using print_out_step [OF assms(1)] assms(3) by metis
  have l: "l < length (ls_loggers ?s1)" using assms(2) by (simp add: print_out_def)
  show ?thesis
  proof (cases "fm_error (new_LogFormatter p)")
    case True
    then have "Logger_setPattern l p s = print_out (''Logger setFormatter name='' @ lg_name (ls_loggers s ! l) @ '' value='' @ p @ '' invalid formatter'' @ endl) ?s1"
      by (simp add: Logger_setPattern_def Let_def)
    then have "step_to l (idx_view ?s1 l) ?s1 (Logger_setPattern l p s)" using print_out_step [OF step_to_ok [OF 1]] by metis
    then have "step_to l (lv, Some F, A) s (Logger_setPattern l p s)" using step_to_trans [OF 1] step_to_view [OF 1] by simp
    then show ?thesis using True by (auto simp: good_pattern_def)
  next
    case False
    then have "Logger_setPattern l p s = Logger_setFormatter l (Some (new_LogFormatter p)) ?s1" by (simp add: Logger_setPattern_def Let_def)
    moreover obtain A1 where "step_to l (lv, Some (new_LogFormatter p), A1) ?s1 (Logger_setFormatter l (Some (new_LogFormatter p)) ?s1)"
      using Logger_setFormatter_step [OF step_to_ok [OF 1] l step_to_view [OF 1]] by blast
    ultimately have "step_to l (lv, Some (new_LogFormatter p), A1) s (Logger_setPattern l p s)" using step_to_trans [OF 1] by simp
    then show ?thesis using False assms(4) by (auto simp: good_pattern_def)
  qed
qed

lemma apply_define_effect:
  assumes "files_ok env view" and "logs_ok s" and "\<forall>a\<in>set (ld_appenders i). ad_type a = 1 \<or> ad_type a = 2"
  shows "\<exists>t. apply_define env i s = Inr t \<and> logs_ok t \<and> ls_root t = ls_root s
    \<and> log_view t = (log_view s)(ld_name i \<mapsto> target env i (log_view s (ld_name i)))"
proof -
  let ?n = "ld_name i" and ?F = "formatter_in (log_view s (ld_name i))"
  obtain l s1 where g: "getLogger ?n s = (l, s1)" by (cases "getLogger ?n s") auto
  obtain lv A where v: "view_or_new s ?n = (lv, Some ?F, A)" using view_or_new_formatter [OF assms(2)] by blast
  have s1: "logs_ok s1" "ls_names s1 ?n = Some l" "l < length (ls_loggers s1)" "ls_root s1 = ls_root s" "idx_view s1 l = (lv, Some ?F, A)"
    "\<And>n. n \<noteq> ?n \<Longrightarrow> log_view s1 n = log_view s n" using getLogger_step [OF assms(2) g] v by auto
  let ?s2 = "setLevel l (ld_level i) s1"
  have 2: "step_to l (ld_level i, Some ?F, A) s1 ?s2" by (rule setLevel_step [OF s1(1,3,5)])
  define s3 where "s3 = (if ld_formatter i \<noteq> [] then Logger_setPattern l (ld_formatter i) ?s2 else ?s2)"
  have l2: "l < length (ls_loggers ?s2)" using step_to_length [OF 2] s1(3) by simp
  have "\<exists>A1. step_to l (ld_level i, Some (formatter_after i ?F), A1) s1 s3"
  proof (cases "ld_formatter i = []")
    case True
    then show ?thesis using 2 by (auto simp: s3_def formatter_after_def good_pattern_def)
  next
    case False
    from setPattern_step [OF step_to_ok [OF 2] l2 step_to_view [OF 2] False] obtain A1 where
      "step_to l (ld_level i, Some (formatter_after i ?F), A1) ?s2 (Logger_setPattern l (ld_formatter i) ?s2)"
      by (auto simp: formatter_after_def)
    from step_to_trans [OF 2 this] False show ?thesis by (auto simp: s3_def)
  qed
  then obtain A1 where 3: "step_to l (ld_level i, Some (formatter_after i ?F), A1) s1 s3" by blast
  have l3: "l < length (ls_loggers s3)" using step_to_length [OF 3] s1(3) by simp
  have 4: "step_to l (ld_level i, Some (formatter_after i ?F), []) s1 (clearAppenders l s3)"
    by (rule step_to_trans [OF 3 clearAppenders_step [OF step_to_ok [OF 3] l3 step_to_view [OF 3]]])
  have l4: "l < length (ls_loggers (clearAppenders l s3))" using step_to_length [OF 4] s1(3) by simp
  from add_defines_step [OF assms(1) step_to_ok [OF 4] l4 step_to_view [OF 4] assms(3), of ?n] obtain t where
    t: "add_defines env l ?n (ld_appenders i) (clearAppenders l s3) = Inr t"
      "step_to l (target env i (log_view s ?n)) (clearAppenders l s3) t" by (auto simp: target_def Let_def)
  have 5: "step_to l (target env i (log_view s ?n)) s1 t" by (rule step_to_trans [OF 4 t(2)])
  have "log_view t = (log_view s)(?n \<mapsto> target env i (log_view s ?n))"
    unfolding step_log_view [OF s1(1) 5 s1(2)] using s1(6) by (auto simp: fun_eq_iff)
  moreover have "ls_root t = ls_root s" using 5 s1(4) by (simp add: step_to_def)
  moreover have "apply_define env i s = Inr t" using g t(1) by (simp add: apply_define_def Let_def s3_def)
  ultimately show ?thesis using step_to_ok [OF 5] by blast
qed

lemma drop_logger_effect:
  assumes "logs_ok s"
  shows "logs_ok (drop_logger n s) \<and> ls_root (drop_logger n s) = ls_root s \<and> log_view (drop_logger n s) = (log_view s)(n \<mapsto> dropped (log_view s n))"
proof -
  let ?F = "formatter_in (log_view s n)"
  obtain l s1 where g: "getLogger n s = (l, s1)" by (cases "getLogger n s") auto
  obtain lv A where v: "view_or_new s n = (lv, Some ?F, A)" using view_or_new_formatter [OF assms] by blast
  have s1: "logs_ok s1" "ls_names s1 n = Some l" "l < length (ls_loggers s1)" "ls_root s1 = ls_root s" "idx_view s1 l = (lv, Some ?F, A)"
    "\<And>m. m \<noteq> n \<Longrightarrow> log_view s1 m = log_view s m" using getLogger_step [OF assms g] v by auto
  have 2: "step_to l (LV_UNKNOW, Some ?F, A) s1 (setLevel l LV_UNKNOW s1)" by (rule setLevel_step [OF s1(1,3,5)])
  have l2: "l < length (ls_loggers (setLevel l LV_UNKNOW s1))" using step_to_length [OF 2] s1(3) by simp
  have 3: "step_to l (dropped (log_view s n)) s1 (drop_logger n s)"
    using step_to_trans [OF 2 clearAppenders_step [OF step_to_ok [OF 2] l2 step_to_view [OF 2]]] g
    by (simp add: drop_logger_def dropped_def)
  have "log_view (drop_logger n s) = (log_view s)(n \<mapsto> dropped (log_view s n))"
    unfolding step_log_view [OF s1(1) 3 s1(2)] using s1(6) by (auto simp: fun_eq_iff)
  then show ?thesis using 3 s1(4) by (simp add: step_to_def)
qed

section \<open>The whole change\<close>

definition is_changed :: "log_define list \<Rightarrow> log_define \<Rightarrow> bool" where
  "is_changed old_value i \<longleftrightarrow> (case find_define (ld_name i) old_value of Some d \<Rightarrow> \<not> define_eq i d | None \<Rightarrow> True)"

definition defines_ok :: "log_define list \<Rightarrow> bool" where
  "defines_ok ds \<longleftrightarrow> distinct (map ld_name ds) \<and> (\<forall>i\<in>set ds. \<forall>a\<in>set (ld_appenders i). ad_type a = 1 \<or> ad_type a = 2)"

lemma find_define_simps [simp]:
  "find_define n [] = None"
  "find_define n (d # ds) = (if ld_name d = n then Some d else find_define n ds)"
  by (simp_all add: find_define_def)

lemma find_define_notin: "n \<notin> ld_name ` set ds \<Longrightarrow> find_define n ds = None"
  by (induction ds) auto

lemma apply_new_effect:
  assumes "files_ok env view"
  shows "logs_ok s \<Longrightarrow> defines_ok is \<Longrightarrow> \<exists>t. apply_new env old_value is s = Inr t \<and> logs_ok t \<and> ls_root t = ls_root s
    \<and> (\<forall>n. log_view t n = (case find_define n is of
         Some i \<Rightarrow> if is_changed old_value i then Some (target env i (log_view s n)) else log_view s n
       | None \<Rightarrow> log_view s n))"
proof (induction "is" arbitrary: s)
  case (Cons i "is")
  have d: "defines_ok is" "ld_name i \<notin> ld_name ` set is" "\<forall>a\<in>set (ld_appenders i). ad_type a = 1 \<or> ad_type a = 2"
    using Cons.prems(2) by (auto simp: defines_ok_def)
  obtain u where u: "apply_new env old_value (i # is) s = apply_new env old_value is u" "logs_ok u" "ls_root u = ls_root s"
    "log_view u = (if is_changed old_value i then (log_view s)(ld_name i \<mapsto> target env i (log_view s (ld_name i))) else log_view s)"
  proof (cases "is_changed old_value i")
    case True
    obtain u where "apply_define env i s = Inr u" "logs_ok u" "ls_root u = ls_root s"
      "log_view u = (log_view s)(ld_name i \<mapsto> target env i (log_view s (ld_name i)))" using apply_define_effect [OF assms Cons.prems(1) d(3)] by blast
    then show ?thesis using True that [of u] by (auto simp: is_changed_def split: option.splits)
  next
    case False
    then show ?thesis using Cons.prems(1) that [of s] by (auto simp: is_changed_def split: option.splits)
  qed
  from Cons.IH [OF u(2) d(1)] obtain t where t: "apply_new env old_value is u = Inr t" "logs_ok t" "ls_root t = ls_root u"
    "\<And>n. log_view t n = (case find_define n is of
         Some i \<Rightarrow> if is_changed old_value i then Some (target env i (log_view u n)) else log_view u n | None \<Rightarrow> log_view u n)" by blast
  have "find_define n is \<noteq> None \<Longrightarrow> log_view u n = log_view s n" for n
    using find_define_notin [OF d(2)] u(4) by (cases "n = ld_name i") auto
  then show ?case using t u find_define_notin [OF d(2)] by (auto split: option.splits)
qed simp

lemma drop_old_effect:
  "logs_ok s \<Longrightarrow> distinct (map ld_name is) \<Longrightarrow> logs_ok (drop_old new_value is s) \<and> ls_root (drop_old new_value is s) = ls_root s
    \<and> (\<forall>n. log_view (drop_old new_value is s) n =
        (if find_define n is \<noteq> None \<and> find_define n new_value = None then Some (dropped (log_view s n)) else log_view s n))"
proof (induction "is" arbitrary: s)
  case (Cons i "is")
  define u where "u = (if find_define (ld_name i) new_value = None then drop_logger (ld_name i) s else s)"
  have u: "logs_ok u" "ls_root u = ls_root s" "log_view u = (if find_define (ld_name i) new_value = None
      then (log_view s)(ld_name i \<mapsto> dropped (log_view s (ld_name i))) else log_view s)"
    using drop_logger_effect [OF Cons.prems(1), of "ld_name i"] Cons.prems(1) by (simp_all add: u_def)
  have "find_define (ld_name i) is = None" using Cons.prems(2) find_define_notin [of "ld_name i" "is"] by simp
  then show ?case using Cons.IH [OF u(1)] Cons.prems(2) u(2,3) by (auto simp: u_def [symmetric])
qed simp

lemma same_logs_view:
  assumes "same_logs s t" and "logs_ok s" and "log_ok t"
  shows "logs_ok t \<and> log_view t = log_view s \<and> ls_root t = ls_root s"
proof -
  have e: "ls_loggers t = ls_loggers s" "ls_names t = ls_names s" "ls_root t = ls_root s" using assms(1) by (simp_all add: same_logs_def)
  have "idx_view t l = idx_view s l" if l: "l < length (ls_loggers s)" for l
  proof -
    have "\<forall>a\<in>set (lg_appenders (ls_loggers s ! l)). a < length (ls_appenders s)"
      using assms(2) l nth_mem [OF l] unfolding logs_ok_def log_ok_def logger_ok_def by blast
    then show ?thesis using same_logs_ap [OF assms(1)] by (simp add: idx_view_def e)
  qed
  then have "log_view t n = log_view s n" for n
    using assms(2) by (cases "ls_names s n") (simp_all add: log_view_def e logs_ok_def log_ok_def)
  moreover have "unshared t" using assms(2) by (simp add: logs_ok_def unshared_def e)
  ultimately show ?thesis using assms(3) e by (auto simp: logs_ok_def)
qed

text \<open>What a change of the setting \<open>logs\<close> makes of a logger.\<close>

definition configured :: "'w log_env \<Rightarrow> log_define list \<Rightarrow> log_define list \<Rightarrow> string \<Rightarrow> logger_view option \<Rightarrow> logger_view option" where
  "configured env old_value new_value n v = (case find_define n new_value of
     Some i \<Rightarrow> if is_changed old_value i then Some (target env i v) else v
   | None \<Rightarrow> if find_define n old_value \<noteq> None then Some (dropped v) else v)"

lemma logs_changed_effect:
  assumes "files_ok env view" and "logs_ok s" and "defines_ok new_value" and "distinct (map ld_name old_value)"
  shows "\<exists>t. logs_changed env ev old_value new_value s = Some (Inr t) \<and> logs_ok t
    \<and> (\<forall>n. log_view t n = configured env old_value new_value n (log_view s n))"
proof -
  have r: "log_ok s" "ls_root s < length (ls_loggers s)" using assms(2) by (simp_all add: logs_ok_def log_ok_def)
  obtain u where u: "LOG_LEVEL env (ls_root s) ev s = Some (Inr u)" "same_logs s u" "log_ok u"
    using Logger_log_outcome [OF assms(1) r, of "ev_level ev" ev] r(1) by (cases "lg_level (ls_loggers s ! ls_root s) \<le> ev_level ev") (auto simp: LOG_LEVEL_def)
  have u1: "logs_ok u" "log_view u = log_view s" using same_logs_view [OF u(2) assms(2) u(3)] by simp_all
  from apply_new_effect [OF assms(1) u1(1) assms(3), of old_value] obtain t where
    t: "apply_new env old_value new_value u = Inr t" "logs_ok t"
      "\<And>n. log_view t n = (case find_define n new_value of
         Some i \<Rightarrow> if is_changed old_value i then Some (target env i (log_view u n)) else log_view u n | None \<Rightarrow> log_view u n)" by blast
  have d: "logs_ok (drop_old new_value old_value t)" "\<And>n. log_view (drop_old new_value old_value t) n =
      (if find_define n old_value \<noteq> None \<and> find_define n new_value = None then Some (dropped (log_view t n)) else log_view t n)"
    using drop_old_effect [OF t(2) assms(4)] by simp_all
  have "log_view (drop_old new_value old_value t) n = configured env old_value new_value n (log_view s n)" for n
    using d(2) [of n] t(3) [of n] u1(2) by (auto simp: configured_def split: option.splits)
  moreover have "logs_changed env ev old_value new_value s = Some (Inr (drop_old new_value old_value t))"
    by (simp add: logs_changed_def u(1) t(1))
  ultimately show ?thesis using d(1) by blast
qed

text \<open>What counts as a change of a definition: its level or its pattern, and never its appenders.\<close>

lemma is_changed_iff:
  "is_changed old_value i \<longleftrightarrow> (case find_define (ld_name i) old_value of None \<Rightarrow> True
     | Some d \<Rightarrow> ld_level i \<noteq> ld_level d \<or> ld_formatter i \<noteq> ld_formatter d)"
proof -
  have "find_define (ld_name i) old_value = Some d \<Longrightarrow> ld_name d = ld_name i" for d
    unfolding find_define_def find_Some_iff by blast
  then show ?thesis by (cases "find_define (ld_name i) old_value") (auto simp: is_changed_def define_eq_def)
qed

text \<open>
  Property C16. What the listener of the setting \<open>logs\<close> makes of the loggers, for definitions with distinct names and appenders of the two
  known types, while files can be opened and written. A logger whose definition is new, or differs from its old definition in the level or
  the pattern, has exactly the level and the appenders of the definition (those for the console are left out for
  a daemon), a valid formatter of the definition or else the one it had, handed to the appenders without a valid one of their
  own. A logger whose definition is gone lets every level through and has no appenders, so that the root writes for it. All
  others are untouched: those without a definition, and also those whose definition differs from the old one in nothing but its
  appenders, which the comparison does not see. The listener returns and the state stays well-formed.
\<close>

theorem config_applied:
  assumes "files_ok env view" and "logs_ok s" and "defines_ok new_value" and "distinct (map ld_name old_value)"
  shows "\<exists>t. logs_changed env ev old_value new_value s = Some (Inr t) \<and> logs_ok t
    \<and> (\<forall>n. log_view t n = configured env old_value new_value n (log_view s n))
    \<and> (\<forall>i. is_changed old_value i \<longleftrightarrow> (case find_define (ld_name i) old_value of None \<Rightarrow> True
         | Some d \<Rightarrow> ld_level i \<noteq> ld_level d \<or> ld_formatter i \<noteq> ld_formatter d))"
  using logs_changed_effect [OF assms] is_changed_iff by blast

text \<open>
  A change of nothing but appenders is ignored: when the new setting has the same names with the same levels and
  formatters as the old one, the listener does no more than log its line, because the comparison of two definitions compares
  the appenders of one of them with themselves.
\<close>

theorem appender_change_ignored:
  assumes "\<forall>i\<in>set new_value. \<exists>d. find_define (ld_name i) old_value = Some d \<and> ld_level d = ld_level i \<and> ld_formatter d = ld_formatter i"
    and "\<forall>d\<in>set old_value. find_define (ld_name d) new_value \<noteq> None"
  shows "logs_changed env ev old_value new_value s = LOG_LEVEL env (ls_root s) ev s"
proof -
  have n: "find_define n ds = Some d \<Longrightarrow> ld_name d = n" for n ds d by (induction ds) (auto split: if_splits)
  have a: "\<forall>i\<in>set is. \<exists>d. find_define (ld_name i) old_value = Some d \<and> ld_level d = ld_level i \<and> ld_formatter d = ld_formatter i \<Longrightarrow>
      apply_new env old_value is u = Inr u" for "is" u
    by (induction "is" arbitrary: u) (auto simp: define_eq_def dest: n [THEN sym])
  have d: "\<forall>d\<in>set is. find_define (ld_name d) new_value \<noteq> None \<Longrightarrow> drop_old new_value is u = u" for "is" u
    by (induction "is" arbitrary: u) auto
  have "bindE r (\<lambda>u. bindE (apply_new env old_value new_value u) (\<lambda>v. Inr (drop_old new_value old_value v))) = r" for r
    using a [OF assms(1)] d [OF assms(2)] by (cases r) simp_all
  then show ?thesis by (simp add: logs_changed_def option.map_ident)
qed

definition system_define :: "appender_define list \<Rightarrow> log_define" where
  "system_define as = \<lparr>ld_name = ''system'', ld_level = LV_INFO, ld_formatter = ''%m%n'', ld_appenders = as\<rparr>"

definition to_console :: appender_define where "to_console = \<lparr>ad_type = 2, ad_level = LV_WARN, ad_formatter = [], ad_file = []\<rparr>"
definition to_file :: appender_define where "to_file = \<lparr>ad_type = 1, ad_level = LV_DEBUG, ad_formatter = ''%p %m%n'', ad_file = ''a.log''\<rparr>"

lemma logs_ok_start: "logs_ok (new_LoggerManager w)"
proof -
  have "length (ls_loggers (new_LoggerManager w)) = 1"
    by (simp add: new_LoggerManager_def addAppender_def upd_logger_def upd_appender_def Let_def)
  then have "unshared (new_LoggerManager w)" by (simp add: unshared_def)
  then show ?thesis using log_ok_start [of w] by (simp add: logs_ok_def)
qed

theorem config_applied_witness:
  "\<exists>t. logs_changed map_env sample_event [] [system_define [to_console, to_file]] (new_LoggerManager (\<lambda>_. [])) = Some (Inr t)
    \<and> log_view t ''system'' = Some (LV_INFO, Some (new_LogFormatter ''%m%n''),
        [(None, LV_WARN, False, Some (new_LogFormatter ''%m%n'')), (Some ''a.log'', LV_DEBUG, True, Some (new_LogFormatter ''%p %m%n''))])"
proof -
  let ?new = "[system_define [to_console, to_file]]"
  have d: "defines_ok ?new" by (simp add: defines_ok_def system_define_def to_console_def to_file_def)
  have g: "good_pattern ''%m%n''" "good_pattern ''%p %m%n''" "\<not> good_pattern []" by code_simp+
  have "distinct (map ld_name ([] :: log_define list))" by simp
  from config_applied [OF map_env_ok logs_ok_start d this, of sample_event "\<lambda>_. []"] obtain t where
    t: "logs_changed map_env sample_event [] ?new (new_LoggerManager (\<lambda>_. [])) = Some (Inr t)"
      "log_view t ''system'' = configured map_env [] ?new ''system'' (log_view (new_LoggerManager (\<lambda>_. []) :: (string \<Rightarrow> string) log_sys) ''system'')" by blast
  then show ?thesis using g
    by (simp add: configured_def system_define_def is_changed_def target_def formatter_after_def wanted_views_def to_console_def to_file_def map_env_def Let_def)
qed

theorem appender_change_ignored_witness:
  "system_define [to_console] \<noteq> system_define [to_file]
    \<and> (\<forall>s. logs_changed map_env sample_event [system_define [to_console]] [system_define [to_file]] s = LOG_LEVEL map_env (ls_root s) sample_event s)"
proof -
  have "system_define [to_console] \<noteq> system_define [to_file]" by (simp add: system_define_def to_console_def to_file_def)
  moreover have "logs_changed map_env sample_event [system_define [to_console]] [system_define [to_file]] s = LOG_LEVEL map_env (ls_root s) sample_event s" for s
    by (rule appender_change_ignored) (simp_all add: system_define_def)
  ultimately show ?thesis by blast
qed

end
