(* ===== verification/LogYaml.thy ===== *)
theory LogYaml
  imports LogSystem "HOL-Library.Countable"
begin

text \<open>
  The conversions between text and the definitions of loggers, and the printing of loggers, of \<^verbatim>\<open>base/log.cc\<close>. The operations of
  yaml-cpp are a parameter with the laws that printing and parsing, and building and reading, agree. A definition that is printed and read
  again is shown to lose the levels of its appenders.
\<close>

section \<open>Documents\<close>

text \<open>
  The operations of yaml-cpp that the conversions use: a field of a node (\<open>None\<close>: not defined), its text (\<open>None\<close>: it
  throws), its elements; nodes made of a text, of fields in the order of their assignment, of elements; parsing (\<open>None\<close>: it throws)
  and printing.
\<close>

record 'n yaml_ops =
  y_field :: "'n \<Rightarrow> string \<Rightarrow> 'n option"
  y_text :: "'n \<Rightarrow> string option"
  y_items :: "'n \<Rightarrow> 'n list"
  y_str :: "string \<Rightarrow> 'n"
  y_map :: "(string \<times> 'n) list \<Rightarrow> 'n"
  y_seq :: "'n list \<Rightarrow> 'n"
  y_load :: "string \<Rightarrow> 'n option"
  y_show :: "'n \<Rightarrow> string"

section \<open>Definitions of loggers as text\<close>

text \<open>A field that is read when it is there; otherwise the default.\<close>

definition text_or :: "'n yaml_ops \<Rightarrow> 'n \<Rightarrow> string \<Rightarrow> string \<Rightarrow> string option" where
  "text_or y n key dflt = (case y_field y n key of None \<Rightarrow> Some dflt | Some m \<Rightarrow> y_text y m)"

text \<open>One element of \<open>appenders\<close>: \<open>Some None\<close> is one that is skipped, \<open>None\<close> an exception.\<close>

definition read_appender :: "'n yaml_ops \<Rightarrow> 'n \<Rightarrow> appender_define option option" where
  "read_appender y a = (case y_field y a ''type'' of
     None \<Rightarrow> Some None
   | Some t \<Rightarrow> Option.bind (y_text y t) (\<lambda>type.
       if type = ''FileLogAppender'' then
         (case y_field y a ''file'' of
            None \<Rightarrow> Some None
          | Some f \<Rightarrow> Option.bind (y_text y f) (\<lambda>file. Option.bind (text_or y a ''formatter'' []) (\<lambda>fmt.
              Some (Some \<lparr>ad_type = 1, ad_level = LV_UNKNOW, ad_formatter = fmt, ad_file = file\<rparr>))))
       else if type = ''StdoutLogAppender'' then
         Option.bind (text_or y a ''formatter'' []) (\<lambda>fmt.
           Some (Some \<lparr>ad_type = 2, ad_level = LV_UNKNOW, ad_formatter = fmt, ad_file = []\<rparr>))
       else Some None))"

primrec read_appenders :: "'n yaml_ops \<Rightarrow> 'n list \<Rightarrow> appender_define list option" where
  "read_appenders y [] = Some []"
| "read_appenders y (a # as) = Option.bind (read_appender y a) (\<lambda>oa. map_option (\<lambda>xs. case oa of None \<Rightarrow> xs | Some x \<Rightarrow> x # xs) (read_appenders y as))"

definition define_from_string :: "'n yaml_ops \<Rightarrow> string \<Rightarrow> log_define option" where
  "define_from_string y v = Option.bind (y_load y v) (\<lambda>n. case y_field y n ''name'' of
     None \<Rightarrow> None
   | Some m \<Rightarrow> Option.bind (y_text y m) (\<lambda>name. Option.bind (text_or y n ''level'' []) (\<lambda>level. Option.bind (text_or y n ''formatter'' []) (\<lambda>fmt.
       Option.bind (case y_field y n ''appenders'' of None \<Rightarrow> Some [] | Some as \<Rightarrow> read_appenders y (y_items y as)) (\<lambda>as.
         Some \<lparr>ld_name = name, ld_level = LogLevel_FromString level, ld_formatter = fmt, ld_appenders = as\<rparr>)))))"

definition field_if :: "bool \<Rightarrow> string \<Rightarrow> 'n \<Rightarrow> (string \<times> 'n) list" where
  "field_if b key n = (if b then [(key, n)] else [])"

definition appender_node :: "'n yaml_ops \<Rightarrow> appender_define \<Rightarrow> 'n" where
  "appender_node y a = y_map y
     ((if ad_type a = 1 then [(''type'', y_str y ''FileLogAppender''), (''file'', y_str y (ad_file a))]
       else if ad_type a = 2 then [(''type'', y_str y ''StdoutLogAppender'')] else [])
      @ field_if (ad_level a \<noteq> LV_UNKNOW) ''level'' (y_str y (LogLevel_ToString (ad_level a)))
      @ field_if (ad_formatter a \<noteq> []) ''formatter'' (y_str y (ad_formatter a)))"

definition define_to_string :: "'n yaml_ops \<Rightarrow> log_define \<Rightarrow> string" where
  "define_to_string y i = y_show y (y_map y
     ([(''name'', y_str y (ld_name i))]
      @ field_if (ld_level i \<noteq> LV_UNKNOW) ''level'' (y_str y (LogLevel_ToString (ld_level i)))
      @ field_if (ld_formatter i \<noteq> []) ''formatter'' (y_str y (ld_formatter i))
      @ field_if (ld_appenders i \<noteq> []) ''appenders'' (y_seq y (map (appender_node y) (ld_appenders i)))))"

section \<open>Loggers as text\<close>

definition appender_toYamlString :: "'n yaml_ops \<Rightarrow> appender \<Rightarrow> string" where
  "appender_toYamlString y a = y_show y (y_map y
     ((case ap_sink a of
         File filename _ _ \<Rightarrow> [(''type'', y_str y ''FileLogAppender''), (''file'', y_str y filename)]
       | Stdout \<Rightarrow> [(''type'', y_str y ''StdoutLogAppender'')])
      @ field_if (ap_level a \<noteq> LV_UNKNOW) ''level'' (y_str y (LogLevel_ToString (ap_level a)))
      @ (case ap_formatter a of Some fm \<Rightarrow> field_if (ap_hasFormatter a) ''formatter'' (y_str y (fm_pattern fm)) | None \<Rightarrow> [])))"

text \<open>All or nothing: \<open>None\<close> when the text of one of them does not load.\<close>

definition load_all :: "'n yaml_ops \<Rightarrow> string list \<Rightarrow> 'n list option" where
  "load_all y ts = those (map (y_load y) ts)"

definition Logger_toYamlString :: "'n yaml_ops \<Rightarrow> nat \<Rightarrow> 'w log_sys \<Rightarrow> string option" where
  "Logger_toYamlString y l s =
     (let x = ls_loggers s ! l
      in map_option (\<lambda>as. y_show y (y_map y
           ([(''name'', y_str y (lg_name x))]
            @ field_if (lg_level x \<noteq> LV_UNKNOW) ''level'' (y_str y (LogLevel_ToString (lg_level x)))
            @ (case lg_formatter x of Some fm \<Rightarrow> [(''formatter'', y_str y (fm_pattern fm))] | None \<Rightarrow> [])
            @ field_if (as \<noteq> []) ''appenders'' (y_seq y as))))
         (load_all y (map (\<lambda>a. appender_toYamlString y (ls_appenders s ! a)) (lg_appenders x))))"

text \<open>The manager: \<open>names\<close> are the names of the loggers in the order of the map.\<close>

definition LoggerManager_toYamlString :: "'n yaml_ops \<Rightarrow> string list \<Rightarrow> 'w log_sys \<Rightarrow> string option" where
  "LoggerManager_toYamlString y names s =
     Option.bind (those (map (\<lambda>n. Logger_toYamlString y (the (ls_names s n)) s) names)) (\<lambda>ts.
       map_option (\<lambda>ns. y_show y (y_seq y ns)) (load_all y ts))"

section \<open>There and back\<close>

definition yaml_laws :: "'n yaml_ops \<Rightarrow> bool" where
  "yaml_laws y \<longleftrightarrow> (\<forall>es k. distinct (map fst es) \<longrightarrow> y_field y (y_map y es) k = map_of es k)
     \<and> (\<forall>s. y_text y (y_str y s) = Some s) \<and> (\<forall>ns. y_items y (y_seq y ns) = ns) \<and> (\<forall>n. y_load y (y_show y n) = Some n)"

text \<open>What is left of an appender.\<close>

definition kept :: "appender_define \<Rightarrow> appender_define list" where
  "kept a = (if ad_type a = 1 then [a\<lparr>ad_level := LV_UNKNOW\<rparr>] else if ad_type a = 2 then [a\<lparr>ad_level := LV_UNKNOW, ad_file := []\<rparr>] else [])"

lemma read_appender_node:
  assumes "yaml_laws y"
  shows "\<exists>oa. read_appender y (appender_node y a) = Some oa \<and> kept a = (case oa of None \<Rightarrow> [] | Some x \<Rightarrow> [x])"
proof -
  have f: "y_field y (appender_node y a) k = map_of
     ((if ad_type a = 1 then [(''type'', y_str y ''FileLogAppender''), (''file'', y_str y (ad_file a))]
       else if ad_type a = 2 then [(''type'', y_str y ''StdoutLogAppender'')] else [])
      @ field_if (ad_level a \<noteq> LV_UNKNOW) ''level'' (y_str y (LogLevel_ToString (ad_level a)))
      @ field_if (ad_formatter a \<noteq> []) ''formatter'' (y_str y (ad_formatter a))) k" for k
    unfolding appender_node_def using assms unfolding yaml_laws_def by (auto simp: field_if_def)
  have t: "y_text y (y_str y s) = Some s" for s using assms by (simp add: yaml_laws_def)
  show ?thesis
    by (cases "ad_formatter a = []") (auto simp: read_appender_def f t field_if_def text_or_def kept_def)
qed

lemma read_appender_nodes:
  "yaml_laws y \<Longrightarrow> read_appenders y (map (appender_node y) as) = Some (concat (map kept as))"
proof (induction as)
  case (Cons a as)
  obtain oa where "read_appender y (appender_node y a) = Some oa" "kept a = (case oa of None \<Rightarrow> [] | Some x \<Rightarrow> [x])"
    using read_appender_node [OF Cons.prems] by blast
  then show ?case using Cons by (cases oa) simp_all
qed simp

text \<open>
  A definition of a logger that is printed and read again keeps its name, level, formatter and the types, files and
  formatters of its appenders, but every appender loses its level, which is printed and never read, and one that is neither for a
  file nor for the console is lost.
\<close>

theorem define_text_roundtrip:
  assumes "yaml_laws y"
  shows "define_from_string y (define_to_string y i) = Some (i\<lparr>ld_appenders := concat (map kept (ld_appenders i))\<rparr>)"
proof -
  define es where "es = [(''name'', y_str y (ld_name i))]
      @ field_if (ld_level i \<noteq> LV_UNKNOW) ''level'' (y_str y (LogLevel_ToString (ld_level i)))
      @ field_if (ld_formatter i \<noteq> []) ''formatter'' (y_str y (ld_formatter i))
      @ field_if (ld_appenders i \<noteq> []) ''appenders'' (y_seq y (map (appender_node y) (ld_appenders i)))"
  have "distinct (map fst es)" by (simp add: es_def field_if_def)
  define n where "n = y_map y es"
  then have f: "y_field y n k = map_of es k" for k using assms \<open>distinct (map fst es)\<close> by (simp add: yaml_laws_def)
  have l: "y_load y (define_to_string y i) = Some n" using assms by (simp add: define_to_string_def es_def yaml_laws_def n_def)
  have t: "y_text y (y_str y s) = Some s" "y_items y (y_seq y ns) = ns" for s ns using assms by (simp_all add: yaml_laws_def)
  have 1: "y_field y n ''name'' = Some (y_str y (ld_name i))" unfolding f by (simp add: es_def)
  have 2: "text_or y n ''level'' [] = Some (if ld_level i = LV_UNKNOW then [] else LogLevel_ToString (ld_level i))"
    by (simp add: text_or_def f es_def field_if_def t)
  have 3: "text_or y n ''formatter'' [] = Some (ld_formatter i)"
    by (cases "ld_level i = LV_UNKNOW") (simp_all add: text_or_def f es_def field_if_def t)
  have 4: "(case y_field y n ''appenders'' of None \<Rightarrow> Some [] | Some as \<Rightarrow> read_appenders y (y_items y as))
      = Some (concat (map kept (ld_appenders i)))"
    using read_appender_nodes [OF assms, of "ld_appenders i"]
    by (cases "ld_level i = LV_UNKNOW"; cases "ld_formatter i = []") (auto simp: f es_def field_if_def t)
  have 5: "LogLevel_FromString (if ld_level i = LV_UNKNOW then [] else LogLevel_ToString (ld_level i)) = ld_level i"
  proof -
    have "LogLevel_FromString [] = LV_UNKNOW" by (simp add: LogLevel_FromString_def)
    then show ?thesis by (simp add: level_text)
  qed
  show ?thesis unfolding define_from_string_def l bind.bind_lunit 1 option.case 2 3 4 t 5 by simp
qed

text \<open>Documents as trees, printed as their number in unary.\<close>

datatype tree_node = T_str string | T_map "(string \<times> tree_node) list" | T_seq "tree_node list"

instance tree_node :: countable by countable_datatype

definition tree_ops :: "tree_node yaml_ops" where
  "tree_ops = \<lparr>y_field = \<lambda>n k. case n of T_map es \<Rightarrow> map_of es k | _ \<Rightarrow> None, y_text = \<lambda>n. case n of T_str s \<Rightarrow> Some s | _ \<Rightarrow> None,
     y_items = \<lambda>n. case n of T_seq ns \<Rightarrow> ns | _ \<Rightarrow> [], y_str = T_str, y_map = T_map, y_seq = T_seq,
     y_load = \<lambda>s. Some (from_nat (length s)), y_show = \<lambda>n. replicate (to_nat n) CHR ''a''\<rparr>"

theorem define_text_roundtrip_witness:
  "\<exists>y :: tree_node yaml_ops. define_from_string y (define_to_string y \<lparr>ld_name = ''a'', ld_level = LV_INFO, ld_formatter = [],
       ld_appenders = [\<lparr>ad_type = 2, ad_level = LV_ERROR, ad_formatter = ''%m'', ad_file = []\<rparr>]\<rparr>)
     = Some \<lparr>ld_name = ''a'', ld_level = LV_INFO, ld_formatter = [],
       ld_appenders = [\<lparr>ad_type = 2, ad_level = LV_UNKNOW, ad_formatter = ''%m'', ad_file = []\<rparr>]\<rparr>"
proof -
  have "yaml_laws tree_ops" by (simp add: yaml_laws_def tree_ops_def)
  from define_text_roundtrip [OF this] show ?thesis by (intro exI [of _ tree_ops]) (simp add: kept_def)
qed

end
