(* ===== verification/LexicalCast.thy ===== *)
theory LexicalCast
  imports LogYaml Ordered_Set
begin

text \<open>
  The conversions between text and containers of src/hiper/base/lexicalcast.h, over the operations of yaml-cpp of LogYaml and the ordered
  containers of Ordered_Set. The conversion of an element is a parameter, so they nest; boost::lexical_cast is one such conversion.
  The locale container states what an insertion loop relies on and is interpreted on every container. The lemmas show that
  containers survive printing and reading.
\<close>

section \<open>The conversions of containers\<close>

text \<open>
  The loops over the elements of a node: \<open>rd\<close> is the conversion of an element from its text and \<open>push\<close> the insertion
  into the container; \<open>None\<close> is an exception. The fields of a node come with their keys, which \<open>entries\<close> lists.
\<close>

primrec cast_items :: "'n yaml_ops \<Rightarrow> (string \<Rightarrow> 'a option) \<Rightarrow> ('a \<Rightarrow> 'c \<Rightarrow> 'c) \<Rightarrow> 'n list \<Rightarrow> 'c \<Rightarrow> 'c option" where
  "cast_items y rd push [] vec = Some vec"
| "cast_items y rd push (n # ns) vec = Option.bind (rd (y_show y n)) (\<lambda>x. cast_items y rd push ns (push x vec))"

primrec cast_entries :: "'n yaml_ops \<Rightarrow> (string \<Rightarrow> 'a option) \<Rightarrow> (string \<times> 'a \<Rightarrow> 'c \<Rightarrow> 'c) \<Rightarrow> (string \<times> 'n) list \<Rightarrow> 'c \<Rightarrow> 'c option" where
  "cast_entries y rd push [] vec = Some vec"
| "cast_entries y rd push (e # es) vec = Option.bind (rd (y_show y (snd e))) (\<lambda>x. cast_entries y rd push es (push (fst e, x) vec))"

primrec push_nodes :: "'n yaml_ops \<Rightarrow> ('a \<Rightarrow> string option) \<Rightarrow> 'a list \<Rightarrow> 'n list option" where
  "push_nodes y wr [] = Some []"
| "push_nodes y wr (x # xs) = Option.bind (wr x) (\<lambda>t. Option.bind (y_load y t) (\<lambda>n. map_option ((#) n) (push_nodes y wr xs)))"

primrec field_nodes :: "'n yaml_ops \<Rightarrow> ('a \<Rightarrow> string option) \<Rightarrow> (string \<times> 'a) list \<Rightarrow> (string \<times> 'n) list option" where
  "field_nodes y wr [] = Some []"
| "field_nodes y wr (e # es) = Option.bind (wr (snd e)) (\<lambda>t. Option.bind (y_load y t) (\<lambda>n. map_option ((#) (fst e, n)) (field_nodes y wr es)))"

text \<open>\<^verbatim>\<open>vector\<close> and \<^verbatim>\<open>list\<close>.\<close>

definition vector_push :: "'a \<Rightarrow> 'a list \<Rightarrow> 'a list" where "vector_push x vec = vec @ [x]"

definition vector_from_string :: "'n yaml_ops \<Rightarrow> (string \<Rightarrow> 'a option) \<Rightarrow> string \<Rightarrow> 'a list option" where
  "vector_from_string y rd v = Option.bind (y_load y v) (\<lambda>node. cast_items y rd vector_push (y_items y node) [])"

definition vector_to_string :: "'n yaml_ops \<Rightarrow> ('a \<Rightarrow> string option) \<Rightarrow> 'a list \<Rightarrow> string option" where
  "vector_to_string y wr v = map_option (\<lambda>ns. y_show y (y_seq y ns)) (push_nodes y wr v)"

definition list_from_string :: "'n yaml_ops \<Rightarrow> (string \<Rightarrow> 'a option) \<Rightarrow> string \<Rightarrow> 'a list option" where
  "list_from_string y rd v = Option.bind (y_load y v) (\<lambda>node. cast_items y rd vector_push (y_items y node) [])"

definition list_to_string :: "'n yaml_ops \<Rightarrow> ('a \<Rightarrow> string option) \<Rightarrow> 'a list \<Rightarrow> string option" where
  "list_to_string y wr v = map_option (\<lambda>ns. y_show y (y_seq y ns)) (push_nodes y wr v)"

text \<open>\<^verbatim>\<open>set\<close>, the increasing list of its elements, and \<^verbatim>\<open>unordered_set\<close>, iterated in the order \<open>xs\<close> of its table.\<close>

definition set_from_string :: "'n yaml_ops \<Rightarrow> ('a \<Rightarrow> 'a \<Rightarrow> bool) \<Rightarrow> (string \<Rightarrow> 'a option) \<Rightarrow> string \<Rightarrow> 'a list option" where
  "set_from_string y lt rd v = Option.bind (y_load y v) (\<lambda>node. cast_items y rd (set_insert lt) (y_items y node) [])"

definition set_to_string :: "'n yaml_ops \<Rightarrow> ('a \<Rightarrow> string option) \<Rightarrow> 'a list \<Rightarrow> string option" where
  "set_to_string y wr v = map_option (\<lambda>ns. y_show y (y_seq y ns)) (push_nodes y wr v)"

definition unordered_set_from_string :: "'n yaml_ops \<Rightarrow> (string \<Rightarrow> 'a option) \<Rightarrow> string \<Rightarrow> 'a set option" where
  "unordered_set_from_string y rd v = Option.bind (y_load y v) (\<lambda>node. cast_items y rd insert (y_items y node) {})"

definition unordered_set_to_string :: "'n yaml_ops \<Rightarrow> ('a \<Rightarrow> string option) \<Rightarrow> 'a list \<Rightarrow> string option" where
  "unordered_set_to_string y wr xs = map_option (\<lambda>ns. y_show y (y_seq y ns)) (push_nodes y wr xs)"

text \<open>\<^verbatim>\<open>map\<close> and \<^verbatim>\<open>unordered_map\<close> with keys that are strings: \<^verbatim>\<open>insert\<close> keeps the first value of a key.\<close>

definition map_push :: "(string \<Rightarrow> string \<Rightarrow> bool) \<Rightarrow> string \<times> 'a \<Rightarrow> (string \<times> 'a) list \<Rightarrow> (string \<times> 'a) list" where
  "map_push lt e m = (if map_find lt (fst e) m = None then map_assign lt (fst e) (snd e) m else m)"

definition map_from_string :: "'n yaml_ops \<Rightarrow> ('n \<Rightarrow> (string \<times> 'n) list) \<Rightarrow> (string \<Rightarrow> string \<Rightarrow> bool) \<Rightarrow> (string \<Rightarrow> 'a option) \<Rightarrow> string
    \<Rightarrow> (string \<times> 'a) list option" where
  "map_from_string y entries lt rd v = Option.bind (y_load y v) (\<lambda>node. cast_entries y rd (map_push lt) (entries node) [])"

definition map_to_string :: "'n yaml_ops \<Rightarrow> ('a \<Rightarrow> string option) \<Rightarrow> (string \<times> 'a) list \<Rightarrow> string option" where
  "map_to_string y wr v = map_option (\<lambda>es. y_show y (y_map y es)) (field_nodes y wr v)"

definition unordered_map_push :: "string \<times> 'a \<Rightarrow> (string \<rightharpoonup> 'a) \<Rightarrow> (string \<rightharpoonup> 'a)" where
  "unordered_map_push e m = (if m (fst e) = None then m(fst e \<mapsto> snd e) else m)"

definition unordered_map_from_string :: "'n yaml_ops \<Rightarrow> ('n \<Rightarrow> (string \<times> 'n) list) \<Rightarrow> (string \<Rightarrow> 'a option) \<Rightarrow> string \<Rightarrow> (string \<rightharpoonup> 'a) option" where
  "unordered_map_from_string y entries rd v = Option.bind (y_load y v) (\<lambda>node. cast_entries y rd unordered_map_push (entries node) Map.empty)"

definition unordered_map_to_string :: "'n yaml_ops \<Rightarrow> ('a \<Rightarrow> string option) \<Rightarrow> (string \<times> 'a) list \<Rightarrow> string option" where
  "unordered_map_to_string y wr es = map_option (\<lambda>es. y_show y (y_map y es)) (field_nodes y wr es)"

section \<open>There and back\<close>

text \<open>An element that is printed, loaded, printed as a node and read again is what it was.\<close>

definition casts_back :: "'n yaml_ops \<Rightarrow> (string \<Rightarrow> 'a option) \<Rightarrow> ('b \<Rightarrow> string option) \<Rightarrow> 'b \<Rightarrow> 'a \<Rightarrow> bool" where
  "casts_back y rd wr x x' \<longleftrightarrow> (\<exists>t n. wr x = Some t \<and> y_load y t = Some n \<and> rd t = Some x' \<and> rd (y_show y n) = Some x')"

text \<open>
  A container: inserting its elements, in an order in which it may list them, into the empty one gives it back.
\<close>

locale container =
  fixes push :: "'a \<Rightarrow> 'c \<Rightarrow> 'c" and start :: 'c and listing :: "'c \<Rightarrow> 'a list \<Rightarrow> bool"
  assumes rebuild: "listing c xs \<Longrightarrow> fold push xs start = c"
begin

lemma items_back:
  "\<forall>x\<in>set xs. casts_back y rd wr x x \<Longrightarrow> \<exists>ns. push_nodes y wr xs = Some ns \<and> (\<forall>d. cast_items y rd push ns d = Some (fold push xs d))"
  by (induction xs) (auto simp: casts_back_def)

lemma sequence_back:
  assumes "yaml_laws y" and "\<forall>x\<in>set xs. casts_back y rd wr x x" and "listing c xs"
  shows "casts_back y (\<lambda>v. Option.bind (y_load y v) (\<lambda>n. cast_items y rd push (y_items y n) start))
    (\<lambda>xs. map_option (\<lambda>ns. y_show y (y_seq y ns)) (push_nodes y wr xs)) xs c"
  using items_back [OF assms(2)] rebuild [OF assms(3)] assms(1) by (auto simp: casts_back_def yaml_laws_def)

end

lemma entries_back:
  "\<forall>e\<in>set es. casts_back y rd wr (snd e) (snd e) \<Longrightarrow>
    \<exists>ns. field_nodes y wr es = Some ns \<and> map fst ns = map fst es \<and> (\<forall>d. cast_entries y rd push ns d = Some (fold push es d))"
  by (induction es) (auto simp: casts_back_def)

text \<open>The entries of a node that was made of fields.\<close>

definition entries_law :: "'n yaml_ops \<Rightarrow> ('n \<Rightarrow> (string \<times> 'n) list) \<Rightarrow> bool" where
  "entries_law y entries \<longleftrightarrow> (\<forall>es. distinct (map fst es) \<longrightarrow> entries (y_map y es) = es)"

lemma fields_back:
  assumes "container push start listing" and "yaml_laws y" and "entries_law y entries" and "\<forall>e\<in>set es. casts_back y rd wr (snd e) (snd e)"
    and "distinct (map fst es)" and "listing c es"
  shows "casts_back y (\<lambda>v. Option.bind (y_load y v) (\<lambda>n. cast_entries y rd push (entries n) start))
    (\<lambda>es. map_option (\<lambda>ns. y_show y (y_map y ns)) (field_nodes y wr es)) es c"
  using entries_back [OF assms(4), of push] container.rebuild [OF assms(1,6)] assms(2,3,5) by (auto simp: casts_back_def yaml_laws_def entries_law_def)

lemma set_insert_last: "\<forall>x\<in>set xs. lt x a \<and> \<not> lt a x \<Longrightarrow> set_insert lt a xs = xs @ [a]"
  by (induction xs) auto

lemma set_rebuild:
  assumes "sorted_wrt (\<lambda>a b. lt a b \<and> \<not> lt b a) xs"
  shows "fold (set_insert lt) xs [] = xs"
  using assms by (induction xs rule: rev_induct) (simp_all add: sorted_wrt_append set_insert_last)

lemma map_push_last: "\<forall>e\<in>set m. lt (fst e) k \<and> \<not> lt k (fst e) \<Longrightarrow> map_push lt (k, v) m = m @ [(k, v)]"
  by (induction m) (auto simp: map_push_def split: if_splits)

lemma map_rebuild:
  assumes "sorted_wrt (\<lambda>d e. lt (fst d) (fst e) \<and> \<not> lt (fst e) (fst d)) es"
  shows "fold (map_push lt) es [] = es"
  using assms
proof (induction es rule: rev_induct)
  case (snoc e es)
  then show ?case using map_push_last [of es lt "fst e" "snd e"] by (simp add: sorted_wrt_append)
qed simp

lemma unordered_map_rebuild: "distinct (map fst es) \<Longrightarrow> fold unordered_map_push es Map.empty = map_of es"
proof (induction es rule: rev_induct)
  case (snoc e es)
  then have "map_of es (fst e) = None" by (simp add: map_of_eq_None_iff)
  then show ?case using snoc by (cases e) (auto simp: unordered_map_push_def map_add_def fun_eq_iff split: option.split)
qed simp

interpretation vectors: container vector_push "[]" "\<lambda>c xs. c = xs"
proof unfold_locales
  fix c xs :: "'a list"
  have "fold vector_push xs d = d @ xs" for d by (induction xs arbitrary: d) (simp_all add: vector_push_def)
  then show "c = xs \<Longrightarrow> fold vector_push xs [] = c" by simp
qed

interpretation sets: container "set_insert lt" "[]" "\<lambda>c xs. c = xs \<and> sorted_wrt (\<lambda>a b. lt a b \<and> \<not> lt b a) xs" for lt
  by unfold_locales (simp add: set_rebuild)

interpretation unordered_sets: container insert "{}" "\<lambda>c xs. c = set xs"
  by unfold_locales (simp add: union_set_fold [symmetric])

interpretation maps: container "map_push lt" "[]" "\<lambda>c es. c = es \<and> sorted_wrt (\<lambda>d e. lt (fst d) (fst e) \<and> \<not> lt (fst e) (fst d)) es" for lt
  by unfold_locales (simp add: map_rebuild)

interpretation unordered_maps: container unordered_map_push Map.empty "\<lambda>c es. c = map_of es \<and> distinct (map fst es)"
  by unfold_locales (simp add: unordered_map_rebuild)

text \<open>
  Property C25. A container of elements that survive the conversions survives them itself, so containers of containers do too:
  a vector, a list, an ordered set, a hash set in any order of its table, and the two kinds of map.
\<close>

theorem containers_cast_back:
  assumes "yaml_laws y" and "entries_law y entries"
  shows "((\<forall>x\<in>set xs. casts_back y rd wr x x) \<longrightarrow>
      casts_back y (vector_from_string y rd) (vector_to_string y wr) xs xs \<and> casts_back y (list_from_string y rd) (list_to_string y wr) xs xs
      \<and> casts_back y (unordered_set_from_string y rd) (unordered_set_to_string y wr) xs (set xs)
      \<and> (sorted_wrt (\<lambda>a b. lt a b \<and> \<not> lt b a) xs \<longrightarrow> casts_back y (set_from_string y lt rd) (set_to_string y wr) xs xs))
    \<and> ((\<forall>e\<in>set es. casts_back y rd wr (snd e) (snd e)) \<and> distinct (map fst es) \<longrightarrow>
      casts_back y (unordered_map_from_string y entries rd) (unordered_map_to_string y wr) es (map_of es)
      \<and> (sorted_wrt (\<lambda>d e. lk (fst d) (fst e) \<and> \<not> lk (fst e) (fst d)) es \<longrightarrow> casts_back y (map_from_string y entries lk rd) (map_to_string y wr) es es))"
proof (intro conjI impI)
  assume x: "\<forall>x\<in>set xs. casts_back y rd wr x x"
  show "casts_back y (vector_from_string y rd) (vector_to_string y wr) xs xs" "casts_back y (list_from_string y rd) (list_to_string y wr) xs xs"
    using vectors.sequence_back [OF assms(1) x refl]
    by (simp_all add: vector_from_string_def [abs_def] vector_to_string_def [abs_def] list_from_string_def [abs_def] list_to_string_def [abs_def])
  show "casts_back y (unordered_set_from_string y rd) (unordered_set_to_string y wr) xs (set xs)"
    using unordered_sets.sequence_back [OF assms(1) x refl] by (simp add: unordered_set_from_string_def [abs_def] unordered_set_to_string_def [abs_def])
  assume s: "sorted_wrt (\<lambda>a b. lt a b \<and> \<not> lt b a) xs"
  show "casts_back y (set_from_string y lt rd) (set_to_string y wr) xs xs"
    using sets.sequence_back [OF assms(1) x conjI [OF refl s]] by (simp add: set_from_string_def [abs_def] set_to_string_def [abs_def])
next
  assume e: "(\<forall>e\<in>set es. casts_back y rd wr (snd e) (snd e)) \<and> distinct (map fst es)"
  then show "casts_back y (unordered_map_from_string y entries rd) (unordered_map_to_string y wr) es (map_of es)"
    using fields_back [OF unordered_maps.container_axioms assms conjunct1 [OF e]]
    by (simp add: unordered_map_from_string_def [abs_def] unordered_map_to_string_def [abs_def])
  assume s: "sorted_wrt (\<lambda>d e. lk (fst d) (fst e) \<and> \<not> lk (fst e) (fst d)) es"
  show "casts_back y (map_from_string y entries lk rd) (map_to_string y wr) es es"
    using fields_back [OF maps.container_axioms assms conjunct1 [OF e]] e s by (simp add: map_from_string_def [abs_def] map_to_string_def [abs_def])
qed

text \<open>The setting \<open>logs\<close> is a set of definitions: those whose appenders have no level of their own and a known type survive.\<close>

lemma define_casts_back:
  assumes "yaml_laws y" and "\<forall>a\<in>set (ld_appenders i). kept a = [a]"
  shows "casts_back y (define_from_string y) (\<lambda>i. Some (define_to_string y i)) i i"
proof -
  have "concat (map kept as) = as" if "\<forall>a\<in>set as. kept a = [a]" for as using that by (induction as) simp_all
  then have "i\<lparr>ld_appenders := concat (map kept (ld_appenders i))\<rparr> = i" using assms(2) by simp
  then have r: "define_from_string y (define_to_string y i) = Some i" using define_text_roundtrip [OF assms(1), of i] by simp
  obtain n where n: "define_to_string y i = y_show y n" by (simp add: define_to_string_def)
  then show ?thesis using r assms(1) by (simp add: casts_back_def yaml_laws_def)
qed

definition tree_entries :: "tree_node \<Rightarrow> (string \<times> tree_node) list" where
  "tree_entries n = (case n of T_map es \<Rightarrow> es | _ \<Rightarrow> [])"

definition name_define :: "string \<Rightarrow> log_define" where
  "name_define n = \<lparr>ld_name = n, ld_level = LV_INFO, ld_formatter = [], ld_appenders = []\<rparr>"

theorem containers_cast_back_witness:
  "casts_back tree_ops (set_from_string tree_ops (\<lambda>a b. length (ld_name a) < length (ld_name b)) (define_from_string tree_ops))
    (set_to_string tree_ops (\<lambda>i. Some (define_to_string tree_ops i))) [name_define ''root'', name_define ''system''] [name_define ''root'', name_define ''system'']"
proof -
  have y: "yaml_laws tree_ops" "entries_law tree_ops tree_entries" by (simp_all add: yaml_laws_def tree_ops_def entries_law_def tree_entries_def)
  let ?xs = "[name_define ''root'', name_define ''system'']"
  have "\<forall>x\<in>set ?xs. casts_back tree_ops (define_from_string tree_ops) (\<lambda>i. Some (define_to_string tree_ops i)) x x"
    using define_casts_back [OF y(1)] by (simp add: name_define_def)
  moreover have "sorted_wrt (\<lambda>a b. length (ld_name a) < length (ld_name b) \<and> \<not> length (ld_name b) < length (ld_name a)) ?xs" by (simp add: name_define_def)
  ultimately show ?thesis
    using containers_cast_back [OF y, where xs = ?xs and rd = "define_from_string tree_ops" and wr = "\<lambda>i. Some (define_to_string tree_ops i)"
      and lt = "\<lambda>a b. length (ld_name a) < length (ld_name b)" and es = "[]"] by blast
qed

end
