(* ===== verification/ConfigLog.thy ===== *)
theory ConfigLog
  imports Config LogConfig LexicalCast
begin

text \<open>
  The setting \<open>logs\<close> across the components: a document is loaded by \<open>Config\<close>, its text is read as a set of definitions by the conversions
  of \<open>LexicalCast\<close> and \<open>LogYaml\<close>, the change notifies the listener of \<^verbatim>\<open>LogIniter\<close>, and the loggers of \<open>LogSystem\<close> become what
  the definitions say.
\<close>

section \<open>The setting of the loggers\<close>

text \<open>
  The listener that \<^verbatim>\<open>LogIniter\<close> registers: \<open>get\<close> reads the definitions out of a value of the setting. It works on the
  loggers; a run that stops at a null pointer counts as one that does not come back.
\<close>

definition logs_listener :: "'w log_env \<Rightarrow> log_event \<Rightarrow> ('v \<Rightarrow> log_define list) \<Rightarrow> ('v, 'w log_sys) on_change_cb" where
  "logs_listener env ev get old new w = (case logs_changed env ev (get old) (get new) w of
     Some (Inr t) \<Rightarrow> (True, t)
   | _ \<Rightarrow> (False, w))"

text \<open>The registration of the setting with its empty default, and of the listener.\<close>

definition LogIniter :: "'w log_env \<Rightarrow> log_event \<Rightarrow> ('v \<Rightarrow> log_define list) \<Rightarrow> string \<Rightarrow> 'v \<Rightarrow> ('v, 'w log_sys) config \<Rightarrow> config_error + ('v, 'w log_sys) config" where
  "LogIniter env ev get ty none s = bindE (Config_Lookup ty ''logs'' none ''logs config'' s) (\<lambda>(i, s1). case i of
     None \<Rightarrow> Inr s1
   | Some k \<Rightarrow> Inr (snd (addListener k (logs_listener env ev get) s1)))"

text \<open>The register with the setting alone, at the value \<open>none\<close>, over the loggers \<open>w\<close>.\<close>

definition with_logs :: "'w log_env \<Rightarrow> log_event \<Rightarrow> ('v \<Rightarrow> log_define list) \<Rightarrow> string \<Rightarrow> 'v \<Rightarrow> 'w log_sys \<Rightarrow> ('v, 'w log_sys) config" where
  "with_logs env ev get ty none w = (new_Config w)\<lparr>cf_datas := [''logs'' \<mapsto> 0], cf_fun_id := (\<lambda>_. 0)(ty := 1),
     cf_vars := [(new_ConfigVar ty ''logs'' none ''logs config'')\<lparr>cv_cbs := [(1, logs_listener env ev get)]\<rparr>]\<rparr>"

lemma logs_valid: "name_valid ''logs''"
  by (simp add: name_valid_def name_chars_def)

lemma LogIniter_start: "LogIniter env ev get ty none (new_Config w) = Inr (with_logs env ev get ty none w)"
  using logs_valid
  by (simp add: LogIniter_def Config_Lookup_def new_Config_def addListener_def upd_var_def with_logs_def new_ConfigVar_def Let_def)

lemma other_nodes:
  assumes "cf_datas s = [''logs'' \<mapsto> i]"
  shows "\<forall>(k, _)\<in>set ms. name_valid k \<and> k \<noteq> ''logs'' \<Longrightarrow> fold (load_node y c) ms s = s"
  by (induction ms) (auto simp: load_node_def LookupBase_def assms valid_lower)

lemma logs_node:
  assumes "ToLower (fst p) = fst p" and "fst p = ''logs''" and "FromStr c ty (node_text y (snd p)) = Some v" and "v \<noteq> old"
    and "logs_changed env ev (get old) (get v) w = Some (Inr u)"
  shows "load_node y c p (with_logs env ev get ty old w) = with_logs env ev get ty v u"
  using assms by (simp add: load_node_def LookupBase_def with_logs_def fromString_def node_text_def [symmetric] new_ConfigVar_def setValue_def
      logs_listener_def new_Config_def upd_var_def Let_def)

section \<open>The text of the setting\<close>

text \<open>\<^verbatim>\<open>LogDefine::operator<\<close> compares the names, as sequences of unsigned bytes.\<close>

fun name_less :: "string \<Rightarrow> string \<Rightarrow> bool" where
  "name_less xs [] \<longleftrightarrow> False"
| "name_less [] (y # ys) \<longleftrightarrow> True"
| "name_less (x # xs) (y # ys) \<longleftrightarrow> code x < code y \<or> code x = code y \<and> name_less xs ys"

definition define_less :: "log_define \<Rightarrow> log_define \<Rightarrow> bool" where
  "define_less a b \<longleftrightarrow> name_less (ld_name a) (ld_name b)"

lemma name_less_irrefl: "\<not> name_less xs xs"
  by (induction xs) auto

lemma name_less_trans: "name_less xs ys \<Longrightarrow> name_less ys zs \<Longrightarrow> name_less xs zs"
proof (induction xs ys arbitrary: zs rule: name_less.induct)
  case (2 y ys)
  then show ?case by (cases zs) auto
next
  case (3 x xs y ys)
  then show ?case by (cases zs) auto
qed simp

lemma name_less_weak: "name_less xs zs \<Longrightarrow> name_less xs ys \<or> name_less ys zs"
proof (induction xs zs arbitrary: ys rule: name_less.induct)
  case (2 y ys')
  then show ?case by (cases ys) auto
next
  case (3 x xs z zs)
  then show ?case by (cases ys) auto
qed simp

interpretation define_order: strict_weak define_less
  by unfold_locales (auto simp: define_less_def name_less_irrefl dest: name_less_trans name_less_weak)

text \<open>\<^verbatim>\<open>LexicalCast<std::string, std::set<LogDefine>>\<close>.\<close>

definition defines_from_string :: "'n yaml_ops \<Rightarrow> string \<Rightarrow> log_define list option" where
  "defines_from_string yo = set_from_string yo define_less (define_from_string yo)"

text \<open>What reads as an appender has one of the two types, and never a level.\<close>

definition as_read :: "appender_define \<Rightarrow> bool" where
  "as_read a \<longleftrightarrow> (ad_type a = 1 \<or> ad_type a = 2) \<and> ad_level a = LV_UNKNOW"

definition read_ok :: "log_define \<Rightarrow> bool" where "read_ok i \<longleftrightarrow> list_all as_read (ld_appenders i)"

lemma read_appender_ok: "read_appender yo n = Some (Some a) \<Longrightarrow> as_read a"
  by (auto simp: read_appender_def as_read_def bind_eq_Some_conv split: option.splits if_splits)

lemma read_appenders_ok: "read_appenders yo ns = Some as \<Longrightarrow> list_all as_read as"
proof (induction ns arbitrary: as)
  case (Cons n ns)
  then obtain oa xs where "read_appender yo n = Some oa" "read_appenders yo ns = Some xs" "as = (case oa of None \<Rightarrow> xs | Some x \<Rightarrow> x # xs)"
    by (auto simp: bind_eq_Some_conv)
  then show ?case using Cons.IH [of xs] read_appender_ok [of yo n] by (cases oa) auto
qed simp

lemma define_from_string_ok: "define_from_string yo t = Some i \<Longrightarrow> read_ok i"
  by (auto simp: define_from_string_def read_ok_def bind_eq_Some_conv split: option.splits dest!: read_appenders_ok)

lemma cast_items_ok:
  "cast_items yo (define_from_string yo) (set_insert define_less) ns vec = Some ds \<Longrightarrow> sorted_wrt define_less vec \<Longrightarrow> \<forall>i\<in>set vec. read_ok i \<Longrightarrow>
   sorted_wrt define_less ds \<and> (\<forall>i\<in>set ds. read_ok i)"
proof (induction ns arbitrary: vec)
  case (Cons n ns)
  then obtain i where i: "define_from_string yo (y_show yo n) = Some i"
    "cast_items yo (define_from_string yo) (set_insert define_less) ns (set_insert define_less i vec) = Some ds" by (auto simp: bind_eq_Some_conv)
  have "\<forall>j\<in>set (set_insert define_less i vec). read_ok j"
    using define_order.set_insert_elems [of i vec] Cons.prems(3) define_from_string_ok [OF i(1)] by blast
  then show ?case using Cons.IH [OF i(2) define_order.set_insert_sorted [OF Cons.prems(2)]] by blast
qed simp

lemma sorted_names: "sorted_wrt define_less ds \<Longrightarrow> distinct (map ld_name ds)"
proof (induction ds)
  case (Cons d ds)
  have "ld_name d \<notin> set (map ld_name ds)"
  proof
    assume "ld_name d \<in> set (map ld_name ds)"
    then obtain e where "e \<in> set ds" "ld_name e = ld_name d" by auto
    then show False using Cons.prems name_less_irrefl [of "ld_name d"] by (auto simp: define_less_def)
  qed
  then show ?case using Cons by simp
qed simp

lemma defines_from_string_ok: "defines_from_string yo t = Some ds \<Longrightarrow> defines_ok ds \<and> (\<forall>i\<in>set ds. read_ok i)"
  using cast_items_ok [of yo _ "[]" ds] sorted_names [of ds]
  by (auto simp: defines_from_string_def set_from_string_def bind_eq_Some_conv defines_ok_def read_ok_def as_read_def list_all_iff)

section \<open>From the document to the loggers\<close>

text \<open>
  Property C13. From the configuration file to the loggers. \<^verbatim>\<open>LogIniter\<close> registers the setting \<open>logs\<close> at its empty default. In a
  register with this setting alone, at any value \<open>old\<close> and over any loggers that earlier loads may have left, loading a document whose node
  \<open>logs\<close> the program's conversion reads as the definitions \<open>ds\<close>, which do not compare equal to the old ones, gives the setting
  these definitions and leaves the loggers as the listener configures them (\<open>configured\<close>: a definition that differs from the old one in nothing but
  its appenders leaves its logger as it was). No other node of the document has any effect. The definitions read have
  distinct names, appenders of the two known types, and no level on any appender. The setting and its listener are as
  before, so that further documents can be loaded. Files can be opened and written; yaml-cpp is a parameter.
\<close>

theorem document_configures_loggers:
  assumes "files_ok env view" and "logs_ok w" and "defines_ok (get old)"
    and "members y [] root ms" and "distinct (map fst ms)" and "map_of ms ''logs'' = Some d"
    and "\<And>t. map_option get (FromStr c ty t) = defines_from_string yo t"
    and "defines_from_string yo (node_text y d) = Some ds" and "\<not> list_all2 define_eq ds (get old)"
  shows "LogIniter env ev get ty none (new_Config first) = Inr (with_logs env ev get ty none first)
    \<and> (\<exists>u v. LoadFromYaml y c root (with_logs env ev get ty old w) = Some (with_logs env ev get ty v u)
        \<and> get v = ds \<and> logs_ok u \<and> (\<forall>n. log_view u n = configured env (get old) ds n (log_view w n))
        \<and> defines_ok ds \<and> (\<forall>i\<in>set ds. \<forall>a\<in>set (ld_appenders i). ad_level a = LV_UNKNOW))"
proof -
  let ?s = "with_logs env ev get ty old w"
  have valid: "\<forall>(k, _)\<in>set ms. name_valid k" by (rule members_valid(1) [OF assms(4)])
  obtain as bs where ms: "ms = as @ (''logs'', d) # bs" using split_list [OF map_of_SomeD [OF assms(6)]] by blast
  have n: "''logs'' \<notin> set (map fst as)" "''logs'' \<notin> set (map fst bs)" using assms(5) unfolding ms by simp_all
  have nv: "name_valid (fst m)" if "m \<in> set as \<or> m \<in> set bs" for m using valid that unfolding ms by (cases m) auto
  have a: "\<forall>(k, _)\<in>set as. name_valid k \<and> k \<noteq> ''logs''" and b: "\<forall>(k, _)\<in>set bs. name_valid k \<and> k \<noteq> ''logs''"
    using nv n by (simp_all add: split_def) (metis image_eqI)+
  obtain v where v: "FromStr c ty (node_text y d) = Some v" "get v = ds" using assms(7) [of "node_text y d"] assms(8) by auto
  have ds: "defines_ok ds" "\<forall>i\<in>set ds. read_ok i" using defines_from_string_ok [OF assms(8)] by simp_all
  have "list_all2 define_eq xs xs" for xs by (simp add: list_all2_refl define_eq_def)
  then have ne: "v \<noteq> old" using assms(9) v(2) by auto
  have o: "distinct (map ld_name (get old))" using assms(3) by (simp add: defines_ok_def)
  obtain u where u: "logs_changed env ev (get old) (get v) w = Some (Inr u)" "logs_ok u"
      "\<forall>n. log_view u n = configured env (get old) (get v) n (log_view w n)"
    using logs_changed_effect [OF assms(1,2) ds(1) o, of ev] v(2) by blast
  let ?t = "with_logs env ev get ty v u"
  have "load_node y c (''logs'', d) ?s = ?t"
    by (rule logs_node) (use valid_lower [OF logs_valid] v(1) ne u(1) in simp_all)
  moreover have "fold (load_node y c) as ?s = ?s" by (rule other_nodes [OF _ a, where i = 0]) (simp add: with_logs_def)
  moreover have "fold (load_node y c) bs ?t = ?t" by (rule other_nodes [OF _ b, where i = 0]) (simp add: with_logs_def)
  ultimately have "fold (load_node y c) ms ?s = ?t" by (simp add: ms)
  then have "LoadFromYaml y c root ?s = Some ?t"
    using members_listed(1) [OF assms(4), of "[]"] by (simp add: LoadFromYaml_def ListAllMember_def)
  moreover have "\<forall>i\<in>set ds. \<forall>a\<in>set (ld_appenders i). ad_level a = LV_UNKNOW" using ds(2) by (simp add: read_ok_def list_all_iff as_read_def)
  ultimately show ?thesis using LogIniter_start [of env ev get ty none first] u(2,3) v(2) ds(1) by blast
qed

text \<open>A register whose setting is an old definition, and a document with a new one.\<close>

definition logs_casts :: "log_define list casts" where
  "logs_casts = \<lparr>FromStr = \<lambda>ty t. defines_from_string tree_ops t, ToStr = \<lambda>ty v. None\<rparr>"

definition doc_define :: log_define where "doc_define = system_define [to_file\<lparr>ad_level := LV_UNKNOW\<rparr>]"

lemma doc_text: "\<exists>t. defines_from_string tree_ops t = Some [doc_define]"
proof -
  have y: "yaml_laws tree_ops" by (simp add: yaml_laws_def tree_ops_def)
  have x: "\<forall>x\<in>set [doc_define]. casts_back tree_ops (define_from_string tree_ops) (\<lambda>i. Some (define_to_string tree_ops i)) x x"
    using define_casts_back [OF y, of doc_define] by (simp add: doc_define_def system_define_def kept_def to_file_def)
  have "[doc_define] = [doc_define] \<and> sorted_wrt (\<lambda>a b. define_less a b \<and> \<not> define_less b a) [doc_define]" by simp
  from sets.sequence_back [OF y x this] show ?thesis
    unfolding casts_back_def defines_from_string_def set_from_string_def by (elim exE conjE) (rule exI)
qed

theorem document_configures_loggers_witness:
  "\<exists>t u v. LoadFromYaml doc_yaml logs_casts (Mp [(''logs'', Scl t)])
       (with_logs map_env sample_event (\<lambda>v. v) ''set'' [name_define ''root''] (new_LoggerManager (\<lambda>_. [])))
       = Some (with_logs map_env sample_event (\<lambda>v. v) ''set'' v u)
     \<and> v = [doc_define] \<and> map_option fst (log_view u ''system'') = Some LV_INFO \<and> map_option fst (log_view u ''root'') = Some LV_UNKNOW"
proof -
  obtain t where t: "defines_from_string tree_ops t = Some [doc_define]" using doc_text by blast
  let ?root = "Mp [(''logs'', Scl t)]" and ?w = "new_LoggerManager (\<lambda>_. []) :: (string \<Rightarrow> string) log_sys" and ?old = "[name_define ''root'']"
  have valid: "name_valid []" "name_valid ''logs''" by (simp_all add: name_valid_def name_chars_def)
  have "members_all doc_yaml [] [(''logs'', Scl t)] [(''logs'', Scl t)]"
    using one_leaf [OF _ none, of "[]" "''logs''" doc_yaml "Scl t"] valid by (simp add: join_name_def)
  then have m: "members doc_yaml [] ?root [([], ?root), (''logs'', Scl t)]" using inner [of "[]" doc_yaml ?root] valid by simp
  have d: "distinct (map fst [([], ?root), (''logs'', Scl t)])" "map_of [([], ?root), (''logs'', Scl t)] ''logs'' = Some (Scl t)" by simp_all
  have f: "map_option (\<lambda>v. v) (FromStr logs_casts ''set'' s) = defines_from_string tree_ops s" for s
    by (simp add: logs_casts_def option.map_ident)
  have g: "defines_from_string tree_ops (node_text doc_yaml (Scl t)) = Some [doc_define]" using t by simp
  have o: "defines_ok ?old" by (simp add: defines_ok_def name_define_def)
  have ne: "\<not> list_all2 define_eq [doc_define] ?old" by (simp add: define_eq_def doc_define_def system_define_def name_define_def)
  obtain u v where u: "LoadFromYaml doc_yaml logs_casts ?root (with_logs map_env sample_event (\<lambda>v. v) ''set'' ?old ?w) = Some (with_logs map_env sample_event (\<lambda>v. v) ''set'' v u)"
      "v = [doc_define]" "\<forall>n. log_view u n = configured map_env ?old [doc_define] n (log_view ?w n)"
    using document_configures_loggers [where get = "\<lambda>v. v" and old = ?old and env = map_env and w = ?w and y = doc_yaml and root = ?root
      and c = logs_casts and ty = "''set''" and yo = tree_ops and ev = sample_event and none = "[]" and first = ?w,
      OF map_env_ok logs_ok_start o m d f g ne] by - (elim exE conjE, rule that; assumption)
  have "map_option fst (configured map_env ?old [doc_define] ''system'' x) = Some LV_INFO" for x
    by (simp add: configured_def is_changed_def doc_define_def system_define_def name_define_def target_def Let_def)
  moreover have "map_option fst (configured map_env ?old [doc_define] ''root'' x) = Some LV_UNKNOW" for x
    by (simp add: configured_def is_changed_def doc_define_def system_define_def name_define_def dropped_def)
  ultimately show ?thesis using u by (intro exI [of _ t] exI [of _ u] exI [of _ v]) simp
qed

end
