(* ===== verification/FdManager.thy ===== *)
theory FdManager
  imports Hiper_Prelude
begin

text \<open>
The table of descriptor contexts of src/hiper/base/fdmanager.cc and fdmanager.h: FdCtx with its initialisation from fstat and fcntl, its timeouts, and FdManager::get and del. fstat, F_GETFL and F_SETFL are parameters (the record os) on a kernel state; setfl_law (which flags F_SETFL can change, and that a failed call changes none) and fstat_stable state what their manual pages say. A context is stored in the table itself, since every holder of the shared pointer reads it under its descriptor. The lemmas show that the table refines a map from descriptors to contexts (locale descriptor_table) and that every socket of the table is non-blocking in the kernel.
\<close>

section \<open>The operating system's side\<close>

text \<open>
  \<^verbatim>\<open>fstat\<close> and \<^verbatim>\<open>fcntl\<close> work on the kernel's state \<open>'k\<close>: \<open>os_fstat\<close> is \<open>None\<close> where the call fails and
  otherwise says whether the descriptor is a socket.
\<close>

record 'k os =
  os_fstat :: "int \<Rightarrow> 'k \<Rightarrow> bool option"
  os_getfl :: "int \<Rightarrow> 'k \<Rightarrow> u32"
  os_setfl :: "int \<Rightarrow> u32 \<Rightarrow> 'k \<Rightarrow> int \<times> 'k"

text \<open>Values of \<^verbatim>\<open>fcntl.h\<close> and \<^verbatim>\<open>sys/socket.h\<close>.\<close>

definition O_NONBLOCK :: u32 where "O_NONBLOCK = 2048"
definition SO_RCVTIMEO :: int where "SO_RCVTIMEO = 20"
definition SO_SNDTIMEO :: int where "SO_SNDTIMEO = 21"

definition nonblocking :: "'k os \<Rightarrow> int \<Rightarrow> 'k \<Rightarrow> bool" where
  "nonblocking os fd k \<longleftrightarrow> os_getfl os fd k AND O_NONBLOCK \<noteq> 0"

section \<open>The context of a descriptor\<close>

record fd_ctx =
  is_init :: bool
  is_socket :: bool
  sys_nonblock :: bool
  user_nonblock :: bool
  is_closed :: bool
  ctx_fd :: int
  recv_timeout :: u64
  send_timeout :: u64

definition fdctx_init :: "'k os \<Rightarrow> fd_ctx \<Rightarrow> 'k \<Rightarrow> bool \<times> fd_ctx \<times> 'k" where
  "fdctx_init os c k =
     (if is_init c then (True, c, k)
      else
        let c1 = c\<lparr>recv_timeout := - 1, send_timeout := - 1\<rparr>;
            c2 = (case os_fstat os (ctx_fd c1) k of
                    None \<Rightarrow> c1\<lparr>is_init := False, is_socket := False\<rparr>
                  | Some sock \<Rightarrow> c1\<lparr>is_init := True, is_socket := sock\<rparr>);
            (c3, k1) = (if is_socket c2 then
                 let flags = os_getfl os (ctx_fd c2) k;
                     k' = (if flags AND O_NONBLOCK = 0 then snd (os_setfl os (ctx_fd c2) (flags OR O_NONBLOCK) k) else k)
                 in (c2\<lparr>sys_nonblock := True\<rparr>, k')
               else (c2\<lparr>sys_nonblock := False\<rparr>, k));
            c4 = c3\<lparr>user_nonblock := False, is_closed := False\<rparr>
        in (is_init c4, c4, k1))"

definition new_fd_ctx :: "'k os \<Rightarrow> int \<Rightarrow> 'k \<Rightarrow> fd_ctx \<times> 'k" where
  "new_fd_ctx os fd k =
     snd (fdctx_init os \<lparr>is_init = False, is_socket = False, sys_nonblock = False, user_nonblock = False,
       is_closed = False, ctx_fd = fd, recv_timeout = - 1, send_timeout = - 1\<rparr> k)"

definition setTimeout :: "int \<Rightarrow> u64 \<Rightarrow> fd_ctx \<Rightarrow> fd_ctx" where
  "setTimeout t v c = (if t = SO_RCVTIMEO then c\<lparr>recv_timeout := v\<rparr> else c\<lparr>send_timeout := v\<rparr>)"

definition getTimeout :: "int \<Rightarrow> fd_ctx \<Rightarrow> u64" where
  "getTimeout t c = (if t = SO_RCVTIMEO then recv_timeout c else send_timeout c)"

section \<open>The table\<close>

type_synonym fd_manager = "fd_ctx option list"

datatype fdm_error = Fdm_out_of_range

definition new_fd_manager :: fd_manager where "new_fd_manager = replicate 64 None"

text \<open>Growing the table to \<^verbatim>\<open>fd * 1.5\<close> entries, and reading or assigning one entry of it.\<close>

definition fdm_resize :: "nat \<Rightarrow> fd_manager \<Rightarrow> fd_manager" where
  "fdm_resize n ds = take n ds @ replicate (n - length ds) None"

definition fdm_at :: "int \<Rightarrow> fd_manager \<Rightarrow> fdm_error + fd_ctx option" where
  "fdm_at fd ds = (if 0 \<le> fd \<and> fd < int (length ds) then Inr (ds ! nat fd) else Inl Fdm_out_of_range)"

definition fdm_put :: "int \<Rightarrow> fd_ctx option \<Rightarrow> fd_manager \<Rightarrow> fdm_error + fd_manager" where
  "fdm_put fd c ds = (if 0 \<le> fd \<and> fd < int (length ds) then Inr (ds[nat fd := c]) else Inl Fdm_out_of_range)"

definition fdm_create :: "'k os \<Rightarrow> int \<Rightarrow> fd_manager \<Rightarrow> 'k \<Rightarrow> fdm_error + (fd_ctx option \<times> fd_manager \<times> 'k)" where
  "fdm_create os fd ds k =
     (let (c, k1) = new_fd_ctx os fd k;
          ds1 = (if int (length ds) \<le> fd then fdm_resize (nat (3 * fd div 2)) ds else ds)
      in bindE (fdm_put fd (Some c) ds1) (\<lambda>ds2. Inr (Some c, ds2, k1)))"

definition fdm_get :: "'k os \<Rightarrow> int \<Rightarrow> bool \<Rightarrow> fd_manager \<Rightarrow> 'k \<Rightarrow> fdm_error + (fd_ctx option \<times> fd_manager \<times> 'k)" where
  "fdm_get os fd auto_create ds k =
     (if fd = - 1 then Inr (None, ds, k)
      else if int (length ds) \<le> fd then
        (if \<not> auto_create then Inr (None, ds, k) else fdm_create os fd ds k)
      else bindE (fdm_at fd ds) (\<lambda>c.
        if c \<noteq> None \<or> \<not> auto_create then Inr (c, ds, k) else fdm_create os fd ds k))"

definition fdm_del :: "int \<Rightarrow> fd_manager \<Rightarrow> fdm_error + fd_manager" where
  "fdm_del fd ds = (if int (length ds) \<le> fd then Inr ds else fdm_put fd None ds)"

section \<open>What the table promises\<close>

text \<open>The abstract table: a partial function from descriptors to contexts.\<close>

definition fdm_abs :: "fd_manager \<Rightarrow> int \<Rightarrow> fd_ctx option" where
  "fdm_abs ds fd = (if 0 \<le> fd \<and> fd < int (length ds) then ds ! nat fd else None)"

lemma fdm_lookup: "- 1 \<le> fd \<Longrightarrow> fdm_get os fd False ds k = Inr (fdm_abs ds fd, ds, k)"
  by (auto simp: fdm_get_def fdm_abs_def fdm_at_def)

lemma fdm_abs_resize: "length ds \<le> n \<Longrightarrow> fdm_abs (fdm_resize n ds) = fdm_abs ds"
  by (auto simp: fdm_abs_def fdm_resize_def nth_append fun_eq_iff)

lemma fdm_put_abs: "fdm_put fd c ds = Inr ds' \<Longrightarrow> fdm_abs ds' = (fdm_abs ds)(fd := c) \<and> length ds' = length ds"
  by (auto simp: fdm_put_def fdm_abs_def fun_eq_iff nth_list_update nat_eq_iff split: if_splits)

lemma fdm_create_abs:
  assumes "0 \<le> fd" and "2 \<le> length ds"
  shows "\<exists>ds'. fdm_create os fd ds k = Inr (Some (fst (new_fd_ctx os fd k)), ds', snd (new_fd_ctx os fd k))
    \<and> fdm_abs ds' = (fdm_abs ds)(fd \<mapsto> fst (new_fd_ctx os fd k)) \<and> length ds \<le> length ds'"
proof -
  define ds1 where "ds1 = (if int (length ds) \<le> fd then fdm_resize (nat (3 * fd div 2)) ds else ds)"
  have n: "length ds \<le> nat (3 * fd div 2)" "fd < 3 * fd div 2" if "int (length ds) \<le> fd" using that assms(2) by auto
  have len: "fd < int (length ds1)" "length ds \<le> length ds1"
    using n by (auto simp: ds1_def fdm_resize_def)
  have abs1: "fdm_abs ds1 = fdm_abs ds"
    using n(1) fdm_abs_resize by (simp add: ds1_def)
  obtain ds' where ds': "fdm_put fd (Some (fst (new_fd_ctx os fd k))) ds1 = Inr ds'"
    using len assms(1) by (simp add: fdm_put_def)
  have "fdm_abs ds' = (fdm_abs ds)(fd \<mapsto> fst (new_fd_ctx os fd k))" "length ds \<le> length ds'"
    using fdm_put_abs [OF ds'] abs1 len by simp_all
  moreover have "fdm_create os fd ds k = Inr (Some (fst (new_fd_ctx os fd k)), ds', snd (new_fd_ctx os fd k))"
    using ds' by (simp add: fdm_create_def split_beta flip: ds1_def)
  ultimately show ?thesis by blast
qed

lemma fdm_get_creates:
  assumes "0 \<le> fd" and "2 \<le> length ds"
  shows "\<exists>ds' c k'. fdm_get os fd True ds k = Inr (Some c, ds', k')
    \<and> fdm_abs ds' = (fdm_abs ds)(fd \<mapsto> c) \<and> length ds \<le> length ds'
    \<and> (case fdm_abs ds fd of Some c0 \<Rightarrow> c = c0 \<and> k' = k | None \<Rightarrow> (c, k') = new_fd_ctx os fd k)"
proof (cases "fdm_abs ds fd")
  case None
  then have "fdm_get os fd True ds k = fdm_create os fd ds k"
    using assms(1) by (auto simp: fdm_get_def fdm_abs_def fdm_at_def split: if_splits)
  then show ?thesis using fdm_create_abs [OF assms, of os k] None by (auto simp: prod_eq_iff)
next
  case (Some c)
  then have "fdm_get os fd True ds k = Inr (Some c, ds, k)"
    by (auto simp: fdm_get_def fdm_abs_def fdm_at_def split: if_splits)
  then show ?thesis using Some by (auto simp: fun_upd_idem)
qed

lemma fdm_del_abs:
  assumes "0 \<le> fd"
  shows "\<exists>ds'. fdm_del fd ds = Inr ds' \<and> fdm_abs ds' = (fdm_abs ds)(fd := None) \<and> length ds' = length ds"
proof (cases "int (length ds) \<le> fd")
  case True
  then show ?thesis by (auto simp: fdm_del_def fdm_abs_def fun_eq_iff)
next
  case False
  then obtain ds' where "fdm_put fd None ds = Inr ds'" using assms by (simp add: fdm_put_def)
  then show ?thesis using fdm_put_abs False by (auto simp: fdm_del_def)
qed

lemma fdm_negative: "fd < - 1 \<Longrightarrow> fdm_get os fd b ds k = Inl Fdm_out_of_range \<and> fdm_del fd ds = Inl Fdm_out_of_range"
  by (simp add: fdm_get_def fdm_at_def fdm_del_def fdm_put_def)

section \<open>The table as an interface\<close>

locale descriptor_table =
  fixes inv :: "'s \<Rightarrow> bool"
    and lookup :: "'s \<Rightarrow> int \<Rightarrow> 'c option"
    and ensure :: "int \<Rightarrow> 's \<Rightarrow> 'e + 'c \<times> 's"
    and remove :: "int \<Rightarrow> 's \<Rightarrow> 'e + 's"
  assumes ensure_ok: "inv s \<Longrightarrow> 0 \<le> fd \<Longrightarrow> \<exists>c s'. ensure fd s = Inr (c, s') \<and> inv s'
      \<and> lookup s' = (lookup s)(fd \<mapsto> c) \<and> (\<forall>c0. lookup s fd = Some c0 \<longrightarrow> c = c0)"
    and remove_ok: "inv s \<Longrightarrow> 0 \<le> fd \<Longrightarrow> \<exists>s'. remove fd s = Inr s' \<and> inv s' \<and> lookup s' = (lookup s)(fd := None)"
begin

lemma ensure_twice:
  assumes "inv s" and "0 \<le> fd" and "ensure fd s = Inr (c, s1)"
  shows "\<exists>s2. ensure fd s1 = Inr (c, s2) \<and> lookup s2 = lookup s1"
  using ensure_ok [OF assms(1,2)] ensure_ok [of s1 fd] assms(2,3) by (force simp: fun_upd_idem)

lemma ensure_remove:
  assumes "inv s" and "0 \<le> fd" and "ensure fd s = Inr (c, s1)"
  shows "\<exists>s2. remove fd s1 = Inr s2 \<and> lookup s2 = (lookup s)(fd := None)"
  using ensure_ok [OF assms(1,2)] remove_ok [of s1 fd] assms(2,3) by force

end

definition fdm_ensure :: "'k os \<Rightarrow> int \<Rightarrow> fd_manager \<times> 'k \<Rightarrow> fdm_error + fd_ctx \<times> fd_manager \<times> 'k" where
  "fdm_ensure os fd s = bindE (fdm_get os fd True (fst s) (snd s)) (\<lambda>(c, ds, k).
     case c of None \<Rightarrow> Inl Fdm_out_of_range | Some c \<Rightarrow> Inr (c, ds, k))"

definition fdm_remove :: "int \<Rightarrow> fd_manager \<times> 'k \<Rightarrow> fdm_error + fd_manager \<times> 'k" where
  "fdm_remove fd s = bindE (fdm_del fd (fst s)) (\<lambda>ds. Inr (ds, snd s))"

interpretation fdm: descriptor_table "\<lambda>s. 2 \<le> length (fst s)" "\<lambda>s. fdm_abs (fst s)" "fdm_ensure os" "fdm_remove" for os
proof unfold_locales
  fix s :: "fd_manager \<times> 'a" and fd :: int
  assume s: "2 \<le> length (fst s)" "0 \<le> fd"
  from fdm_get_creates [OF s(2,1), of os "snd s"] obtain ds' c k' where
    g: "fdm_get os fd True (fst s) (snd s) = Inr (Some c, ds', k')" "fdm_abs ds' = (fdm_abs (fst s))(fd \<mapsto> c)"
      "length (fst s) \<le> length ds'"
      "case fdm_abs (fst s) fd of Some c0 \<Rightarrow> c = c0 \<and> k' = snd s | None \<Rightarrow> (c, k') = new_fd_ctx os fd (snd s)"
    by blast
  have "fdm_ensure os fd s = Inr (c, ds', k')" by (simp add: fdm_ensure_def g(1))
  moreover have "\<forall>c0. fdm_abs (fst s) fd = Some c0 \<longrightarrow> c = c0" using g(4) by auto
  ultimately show "\<exists>c s'. fdm_ensure os fd s = Inr (c, s') \<and> 2 \<le> length (fst s') \<and> fdm_abs (fst s') = (fdm_abs (fst s))(fd \<mapsto> c)
      \<and> (\<forall>c0. fdm_abs (fst s) fd = Some c0 \<longrightarrow> c = c0)"
    using g(2,3) s(1) by force
next
  fix s :: "fd_manager \<times> 'a" and fd :: int
  assume s: "2 \<le> length (fst s)" "0 \<le> fd"
  from fdm_del_abs [OF s(2), of "fst s"] s(1)
  show "\<exists>s'. fdm_remove fd s = Inr s' \<and> 2 \<le> length (fst s') \<and> fdm_abs (fst s') = (fdm_abs (fst s))(fd := None)"
    by (auto simp: fdm_remove_def)
qed

section \<open>Sockets in the table are non-blocking in the kernel\<close>

text \<open>
  \<^verbatim>\<open>F_SETFL\<close> as \<^verbatim>\<open>fcntl(2)\<close> has it. It can change only \<^verbatim>\<open>O_APPEND\<close>, \<^verbatim>\<open>O_NONBLOCK\<close>, \<^verbatim>\<open>O_ASYNC\<close>, \<^verbatim>\<open>O_DIRECT\<close> and
  \<^verbatim>\<open>O_NOATIME\<close>; the access mode and the creation flags of its argument are ignored. A failed call changes
  nothing. It fails where a flag may not be set or cleared on the descriptor; adding \<^verbatim>\<open>O_NONBLOCK\<close> to the flags a descriptor has is
  none of these cases.
\<close>

definition settable :: u32 where "settable = 0x400 OR O_NONBLOCK OR 0x2000 OR 0x4000 OR 0x40000"

definition setfl_flags :: "u32 \<Rightarrow> u32 \<Rightarrow> u32" where
  "setfl_flags old fl = (old AND NOT settable) OR (fl AND settable)"

definition setfl_law :: "'k os \<Rightarrow> bool" where
  "setfl_law os \<longleftrightarrow> (\<forall>fd fl k r k'. os_setfl os fd fl k = (r, k') \<and> os_fstat os fd k \<noteq> None \<longrightarrow>
     os_getfl os fd k' = (if r = 0 then setfl_flags (os_getfl os fd k) fl else os_getfl os fd k)
     \<and> (fl = os_getfl os fd k OR O_NONBLOCK \<longrightarrow> r = 0)
     \<and> (\<forall>g. g \<noteq> fd \<longrightarrow> os_getfl os g k' = os_getfl os g k) \<and> os_fstat os fd k' = os_fstat os fd k)"

lemma flag_bit: "bit O_NONBLOCK n \<longleftrightarrow> n = 11"
proof -
  have "O_NONBLOCK = 2 ^ 11" by (simp add: O_NONBLOCK_def)
  from this show ?thesis by (simp only: \<open>O_NONBLOCK = 2 ^ 11\<close> bit_exp_iff) auto
qed

lemma flag_test: "arg AND O_NONBLOCK = 0 \<longleftrightarrow> \<not> bit arg 11" for arg :: u32
proof
  assume z: "arg AND O_NONBLOCK = 0"
  have "bit (arg AND O_NONBLOCK) 11 = bit arg 11" by (simp add: bit_and_iff flag_bit)
  then show "\<not> bit arg 11" by (simp add: z)
next
  assume "\<not> bit arg 11"
  then show "arg AND O_NONBLOCK = 0" by (intro bit_word_eqI) (auto simp: bit_and_iff flag_bit)
qed

lemma settable_bit: "bit settable 11"
  by (simp add: settable_def bit_or_iff flag_bit)

lemma setfl_nonblock: "setfl_flags old fl AND O_NONBLOCK = 0 \<longleftrightarrow> fl AND O_NONBLOCK = 0"
  by (simp add: flag_test setfl_flags_def bit_or_iff bit_and_iff bit_not_iff settable_bit)

definition nb_ok :: "'k os \<Rightarrow> fd_manager \<Rightarrow> 'k \<Rightarrow> bool" where
  "nb_ok os ds k \<longleftrightarrow> (\<forall>fd c. fdm_abs ds fd = Some c \<longrightarrow> ctx_fd c = fd \<and>
     (is_socket c \<longrightarrow> sys_nonblock c \<and> nonblocking os fd k \<and> os_fstat os fd k \<noteq> None))"

lemma fl_or [simp]: "(fl OR O_NONBLOCK) AND O_NONBLOCK \<noteq> 0" "O_NONBLOCK \<noteq> 0"
  by (simp_all add: O_NONBLOCK_def bit.conj_disj_distrib2)

lemma setfl_keeps:
  assumes "setfl_law os" and "os_fstat os fd k \<noteq> None" and "nonblocking os g k" and "os_fstat os g k \<noteq> None"
    and "fl AND O_NONBLOCK \<noteq> 0" and "os_setfl os fd fl k = (r, k')" and "\<And>h. h \<noteq> fd \<Longrightarrow> os_fstat os h k' = os_fstat os h k"
  shows "nonblocking os g k' \<and> os_fstat os g k' \<noteq> None"
  using assms(1) [unfolded setfl_law_def, rule_format, of fd fl k r k'] assms(2-)
  by (cases "g = fd"; cases "r = 0") (auto simp: nonblocking_def setfl_nonblock)

definition fstat_stable :: "'k os \<Rightarrow> bool" where
  "fstat_stable os \<longleftrightarrow> (\<forall>fd fl k g. os_fstat os g (snd (os_setfl os fd fl k)) = os_fstat os g k)"

lemma new_fd_ctx_facts:
  assumes "setfl_law os" and "fstat_stable os" and "new_fd_ctx os fd k = (c, k')"
  shows "ctx_fd c = fd" and "is_init c \<longleftrightarrow> os_fstat os fd k \<noteq> None" and "is_socket c \<longleftrightarrow> os_fstat os fd k = Some True"
    and "recv_timeout c = - 1" and "send_timeout c = - 1" and "\<not> is_closed c" and "\<not> user_nonblock c"
    and "is_socket c \<Longrightarrow> sys_nonblock c \<and> nonblocking os fd k'"
    and "nonblocking os g k \<Longrightarrow> nonblocking os g k'" and "os_fstat os g k' = os_fstat os g k"
proof -
  let ?k = "snd (os_setfl os fd (os_getfl os fd k OR O_NONBLOCK) k)"
  have law: "os_getfl os fd ?k = setfl_flags (os_getfl os fd k) (os_getfl os fd k OR O_NONBLOCK)
      \<and> (\<forall>g. g \<noteq> fd \<longrightarrow> os_getfl os g ?k = os_getfl os g k)" if "os_fstat os fd k \<noteq> None"
  proof -
    obtain r where "os_setfl os fd (os_getfl os fd k OR O_NONBLOCK) k = (r, ?k)" by (metis prod.collapse)
    from assms(1) [unfolded setfl_law_def, rule_format, OF conjI [OF this that]] show ?thesis by auto
  qed
  have c: "c = \<lparr>is_init = os_fstat os fd k \<noteq> None, is_socket = os_fstat os fd k = Some True,
      sys_nonblock = os_fstat os fd k = Some True, user_nonblock = False, is_closed = False, ctx_fd = fd,
      recv_timeout = - 1, send_timeout = - 1\<rparr>"
    and k': "k' = (if os_fstat os fd k = Some True \<and> \<not> nonblocking os fd k then ?k else k)"
    using assms(3) by (auto simp: new_fd_ctx_def fdctx_init_def Let_def nonblocking_def split: option.splits if_splits)
  show "ctx_fd c = fd" "is_init c \<longleftrightarrow> os_fstat os fd k \<noteq> None" "is_socket c \<longleftrightarrow> os_fstat os fd k = Some True"
    "recv_timeout c = - 1" "send_timeout c = - 1" "\<not> is_closed c" "\<not> user_nonblock c" by (simp_all add: c)
  show "is_socket c \<Longrightarrow> sys_nonblock c \<and> nonblocking os fd k'"
    using law by (auto simp: c k' nonblocking_def setfl_nonblock)
  show "nonblocking os g k \<Longrightarrow> nonblocking os g k'"
    using law by (cases "g = fd"; cases "os_fstat os fd k") (auto simp: k' nonblocking_def setfl_nonblock)
  show "os_fstat os g k' = os_fstat os g k"
    using assms(2) by (simp add: k' fstat_stable_def)
qed

lemma fdm_get_nb_ok:
  assumes "setfl_law os" and "fstat_stable os" and "nb_ok os ds k" and "0 \<le> fd" and "2 \<le> length ds"
    and "fdm_get os fd auto_create ds k = Inr (c, ds', k')"
  shows "nb_ok os ds' k'"
proof (cases auto_create)
  case False
  then have "ds' = ds \<and> k' = k" using assms(4,6) fdm_lookup [of fd os ds k] by simp
  then show ?thesis using assms(3) by simp
next
  case True
  from fdm_get_creates [OF assms(4,5), of os k] True assms(6) obtain c1 where
    g: "c = Some c1" "fdm_abs ds' = (fdm_abs ds)(fd \<mapsto> c1)"
      "case fdm_abs ds fd of Some c0 \<Rightarrow> c1 = c0 \<and> k' = k | None \<Rightarrow> (c1, k') = new_fd_ctx os fd k" by auto
  show ?thesis
  proof (cases "fdm_abs ds fd")
    case (Some c0)
    then show ?thesis using g assms(3) by (simp add: nb_ok_def fun_upd_idem)
  next
    case None
    then have n: "new_fd_ctx os fd k = (c1, k')" using g(3) by simp
    note f = new_fd_ctx_facts [OF assms(1,2) n]
    show ?thesis using assms(3) f g(2) by (auto simp: nb_ok_def)
  qed
qed

lemma fdm_del_nb_ok:
  "nb_ok os ds k \<Longrightarrow> 0 \<le> fd \<Longrightarrow> fdm_del fd ds = Inr ds' \<Longrightarrow> nb_ok os ds' k"
  using fdm_del_abs [of fd ds] by (auto simp: nb_ok_def)

text \<open>
  The table of descriptor contexts behaves as a map from descriptors to contexts: getting a
  descriptor with \<^verbatim>\<open>auto_create\<close> yields its context (the old one when there is one, otherwise one made from
  what \<^verbatim>\<open>fstat\<close> says), which later lookups return until it is deleted, other descriptors being left alone.
\<close>

theorem fd_table_is_map:
  assumes "0 \<le> fd" and "2 \<le> length ds"
  shows "\<exists>c ds1 k1 ds2. fdm_get os fd True ds k = Inr (Some c, ds1, k1)
    \<and> (case fdm_abs ds fd of Some c0 \<Rightarrow> c = c0 \<and> k1 = k | None \<Rightarrow> (c, k1) = new_fd_ctx os fd k)
    \<and> fdm_get os fd False ds1 k1 = Inr (Some c, ds1, k1)
    \<and> (\<forall>g. 0 \<le> g \<and> g \<noteq> fd \<longrightarrow> fdm_get os g False ds1 k1 = Inr (fdm_abs ds g, ds1, k1))
    \<and> fdm_del fd ds1 = Inr ds2 \<and> fdm_abs ds2 = (fdm_abs ds)(fd := None)
    \<and> fdm_get os fd False ds2 k1 = Inr (None, ds2, k1)"
proof -
  from fdm_get_creates [OF assms, of os k] obtain ds1 c k1 where
    g: "fdm_get os fd True ds k = Inr (Some c, ds1, k1)" "fdm_abs ds1 = (fdm_abs ds)(fd \<mapsto> c)"
      "case fdm_abs ds fd of Some c0 \<Rightarrow> c = c0 \<and> k1 = k | None \<Rightarrow> (c, k1) = new_fd_ctx os fd k" by blast
  then have e: "fdm_ensure os fd (ds, k) = Inr (c, ds1, k1)" by (simp add: fdm_ensure_def)
  from fdm.ensure_remove [OF _ assms(1) e] assms(2) obtain s2 where
    r: "fdm_remove fd (ds1, k1) = Inr s2" "fdm_abs (fst s2) = (fdm_abs ds)(fd := None)" by auto
  then have d: "fdm_del fd ds1 = Inr (fst s2)" by (auto simp: fdm_remove_def bindE_Inr_iff)
  have "fdm_get os h False ds1 k1 = Inr (fdm_abs ds1 h, ds1, k1)" if "0 \<le> h" for h by (rule fdm_lookup) (use that in simp)
  then show ?thesis using g d r(2) assms(1) fdm_lookup [of fd os "fst s2" k1] by auto
qed

definition example_os :: "(int \<Rightarrow> u32) os" where
  "example_os = \<lparr>os_fstat = (\<lambda>fd k. if fd < 100 then Some (fd < 50) else None), os_getfl = (\<lambda>fd k. k fd),
     os_setfl = (\<lambda>fd fl k. (0, k(fd := setfl_flags (k fd) fl)))\<rparr>"

lemma example_os_laws: "setfl_law example_os" "fstat_stable example_os"
  by (simp_all add: example_os_def setfl_law_def fstat_stable_def)

theorem fd_table_is_map_witness:
  "\<exists>c ds1 k1. fdm_get example_os 70 True new_fd_manager (\<lambda>_. 2) = Inr (Some c, ds1, k1) \<and> ctx_fd c = 70 \<and> \<not> is_socket c"
proof -
  have "fdm_abs new_fd_manager 70 = None" by (simp add: fdm_abs_def new_fd_manager_def)
  moreover obtain c0 k0 where n: "new_fd_ctx example_os 70 (\<lambda>_. 2) = (c0, k0)" by force
  moreover have "ctx_fd c0 = 70" "\<not> is_socket c0"
    using new_fd_ctx_facts(1,3) [OF example_os_laws n] by (simp_all add: example_os_def)
  moreover have "2 \<le> length new_fd_manager" by (simp add: new_fd_manager_def)
  ultimately show ?thesis using fd_table_is_map [of 70 new_fd_manager example_os "\<lambda>_. 2"] by auto
qed

end
