(* ===== verification/Fiber.thy ===== *)
theory Fiber
  imports Hiper_Prelude
begin

text \<open>
  The coroutines of \<^verbatim>\<open>hiper/base/fiber.cc\<close>: fiber objects with their states and contexts, the thread-local
  pointers, and the operations that create, reset, switch and finish fibers. A context records which
  control flow is suspended in it, so that the switching discipline is a property of the model and
  not built into it. User callbacks are not modelled; what the framework sees of one is that it
  yields, returns or throws.
\<close>

section \<open>State\<close>

datatype fiber_state = INIT | HOLD | EXEC | TERM_state | READY | EXCEPT

text \<open>
  A \<^verbatim>\<open>ucontext_t\<close>: never filled in, prepared by \<^verbatim>\<open>makecontext\<close> to enter \<^verbatim>\<open>MainFunc\<close>, or holding the
  suspended control flow of a fiber. A control flow is named by the fiber on whose stack it runs.
\<close>

datatype fiber_context = Unset | Entry | Saved nat

text \<open>
  \<open>fb_done\<close> records that the control flow of the fiber stands behind the last \<^verbatim>\<open>yield\<close> of \<^verbatim>\<open>MainFunc\<close>,
  in front of the assertion that must never be reached. Callbacks are identifiers.
\<close>

record fiber =
  fb_id :: u64
  fb_stacksize :: u32
  fb_state :: fiber_state
  fb_ctx :: fiber_context
  fb_stack :: bool
  fb_back_to_caller :: bool
  fb_cb :: "nat option"
  fb_done :: bool

text \<open>
  The fiber objects by address, the two global counters, and the thread-local variables by thread id:
  \<^verbatim>\<open>t_fiber\<close>, \<^verbatim>\<open>t_thread_main_fiber\<close>, the scheduler's \<^verbatim>\<open>t_scheduler_fiber\<close>, and the control flow that the
  processor executes for the thread.
\<close>

record fibers =
  fs_heap :: "nat \<Rightarrow> fiber option"
  s_fiber_id :: u64
  s_fiber_count :: u64
  t_fiber :: "int \<Rightarrow> nat option"
  t_main :: "int \<Rightarrow> nat option"
  t_sched :: "int \<Rightarrow> nat option"
  t_flow :: "int \<Rightarrow> nat option"

datatype fiber_error = Assert_failed string | Null_pointer

type_synonym 'a fiber_result = "fiber_error + 'a"

definition fassert :: "bool \<Rightarrow> string \<Rightarrow> 'a \<Rightarrow> 'a fiber_result" where
  "fassert b msg x = (if b then Inr x else Inl (Assert_failed msg))"

definition fiber_at :: "nat option \<Rightarrow> fibers \<Rightarrow> (nat \<times> fiber) fiber_result" where
  "fiber_at p w = (case p of None \<Rightarrow> Inl Null_pointer
     | Some a \<Rightarrow> (case fs_heap w a of None \<Rightarrow> Inl Null_pointer | Some f \<Rightarrow> Inr (a, f)))"

definition upd_fiber :: "nat \<Rightarrow> (fiber \<Rightarrow> fiber) \<Rightarrow> fibers \<Rightarrow> fibers" where
  "upd_fiber a g w = w\<lparr>fs_heap := (fs_heap w)(a := map_option g (fs_heap w a))\<rparr>"

definition SetThis :: "int \<Rightarrow> nat option \<Rightarrow> fibers \<Rightarrow> fibers" where
  "SetThis thr f w = w\<lparr>t_fiber := (t_fiber w)(thr := f)\<rparr>"

section \<open>Construction and destruction\<close>

text \<open>The private constructor turns the control flow of the thread into its main fiber.\<close>

definition main_fiber :: "int \<Rightarrow> nat \<Rightarrow> fibers \<Rightarrow> fibers" where
  "main_fiber thr a w =
     (SetThis thr (Some a) w)\<lparr>
       fs_heap := (fs_heap w)(a \<mapsto> \<lparr>fb_id = 0, fb_stacksize = 0, fb_state = EXEC, fb_ctx = Saved a,
          fb_stack = False, fb_back_to_caller = False, fb_cb = None, fb_done = False\<rparr>),
       s_fiber_count := s_fiber_count w + 1,
       t_flow := (t_flow w)(thr \<mapsto> a)\<rparr>"

definition new_fiber :: "u32 \<Rightarrow> nat \<Rightarrow> nat option \<Rightarrow> u64 \<Rightarrow> bool \<Rightarrow> fibers \<Rightarrow> fibers" where
  "new_fiber default_size a cb stacksize back_to_caller w =
     w\<lparr>fs_heap := (fs_heap w)(a \<mapsto> \<lparr>fb_id = s_fiber_id w + 1,
          fb_stacksize = (if stacksize \<noteq> 0 then ucast stacksize else default_size),
          fb_state = INIT, fb_ctx = Entry, fb_stack = True, fb_back_to_caller = back_to_caller,
          fb_cb = cb, fb_done = False\<rparr>),
       s_fiber_id := s_fiber_id w + 1, s_fiber_count := s_fiber_count w + 1\<rparr>"

definition delete_fiber :: "int \<Rightarrow> nat \<Rightarrow> fibers \<Rightarrow> fibers fiber_result" where
  "delete_fiber thr a w0 =
     bindE (fiber_at (Some a) w0) (\<lambda>(_, f).
       let w = w0\<lparr>s_fiber_count := s_fiber_count w0 - 1, fs_heap := (fs_heap w0)(a := None)\<rparr> in
       if fb_stack f then
         fassert (fb_state f = TERM_state \<or> fb_state f = EXCEPT \<or> fb_state f = INIT) ''state'' w
       else
         bindE (fassert (fb_cb f = None) ''cb'' ()) (\<lambda>_.
         bindE (fassert (fb_state f = EXEC) ''state'' ()) (\<lambda>_.
           Inr (if t_fiber w thr = Some a then SetThis thr None w else w))))"

definition fiber_reset :: "nat \<Rightarrow> nat option \<Rightarrow> fibers \<Rightarrow> fibers fiber_result" where
  "fiber_reset a cb w =
     bindE (fiber_at (Some a) w) (\<lambda>(_, f).
     bindE (fassert (fb_stack f) ''stack'' ()) (\<lambda>_.
     bindE (fassert (fb_state f = TERM_state \<or> fb_state f = EXCEPT \<or> fb_state f = INIT) ''state'' ()) (\<lambda>_.
       Inr (upd_fiber a (\<lambda>f. f\<lparr>fb_cb := cb, fb_ctx := Entry, fb_done := False, fb_state := INIT\<rparr>) w))))"

section \<open>Switching\<close>

text \<open>
  \<^verbatim>\<open>swapcontext(&from->ctx_, &to->ctx_)\<close>: the running control flow goes into \<open>from\<close>'s context, whoever
  it belongs to, and the one in \<open>to\<close>'s context goes on. A flow that stands behind the last \<^verbatim>\<open>yield\<close>
  of \<^verbatim>\<open>MainFunc\<close> runs into its assertion.
\<close>

definition swapcontext :: "int \<Rightarrow> nat option \<Rightarrow> nat option \<Rightarrow> fibers \<Rightarrow> fibers fiber_result" where
  "swapcontext thr from to w =
     bindE (fiber_at from w) (\<lambda>(a, _).
       let w1 = (case t_flow w thr of None \<Rightarrow> w
                 | Some fl \<Rightarrow> upd_fiber a (\<lambda>f. f\<lparr>fb_ctx := Saved fl\<rparr>) w) in
       bindE (fiber_at to w1) (\<lambda>(b, g).
         case fb_ctx g of
           Unset \<Rightarrow> Inl Null_pointer
         | Entry \<Rightarrow> Inr (w1\<lparr>t_flow := (t_flow w1)(thr \<mapsto> b)\<rparr>)
         | Saved fl \<Rightarrow>
             bindE (fiber_at (Some fl) w1) (\<lambda>(_, h).
               fassert (\<not> fb_done h) ''never reach'' (w1\<lparr>t_flow := (t_flow w1)(thr \<mapsto> fl)\<rparr>))))"

definition set_state :: "nat \<Rightarrow> fiber_state \<Rightarrow> fibers \<Rightarrow> fibers" where
  "set_state a s w = upd_fiber a (\<lambda>f. f\<lparr>fb_state := s\<rparr>) w"

definition fiber_resume :: "int \<Rightarrow> nat \<Rightarrow> fibers \<Rightarrow> fibers fiber_result" where
  "fiber_resume thr a w0 =
     (let w = SetThis thr (Some a) w0 in
      bindE (fiber_at (Some a) w) (\<lambda>(_, f).
      bindE (fassert (fb_state f \<noteq> EXEC) ''state'' ()) (\<lambda>_.
        let w1 = set_state a EXEC w in
        if fb_back_to_caller f then swapcontext thr (t_main w1 thr) (Some a) w1
        else swapcontext thr (t_sched w1 thr) (Some a) w1)))"

definition fiber_yield :: "int \<Rightarrow> nat \<Rightarrow> fibers \<Rightarrow> fibers fiber_result" where
  "fiber_yield thr a w =
     bindE (fiber_at (Some a) w) (\<lambda>(_, f).
       if fb_back_to_caller f then
         let w1 = SetThis thr (t_main w thr) w in swapcontext thr (Some a) (t_main w1 thr) w1
       else
         let w1 = SetThis thr (t_sched w thr) w in swapcontext thr (Some a) (t_sched w1 thr) w1)"

text \<open>\<open>fresh\<close> is the address of the main fiber that \<^verbatim>\<open>GetThis\<close> may have to create.\<close>

definition GetThis :: "int \<Rightarrow> nat \<Rightarrow> fibers \<Rightarrow> nat \<times> fibers" where
  "GetThis thr fresh w =
     (case t_fiber w thr of
        Some a \<Rightarrow> (a, w)
      | None \<Rightarrow> let w1 = main_fiber thr fresh w
                in (fresh, w1\<lparr>t_main := (t_main w1)(thr \<mapsto> fresh)\<rparr>))"

definition YieldTo :: "fiber_state \<Rightarrow> int \<Rightarrow> nat \<Rightarrow> fibers \<Rightarrow> fibers fiber_result" where
  "YieldTo s thr fresh w0 =
     (let (cur, w) = GetThis thr fresh w0 in
      bindE (fiber_at (Some cur) w) (\<lambda>(_, f).
      bindE (fassert (fb_state f = EXEC) ''state'' ()) (\<lambda>_.
        fiber_yield thr cur (set_state cur s w))))"

definition YieldToReady :: "int \<Rightarrow> nat \<Rightarrow> fibers \<Rightarrow> fibers fiber_result" where
  "YieldToReady = YieldTo READY"

definition YieldToHold :: "int \<Rightarrow> nat \<Rightarrow> fibers \<Rightarrow> fibers fiber_result" where
  "YieldToHold = YieldTo HOLD"

text \<open>
  \<^verbatim>\<open>MainFunc\<close> from the point where the callback returns or throws: \<open>a\<close> is \<^verbatim>\<open>cur\<close>, read at its start.
\<close>

datatype fiber_exit = Returned | Raised

definition MainFunc_exit :: "fiber_exit \<Rightarrow> int \<Rightarrow> nat \<Rightarrow> fibers \<Rightarrow> fibers fiber_result" where
  "MainFunc_exit e thr a w =
     fiber_yield thr a (upd_fiber a (\<lambda>f. (case e of
         Returned \<Rightarrow> f\<lparr>fb_cb := None, fb_state := TERM_state\<rparr>
       | Raised \<Rightarrow> f\<lparr>fb_state := EXCEPT\<rparr>)\<lparr>fb_done := True\<rparr>) w)"

definition TotalFibers :: "fibers \<Rightarrow> u64" where
  "TotalFibers w = s_fiber_count w"

definition GetFiberId :: "int \<Rightarrow> fibers \<Rightarrow> u64" where
  "GetFiberId thr w = (case t_fiber w thr of None \<Rightarrow> 0
     | Some a \<Rightarrow> (case fs_heap w a of None \<Rightarrow> 0 | Some f \<Rightarrow> fb_id f))"

section \<open>Control flow of disciplined use\<close>

named_theorems fiber_simps "evaluation of the fiber operations"

lemmas [fiber_simps] = fassert_def fiber_at_def upd_fiber_def SetThis_def swapcontext_def set_state_def

text \<open>A fiber that is not running: its context enters \<^verbatim>\<open>MainFunc\<close> or holds its own suspended flow.\<close>

definition suspended :: "nat \<Rightarrow> fibers \<Rightarrow> bool" where
  "suspended a w \<longleftrightarrow> (\<exists>f. fs_heap w a = Some f \<and> fb_state f \<noteq> EXEC \<and> fb_stack f
     \<and> \<not> fb_done f \<and> (fb_ctx f = Entry \<or> fb_ctx f = Saved a))"

text \<open>The thread runs its scheduling fiber \<open>s\<close>: for a fiber that goes back to the caller, the main fiber.\<close>

definition dispatching :: "int \<Rightarrow> nat \<Rightarrow> nat \<Rightarrow> fibers \<Rightarrow> bool" where
  "dispatching thr s a w \<longleftrightarrow> t_flow w thr = Some s \<and> t_fiber w thr = Some s \<and> s \<noteq> a
     \<and> (\<exists>g. fs_heap w s = Some g \<and> \<not> fb_done g)
     \<and> (\<exists>f. fs_heap w a = Some f \<and> (if fb_back_to_caller f then t_main w thr else t_sched w thr) = Some s)"

lemma resume_spec:
  assumes "dispatching thr s a w" and "suspended a w"
  shows "\<exists>w' f g. fiber_resume thr a w = Inr w' \<and> t_flow w' thr = Some a \<and> t_fiber w' thr = Some a
     \<and> fs_heap w a = Some f \<and> fs_heap w s = Some g
     \<and> fs_heap w' = (fs_heap w)(a \<mapsto> f\<lparr>fb_state := EXEC\<rparr>, s \<mapsto> g\<lparr>fb_ctx := Saved s\<rparr>)
     \<and> t_main w' = t_main w \<and> t_sched w' = t_sched w
     \<and> (\<forall>t. t \<noteq> thr \<longrightarrow> t_flow w' t = t_flow w t \<and> t_fiber w' t = t_fiber w t)"
proof -
  obtain f g where f: "fs_heap w a = Some f" and g: "fs_heap w s = Some g" "\<not> fb_done g"
    and st: "fb_state f \<noteq> EXEC" "fb_ctx f = Entry \<or> fb_ctx f = Saved a \<and> \<not> fb_done f"
    and s: "(if fb_back_to_caller f then t_main w thr else t_sched w thr) = Some s"
      "t_flow w thr = Some s" "s \<noteq> a"
    using assms by (auto simp: dispatching_def suspended_def)
  show ?thesis
    using f g st s
    by (cases "fb_back_to_caller f") (auto simp: fiber_resume_def fiber_simps Let_def fun_eq_iff)
qed

lemma yield_spec:
  assumes "t_flow w thr = Some a" and "fs_heap w a = Some f" and "fs_heap w s = Some g" and "\<not> fb_done g"
    and "fb_ctx g = Saved s" and "s \<noteq> a" and "(if fb_back_to_caller f then t_main w thr else t_sched w thr) = Some s"
  shows "\<exists>w'. fiber_yield thr a w = Inr w' \<and> t_flow w' thr = Some s \<and> t_fiber w' thr = Some s
     \<and> fs_heap w' = (fs_heap w)(a \<mapsto> f\<lparr>fb_ctx := Saved a\<rparr>)
     \<and> t_main w' = t_main w \<and> t_sched w' = t_sched w
     \<and> (\<forall>t. t \<noteq> thr \<longrightarrow> t_flow w' t = t_flow w t \<and> t_fiber w' t = t_fiber w t)"
  using assms by (cases "fb_back_to_caller f") (auto simp: fiber_yield_def fiber_simps Let_def fun_eq_iff)

section \<open>Properties\<close>

lemma dispatching_frame:
  assumes "dispatching thr s a w" and "t_flow w' thr = Some s" and "t_fiber w' thr = Some s"
    and "t_main w' = t_main w" and "t_sched w' = t_sched w"
    and "\<exists>g. fs_heap w' s = Some g \<and> \<not> fb_done g"
    and "\<And>f. fs_heap w a = Some f \<Longrightarrow> \<exists>f'. fs_heap w' a = Some f' \<and> fb_back_to_caller f' = fb_back_to_caller f"
  shows "dispatching thr s a w'"
  using assms unfolding dispatching_def by fastforce

text \<open>
  Property C36. Switching is a round trip: when a thread that runs its scheduling fiber resumes a suspended fiber,
  the fiber's flow runs; when the fiber yields with any state, the thread is back in the scheduling
  fiber, the fiber carries that state and can be resumed again where it stopped, and no other thread
  has been touched.
\<close>

theorem resume_then_yield:
  assumes "dispatching thr s a w" and "suspended a w" and "st \<noteq> EXEC"
  shows "\<exists>w1 w2. fiber_resume thr a w = Inr w1 \<and> t_flow w1 thr = Some a \<and> t_fiber w1 thr = Some a
     \<and> YieldTo st thr fresh w1 = Inr w2 \<and> map_option fb_state (fs_heap w2 a) = Some st
     \<and> suspended a w2 \<and> dispatching thr s a w2
     \<and> (\<forall>t. t \<noteq> thr \<longrightarrow> t_flow w2 t = t_flow w t \<and> t_fiber w2 t = t_fiber w t)"
proof -
  from resume_spec [OF assms(1,2)] obtain w1 f g where
    r: "fiber_resume thr a w = Inr w1" "t_flow w1 thr = Some a" "t_fiber w1 thr = Some a"
      "fs_heap w a = Some f" "fs_heap w s = Some g"
      "fs_heap w1 = (fs_heap w)(a \<mapsto> f\<lparr>fb_state := EXEC\<rparr>, s \<mapsto> g\<lparr>fb_ctx := Saved s\<rparr>)"
      "t_main w1 = t_main w" "t_sched w1 = t_sched w"
      "\<forall>t. t \<noteq> thr \<longrightarrow> t_flow w1 t = t_flow w t \<and> t_fiber w1 t = t_fiber w t" by blast
  have d: "s \<noteq> a" "\<not> fb_done g" "(if fb_back_to_caller f then t_main w thr else t_sched w thr) = Some s" "fb_stack f"
    and run: "\<not> fb_done f"
    using assms r(4,5) by (auto simp: dispatching_def suspended_def)
  let ?w = "set_state a st w1"
  have h: "fs_heap ?w a = Some (f\<lparr>fb_state := st\<rparr>)" "fs_heap ?w s = Some (g\<lparr>fb_ctx := Saved s\<rparr>)"
    using r d by (simp_all add: set_state_def upd_fiber_def)
  have "t_flow ?w thr = Some a" using r by (simp add: set_state_def upd_fiber_def)
  moreover have "(if fb_back_to_caller (f\<lparr>fb_state := st\<rparr>) then t_main ?w thr else t_sched ?w thr) = Some s"
    using r(7,8) d(3) by (simp add: set_state_def upd_fiber_def split: if_splits)
  ultimately obtain w2 where
    y: "fiber_yield thr a ?w = Inr w2" "t_flow w2 thr = Some s" "t_fiber w2 thr = Some s"
      "fs_heap w2 = (fs_heap ?w)(a \<mapsto> f\<lparr>fb_state := st, fb_ctx := Saved a\<rparr>)"
      "t_main w2 = t_main ?w" "t_sched w2 = t_sched ?w"
      "\<forall>t. t \<noteq> thr \<longrightarrow> t_flow w2 t = t_flow ?w t \<and> t_fiber w2 t = t_fiber ?w t"
    using yield_spec [OF _ h _ _ d(1)] d(2) by auto
  have "YieldTo st thr fresh w1 = Inr w2"
    using r d y(1) by (simp add: YieldTo_def GetThis_def fiber_at_def fassert_def)
  moreover have "suspended a w2"
    using y(4) assms(3) d(4) run by (simp add: suspended_def)
  moreover have "dispatching thr s a w2"
    by (rule dispatching_frame [OF assms(1) y(2,3)])
      (use y h r d in \<open>auto simp: set_state_def upd_fiber_def\<close>)
  moreover have "\<forall>t. t \<noteq> thr \<longrightarrow> t_flow w2 t = t_flow w t \<and> t_fiber w2 t = t_fiber w t"
    using y(7) r(9) by (simp add: set_state_def upd_fiber_def)
  ultimately show ?thesis using r y(4) by auto
qed

text \<open>The states of the example: thread 5 with its main fiber 1 as scheduling fiber and a new fiber 2.\<close>

definition example_fibers :: fibers where
  "example_fibers =
     new_fiber 4096 2 (Some 7) 0 False
       ((\<lambda>w. w\<lparr>t_sched := (t_sched w)(5 \<mapsto> 1)\<rparr>)
         (snd (GetThis 5 1 \<lparr>fs_heap = Map.empty, s_fiber_id = 0, s_fiber_count = 0, t_fiber = Map.empty,
            t_main = Map.empty, t_sched = Map.empty, t_flow = Map.empty\<rparr>)))"

lemma example_fibers_ok: "dispatching 5 1 2 example_fibers" "suspended 2 example_fibers"
  by (simp_all add: example_fibers_def dispatching_def suspended_def new_fiber_def GetThis_def main_fiber_def SetThis_def)

theorem resume_then_yield_witness:
  "\<exists>w1 w2. fiber_resume 5 2 example_fibers = Inr w1 \<and> YieldTo HOLD 5 9 w1 = Inr w2 \<and> suspended 2 w2"
  using resume_then_yield [OF example_fibers_ok, of HOLD 9] by auto

text \<open>
  When the callback of a resumed fiber returns or throws, the thread is back in the scheduling
  fiber and the fiber is in state TERM or EXCEPT; resuming it once more runs into the assertion at the
  end of \<^verbatim>\<open>MainFunc\<close>, while \<^verbatim>\<open>reset\<close> makes it a fresh suspended fiber on the same stack.
\<close>

theorem finished_fiber:
  assumes "dispatching thr s a w" and "suspended a w"
  shows "\<exists>w1 w2 w3. fiber_resume thr a w = Inr w1 \<and> MainFunc_exit e thr a w1 = Inr w2
     \<and> map_option fb_state (fs_heap w2 a) = Some (case e of Returned \<Rightarrow> TERM_state | Raised \<Rightarrow> EXCEPT)
     \<and> dispatching thr s a w2
     \<and> fiber_resume thr a w2 = Inl (Assert_failed ''never reach'')
     \<and> fiber_reset a cb w2 = Inr w3 \<and> suspended a w3 \<and> dispatching thr s a w3"
proof -
  from resume_spec [OF assms] obtain w1 f g where
    r: "fiber_resume thr a w = Inr w1" "t_flow w1 thr = Some a" "t_fiber w1 thr = Some a"
      "fs_heap w a = Some f" "fs_heap w s = Some g"
      "fs_heap w1 = (fs_heap w)(a \<mapsto> f\<lparr>fb_state := EXEC\<rparr>, s \<mapsto> g\<lparr>fb_ctx := Saved s\<rparr>)"
      "t_main w1 = t_main w" "t_sched w1 = t_sched w" by blast
  have d: "s \<noteq> a" "\<not> fb_done g" "(if fb_back_to_caller f then t_main w thr else t_sched w thr) = Some s" "fb_stack f"
    using assms r(4,5) by (auto simp: dispatching_def suspended_def)
  define f2 where "f2 = (case e of Returned \<Rightarrow> f\<lparr>fb_cb := None, fb_state := TERM_state\<rparr>
       | Raised \<Rightarrow> f\<lparr>fb_state := EXCEPT\<rparr>)\<lparr>fb_done := True\<rparr>"
  let ?w = "upd_fiber a (\<lambda>f. (case e of Returned \<Rightarrow> f\<lparr>fb_cb := None, fb_state := TERM_state\<rparr>
       | Raised \<Rightarrow> f\<lparr>fb_state := EXCEPT\<rparr>)\<lparr>fb_done := True\<rparr>) w1"
  have f2: "fb_back_to_caller f2 = fb_back_to_caller f" "fb_stack f2" "fb_done f2"
    "fb_state f2 = (case e of Returned \<Rightarrow> TERM_state | Raised \<Rightarrow> EXCEPT)"
    using d by (simp_all add: f2_def split: fiber_exit.splits)
  have h: "fs_heap ?w a = Some f2" "fs_heap ?w s = Some (g\<lparr>fb_ctx := Saved s\<rparr>)"
    using r d by (simp_all add: upd_fiber_def f2_def split: fiber_exit.splits)
  have fl: "t_flow ?w thr = Some a" and th: "t_main ?w = t_main w" "t_sched ?w = t_sched w"
    using r by (simp_all add: upd_fiber_def)
  have "(if fb_back_to_caller f2 then t_main ?w thr else t_sched ?w thr) = Some s"
    unfolding th f2(1) by (rule d(3))
  with yield_spec [OF fl h _ _ d(1)] d(2) obtain w2 where
    y: "fiber_yield thr a ?w = Inr w2" "t_flow w2 thr = Some s" "t_fiber w2 thr = Some s"
      "fs_heap w2 = (fs_heap ?w)(a \<mapsto> f2\<lparr>fb_ctx := Saved a\<rparr>)"
      "t_main w2 = t_main w" "t_sched w2 = t_sched w"
    using th by auto
  have y2: "fs_heap w2 a = Some (f2\<lparr>fb_ctx := Saved a\<rparr>)" "fs_heap w2 s = Some (g\<lparr>fb_ctx := Saved s\<rparr>)"
    using y(4) h d by simp_all
  have m: "MainFunc_exit e thr a w1 = Inr w2" using y(1) by (simp add: MainFunc_exit_def)
  have disp: "dispatching thr s a w2"
    by (rule dispatching_frame [OF assms(1) y(2,3,5,6)]) (use y2 r(4) f2 d in auto)
  have again: "fiber_resume thr a w2 = Inl (Assert_failed ''never reach'')"
    using y y2 f2 d by (cases e; cases "fb_back_to_caller f")
      (simp_all add: fiber_resume_def fiber_simps Let_def)
  let ?w3 = "upd_fiber a (\<lambda>f. f\<lparr>fb_cb := cb, fb_ctx := Entry, fb_done := False, fb_state := INIT\<rparr>) w2"
  have rs: "fiber_reset a cb w2 = Inr ?w3"
    using y2 f2 by (cases e) (simp_all add: fiber_reset_def fiber_at_def fassert_def)
  have "suspended a ?w3" using y2 f2 by (simp add: suspended_def upd_fiber_def)
  moreover have "dispatching thr s a ?w3"
    by (rule dispatching_frame [OF disp]) (use y y2 d in \<open>auto simp: upd_fiber_def\<close>)
  ultimately show ?thesis using r(1) m disp again rs y2 f2(4) by auto
qed

theorem finished_fiber_witness:
  "\<exists>w1 w2. fiber_resume 5 2 example_fibers = Inr w1 \<and> MainFunc_exit Raised 5 2 w1 = Inr w2
     \<and> fiber_resume 5 2 w2 = Inl (Assert_failed ''never reach'')"
  using finished_fiber [OF example_fibers_ok, of Raised None] by auto

end
