(* ===== verification/Scheduler.thy ===== *)
theory Scheduler
  imports Fiber "HOL-Library.Multiset"
begin

text \<open>
  The coroutine scheduler of \<^verbatim>\<open>hiper/base/scheduler.cc\<close>: the task queue, construction, start and stop, and
  the dispatch loop \<^verbatim>\<open>run\<close> as a machine whose steps are the pieces of the loop body between its points
  of interference (the locked block, the resume, the atomic decrement, the check of the fiber). Any
  number of workers and scheduling threads interleave. The lemmas show that every step moves one
  worker in balance; conservation of tasks and the meaning of the active counter follow by induction
  over runs.
\<close>

section \<open>State\<close>

text \<open>\<^verbatim>\<open>FiberAndThread\<close>, and the two kinds of argument that \<^verbatim>\<open>schedule\<close> takes (either pointer may be null).\<close>

record task =
  tk_fiber :: "nat option"
  tk_cb :: "nat option"
  tk_thread :: int

datatype fiber_or_cb = Fiber_task "nat option" | Cb_task "nat option"

fun make_task :: "fiber_or_cb \<Rightarrow> int \<Rightarrow> task" where
  "make_task (Fiber_task f) thr = \<lparr>tk_fiber = f, tk_cb = None, tk_thread = thr\<rparr>"
| "make_task (Cb_task c) thr = \<lparr>tk_fiber = None, tk_cb = c, tk_thread = thr\<rparr>"

definition empty_task :: task where
  "empty_task = \<lparr>tk_fiber = None, tk_cb = None, tk_thread = - 1\<rparr>"

record scheduler =
  sc_queue :: "task list"
  sc_active :: nat
  sc_idle :: nat
  sc_stopping :: bool
  sc_auto_stop :: bool
  sc_name :: string
  sc_thread_count :: nat
  sc_thread_ids :: "int list"
  sc_threads :: "int list"
  sc_caller_thread :: int
  sc_caller_fiber :: "nat option"

section \<open>The task queue\<close>

definition scheduleNoLock :: "fiber_or_cb \<Rightarrow> int \<Rightarrow> scheduler \<Rightarrow> bool \<times> scheduler" where
  "scheduleNoLock fc thr s =
     (let need_tickle = (sc_queue s = []); ft = make_task fc thr
      in (need_tickle,
          if tk_fiber ft \<noteq> None \<or> tk_cb ft \<noteq> None then s\<lparr>sc_queue := sc_queue s @ [ft]\<rparr> else s))"

text \<open>\<^verbatim>\<open>schedule\<close>: the flag says whether \<^verbatim>\<open>tickle\<close> is called.\<close>

definition schedule :: "fiber_or_cb \<Rightarrow> int \<Rightarrow> scheduler \<Rightarrow> bool \<times> scheduler" where
  "schedule fc thr s = scheduleNoLock fc thr s"

fun schedule_range :: "fiber_or_cb list \<Rightarrow> bool \<Rightarrow> scheduler \<Rightarrow> bool \<times> scheduler" where
  "schedule_range [] need_tickle s = (need_tickle, s)"
| "schedule_range (fc # fcs) need_tickle s =
     (let (n, s') = scheduleNoLock fc (- 1) s in schedule_range fcs (n \<or> need_tickle) s')"

text \<open>
  The search of \<^verbatim>\<open>run\<close> under the lock, for the thread \<open>me\<close>: the tickle flag, the task taken, and the
  queue without it. \<open>st\<close> reads a fiber's state.
\<close>

fun pick_loop :: "int \<Rightarrow> (nat \<Rightarrow> fiber_state) \<Rightarrow> task list \<Rightarrow> (bool \<times> task option \<times> task list) fiber_result" where
  "pick_loop me st [] = Inr (False, None, [])"
| "pick_loop me st (t # ts) =
     (if tk_thread t \<noteq> - 1 \<and> tk_thread t \<noteq> me then
        bindE (pick_loop me st ts) (\<lambda>(tickle, p, q). Inr (True, p, t # q))
      else if tk_fiber t = None \<and> tk_cb t = None then Inl (Assert_failed ''it->fiber || it->cb'')
      else if (case tk_fiber t of Some f \<Rightarrow> st f = EXEC | None \<Rightarrow> False) then
        bindE (pick_loop me st ts) (\<lambda>(tickle, p, q). Inr (tickle, p, t # q))
      else Inr (ts \<noteq> [], Some t, ts))"

definition stopping :: "scheduler \<Rightarrow> bool" where
  "stopping s \<longleftrightarrow> sc_auto_stop s \<and> sc_stopping s \<and> sc_queue s = [] \<and> sc_active s = 0"

section \<open>Construction, start and stop\<close>

text \<open>
  The constructor, called on thread \<open>thr\<close>: \<open>other\<close> says whether the thread already has a scheduler,
  \<open>fresh\<close> and \<open>root\<close> are the addresses that a new main fiber and the caller's scheduling fiber get.
\<close>

definition new_scheduler :: "nat \<Rightarrow> bool \<Rightarrow> string \<Rightarrow> int \<Rightarrow> bool \<Rightarrow> u32 \<Rightarrow> nat \<Rightarrow> nat \<Rightarrow> nat \<Rightarrow> fibers
    \<Rightarrow> (scheduler \<times> fibers) fiber_result" where
  "new_scheduler n use_cur_thread name thr other dsize fresh root run_cb fs =
     (let s = \<lparr>sc_queue = [], sc_active = 0, sc_idle = 0, sc_stopping = True, sc_auto_stop = False,
                sc_name = name, sc_thread_count = n, sc_thread_ids = [], sc_threads = [],
                sc_caller_thread = - 1, sc_caller_fiber = None\<rparr> in
      bindE (fassert (n > 0) ''size > 0'' ()) (\<lambda>_.
      if use_cur_thread then
        let (_, fs1) = GetThis thr fresh fs in
        bindE (fassert (\<not> other) ''GetThis() == nullptr'' ()) (\<lambda>_.
          let fs2 = new_fiber dsize root (Some run_cb) 0 True fs1 in
          Inr (s\<lparr>sc_thread_count := n - 1, sc_caller_thread := thr, sc_thread_ids := [thr], sc_caller_fiber := Some root\<rparr>,
               fs2\<lparr>t_sched := (t_sched fs2)(thr \<mapsto> root)\<rparr>))
      else Inr (s, fs)))"

text \<open>\<open>ids\<close> are the ids of the threads that \<^verbatim>\<open>start\<close> creates.\<close>

definition start :: "int list \<Rightarrow> scheduler \<Rightarrow> scheduler fiber_result" where
  "start ids s =
     (if \<not> sc_stopping s then Inr s
      else bindE (fassert (sc_threads s = []) ''threads_.empty()'' ()) (\<lambda>_.
        Inr (s\<lparr>sc_stopping := False, sc_threads := take (sc_thread_count s) ids,
               sc_thread_ids := sc_thread_ids s @ take (sc_thread_count s) ids\<rparr>)))"

text \<open>
  \<^verbatim>\<open>stop\<close> on a thread whose current scheduler is this one iff \<open>is_current\<close>; \<open>st\<close> is the state of the
  caller's scheduling fiber. The result is \<open>None\<close> for the early return, otherwise the number of calls of
  \<^verbatim>\<open>tickle\<close>, whether the caller's fiber is resumed, and the threads joined.
\<close>

definition stop :: "bool \<Rightarrow> fiber_state \<Rightarrow> scheduler \<Rightarrow> ((nat \<times> bool \<times> int list) option \<times> scheduler) fiber_result" where
  "stop is_current st s0 =
     (let s1 = s0\<lparr>sc_auto_stop := True\<rparr>;
          caller_done = (sc_caller_fiber s1 \<noteq> None \<and> sc_thread_count s1 = 0 \<and> (st = TERM_state \<or> st = INIT));
          s2 = (if caller_done then s1\<lparr>sc_stopping := True\<rparr> else s1) in
      if caller_done \<and> stopping s2 then Inr (None, s2)
      else bindE (if sc_caller_thread s2 \<noteq> - 1 then fassert is_current ''GetThis() == this'' ()
                  else fassert (\<not> is_current) ''GetThis() != this'' ()) (\<lambda>_.
        let s3 = s2\<lparr>sc_stopping := True\<rparr> in
        Inr (Some (sc_thread_count s3 + (if sc_caller_fiber s3 \<noteq> None then 1 else 0),
                   sc_caller_fiber s3 \<noteq> None \<and> \<not> stopping s3,
                   sc_threads s3),
             s3\<lparr>sc_threads := []\<rparr>)))"

section \<open>The dispatch loop as a machine\<close>

text \<open>
  Where a worker stands in the body of \<^verbatim>\<open>while (true)\<close> in \<^verbatim>\<open>run\<close>: at its top, behind the locked block
  (with \<^verbatim>\<open>ft\<close>, \<^verbatim>\<open>tickle_me\<close>, \<^verbatim>\<open>is_active\<close>), inside a resumed fiber, behind \<^verbatim>\<open>resume\<close>, behind the
  decrement of \<^verbatim>\<open>active_thread_count_\<close>, or out of the loop.
\<close>

datatype phase =
    Top
  | Dispatch task bool bool
  | Run_fiber nat
  | After_fiber nat
  | Check_fiber nat
  | Run_cb nat
  | After_cb nat
  | Check_cb nat
  | Run_idle
  | After_idle
  | Left

text \<open>The shared scheduler and fibers, and each worker's phase and the locals \<^verbatim>\<open>cb_fiber\<close> and \<^verbatim>\<open>idle_fiber\<close>.\<close>

record sworld =
  sw_sched :: scheduler
  sw_fibers :: fibers
  sw_phase :: "int \<Rightarrow> phase"
  sw_cb_fiber :: "int \<Rightarrow> nat option"
  sw_idle_fiber :: "int \<Rightarrow> nat"

definition state_of :: "fibers \<Rightarrow> nat \<Rightarrow> fiber_state" where
  "state_of fs a = (case fs_heap fs a of Some f \<Rightarrow> fb_state f | None \<Rightarrow> INIT)"

definition goto :: "int \<Rightarrow> phase \<Rightarrow> sworld \<Rightarrow> sworld" where
  "goto me p w = w\<lparr>sw_phase := (sw_phase w)(me := p)\<rparr>"

definition upd_sched :: "(scheduler \<Rightarrow> scheduler) \<Rightarrow> sworld \<Rightarrow> sworld" where
  "upd_sched g w = w\<lparr>sw_sched := g (sw_sched w)\<rparr>"

text \<open>
  \<^verbatim>\<open>run\<close> before its loop: a worker other than the caller's thread makes its main fiber the scheduling
  fiber; every worker gets an idle fiber.
\<close>

definition run_prologue :: "u32 \<Rightarrow> nat \<Rightarrow> nat \<Rightarrow> nat \<Rightarrow> int \<Rightarrow> sworld \<Rightarrow> sworld" where
  "run_prologue dsize fresh idle_fiber idle_cb me w =
     (let fs = (if me \<noteq> sc_caller_thread (sw_sched w)
                then (let (m, fs1) = GetThis me fresh (sw_fibers w) in fs1\<lparr>t_sched := (t_sched fs1)(me \<mapsto> m)\<rparr>)
                else sw_fibers w)
      in goto me Top (w\<lparr>sw_fibers := new_fiber dsize idle_fiber (Some idle_cb) 0 False fs,
             sw_cb_fiber := (sw_cb_fiber w)(me := None), sw_idle_fiber := (sw_idle_fiber w)(me := idle_fiber)\<rparr>))"

text \<open>What a step leaves in the trace: a task queued, handed to a worker's fiber, or dropped.\<close>

datatype sched_event = Queued task | Executed int task | Dropped int task | Tickled

definition tickle_event :: "bool \<Rightarrow> sched_event list" where
  "tickle_event b = (if b then [Tickled] else [])"

definition sched_task :: "fiber_or_cb \<Rightarrow> int \<Rightarrow> sworld \<Rightarrow> sched_event list \<times> sworld" where
  "sched_task fc thr w =
     (let (n, s) = schedule fc thr (sw_sched w); ft = make_task fc thr
      in ((if tk_fiber ft \<noteq> None \<or> tk_cb ft \<noteq> None then [Queued ft] else []) @ tickle_event n,
          w\<lparr>sw_sched := s\<rparr>))"

text \<open>
  \<^verbatim>\<open>switchTo(thread)\<close> on the thread \<open>me\<close>, whose current scheduler is this one iff \<open>is_current\<close>: nothing to
  do, or the running fiber is queued for \<open>thread\<close> and yields.
\<close>

definition switchTo :: "bool \<Rightarrow> int \<Rightarrow> int \<Rightarrow> nat \<Rightarrow> sworld \<Rightarrow> (sched_event list \<times> sworld) fiber_result" where
  "switchTo is_current thread me fresh w =
     (if is_current \<and> (thread = - 1 \<or> thread = me) then Inr ([], w)
      else let (cur, fs) = GetThis me fresh (sw_fibers w);
               (ev, w1) = sched_task (Fiber_task (Some cur)) thread (w\<lparr>sw_fibers := fs\<rparr>)
           in bindE (YieldToHold me fresh (sw_fibers w1)) (\<lambda>fs'. Inr (ev, w1\<lparr>sw_fibers := fs'\<rparr>)))"

text \<open>The locked block: take a task, count this thread as active.\<close>

definition do_pick :: "int \<Rightarrow> sworld \<Rightarrow> sworld fiber_result" where
  "do_pick me w =
     bindE (pick_loop me (state_of (sw_fibers w)) (sc_queue (sw_sched w))) (\<lambda>(tickle, p, q).
       case p of
         None \<Rightarrow> Inr (goto me (Dispatch empty_task tickle False) w)
       | Some t \<Rightarrow> Inr (goto me (Dispatch t tickle True)
           (upd_sched (\<lambda>s. s\<lparr>sc_queue := q, sc_active := sc_active s + 1\<rparr>) w)))"

text \<open>
  From \<^verbatim>\<open>if (tickle_me)\<close> to the \<^verbatim>\<open>resume\<close> that the branch calls; \<open>fresh\<close> is the address that
  \<^verbatim>\<open>new Fiber(ft.cb)\<close> gets, \<open>dsize\<close> the configured stack size.
\<close>

definition do_dispatch :: "u32 \<Rightarrow> nat \<Rightarrow> int \<Rightarrow> task \<Rightarrow> bool \<Rightarrow> bool \<Rightarrow> sworld \<Rightarrow> (sched_event list \<times> sworld) fiber_result" where
  "do_dispatch dsize fresh me ft tickle is_active w =
     (let ev = tickle_event tickle; fs = sw_fibers w in
      case tk_fiber ft of
        Some f \<Rightarrow>
          if state_of fs f \<noteq> TERM_state \<and> state_of fs f \<noteq> EXCEPT then
            bindE (fiber_resume me f fs) (\<lambda>fs'.
              Inr (ev @ [Executed me ft], goto me (Run_fiber f) (w\<lparr>sw_fibers := fs'\<rparr>)))
          else Inr (ev @ [Dropped me ft], goto me Top (upd_sched (\<lambda>s. s\<lparr>sc_active := sc_active s - 1\<rparr>) w))
      | None \<Rightarrow>
          (case tk_cb ft of
             Some cb \<Rightarrow>
               bindE (case sw_cb_fiber w me of
                        Some c \<Rightarrow> bindE (fiber_reset c (Some cb) fs) (\<lambda>fs'. Inr (c, fs'))
                      | None \<Rightarrow> Inr (fresh, new_fiber dsize fresh (Some cb) 0 False fs)) (\<lambda>(c, fs1).
               bindE (fiber_resume me c fs1) (\<lambda>fs2.
                 Inr (ev @ [Executed me ft],
                      goto me (Run_cb c) (w\<lparr>sw_fibers := fs2, sw_cb_fiber := (sw_cb_fiber w)(me \<mapsto> c)\<rparr>))))
           | None \<Rightarrow>
               if is_active then Inr (ev, goto me Top (upd_sched (\<lambda>s. s\<lparr>sc_active := sc_active s - 1\<rparr>) w))
               else if state_of fs (sw_idle_fiber w me) = TERM_state then Inr (ev, goto me Left w)
               else bindE (fiber_resume me (sw_idle_fiber w me) fs) (\<lambda>fs'.
                 Inr (ev, goto me Run_idle (upd_sched (\<lambda>s. s\<lparr>sc_idle := sc_idle s + 1\<rparr>) (w\<lparr>sw_fibers := fs'\<rparr>))))))"

text \<open>Behind the decrement: requeue a fiber that is READY, put one that is not finished on HOLD.\<close>

definition do_check_fiber :: "int \<Rightarrow> nat \<Rightarrow> sworld \<Rightarrow> sched_event list \<times> sworld" where
  "do_check_fiber me f w =
     (let st = state_of (sw_fibers w) f in
      if st = READY then (let (ev, w') = sched_task (Fiber_task (Some f)) (- 1) w in (ev, goto me Top w'))
      else if st \<noteq> TERM_state \<and> st \<noteq> EXCEPT then
        ([], goto me Top (w\<lparr>sw_fibers := set_state f HOLD (sw_fibers w)\<rparr>))
      else ([], goto me Top w))"

definition do_check_cb :: "int \<Rightarrow> nat \<Rightarrow> sworld \<Rightarrow> (sched_event list \<times> sworld) fiber_result" where
  "do_check_cb me c w =
     (let st = state_of (sw_fibers w) c; w1 = w\<lparr>sw_cb_fiber := (sw_cb_fiber w)(me := None)\<rparr> in
      if st = READY then
        (let (ev, w') = sched_task (Fiber_task (Some c)) (- 1) w1 in Inr (ev, goto me Top w'))
      else if st = EXCEPT \<or> st = TERM_state then
        bindE (fiber_reset c None (sw_fibers w)) (\<lambda>fs. Inr ([], goto me Top (w\<lparr>sw_fibers := fs\<rparr>)))
      else Inr ([], goto me Top (w1\<lparr>sw_fibers := set_state c HOLD (sw_fibers w)\<rparr>)))"

definition do_after_idle :: "int \<Rightarrow> sworld \<Rightarrow> sworld" where
  "do_after_idle me w =
     (let w1 = upd_sched (\<lambda>s. s\<lparr>sc_idle := sc_idle s - 1\<rparr>) w; a = sw_idle_fiber w me;
          st = state_of (sw_fibers w) a in
      goto me Top (if st \<noteq> TERM_state \<and> st \<noteq> EXCEPT then w1\<lparr>sw_fibers := set_state a HOLD (sw_fibers w)\<rparr> else w1))"

text \<open>The fiber a worker has resumed, and where it goes on when that fiber gives the thread back.\<close>

fun resumed :: "sworld \<Rightarrow> int \<Rightarrow> (nat \<times> phase) option" where
  "resumed w me = (case sw_phase w me of
     Run_fiber f \<Rightarrow> Some (f, After_fiber f)
   | Run_cb c \<Rightarrow> Some (c, After_cb c)
   | Run_idle \<Rightarrow> Some (sw_idle_fiber w me, After_idle)
   | _ \<Rightarrow> None)"

text \<open>
  The actions. Any thread may call \<^verbatim>\<open>schedule\<close> or \<^verbatim>\<open>stop\<close> at any time; the others are the steps of the
  worker named first. \<^verbatim>\<open>YieldToReady\<close> and \<^verbatim>\<open>YieldToHold\<close> are two steps, because nothing protects the
  fiber between the assignment of \<^verbatim>\<open>state_\<close> (\<open>Set_yield_state\<close>) and \<^verbatim>\<open>swapcontext\<close> (\<open>Swap_out\<close>).
  \<open>Idle_turn\<close> is one turn of \<^verbatim>\<open>Scheduler::idle\<close>.
\<close>

datatype action =
    Schedule fiber_or_cb int
  | Stop_request
  | Pick int
  | Go int u32 nat
  | Set_yield_state int fiber_state
  | Swap_out int
  | Finish int fiber_exit
  | Decrement int
  | Check int
  | Idle_turn int nat
  | Idle_back int

fun act :: "action \<Rightarrow> sworld \<Rightarrow> (sched_event list \<times> sworld) fiber_result option" where
  "act (Schedule fc thr) w = Some (Inr (sched_task fc thr w))"
| "act Stop_request w = Some (Inr ([], upd_sched (\<lambda>s. s\<lparr>sc_auto_stop := True, sc_stopping := True\<rparr>) w))"
| "act (Pick me) w = (case sw_phase w me of
     Top \<Rightarrow> Some (bindE (do_pick me w) (\<lambda>w'. Inr ([], w'))) | _ \<Rightarrow> None)"
| "act (Go me dsize fresh) w = (case sw_phase w me of
     Dispatch ft tickle active \<Rightarrow> Some (do_dispatch dsize fresh me ft tickle active w) | _ \<Rightarrow> None)"
| "act (Set_yield_state me st) w = (case resumed w me of
     Some (f, p) \<Rightarrow> Some (bindE (fassert (state_of (sw_fibers w) f = EXEC) ''state'' ())
       (\<lambda>_. Inr ([], w\<lparr>sw_fibers := set_state f st (sw_fibers w)\<rparr>))) | None \<Rightarrow> None)"
| "act (Swap_out me) w = (case resumed w me of
     Some (f, p) \<Rightarrow> Some (bindE (fiber_yield me f (sw_fibers w)) (\<lambda>fs. Inr ([], goto me p (w\<lparr>sw_fibers := fs\<rparr>))))
   | None \<Rightarrow> None)"
| "act (Finish me e) w = (case resumed w me of
     Some (f, p) \<Rightarrow> Some (bindE (MainFunc_exit e me f (sw_fibers w)) (\<lambda>fs. Inr ([], goto me p (w\<lparr>sw_fibers := fs\<rparr>))))
   | None \<Rightarrow> None)"
| "act (Decrement me) w = (case sw_phase w me of
     After_fiber f \<Rightarrow> Some (Inr ([], goto me (Check_fiber f) (upd_sched (\<lambda>s. s\<lparr>sc_active := sc_active s - 1\<rparr>) w)))
   | After_cb c \<Rightarrow> Some (Inr ([], goto me (Check_cb c) (upd_sched (\<lambda>s. s\<lparr>sc_active := sc_active s - 1\<rparr>) w)))
   | _ \<Rightarrow> None)"
| "act (Check me) w = (case sw_phase w me of
     Check_fiber f \<Rightarrow> Some (Inr (do_check_fiber me f w)) | Check_cb c \<Rightarrow> Some (do_check_cb me c w) | _ \<Rightarrow> None)"
| "act (Idle_turn me fresh) w = (case sw_phase w me of
     Run_idle \<Rightarrow>
       Some (bindE (if stopping (sw_sched w) then MainFunc_exit Returned me (sw_idle_fiber w me) (sw_fibers w)
                    else YieldToHold me fresh (sw_fibers w))
               (\<lambda>fs. Inr ([], goto me After_idle (w\<lparr>sw_fibers := fs\<rparr>))))
   | _ \<Rightarrow> None)"
| "act (Idle_back me) w = (case sw_phase w me of
     After_idle \<Rightarrow> Some (Inr ([], do_after_idle me w)) | _ \<Rightarrow> None)"

definition sched_step :: "sworld \<Rightarrow> action \<Rightarrow> sched_event list \<Rightarrow> sworld \<Rightarrow> bool" where
  "sched_step w a evs w' \<longleftrightarrow> act a w = Some (Inr (evs, w'))"

inductive sched_run :: "sworld \<Rightarrow> sched_event list \<Rightarrow> sworld \<Rightarrow> bool" where
  srun_nil: "sched_run w [] w"
| srun_step: "sched_run w evs w1 \<Longrightarrow> sched_step w1 a evs' w2 \<Longrightarrow> sched_run w (evs @ evs') w2"

section \<open>Selection\<close>

definition eligible :: "int \<Rightarrow> task \<Rightarrow> bool" where
  "eligible me t \<longleftrightarrow> tk_thread t = - 1 \<or> tk_thread t = me"

definition runnable :: "int \<Rightarrow> (nat \<Rightarrow> fiber_state) \<Rightarrow> task \<Rightarrow> bool" where
  "runnable me st t \<longleftrightarrow> eligible me t \<and> (case tk_fiber t of Some f \<Rightarrow> st f \<noteq> EXEC | None \<Rightarrow> True)"

definition task_ok :: "task \<Rightarrow> bool" where
  "task_ok t \<longleftrightarrow> tk_fiber t \<noteq> None \<or> tk_cb t \<noteq> None"

lemma pick_loop_spec:
  assumes "\<forall>t\<in>set q. task_ok t"
  shows "case find (runnable me st) q of
      None \<Rightarrow> pick_loop me st q = Inr (\<exists>t\<in>set q. \<not> eligible me t, None, q)
    | Some t \<Rightarrow> \<exists>pre post. q = pre @ t # post \<and> (\<forall>u\<in>set pre. \<not> runnable me st u) \<and> runnable me st t
        \<and> pick_loop me st q = Inr ((\<exists>u\<in>set pre. \<not> eligible me u) \<or> post \<noteq> [], Some t, pre @ post)"
  using assms
proof (induction q)
  case Nil
  then show ?case by simp
next
  case (Cons u q)
  have ok: "\<not> (tk_fiber u = None \<and> tk_cb u = None)" using Cons.prems by (auto simp: task_ok_def)
  show ?case
  proof (cases "runnable me st u")
    case True
    then have "pick_loop me st (u # q) = Inr (q \<noteq> [], Some u, q)"
      using ok by (auto simp: runnable_def eligible_def split: option.splits)
    then show ?thesis using True by (auto intro: exI [of _ "[]"])
  next
    case False
    have step: "pick_loop me st (u # q) = bindE (pick_loop me st q)
        (\<lambda>(tickle, p, r). Inr (\<not> eligible me u \<or> tickle, p, u # r))"
      using False ok
      by (auto simp: runnable_def eligible_def split: option.splits intro!: bindE_cong)
    show ?thesis
    proof (cases "find (runnable me st) q")
      case None
      then show ?thesis using Cons False by (auto simp add: step simp del: pick_loop.simps)
    next
      case (Some t)
      with Cons obtain pre post where *: "q = pre @ t # post" "\<forall>u\<in>set pre. \<not> runnable me st u" "runnable me st t"
        "pick_loop me st q = Inr ((\<exists>u\<in>set pre. \<not> eligible me u) \<or> post \<noteq> [], Some t, pre @ post)" by auto
      then have "pick_loop me st (u # q) = Inr ((\<exists>v\<in>set (u # pre). \<not> eligible me v) \<or> post \<noteq> [], Some t, (u # pre) @ post)"
        unfolding step by auto
      moreover have fd: "find (runnable me st) (u # q) = Some t" using Some False by simp
      moreover have "u # q = (u # pre) @ t # post" "\<forall>v\<in>set (u # pre). \<not> runnable me st v" using * False by auto
      ultimately show ?thesis
        using *(3) unfolding fd option.case by blast
    qed
  qed
qed

lemma pick_loop_Some:
  assumes "pick_loop me st q = Inr (tickle, Some t, r)"
  shows "mset q = add_mset t (mset r) \<and> runnable me st t \<and> task_ok t \<and> set r \<subseteq> set q"
  using assms
  by (induction q arbitrary: tickle r)
    (auto simp: bindE_Inr_iff runnable_def eligible_def task_ok_def split: if_splits option.splits)

lemma pick_loop_None: "pick_loop me st q = Inr (tickle, None, r) \<Longrightarrow> r = q"
  by (induction q arbitrary: tickle r) (auto simp: bindE_Inr_iff split: if_splits)

section \<open>Invariants of the machine\<close>

text \<open>The workers are the threads of the finite set \<open>W\<close>; a worker is counted as active in these phases.\<close>

fun holding :: "phase \<Rightarrow> bool" where
  "holding (Dispatch t tickle active) = active"
| "holding (Run_fiber f) = True"
| "holding (After_fiber f) = True"
| "holding (Run_cb c) = True"
| "holding (After_cb c) = True"
| "holding p = False"

fun in_hand :: "phase \<Rightarrow> task multiset" where
  "in_hand (Dispatch t tickle active) = (if active then {#t#} else {#})"
| "in_hand p = {#}"

definition active_workers :: "int set \<Rightarrow> (int \<Rightarrow> phase) \<Rightarrow> nat" where
  "active_workers W ph = (\<Sum>t\<in>W. if holding (ph t) then 1 else 0)"

definition tasks_in_hand :: "int set \<Rightarrow> (int \<Rightarrow> phase) \<Rightarrow> task multiset" where
  "tasks_in_hand W ph = (\<Sum>t\<in>W. in_hand (ph t))"

definition phase_ok :: "int \<Rightarrow> phase \<Rightarrow> bool" where
  "phase_ok me p \<longleftrightarrow> (case p of
      Dispatch t tickle active \<Rightarrow> (active \<longrightarrow> task_ok t \<and> eligible me t) \<and> (\<not> active \<longrightarrow> t = empty_task)
    | _ \<Rightarrow> True)"

definition sched_inv :: "int set \<Rightarrow> sworld \<Rightarrow> bool" where
  "sched_inv W w \<longleftrightarrow> finite W \<and> (\<forall>t. t \<notin> W \<longrightarrow> sw_phase w t = Left)
     \<and> sc_active (sw_sched w) = active_workers W (sw_phase w)
     \<and> (\<forall>t\<in>set (sc_queue (sw_sched w)). task_ok t)
     \<and> (\<forall>t. phase_ok t (sw_phase w t))"

fun queued_of :: "sched_event list \<Rightarrow> task multiset" where
  "queued_of [] = {#}"
| "queued_of (Queued t # es) = add_mset t (queued_of es)"
| "queued_of (_ # es) = queued_of es"

fun consumed_of :: "sched_event list \<Rightarrow> task multiset" where
  "consumed_of [] = {#}"
| "consumed_of (Executed me t # es) = add_mset t (consumed_of es)"
| "consumed_of (Dropped me t # es) = add_mset t (consumed_of es)"
| "consumed_of (_ # es) = consumed_of es"

lemma trace_append [simp]:
  "queued_of (es @ es') = queued_of es + queued_of es'"
  "consumed_of (es @ es') = consumed_of es + consumed_of es'"
  by (induction es rule: queued_of.induct; simp) (induction es rule: consumed_of.induct; simp)

lemma trace_tickle [simp]: "queued_of (tickle_event b) = {#}" "consumed_of (tickle_event b) = {#}"
  by (simp_all add: tickle_event_def)

lemma sum_fun_upd:
  fixes g :: "'b \<Rightarrow> 'c::comm_monoid_add"
  assumes "finite W" and "me \<in> W"
  shows "(\<Sum>t\<in>W. g ((h(me := p)) t)) + g (h me) = (\<Sum>t\<in>W. g (h t)) + g p"
proof -
  have "(\<Sum>t\<in>W. g ((h(me := p)) t)) = g p + (\<Sum>t\<in>W - {me}. g (h t))"
    using assms by (subst sum.remove [of W me]) (auto intro!: arg_cong2 [of _ _ _ _ "(+)"] sum.cong)
  moreover have "(\<Sum>t\<in>W. g (h t)) = g (h me) + (\<Sum>t\<in>W - {me}. g (h t))"
    using assms by (subst sum.remove [of W me]) auto
  ultimately show ?thesis by (simp add: ac_simps)
qed

text \<open>
  What every step must establish: for the worker that moves, the new phase, the change of the counter
  and the balance of the tasks.
\<close>

definition balanced :: "sworld \<Rightarrow> sched_event list \<Rightarrow> sworld \<Rightarrow> int \<Rightarrow> phase \<Rightarrow> bool" where
  "balanced w evs w' me p \<longleftrightarrow> sw_phase w' = (sw_phase w)(me := p) \<and> phase_ok me p
     \<and> sc_active (sw_sched w') + (if holding (sw_phase w me) then 1 else 0)
         = sc_active (sw_sched w) + (if holding p then 1 else 0)
     \<and> (\<forall>t\<in>set (sc_queue (sw_sched w')). task_ok t)
     \<and> mset (sc_queue (sw_sched w)) + in_hand (sw_phase w me) + queued_of evs
         = mset (sc_queue (sw_sched w')) + in_hand p + consumed_of evs"

lemma multiset_balance:
  fixes T T' h i q q' e c :: "'a multiset"
  assumes "T' + h = T + i" and "q + h + e = q' + i + c"
  shows "q + T + e = q' + T' + c"
proof -
  have "(q + T + e) + i = (q + e) + (T + i)" by (simp add: ac_simps)
  also have "\<dots> = (q + h + e) + T'" unfolding assms(1) [symmetric] by (simp add: ac_simps)
  also have "\<dots> = (q' + T' + c) + i" unfolding assms(2) by (simp add: ac_simps)
  finally show ?thesis by simp
qed

lemma balanced_inv:
  assumes "balanced w evs w' me p" and "sched_inv W w" and "me \<in> W"
  shows "sched_inv W w'"
    and "mset (sc_queue (sw_sched w)) + tasks_in_hand W (sw_phase w) + queued_of evs
         = mset (sc_queue (sw_sched w')) + tasks_in_hand W (sw_phase w') + consumed_of evs"
proof -
  have fin: "finite W" using assms(2) by (simp add: sched_inv_def)
  let ?one = "\<lambda>p. if holding p then 1 else (0 :: nat)"
  have ph: "sw_phase w' = (sw_phase w)(me := p)" using assms(1) by (simp add: balanced_def)
  have "active_workers W (sw_phase w') + ?one (sw_phase w me) = active_workers W (sw_phase w) + ?one p"
    using sum_fun_upd [OF fin assms(3), of ?one "sw_phase w" p] by (simp add: active_workers_def ph)
  then have "sc_active (sw_sched w') = active_workers W (sw_phase w')"
    using assms(1,2) by (simp add: balanced_def sched_inv_def split: if_splits)
  then show "sched_inv W w'"
    using assms by (auto simp: balanced_def sched_inv_def)
  have "tasks_in_hand W (sw_phase w') + in_hand (sw_phase w me) = tasks_in_hand W (sw_phase w) + in_hand p"
    using sum_fun_upd [OF fin assms(3), of in_hand "sw_phase w" p] by (simp add: tasks_in_hand_def ph)
  moreover have "mset (sc_queue (sw_sched w)) + in_hand (sw_phase w me) + queued_of evs
         = mset (sc_queue (sw_sched w')) + in_hand p + consumed_of evs"
    using assms(1) by (simp add: balanced_def)
  ultimately show "mset (sc_queue (sw_sched w)) + tasks_in_hand W (sw_phase w) + queued_of evs
         = mset (sc_queue (sw_sched w')) + tasks_in_hand W (sw_phase w') + consumed_of evs"
    by (rule multiset_balance)
qed

lemma holding_counted:
  assumes "sched_inv W w" and "holding (sw_phase w me)"
  shows "me \<in> W" and "0 < sc_active (sw_sched w)"
proof -
  show me: "me \<in> W" using assms by (cases "me \<in> W") (auto simp: sched_inv_def)
  have "finite W" using assms by (simp add: sched_inv_def)
  then have "0 < active_workers W (sw_phase w)"
    using me assms(2) by (auto simp: active_workers_def intro: sum_pos2)
  then show "0 < sc_active (sw_sched w)" using assms by (simp add: sched_inv_def)
qed

lemma worker_known: "sched_inv W w \<Longrightarrow> sw_phase w me \<noteq> Left \<Longrightarrow> me \<in> W"
  by (auto simp: sched_inv_def)

lemma goto_simps [simp]:
  "sw_phase (goto me p w) = (sw_phase w)(me := p)" "sw_sched (goto me p w) = sw_sched w"
  "sw_fibers (goto me p w) = sw_fibers w" "sw_phase (upd_sched g w) = sw_phase w"
  "sw_sched (upd_sched g w) = g (sw_sched w)" "sw_fibers (upd_sched g w) = sw_fibers w"
  by (simp_all add: goto_def upd_sched_def)

lemma task_ok_make: "task_ok (make_task fc thr) \<longleftrightarrow> tk_fiber (make_task fc thr) \<noteq> None \<or> tk_cb (make_task fc thr) \<noteq> None"
  by (simp add: task_ok_def)

lemma sched_task_effect:
  assumes "sched_task fc thr w = (evs, w')"
  shows "sw_phase w' = sw_phase w" and "sc_active (sw_sched w') = sc_active (sw_sched w)"
    and "mset (sc_queue (sw_sched w)) + queued_of evs = mset (sc_queue (sw_sched w'))"
    and "consumed_of evs = {#}"
    and "\<forall>t\<in>set (sc_queue (sw_sched w)). task_ok t \<Longrightarrow> \<forall>t\<in>set (sc_queue (sw_sched w')). task_ok t"
    and "sw_fibers w' = sw_fibers w"
  using assms by (auto simp: sched_task_def schedule_def scheduleNoLock_def Let_def task_ok_def split: if_splits)

lemma phase_ok_simps [simp]:
  "phase_ok me Top" "phase_ok me (Run_fiber f)" "phase_ok me (After_fiber f)" "phase_ok me (Check_fiber f)"
  "phase_ok me (Run_cb f)" "phase_ok me (After_cb f)" "phase_ok me (Check_cb f)" "phase_ok me Run_idle"
  "phase_ok me After_idle" "phase_ok me Left"
  "phase_ok me (Dispatch t b True) \<longleftrightarrow> task_ok t \<and> eligible me t"
  "phase_ok me (Dispatch t b False) \<longleftrightarrow> t = empty_task"
  by (simp_all add: phase_ok_def)

lemma do_pick_balanced:
  assumes "do_pick me w = Inr w'" and "sw_phase w me = Top" and "sched_inv W w"
  shows "\<exists>p. balanced w [] w' me p"
proof -
  obtain tickle p q where pk: "pick_loop me (state_of (sw_fibers w)) (sc_queue (sw_sched w)) = Inr (tickle, p, q)"
    using assms(1) by (auto simp: do_pick_def bindE_Inr_iff)
  show ?thesis
  proof (cases p)
    case None
    then have "w' = goto me (Dispatch empty_task tickle False) w" using assms(1) pk by (simp add: do_pick_def)
    then show ?thesis using assms(2,3)
      by (intro exI [of _ "Dispatch empty_task tickle False"]) (simp add: balanced_def sched_inv_def)
  next
    case (Some t)
    with pk have "pick_loop me (state_of (sw_fibers w)) (sc_queue (sw_sched w)) = Inr (tickle, Some t, q)" by simp
    note sp = pick_loop_Some [OF this]
    have "w' = goto me (Dispatch t tickle True) (upd_sched (\<lambda>s. s\<lparr>sc_queue := q, sc_active := sc_active s + 1\<rparr>) w)"
      using assms(1) pk Some by (simp add: do_pick_def)
    then show ?thesis using assms(2,3) sp
      by (intro exI [of _ "Dispatch t tickle True"])
        (auto simp: balanced_def sched_inv_def runnable_def)
  qed
qed

lemma do_dispatch_balanced:
  assumes "do_dispatch dsize fresh me ft tickle active w = Inr (evs, w')"
    and "sw_phase w me = Dispatch ft tickle active" and "sched_inv W w"
  shows "\<exists>p. balanced w evs w' me p"
proof -
  have ok: "phase_ok me (Dispatch ft tickle active)" using assms(2,3) by (metis sched_inv_def)
  have qok: "\<forall>t\<in>set (sc_queue (sw_sched w)). task_ok t" using assms(3) by (simp add: sched_inv_def)
  note b = balanced_def assms(2) qok
  show ?thesis
  proof (cases active)
    case True
    then have h: "task_ok ft" "0 < sc_active (sw_sched w)"
      using ok holding_counted(2) [OF assms(3), of me] assms(2) by simp_all
    show ?thesis
    proof (cases "tk_fiber ft")
      case (Some f)
      show ?thesis
      proof (cases "state_of (sw_fibers w) f \<noteq> TERM_state \<and> state_of (sw_fibers w) f \<noteq> EXCEPT")
        case True2: True
        then show ?thesis using assms(1) Some \<open>active\<close>
          by (intro exI [of _ "Run_fiber f"]) (auto simp: do_dispatch_def Let_def bindE_Inr_iff b)
      next
        case False
        then show ?thesis using assms(1) Some \<open>active\<close> h
          by (intro exI [of _ Top]) (auto simp: do_dispatch_def Let_def b split: if_splits)
      qed
    next
      case None
      then obtain cb where cb: "tk_cb ft = Some cb" using h by (auto simp: task_ok_def)
      then show ?thesis using assms(1) None \<open>active\<close>
        by (auto simp: do_dispatch_def Let_def bindE_Inr_iff b split: option.splits)
    qed
  next
    case False
    then have "ft = empty_task" using ok by simp
    then show ?thesis using assms(1) False
      by (auto simp: do_dispatch_def Let_def bindE_Inr_iff empty_task_def b split: if_splits)
  qed
qed

lemma do_check_balanced:
  assumes "sched_inv W w" and "sw_phase w me = Check_fiber f"
    and "do_check_fiber me f w = (evs, w')"
  shows "balanced w evs w' me Top"
proof -
  obtain e s where st: "sched_task (Fiber_task (Some f)) (- 1) w = (e, s)" by force
  note eff = sched_task_effect [OF st]
  show ?thesis
    using assms eff st
    by (auto simp: do_check_fiber_def Let_def balanced_def sched_inv_def split: if_splits)
qed

lemma do_check_cb_balanced:
  assumes "sched_inv W w" and "sw_phase w me = Check_cb c"
    and "do_check_cb me c w = Inr (evs, w')"
  shows "balanced w evs w' me Top"
proof -
  obtain e s where st: "sched_task (Fiber_task (Some c)) (- 1) (w\<lparr>sw_cb_fiber := (sw_cb_fiber w)(me := None)\<rparr>) = (e, s)"
    by force
  note eff = sched_task_effect [OF st]
  show ?thesis
    using assms eff st
    by (auto simp: do_check_cb_def Let_def balanced_def sched_inv_def bindE_Inr_iff split: if_splits)
qed

lemma resumed_phase:
  "resumed w me = Some (f, p) \<Longrightarrow> phase_ok me p \<and> holding p = holding (sw_phase w me)
     \<and> in_hand (sw_phase w me) = {#} \<and> in_hand p = {#} \<and> sw_phase w me \<noteq> Left"
  by (auto split: phase.splits)

text \<open>A step moves one worker in balance, or none at all.\<close>

lemma act_balanced:
  assumes "sched_step w a evs w'" and "sched_inv W w"
  shows "(\<exists>me\<in>W. \<exists>p. balanced w evs w' me p) \<or>
    sched_inv W w' \<and> sw_phase w' = sw_phase w \<and> consumed_of evs = {#}
      \<and> mset (sc_queue (sw_sched w)) + queued_of evs = mset (sc_queue (sw_sched w'))"
    (is "?moved \<or> ?steady")
proof -
  have st: "act a w = Some (Inr (evs, w'))" using assms(1) by (simp add: sched_step_def)
  have qok: "\<forall>t\<in>set (sc_queue (sw_sched w)). task_ok t" using assms(2) by (simp add: sched_inv_def)
  show ?thesis
  proof (cases a)
    case (Schedule fc thr)
    then have "sched_task fc thr w = (evs, w')" using st by simp
    note eff = sched_task_effect [OF this]
    then have ?steady using assms(2) by (auto simp: sched_inv_def)
    then show ?thesis ..
  next
    case Stop_request
    then have ?steady using st assms(2) by (auto simp: sched_inv_def)
    then show ?thesis ..
  next
    case (Pick me)
    then have ph: "sw_phase w me = Top" and "do_pick me w = Inr w'" "evs = []"
      using st by (auto simp: bindE_Inr_iff split: phase.splits)
    with do_pick_balanced [OF _ ph assms(2)] worker_known [OF assms(2), of me] show ?thesis by auto
  next
    case (Go me dsize fresh)
    then obtain ft b1 b2 where ph: "sw_phase w me = Dispatch ft b1 b2"
      and d: "do_dispatch dsize fresh me ft b1 b2 w = Inr (evs, w')"
      using st by (auto split: phase.splits)
    from do_dispatch_balanced [OF d ph assms(2)] worker_known [OF assms(2), of me] ph have ?moved by auto
    then show ?thesis ..
  next
    case (Set_yield_state me s)
    then have ?steady using st assms(2)
      by (auto simp: bindE_Inr_iff fassert_def sched_inv_def simp del: resumed.simps split: option.splits if_splits)
    then show ?thesis ..
  next
    case (Swap_out me)
    then obtain f p where r: "resumed w me = Some (f, p)" and "evs = []"
      and "sw_phase w' = (sw_phase w)(me := p)" "sw_sched w' = sw_sched w"
      using st by (auto simp: bindE_Inr_iff simp del: resumed.simps split: option.splits)
    then have "balanced w evs w' me p" "me \<in> W"
      using resumed_phase [OF r] qok worker_known [OF assms(2), of me] by (simp_all add: balanced_def)
    then show ?thesis by blast
  next
    case (Finish me e)
    then obtain f p where r: "resumed w me = Some (f, p)" and "evs = []"
      and "sw_phase w' = (sw_phase w)(me := p)" "sw_sched w' = sw_sched w"
      using st by (auto simp: bindE_Inr_iff simp del: resumed.simps split: option.splits)
    then have "balanced w evs w' me p" "me \<in> W"
      using resumed_phase [OF r] qok worker_known [OF assms(2), of me] by (simp_all add: balanced_def)
    then show ?thesis by blast
  next
    case (Decrement me)
    then consider f where "sw_phase w me = After_fiber f" "evs = []"
        "w' = goto me (Check_fiber f) (upd_sched (\<lambda>s. s\<lparr>sc_active := sc_active s - 1\<rparr>) w)"
      | f where "sw_phase w me = After_cb f" "evs = []"
        "w' = goto me (Check_cb f) (upd_sched (\<lambda>s. s\<lparr>sc_active := sc_active s - 1\<rparr>) w)"
      using st by (auto split: phase.splits)
    then have ?moved
    proof cases
      case (1 f)
      then have "me \<in> W" "0 < sc_active (sw_sched w)" using holding_counted [OF assms(2), of me] by simp_all
      then show ?thesis using 1 qok by (intro bexI [of _ me] exI [of _ "Check_fiber f"]) (simp_all add: balanced_def)
    next
      case (2 f)
      then have "me \<in> W" "0 < sc_active (sw_sched w)" using holding_counted [OF assms(2), of me] by simp_all
      then show ?thesis using 2 qok by (intro bexI [of _ me] exI [of _ "Check_cb f"]) (simp_all add: balanced_def)
    qed
    then show ?thesis ..
  next
    case (Check me)
    then consider f where "sw_phase w me = Check_fiber f" "do_check_fiber me f w = (evs, w')"
      | c where "sw_phase w me = Check_cb c" "do_check_cb me c w = Inr (evs, w')"
      using st by (auto split: phase.splits)
    then have ?moved
    proof cases
      case 1
      then show ?thesis
        using do_check_balanced [OF assms(2) 1] worker_known [OF assms(2), of me] by auto
    next
      case 2
      then show ?thesis
        using do_check_cb_balanced [OF assms(2) 2] worker_known [OF assms(2), of me] by auto
    qed
    then show ?thesis ..
  next
    case (Idle_turn me fresh)
    then have "sw_phase w me = Run_idle" "evs = []" "sw_phase w' = (sw_phase w)(me := After_idle)" "sw_sched w' = sw_sched w"
      using st by (auto simp: bindE_Inr_iff split: phase.splits)
    then have "balanced w evs w' me After_idle" "me \<in> W"
      using qok worker_known [OF assms(2), of me] by (simp_all add: balanced_def)
    then show ?thesis by blast
  next
    case (Idle_back me)
    then have "sw_phase w me = After_idle" "evs = []" "w' = do_after_idle me w"
      using st by (auto split: phase.splits)
    then have "balanced w evs w' me Top" "me \<in> W"
      using qok worker_known [OF assms(2), of me] by (simp_all add: balanced_def do_after_idle_def Let_def)
    then show ?thesis by blast
  qed
qed

lemma sched_step_inv:
  assumes "sched_step w a evs w'" and "sched_inv W w"
  shows "sched_inv W w' \<and> mset (sc_queue (sw_sched w)) + tasks_in_hand W (sw_phase w) + queued_of evs
         = mset (sc_queue (sw_sched w')) + tasks_in_hand W (sw_phase w') + consumed_of evs"
  using act_balanced [OF assms]
proof
  assume "\<exists>me\<in>W. \<exists>p. balanced w evs w' me p"
  then show ?thesis using balanced_inv [OF _ assms(2)] by blast
next
  assume "sched_inv W w' \<and> sw_phase w' = sw_phase w \<and> consumed_of evs = {#}
      \<and> mset (sc_queue (sw_sched w)) + queued_of evs = mset (sc_queue (sw_sched w'))"
  then show ?thesis by (auto simp: ac_simps)
qed

lemma sched_run_inv:
  "sched_run w evs w' \<Longrightarrow> sched_inv W w \<Longrightarrow> sched_inv W w'
    \<and> mset (sc_queue (sw_sched w)) + tasks_in_hand W (sw_phase w) + queued_of evs
       = mset (sc_queue (sw_sched w')) + tasks_in_hand W (sw_phase w') + consumed_of evs"
proof (induction rule: sched_run.induct)
  case (srun_step w evs w1 a evs' w2)
  note IH = srun_step.IH [OF srun_step.prems]
  note s = sched_step_inv [OF srun_step.hyps(2) conjunct1 [OF IH]]
  have "mset (sc_queue (sw_sched w)) + tasks_in_hand W (sw_phase w) + (queued_of evs + queued_of evs')
      = mset (sc_queue (sw_sched w2)) + tasks_in_hand W (sw_phase w2) + (consumed_of evs + consumed_of evs')"
    using conjunct2 [OF IH] conjunct2 [OF s] by (metis (no_types, opaque_lifting) add.assoc add.commute)
  then show ?case using conjunct1 [OF s] by simp
qed simp

section \<open>Properties\<close>

text \<open>The workers of \<open>W\<close> at the top of their loops, with nothing queued.\<close>

definition idle_world :: "int set \<Rightarrow> sworld \<Rightarrow> bool" where
  "idle_world W w \<longleftrightarrow> finite W \<and> sc_queue (sw_sched w) = [] \<and> sc_active (sw_sched w) = 0
     \<and> (\<forall>t. sw_phase w t = (if t \<in> W then Top else Left))"

lemma idle_world_inv:
  assumes "idle_world W w"
  shows "sched_inv W w" and "tasks_in_hand W (sw_phase w) = {#}"
  using assms by (auto simp: idle_world_def sched_inv_def active_workers_def tasks_in_hand_def)

definition example_scheduler :: scheduler where
  "example_scheduler = \<lparr>sc_queue = [], sc_active = 0, sc_idle = 0, sc_stopping = False, sc_auto_stop = False,
     sc_name = ''s'', sc_thread_count = 2, sc_thread_ids = [1, 2], sc_threads = [1, 2],
     sc_caller_thread = - 1, sc_caller_fiber = None\<rparr>"

definition empty_fibers :: fibers where
  "empty_fibers = \<lparr>fs_heap = Map.empty, s_fiber_id = 0, s_fiber_count = 0, t_fiber = Map.empty,
     t_main = Map.empty, t_sched = Map.empty, t_flow = Map.empty\<rparr>"

text \<open>Two workers after the prologue of \<^verbatim>\<open>run\<close>, and one user fiber at address 10.\<close>

definition example_world :: sworld where
  "example_world =
     run_prologue 4096 3 4 100 2 (run_prologue 4096 1 2 100 1
       \<lparr>sw_sched = example_scheduler, sw_fibers = new_fiber 4096 10 (Some 7) 0 False empty_fibers,
        sw_phase = (\<lambda>_. Left), sw_cb_fiber = Map.empty, sw_idle_fiber = (\<lambda>_. 0)\<rparr>)"

lemma example_world_idle: "idle_world {1, 2} example_world"
  by (simp add: example_world_def example_scheduler_def idle_world_def run_prologue_def Let_def split: prod.splits)

text \<open>
  Property C4. No task is lost or duplicated by the workers: in every interleaving of scheduling calls, stop
  requests and the steps of any finite number of workers, the tasks queued so far are exactly those
  still in the queue, those a worker has taken and not yet started, and those started (or dropped
  because their fiber had finished). The counter of active threads always counts the workers between
  taking a task and the decrement behind \<^verbatim>\<open>resume\<close>.
\<close>

theorem scheduler_conserves_tasks:
  assumes "idle_world W w" and "sched_run w evs w'"
  shows "queued_of evs = mset (sc_queue (sw_sched w')) + tasks_in_hand W (sw_phase w') + consumed_of evs
     \<and> sc_active (sw_sched w') = active_workers W (sw_phase w')"
proof -
  note inv = sched_run_inv [OF assms(2) idle_world_inv(1) [OF assms(1)]]
  then have "queued_of evs = mset (sc_queue (sw_sched w')) + tasks_in_hand W (sw_phase w') + consumed_of evs"
    using idle_world_inv(2) [OF assms(1)] assms(1) by (simp add: idle_world_def)
  moreover have "sc_active (sw_sched w') = active_workers W (sw_phase w')"
    using inv by (simp add: sched_inv_def)
  ultimately show ?thesis by simp
qed

lemma example_run:
  "sched_run example_world [Queued \<lparr>tk_fiber = Some 10, tk_cb = None, tk_thread = - 1\<rparr>, Tickled]
     (snd (sched_task (Fiber_task (Some 10)) (- 1) example_world))"
proof -
  have "sched_step example_world (Schedule (Fiber_task (Some 10)) (- 1))
      (fst (sched_task (Fiber_task (Some 10)) (- 1) example_world)) (snd (sched_task (Fiber_task (Some 10)) (- 1) example_world))"
    by (simp add: sched_step_def)
  from srun_step [OF srun_nil this] show ?thesis
    by (simp add: sched_task_def schedule_def scheduleNoLock_def tickle_event_def Let_def
        example_world_def example_scheduler_def run_prologue_def split: prod.splits)
qed

theorem scheduler_conserves_tasks_witness:
  "queued_of [Queued \<lparr>tk_fiber = Some 10, tk_cb = None, tk_thread = - 1\<rparr>, Tickled]
     = mset (sc_queue (sw_sched (snd (sched_task (Fiber_task (Some 10)) (- 1) example_world))))
       + tasks_in_hand {1, 2} (sw_phase (snd (sched_task (Fiber_task (Some 10)) (- 1) example_world)))
       + consumed_of [Queued \<lparr>tk_fiber = Some 10, tk_cb = None, tk_thread = - 1\<rparr>, Tickled]
   \<and> sc_active (sw_sched (snd (sched_task (Fiber_task (Some 10)) (- 1) example_world)))
     = active_workers {1, 2} (sw_phase (snd (sched_task (Fiber_task (Some 10)) (- 1) example_world)))"
  by (rule scheduler_conserves_tasks [OF example_world_idle example_run])

lemma not_holding_in_hand: "\<not> holding p \<Longrightarrow> in_hand p = {#}"
  by (cases p) auto

text \<open>
  Property C11. When \<^verbatim>\<open>stopping\<close> is true, which lets the idle fibers and with them the workers end, every task
  that was ever queued has been started (or dropped as finished), and no worker is between taking a
  task and giving its fiber back.
\<close>

theorem stopping_is_quiescent:
  assumes "idle_world W w" and "sched_run w evs w'" and "stopping (sw_sched w')"
  shows "queued_of evs = consumed_of evs \<and> (\<forall>t. \<not> holding (sw_phase w' t))"
proof -
  note inv = sched_run_inv [OF assms(2) idle_world_inv(1) [OF assms(1)]]
  then have wf: "sched_inv W w'"
    and bal: "queued_of evs = mset (sc_queue (sw_sched w')) + tasks_in_hand W (sw_phase w') + consumed_of evs"
    using idle_world_inv(2) [OF assms(1)] assms(1) by (simp_all add: idle_world_def)
  have none: "\<not> holding (sw_phase w' t)" for t
    using holding_counted(2) [OF wf, of t] assms(3) by (auto simp: stopping_def)
  then have "in_hand (sw_phase w' t) = {#}" for t
    by (rule not_holding_in_hand)
  then have "tasks_in_hand W (sw_phase w') = {#}" by (simp add: tasks_in_hand_def)
  then show ?thesis using bal none assms(3) by (simp add: stopping_def)
qed

theorem stopping_is_quiescent_witness:
  "queued_of [] = consumed_of []
   \<and> (\<forall>t. \<not> holding (sw_phase (upd_sched (\<lambda>s. s\<lparr>sc_auto_stop := True, sc_stopping := True\<rparr>) example_world) t))"
proof (rule stopping_is_quiescent [OF example_world_idle])
  let ?w = "upd_sched (\<lambda>s. s\<lparr>sc_auto_stop := True, sc_stopping := True\<rparr>) example_world"
  have "sched_step example_world Stop_request [] ?w" by (simp add: sched_step_def)
  from srun_step [OF srun_nil this] show "sched_run example_world [] ?w" by simp
  show "stopping (sw_sched ?w)"
    using example_world_idle by (simp add: stopping_def idle_world_def)
qed

lemma do_check_events:
  "do_check_fiber me f w = (evs, w') \<Longrightarrow> evs = [] \<or> (\<exists>fc thr v. evs = fst (sched_task fc thr v))"
  "do_check_cb me c w = Inr (evs, w') \<Longrightarrow> evs = [] \<or> (\<exists>fc thr v. evs = fst (sched_task fc thr v))"
  by (auto simp: do_check_fiber_def do_check_cb_def Let_def case_prod_beta bindE_Inr_iff split: if_splits)

lemma act_executed:
  assumes "sched_step w a evs w'" and "sched_inv W w" and "Executed me t \<in> set evs"
  shows "eligible me t"
proof -
  have st: "act a w = Some (Inr (evs, w'))" using assms(1) by (simp add: sched_step_def)
  have no_exec: "Executed me t \<notin> set (fst (sched_task fc thr v))" for fc thr v
    by (auto simp: sched_task_def tickle_event_def Let_def split: prod.splits)
  have "\<exists>dsize fresh me'. a = Go me' dsize fresh"
  proof (cases a)
    case (Schedule fc thr)
    then show ?thesis using st no_exec [of fc thr w] assms(3) by simp
  next
    case Stop_request
    then have "evs = []" using st by (auto simp: bindE_Inr_iff )
    then show ?thesis using assms(3) by simp
  next
    case (Pick m)
    then have "evs = []" using st by (auto simp: bindE_Inr_iff split: phase.splits)
    then show ?thesis using assms(3) by simp
  next
    case (Set_yield_state m s)
    then have "evs = []" using st by (auto simp: bindE_Inr_iff simp del: resumed.simps split: option.splits)
    then show ?thesis using assms(3) by simp
  next
    case (Swap_out m)
    then have "evs = []" using st by (auto simp: bindE_Inr_iff simp del: resumed.simps split: option.splits)
    then show ?thesis using assms(3) by simp
  next
    case (Finish m e)
    then have "evs = []" using st by (auto simp: bindE_Inr_iff simp del: resumed.simps split: option.splits)
    then show ?thesis using assms(3) by simp
  next
    case (Decrement m)
    then have "evs = []" using st by (auto simp: bindE_Inr_iff split: phase.splits)
    then show ?thesis using assms(3) by simp
  next
    case (Idle_turn m f)
    then have "evs = []" using st by (auto simp: bindE_Inr_iff split: phase.splits)
    then show ?thesis using assms(3) by simp
  next
    case (Idle_back m)
    then have "evs = []" using st by (auto simp: bindE_Inr_iff split: phase.splits)
    then show ?thesis using assms(3) by simp
  next
    case (Check m)
    then consider f where "do_check_fiber m f w = (evs, w')" | c where "do_check_cb m c w = Inr (evs, w')"
      using st by (auto split: phase.splits)
    then have "evs = [] \<or> (\<exists>fc thr v. evs = fst (sched_task fc thr v))"
      using do_check_events by cases blast+
    then show ?thesis using assms(3) no_exec by auto
  qed simp
  then obtain dsize fresh me' where a: "a = Go me' dsize fresh" by blast
  then obtain ft b1 b2 where ph: "sw_phase w me' = Dispatch ft b1 b2"
    and d: "do_dispatch dsize fresh me' ft b1 b2 w = Inr (evs, w')"
    using st by (auto split: phase.splits)
  have ok: "phase_ok me' (Dispatch ft b1 b2)" using ph assms(2) by (metis sched_inv_def)
  have "me = me' \<and> t = ft \<and> ft \<noteq> empty_task"
    using d assms(3)
    by (auto simp: do_dispatch_def Let_def bindE_Inr_iff tickle_event_def empty_task_def split: option.splits if_splits)
  with ok show ?thesis by (cases b2) auto
qed

lemma sched_run_executed:
  "sched_run w evs w' \<Longrightarrow> sched_inv W w \<Longrightarrow> Executed me t \<in> set evs \<Longrightarrow> eligible me t"
proof (induction rule: sched_run.induct)
  case (srun_step w evs w1 a evs' w2)
  have "sched_inv W w1" using sched_run_inv [OF srun_step.hyps(1) srun_step.prems(1)] ..
  with srun_step act_executed [OF srun_step.hyps(2)] show ?case by auto
qed simp

text \<open>
  Property C35. The search under the lock takes the first task of the queue that may run on this thread and whose
  fiber is not executing, and removes just that one; it asks for a tickle exactly when it passed over
  a task meant for another thread or left tasks behind the one it took.
\<close>

theorem pick_first_runnable:
  assumes "\<forall>t\<in>set q. task_ok t"
  shows "case find (runnable me st) q of
      None \<Rightarrow> pick_loop me st q = Inr (\<exists>t\<in>set q. \<not> eligible me t, None, q)
    | Some t \<Rightarrow> \<exists>pre post. q = pre @ t # post \<and> (\<forall>u\<in>set pre. \<not> runnable me st u) \<and> runnable me st t
        \<and> pick_loop me st q = Inr ((\<exists>u\<in>set pre. \<not> eligible me u) \<or> post \<noteq> [], Some t, pre @ post)"
  by (rule pick_loop_spec [OF assms])

theorem pick_first_runnable_witness:
  "pick_loop 1 (\<lambda>_. HOLD) [\<lparr>tk_fiber = Some 3, tk_cb = None, tk_thread = 2\<rparr>]
     = Inr (True, None, [\<lparr>tk_fiber = Some 3, tk_cb = None, tk_thread = 2\<rparr>])"
  using pick_first_runnable [of "[\<lparr>tk_fiber = Some 3, tk_cb = None, tk_thread = 2\<rparr>]" 1 "\<lambda>_. HOLD"]
  by (simp add: task_ok_def runnable_def eligible_def)

text \<open>Running a list of actions.\<close>

fun run_acts :: "action list \<Rightarrow> sworld \<Rightarrow> (sched_event list \<times> sworld) option" where
  "run_acts [] w = Some ([], w)"
| "run_acts (a # as) w = (case act a w of
     Some (Inr (evs, w1)) \<Rightarrow> (case run_acts as w1 of Some (evs', w2) \<Rightarrow> Some (evs @ evs', w2) | None \<Rightarrow> None)
   | _ \<Rightarrow> None)"

lemma run_acts_from:
  "run_acts as w1 = Some (evs', w2) \<Longrightarrow> sched_run w evs w1 \<Longrightarrow> sched_run w (evs @ evs') w2"
proof (induction as arbitrary: w1 evs evs')
  case (Cons a as)
  from Cons.prems(1) obtain e1 v e2 where a: "act a w1 = Some (Inr (e1, v))" "run_acts as v = Some (e2, w2)"
    "evs' = e1 @ e2" by (auto split: option.splits sum.splits)
  have "sched_run w (evs @ e1) v"
    by (rule srun_step [OF Cons.prems(2)]) (use a in \<open>simp add: sched_step_def\<close>)
  from Cons.IH [OF a(2) this] a(3) show ?case by simp
qed simp

text \<open>
  A task that was scheduled for a particular thread is only ever started by that thread.
\<close>

theorem thread_affinity:
  assumes "idle_world W w" and "sched_run w evs w'" and "Executed me t \<in> set evs" and "tk_thread t \<noteq> - 1"
  shows "me = tk_thread t"
  using sched_run_executed [OF assms(2) idle_world_inv(1) [OF assms(1)] assms(3)] assms(4)
  by (simp add: eligible_def)

lemma affinity_example:
  "case run_acts [Schedule (Fiber_task (Some 10)) 2, Pick 2, Go 2 4096 50] example_world of
     Some (evs, w) \<Rightarrow> Executed 2 \<lparr>tk_fiber = Some 10, tk_cb = None, tk_thread = 2\<rparr> \<in> set evs
   | None \<Rightarrow> False"
  by code_simp

theorem thread_affinity_witness:
  "2 = tk_thread \<lparr>tk_fiber = Some 10, tk_cb = None, tk_thread = 2\<rparr>"
proof -
  obtain evs w where r: "run_acts [Schedule (Fiber_task (Some 10)) 2, Pick 2, Go 2 4096 50] example_world = Some (evs, w)"
    and e: "Executed 2 \<lparr>tk_fiber = Some 10, tk_cb = None, tk_thread = 2\<rparr> \<in> set evs"
    using affinity_example by (auto split: option.splits)
  show ?thesis
    by (rule thread_affinity [OF example_world_idle run_acts_from [OF r srun_nil]]) (use e in simp_all)
qed

section \<open>A race between yielding and resuming\<close>

definition race :: "action list" where
  "race = [Schedule (Fiber_task (Some 10)) (- 1), Pick 1, Go 1 4096 50,
           Schedule (Fiber_task (Some 10)) (- 1), Set_yield_state 1 HOLD, Pick 2, Go 2 4096 50]"

lemma race_outcome:
  "case run_acts race example_world of
     Some (evs, w) \<Rightarrow> t_flow (sw_fibers w) 1 = Some 10 \<and> t_flow (sw_fibers w) 2 = Some 10
       \<and> resumed w 1 = Some (10, After_fiber 10) \<and> resumed w 2 = Some (10, After_fiber 10)
   | None \<Rightarrow> False"
  by code_simp

text \<open>
  Property C39. The yielding protocol is not safe between threads: there is a run of two workers in which both
  execute the same fiber at once. \<^verbatim>\<open>YieldToHold\<close> sets \<^verbatim>\<open>state_\<close> to HOLD before \<^verbatim>\<open>swapcontext\<close> has left
  the fiber's stack, so a wake-up queued by another thread is no longer held back by the EXEC test of
  \<^verbatim>\<open>run\<close>, and a second worker resumes the fiber from its old context.
\<close>

theorem hold_race:
  "\<exists>evs w. sched_run example_world evs w
     \<and> t_flow (sw_fibers w) 1 = Some 10 \<and> t_flow (sw_fibers w) 2 = Some 10
     \<and> resumed w 1 = Some (10, After_fiber 10) \<and> resumed w 2 = Some (10, After_fiber 10)"
proof -
  obtain evs w where r: "run_acts race example_world = Some (evs, w)"
    and w: "t_flow (sw_fibers w) 1 = Some 10 \<and> t_flow (sw_fibers w) 2 = Some 10
      \<and> resumed w 1 = Some (10, After_fiber 10) \<and> resumed w 2 = Some (10, After_fiber 10)"
    using race_outcome by (auto split: option.splits)
  show ?thesis using run_acts_from [OF r srun_nil] w by auto
qed

end
