(* ===== verification/Timer_Source.thy ===== *)
theory Timer_Source
  imports Hiper_Prelude
begin

text \<open>
  What the idle loop of the IO manager relies on from its timer queue: \<open>pending s\<close> gives the expiration
  of each timer that waits, and \<open>next now s\<close> the time to sleep (all ones for ever, 0 for a timer that
  is due), which leaves the timers alone.
\<close>

locale timer_source =
  fixes inv :: "'s \<Rightarrow> bool"
    and pending :: "'s \<Rightarrow> nat \<Rightarrow> u64 option"
    and next_wait :: "u64 \<Rightarrow> 's \<Rightarrow> u64 \<times> 's"
  assumes next_keeps: "inv s \<Longrightarrow> inv (snd (next_wait now s)) \<and> pending (snd (next_wait now s)) = pending s"
    and next_none: "inv s \<Longrightarrow> \<forall>a. pending s a = None \<Longrightarrow> fst (next_wait now s) = - 1"
    and next_due: "inv s \<Longrightarrow> pending s a = Some e \<Longrightarrow> e \<le> now \<Longrightarrow> fst (next_wait now s) = 0"
    and next_left: "inv s \<Longrightarrow> pending s a = Some e \<Longrightarrow> now < e \<Longrightarrow> fst (next_wait now s) \<le> e - now"
begin

lemma next_zero_or_positive:
  "inv s \<Longrightarrow> pending s a = Some e \<Longrightarrow> fst (next_wait now s) \<le> (if e \<le> now then 0 else e - now)"
  using next_due next_left by (auto simp: not_le)

end

end
