(* ===== verification/Timer.thy ===== *)
theory Timer
  imports Ordered_Set Timer_Source
begin

text \<open>
  The timer queue of \<^verbatim>\<open>hiper/base/timer.cc\<close>: timer objects, the ordered set of the pending ones and
  the operations of \<^verbatim>\<open>Timer\<close> and \<^verbatim>\<open>TimerManger\<close> (sic). The comparator is interpreted as a strict total order,
  every operation keeps the set sorted, and runs of operations are a step relation with a trace of the
  timers handed out for execution.
\<close>

section \<open>State\<close>

text \<open>
  A callback is a plain function or the lambda of \<^verbatim>\<open>addConditionTimer\<close>, which captures a weak pointer
  and a function; functions and weak pointers are identifiers. An empty \<^verbatim>\<open>std::function\<close> is \<open>None\<close>.
\<close>

datatype timer_cb = Plain nat | Conditional nat nat

record timer =
  t_recurring :: bool
  t_ms :: u64
  t_expiration :: u64
  t_cb :: "timer_cb option"

text \<open>
  \<^verbatim>\<open>timers_\<close> holds addresses of timer objects in \<open>tm_heap\<close>, in the order of the comparator. The
  clock (\<^verbatim>\<open>GetElapsedMS\<close>) and the address that \<^verbatim>\<open>new Timer\<close> returns are arguments of the operations.
\<close>

record timer_manager =
  tm_heap :: "nat \<Rightarrow> timer option"
  tm_timers :: "nat list"
  tm_tickled :: bool

definition new_timer_manager :: timer_manager where
  "new_timer_manager = \<lparr>tm_heap = Map.empty, tm_timers = [], tm_tickled = False\<rparr>"

definition new_timer :: "u64 \<Rightarrow> u64 \<Rightarrow> timer_cb option \<Rightarrow> bool \<Rightarrow> timer" where
  "new_timer now ms cb recurring =
     \<lparr>t_recurring = recurring, t_ms = ms, t_expiration = now + ms, t_cb = cb\<rparr>"

text \<open>The sentinel \<^verbatim>\<open>Timer(uint64_t)\<close> leaves the other scalar fields unset; they are never read.\<close>

definition sentinel_timer :: "u64 \<Rightarrow> timer" where
  "sentinel_timer expiration =
     \<lparr>t_recurring = False, t_ms = 0, t_expiration = expiration, t_cb = None\<rparr>"

abbreviation timer_at :: "(nat \<Rightarrow> timer option) \<Rightarrow> nat \<Rightarrow> timer" where
  "timer_at h a \<equiv> the (h a)"

definition Comparator :: "(nat \<Rightarrow> timer option) \<Rightarrow> nat option \<Rightarrow> nat option \<Rightarrow> bool" where
  "Comparator h lhs rhs =
     (case (lhs, rhs) of
        (None, None) \<Rightarrow> False
      | (None, _) \<Rightarrow> True
      | (_, None) \<Rightarrow> False
      | (Some l, Some r) \<Rightarrow>
          if t_expiration (timer_at h l) < t_expiration (timer_at h r) then True
          else if t_expiration (timer_at h r) < t_expiration (timer_at h l) then False
          else l < r)"

abbreviation tless :: "(nat \<Rightarrow> timer option) \<Rightarrow> nat \<Rightarrow> nat \<Rightarrow> bool" where
  "tless h a b \<equiv> Comparator h (Some a) (Some b)"

section \<open>Operations\<close>

text \<open>\<^verbatim>\<open>insert\<close>, then the test for the front; the flag says whether \<^verbatim>\<open>onTimerInsertedAtFront\<close> is called.\<close>

definition insertTimer :: "nat \<Rightarrow> timer_manager \<Rightarrow> bool \<times> timer_manager" where
  "insertTimer t m =
     (let ts = set_insert (tless (tm_heap m)) t (tm_timers m);
          at_front = (hd ts = the (set_find (tless (tm_heap m)) t ts)) \<and> \<not> tm_tickled m
      in (at_front, m\<lparr>tm_timers := ts, tm_tickled := (if at_front then True else tm_tickled m)\<rparr>))"

definition addTimer :: "nat \<Rightarrow> u64 \<Rightarrow> u64 \<Rightarrow> timer_cb option \<Rightarrow> bool \<Rightarrow> timer_manager \<Rightarrow> bool \<times> timer_manager" where
  "addTimer a now ms cb recurring m =
     insertTimer a (m\<lparr>tm_heap := (tm_heap m)(a \<mapsto> new_timer now ms cb recurring)\<rparr>)"

definition OnTimer :: "(nat \<Rightarrow> bool) \<Rightarrow> nat \<Rightarrow> nat \<Rightarrow> nat option" where
  "OnTimer lock weak_cond cb = (if lock weak_cond then Some cb else None)"

definition addConditionTimer :: "nat \<Rightarrow> u64 \<Rightarrow> u64 \<Rightarrow> nat \<Rightarrow> nat \<Rightarrow> bool \<Rightarrow> timer_manager \<Rightarrow> bool \<times> timer_manager" where
  "addConditionTimer a now ms cb weak_cond recurring m =
     addTimer a now ms (Some (Conditional weak_cond cb)) recurring m"

text \<open>Calling a stored function: the user function that runs, if any. \<open>lock\<close> says which objects are alive.\<close>

fun invoke_cb :: "(nat \<Rightarrow> bool) \<Rightarrow> timer_cb \<Rightarrow> nat option" where
  "invoke_cb lock (Plain cb) = Some cb"
| "invoke_cb lock (Conditional w cb) = OnTimer lock w cb"

definition timer_cancel :: "nat \<Rightarrow> timer_manager \<Rightarrow> bool \<times> timer_manager" where
  "timer_cancel a m =
     (if t_cb (timer_at (tm_heap m) a) \<noteq> None then
        let m' = m\<lparr>tm_heap := (tm_heap m)(a \<mapsto> (timer_at (tm_heap m) a)\<lparr>t_cb := None\<rparr>)\<rparr> in
        case set_find (tless (tm_heap m')) a (tm_timers m') of
          Some ret \<Rightarrow> (True, m'\<lparr>tm_timers := set_erase ret (tm_timers m')\<rparr>)
        | None \<Rightarrow> (False, m')
      else (False, m))"

definition timer_refresh :: "u64 \<Rightarrow> nat \<Rightarrow> timer_manager \<Rightarrow> bool \<times> timer_manager" where
  "timer_refresh now a m =
     (if t_cb (timer_at (tm_heap m) a) = None then (False, m)
      else case set_find (tless (tm_heap m)) a (tm_timers m) of
          None \<Rightarrow> (False, m)
        | Some ret \<Rightarrow>
            let t = timer_at (tm_heap m) a;
                h = (tm_heap m)(a \<mapsto> t\<lparr>t_expiration := now + t_ms t\<rparr>)
            in (True, m\<lparr>tm_heap := h,
                        tm_timers := set_insert (tless h) a (set_erase ret (tm_timers m))\<rparr>))"

text \<open>The result of \<^verbatim>\<open>reset\<close>, whether the front hook was called, and the new state.\<close>

definition timer_reset :: "u64 \<Rightarrow> u64 \<Rightarrow> bool \<Rightarrow> nat \<Rightarrow> timer_manager \<Rightarrow> bool \<times> bool \<times> timer_manager" where
  "timer_reset now ms from_now a m =
     (let t = timer_at (tm_heap m) a in
      if ms = t_ms t \<and> \<not> from_now then (True, False, m)
      else if t_cb t = None then (False, False, m)
      else case set_find (tless (tm_heap m)) a (tm_timers m) of
          None \<Rightarrow> (False, False, m)
        | Some ret \<Rightarrow>
            let start = (if from_now then now else t_expiration t - t_ms t);
                h = (tm_heap m)(a \<mapsto> t\<lparr>t_ms := ms, t_expiration := start + ms\<rparr>);
                (hook, m') = insertTimer a (m\<lparr>tm_heap := h, tm_timers := set_erase ret (tm_timers m)\<rparr>)
            in (True, hook, m'))"

definition getNextTimer :: "u64 \<Rightarrow> timer_manager \<Rightarrow> u64 \<times> timer_manager" where
  "getNextTimer now m =
     (let m' = m\<lparr>tm_tickled := False\<rparr> in
      case tm_timers m' of
        [] \<Rightarrow> (- 1, m')
      | a # _ \<Rightarrow>
          let e = t_expiration (timer_at (tm_heap m') a)
          in (if now \<ge> e then 0 else e - now, m'))"

text \<open>
  The range that \<^verbatim>\<open>listExpiredCb\<close> takes off: up to \<^verbatim>\<open>lower_bound\<close> of a sentinel at the address \<open>s\<close>, and
  then on while the expiration is \<^verbatim>\<open>now\<close>. The second component is what stays.
\<close>

definition split_expired :: "nat \<Rightarrow> u64 \<Rightarrow> timer_manager \<Rightarrow> nat list \<times> nat list" where
  "split_expired s now m =
     (let h = (tm_heap m)(s \<mapsto> sentinel_timer now);
          first = below (tless h) s (tm_timers m);
          it = lower_bound (tless h) s (tm_timers m);
          due = (\<lambda>t. t_expiration (timer_at h t) = now)
      in (first @ takeWhile due it, dropWhile due it))"

fun expire_loop :: "u64 \<Rightarrow> nat list \<Rightarrow> timer_manager \<Rightarrow> timer_cb option list \<times> timer_manager" where
  "expire_loop now [] m = ([], m)"
| "expire_loop now (a # as) m =
     (let t = timer_at (tm_heap m) a;
          m' = (if t_recurring t then
                  let h = (tm_heap m)(a \<mapsto> t\<lparr>t_expiration := now + t_ms t\<rparr>)
                  in m\<lparr>tm_heap := h, tm_timers := set_insert (tless h) a (tm_timers m)\<rparr>
                else m\<lparr>tm_heap := (tm_heap m)(a \<mapsto> t\<lparr>t_cb := None\<rparr>)\<rparr>);
          (cbs, m'') = expire_loop now as m'
      in (t_cb t # cbs, m''))"

definition listExpiredCb :: "nat \<Rightarrow> u64 \<Rightarrow> timer_manager \<Rightarrow> timer_cb option list \<times> timer_manager" where
  "listExpiredCb s now m =
     (if tm_timers m = [] then ([], m)
      else let (expired, rest) = split_expired s now m
           in expire_loop now expired (m\<lparr>tm_timers := rest\<rparr>))"

definition hasTimer :: "timer_manager \<Rightarrow> bool" where
  "hasTimer m \<longleftrightarrow> tm_timers m \<noteq> []"

section \<open>Invariant\<close>

interpretation torder: strict_total "tless h" for h
  by unfold_locales (auto simp: Comparator_def split: if_splits)

definition tm_wf :: "timer_manager \<Rightarrow> bool" where
  "tm_wf m \<longleftrightarrow> sorted_wrt (tless (tm_heap m)) (tm_timers m) \<and> (\<forall>a\<in>set (tm_timers m). tm_heap m a \<noteq> None)"

lemma tm_wf_new: "tm_wf new_timer_manager"
  by (simp add: tm_wf_def new_timer_manager_def)

lemma tless_cong:
  "t_expiration (timer_at h a) = t_expiration (timer_at h' a) \<Longrightarrow>
   t_expiration (timer_at h b) = t_expiration (timer_at h' b) \<Longrightarrow> tless h a b = tless h' a b"
  by (simp add: Comparator_def)

lemma sorted_tless_cong:
  assumes "\<And>a. a \<in> set xs \<Longrightarrow> t_expiration (timer_at h a) = t_expiration (timer_at h' a)"
  shows "sorted_wrt (tless h) xs = sorted_wrt (tless h') xs"
  using assms
proof (induction xs)
  case (Cons x xs)
  then have "\<forall>y\<in>set xs. tless h x y = tless h' x y" by (auto intro!: tless_cong)
  with Cons show ?case by auto
qed simp

lemma sorted_not_mem_heap: "tm_wf m \<Longrightarrow> tm_heap m s = None \<Longrightarrow> s \<notin> set (tm_timers m)"
  by (auto simp: tm_wf_def)

lemma insertTimer_spec:
  assumes "insertTimer a m = (hook, m')" and "sorted_wrt (tless (tm_heap m)) (tm_timers m)"
  shows "sorted_wrt (tless (tm_heap m)) (tm_timers m')" and "set (tm_timers m') = insert a (set (tm_timers m))"
    and "tm_heap m' = tm_heap m" and "hook \<longleftrightarrow> hd (tm_timers m') = a \<and> \<not> tm_tickled m"
    and "tm_tickled m' = (tm_tickled m \<or> hook)"
proof -
  let ?ts = "set_insert (tless (tm_heap m)) a (tm_timers m)"
  have s: "sorted_wrt (tless (tm_heap m)) ?ts" "set ?ts = insert a (set (tm_timers m))"
    using assms(2) by (simp_all add: torder.set_insert_sorted torder.set_insert_set)
  then have "set_find (tless (tm_heap m)) a ?ts = Some a" by (simp add: torder.set_find_iff)
  then have "hook \<longleftrightarrow> hd ?ts = a \<and> \<not> tm_tickled m"
    and "m' = m\<lparr>tm_timers := ?ts, tm_tickled := tm_tickled m \<or> hook\<rparr>"
    using assms(1) by (simp_all add: insertTimer_def Let_def split: if_splits) auto
  with s show "sorted_wrt (tless (tm_heap m)) (tm_timers m')" "set (tm_timers m') = insert a (set (tm_timers m))"
    "tm_heap m' = tm_heap m" "hook \<longleftrightarrow> hd (tm_timers m') = a \<and> \<not> tm_tickled m"
    "tm_tickled m' = (tm_tickled m \<or> hook)" by simp_all
qed

lemma sorted_tless_upd:
  "a \<notin> set xs \<Longrightarrow> sorted_wrt (tless (h(a \<mapsto> t))) xs = sorted_wrt (tless h) xs"
  by (rule sorted_tless_cong) auto

lemma sorted_tless_upd_same:
  "t_expiration t = t_expiration (timer_at h a) \<Longrightarrow>
   sorted_wrt (tless (h(a \<mapsto> t))) xs = sorted_wrt (tless h) xs"
  by (rule sorted_tless_cong) auto

lemma addTimer_spec:
  assumes "addTimer a now ms cb r m = (hook, m')" and "tm_wf m" and "tm_heap m a = None"
  shows "tm_wf m'" and "set (tm_timers m') = insert a (set (tm_timers m))"
    and "tm_heap m' = (tm_heap m)(a \<mapsto> new_timer now ms cb r)"
    and "hook \<longleftrightarrow> hd (tm_timers m') = a \<and> \<not> tm_tickled m" and "tm_tickled m' = (tm_tickled m \<or> hook)"
proof -
  let ?m = "m\<lparr>tm_heap := (tm_heap m)(a \<mapsto> new_timer now ms cb r)\<rparr>"
  have na: "a \<notin> set (tm_timers m)" by (rule sorted_not_mem_heap [OF assms(2,3)])
  have s: "sorted_wrt (tless (tm_heap ?m)) (tm_timers ?m)"
    using assms(2) na by (simp add: tm_wf_def sorted_tless_upd)
  note i = insertTimer_spec [OF assms(1) [unfolded addTimer_def] s]
  show "tm_wf m'" using i assms(2) by (auto simp: tm_wf_def)
  show "set (tm_timers m') = insert a (set (tm_timers m))" "tm_heap m' = (tm_heap m)(a \<mapsto> new_timer now ms cb r)"
    "hook \<longleftrightarrow> hd (tm_timers m') = a \<and> \<not> tm_tickled m" "tm_tickled m' = (tm_tickled m \<or> hook)"
    using i by simp_all
qed

lemma timer_cancel_spec:
  assumes "timer_cancel a m = (ok, m')" and "tm_wf m" and "tm_heap m a \<noteq> None"
  shows "tm_wf m'" and "ok \<longleftrightarrow> t_cb (timer_at (tm_heap m) a) \<noteq> None \<and> a \<in> set (tm_timers m)"
    and "set (tm_timers m') = (if ok then set (tm_timers m) - {a} else set (tm_timers m))"
    and "tm_heap m' = (tm_heap m)(a \<mapsto> (timer_at (tm_heap m) a)\<lparr>t_cb := None\<rparr>)"
    and "tm_tickled m' = tm_tickled m"
proof -
  let ?h = "(tm_heap m)(a \<mapsto> (timer_at (tm_heap m) a)\<lparr>t_cb := None\<rparr>)"
  have s: "sorted_wrt (tless ?h) (tm_timers m)"
    using assms(2) by (simp add: tm_wf_def sorted_tless_upd_same)
  have same: "t_cb (timer_at (tm_heap m) a) = None \<Longrightarrow> ?h = tm_heap m"
    using assms(3) by (auto simp: fun_eq_iff)
  note e = torder.set_erase_sorted [OF s, of a] torder.set_erase_mem [OF s, of a]
  have "tm_wf m' \<and> (ok \<longleftrightarrow> t_cb (timer_at (tm_heap m) a) \<noteq> None \<and> a \<in> set (tm_timers m))
    \<and> set (tm_timers m') = (if ok then set (tm_timers m) - {a} else set (tm_timers m))
    \<and> tm_heap m' = ?h \<and> tm_tickled m' = tm_tickled m"
  proof (cases "t_cb (timer_at (tm_heap m) a) = None")
    case True
    then show ?thesis using assms same by (auto simp: timer_cancel_def)
  next
    case False
    show ?thesis
    proof (cases "a \<in> set (tm_timers m)")
      case True
      then have "ok" and "m' = m\<lparr>tm_heap := ?h, tm_timers := set_erase a (tm_timers m)\<rparr>"
        using assms(1) False by (auto simp: timer_cancel_def Let_def torder.set_find_iff)
      then show ?thesis using e assms(2) False True by (auto simp: tm_wf_def)
    next
      case no: False
      then have "\<not> ok" and "m' = m\<lparr>tm_heap := ?h\<rparr>"
        using assms(1) False by (auto simp: timer_cancel_def Let_def torder.set_find_iff)
      then show ?thesis using s assms(2) False no by (auto simp: tm_wf_def)
    qed
  qed
  then show "tm_wf m'" "ok \<longleftrightarrow> t_cb (timer_at (tm_heap m) a) \<noteq> None \<and> a \<in> set (tm_timers m)"
    "set (tm_timers m') = (if ok then set (tm_timers m) - {a} else set (tm_timers m))"
    "tm_heap m' = ?h" "tm_tickled m' = tm_tickled m" by simp_all
qed

lemma timer_refresh_spec:
  assumes "timer_refresh now a m = (ok, m')" and "tm_wf m"
  shows "tm_wf m'" and "ok \<longleftrightarrow> t_cb (timer_at (tm_heap m) a) \<noteq> None \<and> a \<in> set (tm_timers m)"
    and "set (tm_timers m') = set (tm_timers m)"
    and "tm_heap m' = (if ok then (tm_heap m)(a \<mapsto> (timer_at (tm_heap m) a)
           \<lparr>t_expiration := now + t_ms (timer_at (tm_heap m) a)\<rparr>) else tm_heap m)"
    and "tm_tickled m' = tm_tickled m"
proof -
  let ?h = "(tm_heap m)(a \<mapsto> (timer_at (tm_heap m) a)\<lparr>t_expiration := now + t_ms (timer_at (tm_heap m) a)\<rparr>)"
  let ?e = "set_erase a (tm_timers m)"
  have s: "sorted_wrt (tless (tm_heap m)) (tm_timers m)" using assms(2) by (simp add: tm_wf_def)
  note e = torder.set_erase_sorted [OF s, of a] torder.set_erase_mem [OF s, of a]
  have s': "sorted_wrt (tless ?h) ?e" using e by (simp add: sorted_tless_upd)
  note i = torder.set_insert_sorted [OF s', of a] torder.set_insert_set [OF s', of a]
  have "tm_wf m' \<and> (ok \<longleftrightarrow> t_cb (timer_at (tm_heap m) a) \<noteq> None \<and> a \<in> set (tm_timers m))
    \<and> set (tm_timers m') = set (tm_timers m)
    \<and> tm_heap m' = (if ok then ?h else tm_heap m) \<and> tm_tickled m' = tm_tickled m"
  proof (cases "t_cb (timer_at (tm_heap m) a) = None \<or> a \<notin> set (tm_timers m)")
    case True
    then show ?thesis using assms by (auto simp: timer_refresh_def torder.set_find_iff split: if_splits)
  next
    case False
    then have "ok" and "m' = m\<lparr>tm_heap := ?h, tm_timers := set_insert (tless ?h) a ?e\<rparr>"
      using assms(1) by (auto simp: timer_refresh_def Let_def torder.set_find_iff)
    then show ?thesis using i e assms(2) False by (auto simp: tm_wf_def)
  qed
  then show "tm_wf m'" "ok \<longleftrightarrow> t_cb (timer_at (tm_heap m) a) \<noteq> None \<and> a \<in> set (tm_timers m)"
    "set (tm_timers m') = set (tm_timers m)"
    "tm_heap m' = (if ok then ?h else tm_heap m)" "tm_tickled m' = tm_tickled m" by simp_all
qed

definition reset_timer :: "u64 \<Rightarrow> u64 \<Rightarrow> bool \<Rightarrow> timer \<Rightarrow> timer" where
  "reset_timer now ms from_now t =
     t\<lparr>t_ms := ms, t_expiration := (if from_now then now else t_expiration t - t_ms t) + ms\<rparr>"

lemma timer_reset_spec:
  assumes "timer_reset now ms from_now a m = (ok, hook, m')" and "tm_wf m"
  shows "tm_wf m'" and "set (tm_timers m') = set (tm_timers m)"
    and "tm_heap m' = tm_heap m \<or> a \<in> set (tm_timers m) \<and> t_cb (timer_at (tm_heap m) a) \<noteq> None
           \<and> tm_heap m' = (tm_heap m)(a \<mapsto> reset_timer now ms from_now (timer_at (tm_heap m) a))"
    and "ok \<longleftrightarrow> ms = t_ms (timer_at (tm_heap m) a) \<and> \<not> from_now
           \<or> t_cb (timer_at (tm_heap m) a) \<noteq> None \<and> a \<in> set (tm_timers m)"
proof -
  let ?t = "timer_at (tm_heap m) a"
  let ?h = "(tm_heap m)(a \<mapsto> reset_timer now ms from_now ?t)"
  let ?e = "set_erase a (tm_timers m)"
  have s: "sorted_wrt (tless (tm_heap m)) (tm_timers m)" using assms(2) by (simp add: tm_wf_def)
  note e = torder.set_erase_sorted [OF s, of a] torder.set_erase_mem [OF s, of a]
  let ?m = "m\<lparr>tm_heap := ?h, tm_timers := ?e\<rparr>"
  have s': "sorted_wrt (tless (tm_heap ?m)) (tm_timers ?m)" using e by (simp add: sorted_tless_upd)
  obtain hook' m1 where i: "insertTimer a ?m = (hook', m1)" by force
  note ins = insertTimer_spec [OF i s']
  consider "ms = t_ms ?t \<and> \<not> from_now" | "\<not> (ms = t_ms ?t \<and> \<not> from_now)" "t_cb ?t = None \<or> a \<notin> set (tm_timers m)"
    | "\<not> (ms = t_ms ?t \<and> \<not> from_now)" "t_cb ?t \<noteq> None" "a \<in> set (tm_timers m)" by blast
  then have "tm_wf m' \<and> set (tm_timers m') = set (tm_timers m)
    \<and> (tm_heap m' = tm_heap m \<or> a \<in> set (tm_timers m) \<and> t_cb ?t \<noteq> None \<and> tm_heap m' = ?h)
    \<and> (ok \<longleftrightarrow> ms = t_ms ?t \<and> \<not> from_now \<or> t_cb ?t \<noteq> None \<and> a \<in> set (tm_timers m))"
  proof cases
    case 1
    then show ?thesis using assms by (auto simp: timer_reset_def Let_def)
  next
    case 2
    then show ?thesis using assms by (auto simp: timer_reset_def Let_def torder.set_find_iff split: if_splits)
  next
    case 3
    have "ok \<and> m' = m1"
      using assms(1) i 3
      by (auto simp: timer_reset_def reset_timer_def Let_def torder.set_find_iff split: if_splits)
    then show ?thesis using ins e assms(2) 3 by (auto simp: tm_wf_def)
  qed
  then show "tm_wf m'" "set (tm_timers m') = set (tm_timers m)"
    "tm_heap m' = tm_heap m \<or> a \<in> set (tm_timers m) \<and> t_cb ?t \<noteq> None \<and> tm_heap m' = ?h"
    "ok \<longleftrightarrow> ms = t_ms ?t \<and> \<not> from_now \<or> t_cb ?t \<noteq> None \<and> a \<in> set (tm_timers m)" by simp_all
qed

lemma filter_split:
  assumes "zs = xs @ ys" and "\<forall>x\<in>set xs. P x" and "\<forall>y\<in>set ys. \<not> P y"
  shows "filter P zs = xs" and "filter (\<lambda>x. \<not> P x) zs = ys"
  using assms by (simp_all add: filter_True filter_False)

lemma takeWhile_due_sorted:
  assumes "sorted_wrt (tless h) xs" and "\<forall>a\<in>set xs. now \<le> t_expiration (timer_at h a)"
  shows "\<forall>a\<in>set (dropWhile (\<lambda>t. t_expiration (timer_at h t) = now) xs). now < t_expiration (timer_at h a)"
  using assms
proof (induction xs)
  case (Cons x xs)
  show ?case
  proof (cases "t_expiration (timer_at h x) = now")
    case False
    then have "now < t_expiration (timer_at h x)" using Cons.prems by auto
    moreover have "\<forall>y\<in>set xs. t_expiration (timer_at h x) \<le> t_expiration (timer_at h y)"
      using Cons.prems by (auto simp: Comparator_def split: if_splits)
    ultimately show ?thesis using False by (auto intro: less_le_trans)
  qed (use Cons in simp)
qed simp

lemma tless_expiration:
  "tless h a b \<Longrightarrow> t_expiration (timer_at h a) \<le> t_expiration (timer_at h b)"
  "\<not> tless h a b \<Longrightarrow> t_expiration (timer_at h b) \<le> t_expiration (timer_at h a)"
  by (auto simp: Comparator_def split: if_splits)

lemma split_expired_spec:
  fixes now :: u64
  assumes "tm_wf m" and "tm_heap m s = None"
  defines "due \<equiv> (\<lambda>a. t_expiration (timer_at (tm_heap m) a) \<le> now)"
  shows "split_expired s now m = (filter due (tm_timers m), filter (\<lambda>a. \<not> due a) (tm_timers m))"
proof -
  let ?h = "(tm_heap m)(s \<mapsto> sentinel_timer now)" and ?ts = "tm_timers m"
  let ?d = "\<lambda>t. t_expiration (timer_at ?h t) = now"
  have ns: "s \<notin> set ?ts" by (rule sorted_not_mem_heap [OF assms(1,2)])
  have so: "sorted_wrt (tless ?h) ?ts" using assms(1) ns by (simp add: tm_wf_def sorted_tless_upd)
  have same: "a \<in> set ?ts \<Longrightarrow> timer_at ?h a = timer_at (tm_heap m) a" for a using ns by auto
  let ?first = "below (tless ?h) s ?ts" and ?it = "lower_bound (tless ?h) s ?ts"
  have app: "?ts = ?first @ ?it" by (simp add: below_def lower_bound_def)
  have sn: "t_expiration (timer_at ?h s) = now" by (simp add: sentinel_timer_def)
  have it_eq: "?it = filter (\<lambda>y. \<not> tless ?h y s) ?ts" and first_eq: "?first = filter (\<lambda>y. tless ?h y s) ?ts"
    by (rule torder.lower_bound_filter [OF so], rule torder.below_filter [OF so])
  have it: "sorted_wrt (tless ?h) ?it" "set ?it \<subseteq> set ?ts" "\<forall>a\<in>set ?it. now \<le> t_expiration (timer_at ?h a)"
    unfolding it_eq using tless_expiration(2) [of ?h _ s] sn by (auto simp only: sorted_wrt_filter [OF so] set_filter)
  have first: "\<forall>a\<in>set ?first. a \<in> set ?ts \<and> t_expiration (timer_at ?h a) \<le> now"
    unfolding first_eq using tless_expiration(1) [of ?h _ s] sn by (auto simp only: set_filter)
  have eq: "?ts = (?first @ takeWhile ?d ?it) @ dropWhile ?d ?it"
    using app by simp
  have "\<forall>a\<in>set (?first @ takeWhile ?d ?it). due a"
  proof
    fix a assume a: "a \<in> set (?first @ takeWhile ?d ?it)"
    then have "a \<in> set ?ts" using first it(2) by (auto dest: set_takeWhileD)
    moreover have "t_expiration (timer_at ?h a) \<le> now" using a first by (auto dest: set_takeWhileD)
    ultimately show "due a" using same by (simp add: due_def)
  qed
  moreover have "\<forall>a\<in>set (dropWhile ?d ?it). \<not> due a"
  proof
    fix a assume a: "a \<in> set (dropWhile ?d ?it)"
    then have "a \<in> set ?ts" using it(2) by (auto dest: set_dropWhileD)
    then show "\<not> due a" using takeWhile_due_sorted [OF it(1,3)] a same by (auto simp: due_def not_le)
  qed
  ultimately show ?thesis
    using filter_split [OF eq, of due] by (simp add: split_expired_def Let_def)
qed

definition expired_timer :: "u64 \<Rightarrow> timer \<Rightarrow> timer" where
  "expired_timer now t =
     (if t_recurring t then t\<lparr>t_expiration := now + t_ms t\<rparr> else t\<lparr>t_cb := None\<rparr>)"

lemma expire_loop_spec:
  assumes "expire_loop now as m = (cbs, m')" and "tm_wf m" and "distinct as"
    and "set as \<inter> set (tm_timers m) = {}" and "\<forall>a\<in>set as. tm_heap m a \<noteq> None"
  shows "cbs = map (\<lambda>a. t_cb (timer_at (tm_heap m) a)) as \<and> tm_wf m' \<and> tm_tickled m' = tm_tickled m
    \<and> set (tm_timers m') = set (tm_timers m) \<union> {a \<in> set as. t_recurring (timer_at (tm_heap m) a)}
    \<and> tm_heap m' = (\<lambda>a. if a \<in> set as then map_option (expired_timer now) (tm_heap m a) else tm_heap m a)"
  using assms
proof (induction as arbitrary: m cbs)
  case Nil
  then show ?case by simp
next
  case (Cons a as)
  let ?t = "timer_at (tm_heap m) a"
  let ?h = "(tm_heap m)(a \<mapsto> expired_timer now ?t)"
  let ?m1 = "if t_recurring ?t then m\<lparr>tm_heap := ?h, tm_timers := set_insert (tless ?h) a (tm_timers m)\<rparr>
      else m\<lparr>tm_heap := ?h\<rparr>"
  obtain cs where r: "expire_loop now as ?m1 = (cs, m')" and cbs: "cbs = t_cb ?t # cs"
    using Cons.prems(1) by (auto simp: Let_def expired_timer_def split: prod.splits if_splits)
  have na: "a \<notin> set (tm_timers m)" "a \<notin> set as" using Cons.prems by auto
  have so: "sorted_wrt (tless ?h) (tm_timers m)"
    using Cons.prems(2) na by (simp add: tm_wf_def sorted_tless_upd)
  have wf: "tm_wf ?m1"
    using so Cons.prems(2) by (auto simp: tm_wf_def torder.set_insert_sorted torder.set_insert_set)
  have tms: "set (tm_timers ?m1) = set (tm_timers m) \<union> (if t_recurring ?t then {a} else {})"
    using so by (simp add: torder.set_insert_set)
  have h1: "tm_heap ?m1 = ?h" and tick: "tm_tickled ?m1 = tm_tickled m" by simp_all
  have IH: "cs = map (\<lambda>a. t_cb (timer_at (tm_heap ?m1) a)) as \<and> tm_wf m' \<and> tm_tickled m' = tm_tickled ?m1
    \<and> set (tm_timers m') = set (tm_timers ?m1) \<union> {a \<in> set as. t_recurring (timer_at (tm_heap ?m1) a)}
    \<and> tm_heap m' = (\<lambda>a. if a \<in> set as then map_option (expired_timer now) (tm_heap ?m1 a) else tm_heap ?m1 a)"
    by (rule Cons.IH [OF r wf]) (use Cons.prems na in \<open>auto simp: tms h1\<close>)
  have same: "b \<in> set as \<Longrightarrow> ?h b = tm_heap m b" for b using na by auto
  obtain t where t: "tm_heap m a = Some t" using Cons.prems(5) by auto
  have "map (\<lambda>b. t_cb (timer_at ?h b)) as = map (\<lambda>b. t_cb (timer_at (tm_heap m) b)) as"
    using na by auto
  moreover have "{b \<in> set as. t_recurring (timer_at ?h b)} = {b \<in> set as. t_recurring (timer_at (tm_heap m) b)}"
    using na by auto
  moreover have "tm_heap m' = (\<lambda>b. if b \<in> set (a # as) then map_option (expired_timer now) (tm_heap m b) else tm_heap m b)"
    using IH na(2) t unfolding h1 by (auto simp: fun_eq_iff)
  moreover have "set (tm_timers m) \<union> (if t_recurring ?t then {a} else {}) \<union> {b \<in> set as. t_recurring (timer_at (tm_heap m) b)}
      = set (tm_timers m) \<union> {b \<in> set (a # as). t_recurring (timer_at (tm_heap m) b)}"
    by auto
  ultimately show ?case
    using IH unfolding h1 tms tick cbs list.map by simp
qed

lemma listExpiredCb_spec:
  assumes "listExpiredCb s now m = (cbs, m')" and "tm_wf m" and "tm_heap m s = None"
  defines "due \<equiv> (\<lambda>a. t_expiration (timer_at (tm_heap m) a) \<le> now)"
  shows "cbs = map (\<lambda>a. t_cb (timer_at (tm_heap m) a)) (filter due (tm_timers m))" and "tm_wf m'"
    and "set (tm_timers m') = {a \<in> set (tm_timers m). \<not> due a \<or> t_recurring (timer_at (tm_heap m) a)}"
    and "tm_heap m' = (\<lambda>a. if a \<in> set (tm_timers m) \<and> due a then map_option (expired_timer now) (tm_heap m a)
           else tm_heap m a)"
    and "tm_tickled m' = tm_tickled m"
proof -
  let ?ts = "tm_timers m"
  have so: "sorted_wrt (tless (tm_heap m)) ?ts" and al: "\<forall>a\<in>set ?ts. tm_heap m a \<noteq> None"
    using assms(2) by (simp_all add: tm_wf_def)
  have "cbs = map (\<lambda>a. t_cb (timer_at (tm_heap m) a)) (filter due ?ts) \<and> tm_wf m'
    \<and> set (tm_timers m') = {a \<in> set ?ts. \<not> due a \<or> t_recurring (timer_at (tm_heap m) a)}
    \<and> tm_heap m' = (\<lambda>a. if a \<in> set ?ts \<and> due a then map_option (expired_timer now) (tm_heap m a) else tm_heap m a)
    \<and> tm_tickled m' = tm_tickled m"
  proof (cases "?ts = []")
    case True
    then show ?thesis using assms(1,2) by (auto simp: listExpiredCb_def)
  next
    case False
    let ?m = "m\<lparr>tm_timers := filter (\<lambda>a. \<not> due a) ?ts\<rparr>"
    have r: "expire_loop now (filter due ?ts) ?m = (cbs, m')"
      using assms(1) False split_expired_spec [OF assms(2,3), of now]
      by (simp add: listExpiredCb_def due_def)
    have wf: "tm_wf ?m" using so al by (simp add: tm_wf_def sorted_wrt_filter)
    have di: "distinct (filter due ?ts)" using torder.sorted_distinct [OF so] by simp
    have "set (filter due ?ts) \<inter> set (tm_timers ?m) = {}" and "\<forall>a\<in>set (filter due ?ts). tm_heap ?m a \<noteq> None"
      using al by auto
    from expire_loop_spec [OF r wf di this] show ?thesis by (auto simp: fun_eq_iff)
  qed
  then show "cbs = map (\<lambda>a. t_cb (timer_at (tm_heap m) a)) (filter due ?ts)" "tm_wf m'"
    "set (tm_timers m') = {a \<in> set ?ts. \<not> due a \<or> t_recurring (timer_at (tm_heap m) a)}"
    "tm_heap m' = (\<lambda>a. if a \<in> set ?ts \<and> due a then map_option (expired_timer now) (tm_heap m a) else tm_heap m a)"
    "tm_tickled m' = tm_tickled m" by simp_all
qed

lemma hd_minimal:
  assumes "tm_wf m" and "tm_timers m = a # as" and "b \<in> set (tm_timers m)"
  shows "t_expiration (timer_at (tm_heap m) a) \<le> t_expiration (timer_at (tm_heap m) b)"
  using assms tless_expiration(1) [of "tm_heap m" a b] by (auto simp: tm_wf_def)

lemma getNextTimer_spec:
  assumes "getNextTimer now m = (v, m')" and "tm_wf m"
  shows "m' = m\<lparr>tm_tickled := False\<rparr>"
    and "tm_timers m = [] \<Longrightarrow> v = - 1"
    and "tm_timers m \<noteq> [] \<Longrightarrow> \<exists>a\<in>set (tm_timers m).
           (\<forall>b\<in>set (tm_timers m). t_expiration (timer_at (tm_heap m) a) \<le> t_expiration (timer_at (tm_heap m) b))
           \<and> v = (if t_expiration (timer_at (tm_heap m) a) \<le> now then 0
                  else t_expiration (timer_at (tm_heap m) a) - now)"
proof -
  show "m' = m\<lparr>tm_tickled := False\<rparr>" "tm_timers m = [] \<Longrightarrow> v = - 1"
    using assms(1) by (auto simp: getNextTimer_def Let_def split: list.splits)
  assume "tm_timers m \<noteq> []"
  then obtain a as where ts: "tm_timers m = a # as" by (cases "tm_timers m") auto
  then have v: "v = (if t_expiration (timer_at (tm_heap m) a) \<le> now then 0 else t_expiration (timer_at (tm_heap m) a) - now)"
    using assms(1) by (simp add: getNextTimer_def Let_def)
  show "\<exists>a\<in>set (tm_timers m).
           (\<forall>b\<in>set (tm_timers m). t_expiration (timer_at (tm_heap m) a) \<le> t_expiration (timer_at (tm_heap m) b))
           \<and> v = (if t_expiration (timer_at (tm_heap m) a) \<le> now then 0
                  else t_expiration (timer_at (tm_heap m) a) - now)"
    by (rule bexI [of _ a]) (use v ts hd_minimal [OF assms(2) ts] in auto)
qed

section \<open>Runs of the timer manager\<close>

text \<open>
  Every operation takes the manager's write lock for its whole body, so a concurrent execution is an
  interleaving of whole operations: the steps below, with the event each one leaves in the trace.
\<close>

datatype tm_event =
    Added nat
  | Cancelled nat bool
  | Refreshed nat bool
  | Restarted nat bool
  | Asked u64
  | Fired "nat list"

inductive tm_step :: "timer_manager \<Rightarrow> tm_event \<Rightarrow> timer_manager \<Rightarrow> bool" where
  step_add: "tm_heap m a = None \<Longrightarrow> addTimer a now ms cb r m = (hook, m') \<Longrightarrow> tm_step m (Added a) m'"
| step_cancel: "tm_heap m a \<noteq> None \<Longrightarrow> timer_cancel a m = (ok, m') \<Longrightarrow> tm_step m (Cancelled a ok) m'"
| step_refresh: "tm_heap m a \<noteq> None \<Longrightarrow> timer_refresh now a m = (ok, m') \<Longrightarrow> tm_step m (Refreshed a ok) m'"
| step_reset: "tm_heap m a \<noteq> None \<Longrightarrow> timer_reset now ms fn a m = (ok, hook, m') \<Longrightarrow> tm_step m (Restarted a ok) m'"
| step_next: "getNextTimer now m = (v, m') \<Longrightarrow> tm_step m (Asked v) m'"
| step_expire: "tm_heap m s = None \<Longrightarrow> listExpiredCb s now m = (cbs, m') \<Longrightarrow>
    tm_step m (Fired (fst (split_expired s now m))) m'"

inductive tm_run :: "timer_manager \<Rightarrow> tm_event list \<Rightarrow> timer_manager \<Rightarrow> bool" where
  run_nil: "tm_run m [] m"
| run_cons: "tm_step m e m1 \<Longrightarrow> tm_run m1 es m2 \<Longrightarrow> tm_run m (e # es) m2"

fun fired :: "tm_event list \<Rightarrow> nat list" where
  "fired [] = []"
| "fired (Fired as # es) = as @ fired es"
| "fired (_ # es) = fired es"

lemma tm_step_wf: "tm_step m e m' \<Longrightarrow> tm_wf m \<Longrightarrow> tm_wf m'"
proof (induction rule: tm_step.induct)
  case step_add
  then show ?case using addTimer_spec(1) by blast
next
  case step_cancel
  then show ?case using timer_cancel_spec(1) by blast
next
  case step_refresh
  then show ?case using timer_refresh_spec(1) by blast
next
  case step_reset
  then show ?case using timer_reset_spec(1) by blast
next
  case (step_next now m v m')
  then show ?case using getNextTimer_spec(1) [of now m v m'] by (simp add: tm_wf_def)
next
  case step_expire
  then show ?case using listExpiredCb_spec(2) by blast
qed

text \<open>A timer that is out of the set and has lost its callback.\<close>

definition spent :: "nat \<Rightarrow> timer_manager \<Rightarrow> bool" where
  "spent a m \<longleftrightarrow> a \<notin> set (tm_timers m) \<and> (\<exists>t. tm_heap m a = Some t \<and> t_cb t = None)"

definition one_shot :: "nat \<Rightarrow> timer_manager \<Rightarrow> bool" where
  "one_shot a m \<longleftrightarrow> (\<exists>t. tm_heap m a = Some t \<and> \<not> t_recurring t)"

lemma split_expired_mem:
  "tm_wf m \<Longrightarrow> tm_heap m s = None \<Longrightarrow>
   a \<in> set (fst (split_expired s now m)) \<longleftrightarrow> a \<in> set (tm_timers m) \<and> t_expiration (timer_at (tm_heap m) a) \<le> now"
  by (simp add: split_expired_spec)

lemma split_expired_distinct: "tm_wf m \<Longrightarrow> tm_heap m s = None \<Longrightarrow> distinct (fst (split_expired s now m))"
  using torder.sorted_distinct by (auto simp: split_expired_spec tm_wf_def)

lemma tm_step_spent:
  "tm_step m e m' \<Longrightarrow> tm_wf m \<Longrightarrow> spent a m \<Longrightarrow> spent a m' \<and> a \<notin> set (fired [e])"
proof (induction rule: tm_step.induct)
  case (step_add m b now ms cb r hook m')
  then show ?case using addTimer_spec [OF step_add(2) step_add(3) step_add(1)] by (auto simp: spent_def)
next
  case (step_cancel m b ok m')
  then show ?case using timer_cancel_spec [OF step_cancel(2) step_cancel(3) step_cancel(1)]
    by (auto simp: spent_def split: if_splits)
next
  case (step_refresh m b now ok m')
  then show ?case using timer_refresh_spec [OF step_refresh(2) step_refresh(3)]
    by (auto simp: spent_def split: if_splits)
next
  case (step_reset m b now ms fn ok hook m')
  then show ?case using timer_reset_spec [OF step_reset(2) step_reset(3)]
    by (auto simp: spent_def)
next
  case (step_next now m v m')
  then show ?case using getNextTimer_spec(1) [OF step_next(1) step_next(2)] by (simp add: spent_def)
next
  case (step_expire m s now cbs m')
  then show ?case
    using listExpiredCb_spec [OF step_expire(2) step_expire(3) step_expire(1)]
    by (auto simp: spent_def split_expired_mem)
qed

lemma tm_step_one_shot:
  "tm_step m e m' \<Longrightarrow> tm_wf m \<Longrightarrow> one_shot a m \<Longrightarrow>
   one_shot a m' \<and> distinct (fired [e]) \<and> (a \<in> set (fired [e]) \<longrightarrow> spent a m')"
proof (induction rule: tm_step.induct)
  case (step_add m b now ms cb r hook m')
  then show ?case using addTimer_spec [OF step_add(2) step_add(3) step_add(1)] by (auto simp: one_shot_def)
next
  case (step_cancel m b ok m')
  then show ?case using timer_cancel_spec [OF step_cancel(2) step_cancel(3) step_cancel(1)]
    by (auto simp: one_shot_def)
next
  case (step_refresh m b now ok m')
  then show ?case using timer_refresh_spec [OF step_refresh(2) step_refresh(3)]
    by (auto simp: one_shot_def split: if_splits)
next
  case (step_reset m b now ms fn ok hook m')
  then show ?case using timer_reset_spec(3) [OF step_reset(2) step_reset(3)]
    by (auto simp: one_shot_def reset_timer_def)
next
  case (step_next now m v m')
  then show ?case using getNextTimer_spec(1) [OF step_next(1) step_next(2)] by (simp add: one_shot_def)
next
  case (step_expire m s now cbs m')
  note l = listExpiredCb_spec [OF step_expire(2) step_expire(3) step_expire(1)]
  from step_expire(4) obtain t where t: "tm_heap m a = Some t" "\<not> t_recurring t" by (auto simp: one_shot_def)
  have "one_shot a m'" using l(4) t by (auto simp: one_shot_def expired_timer_def)
  moreover have "spent a m'" if "a \<in> set (fst (split_expired s now m))"
    using that l(3,4) t step_expire(1,3) by (auto simp: spent_def split_expired_mem expired_timer_def)
  ultimately show ?case
    using split_expired_distinct [OF step_expire(3,1)] by simp
qed

lemma fired_Cons: "fired (e # es) = fired [e] @ fired es"
  by (cases e) simp_all

lemma tm_run_spent: "tm_run m es m' \<Longrightarrow> tm_wf m \<Longrightarrow> spent a m \<Longrightarrow> a \<notin> set (fired es)"
proof (induction rule: tm_run.induct)
  case (run_cons m e m1 es m2)
  then show ?case
    using tm_step_wf [OF run_cons(1)] tm_step_spent [OF run_cons(1)] by (subst fired_Cons) simp
qed simp

lemma tm_run_wf: "tm_run m es m' \<Longrightarrow> tm_wf m \<Longrightarrow> tm_wf m'"
  by (induction rule: tm_run.induct) (auto intro: tm_step_wf)

lemma count_list_distinct: "distinct xs \<Longrightarrow> x \<in> set xs \<Longrightarrow> count_list xs x = 1"
  by (induction xs) (auto simp: count_list_0_iff)

lemma tm_run_one_shot:
  "tm_run m es m' \<Longrightarrow> tm_wf m \<Longrightarrow> one_shot a m \<Longrightarrow> count_list (fired es) a \<le> 1"
proof (induction rule: tm_run.induct)
  case (run_cons m e m1 es m2)
  note wf = tm_step_wf [OF run_cons(1,4)] and os = tm_step_one_shot [OF run_cons(1,4,5)]
  show ?case
  proof (cases "a \<in> set (fired [e])")
    case True
    then have "a \<notin> set (fired es)" using os tm_run_spent [OF run_cons(2) wf] by blast
    moreover have "count_list (fired [e]) a = 1"
      using True os by (intro count_list_distinct) simp_all
    ultimately show ?thesis by (subst fired_Cons) (simp add: count_list_0_iff)
  next
    case False
    then have "count_list (fired [e]) a = 0" by (simp add: count_list_0_iff)
    then show ?thesis using run_cons(3) [OF wf] os by (subst fired_Cons) simp
  qed
qed simp

text \<open>
  \<^verbatim>\<open>reset\<close> with the old period and \<^verbatim>\<open>from_now\<close> false reports success even for a timer that was
  cancelled: the early return precedes the test of the callback.
\<close>

lemma reset_of_cancelled_reports_true:
  "t_cb (timer_at (tm_heap m) a) = None \<Longrightarrow>
   timer_reset now (t_ms (timer_at (tm_heap m) a)) False a m = (True, False, m)"
  by (simp add: timer_reset_def Let_def)

section \<open>The interface for the IO manager\<close>

definition tm_pending :: "timer_manager \<Rightarrow> nat \<Rightarrow> u64 option" where
  "tm_pending m a = (if a \<in> set (tm_timers m) then Some (t_expiration (timer_at (tm_heap m) a)) else None)"

lemma getNextTimer_bound:
  assumes "tm_wf m" and "a \<in> set (tm_timers m)"
  shows "fst (getNextTimer now m) \<le> (if t_expiration (timer_at (tm_heap m) a) \<le> now then 0
           else t_expiration (timer_at (tm_heap m) a) - now)"
proof -
  let ?e = "\<lambda>a. t_expiration (timer_at (tm_heap m) a)"
  obtain v m' where g: "getNextTimer now m = (v, m')" by force
  have "tm_timers m \<noteq> []" using assms(2) by auto
  from getNextTimer_spec(3) [OF g assms(1) this] obtain b where
    b: "\<forall>c\<in>set (tm_timers m). ?e b \<le> ?e c" "v = (if ?e b \<le> now then 0 else ?e b - now)" by blast
  have le: "?e b \<le> ?e a" using b(1) assms(2) by blast
  show ?thesis
  proof (cases "?e a \<le> now")
    case True
    then show ?thesis using le b(2) g by (auto dest: order_trans)
  next
    case False
    then have "?e b - now \<le> ?e a - now" if "\<not> ?e b \<le> now"
      using le that by (simp add: word_le_nat_alt unat_sub not_le less_imp_le word_less_nat_alt)
    then show ?thesis using False b(2) g by auto
  qed
qed

interpretation tm_source: timer_source tm_wf tm_pending getNextTimer
proof unfold_locales
  fix m now
  assume wf: "tm_wf m"
  obtain v m' where g: "getNextTimer now m = (v, m')" by force
  note sp = getNextTimer_spec [OF g wf]
  show "tm_wf (snd (getNextTimer now m)) \<and> tm_pending (snd (getNextTimer now m)) = tm_pending m"
    using sp(1) g wf by (simp add: tm_wf_def tm_pending_def fun_eq_iff)
  show "fst (getNextTimer now m) = - 1" if "\<forall>a. tm_pending m a = None"
  proof -
    have "tm_timers m = []" using that by (cases "tm_timers m") (auto simp: tm_pending_def split: if_splits)
    then show ?thesis using sp(2) g by simp
  qed
  fix a e
  assume p: "tm_pending m a = Some e"
  then have a: "a \<in> set (tm_timers m)" "t_expiration (timer_at (tm_heap m) a) = e"
    by (auto simp: tm_pending_def split: if_splits)
  show "fst (getNextTimer now m) = 0" if "e \<le> now"
    using getNextTimer_bound [OF wf a(1), of now] a(2) that by simp
  show "fst (getNextTimer now m) \<le> e - now" if "now < e"
    using getNextTimer_bound [OF wf a(1), of now] a(2) that by (simp add: not_le [symmetric])
qed

section \<open>Properties\<close>

text \<open>
  Property C5. In every run of the timer manager, whatever its operations and their order, a one-shot timer
  is handed out for execution at most once.
\<close>

theorem one_shot_fires_at_most_once:
  assumes "tm_run m es m'" and "tm_wf m" and "tm_heap m a = Some t" and "\<not> t_recurring t"
  shows "count_list (fired es) a \<le> 1"
  using assms by (intro tm_run_one_shot) (auto simp: one_shot_def)

lemma add_example:
  "addTimer 2 0 5 (Some (Plain 7)) False new_timer_manager =
     (True, \<lparr>tm_heap = Map.empty(2 \<mapsto> new_timer 0 5 (Some (Plain 7)) False), tm_timers = [2], tm_tickled = True\<rparr>)"
  by (simp add: addTimer_def insertTimer_def new_timer_manager_def set_find_def torder.irrefl Let_def)

lemma wf_example: "tm_wf (snd (addTimer 2 0 5 (Some (Plain 7)) False new_timer_manager))"
  by (simp add: add_example tm_wf_def)

lemma expire_example:
  "listExpiredCb 3 8 (snd (addTimer 2 0 5 (Some (Plain 7)) False new_timer_manager)) =
     ([Some (Plain 7)], \<lparr>tm_heap = Map.empty(2 \<mapsto> (new_timer 0 5 (Some (Plain 7)) False)\<lparr>t_cb := None\<rparr>),
        tm_timers = [], tm_tickled = True\<rparr>)"
  by (simp add: add_example listExpiredCb_def split_expired_def new_timer_def sentinel_timer_def below_def
      lower_bound_def Comparator_def)

lemma run_example:
  "tm_run (snd (addTimer 2 0 5 (Some (Plain 7)) False new_timer_manager)) [Fired [2]]
     (snd (listExpiredCb 3 8 (snd (addTimer 2 0 5 (Some (Plain 7)) False new_timer_manager))))"
proof -
  let ?m = "snd (addTimer 2 0 5 (Some (Plain 7)) False new_timer_manager)"
  have "fst (split_expired 3 8 ?m) = [2]"
    by (simp add: add_example split_expired_def new_timer_def sentinel_timer_def below_def lower_bound_def Comparator_def)
  moreover have "tm_step ?m (Fired (fst (split_expired 3 8 ?m))) (snd (listExpiredCb 3 8 ?m))"
    by (rule step_expire [where cbs = "[Some (Plain 7)]"]) (simp add: add_example, simp only: expire_example snd_conv)
  ultimately show ?thesis by (auto intro: tm_run.intros)
qed

theorem one_shot_fires_at_most_once_witness:
  "count_list (fired [Fired [2]]) 2 \<le> 1"
  by (rule one_shot_fires_at_most_once [OF run_example wf_example, of 2 "new_timer 0 5 (Some (Plain 7)) False"])
    (simp_all add: add_example, simp add: new_timer_def)

text \<open>
  Property C12. Once \<^verbatim>\<open>cancel\<close> has returned true, the timer is never handed out again, in any run that follows,
  even one that tries to refresh or reset it.
\<close>

theorem cancelled_timer_never_fires:
  assumes "tm_wf m" and "tm_heap m a \<noteq> None" and "timer_cancel a m = (True, m1)" and "tm_run m1 es m2"
  shows "a \<notin> set (fired es)"
proof -
  note c = timer_cancel_spec [OF assms(3,1,2)]
  have "spent a m1" using c(3,4) by (simp add: spent_def)
  then show ?thesis by (rule tm_run_spent [OF assms(4) c(1)])
qed

theorem cancelled_timer_never_fires_witness:
  "2 \<notin> set (fired [Fired []])"
proof (rule cancelled_timer_never_fires [OF wf_example])
  let ?m = "snd (addTimer 2 0 5 (Some (Plain 7)) False new_timer_manager)"
  show "tm_heap ?m 2 \<noteq> None" by (simp add: add_example)
  let ?c = "\<lparr>tm_heap = Map.empty(2 \<mapsto> (new_timer 0 5 (Some (Plain 7)) False)\<lparr>t_cb := None\<rparr>), tm_timers = [], tm_tickled = True\<rparr>"
  show "timer_cancel 2 ?m = (True, ?c)"
    by (simp add: add_example timer_cancel_def set_find_def torder.irrefl set_erase_def Let_def new_timer_def)
  have "fst (split_expired 3 9 ?c) = []"
    by (simp add: split_expired_def below_def lower_bound_def)
  moreover have "tm_step ?c (Fired (fst (split_expired 3 9 ?c))) (snd (listExpiredCb 3 9 ?c))"
    by (rule step_expire [where cbs = "fst (listExpiredCb 3 9 ?c)"]) simp_all
  ultimately show "tm_run ?c [Fired []] (snd (listExpiredCb 3 9 ?c))"
    by (auto intro: tm_run.intros)
qed

text \<open>
  Property C21. \<^verbatim>\<open>listExpiredCb\<close> returns the callbacks of exactly the timers whose expiration is not after the
  clock, in the order of the set; afterwards the set holds the others and the recurring ones, whose
  expiration is the clock plus their period, while the one-shot timers it returned have lost their
  callbacks.
\<close>

theorem listExpiredCb_correct:
  assumes "tm_wf m" and "tm_heap m s = None" and "listExpiredCb s now m = (cbs, m')"
  shows "tm_wf m'
    \<and> cbs = map (\<lambda>a. t_cb (the (tm_heap m a))) (filter (\<lambda>a. t_expiration (the (tm_heap m a)) \<le> now) (tm_timers m))
    \<and> set (tm_timers m') = {a \<in> set (tm_timers m). now < t_expiration (the (tm_heap m a)) \<or> t_recurring (the (tm_heap m a))}
    \<and> (\<forall>a. tm_heap m' a =
         (if a \<in> set (tm_timers m) \<and> t_expiration (the (tm_heap m a)) \<le> now
          then map_option (\<lambda>t. if t_recurring t then t\<lparr>t_expiration := now + t_ms t\<rparr> else t\<lparr>t_cb := None\<rparr>) (tm_heap m a)
          else tm_heap m a))"
  using listExpiredCb_spec [OF assms(3,1,2)] unfolding expired_timer_def [abs_def] not_le by simp

theorem listExpiredCb_correct_witness:
  "tm_wf (snd (listExpiredCb 3 8 (snd (addTimer 2 0 5 (Some (Plain 7)) False new_timer_manager))))"
  using listExpiredCb_correct [OF wf_example _ expire_example] by (simp add: expire_example) (simp add: add_example)

text \<open>
  The waiting time that \<^verbatim>\<open>getNextTimer\<close> returns is that of the earliest timer: all ones for
  no timer, 0 when one is due, and otherwise never longer than what is left to any timer.
\<close>

theorem getNextTimer_earliest:
  assumes "tm_wf m"
  shows "case getNextTimer now m of (v, m') \<Rightarrow>
      m' = m\<lparr>tm_tickled := False\<rparr>
    \<and> (if tm_timers m = [] then v = - 1
       else \<exists>a\<in>set (tm_timers m).
              (\<forall>b\<in>set (tm_timers m). t_expiration (the (tm_heap m a)) \<le> t_expiration (the (tm_heap m b)))
            \<and> v = (if t_expiration (the (tm_heap m a)) \<le> now then 0 else t_expiration (the (tm_heap m a)) - now))"
proof -
  obtain v m' where e: "getNextTimer now m = (v, m')" by force
  from getNextTimer_spec [OF e assms] show ?thesis unfolding e by simp
qed

theorem getNextTimer_earliest_witness:
  "case getNextTimer 3 (snd (addTimer 2 0 5 (Some (Plain 7)) False new_timer_manager)) of (v, m') \<Rightarrow> v = 2"
  using getNextTimer_earliest [OF wf_example, of 3]
  by (auto simp: add_example new_timer_def split: prod.splits)

text \<open>
  The clock and the period are added in 64-bit arithmetic: a period of \<open>2 ^ 64 - 1\<close> (an infinite
  timeout) wraps round to an expiration just before the clock, so the timer is due at once.
\<close>

lemma infinite_period_is_due:
  "0 < now \<Longrightarrow> t_expiration (new_timer now (- 1) cb r) = now - 1 \<and> t_expiration (new_timer now (- 1) cb r) < now"
proof -
  assume "0 < now"
  then have "unat (now - 1) = unat now - 1" and "0 < unat now"
    by (simp_all add: unat_minus_one unat_gt_0)
  then have "now - 1 < now" by (simp add: word_less_nat_alt)
  then show ?thesis by (simp add: new_timer_def)
qed

end
