(* ===== verification/IOManager.thy ===== *)
theory IOManager
  imports Scheduler Timer
begin

text \<open>
The I/O scheduler of src/hiper/base/iomanager.cc and iomanager.h: the contexts of the descriptors with their registered events, addEvent, delEvent, cancelEvent and cancelAll, triggering an event, one turn of the idle loop behind epoll_wait, and stopping. The epoll instance is a parameter: ctl stands for epoll_ctl on a kernel state, and its documented effect on the interest list is the hypothesis ctl_law. The timer queue is used through the locale timer_source, the run queue through the definitions of Scheduler. The lemmas show that the bookkeeping (counter, contexts, interest list) stays exact, what cancelAll wakes, how long the loop sleeps, what stopping means and which assertions a run can hit.
\<close>

section \<open>Events and contexts\<close>

type_synonym event = u32

definition NONE :: event where "NONE = 0"
definition READ :: event where "READ = 1"
definition WRITE :: event where "WRITE = 4"

text \<open>The bits of \<^verbatim>\<open>sys/epoll.h\<close> that the program uses.\<close>

definition EPOLLIN :: u32 where "EPOLLIN = 1"
definition EPOLLOUT :: u32 where "EPOLLOUT = 4"
definition EPOLLERR :: u32 where "EPOLLERR = 8"
definition EPOLLHUP :: u32 where "EPOLLHUP = 16"
definition EPOLLET :: u32 where "EPOLLET = push_bit 31 1"

lemmas event_bits = NONE_def READ_def WRITE_def EPOLLIN_def EPOLLOUT_def EPOLLERR_def EPOLLHUP_def

record event_context =
  ec_scheduler :: "nat option"
  ec_fiber :: "nat option"
  ec_cb :: "nat option"

record fd_context =
  fc_read :: event_context
  fc_write :: event_context
  fc_fd :: nat
  fc_events :: event

datatype io_error = Io_assert string | Io_null | Invalid_argument string

type_synonym 'a io_result = "io_error + 'a"

definition io_assert :: "bool \<Rightarrow> string \<Rightarrow> unit io_result" where
  "io_assert b msg = (if b then Inr () else Inl (Io_assert msg))"

definition resetContext :: "event_context \<Rightarrow> event_context" where
  "resetContext ctx = \<lparr>ec_scheduler = None, ec_fiber = None, ec_cb = None\<rparr>"

definition new_fd_context :: "nat \<Rightarrow> fd_context" where
  "new_fd_context fd =
     (let e = \<lparr>ec_scheduler = None, ec_fiber = None, ec_cb = None\<rparr>
      in \<lparr>fc_read = e, fc_write = e, fc_fd = fd, fc_events = NONE\<rparr>)"

text \<open>\<^verbatim>\<open>getContext\<close> returns a reference: reading through it and assigning through it.\<close>

definition getContext :: "event \<Rightarrow> fd_context \<Rightarrow> event_context io_result" where
  "getContext ev fc =
     (if ev = READ then Inr (fc_read fc)
      else if ev = WRITE then Inr (fc_write fc)
      else Inl (Invalid_argument ''getContext invalid event''))"

definition setContext :: "event \<Rightarrow> event_context \<Rightarrow> fd_context \<Rightarrow> fd_context" where
  "setContext ev c fc = (if ev = READ then fc\<lparr>fc_read := c\<rparr> else fc\<lparr>fc_write := c\<rparr>)"

text \<open>
  The manager: the table of contexts, the count of pending events, the timers, every scheduler by an
  identifier (a \<^verbatim>\<open>Scheduler*\<close>), its own identifier, and the state \<open>'k\<close> of the operating system's epoll
  instance, which only \<open>ctl\<close> (\<^verbatim>\<open>epoll_ctl\<close>) reads and changes. \<^verbatim>\<open>epoll_ctl\<close> returns 0 or -1.
\<close>

record 'k iomanager =
  io_contexts :: "fd_context option list"
  io_pending :: nat
  io_timers :: timer_manager
  io_scheds :: "nat \<Rightarrow> scheduler"
  io_self :: nat
  io_kernel :: 'k

datatype ctl_op = CTL_ADD | CTL_MOD | CTL_DEL

type_synonym 'k ctl = "ctl_op \<Rightarrow> nat \<Rightarrow> u32 \<Rightarrow> 'k \<Rightarrow> int \<times> 'k"

definition io_schedule :: "nat \<Rightarrow> fiber_or_cb \<Rightarrow> 'k iomanager \<Rightarrow> 'k iomanager" where
  "io_schedule s fc w = w\<lparr>io_scheds := (io_scheds w)(s := snd (schedule fc (- 1) (io_scheds w s)))\<rparr>"

definition contextResize :: "nat \<Rightarrow> 'k iomanager \<Rightarrow> 'k iomanager" where
  "contextResize n w =
     (let cs = take n (io_contexts w) @ replicate (n - length (io_contexts w)) None
      in w\<lparr>io_contexts := map (\<lambda>i. case cs ! i of None \<Rightarrow> Some (new_fd_context i) | Some c \<Rightarrow> Some c) [0..<length cs]\<rparr>)"

definition fd_context_at :: "nat \<Rightarrow> 'k iomanager \<Rightarrow> fd_context io_result" where
  "fd_context_at i w = (if i < length (io_contexts w)
     then (case io_contexts w ! i of None \<Rightarrow> Inl Io_null | Some fc \<Rightarrow> Inr fc) else Inl Io_null)"

definition put_context :: "nat \<Rightarrow> fd_context \<Rightarrow> 'k iomanager \<Rightarrow> 'k iomanager" where
  "put_context i fc w = w\<lparr>io_contexts := (io_contexts w)[i := Some fc]\<rparr>"

text \<open>\<^verbatim>\<open>schedule(&ctx.cb)\<close> and \<^verbatim>\<open>schedule(&ctx.fiber)\<close> swap the continuation out of the context.\<close>

definition triggerEvent :: "event \<Rightarrow> nat \<Rightarrow> 'k iomanager \<Rightarrow> 'k iomanager io_result" where
  "triggerEvent ev i w =
     bindE (fd_context_at i w) (\<lambda>fc.
     bindE (io_assert (fc_events fc AND ev \<noteq> 0) ''events & event'') (\<lambda>_.
       let fc1 = fc\<lparr>fc_events := fc_events fc AND NOT ev\<rparr> in
       bindE (getContext ev fc1) (\<lambda>ctx.
         case ec_scheduler ctx of
           None \<Rightarrow> Inl Io_null
         | Some s \<Rightarrow>
             if ec_cb ctx \<noteq> None then
               Inr (io_schedule s (Cb_task (ec_cb ctx)) (put_context i (setContext ev (ctx\<lparr>ec_cb := None\<rparr>) fc1) w))
             else
               Inr (io_schedule s (Fiber_task (ec_fiber ctx)) (put_context i (setContext ev (ctx\<lparr>ec_fiber := None\<rparr>) fc1) w)))))"

section \<open>Registration\<close>

text \<open>
  \<open>sched\<close> is \<^verbatim>\<open>Scheduler::GetThis()\<close>; \<open>cur\<close> and \<open>cur_state\<close> are the current fiber and its state. A
  descriptor behind the table makes it grow to \<^verbatim>\<open>fd * 1.5\<close> entries, which are null pointers. A negative
  descriptor indexes in front of the table.
\<close>

definition addEvent :: "'k ctl \<Rightarrow> nat option \<Rightarrow> nat \<Rightarrow> fiber_state \<Rightarrow> int \<Rightarrow> event \<Rightarrow> nat option
    \<Rightarrow> 'k iomanager \<Rightarrow> (int \<times> 'k iomanager) io_result" where
  "addEvent ctl sched cur cur_state fd event cb w0 =
     (if fd < 0 then Inl Io_null
      else
        let i = nat fd;
            w = (if int (length (io_contexts w0)) > fd then w0
                 else let n = 3 * i div 2
                      in w0\<lparr>io_contexts := take n (io_contexts w0) @ replicate (n - length (io_contexts w0)) None\<rparr>)
        in bindE (fd_context_at i w) (\<lambda>fc.
           bindE (io_assert (fc_events fc AND event = 0) ''!(fd_ctx->events & event)'') (\<lambda>_.
             let op = (if fc_events fc \<noteq> 0 then CTL_MOD else CTL_ADD);
                 (ret, k) = ctl op i (EPOLLET OR fc_events fc OR event) (io_kernel w);
                 w1 = w\<lparr>io_kernel := k\<rparr>
             in if ret \<noteq> 0 then Inr (- 1, w1)
                else
                  let w2 = w1\<lparr>io_pending := io_pending w1 + 1\<rparr>; fc1 = fc\<lparr>fc_events := fc_events fc OR event\<rparr> in
                  bindE (getContext event fc1) (\<lambda>ctx.
                  bindE (io_assert (ec_scheduler ctx = None \<and> ec_fiber ctx = None \<and> ec_cb ctx = None)
                           ''!event_ctx.scheduler && !event_ctx.fiber && !event_ctx.cb'') (\<lambda>_.
                    if cb \<noteq> None then
                      Inr (0, put_context i (setContext event \<lparr>ec_scheduler = sched, ec_fiber = None, ec_cb = cb\<rparr> fc1) w2)
                    else
                      bindE (io_assert (cur_state = EXEC) ''getState() == Fiber::EXEC'') (\<lambda>_.
                        Inr (0, put_context i (setContext event \<lparr>ec_scheduler = sched, ec_fiber = Some cur, ec_cb = None\<rparr> fc1) w2)))))))"

text \<open>The part that \<^verbatim>\<open>delEvent\<close> and \<^verbatim>\<open>cancelEvent\<close> share, up to the decrement of the counter.\<close>

definition drop_event :: "'k ctl \<Rightarrow> int \<Rightarrow> event \<Rightarrow> 'k iomanager
    \<Rightarrow> (bool \<times> 'k iomanager) io_result" where
  "drop_event ctl fd event w =
     (if int (length (io_contexts w)) \<le> fd then Inr (False, w)
      else if fd < 0 then Inl Io_null
      else bindE (fd_context_at (nat fd) w) (\<lambda>fc.
        if fc_events fc AND event = 0 then Inr (False, w)
        else
          let new_events = fc_events fc AND NOT event;
              op = (if new_events \<noteq> 0 then CTL_MOD else CTL_DEL);
              (ret, k) = ctl op (nat fd) (EPOLLET OR new_events) (io_kernel w);
              w1 = w\<lparr>io_kernel := k\<rparr>
          in if ret \<noteq> 0 then Inr (False, w1)
             else Inr (True, w1\<lparr>io_pending := io_pending w1 - 1\<rparr>)))"

definition delEvent :: "'k ctl \<Rightarrow> int \<Rightarrow> event \<Rightarrow> 'k iomanager \<Rightarrow> (bool \<times> 'k iomanager) io_result" where
  "delEvent ctl fd event w =
     bindE (drop_event ctl fd event w) (\<lambda>(ok, w1).
       if \<not> ok then Inr (False, w1)
       else bindE (fd_context_at (nat fd) w1) (\<lambda>fc.
         let fc1 = fc\<lparr>fc_events := fc_events fc AND NOT event\<rparr> in
         bindE (getContext event fc1) (\<lambda>ctx.
           Inr (True, put_context (nat fd) (setContext event (resetContext ctx) fc1) w1))))"

definition cancelEvent :: "'k ctl \<Rightarrow> int \<Rightarrow> event \<Rightarrow> 'k iomanager \<Rightarrow> (bool \<times> 'k iomanager) io_result" where
  "cancelEvent ctl fd event w =
     bindE (drop_event ctl fd event w) (\<lambda>(ok, w1).
       if \<not> ok then Inr (False, w1)
       else bindE (triggerEvent event (nat fd) w1) (\<lambda>w2. Inr (True, w2)))"

text \<open>One \<^verbatim>\<open>if\<close> of \<^verbatim>\<open>cancelAll\<close> and of \<^verbatim>\<open>idle\<close>: trigger the event when \<open>cond\<close> holds, and count it.\<close>

definition trigger_if :: "bool \<Rightarrow> event \<Rightarrow> nat \<Rightarrow> 'k iomanager \<Rightarrow> 'k iomanager io_result" where
  "trigger_if cond ev i w =
     (if cond then bindE (triggerEvent ev i w) (\<lambda>w1. Inr (w1\<lparr>io_pending := io_pending w1 - 1\<rparr>)) else Inr w)"

definition cancelAll :: "'k ctl \<Rightarrow> int \<Rightarrow> 'k iomanager \<Rightarrow> (bool \<times> 'k iomanager) io_result" where
  "cancelAll ctl fd w =
     (if int (length (io_contexts w)) \<le> fd then Inr (False, w)
      else if fd < 0 then Inl Io_null
      else bindE (fd_context_at (nat fd) w) (\<lambda>fc.
        if fc_events fc = 0 then Inr (False, w)
        else
          let (ret, k) = ctl CTL_DEL (nat fd) 0 (io_kernel w); w1 = w\<lparr>io_kernel := k\<rparr> in
          if ret \<noteq> 0 then Inr (False, w1)
          else bindE (trigger_if (fc_events fc AND READ \<noteq> 0) READ (nat fd) w1) (\<lambda>w2.
               bindE (fd_context_at (nat fd) w2) (\<lambda>fc2.
               bindE (trigger_if (fc_events fc2 AND WRITE \<noteq> 0) WRITE (nat fd) w2) (\<lambda>w3.
               bindE (fd_context_at (nat fd) w3) (\<lambda>fc3.
               bindE (io_assert (fc_events fc3 = NONE) ''fd_ctx->events == NONE'') (\<lambda>_.
                 Inr (True, w3))))))))"

section \<open>The idle loop\<close>

definition io_stopping :: "u64 \<Rightarrow> 'k iomanager \<Rightarrow> bool \<times> u64 \<times> 'k iomanager" where
  "io_stopping now w =
     (let (timeout, tm) = getNextTimer now (io_timers w); w1 = w\<lparr>io_timers := tm\<rparr>
      in (timeout = - 1 \<and> io_pending w1 = 0 \<and> stopping (io_scheds w1 (io_self w1)), timeout, w1))"

text \<open>The argument of \<^verbatim>\<open>epoll_wait\<close>, with its two conversions to \<^verbatim>\<open>int\<close>.\<close>

definition MAX_TIMEOUT :: u64 where "MAX_TIMEOUT = 5000"

definition poll_timeout :: "u64 \<Rightarrow> int" where
  "poll_timeout next_timeout =
     (let t = (if next_timeout \<noteq> - 1 then
                 if sint (ucast next_timeout :: u32) > 5000 then MAX_TIMEOUT else next_timeout
               else MAX_TIMEOUT)
      in sint (ucast t :: u32))"

text \<open>What \<^verbatim>\<open>epoll_wait\<close> reports: the tickle pipe, or the context of a descriptor with its event bits.\<close>

datatype ready = Tickle_ready | Fd_ready nat u32

fun handle_ready :: "'k ctl \<Rightarrow> ready \<Rightarrow> 'k iomanager \<Rightarrow> 'k iomanager io_result" where
  "handle_ready ctl Tickle_ready w = Inr w"
| "handle_ready ctl (Fd_ready i ev0) w =
     bindE (fd_context_at i w) (\<lambda>fc.
       let ev = (if ev0 AND (EPOLLERR OR EPOLLHUP) \<noteq> 0 then ev0 OR (EPOLLIN OR EPOLLOUT) else ev0);
           real = (if ev AND EPOLLIN \<noteq> 0 then READ else NONE) OR (if ev AND EPOLLOUT \<noteq> 0 then WRITE else NONE)
       in if fc_events fc AND real = NONE then Inr w
          else
            let left = fc_events fc AND NOT real;
                op = (if left \<noteq> 0 then CTL_MOD else CTL_DEL);
                (ret, k) = ctl op (fc_fd fc) (EPOLLET OR left) (io_kernel w);
                w1 = w\<lparr>io_kernel := k\<rparr>
            in if ret \<noteq> 0 then Inr w1
               else bindE (trigger_if (real AND READ \<noteq> 0) READ i w1)
                      (trigger_if (real AND WRITE \<noteq> 0) WRITE i))"

fun handle_all :: "'k ctl \<Rightarrow> ready list \<Rightarrow> 'k iomanager \<Rightarrow> 'k iomanager io_result" where
  "handle_all ctl [] w = Inr w"
| "handle_all ctl (r # rs) w = bindE (handle_ready ctl r w) (handle_all ctl rs)"

text \<open>
  One turn of the loop behind \<^verbatim>\<open>epoll_wait\<close>: the expired timers' callbacks are scheduled, then the ready
  descriptors are served. \<open>closure\<close> names the function object that holds a timer's callback, \<open>s\<close> is the
  address of the sentinel of \<^verbatim>\<open>listExpiredCb\<close>.
\<close>

definition idle_turn :: "'k ctl \<Rightarrow> (timer_cb \<Rightarrow> nat) \<Rightarrow> nat \<Rightarrow> u64 \<Rightarrow> ready list \<Rightarrow> 'k iomanager \<Rightarrow> 'k iomanager io_result" where
  "idle_turn ctl closure s now events w =
     (let (cbs, tm) = listExpiredCb s now (io_timers w);
          w1 = w\<lparr>io_timers := tm\<rparr>;
          me = io_self w1;
          sch = (if cbs = [] then io_scheds w1 me
                 else snd (schedule_range (map (\<lambda>c. Cb_task (map_option closure c)) cbs) False (io_scheds w1 me)))
      in handle_all ctl events (w1\<lparr>io_scheds := (io_scheds w1)(me := sch)\<rparr>))"

text \<open>\<^verbatim>\<open>tickle\<close> writes to the pipe only when a thread is idle; \<open>written\<close> is what \<^verbatim>\<open>write\<close> returns.\<close>

definition io_tickle :: "int \<Rightarrow> 'k iomanager \<Rightarrow> bool io_result" where
  "io_tickle written w =
     (if sc_idle (io_scheds w (io_self w)) = 0 then Inr False
      else bindE (io_assert (written = 1) ''ret == 1'') (\<lambda>_. Inr True))"

definition onTimerInsertedAtFront :: "int \<Rightarrow> 'k iomanager \<Rightarrow> bool io_result" where
  "onTimerInsertedAtFront = io_tickle"

definition new_iomanager :: "nat \<Rightarrow> 'k \<Rightarrow> (nat \<Rightarrow> scheduler) \<Rightarrow> 'k iomanager" where
  "new_iomanager self k scheds = contextResize 32 \<lparr>io_contexts = [], io_pending = 0, io_timers = new_timer_manager,
     io_scheds = scheds, io_self = self, io_kernel = k\<rparr>"

section \<open>Invariant\<close>

text \<open>What the documentation of \<^verbatim>\<open>epoll_ctl\<close> promises: \<open>interest k\<close> is the interest list of the instance.\<close>

definition ctl_law :: "'k ctl \<Rightarrow> ('k \<Rightarrow> nat \<Rightarrow> u32 option) \<Rightarrow> bool" where
  "ctl_law ctl interest \<longleftrightarrow> (\<forall>op fd ev k ret k'. ctl op fd ev k = (ret, k') \<longrightarrow>
     interest k' = (if ret = 0 then (interest k)(fd := (if op = CTL_DEL then None else Some ev)) else interest k))"

definition has_event :: "event \<Rightarrow> fd_context \<Rightarrow> bool" where
  "has_event ev fc \<longleftrightarrow> fc_events fc AND ev \<noteq> 0"

definition waiting :: "event_context \<Rightarrow> bool" where
  "waiting c \<longleftrightarrow> ec_scheduler c \<noteq> None \<and> (ec_fiber c = None) \<noteq> (ec_cb c = None)"

definition vacant :: "event_context \<Rightarrow> bool" where
  "vacant c \<longleftrightarrow> ec_fiber c = None \<and> ec_cb c = None"

definition ctx_ok :: "fd_context \<Rightarrow> bool" where
  "ctx_ok fc \<longleftrightarrow> fc_events fc \<in> {0, 1, 4, 5}
     \<and> (if has_event READ fc then waiting (fc_read fc) else vacant (fc_read fc))
     \<and> (if has_event WRITE fc then waiting (fc_write fc) else vacant (fc_write fc))"

definition event_count :: "fd_context option \<Rightarrow> nat" where
  "event_count c = (case c of None \<Rightarrow> 0
     | Some fc \<Rightarrow> (if has_event READ fc then 1 else 0) + (if has_event WRITE fc then 1 else 0))"

definition wanted :: "fd_context \<Rightarrow> u32 option" where
  "wanted fc = (if fc_events fc = 0 then None else Some (EPOLLET OR fc_events fc))"

definition io_wf :: "('k \<Rightarrow> nat \<Rightarrow> u32 option) \<Rightarrow> 'k iomanager \<Rightarrow> bool" where
  "io_wf interest w \<longleftrightarrow>
     (\<forall>i<length (io_contexts w). \<forall>fc. io_contexts w ! i = Some fc \<longrightarrow>
        fc_fd fc = i \<and> ctx_ok fc \<and> interest (io_kernel w) i = wanted fc)
     \<and> io_pending w = sum_list (map event_count (io_contexts w))"

lemma sum_list_nat_update:
  "i < length xs \<Longrightarrow> sum_list (map f (xs[i := y])) + (f (xs ! i) :: nat) = sum_list (map f xs) + f y"
proof (induction xs arbitrary: i)
  case (Cons x xs)
  then show ?case by (cases i) fastforce+
qed simp

lemma io_wf_context:
  "io_wf interest w \<Longrightarrow> fd_context_at i w = Inr fc \<Longrightarrow>
   i < length (io_contexts w) \<and> io_contexts w ! i = Some fc \<and> fc_fd fc = i \<and> ctx_ok fc
   \<and> interest (io_kernel w) i = wanted fc"
  by (auto simp: fd_context_at_def io_wf_def split: if_splits option.splits)

lemma io_wf_count:
  assumes "io_wf interest w" and "fd_context_at i w = Inr fc"
  shows "event_count (Some fc) \<le> io_pending w"
proof -
  have "i < length (io_contexts w)" "io_contexts w ! i = Some fc"
    using io_wf_context [OF assms] by simp_all
  then have "event_count (Some fc) \<in> set (map event_count (io_contexts w))"
    by (metis image_eqI list.set_map nth_mem)
  then show ?thesis
    using assms(1) by (auto simp: io_wf_def intro: member_le_sum_list)
qed

lemma io_wf_update:
  assumes "io_wf interest w" and "fd_context_at i w = Inr fc"
    and "io_contexts w' = (io_contexts w)[i := Some fc']" and "fc_fd fc' = i" and "ctx_ok fc'"
    and "interest (io_kernel w') = (interest (io_kernel w))(i := wanted fc')"
    and "io_pending w' + event_count (Some fc) = io_pending w + event_count (Some fc')"
  shows "io_wf interest w'"
proof -
  note c = io_wf_context [OF assms(1,2)]
  have "sum_list (map event_count (io_contexts w')) + event_count (Some fc)
      = sum_list (map event_count (io_contexts w)) + event_count (Some fc')"
    using sum_list_nat_update [of i "io_contexts w" event_count "Some fc'"] c assms(3) by simp
  then have "io_pending w' = sum_list (map event_count (io_contexts w'))"
    using assms(1,7) by (simp add: io_wf_def)
  then show ?thesis
    using assms c by (auto simp: io_wf_def nth_list_update)
qed

lemma io_wf_same:
  "io_wf interest w \<Longrightarrow> io_contexts w' = io_contexts w \<Longrightarrow> io_pending w' = io_pending w \<Longrightarrow>
   interest (io_kernel w') = interest (io_kernel w) \<Longrightarrow> io_wf interest w'"
  by (simp add: io_wf_def)

definition cleared :: "event \<Rightarrow> fd_context \<Rightarrow> fd_context" where
  "cleared ev fc = (let fc1 = fc\<lparr>fc_events := fc_events fc AND NOT ev\<rparr> in
     if ev = READ then fc1\<lparr>fc_read := (fc_read fc)\<lparr>ec_fiber := None, ec_cb := None\<rparr>\<rparr>
     else fc1\<lparr>fc_write := (fc_write fc)\<lparr>ec_fiber := None, ec_cb := None\<rparr>\<rparr>)"

text \<open>The task that the registered continuation of an event becomes.\<close>

definition continuation :: "event \<Rightarrow> fd_context \<Rightarrow> nat \<times> fiber_or_cb" where
  "continuation ev fc = (let c = (if ev = READ then fc_read fc else fc_write fc) in
     (the (ec_scheduler c), if ec_cb c \<noteq> None then Cb_task (ec_cb c) else Fiber_task (ec_fiber c)))"

lemma fd_context_put [simp]:
  "i < length (io_contexts w) \<Longrightarrow> fd_context_at i (put_context i fc w) = Inr fc"
  by (simp add: fd_context_at_def put_context_def)

lemma event_ne: "READ \<noteq> WRITE" "WRITE \<noteq> READ"
  by (simp_all add: event_bits)

lemma ctx_cases:
  assumes "ctx_ok fc"
  obtains "fc_events fc = 0" | "fc_events fc = 1" | "fc_events fc = 4" | "fc_events fc = 5"
  using assms by (auto simp: ctx_ok_def)

lemma triggerEvent_spec:
  assumes "fd_context_at i w = Inr fc" and "ctx_ok fc" and "ev = READ \<or> ev = WRITE" and "has_event ev fc"
  shows "triggerEvent ev i w = Inr (io_schedule (fst (continuation ev fc)) (snd (continuation ev fc))
           (put_context i (cleared ev fc) w))"
proof -
  let ?c = "if ev = READ then fc_read fc else fc_write fc"
  have wt: "waiting ?c" using assms by (auto simp: ctx_ok_def)
  then obtain s where s: "ec_scheduler ?c = Some s" by (auto simp: waiting_def)
  have one: "(ec_fiber ?c = None) \<noteq> (ec_cb ?c = None)" using wt by (simp add: waiting_def)
  obtain r1 r2 r3 where r: "fc_read fc = \<lparr>ec_scheduler = r1, ec_fiber = r2, ec_cb = r3\<rparr>"
    by (cases "fc_read fc") auto
  obtain w1 w2 w3 where wr: "fc_write fc = \<lparr>ec_scheduler = w1, ec_fiber = w2, ec_cb = w3\<rparr>"
    by (cases "fc_write fc") auto
  show ?thesis
    using assms(1,3,4) s one
    by (cases "ev = READ"; cases "ec_cb ?c = None")
      (auto simp: triggerEvent_def io_assert_def has_event_def Let_def getContext_def setContext_def
        continuation_def cleared_def event_ne r wr)
qed

lemma io_schedule_simps [simp]:
  "io_contexts (io_schedule s fc w) = io_contexts w" "io_pending (io_schedule s fc w) = io_pending w"
  "io_kernel (io_schedule s fc w) = io_kernel w" "io_timers (io_schedule s fc w) = io_timers w"
  "io_self (io_schedule s fc w) = io_self w"
  by (simp_all add: io_schedule_def)

lemma put_context_simps [simp]:
  "io_contexts (put_context i fc w) = (io_contexts w)[i := Some fc]" "io_pending (put_context i fc w) = io_pending w"
  "io_kernel (put_context i fc w) = io_kernel w" "io_scheds (put_context i fc w) = io_scheds w"
  by (simp_all add: put_context_def)

lemma cleared_ok:
  assumes "ctx_ok fc" and "ev = READ \<or> ev = WRITE" and "has_event ev fc"
  shows "ctx_ok (cleared ev fc)" and "fc_fd (cleared ev fc) = fc_fd fc"
    and "fc_events (cleared ev fc) = fc_events fc AND NOT ev"
    and "event_count (Some (cleared ev fc)) + 1 = event_count (Some fc)"
    and "has_event READ (cleared ev fc) \<longleftrightarrow> ev \<noteq> READ \<and> has_event READ fc"
    and "has_event WRITE (cleared ev fc) \<longleftrightarrow> ev \<noteq> WRITE \<and> has_event WRITE fc"
proof -
  show "fc_fd (cleared ev fc) = fc_fd fc" "fc_events (cleared ev fc) = fc_events fc AND NOT ev"
    by (simp_all add: cleared_def Let_def)
  have "ctx_ok (cleared ev fc) \<and> event_count (Some (cleared ev fc)) + 1 = event_count (Some fc)
    \<and> (has_event READ (cleared ev fc) \<longleftrightarrow> ev \<noteq> READ \<and> has_event READ fc)
    \<and> (has_event WRITE (cleared ev fc) \<longleftrightarrow> ev \<noteq> WRITE \<and> has_event WRITE fc)"
    using assms(1)
  proof (cases rule: ctx_cases)
    case 1
    then show ?thesis using assms(2,3) by (auto simp: has_event_def)
  next
    case 2
    then show ?thesis using assms
      by (auto simp: ctx_ok_def has_event_def cleared_def Let_def event_bits vacant_def event_count_def)
  next
    case 3
    then show ?thesis using assms
      by (auto simp: ctx_ok_def has_event_def cleared_def Let_def event_bits vacant_def event_count_def)
  next
    case 4
    then show ?thesis using assms
      by (auto simp: ctx_ok_def has_event_def cleared_def Let_def event_bits vacant_def event_count_def)
  qed
  then show "ctx_ok (cleared ev fc)" "event_count (Some (cleared ev fc)) + 1 = event_count (Some fc)"
    "has_event READ (cleared ev fc) \<longleftrightarrow> ev \<noteq> READ \<and> has_event READ fc"
    "has_event WRITE (cleared ev fc) \<longleftrightarrow> ev \<noteq> WRITE \<and> has_event WRITE fc" by simp_all
qed

section \<open>Each operation keeps the invariant\<close>

lemma fd_context_lt:
  assumes "fd_context_at i w = Inr fc"
  shows "i < length (io_contexts w) \<and> io_contexts w ! i = Some fc \<and> (io_contexts w)[i := Some fc] = io_contexts w"
proof -
  have "i < length (io_contexts w) \<and> io_contexts w ! i = Some fc"
    using assms by (auto simp: fd_context_at_def split: if_splits option.splits)
  then show ?thesis by (metis list_update_id)
qed

lemma fd_context_same [simp]:
  "fd_context_at i (w\<lparr>io_kernel := k\<rparr>) = fd_context_at i w"
  "fd_context_at i (w\<lparr>io_kernel := k, io_pending := p\<rparr>) = fd_context_at i w"
  "fd_context_at i (w\<lparr>io_timers := tm\<rparr>) = fd_context_at i w"
  "fd_context_at i (w\<lparr>io_timers := tm, io_scheds := ss\<rparr>) = fd_context_at i w"
  by (simp_all add: fd_context_at_def)

lemma trigger_if_spec:
  assumes "fd_context_at i w = Inr fc" and "ctx_ok fc" and "ev = READ \<or> ev = WRITE" and "cond \<longleftrightarrow> has_event ev fc"
  shows "\<exists>w'. trigger_if cond ev i w = Inr w'
     \<and> io_contexts w' = (io_contexts w)[i := Some (if cond then cleared ev fc else fc)]
     \<and> io_kernel w' = io_kernel w \<and> io_pending w' = io_pending w - (if cond then 1 else 0)
     \<and> fd_context_at i w' = Inr (if cond then cleared ev fc else fc)
     \<and> io_scheds w' = (if cond then io_scheds (io_schedule (fst (continuation ev fc)) (snd (continuation ev fc)) w)
          else io_scheds w)"
proof (cases cond)
  case True
  note t = triggerEvent_spec [OF assms(1,2,3)]
  then show ?thesis using True assms(4) fd_context_lt [OF assms(1)]
    by (simp add: trigger_if_def fd_context_at_def) (simp add: io_schedule_def)
next
  case False
  then show ?thesis using fd_context_lt [OF assms(1)] assms(1) by (simp add: trigger_if_def)
qed

lemma events_clear_zero:
  assumes "ctx_ok fc" and "\<not> has_event READ fc" and "\<not> has_event WRITE fc"
  shows "fc_events fc = 0"
  using assms(1) by (cases rule: ctx_cases) (use assms in \<open>auto simp: has_event_def event_bits\<close>)

text \<open>Two conditional triggers in a row, as in \<^verbatim>\<open>cancelAll\<close> and \<^verbatim>\<open>idle\<close>.\<close>

lemma trigger_both:
  assumes "fd_context_at i w = Inr fc" and "ctx_ok fc" and "event_count (Some fc) \<le> io_pending w"
    and "r \<longrightarrow> has_event READ fc" and "wr \<longrightarrow> has_event WRITE fc"
  shows "\<exists>w2 w3 fc2 fc3. trigger_if r READ i w = Inr w2 \<and> fd_context_at i w2 = Inr fc2
     \<and> (has_event WRITE fc2 \<longleftrightarrow> has_event WRITE fc)
     \<and> trigger_if wr WRITE i w2 = Inr w3 \<and> fd_context_at i w3 = Inr fc3
     \<and> io_contexts w3 = (io_contexts w)[i := Some fc3] \<and> io_kernel w3 = io_kernel w
     \<and> io_pending w3 + event_count (Some fc) = io_pending w + event_count (Some fc3)
     \<and> fc_fd fc3 = fc_fd fc \<and> ctx_ok fc3
     \<and> (has_event READ fc3 \<longleftrightarrow> has_event READ fc \<and> \<not> r) \<and> (has_event WRITE fc3 \<longleftrightarrow> has_event WRITE fc \<and> \<not> wr)"
proof -
  define fc2 where "fc2 = (if r then cleared READ fc else fc)"
  define fc3 where "fc3 = (if wr then cleared WRITE fc2 else fc2)"
  have t1: "\<exists>w'. trigger_if r READ i w = Inr w' \<and> io_contexts w' = (io_contexts w)[i := Some fc2]
      \<and> io_kernel w' = io_kernel w \<and> io_pending w' = io_pending w - (if r then 1 else 0) \<and> fd_context_at i w' = Inr fc2"
  proof (cases r)
    case True
    then show ?thesis using trigger_if_spec [OF assms(1,2), of READ r] assms(4) by (auto simp: fc2_def)
  next
    case False
    then show ?thesis using fd_context_lt [OF assms(1)] assms(1) by (simp add: trigger_if_def fc2_def)
  qed
  then obtain w2 where w2: "trigger_if r READ i w = Inr w2" "io_contexts w2 = (io_contexts w)[i := Some fc2]"
      "io_kernel w2 = io_kernel w" "io_pending w2 = io_pending w - (if r then 1 else 0)" "fd_context_at i w2 = Inr fc2"
    by blast
  have ok2: "ctx_ok fc2" "fc_fd fc2 = fc_fd fc" "event_count (Some fc2) + (if r then 1 else 0) = event_count (Some fc)"
    "has_event READ fc2 \<longleftrightarrow> has_event READ fc \<and> \<not> r" "has_event WRITE fc2 \<longleftrightarrow> has_event WRITE fc"
    using assms(2,4) cleared_ok [OF assms(2), of READ] event_ne by (auto simp: fc2_def)
  have t2: "\<exists>w'. trigger_if wr WRITE i w2 = Inr w' \<and> io_contexts w' = (io_contexts w2)[i := Some fc3]
      \<and> io_kernel w' = io_kernel w2 \<and> io_pending w' = io_pending w2 - (if wr then 1 else 0) \<and> fd_context_at i w' = Inr fc3"
  proof (cases wr)
    case True
    then show ?thesis using trigger_if_spec [OF w2(5) ok2(1), of WRITE wr] assms(5) ok2(5) by (auto simp: fc3_def)
  next
    case False
    then show ?thesis using fd_context_lt [OF w2(5)] w2(5) by (simp add: trigger_if_def fc3_def)
  qed
  then obtain w3 where w3: "trigger_if wr WRITE i w2 = Inr w3" "io_contexts w3 = (io_contexts w2)[i := Some fc3]"
      "io_kernel w3 = io_kernel w2" "io_pending w3 = io_pending w2 - (if wr then 1 else 0)" "fd_context_at i w3 = Inr fc3"
    by blast
  have ok3: "ctx_ok fc3" "fc_fd fc3 = fc_fd fc" "event_count (Some fc3) + (if wr then 1 else 0) = event_count (Some fc2)"
    "has_event READ fc3 \<longleftrightarrow> has_event READ fc2" "has_event WRITE fc3 \<longleftrightarrow> has_event WRITE fc \<and> \<not> wr"
    using assms(5) cleared_ok [OF ok2(1), of WRITE] ok2 event_ne by (auto simp: fc3_def)
  have "io_pending w3 + event_count (Some fc) = io_pending w + event_count (Some fc3)"
    using w2(4) w3(4) ok2(3) ok3(3) assms(3) by (auto split: if_splits)
  with w2 w3 ok2 ok3 show ?thesis
    by (intro exI [of _ w2] exI [of _ w3] exI [of _ fc2] exI [of _ fc3]) simp
qed

lemma addEvent_inv:
  assumes "io_wf interest w" and "ctl_law ctl interest" and "event = READ \<or> event = WRITE" and "sched \<noteq> None"
    and "addEvent ctl sched cur cur_state fd event cb w = Inr (ret, w')"
  shows "io_wf interest w'"
proof -
  have fd: "0 \<le> fd" using assms(5) by (auto simp: addEvent_def split: if_splits)
  have len: "fd < int (length (io_contexts w))"
    using assms(5) fd by (auto simp: addEvent_def fd_context_at_def Let_def nth_append split: if_splits option.splits)
  obtain fc where fc: "fd_context_at (nat fd) w = Inr fc" "\<not> has_event event fc"
    using assms(5) fd len
    by (auto simp: addEvent_def Let_def bindE_Inr_iff io_assert_def has_event_def split: if_splits)
  note c = io_wf_context [OF assms(1) fc(1)]
  let ?op = "if fc_events fc \<noteq> 0 then CTL_MOD else CTL_ADD"
  obtain r k where ctl: "ctl ?op (nat fd) (EPOLLET OR fc_events fc OR event) (io_kernel w) = (r, k)" by force
  note law = assms(2) [unfolded ctl_law_def, rule_format, OF ctl]
  show ?thesis
  proof (cases "r = 0")
    case False
    then have "w' = w\<lparr>io_kernel := k\<rparr>"
      using assms(5) fd len fc ctl
      by (simp add: addEvent_def Let_def io_assert_def has_event_def)
    then show ?thesis using law False by (intro io_wf_same [OF assms(1)]) simp_all
  next
    case True
    let ?ctx = "\<lparr>ec_scheduler = sched, ec_fiber = (if cb \<noteq> None then None else Some cur), ec_cb = cb\<rparr>"
    let ?fc = "setContext event ?ctx (fc\<lparr>fc_events := fc_events fc OR event\<rparr>)"
    have w': "w' = put_context (nat fd) ?fc (w\<lparr>io_kernel := k, io_pending := io_pending w + 1\<rparr>)"
      using assms(5) fd len fc ctl True
      by (cases "cb = None") (auto simp: addEvent_def Let_def io_assert_def has_event_def bindE_Inr_iff split: if_splits)
    have ok: "ctx_ok ?fc \<and> event_count (Some ?fc) = event_count (Some fc) + 1 \<and> fc_events ?fc = fc_events fc OR event
        \<and> fc_events ?fc \<noteq> 0"
      using conjunct1 [OF conjunct2 [OF conjunct2 [OF conjunct2 [OF c]]]]
    proof (cases rule: ctx_cases)
      case 1
      then show ?thesis using assms(3,4) c
        by (auto simp: ctx_ok_def has_event_def setContext_def event_bits waiting_def event_count_def)
    next
      case 2
      then show ?thesis using assms(3,4) c fc(2)
        by (auto simp: ctx_ok_def has_event_def setContext_def event_bits waiting_def event_count_def)
    next
      case 3
      then show ?thesis using assms(3,4) c fc(2)
        by (auto simp: ctx_ok_def has_event_def setContext_def event_bits waiting_def event_count_def)
    next
      case 4
      then show ?thesis using assms(3) fc(2) by (auto simp: has_event_def event_bits)
    qed
    have int: "interest k = (interest (io_kernel w))(nat fd := wanted ?fc)"
      using law True ok by (auto simp: wanted_def split: if_splits)
    show ?thesis
    proof (rule io_wf_update [OF assms(1) fc(1)])
      show "io_contexts w' = (io_contexts w)[nat fd := Some ?fc]" by (simp add: w')
      show "fc_fd ?fc = nat fd" using c by (simp add: setContext_def)
      show "interest (io_kernel w') = (interest (io_kernel w))(nat fd := wanted ?fc)" using int by (simp add: w')
      show "io_pending w' + event_count (Some fc) = io_pending w + event_count (Some ?fc)" using ok by (simp add: w')
    qed (use ok in simp)
  qed
qed

lemma drop_event_cases:
  assumes "drop_event ctl fd event w = Inr (ok, w1)" and "ctl_law ctl interest"
  obtains "\<not> ok" and "io_contexts w1 = io_contexts w" and "io_pending w1 = io_pending w"
      and "interest (io_kernel w1) = interest (io_kernel w)"
    | fc k where "ok" and "0 \<le> fd" and "fd_context_at (nat fd) w = Inr fc" and "has_event event fc"
      and "ctl (if fc_events fc AND NOT event \<noteq> 0 then CTL_MOD else CTL_DEL) (nat fd)
             (EPOLLET OR (fc_events fc AND NOT event)) (io_kernel w) = (0, k)"
      and "w1 = w\<lparr>io_kernel := k, io_pending := io_pending w - 1\<rparr>"
proof (cases "int (length (io_contexts w)) \<le> fd \<or> (\<exists>fc. fd_context_at (nat fd) w = Inr fc \<and> \<not> has_event event fc)")
  case True
  then have "\<not> ok \<and> w1 = w"
    using assms by (auto simp: drop_event_def has_event_def bindE_Inr_iff split: if_splits)
  then show ?thesis using that(1) by simp
next
  case False
  then obtain fc where fc: "0 \<le> fd" "fd_context_at (nat fd) w = Inr fc" "has_event event fc"
    using assms by (auto simp: drop_event_def bindE_Inr_iff split: if_splits)
  let ?ne = "fc_events fc AND NOT event"
  obtain r k where ctl: "ctl (if ?ne \<noteq> 0 then CTL_MOD else CTL_DEL) (nat fd) (EPOLLET OR ?ne) (io_kernel w) = (r, k)"
    by force
  show ?thesis
  proof (cases "r = 0")
    case True
    then have "ok \<and> w1 = w\<lparr>io_kernel := k, io_pending := io_pending w - 1\<rparr>"
      using assms False fc ctl by (auto simp: drop_event_def has_event_def Let_def)
    then show ?thesis using that(2) fc ctl True by simp
  next
    case r: False
    then have "\<not> ok \<and> w1 = w\<lparr>io_kernel := k\<rparr>"
      using assms False fc ctl by (auto simp: drop_event_def has_event_def Let_def)
    moreover have "interest k = interest (io_kernel w)"
      using assms(2) [unfolded ctl_law_def, rule_format, OF ctl] r by simp
    ultimately show ?thesis using that(1) by simp
  qed
qed

lemma cleared_update:
  assumes "io_wf interest w" and "fd_context_at i w = Inr fc" and "has_event ev fc" and "ev = READ \<or> ev = WRITE"
    and "interest k = (interest (io_kernel w))(i := (if fc_events fc AND NOT ev = 0 then None else Some (EPOLLET OR (fc_events fc AND NOT ev))))"
    and "io_contexts w' = (io_contexts w)[i := Some fc']" and "io_kernel w' = k" and "io_pending w' = io_pending w - 1"
    and "ctx_ok fc'" and "fc_fd fc' = i" and "fc_events fc' = fc_events fc AND NOT ev"
    and "event_count (Some fc') + 1 = event_count (Some fc)"
  shows "io_wf interest w'"
proof (rule io_wf_update [OF assms(1,2,6,10,9)])
  show "interest (io_kernel w') = (interest (io_kernel w))(i := wanted fc')"
    unfolding assms(7) assms(5) by (simp only: wanted_def assms(11))
  show "io_pending w' + event_count (Some fc) = io_pending w + event_count (Some fc')"
    using io_wf_count [OF assms(1,2)] assms(8,12) by linarith
qed

lemma ctx_ok_same_events:
  assumes "ctx_ok a" and "fc_events b = fc_events a"
    and "has_event READ a \<and> fc_read b = fc_read a \<or> \<not> has_event READ a \<and> vacant (fc_read b)"
    and "has_event WRITE a \<and> fc_write b = fc_write a \<or> \<not> has_event WRITE a \<and> vacant (fc_write b)"
  shows "ctx_ok b \<and> event_count (Some b) = event_count (Some a)"
proof -
  have "has_event e b = has_event e a" for e using assms(2) by (simp add: has_event_def)
  then have h: "has_event READ b = has_event READ a" "has_event WRITE b = has_event WRITE a" by simp_all
  have "if has_event READ b then waiting (fc_read b) else vacant (fc_read b)"
    using assms(1,3) h by (cases "has_event READ a") (simp_all add: ctx_ok_def)
  moreover have "if has_event WRITE b then waiting (fc_write b) else vacant (fc_write b)"
    using assms(1,4) h by (cases "has_event WRITE a") (simp_all add: ctx_ok_def)
  moreover have "fc_events b \<in> {0, 1, 4, 5}" using assms(1,2) by (simp add: ctx_ok_def)
  ultimately have "ctx_ok b" unfolding ctx_ok_def by blast
  then show ?thesis by (simp add: event_count_def h)
qed

lemma delEvent_inv:
  assumes "io_wf interest w" and "ctl_law ctl interest" and "event = READ \<or> event = WRITE"
    and "delEvent ctl fd event w = Inr (ok, w')"
  shows "io_wf interest w'"
proof -
  obtain ok1 w1 where d: "drop_event ctl fd event w = Inr (ok1, w1)"
    using assms(4) by (auto simp: delEvent_def bindE_Inr_iff)
  from d assms(2) show ?thesis
  proof (cases rule: drop_event_cases)
    case 1
    then have "w' = w1" using assms(4) d by (simp add: delEvent_def)
    then show ?thesis using 1 by (intro io_wf_same [OF assms(1)]) simp_all
  next
    case (2 fc k)
    note c = io_wf_context [OF assms(1) 2(3)]
    let ?fc = "setContext event (resetContext undefined) (fc\<lparr>fc_events := fc_events fc AND NOT event\<rparr>)"
    have at: "fd_context_at (nat fd) w1 = Inr fc" using 2 by simp
    have w': "w' = put_context (nat fd) ?fc w1"
      using assms(3,4) d 2(1) at event_ne by (auto simp: delEvent_def getContext_def resetContext_def Let_def)
    note cl = cleared_ok [OF _ assms(3) 2(4)] 
    have ok: "ctx_ok ?fc \<and> event_count (Some ?fc) = event_count (Some (cleared event fc))"
    proof -
      have ev: "fc_events ?fc = fc_events (cleared event fc)"
        by (simp add: setContext_def cleared_def Let_def)
      have vac: "\<not> has_event READ fc \<Longrightarrow> vacant (fc_read fc)" "\<not> has_event WRITE fc \<Longrightarrow> vacant (fc_write fc)"
        using c by (auto simp: ctx_ok_def)
      have "ctx_ok (cleared event fc)" using cl(1) c by blast
      then show ?thesis
        by (rule ctx_ok_same_events [OF _ ev])
          (use cl(5,6) c assms(3) event_ne vac in \<open>auto simp: vacant_def resetContext_def setContext_def cleared_def Let_def\<close>)
    qed
    have int: "interest k = (interest (io_kernel w))(nat fd := (if fc_events fc AND NOT event = 0 then None
        else Some (EPOLLET OR (fc_events fc AND NOT event))))"
      using assms(2) [unfolded ctl_law_def, rule_format, OF 2(5)] by (auto split: if_splits)
    show ?thesis
    proof (rule cleared_update [where fc' = ?fc, OF assms(1) 2(3,4) assms(3) int])
      show "io_contexts w' = (io_contexts w)[nat fd := Some ?fc]" using 2 by (simp add: w')
      show "io_kernel w' = k" "io_pending w' = io_pending w - 1" using 2 by (simp_all add: w')
      show "ctx_ok ?fc" using ok by simp
      show "fc_fd ?fc = nat fd" "fc_events ?fc = fc_events fc AND NOT event" using c by (simp_all add: setContext_def)
      show "event_count (Some ?fc) + 1 = event_count (Some fc)" using ok cl(4) c by simp
    qed
  qed
qed

lemma cancelEvent_inv:
  assumes "io_wf interest w" and "ctl_law ctl interest" and "event = READ \<or> event = WRITE"
    and "cancelEvent ctl fd event w = Inr (ok, w')"
  shows "io_wf interest w'"
proof -
  obtain ok1 w1 where d: "drop_event ctl fd event w = Inr (ok1, w1)"
    using assms(4) by (auto simp: cancelEvent_def bindE_Inr_iff)
  from d assms(2) show ?thesis
  proof (cases rule: drop_event_cases)
    case 1
    then have "w' = w1" using assms(4) d by (simp add: cancelEvent_def)
    then show ?thesis using 1 by (intro io_wf_same [OF assms(1)]) simp_all
  next
    case (2 fc k)
    note c = io_wf_context [OF assms(1) 2(3)]
    have ctx: "ctx_ok fc" using c by simp
    have at: "fd_context_at (nat fd) w1 = Inr fc" using 2 by simp
    have w': "w' = io_schedule (fst (continuation event fc)) (snd (continuation event fc)) (put_context (nat fd) (cleared event fc) w1)"
      using assms(4) d 2(1) triggerEvent_spec [OF at ctx assms(3) 2(4)] by (simp add: cancelEvent_def)
    have int: "interest k = (interest (io_kernel w))(nat fd := (if fc_events fc AND NOT event = 0 then None
        else Some (EPOLLET OR (fc_events fc AND NOT event))))"
      using assms(2) [unfolded ctl_law_def, rule_format, OF 2(5)] by (auto split: if_splits)
    show ?thesis
      by (rule cleared_update [where fc' = "cleared event fc", OF assms(1) 2(3,4) assms(3) int])
        (use 2 c cleared_ok [OF ctx assms(3) 2(4)] in \<open>auto simp: w'\<close>)
  qed
qed

lemma trigger_needs:
  "trigger_if cond ev i w = Inr w' \<Longrightarrow> fd_context_at i w = Inr fc \<Longrightarrow> cond \<longrightarrow> has_event ev fc"
  by (auto simp: trigger_if_def triggerEvent_def bindE_Inr_iff io_assert_def has_event_def split: if_splits)

lemma events_mask:
  assumes "ctx_ok fc3" and "ctx_ok fc" and "has_event READ fc3 \<longleftrightarrow> has_event READ fc \<and> \<not> r"
    and "has_event WRITE fc3 \<longleftrightarrow> has_event WRITE fc \<and> \<not> wr"
  shows "fc_events fc3 = fc_events fc AND NOT ((if r then READ else NONE) OR (if wr then WRITE else NONE))"
  using assms(1)
proof (cases rule: ctx_cases)
  case 1
  with assms(2) show ?thesis
    by (cases rule: ctx_cases) (use 1 assms in \<open>auto simp: has_event_def event_bits split: if_splits\<close>)
next
  case 2
  with assms(2) show ?thesis
    by (cases rule: ctx_cases) (use 2 assms in \<open>auto simp: has_event_def event_bits split: if_splits\<close>)
next
  case 3
  with assms(2) show ?thesis
    by (cases rule: ctx_cases) (use 3 assms in \<open>auto simp: has_event_def event_bits split: if_splits\<close>)
next
  case 4
  with assms(2) show ?thesis
    by (cases rule: ctx_cases) (use 4 assms in \<open>auto simp: has_event_def event_bits split: if_splits\<close>)
qed

lemma cancelAll_cases:
  assumes "cancelAll ctl fd w = Inr (ok, w')"
  obtains "\<not> ok" and "w' = w"
    | r k where "\<not> ok" and "ctl CTL_DEL (nat fd) 0 (io_kernel w) = (r, k)" and "r \<noteq> 0" and "w' = w\<lparr>io_kernel := k\<rparr>"
    | fc k where "0 \<le> fd" and "fd_context_at (nat fd) w = Inr fc" and "fc_events fc \<noteq> 0"
      and "ctl CTL_DEL (nat fd) 0 (io_kernel w) = (0, k)"
      and "bindE (trigger_if (fc_events fc AND READ \<noteq> 0) READ (nat fd) (w\<lparr>io_kernel := k\<rparr>)) (\<lambda>w2.
               bindE (fd_context_at (nat fd) w2) (\<lambda>fc2.
               bindE (trigger_if (fc_events fc2 AND WRITE \<noteq> 0) WRITE (nat fd) w2) (\<lambda>w3.
               bindE (fd_context_at (nat fd) w3) (\<lambda>fc3.
               bindE (io_assert (fc_events fc3 = NONE) ''fd_ctx->events == NONE'') (\<lambda>_.
                 Inr (True, w3)))))) = Inr (ok, w')"
proof (cases "int (length (io_contexts w)) \<le> fd")
  case True
  then show ?thesis using assms that(1) by (simp add: cancelAll_def)
next
  case len: False
  then have fd: "0 \<le> fd" using assms by (cases "fd < 0") (simp_all add: cancelAll_def)
  obtain fc where fc: "fd_context_at (nat fd) w = Inr fc"
    using assms len fd by (cases "fd_context_at (nat fd) w") (simp_all add: cancelAll_def)
  obtain r k where ctl: "ctl CTL_DEL (nat fd) 0 (io_kernel w) = (r, k)" by force
  show ?thesis
  proof (cases "fc_events fc = 0")
    case True
    then show ?thesis using assms that(1) len fd fc by (simp add: cancelAll_def)
  next
    case ev: False
    show ?thesis
    proof (cases "r = 0")
      case True
      then show ?thesis using assms that(3) [OF fd fc ev] len fd fc ev ctl by (simp add: cancelAll_def Let_def)
    next
      case False
      then show ?thesis using assms that(2) [OF _ ctl False] len fd fc ev ctl by (simp add: cancelAll_def Let_def)
    qed
  qed
qed

lemma cancelAll_spec:
  assumes "io_wf interest w" and "ctl_law ctl interest" and "cancelAll ctl fd w = Inr (ok, w')"
  shows "io_wf interest w' \<and> (ok \<longrightarrow> (\<exists>fc. fd_context_at (nat fd) w' = Inr fc \<and> fc_events fc = 0 \<and> interest (io_kernel w') (nat fd) = None))"
  using assms(3)
proof (cases rule: cancelAll_cases)
  case 1
  then show ?thesis using assms(1) by simp
next
  case (2 r k)
  have "interest k = interest (io_kernel w)"
    using assms(2) [unfolded ctl_law_def, rule_format, OF 2(2)] 2(3) by simp
  then show ?thesis using 2 by (auto intro: io_wf_same [OF assms(1)])
next
  case (3 fc k)
  note fc = 3(1-4)
  note c = io_wf_context [OF assms(1) fc(2)]
  let ?w1 = "w\<lparr>io_kernel := k\<rparr>"
  have at: "fd_context_at (nat fd) ?w1 = Inr fc" using fc by simp
  have "event_count (Some fc) \<le> io_pending ?w1" using io_wf_count [OF assms(1) fc(2)] by simp
  from trigger_both [OF at _ this, of "has_event READ fc" "has_event WRITE fc"] c obtain w2 w3 fc2 fc3 where
    t: "trigger_if (has_event READ fc) READ (nat fd) ?w1 = Inr w2" "fd_context_at (nat fd) w2 = Inr fc2"
      "has_event WRITE fc2 \<longleftrightarrow> has_event WRITE fc" "trigger_if (has_event WRITE fc) WRITE (nat fd) w2 = Inr w3"
      "fd_context_at (nat fd) w3 = Inr fc3" "io_contexts w3 = (io_contexts w)[nat fd := Some fc3]" "io_kernel w3 = k"
      "io_pending w3 + event_count (Some fc) = io_pending w + event_count (Some fc3)" "fc_fd fc3 = fc_fd fc" "ctx_ok fc3"
      "\<not> has_event READ fc3" "\<not> has_event WRITE fc3" by auto
  have z: "fc_events fc3 = 0" by (rule events_clear_zero [OF t(10,11,12)])
  have "w' = w3"
    using 3(5) t(1-5) z by (simp add: has_event_def io_assert_def NONE_def)
  moreover have "interest k = (interest (io_kernel w))(nat fd := wanted fc3)"
    using assms(2) [unfolded ctl_law_def, rule_format, OF fc(4)] z by (simp add: wanted_def)
  ultimately show ?thesis
    using io_wf_update [OF assms(1) fc(2), of w' fc3] t z c by (simp add: wanted_def)
qed

lemma handle_ready_inv:
  assumes "io_wf interest w" and "ctl_law ctl interest" and "handle_ready ctl r w = Inr w'"
  shows "io_wf interest w'"
proof (cases r)
  case Tickle_ready
  then show ?thesis using assms by simp
next
  case (Fd_ready i ev0)
  define ev where "ev = (if ev0 AND (EPOLLERR OR EPOLLHUP) \<noteq> 0 then ev0 OR (EPOLLIN OR EPOLLOUT) else ev0)"
  define real where "real = (if ev AND EPOLLIN \<noteq> 0 then READ else NONE) OR (if ev AND EPOLLOUT \<noteq> 0 then WRITE else NONE)"
  obtain fc where fc: "fd_context_at i w = Inr fc"
    using assms(3) Fd_ready by (auto simp: bindE_Inr_iff)
  note c = io_wf_context [OF assms(1) fc]
  let ?left = "fc_events fc AND NOT real"
  obtain ret k where ctl: "ctl (if ?left \<noteq> 0 then CTL_MOD else CTL_DEL) i (EPOLLET OR ?left) (io_kernel w) = (ret, k)" by force
  note law = assms(2) [unfolded ctl_law_def, rule_format, OF ctl]
  note h = assms(3) [unfolded Fd_ready handle_ready.simps Let_def, folded ev_def, folded real_def]
  consider "w' = w" | "ret \<noteq> 0" "w' = w\<lparr>io_kernel := k\<rparr>"
    | "ret = 0" "bindE (trigger_if (real AND READ \<noteq> 0) READ i (w\<lparr>io_kernel := k\<rparr>)) (trigger_if (real AND WRITE \<noteq> 0) WRITE i) = Inr w'"
    using h fc c ctl by (auto split: if_splits)
  then show ?thesis
  proof cases
    case 1
    then show ?thesis using assms(1) by simp
  next
    case 2
    then show ?thesis using law by (intro io_wf_same [OF assms(1)]) simp_all
  next
    case 3
    let ?r = "real AND READ \<noteq> 0" and ?wr = "real AND WRITE \<noteq> 0"
    let ?w1 = "w\<lparr>io_kernel := k\<rparr>"
    have at: "fd_context_at i ?w1 = Inr fc" using fc by simp
    obtain w2 where t1: "trigger_if ?r READ i ?w1 = Inr w2" and t2: "trigger_if ?wr WRITE i w2 = Inr w'"
      using 3(2) by (auto simp: bindE_Inr_iff)
    have r: "?r \<longrightarrow> has_event READ fc" by (rule trigger_needs [OF t1 at])
    have cnt: "event_count (Some fc) \<le> io_pending ?w1" using io_wf_count [OF assms(1) fc] by simp
    have wr: "?wr \<longrightarrow> has_event WRITE fc"
    proof -
      from trigger_both [OF at _ cnt r, of False] c t1 obtain fc2 where
        "fd_context_at i w2 = Inr fc2" "has_event WRITE fc2 \<longleftrightarrow> has_event WRITE fc" by auto
      with trigger_needs [OF t2] show ?thesis by blast
    qed
    from trigger_both [OF at _ cnt r wr] c t1 t2 obtain fc3 where
      t: "io_contexts w' = (io_contexts w)[i := Some fc3]" "io_kernel w' = k"
        "io_pending w' + event_count (Some fc) = io_pending w + event_count (Some fc3)" "fc_fd fc3 = fc_fd fc" "ctx_ok fc3"
        "has_event READ fc3 \<longleftrightarrow> has_event READ fc \<and> \<not> ?r" "has_event WRITE fc3 \<longleftrightarrow> has_event WRITE fc \<and> \<not> ?wr"
      by auto
    have "real = (if ?r then READ else NONE) OR (if ?wr then WRITE else NONE)"
      by (auto simp: real_def event_bits)
    then have "fc_events fc3 = ?left" using events_mask [OF t(5) _ t(6,7)] c by metis
    then have "interest k = (interest (io_kernel w))(i := wanted fc3)"
      using law 3(1) by (auto simp: wanted_def split: if_splits)
    then show ?thesis
      using io_wf_update [OF assms(1) fc, of w' fc3] t c by simp
  qed
qed

lemma handle_all_inv:
  "io_wf interest w \<Longrightarrow> ctl_law ctl interest \<Longrightarrow> handle_all ctl rs w = Inr w' \<Longrightarrow> io_wf interest w'"
  by (induction rs arbitrary: w) (auto simp: bindE_Inr_iff dest: handle_ready_inv)

lemma idle_turn_inv:
  assumes "io_wf interest w" and "ctl_law ctl interest" and "idle_turn ctl closure s now events w = Inr w'"
  shows "io_wf interest w'"
proof -
  obtain cbs tm where l: "listExpiredCb s now (io_timers w) = (cbs, tm)" by force
  from assms(3) obtain sch where "handle_all ctl events (w\<lparr>io_timers := tm, io_scheds := (io_scheds w)(io_self w := sch)\<rparr>) = Inr w'"
    by (auto simp: idle_turn_def l Let_def)
  then show ?thesis
    by (rule handle_all_inv [OF _ assms(2), rotated]) (rule io_wf_same [OF assms(1)], simp_all)
qed

section \<open>Runs of the manager\<close>

text \<open>
  The calls that the program makes on a manager, in any order: the calling thread's scheduler, fiber and
  fiber state are part of the call, and a turn of the idle loop brings what the clock and \<^verbatim>\<open>epoll_wait\<close> said.
\<close>

datatype io_op =
    Add_op nat nat fiber_state int event "nat option"
  | Del_op int event
  | Cancel_op int event
  | Cancel_all_op int
  | Turn_op nat u64 "ready list"

fun io_exec :: "'k ctl \<Rightarrow> (timer_cb \<Rightarrow> nat) \<Rightarrow> io_op \<Rightarrow> 'k iomanager \<Rightarrow> 'k iomanager io_result" where
  "io_exec ctl closure (Add_op s cur st fd ev cb) w = bindE (addEvent ctl (Some s) cur st fd ev cb w) (\<lambda>(_, w1). Inr w1)"
| "io_exec ctl closure (Del_op fd ev) w = bindE (delEvent ctl fd ev w) (\<lambda>(_, w1). Inr w1)"
| "io_exec ctl closure (Cancel_op fd ev) w = bindE (cancelEvent ctl fd ev w) (\<lambda>(_, w1). Inr w1)"
| "io_exec ctl closure (Cancel_all_op fd) w = bindE (cancelAll ctl fd w) (\<lambda>(_, w1). Inr w1)"
| "io_exec ctl closure (Turn_op s now events) w = idle_turn ctl closure s now events w"

definition op_event_ok :: "io_op \<Rightarrow> bool" where
  "op_event_ok op = (case op of Add_op _ _ _ _ ev _ \<Rightarrow> ev = READ \<or> ev = WRITE
     | Del_op _ ev \<Rightarrow> ev = READ \<or> ev = WRITE | Cancel_op _ ev \<Rightarrow> ev = READ \<or> ev = WRITE | _ \<Rightarrow> True)"

inductive io_reach :: "'k ctl \<Rightarrow> (timer_cb \<Rightarrow> nat) \<Rightarrow> 'k iomanager \<Rightarrow> io_op list \<Rightarrow> 'k iomanager \<Rightarrow> bool"
  for ctl closure w0 where
  reach_start: "io_reach ctl closure w0 [] w0"
| reach_step: "io_reach ctl closure w0 ops w \<Longrightarrow> op_event_ok op \<Longrightarrow> io_exec ctl closure op w = Inr w'
    \<Longrightarrow> io_reach ctl closure w0 (ops @ [op]) w'"

lemma io_exec_inv:
  assumes "io_wf interest w" and "ctl_law ctl interest" and "op_event_ok op" and "io_exec ctl closure op w = Inr w'"
  shows "io_wf interest w'"
  using assms
  by (cases op)
    (auto simp: bindE_Inr_iff op_event_ok_def intro: addEvent_inv delEvent_inv cancelEvent_inv idle_turn_inv
      dest: cancelAll_spec split: prod.splits)

lemma new_context_facts [simp]: "ctx_ok (new_fd_context i)" "fc_fd (new_fd_context i) = i"
  "fc_events (new_fd_context i) = 0" "event_count (Some (new_fd_context i)) = 0"
  by (simp_all add: new_fd_context_def ctx_ok_def has_event_def vacant_def Let_def NONE_def event_count_def)

lemma new_iomanager_contexts:
  "io_contexts (new_iomanager self k ss) = map (\<lambda>i. Some (new_fd_context i)) [0..<32]"
  by (auto simp: new_iomanager_def contextResize_def Let_def intro!: map_cong)

lemma sum_list_zero: "\<forall>x\<in>set xs. f x = 0 \<Longrightarrow> sum_list (map f xs) = (0 :: nat)"
  by simp

lemma new_iomanager_wf:
  assumes "\<forall>i. interest k i = None"
  shows "io_wf interest (new_iomanager self k ss)"
proof -
  have "io_kernel (new_iomanager self k ss) = k" "io_pending (new_iomanager self k ss) = 0"
    by (simp_all add: new_iomanager_def contextResize_def Let_def)
  then show ?thesis
    using assms sum_list_zero [of "io_contexts (new_iomanager self k ss)" event_count]
    by (auto simp: io_wf_def new_iomanager_contexts wanted_def)
qed

lemma io_reach_inv:
  assumes "io_reach ctl closure w0 ops w" and "io_wf interest w0" and "ctl_law ctl interest"
  shows "io_wf interest w"
  using assms by induction (auto intro: io_exec_inv)

text \<open>A kernel that keeps its interest list as a map, with the failures of \<^verbatim>\<open>epoll_ctl\<close>.\<close>

definition map_ctl :: "(nat \<Rightarrow> u32 option) ctl" where
  "map_ctl op fd ev k = (case op of
     CTL_ADD \<Rightarrow> if k fd = None then (0, k(fd \<mapsto> ev)) else (- 1, k)
   | CTL_MOD \<Rightarrow> if k fd = None then (- 1, k) else (0, k(fd \<mapsto> ev))
   | CTL_DEL \<Rightarrow> if k fd = None then (- 1, k) else (0, k(fd := None)))"

lemma map_ctl_law: "ctl_law map_ctl id"
  by (auto simp: ctl_law_def map_ctl_def split: ctl_op.splits if_splits)

definition example_io :: "(nat \<Rightarrow> u32 option) iomanager" where
  "example_io = new_iomanager 2 Map.empty (\<lambda>_. example_scheduler)"

lemma example_io_wf: "io_wf id example_io"
  by (simp add: example_io_def new_iomanager_wf)

lemma example_io_at: "i < 32 \<Longrightarrow> fd_context_at i example_io = Inr (new_fd_context i)"
  by (simp add: fd_context_at_def example_io_def new_iomanager_contexts)

lemma example_io_state [simp]: "io_kernel example_io = Map.empty" "io_pending example_io = 0"
  "length (io_contexts example_io) = 32" "io_timers example_io = new_timer_manager" "io_self example_io = 2"
  by (simp_all add: example_io_def new_iomanager_def contextResize_def Let_def)

lemma example_add:
  "addEvent map_ctl (Some 2) 10 EXEC 5 READ (Some 7) example_io =
     Inr (0, put_context 5 \<lparr>fc_read = \<lparr>ec_scheduler = Some 2, ec_fiber = None, ec_cb = Some 7\<rparr>,
        fc_write = \<lparr>ec_scheduler = None, ec_fiber = None, ec_cb = None\<rparr>, fc_fd = 5, fc_events = READ\<rparr>
        (example_io\<lparr>io_kernel := [5 \<mapsto> EPOLLET OR READ], io_pending := 1\<rparr>))"
  by (simp add: addEvent_def Let_def example_io_at io_assert_def getContext_def setContext_def map_ctl_def
      new_fd_context_def NONE_def)

text \<open>
  Property C6. The bookkeeping of the IO manager is exact after any sequence of registrations, deletions,
  cancellations and turns of the idle loop that hits no assertion, for any behaviour of
  \<^verbatim>\<open>epoll_ctl\<close> in which a failing call changes nothing: the counter of pending events is the number of registered events, the context
  of a descriptor is stored at its own index, the kernel's interest in a descriptor is exactly its registered
  events (edge triggered), and a registered event has exactly one continuation, a fiber or a callback.
\<close>

theorem io_bookkeeping:
  assumes "ctl_law ctl interest" and "\<forall>i. interest k i = None"
    and "io_reach ctl closure (new_iomanager self k ss) ops w"
  shows "io_pending w = sum_list (map event_count (io_contexts w))
    \<and> (\<forall>i fc. fd_context_at i w = Inr fc \<longrightarrow> fc_fd fc = i
        \<and> interest (io_kernel w) i = (if fc_events fc = 0 then None else Some (EPOLLET OR fc_events fc))
        \<and> (has_event READ fc \<longrightarrow> waiting (fc_read fc)) \<and> (has_event WRITE fc \<longrightarrow> waiting (fc_write fc)))"
proof -
  have wf: "io_wf interest w" using io_reach_inv [OF assms(3) _ assms(1)] new_iomanager_wf [where interest = interest and k = k, OF assms(2)] by blast
  then have "io_pending w = sum_list (map event_count (io_contexts w))" by (simp add: io_wf_def)
  moreover have "fc_fd fc = i \<and> interest (io_kernel w) i = wanted fc \<and> ctx_ok fc" if "fd_context_at i w = Inr fc" for i fc
    using io_wf_context [OF wf that] by simp
  ultimately show ?thesis by (simp add: wanted_def ctx_ok_def split: if_splits)
qed

theorem io_bookkeeping_witness:
  "io_pending (put_context 5 \<lparr>fc_read = \<lparr>ec_scheduler = Some 2, ec_fiber = None, ec_cb = Some 7\<rparr>,
        fc_write = \<lparr>ec_scheduler = None, ec_fiber = None, ec_cb = None\<rparr>, fc_fd = 5, fc_events = READ\<rparr>
        (example_io\<lparr>io_kernel := [5 \<mapsto> EPOLLET OR READ], io_pending := 1\<rparr>))
   = sum_list (map event_count ((io_contexts example_io)[5 := Some \<lparr>fc_read = \<lparr>ec_scheduler = Some 2, ec_fiber = None, ec_cb = Some 7\<rparr>,
        fc_write = \<lparr>ec_scheduler = None, ec_fiber = None, ec_cb = None\<rparr>, fc_fd = 5, fc_events = READ\<rparr>]))"
proof -
  have "io_reach map_ctl (\<lambda>_. 0) example_io ([] @ [Add_op 2 10 EXEC 5 READ (Some 7)])
      (put_context 5 \<lparr>fc_read = \<lparr>ec_scheduler = Some 2, ec_fiber = None, ec_cb = Some 7\<rparr>,
        fc_write = \<lparr>ec_scheduler = None, ec_fiber = None, ec_cb = None\<rparr>, fc_fd = 5, fc_events = READ\<rparr>
        (example_io\<lparr>io_kernel := [5 \<mapsto> EPOLLET OR READ], io_pending := 1\<rparr>))"
    by (rule reach_step [OF reach_start]) (simp_all add: op_event_ok_def example_add)
  from io_bookkeeping [where interest = id and k = "Map.empty", OF map_ctl_law _ this [unfolded example_io_def], folded example_io_def]
  show ?thesis by simp
qed

section \<open>Cancelling and waking\<close>

text \<open>
  Property C22. \<^verbatim>\<open>cancelAll\<close> on a descriptor with registered events always succeeds when the kernel
  deletes the descriptor: it hits no assertion, every registered event is taken out of the context and out of the
  counter, the descriptor leaves the interest list, and the continuations that waited are scheduled, the
  reader first and then the writer, each on the scheduler that registered it.
\<close>

theorem cancelAll_wakes_all:
  assumes "io_wf interest w" and "ctl_law ctl interest" and "fd_context_at i w = Inr fc" and "fc_events fc \<noteq> 0"
    and "fst (ctl CTL_DEL i 0 (io_kernel w)) = 0"
  shows "\<exists>w'. cancelAll ctl (int i) w = Inr (True, w')
    \<and> (\<exists>fc'. fd_context_at i w' = Inr fc' \<and> fc_events fc' = 0)
    \<and> io_pending w' + event_count (Some fc) = io_pending w
    \<and> interest (io_kernel w') = (interest (io_kernel w))(i := None)
    \<and> io_scheds w' = io_scheds (fold (\<lambda>(s, t). io_schedule s t)
         ((if has_event READ fc then [continuation READ fc] else []) @ (if has_event WRITE fc then [continuation WRITE fc] else [])) w)"
proof -
  note c = io_wf_context [OF assms(1,3)]
  have ok: "ctx_ok fc" using c by simp
  obtain k where ctl: "ctl CTL_DEL i 0 (io_kernel w) = (0, k)" using assms(5) by (metis prod.collapse)
  let ?w1 = "w\<lparr>io_kernel := k\<rparr>"
  have at: "fd_context_at i ?w1 = Inr fc" using assms(3) by simp
  define fc2 where "fc2 = (if has_event READ fc then cleared READ fc else fc)"
  obtain w2 where w2: "trigger_if (has_event READ fc) READ i ?w1 = Inr w2" "io_contexts w2 = (io_contexts w)[i := Some fc2]"
      "io_kernel w2 = k" "io_pending w2 = io_pending w - (if has_event READ fc then 1 else 0)" "fd_context_at i w2 = Inr fc2"
      "io_scheds w2 = (if has_event READ fc then io_scheds (io_schedule (fst (continuation READ fc)) (snd (continuation READ fc)) w)
          else io_scheds w)"
    using trigger_if_spec [OF at ok, of READ "has_event READ fc"] by (auto simp: fc2_def io_schedule_def)
  have ok2: "ctx_ok fc2" "has_event WRITE fc2 \<longleftrightarrow> has_event WRITE fc" "\<not> has_event READ fc2"
      "event_count (Some fc2) + (if has_event READ fc then 1 else 0) = event_count (Some fc)"
      "continuation WRITE fc2 = continuation WRITE fc"
    using ok cleared_ok [OF ok, of READ] event_ne
    by (auto simp: fc2_def continuation_def cleared_def Let_def)
  define fc3 where "fc3 = (if has_event WRITE fc then cleared WRITE fc2 else fc2)"
  obtain w3 where w3: "trigger_if (has_event WRITE fc) WRITE i w2 = Inr w3"
      "io_kernel w3 = k" "io_pending w3 = io_pending w2 - (if has_event WRITE fc then 1 else 0)" "fd_context_at i w3 = Inr fc3"
      "io_scheds w3 = (if has_event WRITE fc then io_scheds (io_schedule (fst (continuation WRITE fc)) (snd (continuation WRITE fc)) w2)
          else io_scheds w2)"
    using trigger_if_spec [OF w2(5) ok2(1), of WRITE "has_event WRITE fc"] ok2(2,5) w2(3) by (auto simp: fc3_def)
  have ok3: "ctx_ok fc3" "\<not> has_event READ fc3" "\<not> has_event WRITE fc3"
      "event_count (Some fc3) + (if has_event WRITE fc then 1 else 0) = event_count (Some fc2)"
    using ok2 cleared_ok [OF ok2(1), of WRITE] event_ne by (auto simp: fc3_def)
  have z: "fc_events fc3 = 0" by (rule events_clear_zero [OF ok3(1,2,3)])
  have z': "event_count (Some fc3) = 0" using ok3 by (simp add: event_count_def)
  have run: "cancelAll ctl (int i) w = Inr (True, w3)"
    using c assms(3,4) ctl w2(1,5) w3(1,4) ok2(2) z
    by (simp add: cancelAll_def Let_def has_event_def io_assert_def NONE_def)
  have cnt: "io_pending w3 + event_count (Some fc) = io_pending w"
    using w2(4) w3(3) ok2(4) ok3(4) z' io_wf_count [OF assms(1,3)] by (auto split: if_splits)
  have int: "interest (io_kernel w3) = (interest (io_kernel w))(i := None)"
    using assms(2) [unfolded ctl_law_def, rule_format, OF ctl] w3(2) by simp
  have sch: "io_scheds w3 = io_scheds (fold (\<lambda>(s, t). io_schedule s t)
      ((if has_event READ fc then [continuation READ fc] else []) @ (if has_event WRITE fc then [continuation WRITE fc] else [])) w)"
    using w2(6) w3(5) by (auto simp: io_schedule_def split_beta)
  show ?thesis using run w3(4) z cnt int sch by blast
qed

definition example_waiting :: "(nat \<Rightarrow> u32 option) iomanager" where
  "example_waiting = put_context 5 \<lparr>fc_read = \<lparr>ec_scheduler = Some 2, ec_fiber = None, ec_cb = Some 7\<rparr>,
     fc_write = \<lparr>ec_scheduler = None, ec_fiber = None, ec_cb = None\<rparr>, fc_fd = 5, fc_events = READ\<rparr>
     (example_io\<lparr>io_kernel := [5 \<mapsto> EPOLLET OR READ], io_pending := 1\<rparr>)"

lemma example_waiting_wf: "io_wf id example_waiting"
  using addEvent_inv [OF example_io_wf map_ctl_law _ _ example_add] by (simp add: example_waiting_def)

lemma example_waiting_at: "fd_context_at 5 example_waiting = Inr \<lparr>fc_read = \<lparr>ec_scheduler = Some 2, ec_fiber = None, ec_cb = Some 7\<rparr>,
     fc_write = \<lparr>ec_scheduler = None, ec_fiber = None, ec_cb = None\<rparr>, fc_fd = 5, fc_events = READ\<rparr>"
  by (simp add: example_waiting_def)

theorem cancelAll_wakes_all_witness:
  "\<exists>w'. cancelAll map_ctl (int 5) example_waiting = Inr (True, w') \<and> io_pending w' = 0"
  using cancelAll_wakes_all [OF example_waiting_wf map_ctl_law example_waiting_at]
  by (auto simp: example_waiting_def map_ctl_def event_count_def has_event_def event_bits)

section \<open>How long the idle loop sleeps\<close>

context timer_source
begin

lemma next_all_ones:
  assumes "inv s" and "0 < now"
  shows "fst (next_wait now s) = - 1 \<longleftrightarrow> (\<forall>a. pending s a = None)"
proof
  assume v: "fst (next_wait now s) = - 1"
  show "\<forall>a. pending s a = None"
  proof (rule ccontr)
    assume "\<not> (\<forall>a. pending s a = None)"
    then obtain a e where e: "pending s a = Some e" by auto
    show False
    proof (cases "e \<le> now")
      case True
      then show False using next_due [OF assms(1) e] v by simp
    next
      case False
      then have "now < e" by simp
      then have "(- 1 :: u64) \<le> e - now" using next_left [OF assms(1) e] v by metis
      then have "e - now = - 1" by (simp add: word_order.extremum_unique)
      then have "e = now - 1" by (simp add: diff_eq_eq)
      then have "e < now" using assms(2) unat_minus_one [of now] by (simp add: word_less_nat_alt unat_gt_0)
      with \<open>now < e\<close> show False by simp
    qed
  qed
next
  assume "\<forall>a. pending s a = None"
  then show "fst (next_wait now s) = - 1" using next_none [OF assms(1)] by simp
qed

end

lemma poll_timeout_small:
  assumes "v \<noteq> - 1" and "uint v < 2 ^ 31"
  shows "poll_timeout v = min 5000 (uint v)"
proof -
  have "sint (ucast v :: u32) = signed_take_bit 31 (uint v)"
    by transfer (simp add: signed_take_bit_take_bit)
  also have "\<dots> = uint v"
    by (rule signed_take_bit_int_eq_self) (use assms(2) in \<open>simp_all add: order_trans [OF _ uint_ge_0]\<close>)
  finally show ?thesis using assms(1) by (auto simp: poll_timeout_def MAX_TIMEOUT_def)
qed

lemma uint_all_ones: "uint (- 1 :: u64) = 18446744073709551615"
  by (simp add: unsigned_minus_1_eq_mask mask_eq_exp_minus_1)

lemma poll_timeout_le: "poll_timeout v \<le> 5000"
  by (auto simp: poll_timeout_def MAX_TIMEOUT_def)

text \<open>
  The argument of \<^verbatim>\<open>epoll_wait\<close> is at most five seconds, and never more than what is left to
  any pending timer while that fits into 31 bits, 0 when a timer is due; with no timer it is exactly five
  seconds. A timer whose remaining time has bit 31 set makes it negative, which \<^verbatim>\<open>epoll_wait\<close> takes as for ever.
\<close>

theorem idle_sleep_bound:
  assumes "tm_wf m"
  shows "poll_timeout (fst (getNextTimer now m)) \<le> 5000
    \<and> (tm_timers m = [] \<longrightarrow> poll_timeout (fst (getNextTimer now m)) = 5000)
    \<and> (\<forall>a e. tm_pending m a = Some e \<and> (e \<le> now \<or> uint (e - now) < 2 ^ 31) \<longrightarrow>
         0 \<le> poll_timeout (fst (getNextTimer now m))
       \<and> poll_timeout (fst (getNextTimer now m)) \<le> (if e \<le> now then 0 else uint (e - now)))
    \<and> poll_timeout (2 ^ 31) = - (2 ^ 31)"
proof (intro conjI allI impI)
  show "poll_timeout (fst (getNextTimer now m)) \<le> 5000" by (rule poll_timeout_le)
  show "poll_timeout (fst (getNextTimer now m)) = 5000" if "tm_timers m = []"
    using tm_source.next_none [OF assms, of now] that by (simp add: tm_pending_def poll_timeout_def MAX_TIMEOUT_def)
  fix a e
  assume e: "tm_pending m a = Some e \<and> (e \<le> now \<or> uint (e - now) < 2 ^ 31)"
  let ?v = "fst (getNextTimer now m)"
  have le: "?v \<le> (if e \<le> now then 0 else e - now)"
    using tm_source.next_zero_or_positive [OF assms] e by blast
  then have b: "uint ?v \<le> (if e \<le> now then 0 else uint (e - now))"
    by (auto simp: word_le_def split: if_splits)
  then have small: "uint ?v < 2 ^ 31" using e by (auto split: if_splits)
  then have "?v \<noteq> - 1" using uint_all_ones by auto
  from poll_timeout_small [OF this small] b
  show "0 \<le> poll_timeout ?v" "poll_timeout ?v \<le> (if e \<le> now then 0 else uint (e - now))"
    by auto
next
  show "poll_timeout (2 ^ 31) = - (2 ^ 31)"
    by (simp add: poll_timeout_def MAX_TIMEOUT_def)
qed

theorem idle_sleep_bound_witness:
  "poll_timeout (fst (getNextTimer 3 (snd (addTimer 2 0 5 (Some (Plain 7)) False new_timer_manager)))) \<le> 2"
proof -
  have "tm_pending (snd (addTimer 2 0 5 (Some (Plain 7)) False new_timer_manager)) 2 = Some 5"
    by (simp add: add_example tm_pending_def new_timer_def)
  then show ?thesis
    using idle_sleep_bound [OF wf_example, of 3] by fastforce
qed

text \<open>
  \<^verbatim>\<open>stopping\<close> of the IO manager holds exactly when no timer waits, no descriptor has a
  registered event and the scheduler below has drained; it leaves everything but the timers' tickle flag alone.
\<close>

theorem io_stopping_meaning:
  assumes "io_wf interest w" and "tm_wf (io_timers w)" and "0 < now"
  shows "case io_stopping now w of (done_flag, timeout, w') \<Rightarrow>
      (done_flag \<longleftrightarrow> tm_timers (io_timers w) = []
         \<and> (\<forall>i fc. fd_context_at i w = Inr fc \<longrightarrow> fc_events fc = 0)
         \<and> stopping (io_scheds w (io_self w)))
    \<and> timeout = fst (getNextTimer now (io_timers w)) \<and> io_wf interest w' \<and> tm_wf (io_timers w')
    \<and> tm_pending (io_timers w') = tm_pending (io_timers w)"
proof -
  obtain v tm where g: "getNextTimer now (io_timers w) = (v, tm)" by force
  have "v = - 1 \<longleftrightarrow> (\<forall>a. tm_pending (io_timers w) a = None)"
    using tm_source.next_all_ones [OF assms(2,3)] g by simp
  also have "\<dots> \<longleftrightarrow> tm_timers (io_timers w) = []"
    by (cases "tm_timers (io_timers w)") (auto simp: tm_pending_def)
  finally have v: "v = - 1 \<longleftrightarrow> tm_timers (io_timers w) = []" .
  have z: "io_pending w = 0 \<longleftrightarrow> (\<forall>i fc. fd_context_at i w = Inr fc \<longrightarrow> fc_events fc = 0)"
  proof
    assume p: "io_pending w = 0"
    show "\<forall>i fc. fd_context_at i w = Inr fc \<longrightarrow> fc_events fc = 0"
    proof (intro allI impI)
      fix i fc
      assume fc: "fd_context_at i w = Inr fc"
      have "event_count (Some fc) = 0" using io_wf_count [OF assms(1) fc] p by simp
      then have "\<not> has_event READ fc" "\<not> has_event WRITE fc" by (auto simp: event_count_def split: if_splits)
      then show "fc_events fc = 0" using events_clear_zero io_wf_context [OF assms(1) fc] by blast
    qed
  next
    assume h: "\<forall>i fc. fd_context_at i w = Inr fc \<longrightarrow> fc_events fc = 0"
    have "event_count c = 0" if mem: "c \<in> set (io_contexts w)" for c
    proof (cases c)
      case (Some fc)
      then obtain i where "i < length (io_contexts w)" "io_contexts w ! i = Some fc"
        using mem in_set_conv_nth [of c "io_contexts w"] by blast
      then have "fd_context_at i w = Inr fc" by (simp add: fd_context_at_def)
      then have "fc_events fc = 0" using h by blast
      then show ?thesis using Some by (simp add: event_count_def has_event_def)
    qed (simp add: event_count_def)
    then show "io_pending w = 0" using assms(1) by (simp add: io_wf_def)
  qed
  have "io_wf interest (w\<lparr>io_timers := tm\<rparr>)" by (rule io_wf_same [OF assms(1)]) simp_all
  then show ?thesis
    using v z tm_source.next_keeps [OF assms(2), of now] g by (simp add: io_stopping_def)
qed

theorem io_stopping_meaning_witness:
  "case io_stopping 3 example_io of (done_flag, timeout, w') \<Rightarrow> \<not> done_flag \<and> timeout = fst (getNextTimer 3 new_timer_manager)"
  using io_stopping_meaning [OF example_io_wf, of 3]
  by (auto simp: tm_wf_new example_io_def example_scheduler_def stopping_def new_iomanager_def contextResize_def Let_def split: prod.splits)

section \<open>Turns of the idle loop, and the assertions it can hit\<close>

lemma schedule_range_cbs:
  "schedule_range (map (\<lambda>c. Cb_task (f c)) cs) b s = (b', s') \<Longrightarrow> \<forall>c\<in>set cs. f c \<noteq> None \<Longrightarrow>
   sc_queue s' = sc_queue s @ map (\<lambda>c. make_task (Cb_task (f c)) (- 1)) cs"
proof (induction cs arbitrary: b s)
  case (Cons c cs)
  then show ?case by (auto simp: scheduleNoLock_def Let_def split: prod.splits)
qed simp

lemma turn_schedules_expired:
  assumes "listExpiredCb s now (io_timers w) = (cbs, tm)" and "\<forall>c\<in>set cbs. c \<noteq> None"
  shows "\<exists>w'. idle_turn ctl closure s now [] w = Inr w' \<and> io_timers w' = tm \<and> io_contexts w' = io_contexts w
    \<and> sc_queue (io_scheds w' (io_self w)) = sc_queue (io_scheds w (io_self w))
        @ map (\<lambda>c. make_task (Cb_task (map_option closure c)) (- 1)) cbs"
proof (cases "cbs = []")
  case True
  then show ?thesis using assms by (simp add: idle_turn_def)
next
  case False
  obtain b s' where r: "schedule_range (map (\<lambda>c. Cb_task (map_option closure c)) cbs) False (io_scheds w (io_self w)) = (b, s')"
    by force
  have "sc_queue s' = sc_queue (io_scheds w (io_self w)) @ map (\<lambda>c. make_task (Cb_task (map_option closure c)) (- 1)) cbs"
    by (rule schedule_range_cbs [OF r]) (use assms(2) in auto)
  then show ?thesis using assms(1) False r by (simp add: idle_turn_def Let_def)
qed

lemma addEvent_behind_table:
  "addEvent ctl sched cur st (int (length (io_contexts w) + n)) ev cb w = Inl Io_null"
  by (simp add: addEvent_def Let_def fd_context_at_def nth_append nat_add_distrib)

lemma triggered_context:
  assumes "fd_context_at i w = Inr fc" and "ctx_ok fc" and "event = READ \<or> event = WRITE" and "triggerEvent event i w = Inr w1"
  shows "fd_context_at i w1 = Inr (cleared event fc) \<and> i < length (io_contexts w1)
    \<and> ec_scheduler (if event = READ then fc_read (cleared event fc) else fc_write (cleared event fc)) \<noteq> None"
proof -
  have ev: "has_event event fc"
    using assms by (auto simp: triggerEvent_def bindE_Inr_iff io_assert_def has_event_def split: if_splits)
  have w1: "w1 = io_schedule (fst (continuation event fc)) (snd (continuation event fc)) (put_context i (cleared event fc) w)"
    using triggerEvent_spec [OF assms(1-3) ev] assms(4) by simp
  have "ec_scheduler (if event = READ then fc_read (cleared event fc) else fc_write (cleared event fc)) \<noteq> None"
    using assms(2,3) ev by (auto simp: ctx_ok_def waiting_def cleared_def event_ne)
  moreover have "fd_context_at i w1 = Inr (cleared event fc)" "i < length (io_contexts w1)"
    using fd_context_lt [OF assms(1)] by (simp_all add: w1 fd_context_at_def)
  ultimately show ?thesis by blast
qed

text \<open>What a second registration of a triggered event comes to, when \<^verbatim>\<open>epoll_ctl\<close> accepts it.\<close>

lemma again_asserts:
  assumes "fd_context_at i w = Inr fc" and "ctx_ok fc" and "event = READ \<or> event = WRITE" and "triggerEvent event i w = Inr w1"
    and "rest = fc_events fc AND NOT event"
    and "fst (ctl (if rest \<noteq> 0 then CTL_MOD else CTL_ADD) i (EPOLLET OR rest OR event) (io_kernel w1)) = 0"
  shows "addEvent ctl sched cur st (int i) event cb w1 = Inl (Io_assert ''!event_ctx.scheduler && !event_ctx.fiber && !event_ctx.cb'')"
proof -
  note t = triggered_context [OF assms(1-4)]
  have e: "fc_events (cleared event fc) = rest" using assms(5) by (simp add: cleared_def Let_def)
  have "rest AND event = 0" using assms(5) by (simp add: ac_simps and.assoc [symmetric])
  moreover obtain k where "ctl (if rest \<noteq> 0 then CTL_MOD else CTL_ADD) i (EPOLLET OR rest OR event) (io_kernel w1) = (0, k)"
    using assms(6) by (metis prod.collapse)
  ultimately show ?thesis
    using t assms(3) by (auto simp: addEvent_def Let_def e io_assert_def getContext_def event_ne)
qed

lemma read_hang_up_asserts:
  assumes "fd_context_at i w = Inr fc" and "ctx_ok fc" and "fc_fd fc = i" and "fc_events fc = READ"
    and "ev AND (EPOLLERR OR EPOLLHUP) \<noteq> 0" and "fst (ctl CTL_DEL i EPOLLET (io_kernel w)) = 0"
  shows "handle_ready ctl (Fd_ready i ev) w = Inl (Io_assert ''events & event'')"
proof -
  define ev' where "ev' = ev OR (EPOLLIN OR EPOLLOUT)"
  have b: "ev' AND EPOLLIN \<noteq> 0" "ev' AND EPOLLOUT \<noteq> 0"
    by (simp_all add: ev'_def event_bits bit.conj_disj_distrib2)
  obtain k where ctl: "ctl CTL_DEL i EPOLLET (io_kernel w) = (0, k)" using assms(6) by (metis prod.collapse)
  have real: "(READ OR WRITE) AND READ \<noteq> (0::u32)" "(READ OR WRITE) AND WRITE \<noteq> (0::u32)"
      "READ AND (READ OR WRITE) = READ" "READ AND NOT (READ OR WRITE) = 0" "READ \<noteq> NONE"
    by (simp_all add: event_bits)
  have at: "fd_context_at i (w\<lparr>io_kernel := k\<rparr>) = Inr fc" using assms(1) by simp
  have ev: "has_event READ fc" using assms(4) by (simp add: has_event_def event_bits)
  have "handle_ready ctl (Fd_ready i ev) w = bindE (triggerEvent READ i (w\<lparr>io_kernel := k\<rparr>))
      (\<lambda>w1. trigger_if True WRITE i (w1\<lparr>io_pending := io_pending w1 - 1\<rparr>))"
    using assms(1,3,4,5) b real ctl
    by (simp add: Let_def trigger_if_def flip: ev'_def, cases "triggerEvent READ i (w\<lparr>io_kernel := k\<rparr>)"; simp add: trigger_if_def)
  also have "\<dots> = Inl (Io_assert ''events & event'')"
  proof -
    have t: "triggerEvent READ i (w\<lparr>io_kernel := k\<rparr>) = Inr (io_schedule (fst (continuation READ fc)) (snd (continuation READ fc))
        (put_context i (cleared READ fc) (w\<lparr>io_kernel := k\<rparr>)))"
      using triggerEvent_spec [OF at assms(2) _ ev] by simp
    have "fc_events (cleared READ fc) AND WRITE = 0"
      using assms(4) by (simp add: cleared_def Let_def event_bits)
    then show ?thesis
      using fd_context_lt [OF assms(1)] unfolding t
      by (simp add: trigger_if_def triggerEvent_def fd_context_at_def io_assert_def)
  qed
  finally show ?thesis .
qed

lemma hang_up_asserts:
  assumes "fd_context_at i w = Inr fc" and "ctx_ok fc" and "fc_fd fc = i" and "fc_events fc = event" and "event = READ \<or> event = WRITE"
    and "ev AND (EPOLLERR OR EPOLLHUP) \<noteq> 0" and "fst (ctl CTL_DEL i EPOLLET (io_kernel w)) = 0"
  shows "handle_ready ctl (Fd_ready i ev) w = Inl (Io_assert ''events & event'')"
proof (cases "event = READ")
  case True
  then show ?thesis using read_hang_up_asserts [OF assms(1-3)] assms(4,6,7) by simp
next
  case False
  define ev' where "ev' = ev OR (EPOLLIN OR EPOLLOUT)"
  have b: "ev' AND EPOLLIN \<noteq> 0" "ev' AND EPOLLOUT \<noteq> 0"
    by (simp_all add: ev'_def event_bits bit.conj_disj_distrib2)
  obtain k where ctl: "ctl CTL_DEL i EPOLLET (io_kernel w) = (0, k)" using assms(7) by (metis prod.collapse)
  have e: "fc_events fc = WRITE" using assms(4,5) False by simp
  have real: "(READ OR WRITE) AND READ \<noteq> (0::u32)" "WRITE AND (READ OR WRITE) = WRITE" "WRITE AND NOT (READ OR WRITE) = 0" "WRITE \<noteq> NONE"
    "WRITE AND READ = 0"
    by (simp_all add: event_bits)
  have "triggerEvent READ i (w\<lparr>io_kernel := k\<rparr>) = Inl (Io_assert ''events & event'')"
    using assms(1) e real by (simp add: triggerEvent_def io_assert_def)
  then show ?thesis
    using assms(1,3,6) e b real ctl by (simp add: Let_def trigger_if_def flip: ev'_def)
qed

text \<open>
  Property C40. Three ways in which a manager stops although every call of the operating system succeeds.
  The context of a descriptor behind the table is a null pointer, because the table grows without creating contexts. An event,
  READ or WRITE, that has been triggered cannot be registered again: once \<^verbatim>\<open>epoll_ctl\<close> has accepted it the assertion fails,
  because triggering clears the continuation and not the scheduler of its context. An error or hang-up on a descriptor with
  only one of the two events registered triggers the other event too, and its assertion fails.
\<close>

theorem io_assertion_failures:
  "addEvent ctl sched cur st (int (length (io_contexts w) + n)) ev cb w = Inl Io_null
   \<and> (fd_context_at i w = Inr fc \<and> ctx_ok fc \<and> event \<in> {READ, WRITE} \<and> triggerEvent event i w = Inr w1 \<longrightarrow>
        (let others = fc_events fc AND NOT event in
         fst (ctl (if others \<noteq> 0 then CTL_MOD else CTL_ADD) i (EPOLLET OR others OR event) (io_kernel w1)) = 0 \<longrightarrow>
         addEvent ctl sched cur st (int i) event cb w1 = Inl (Io_assert ''!event_ctx.scheduler && !event_ctx.fiber && !event_ctx.cb'')))
   \<and> (fd_context_at i w = Inr fc \<and> ctx_ok fc \<and> fc_fd fc = i \<and> fc_events fc \<in> {READ, WRITE}
      \<and> ev AND (EPOLLERR OR EPOLLHUP) \<noteq> 0 \<and> fst (ctl CTL_DEL i EPOLLET (io_kernel w)) = 0 \<longrightarrow>
        handle_ready ctl (Fd_ready i ev) w = Inl (Io_assert ''events & event''))"
proof (intro conjI impI)
  show "addEvent ctl sched cur st (int (length (io_contexts w) + n)) ev cb w = Inl Io_null"
    by (rule addEvent_behind_table)
next
  assume h: "fd_context_at i w = Inr fc \<and> ctx_ok fc \<and> event \<in> {READ, WRITE} \<and> triggerEvent event i w = Inr w1"
  then have "event = READ \<or> event = WRITE" by simp
  then show "let others = fc_events fc AND NOT event in
         fst (ctl (if others \<noteq> 0 then CTL_MOD else CTL_ADD) i (EPOLLET OR others OR event) (io_kernel w1)) = 0 \<longrightarrow>
         addEvent ctl sched cur st (int i) event cb w1 = Inl (Io_assert ''!event_ctx.scheduler && !event_ctx.fiber && !event_ctx.cb'')"
    using h again_asserts [of i w fc event w1 _ ctl] by (simp add: Let_def)
next
  assume h: "fd_context_at i w = Inr fc \<and> ctx_ok fc \<and> fc_fd fc = i \<and> fc_events fc \<in> {READ, WRITE}
      \<and> ev AND (EPOLLERR OR EPOLLHUP) \<noteq> 0 \<and> fst (ctl CTL_DEL i EPOLLET (io_kernel w)) = 0"
  then have "fc_events fc = READ \<or> fc_events fc = WRITE" by simp
  then show "handle_ready ctl (Fd_ready i ev) w = Inl (Io_assert ''events & event'')"
    using h hang_up_asserts [of i w fc _ ev ctl] by blast
qed

theorem io_assertion_failures_witness:
  "addEvent map_ctl (Some 2) 10 EXEC 40 READ None example_waiting = Inl Io_null
   \<and> (\<exists>w1. triggerEvent READ 5 (example_waiting\<lparr>io_kernel := Map.empty\<rparr>) = Inr w1
        \<and> addEvent map_ctl (Some 2) 10 EXEC 5 READ (Some 8) w1
            = Inl (Io_assert ''!event_ctx.scheduler && !event_ctx.fiber && !event_ctx.cb''))
   \<and> handle_ready map_ctl (Fd_ready 5 EPOLLHUP) example_waiting = Inl (Io_assert ''events & event'')"
proof -
  let ?e = "example_waiting\<lparr>io_kernel := Map.empty\<rparr>"
  obtain fc where fc: "fd_context_at 5 example_waiting = Inr fc" "fc_events fc = READ"
    using example_waiting_at by auto
  have ok: "ctx_ok fc" "fc_fd fc = 5" using io_wf_context [OF example_waiting_wf fc(1)] by simp_all
  have at: "fd_context_at 5 ?e = Inr fc" using fc(1) by simp
  have "length (io_contexts example_waiting) = 32" by (simp add: example_waiting_def put_context_def)
  then have 1: "addEvent map_ctl (Some 2) 10 EXEC 40 READ None example_waiting = Inl Io_null"
    using io_assertion_failures [of map_ctl "Some 2" 10 EXEC example_waiting 8 READ None] by simp
  have "has_event READ fc" using fc(2) by (simp add: has_event_def event_bits)
  then obtain w1 where w1: "triggerEvent READ 5 ?e = Inr w1" "io_kernel w1 = Map.empty"
    using triggerEvent_spec [OF at ok(1), of READ] by simp
  have "fc_events fc AND NOT READ = 0" using fc(2) by simp
  moreover have "fst (map_ctl CTL_ADD 5 (EPOLLET OR 0 OR READ) (io_kernel w1)) = 0" by (simp add: map_ctl_def w1(2))
  ultimately have 2: "addEvent map_ctl (Some 2) 10 EXEC 5 READ (Some 8) w1
      = Inl (Io_assert ''!event_ctx.scheduler && !event_ctx.fiber && !event_ctx.cb'')"
    using io_assertion_failures [of map_ctl "Some 2" 10 EXEC ?e 0 READ "Some 8" 5 fc READ w1] at ok(1) w1(1) by (simp add: Let_def)
  have "EPOLLHUP AND (EPOLLERR OR EPOLLHUP) \<noteq> 0" by (simp add: event_bits)
  moreover have "fst (map_ctl CTL_DEL 5 EPOLLET (io_kernel example_waiting)) = 0"
    by (simp add: map_ctl_def example_waiting_def)
  ultimately have 3: "handle_ready map_ctl (Fd_ready 5 EPOLLHUP) example_waiting = Inl (Io_assert ''events & event'')"
    using fc ok io_assertion_failures by blast
  show ?thesis using 1 2 3 w1(1) by blast
qed

end
