(* ===== verification/Hook.thy ===== *)
theory Hook
  imports FdManager IOManager "HOL-Library.Signed_Division"
begin

text \<open>
The hooked system calls of src/hiper/base/hook.cc: the retry loop do_io in which reads, writes and accept wait, connect_with_timeout, the sleeps, socket, accept, close, fcntl, ioctl and setsockopt. The raw system calls are inputs: what they return, and the parameters os and fionbio for the flags of a descriptor. The control of one call is a frame (before the raw call, suspended, returned), which the relation call_run steps through together with the timer callback and the other fibers. The lemmas show what a waiting call returns, that it waits exactly when epoll_ctl accepts its event, that fcntl hides the non-blocking flag that hiper sets, that ioctl does not, and how long the sleeps are.
\<close>

section \<open>The world of the hooked calls\<close>

definition EINTR :: int where "EINTR = 4"
definition EBADF :: int where "EBADF = 9"
definition EAGAIN :: int where "EAGAIN = 11"
definition ETIMEDOUT :: int where "ETIMEDOUT = 110"
definition EINPROGRESS :: int where "EINPROGRESS = 115"

lemmas errno_defs = EINTR_def EBADF_def EAGAIN_def ETIMEDOUT_def EINPROGRESS_def

text \<open>
  What the hooked calls read and change: the thread's hook flag, the table of contexts, the kernel state \<open>'k\<close>
  of the descriptors, \<^verbatim>\<open>errno\<close>, and the IO manager of the thread with its epoll state \<open>'e\<close>.
\<close>

record ('k, 'e) hook_world =
  hw_enable :: bool
  hw_fds :: fd_manager
  hw_os :: 'k
  hw_errno :: int
  hw_io :: "'e iomanager"

datatype hook_error = Hook_fdm fdm_error | Hook_io io_error

type_synonym 'a hook_result = "hook_error + 'a"

definition from_io :: "'a io_result \<Rightarrow> 'a hook_result" where
  "from_io r = (case r of Inl e \<Rightarrow> Inl (Hook_io e) | Inr x \<Rightarrow> Inr x)"

definition hw_get :: "'k os \<Rightarrow> int \<Rightarrow> bool \<Rightarrow> ('k, 'e) hook_world \<Rightarrow> (fd_ctx option \<times> ('k, 'e) hook_world) hook_result" where
  "hw_get os fd auto w = (case fdm_get os fd auto (hw_fds w) (hw_os w) of
     Inl e \<Rightarrow> Inl (Hook_fdm e) | Inr (c, ds, k) \<Rightarrow> Inr (c, w\<lparr>hw_fds := ds, hw_os := k\<rparr>))"

text \<open>An assignment through the shared pointer of a context that is in the table.\<close>

definition hw_update :: "int \<Rightarrow> fd_ctx \<Rightarrow> ('k, 'e) hook_world \<Rightarrow> ('k, 'e) hook_world" where
  "hw_update fd c w = w\<lparr>hw_fds := (hw_fds w)[nat fd := Some c]\<rparr>"

section \<open>do_io\<close>

text \<open>
  The way a call takes: the raw call alone, a refusal with \<^verbatim>\<open>EBADF\<close>, or the retry loop with a timeout.
\<close>

datatype io_route = Raw_call | Closed_fd | Retry_loop u64

definition do_io_route :: "'k os \<Rightarrow> int \<Rightarrow> int \<Rightarrow> ('k, 'e) hook_world \<Rightarrow> io_route hook_result" where
  "do_io_route os fd timeout_so w =
     (if \<not> hw_enable w then Inr Raw_call
      else bindE (hw_get os fd False w) (\<lambda>(ctx, w1). Inr (case ctx of
          None \<Rightarrow> Raw_call
        | Some c \<Rightarrow>
            if is_closed c then Closed_fd
            else if \<not> is_socket c \<or> user_nonblock c then Raw_call
            else Retry_loop (getTimeout timeout_so c))))"

text \<open>
  The frame of one call: the address of its timer, the flag \<^verbatim>\<open>tinfo->cancelled\<close>, and where the control is:
  before the raw call, suspended in \<^verbatim>\<open>yield\<close> (with its timer, if it made one), or returned.
\<close>

datatype io_control = At_call | Suspended "nat option" | Returned int

record io_frame =
  fr_control :: io_control
  fr_cancelled :: int

text \<open>
  The raw call returned \<open>n\<close> with \<^verbatim>\<open>errno\<close> \<open>err\<close>: it is repeated when it was interrupted; when it would block, the
  timer and the event are registered and the fiber yields; otherwise its result is the result.
\<close>

definition do_io_block :: "'e ctl \<Rightarrow> nat option \<Rightarrow> nat \<Rightarrow> fiber_state \<Rightarrow> nat \<Rightarrow> nat \<Rightarrow> nat \<Rightarrow> u64 \<Rightarrow> int \<Rightarrow> event \<Rightarrow> u64
    \<Rightarrow> io_frame \<Rightarrow> ('k, 'e) hook_world \<Rightarrow> (io_frame \<times> ('k, 'e) hook_world) hook_result" where
  "do_io_block ctl sched cur st tm tinfo cb now fd ev timeout fr w =
     (let io = hw_io w;
          (timer, io1) = (if timeout \<noteq> - 1
             then (Some tm, io\<lparr>io_timers := snd (addConditionTimer tm now timeout cb tinfo False (io_timers io))\<rparr>)
             else (None, io))
      in bindE (from_io (addEvent ctl sched cur st fd ev None io1)) (\<lambda>(rt, io2).
        if rt \<noteq> 0 then
          (let io3 = (case timer of None \<Rightarrow> io2 | Some a \<Rightarrow> io2\<lparr>io_timers := snd (timer_cancel a (io_timers io2))\<rparr>)
           in Inr (fr\<lparr>fr_control := Returned (- 1)\<rparr>, w\<lparr>hw_io := io3\<rparr>))
        else Inr (fr\<lparr>fr_control := Suspended timer\<rparr>, w\<lparr>hw_io := io2\<rparr>)))"

definition do_io_answer :: "'e ctl \<Rightarrow> nat option \<Rightarrow> nat \<Rightarrow> fiber_state \<Rightarrow> nat \<Rightarrow> nat \<Rightarrow> nat \<Rightarrow> u64 \<Rightarrow> int \<Rightarrow> event \<Rightarrow> u64
    \<Rightarrow> int \<Rightarrow> int \<Rightarrow> io_frame \<Rightarrow> ('k, 'e) hook_world \<Rightarrow> (io_frame \<times> ('k, 'e) hook_world) hook_result" where
  "do_io_answer ctl sched cur st tm tinfo cb now fd ev timeout n err fr w =
     (let w1 = w\<lparr>hw_errno := err\<rparr> in
      if n = - 1 \<and> err = EINTR then Inr (fr, w1)
      else if n = - 1 \<and> err = EAGAIN then do_io_block ctl sched cur st tm tinfo cb now fd ev timeout fr w1
      else Inr (fr\<lparr>fr_control := Returned n\<rparr>, w1))"

text \<open>The fiber is resumed: the timer is cancelled, and the flag decides between the error and \<^verbatim>\<open>goto retry\<close>.\<close>

definition do_io_resume :: "nat option \<Rightarrow> io_frame \<Rightarrow> ('k, 'e) hook_world \<Rightarrow> io_frame \<times> ('k, 'e) hook_world" where
  "do_io_resume timer fr w =
     (let io = hw_io w;
          io1 = (case timer of None \<Rightarrow> io | Some a \<Rightarrow> io\<lparr>io_timers := snd (timer_cancel a (io_timers io))\<rparr>);
          w1 = w\<lparr>hw_io := io1\<rparr>
      in if fr_cancelled fr \<noteq> 0 then (fr\<lparr>fr_control := Returned (- 1)\<rparr>, w1\<lparr>hw_errno := fr_cancelled fr\<rparr>)
         else (fr\<lparr>fr_control := At_call\<rparr>, w1))"

text \<open>The callback of the timer, run while the frame is alive (\<^verbatim>\<open>winfo.lock()\<close> succeeds).\<close>

definition do_io_timeout :: "'e ctl \<Rightarrow> int \<Rightarrow> event \<Rightarrow> io_frame \<Rightarrow> ('k, 'e) hook_world \<Rightarrow> (io_frame \<times> ('k, 'e) hook_world) hook_result" where
  "do_io_timeout ctl fd ev fr w =
     (if fr_cancelled fr \<noteq> 0 then Inr (fr, w)
      else bindE (from_io (cancelEvent ctl fd ev (hw_io w))) (\<lambda>(_, io). Inr (fr\<lparr>fr_cancelled := ETIMEDOUT\<rparr>, w\<lparr>hw_io := io\<rparr>)))"

text \<open>The event and the timeout that each hooked call hands to \<^verbatim>\<open>do_io\<close>.\<close>

datatype hooked = H_accept | H_read | H_readv | H_recv | H_recvfrom | H_recvmsg
  | H_write | H_writev | H_send | H_sendto | H_sendmsg

fun do_io_args :: "hooked \<Rightarrow> event \<times> int" where
  "do_io_args H_accept = (READ, SO_RCVTIMEO)"
| "do_io_args H_read = (READ, SO_RCVTIMEO)"
| "do_io_args H_readv = (READ, SO_RCVTIMEO)"
| "do_io_args H_recv = (READ, SO_RCVTIMEO)"
| "do_io_args H_recvfrom = (READ, SO_RCVTIMEO)"
| "do_io_args H_recvmsg = (READ, SO_RCVTIMEO)"
| "do_io_args H_write = (WRITE, SO_SNDTIMEO)"
| "do_io_args H_writev = (WRITE, SO_SNDTIMEO)"
| "do_io_args H_send = (WRITE, SO_SNDTIMEO)"
| "do_io_args H_sendto = (WRITE, SO_SNDTIMEO)"
| "do_io_args H_sendmsg = (WRITE, SO_SNDTIMEO)"

definition hooked_route :: "'k os \<Rightarrow> hooked \<Rightarrow> int \<Rightarrow> ('k, 'e) hook_world \<Rightarrow> io_route hook_result" where
  "hooked_route os h fd w = do_io_route os fd (snd (do_io_args h)) w"

section \<open>Sleeping\<close>

text \<open>
  Each sleep registers a one-shot timer whose callback schedules the fiber; the argument of \<^verbatim>\<open>addTimer\<close> is computed
  in the width the code uses: \<^verbatim>\<open>unsigned int\<close>, \<^verbatim>\<open>useconds_t\<close>, and \<^verbatim>\<open>int\<close> from 64-bit fields.
\<close>

definition sleep_period :: "u32 \<Rightarrow> u64" where "sleep_period seconds = ucast (seconds * 1000)"
definition usleep_period :: "u32 \<Rightarrow> u64" where "usleep_period usec = ucast (usec div 1000)"

definition nanosleep_period :: "64 word \<Rightarrow> 64 word \<Rightarrow> u64" where
  "nanosleep_period tv_sec tv_nsec =
     (let timeout_ms = ucast (tv_sec * 1000 + word_of_int (sint tv_nsec sdiv 1000 sdiv 1000)) :: u32
      in word_of_int (sint timeout_ms))"

definition hook_sleep :: "nat \<Rightarrow> u64 \<Rightarrow> nat \<Rightarrow> u64 \<Rightarrow> ('k, 'e) hook_world \<Rightarrow> ('k, 'e) hook_world option" where
  "hook_sleep tm now cb period w =
     (if \<not> hw_enable w then None
      else let io = hw_io w in
        Some (w\<lparr>hw_io := io\<lparr>io_timers := snd (addTimer tm now period (Some (Plain cb)) False (io_timers io))\<rparr>\<rparr>))"

section \<open>Sockets and their options\<close>

text \<open>\<open>raw\<close> is what the system's \<^verbatim>\<open>socket\<close> or the \<^verbatim>\<open>do_io\<close> of \<^verbatim>\<open>accept\<close> returned, with the kernel it left in \<open>w\<close>.\<close>

definition hook_socket :: "'k os \<Rightarrow> int \<Rightarrow> ('k, 'e) hook_world \<Rightarrow> (int \<times> ('k, 'e) hook_world) hook_result" where
  "hook_socket os raw w =
     (if \<not> hw_enable w then Inr (raw, w)
      else if raw = - 1 then Inr (raw, w)
      else bindE (hw_get os raw True w) (\<lambda>(_, w1). Inr (raw, w1)))"

definition hook_accept :: "'k os \<Rightarrow> int \<Rightarrow> ('k, 'e) hook_world \<Rightarrow> (int \<times> ('k, 'e) hook_world) hook_result" where
  "hook_accept os raw w =
     (if 0 \<le> raw then bindE (hw_get os raw True w) (\<lambda>(_, w1). Inr (raw, w1)) else Inr (raw, w))"

definition hook_close :: "'k os \<Rightarrow> 'e ctl \<Rightarrow> bool \<Rightarrow> int \<Rightarrow> ('k, 'e) hook_world \<Rightarrow> ('k, 'e) hook_world hook_result" where
  "hook_close os ctl has_iom fd w =
     (if \<not> hw_enable w then Inr w
      else bindE (hw_get os fd False w) (\<lambda>(ctx, w1).
        if ctx = None then Inr w1
        else bindE (if has_iom then bindE (from_io (cancelAll ctl fd (hw_io w1))) (\<lambda>(_, io). Inr (w1\<lparr>hw_io := io\<rparr>)) else Inr w1) (\<lambda>w2.
          case fdm_del fd (hw_fds w2) of Inl e \<Rightarrow> Inl (Hook_fdm e) | Inr ds \<Rightarrow> Inr (w2\<lparr>hw_fds := ds\<rparr>))))"

definition hook_fcntl_setfl :: "'k os \<Rightarrow> int \<Rightarrow> u32 \<Rightarrow> ('k, 'e) hook_world \<Rightarrow> (int \<times> ('k, 'e) hook_world) hook_result" where
  "hook_fcntl_setfl os fd arg w =
     bindE (hw_get os fd False w) (\<lambda>(ctx, w1).
       case ctx of
         None \<Rightarrow> (let (r, k) = os_setfl os fd arg (hw_os w1) in Inr (r, w1\<lparr>hw_os := k\<rparr>))
       | Some c \<Rightarrow>
           if is_closed c \<or> \<not> is_socket c then (let (r, k) = os_setfl os fd arg (hw_os w1) in Inr (r, w1\<lparr>hw_os := k\<rparr>))
           else
             let c1 = c\<lparr>user_nonblock := (arg AND O_NONBLOCK \<noteq> 0)\<rparr>;
                 w2 = hw_update fd c1 w1;
                 arg1 = (if sys_nonblock c1 then arg OR O_NONBLOCK else arg AND NOT O_NONBLOCK);
                 (r, k) = os_setfl os fd arg1 (hw_os w2)
             in Inr (r, w2\<lparr>hw_os := k\<rparr>))"

definition hook_fcntl_getfl :: "'k os \<Rightarrow> int \<Rightarrow> ('k, 'e) hook_world \<Rightarrow> u32 hook_result" where
  "hook_fcntl_getfl os fd w =
     (let arg = os_getfl os fd (hw_os w) in
      bindE (hw_get os fd False w) (\<lambda>(ctx, _). Inr (case ctx of
          None \<Rightarrow> arg
        | Some c \<Rightarrow>
            if is_closed c \<or> \<not> is_socket c then arg
            else if user_nonblock c then arg OR O_NONBLOCK else arg AND NOT O_NONBLOCK)))"

text \<open>\<^verbatim>\<open>ioctl(d, FIONBIO, &v)\<close>; \<open>fionbio\<close> is the system's own call.\<close>

definition hook_ioctl_fionbio :: "'k os \<Rightarrow> (int \<Rightarrow> bool \<Rightarrow> 'k \<Rightarrow> int \<times> 'k) \<Rightarrow> int \<Rightarrow> bool \<Rightarrow> ('k, 'e) hook_world
    \<Rightarrow> (int \<times> ('k, 'e) hook_world) hook_result" where
  "hook_ioctl_fionbio os fionbio d nb w =
     bindE (hw_get os d False w) (\<lambda>(ctx, w1).
       let w2 = (case ctx of
             None \<Rightarrow> w1
           | Some c \<Rightarrow> if is_closed c \<or> \<not> is_socket c then w1 else hw_update d (c\<lparr>user_nonblock := nb\<rparr>) w1);
           (r, k) = fionbio d nb (hw_os w2)
       in Inr (r, w2\<lparr>hw_os := k\<rparr>))"

definition SOL_SOCKET :: int where "SOL_SOCKET = 1"

text \<open>The table's part of \<^verbatim>\<open>setsockopt\<close>: a \<^verbatim>\<open>timeval\<close> becomes milliseconds in 64-bit arithmetic.\<close>

definition hook_setsockopt :: "'k os \<Rightarrow> int \<Rightarrow> int \<Rightarrow> int \<Rightarrow> 64 word \<Rightarrow> 64 word \<Rightarrow> ('k, 'e) hook_world
    \<Rightarrow> ('k, 'e) hook_world hook_result" where
  "hook_setsockopt os fd level optname tv_sec tv_usec w =
     (if \<not> hw_enable w then Inr w
      else if level = SOL_SOCKET \<and> (optname = SO_RCVTIMEO \<or> optname = SO_SNDTIMEO) then
        bindE (hw_get os fd False w) (\<lambda>(ctx, w1). Inr (case ctx of
            None \<Rightarrow> w1
          | Some c \<Rightarrow> hw_update fd (setTimeout optname (tv_sec * 1000 + word_of_int (sint tv_usec sdiv 1000)) c) w1))
      else Inr w)"

section \<open>connect_with_timeout\<close>

datatype connect_route = Connect_raw | Connect_badf | Connect_wait

definition connect_route :: "'k os \<Rightarrow> int \<Rightarrow> ('k, 'e) hook_world \<Rightarrow> connect_route hook_result" where
  "connect_route os fd w =
     (if \<not> hw_enable w then Inr Connect_raw
      else bindE (hw_get os fd False w) (\<lambda>(ctx, _). Inr (case ctx of
          None \<Rightarrow> Connect_badf
        | Some c \<Rightarrow> if is_closed c then Connect_badf else if \<not> is_socket c then Connect_raw
            else if user_nonblock c then Connect_raw else Connect_wait)))"

text \<open>
  The first half of the waiting way: the raw \<^verbatim>\<open>connect\<close> returned \<open>n\<close> with \<^verbatim>\<open>errno\<close> \<open>err\<close>. When the
  event cannot be registered, the call goes on to check the socket's error at once.
\<close>

datatype connect_next = Connect_done int | Connect_suspended "nat option" | Connect_check

definition connect_start :: "'e ctl \<Rightarrow> nat option \<Rightarrow> nat \<Rightarrow> fiber_state \<Rightarrow> nat \<Rightarrow> nat \<Rightarrow> nat \<Rightarrow> u64 \<Rightarrow> int \<Rightarrow> u64 \<Rightarrow> int \<Rightarrow> int
    \<Rightarrow> ('k, 'e) hook_world \<Rightarrow> (connect_next \<times> ('k, 'e) hook_world) hook_result" where
  "connect_start ctl sched cur st tm tinfo cb now fd timeout n err w0 =
     (let w = w0\<lparr>hw_errno := err\<rparr> in
      if n = 0 then Inr (Connect_done 0, w)
      else if n \<noteq> - 1 \<or> err \<noteq> EINPROGRESS then Inr (Connect_done n, w)
      else
        let io = hw_io w;
            (timer, io1) = (if timeout \<noteq> - 1
               then (Some tm, io\<lparr>io_timers := snd (addConditionTimer tm now timeout cb tinfo False (io_timers io))\<rparr>)
               else (None, io))
        in bindE (from_io (addEvent ctl sched cur st fd WRITE None io1)) (\<lambda>(rt, io2).
          if rt = 0 then Inr (Connect_suspended timer, w\<lparr>hw_io := io2\<rparr>)
          else
            (let io3 = (case timer of None \<Rightarrow> io2 | Some a \<Rightarrow> io2\<lparr>io_timers := snd (timer_cancel a (io_timers io2))\<rparr>)
             in Inr (Connect_check, w\<lparr>hw_io := io3\<rparr>))))"

definition connect_resume :: "nat option \<Rightarrow> int \<Rightarrow> ('k, 'e) hook_world \<Rightarrow> connect_next \<times> ('k, 'e) hook_world" where
  "connect_resume timer cancelled w =
     (let io = hw_io w;
          io1 = (case timer of None \<Rightarrow> io | Some a \<Rightarrow> io\<lparr>io_timers := snd (timer_cancel a (io_timers io))\<rparr>);
          w1 = w\<lparr>hw_io := io1\<rparr>
      in if cancelled \<noteq> 0 then (Connect_done (- 1), w1\<lparr>hw_errno := cancelled\<rparr>) else (Connect_check, w1))"

text \<open>\<^verbatim>\<open>getsockopt(SO_ERROR)\<close> returned \<open>r\<close> and the pending error \<open>e\<close> of the socket.\<close>

definition connect_check :: "int \<Rightarrow> int \<Rightarrow> ('k, 'e) hook_world \<Rightarrow> int \<times> ('k, 'e) hook_world" where
  "connect_check r e w = (if r = - 1 then (- 1, w) else if e = 0 then (0, w) else (- 1, w\<lparr>hw_errno := e\<rparr>))"

section \<open>What a hooked call returns\<close>

text \<open>
  The life of one call in the retry loop, with the rest of the process between its steps: the raw call is
  answered, the fiber is resumed, the timer's callback runs (once a timer was made, also after the fiber
  went on), and other fibers change the world.
\<close>

datatype call_event = Answered int int | Resumed | Timed_out | Elsewhere

type_synonym 'e call_params = "'e ctl \<times> nat option \<times> nat \<times> fiber_state \<times> nat \<times> nat \<times> nat"

inductive call_run :: "'e call_params \<Rightarrow> int \<Rightarrow> event \<Rightarrow> u64 \<Rightarrow> io_frame \<times> ('k, 'e) hook_world
    \<Rightarrow> call_event list \<Rightarrow> io_frame \<times> ('k, 'e) hook_world \<Rightarrow> bool"
  for ps fd ev timeout s0 where
  run_start: "call_run ps fd ev timeout s0 [] s0"
| run_answer: "call_run ps fd ev timeout s0 es (fr, w) \<Longrightarrow> fr_control fr = At_call \<Longrightarrow>
    ps = (ctl, sched, cur, st, tm, tinfo, cb) \<Longrightarrow>
    do_io_answer ctl sched cur st tm tinfo cb now fd ev timeout n err fr w = Inr s \<Longrightarrow>
    call_run ps fd ev timeout s0 (es @ [Answered n err]) s"
| run_resume: "call_run ps fd ev timeout s0 es (fr, w) \<Longrightarrow> fr_control fr = Suspended t \<Longrightarrow>
    call_run ps fd ev timeout s0 (es @ [Resumed]) (do_io_resume t fr w)"
| run_timeout: "call_run ps fd ev timeout s0 es (fr, w) \<Longrightarrow> fr_control fr \<in> {At_call} \<union> range Suspended \<Longrightarrow>
    timeout \<noteq> - 1 \<Longrightarrow> do_io_timeout (fst ps) fd ev fr w = Inr s \<Longrightarrow>
    call_run ps fd ev timeout s0 (es @ [Timed_out]) s"
| run_elsewhere: "call_run ps fd ev timeout s0 es (fr, w) \<Longrightarrow> fr_control fr \<in> {At_call} \<union> range Suspended \<Longrightarrow>
    call_run ps fd ev timeout s0 (es @ [Elsewhere]) (fr, w')"

text \<open>
  The answer of \<^verbatim>\<open>epoll_ctl\<close> that decides whether a call can wait, in the world in which the raw call would block: \<open>polled\<close> says whether
  the kernel accepts the interest in the event beside the events the descriptor has, and \<open>polled_after\<close> that it does (or does
  not) at the raw call that follows a trace.
\<close>

definition polled :: "'e call_params \<Rightarrow> int \<Rightarrow> event \<Rightarrow> ('k, 'e) hook_world \<Rightarrow> bool \<Rightarrow> bool" where
  "polled ps fd ev w accepts \<longleftrightarrow> (\<exists>fc. fd_context_at (nat fd) (hw_io w) = Inr fc
     \<and> (fst (fst ps (if fc_events fc \<noteq> 0 then CTL_MOD else CTL_ADD) (nat fd) (EPOLLET OR fc_events fc OR ev) (io_kernel (hw_io w))) = 0)
        = accepts)"

definition polled_after :: "'e call_params \<Rightarrow> int \<Rightarrow> event \<Rightarrow> u64 \<Rightarrow> io_frame \<times> ('k, 'e) hook_world \<Rightarrow> call_event list \<Rightarrow> bool \<Rightarrow> bool" where
  "polled_after ps fd ev timeout s0 es accepts \<longleftrightarrow>
     (\<exists>fr w. call_run ps fd ev timeout s0 es (fr, w) \<and> fr_control fr = At_call \<and> polled ps fd ev w accepts)"

lemma addEvent_polled:
  assumes "addEvent ctl sched cur st fd ev cb io = Inr (rt, io')"
  shows "\<exists>fc. fd_context_at (nat fd) io = Inr fc
    \<and> (fst (ctl (if fc_events fc \<noteq> 0 then CTL_MOD else CTL_ADD) (nat fd) (EPOLLET OR fc_events fc OR ev) (io_kernel io)) = 0) = (rt = 0)"
proof -
  have fd: "0 \<le> fd" using assms by (auto simp: addEvent_def split: if_splits)
  have len: "fd < int (length (io_contexts io))"
    using assms fd by (auto simp: addEvent_def fd_context_at_def Let_def nth_append split: if_splits option.splits)
  then obtain fc where fc: "fd_context_at (nat fd) io = Inr fc"
    using assms fd by (auto simp: addEvent_def Let_def bindE_Inr_iff)
  obtain r k where ctl: "ctl (if fc_events fc \<noteq> 0 then CTL_MOD else CTL_ADD) (nat fd) (EPOLLET OR fc_events fc OR ev) (io_kernel io) = (r, k)"
    by force
  have "r = 0 \<longleftrightarrow> rt = 0"
    using assms fd len fc ctl by (cases "r = 0") (auto simp: addEvent_def Let_def bindE_Inr_iff split: if_splits)
  then show ?thesis using fc ctl by simp
qed

lemma do_io_block_cases:
  assumes "do_io_block ctl sched cur st tm tinfo cb now fd ev timeout fr w = Inr (fr', w')"
  shows "fr_cancelled fr' = fr_cancelled fr
    \<and> (fr_control fr' = Returned (- 1) \<and> polled (ctl, sched, cur, st, tm, tinfo, cb) fd ev w False
       \<or> fr_control fr' \<in> range Suspended \<and> polled (ctl, sched, cur, st, tm, tinfo, cb) fd ev w True)"
proof -
  obtain timer io1 where t: "(if timeout \<noteq> - 1
      then (Some tm, (hw_io w)\<lparr>io_timers := snd (addConditionTimer tm now timeout cb tinfo False (io_timers (hw_io w)))\<rparr>)
      else (None, hw_io w)) = (timer, io1)" by force
  then have io1: "fd_context_at i io1 = fd_context_at i (hw_io w)" "io_kernel io1 = io_kernel (hw_io w)" for i
    by (auto simp: fd_context_at_def split: if_splits)
  obtain rt io2 where r: "addEvent ctl sched cur st fd ev None io1 = Inr (rt, io2)"
    using assms unfolding do_io_block_def Let_def t by (auto simp: bindE_Inr_iff from_io_def split: sum.splits)
  from addEvent_polled [OF this] have p: "polled (ctl, sched, cur, st, tm, tinfo, cb) fd ev w (rt = 0)"
    unfolding polled_def io1 fst_conv .
  show ?thesis
    using assms p unfolding do_io_block_def Let_def t by (cases "rt = 0") (auto simp: r from_io_def)
qed

text \<open>Where a call has come to: what a return means, and that a call which is suspended was accepted by the kernel.\<close>

definition call_outcome :: "'e call_params \<Rightarrow> int \<Rightarrow> event \<Rightarrow> u64 \<Rightarrow> io_frame \<times> ('k, 'e) hook_world \<Rightarrow> call_event list \<Rightarrow> io_frame
    \<Rightarrow> ('k, 'e) hook_world \<Rightarrow> bool" where
  "call_outcome ps fd ev timeout s0 es fr w \<longleftrightarrow>
     (fr_cancelled fr \<noteq> 0 \<longrightarrow> fr_cancelled fr = ETIMEDOUT \<and> Timed_out \<in> set es \<and> timeout \<noteq> - 1)
   \<and> (\<forall>t. fr_control fr = Suspended t \<longrightarrow> (\<exists>es1 es2. es = es1 @ Answered (- 1) EAGAIN # es2 \<and> set es2 \<subseteq> {Timed_out, Elsewhere}
        \<and> polled_after ps fd ev timeout s0 es1 True))
   \<and> (\<forall>n. fr_control fr = Returned n \<longrightarrow>
        (\<exists>err. last es = Answered n err \<and> hw_errno w = err \<and> \<not> (n = - 1 \<and> (err = EINTR \<or> err = EAGAIN)))
      \<or> n = - 1 \<and> hw_errno w = ETIMEDOUT \<and> Timed_out \<in> set es \<and> timeout \<noteq> - 1
        \<and> (\<exists>es1 es2. es = es1 @ Answered (- 1) EAGAIN # es2 @ [Resumed] \<and> set es2 \<subseteq> {Timed_out, Elsewhere}
             \<and> polled_after ps fd ev timeout s0 es1 True)
      \<or> n = - 1 \<and> (\<exists>es1. es = es1 @ [Answered (- 1) EAGAIN] \<and> polled_after ps fd ev timeout s0 es1 False))"

lemma suspended_more:
  "\<exists>es1 es2. es = es1 @ a # es2 \<and> set es2 \<subseteq> S \<and> P es1 \<Longrightarrow> e \<in> S \<Longrightarrow> \<exists>es1 es2. es @ [e] = es1 @ a # es2 \<and> set es2 \<subseteq> S \<and> P es1"
proof (elim exE conjE)
  fix es1 es2
  assume "es = es1 @ a # es2" "set es2 \<subseteq> S" "P es1" "e \<in> S"
  then show ?thesis by (intro exI [of _ es1] exI [of _ "es2 @ [e]"]) simp
qed

lemma call_run_outcome:
  assumes "call_run ps fd ev timeout s0 es s" and "s0 = (\<lparr>fr_control = At_call, fr_cancelled = 0\<rparr>, w0)"
  shows "call_outcome ps fd ev timeout s0 es (fst s) (snd s)"
  using assms
proof induction
  case run_start
  then show ?case by (simp add: call_outcome_def)
next
  case (run_answer es fr w ctl sched cur st tm tinfo cb now n err s)
  obtain fr' w' where s: "s = (fr', w')" by force
  have pw: "polled ps fd ev (w\<lparr>hw_errno := EAGAIN\<rparr>) b \<Longrightarrow> polled_after ps fd ev timeout s0 es b" for b
  proof -
    assume "polled ps fd ev (w\<lparr>hw_errno := EAGAIN\<rparr>) b"
    then have "polled ps fd ev w b" by (simp add: polled_def)
    then show "polled_after ps fd ev timeout s0 es b" using run_answer(1,2) unfolding polled_after_def by blast
  qed
  have cases: "fr' = fr \<and> n = - 1 \<and> err = EINTR
    \<or> n = - 1 \<and> err = EAGAIN \<and> fr_cancelled fr' = fr_cancelled fr
       \<and> (fr_control fr' = Returned (- 1) \<and> polled_after ps fd ev timeout s0 es False
         \<or> fr_control fr' \<in> range Suspended \<and> polled_after ps fd ev timeout s0 es True)
    \<or> \<not> (n = - 1 \<and> (err = EINTR \<or> err = EAGAIN)) \<and> fr' = fr\<lparr>fr_control := Returned n\<rparr> \<and> hw_errno w' = err"
    using run_answer(4) s pw run_answer(3) by (auto simp: do_io_answer_def Let_def errno_defs dest!: do_io_block_cases split: if_splits)
  have a: "fr_cancelled fr \<noteq> 0 \<longrightarrow> fr_cancelled fr = ETIMEDOUT \<and> Timed_out \<in> set es \<and> timeout \<noteq> - 1"
    using run_answer.IH [OF run_answer.prems] by (simp add: call_outcome_def)
  from cases show ?case
  proof (elim disjE conjE)
    assume "fr_control fr' \<in> range Suspended" "n = - 1" "err = EAGAIN" "fr_cancelled fr' = fr_cancelled fr" "polled_after ps fd ev timeout s0 es True"
    moreover from this have "\<exists>es1 es2. es @ [Answered n err] = es1 @ Answered (- 1) EAGAIN # es2 \<and> set es2 \<subseteq> {Timed_out, Elsewhere}
        \<and> polled_after ps fd ev timeout s0 es1 True"
      by (intro exI [of _ es] exI [of _ "[]"]) simp
    ultimately show ?thesis using a unfolding call_outcome_def s fst_conv snd_conv by auto
  next
    assume "fr_control fr' = Returned (- 1)" "n = - 1" "err = EAGAIN" "fr_cancelled fr' = fr_cancelled fr" "polled_after ps fd ev timeout s0 es False"
    then show ?thesis using a unfolding call_outcome_def s by auto
  qed (use a run_answer(2) in \<open>auto simp: call_outcome_def s\<close>)
next
  case (run_resume es fr w t)
  note o = run_resume.IH [OF run_resume.prems, unfolded call_outcome_def fst_conv snd_conv]
  then have a: "fr_cancelled fr \<noteq> 0 \<longrightarrow> fr_cancelled fr = ETIMEDOUT \<and> Timed_out \<in> set es \<and> timeout \<noteq> - 1" by blast
  obtain es1 es2 where e: "es = es1 @ Answered (- 1) EAGAIN # es2" "set es2 \<subseteq> {Timed_out, Elsewhere}" "polled_after ps fd ev timeout s0 es1 True"
    using o run_resume(2) by blast
  have "\<exists>es1' es2'. es @ [Resumed] = es1' @ Answered (- 1) EAGAIN # es2' @ [Resumed] \<and> set es2' \<subseteq> {Timed_out, Elsewhere}
      \<and> polled_after ps fd ev timeout s0 es1' True"
    using e by (intro exI [of _ es1] exI [of _ es2]) simp
  then show ?case using a by (cases "fr_cancelled fr = 0") (simp_all add: call_outcome_def do_io_resume_def Let_def)
next
  case (run_timeout es fr w s)
  have o: "call_outcome ps fd ev timeout s0 es fr w" using run_timeout.IH [OF run_timeout.prems] by simp
  have s: "fr_control (fst s) = fr_control fr" "fr_cancelled (fst s) = fr_cancelled fr \<or> fr_cancelled (fst s) = ETIMEDOUT"
    using run_timeout(4) by (auto simp: do_io_timeout_def bindE_Inr_iff split: if_splits)
  show ?case
    unfolding call_outcome_def s(1)
    using o s(2) run_timeout(2,3) suspended_more [of es "Answered (- 1) EAGAIN" "{Timed_out, Elsewhere}" "\<lambda>es1. polled_after ps fd ev timeout s0 es1 True" Timed_out]
    unfolding call_outcome_def by (intro conjI allI impI) auto
next
  case (run_elsewhere es fr w w')
  then have o: "call_outcome ps fd ev timeout s0 es fr w" by simp
  show ?case
    unfolding call_outcome_def
    using o run_elsewhere(2) suspended_more [of es "Answered (- 1) EAGAIN" "{Timed_out, Elsewhere}" "\<lambda>es1. polled_after ps fd ev timeout s0 es1 True" Elsewhere]
    unfolding call_outcome_def by (intro conjI allI impI) auto
qed

text \<open>
  Property C7. A hooked read or write that waits behaves like a blocking call with a timeout, whatever other fibers
  do meanwhile. It returns the last answer of the raw call, never an interruption or "would block";
  or -1 with \<^verbatim>\<open>ETIMEDOUT\<close>, after its timer ran, only when a timeout was set, and out of a wait that the kernel had accepted
  when the raw call would block; or -1 at once when the raw call would block and \<^verbatim>\<open>epoll_ctl\<close> refused the event.
\<close>

theorem hooked_call_result:
  assumes "call_run ps fd ev timeout (\<lparr>fr_control = At_call, fr_cancelled = 0\<rparr>, w0) es (fr, w)" and "fr_control fr = Returned n"
  shows "(\<exists>err. last es = Answered n err \<and> hw_errno w = err \<and> \<not> (n = - 1 \<and> (err = EINTR \<or> err = EAGAIN)))
    \<or> n = - 1 \<and> hw_errno w = ETIMEDOUT \<and> Timed_out \<in> set es \<and> timeout \<noteq> - 1
      \<and> (\<exists>es1 es2. es = es1 @ Answered (- 1) EAGAIN # es2 @ [Resumed] \<and> set es2 \<subseteq> {Timed_out, Elsewhere}
           \<and> polled_after ps fd ev timeout (\<lparr>fr_control = At_call, fr_cancelled = 0\<rparr>, w0) es1 True)
    \<or> n = - 1 \<and> (\<exists>es1. es = es1 @ [Answered (- 1) EAGAIN]
           \<and> polled_after ps fd ev timeout (\<lparr>fr_control = At_call, fr_cancelled = 0\<rparr>, w0) es1 False)"
  using call_run_outcome [OF assms(1) refl] assms(2) by (simp add: call_outcome_def)

definition example_hook :: "(int \<Rightarrow> u32, nat \<Rightarrow> u32 option) hook_world" where
  "example_hook = \<lparr>hw_enable = True, hw_fds = new_fd_manager, hw_os = (\<lambda>_. 2), hw_errno = 0, hw_io = example_io\<rparr>"

lemma example_call:
  "call_run (map_ctl, Some 2, 10, EXEC, 50, 60, 70) 5 READ 1000 (\<lparr>fr_control = At_call, fr_cancelled = 0\<rparr>, example_hook)
     [Answered (- 1) EINTR, Answered 3 0] (\<lparr>fr_control = Returned 3, fr_cancelled = 0\<rparr>, example_hook)"
proof -
  have "call_run (map_ctl, Some 2, 10, EXEC, 50, 60, 70) 5 READ 1000 (\<lparr>fr_control = At_call, fr_cancelled = 0\<rparr>, example_hook)
     ([] @ [Answered (- 1) EINTR]) (\<lparr>fr_control = At_call, fr_cancelled = 0\<rparr>, example_hook\<lparr>hw_errno := EINTR\<rparr>)"
    by (rule run_answer [OF run_start _ refl, where now = 0]) (simp_all add: do_io_answer_def)
  from run_answer [OF this _ refl, of 0 3 0 "(\<lparr>fr_control = Returned 3, fr_cancelled = 0\<rparr>, example_hook)"]
  show ?thesis by (simp add: do_io_answer_def example_hook_def)
qed

text \<open>A socket that the kernel watches already without the manager: its event is refused.\<close>

definition refusing_hook :: "(int \<Rightarrow> u32, nat \<Rightarrow> u32 option) hook_world" where
  "refusing_hook = example_hook\<lparr>hw_io := example_io\<lparr>io_kernel := [5 \<mapsto> EPOLLET]\<rparr>\<rparr>"

lemma refused_call:
  "\<exists>w. call_run (map_ctl, Some 2, 10, EXEC, 50, 60, 70) 5 READ (- 1) (\<lparr>fr_control = At_call, fr_cancelled = 0\<rparr>, refusing_hook)
     ([] @ [Answered (- 1) EAGAIN]) (\<lparr>fr_control = Returned (- 1), fr_cancelled = 0\<rparr>, w)"
proof -
  have "\<exists>io. addEvent map_ctl (Some 2) 10 EXEC 5 READ None (example_io\<lparr>io_kernel := [5 \<mapsto> EPOLLET]\<rparr>) = Inr (- 1, io)"
    by (simp add: addEvent_def Let_def example_io_at io_assert_def map_ctl_def new_fd_context_def NONE_def)
  then obtain w where "do_io_answer map_ctl (Some 2) 10 EXEC 50 60 70 0 5 READ (- 1) (- 1) EAGAIN \<lparr>fr_control = At_call, fr_cancelled = 0\<rparr> refusing_hook
      = Inr (\<lparr>fr_control = Returned (- 1), fr_cancelled = 0\<rparr>, w)"
    by (auto simp: do_io_answer_def do_io_block_def Let_def errno_defs from_io_def refusing_hook_def example_hook_def)
  from run_answer [OF run_start _ refl this] show ?thesis by auto
qed

theorem hooked_call_result_witness:
  "(\<exists>err. last [Answered (- 1) EINTR, Answered 3 0] = Answered 3 err \<and> hw_errno example_hook = err
      \<and> \<not> (3 = (- 1 :: int) \<and> (err = EINTR \<or> err = EAGAIN)))
   \<and> polled_after (map_ctl, Some 2, 10, EXEC, 50, 60, 70) 5 READ (- 1) (\<lparr>fr_control = At_call, fr_cancelled = 0\<rparr>, refusing_hook) [] False"
proof -
  from refused_call obtain w where r: "call_run (map_ctl, Some 2, 10, EXEC, 50, 60, 70) 5 READ (- 1)
      (\<lparr>fr_control = At_call, fr_cancelled = 0\<rparr>, refusing_hook) ([] @ [Answered (- 1) EAGAIN])
      (\<lparr>fr_control = Returned (- 1), fr_cancelled = 0\<rparr>, w)" by blast
  show ?thesis using hooked_call_result [OF example_call] hooked_call_result [OF r] by (auto simp: Cons_eq_append_conv)
qed

section \<open>Flags and timeouts of hooked descriptors\<close>

abbreviation hook_ok :: "'k os \<Rightarrow> ('k, 'e) hook_world \<Rightarrow> bool" where
  "hook_ok os w \<equiv> setfl_law os \<and> fstat_stable os \<and> nb_ok os (hw_fds w) (hw_os w) \<and> 2 \<le> length (hw_fds w)"

lemma hw_lookup: "0 \<le> fd \<Longrightarrow> hw_get os fd False w = Inr (fdm_abs (hw_fds w) fd, w)"
  using fdm_lookup [of fd os "hw_fds w" "hw_os w"] by (simp add: hw_get_def)

lemma hw_get_ok:
  assumes "hook_ok os w" and "0 \<le> fd" and "hw_get os fd auto w = Inr (c, w')"
  shows "hook_ok os w'"
proof -
  obtain ds k where g: "fdm_get os fd auto (hw_fds w) (hw_os w) = Inr (c, ds, k)" and w': "w' = w\<lparr>hw_fds := ds, hw_os := k\<rparr>"
    using assms(3) by (auto simp: hw_get_def split: sum.splits)
  have "nb_ok os ds k" using fdm_get_nb_ok [OF _ _ _ assms(2) _ g] assms(1) by blast
  moreover have "length (hw_fds w) \<le> length ds"
  proof (cases auto)
    case True
    then show ?thesis using fdm_get_creates [OF assms(2), of "hw_fds w" os "hw_os w"] g assms(1) by auto
  next
    case False
    then show ?thesis using fdm_lookup [of fd os "hw_fds w" "hw_os w"] g assms(2) by simp
  qed
  ultimately show ?thesis using assms(1) by (simp add: w')
qed

lemma fdm_abs_upd:
  "fdm_abs ds fd = Some c \<Longrightarrow> fdm_abs (ds[nat fd := Some c']) = (fdm_abs ds)(fd \<mapsto> c')"
  by (auto simp: fdm_abs_def fun_eq_iff nth_list_update nat_eq_iff split: if_splits)

lemma hw_update_ok:
  assumes "hook_ok os w" and "fdm_abs (hw_fds w) fd = Some c" and "ctx_fd c' = ctx_fd c" and "is_socket c' = is_socket c"
    and "sys_nonblock c' = sys_nonblock c"
  shows "hook_ok os (hw_update fd c' w)"
  using assms by (auto simp: hw_update_def nb_ok_def fdm_abs_upd)

lemma setfl_nb_ok:
  assumes "hook_ok os w" and "fd_ctx_socket = (\<exists>c. fdm_abs (hw_fds w) fd = Some c \<and> is_socket c)"
    and "fd_ctx_socket \<Longrightarrow> fl AND O_NONBLOCK \<noteq> 0" and "os_fstat os fd (hw_os w) \<noteq> None" and "os_setfl os fd fl (hw_os w) = (r, k)"
  shows "hook_ok os (w\<lparr>hw_os := k\<rparr>)"
proof -
  have st: "os_fstat os g k = os_fstat os g (hw_os w)" for g
    using assms(1,5) by (metis fstat_stable_def snd_conv)
  have fl: "os_getfl os fd k = (if r = 0 then setfl_flags (os_getfl os fd (hw_os w)) fl else os_getfl os fd (hw_os w))"
      "g \<noteq> fd \<Longrightarrow> os_getfl os g k = os_getfl os g (hw_os w)" for g
    using assms(1,4,5) by (auto simp: setfl_law_def)
  have "nonblocking os g k \<and> os_fstat os g k \<noteq> None"
    if "fdm_abs (hw_fds w) g = Some c" "is_socket c" for g c
  proof (cases "g = fd")
    case True
    then show ?thesis using that assms(1-4) fl st by (cases "r = 0") (auto simp: nonblocking_def setfl_nonblock nb_ok_def)
  next
    case False
    then show ?thesis using that assms(1) fl(2) [OF False] st by (auto simp: nb_ok_def nonblocking_def)
  qed
  then show ?thesis using assms(1) by (auto simp: nb_ok_def)
qed

lemma hook_setfl_socket:
  assumes "hook_ok os w" and "0 \<le> fd" and "fdm_abs (hw_fds w) fd = Some c" and "is_socket c" and "\<not> is_closed c"
  shows "\<exists>r k. os_setfl os fd (arg OR O_NONBLOCK) (hw_os w) = (r, k)
    \<and> hook_fcntl_setfl os fd arg w = Inr (r, (hw_update fd (c\<lparr>user_nonblock := (arg AND O_NONBLOCK \<noteq> 0)\<rparr>) w)\<lparr>hw_os := k\<rparr>)"
proof -
  obtain r k where s: "os_setfl os fd (arg OR O_NONBLOCK) (hw_os w) = (r, k)" by force
  have "sys_nonblock c" using assms(1,3,4) by (auto simp: nb_ok_def)
  then show ?thesis
    using assms(4,5) s by (simp add: hook_fcntl_setfl_def hw_lookup [OF assms(2)] assms(3) Let_def hw_update_def)
qed

lemma flag_shown:
  "(if user then fl OR O_NONBLOCK else fl AND NOT O_NONBLOCK) = (fl AND NOT O_NONBLOCK) OR (if user then O_NONBLOCK else 0)" for fl :: u32
  by (rule bit_word_eqI) (auto simp: bit_or_iff bit_and_iff bit_not_iff)

lemma flag_of: "(if arg AND O_NONBLOCK \<noteq> 0 then O_NONBLOCK else 0) = arg AND O_NONBLOCK" for arg :: u32
  by (rule bit_word_eqI) (auto simp: flag_test bit_and_iff flag_bit)

lemma flags_set:
  "(setfl_flags old (arg OR O_NONBLOCK) AND NOT O_NONBLOCK) OR (arg AND O_NONBLOCK) = setfl_flags ((old AND NOT O_NONBLOCK) OR u) arg"
  if "u = O_NONBLOCK \<or> u = 0" for old arg u :: u32
  by (rule bit_word_eqI) (use that in \<open>auto simp: setfl_flags_def bit_or_iff bit_and_iff bit_not_iff flag_bit settable_bit\<close>)

lemma flags_kept:
  "(old AND NOT O_NONBLOCK) OR (arg AND O_NONBLOCK) = (((old AND NOT O_NONBLOCK) OR u) AND NOT O_NONBLOCK) OR (arg AND O_NONBLOCK)"
  if "u = O_NONBLOCK \<or> u = 0" for old arg u :: u32
  by (rule bit_word_eqI) (use that in \<open>auto simp: bit_or_iff bit_and_iff bit_not_iff flag_bit\<close>)

lemma hook_getfl_socket:
  assumes "0 \<le> fd" and "fdm_abs (hw_fds w) fd = Some c" and "is_socket c" and "\<not> is_closed c"
  shows "hook_fcntl_getfl os fd w = Inr ((os_getfl os fd (hw_os w) AND NOT O_NONBLOCK) OR (if user_nonblock c then O_NONBLOCK else 0))"
  using assms(2-) by (simp add: hook_fcntl_getfl_def hw_lookup [OF assms(1)] Let_def flag_shown [symmetric])

text \<open>
  Property C34. The hooked \<^verbatim>\<open>fcntl\<close> hides that hiper made every socket non-blocking. Whatever \<^verbatim>\<open>F_GETFL\<close> showed, a successful
  \<^verbatim>\<open>F_SETFL\<close> changes it as on a descriptor without hooks: the flags that the call can set are those of the argument,
  \<^verbatim>\<open>O_NONBLOCK\<close> among them, and the others stay. A failed call changes no flag of the kernel, yet \<^verbatim>\<open>F_GETFL\<close> shows
  the \<^verbatim>\<open>O_NONBLOCK\<close> of its argument from then on. In both cases the kernel keeps the socket non-blocking, and the way that the
  I/O calls take follows the user's flag.
\<close>

theorem fcntl_transparent:
  assumes "hook_ok os w" and "0 \<le> fd" and "fdm_abs (hw_fds w) fd = Some c" and "is_socket c" and "\<not> is_closed c"
  shows "\<exists>seen r w'. hook_fcntl_getfl os fd w = Inr seen \<and> hook_fcntl_setfl os fd arg w = Inr (r, w')
    \<and> hook_fcntl_getfl os fd w' = Inr (if r = 0 then setfl_flags seen arg else (seen AND NOT O_NONBLOCK) OR (arg AND O_NONBLOCK))
    \<and> (r \<noteq> 0 \<longrightarrow> os_getfl os fd (hw_os w') = os_getfl os fd (hw_os w))
    \<and> nonblocking os fd (hw_os w') \<and> hook_ok os w'
    \<and> (hw_enable w \<longrightarrow> do_io_route os fd so w' = Inr (if arg AND O_NONBLOCK \<noteq> 0 then Raw_call else Retry_loop (getTimeout so c)))"
proof -
  let ?c = "c\<lparr>user_nonblock := (arg AND O_NONBLOCK \<noteq> 0)\<rparr>" and ?old = "os_getfl os fd (hw_os w)"
  let ?w1 = "hw_update fd ?c w" and ?u = "if user_nonblock c then O_NONBLOCK else 0"
  let ?seen = "(?old AND NOT O_NONBLOCK) OR ?u"
  from hook_setfl_socket [OF assms] obtain r k where s: "os_setfl os fd (arg OR O_NONBLOCK) (hw_os w) = (r, k)"
    "hook_fcntl_setfl os fd arg w = Inr (r, ?w1\<lparr>hw_os := k\<rparr>)" by blast
  have fs: "os_fstat os fd (hw_os w) \<noteq> None" and nb: "nonblocking os fd (hw_os w)" using assms(1,3,4) by (auto simp: nb_ok_def)
  have fl: "os_getfl os fd k = (if r = 0 then setfl_flags ?old (arg OR O_NONBLOCK) else ?old)"
    using s(1) fs assms(1) by (auto simp: setfl_law_def)
  have abs: "fdm_abs (hw_fds (?w1\<lparr>hw_os := k\<rparr>)) fd = Some ?c"
    by (simp add: hw_update_def fdm_abs_upd [OF assms(3)])
  have ok1: "hook_ok os ?w1" by (rule hw_update_ok [OF assms(1,3)]) simp_all
  have "hook_ok os (?w1\<lparr>hw_os := k\<rparr>)"
    by (rule setfl_nb_ok [where fl = "arg OR O_NONBLOCK" and fd = fd and r = r, OF ok1 refl]) (use s(1) fs in \<open>auto simp: hw_update_def\<close>)
  moreover have "nonblocking os fd k" using nb by (simp add: nonblocking_def fl setfl_nonblock)
  moreover have "hook_fcntl_getfl os fd w = Inr ?seen" by (rule hook_getfl_socket [OF assms(2-5)])
  moreover have "hook_fcntl_getfl os fd (?w1\<lparr>hw_os := k\<rparr>) = Inr (if r = 0 then setfl_flags ?seen arg else (?seen AND NOT O_NONBLOCK) OR (arg AND O_NONBLOCK))"
  proof -
    have "hook_fcntl_getfl os fd (?w1\<lparr>hw_os := k\<rparr>) = Inr ((os_getfl os fd k AND NOT O_NONBLOCK) OR (arg AND O_NONBLOCK))"
      unfolding hook_getfl_socket [OF assms(2) abs, simplified, OF assms(4,5)] using flag_of [of arg] by simp
    then show ?thesis using flags_set [of ?u ?old arg] flags_kept [of ?u ?old arg] by (simp add: fl)
  qed
  moreover have "do_io_route os fd so (?w1\<lparr>hw_os := k\<rparr>) = Inr (if arg AND O_NONBLOCK \<noteq> 0 then Raw_call else Retry_loop (getTimeout so c))"
    if "hw_enable w"
    using that assms(4,5) by (simp add: do_io_route_def hw_lookup [OF assms(2)] hw_update_def fdm_abs_upd [OF assms(3)] getTimeout_def)
  ultimately show ?thesis using s(2) fl by (intro exI [of _ ?seen] exI [of _ r] exI [of _ "?w1\<lparr>hw_os := k\<rparr>"]) simp
qed

definition example_socket :: "(int \<Rightarrow> u32, nat \<Rightarrow> u32 option) hook_world" where
  "example_socket = example_hook\<lparr>hw_fds := new_fd_manager[5 := Some \<lparr>is_init = True, is_socket = True, sys_nonblock = True,
     user_nonblock = False, is_closed = False, ctx_fd = 5, recv_timeout = - 1, send_timeout = - 1\<rparr>],
     hw_os := (\<lambda>_. O_NONBLOCK)\<rparr>"

lemma example_socket_abs: "fdm_abs (hw_fds example_socket) fd = (if fd = 5 then Some \<lparr>is_init = True, is_socket = True,
   sys_nonblock = True, user_nonblock = False, is_closed = False, ctx_fd = 5, recv_timeout = - 1, send_timeout = - 1\<rparr> else None)"
  by (auto simp: example_socket_def fdm_abs_def new_fd_manager_def nth_list_update nat_eq_iff)

lemma example_socket_ok: "hook_ok example_os example_socket"
proof -
  have "nb_ok example_os (hw_fds example_socket) (hw_os example_socket)"
    unfolding nb_ok_def example_socket_abs
    by (auto simp: nonblocking_def example_os_def example_socket_def)
  then show ?thesis using example_os_laws by (simp add: example_socket_def new_fd_manager_def)
qed

theorem fcntl_transparent_witness:
  "\<exists>w'. hook_fcntl_setfl example_os 5 0x402 example_socket = Inr (0, w') \<and> hook_fcntl_getfl example_os 5 w' = Inr 0x400
    \<and> nonblocking example_os 5 (hw_os w')"
proof -
  let ?c = "\<lparr>is_init = True, is_socket = True, sys_nonblock = True,
     user_nonblock = False, is_closed = False, ctx_fd = 5, recv_timeout = - 1, send_timeout = - 1\<rparr>"
  have s: "fdm_abs (hw_fds example_socket) 5 = Some ?c" by (simp add: example_socket_abs)
  from fcntl_transparent [OF example_socket_ok _ s, where arg = "0x402" and so = 0] obtain seen r w' where
    f: "hook_fcntl_getfl example_os 5 example_socket = Inr seen" "hook_fcntl_setfl example_os 5 0x402 example_socket = Inr (r, w')"
      "hook_fcntl_getfl example_os 5 w' = Inr (if r = 0 then setfl_flags seen 0x402 else (seen AND NOT O_NONBLOCK) OR (0x402 AND O_NONBLOCK))"
      "nonblocking example_os 5 (hw_os w')" by auto
  have "seen = 0"
    using f(1) unfolding hook_getfl_socket [of 5 example_socket, OF _ s, simplified] by (simp add: example_os_def example_socket_def O_NONBLOCK_def)
  moreover have "r = 0"
    using f(2) by (auto simp: hook_fcntl_setfl_def hw_lookup s Let_def example_os_def)
  moreover have "setfl_flags 0 0x402 = 0x400" by (simp add: setfl_flags_def settable_def O_NONBLOCK_def)
  ultimately show ?thesis using f by simp
qed

text \<open>The hooked \<^verbatim>\<open>ioctl\<close> lacks this: it hands the user's flag to the kernel.\<close>

definition example_fionbio :: "int \<Rightarrow> bool \<Rightarrow> (int \<Rightarrow> u32) \<Rightarrow> int \<times> (int \<Rightarrow> u32)" where
  "example_fionbio d nb k = (0, k(d := (if nb then k d OR O_NONBLOCK else k d AND NOT O_NONBLOCK)))"

text \<open>
  \<^verbatim>\<open>ioctl(FIONBIO, 0)\<close> on a hooked socket leaves the socket blocking in the kernel, with a context that still
  says it is non-blocking: a later hooked call takes the retry loop, and its raw call blocks the thread.
\<close>

theorem ioctl_makes_socket_blocking:
  "\<exists>w'. hook_ioctl_fionbio example_os example_fionbio 5 False example_socket = Inr (0, w')
    \<and> \<not> nonblocking example_os 5 (hw_os w') \<and> do_io_route example_os 5 SO_RCVTIMEO w' = Inr (Retry_loop (- 1))
    \<and> map_option sys_nonblock (fdm_abs (hw_fds w') 5) = Some True"
proof -
  let ?c = "\<lparr>is_init = True, is_socket = True, sys_nonblock = True,
     user_nonblock = False, is_closed = False, ctx_fd = 5, recv_timeout = - 1, send_timeout = - 1\<rparr>"
  have s: "fdm_abs (hw_fds example_socket) 5 = Some ?c" by (simp add: example_socket_abs)
  define w' where "w' = (hw_update 5 ?c example_socket)\<lparr>hw_os := (\<lambda>_. O_NONBLOCK)(5 := O_NONBLOCK AND NOT O_NONBLOCK)\<rparr>"
  have "hook_ioctl_fionbio example_os example_fionbio 5 False example_socket = Inr (0, w')"
    by (simp add: hook_ioctl_fionbio_def hw_lookup s example_fionbio_def w'_def) (simp add: hw_update_def example_socket_def)
  moreover have "fdm_abs (hw_fds w') 5 = Some ?c"
    using fdm_abs_upd [OF s, of ?c] by (simp add: w'_def hw_update_def)
  moreover have "hw_enable w'" by (simp add: w'_def hw_update_def example_socket_def example_hook_def)
  moreover have "\<not> nonblocking example_os 5 (hw_os w')" by (simp add: w'_def nonblocking_def example_os_def)
  ultimately show ?thesis by (simp add: do_io_route_def hw_lookup getTimeout_def)
qed

text \<open>The other hooked calls keep the sockets of the table non-blocking.\<close>

lemma bind_answer: "bindE m (\<lambda>(_, w1). Inr (a, w1)) = Inr (r, w') \<Longrightarrow> \<exists>c. m = Inr (c, w') \<and> r = a"
  by (cases m) (simp_all add: split_beta prod_eq_iff)

lemma hook_socket_ok:
  assumes "hook_ok os w" and "- 1 \<le> raw" and "hook_socket os raw w = Inr (r, w')"
  shows "hook_ok os w' \<and> r = raw"
proof (cases "hw_enable w \<and> raw \<noteq> - 1")
  case True
  from True have b: "bindE (hw_get os raw True w) (\<lambda>(_, w1). Inr (raw, w1)) = Inr (r, w')"
    using assms(3) unfolding hook_socket_def by simp
  from bind_answer [OF b] obtain c where g: "hw_get os raw True w = Inr (c, w')" "r = raw" by blast
  have raw: "0 \<le> raw" using True assms(2) by simp
  show ?thesis using hw_get_ok [OF assms(1) raw g(1)] g(2) by (intro conjI) blast+
next
  case False
  then have "w' = w \<and> r = raw" using assms(3) unfolding hook_socket_def by (cases "hw_enable w") simp_all
  then show ?thesis using assms(1) by blast
qed

lemma hook_close_ok:
  assumes "hook_ok os w" and "0 \<le> fd" and "hook_close os ctl has_iom fd w = Inr w'"
  shows "hook_ok os w' \<and> (hw_enable w \<longrightarrow> fdm_abs (hw_fds w') fd = None)"
proof (cases "hw_enable w \<and> fdm_abs (hw_fds w) fd \<noteq> None")
  case False
  then show ?thesis using assms by (auto simp: hook_close_def hw_lookup split: if_splits)
next
  case True
  from fdm_del_abs [OF assms(2), of "hw_fds w"] obtain ds where
    d: "fdm_del fd (hw_fds w) = Inr ds" "fdm_abs ds fd = None" "length ds = length (hw_fds w)" by auto
  then have ds: "fdm_del fd (hw_fds w) = Inr ds" "hw_fds w' = ds" "hw_os w' = hw_os w"
    using assms(3) True by (auto simp: hook_close_def hw_lookup [OF assms(2)] bindE_Inr_iff split: if_splits)
  have "fdm_abs ds fd = None" "length ds = length (hw_fds w)" using d by simp_all
  moreover have "nb_ok os ds (hw_os w)" using fdm_del_nb_ok [of os "hw_fds w" "hw_os w" fd ds] assms(1,2) ds(1) by simp
  ultimately show ?thesis using assms(1) ds by simp
qed

lemma hook_setsockopt_ok:
  assumes "hook_ok os w" and "0 \<le> fd" and "hook_setsockopt os fd level opt s us w = Inr w'"
  shows "hook_ok os w'"
proof (cases "fdm_abs (hw_fds w) fd")
  case None
  then show ?thesis using assms by (auto simp: hook_setsockopt_def hw_lookup split: if_splits)
next
  case (Some c)
  have "hook_ok os (hw_update fd (setTimeout opt v c) w)" for v
    by (rule hw_update_ok [OF assms(1) Some]) (simp_all add: setTimeout_def)
  then show ?thesis using assms(1,3) Some by (auto simp: hook_setsockopt_def hw_lookup [OF assms(2)] split: if_splits)
qed

section \<open>The length of a sleep\<close>

lemma sleep_ok: "uint seconds * 1000 < 2 ^ 32 \<Longrightarrow> uint (sleep_period seconds) = uint seconds * 1000"
  by (simp add: sleep_period_def uint_mult_lem)
    (simp add: unsigned_ucast_eq uint_word_ariths take_bit_int_eq_self uint_mult_lem)

lemma usleep_ok: "uint (usleep_period usec) = uint usec div 1000"
  proof -
  have "uint usec div 1000 < 2 ^ 64" using uint_lt2p [of usec] by simp
  then show ?thesis
    using pos_imp_zdiv_nonneg_iff [of 1000 "uint usec"] by (simp add: usleep_period_def uint_div unsigned_ucast_eq take_bit_int_eq_self)
qed

lemma sint_uint_pos: "0 \<le> sint (w :: 64 word) \<Longrightarrow> sint w = uint w"
proof -
  assume "0 \<le> sint w"
  then have "even (uint w div 2 ^ 63)" by (simp add: sint_uint bit_iff_odd)
  moreover have "uint w div 2 ^ 63 < 2" using uint_lt2p [of w] by simp
  moreover have "0 \<le> uint w div 2 ^ 63" using pos_imp_zdiv_nonneg_iff [of "2 ^ 63" "uint w"] by simp
  ultimately have "uint w div 2 ^ 63 = 0" by (cases "uint w div 2 ^ 63 = 1") auto
  then have "uint w < 2 ^ 63" using uint_ge_0 [of w] by (simp add: div_eq_0_iff)
  moreover have "- (2 ^ 63) \<le> uint w" by (rule order_trans [OF _ uint_ge_0]) simp
  ultimately show ?thesis by (simp add: sint_uint signed_take_bit_int_eq_self)
qed

lemma nanosleep_ok:
  assumes "0 \<le> sint tv_nsec" and "0 \<le> sint tv_sec" and "sint tv_sec * 1000 + sint tv_nsec div 1000000 < 2 ^ 31"
  shows "uint (nanosleep_period tv_sec tv_nsec) = uint tv_sec * 1000 + uint tv_nsec div 1000000"
proof -
  let ?t = "uint tv_sec * 1000 + uint tv_nsec div 1000000"
  have u: "sint tv_sec = uint tv_sec" "sint tv_nsec = uint tv_nsec" using assms(1,2) sint_uint_pos by auto
  have nn: "0 \<le> uint tv_sec" "0 \<le> uint tv_nsec" by simp_all
  have lt: "?t < 2 ^ 31" using assms(3) u by simp
  have d: "sint tv_nsec sdiv 1000 sdiv 1000 = uint tv_nsec div 1000000"
    using nn by (simp add: u signed_divide_int_def sgn_if div_mult2_eq zdiv_zmult2_eq [symmetric])
  have "tv_sec * 1000 + word_of_int (uint tv_nsec div 1000000) = (word_of_int ?t :: 64 word)"
    by (simp add: wi_hom_syms)
  then have s: "(ucast (tv_sec * 1000 + word_of_int (sint tv_nsec sdiv 1000 sdiv 1000)) :: u32) = word_of_int ?t"
    unfolding d by (simp only: ucast_eq uint_word_of_int_eq) (simp only: word_of_int_eq_iff take_bit_take_bit, simp)
  have "0 \<le> ?t" using nn pos_imp_zdiv_nonneg_iff [of 1000000 "uint tv_nsec"] by linarith
  then have lo: "- (2 ^ 31) \<le> ?t" by (rule order_trans [rotated]) simp
  have si: "sint (word_of_int ?t :: u32) = ?t"
    using lt lo by (simp only: signed_of_int) (simp add: signed_take_bit_int_eq_self)
  have "0 \<le> ?t" using nn pos_imp_zdiv_nonneg_iff [of 1000000 "uint tv_nsec"] by linarith
  then have "take_bit 64 ?t = ?t" using lt by (intro take_bit_int_eq_self) simp_all
  then show ?thesis
    unfolding nanosleep_period_def Let_def s si by (simp only: uint_word_of_int_eq) simp
qed

lemma sleep_wrap: "sleep_period 4294968 = 704"
  by (simp add: sleep_period_def)

lemma nano_wrap: "nanosleep_period 2147484 0 = - 2147483296"
  by (simp add: nanosleep_period_def)
text \<open>
  \<^verbatim>\<open>sleep\<close>, \<^verbatim>\<open>usleep\<close> and \<^verbatim>\<open>nanosleep\<close> arm a timer with the asked time in milliseconds, rounded
  down, as long as it fits into the integer they compute it in: 32 unsigned bits for \<^verbatim>\<open>sleep\<close>, 31 bits for
  \<^verbatim>\<open>nanosleep\<close>. Beyond, a sleep of 4294968 seconds lasts 704 milliseconds, and a \<^verbatim>\<open>nanosleep\<close> of
  2147484 seconds gives a timer that is due before it was set.
\<close>

theorem sleep_length:
  "(uint seconds * 1000 < 2 ^ 32 \<longrightarrow> uint (sleep_period seconds) = uint seconds * 1000)
   \<and> uint (usleep_period usec) = uint usec div 1000
   \<and> (0 \<le> sint tv_nsec \<and> 0 \<le> sint tv_sec \<and> sint tv_sec * 1000 + sint tv_nsec div 1000000 < 2 ^ 31 \<longrightarrow>
        uint (nanosleep_period tv_sec tv_nsec) = uint tv_sec * 1000 + uint tv_nsec div 1000000)
   \<and> sleep_period 4294968 = 704
   \<and> (2147483296 < now \<longrightarrow> now + nanosleep_period 2147484 0 < now)"
proof (intro conjI impI)
  show "now + nanosleep_period 2147484 0 < now" if "2147483296 < now"
  proof -
    have "uint now - 2147483296 = uint (now - 2147483296)"
      using that by (simp add: uint_sub_lem [THEN iffD1] word_le_def word_less_def)
    then show ?thesis unfolding nano_wrap by (simp add: word_less_def)
  qed
qed (use sleep_ok usleep_ok nanosleep_ok sleep_wrap in auto)

theorem sleep_length_witness:
  "uint (sleep_period 3) = 3000 \<and> uint (nanosleep_period 3 5000000) = 3005 \<and> (4000000000 :: u64) + nanosleep_period 2147484 0 < 4000000000"
  using sleep_length [of 3 0 5000000 3 4000000000] by simp

end
