(* ===== verification/HookCalls.thy ===== *)
theory HookCalls
  imports Hook
begin

text \<open>
  The calls of the hook layer that mostly forward: fcntl and ioctl of src/hiper/base/hook.cc with all their commands, over Hook. The
  lemmas show which commands change the tables and which lose their argument.
\<close>

text \<open>The commands of \<^verbatim>\<open>fcntl\<close> on Linux for 64-bit machines.\<close>

definition F_DUPFD :: int where "F_DUPFD = 0"
definition F_GETFD :: int where "F_GETFD = 1"
definition F_SETFD :: int where "F_SETFD = 2"
definition F_GETFL :: int where "F_GETFL = 3"
definition F_SETFL :: int where "F_SETFL = 4"
definition F_GETLK :: int where "F_GETLK = 5"
definition F_SETLK :: int where "F_SETLK = 6"
definition F_SETLKW :: int where "F_SETLKW = 7"
definition F_SETOWN :: int where "F_SETOWN = 8"
definition F_GETOWN :: int where "F_GETOWN = 9"
definition F_SETSIG :: int where "F_SETSIG = 10"
definition F_GETSIG :: int where "F_GETSIG = 11"
definition F_SETOWN_EX :: int where "F_SETOWN_EX = 15"
definition F_GETOWN_EX :: int where "F_GETOWN_EX = 16"
definition F_SETLEASE :: int where "F_SETLEASE = 1024"
definition F_GETLEASE :: int where "F_GETLEASE = 1025"
definition F_NOTIFY :: int where "F_NOTIFY = 1026"
definition F_DUPFD_CLOEXEC :: int where "F_DUPFD_CLOEXEC = 1030"
definition F_SETPIPE_SZ :: int where "F_SETPIPE_SZ = 1031"
definition F_GETPIPE_SZ :: int where "F_GETPIPE_SZ = 1032"

lemmas fcntl_commands = F_DUPFD_def F_GETFD_def F_SETFD_def F_GETFL_def F_SETFL_def F_GETLK_def F_SETLK_def F_SETLKW_def F_SETOWN_def
  F_GETOWN_def F_SETSIG_def F_GETSIG_def F_SETOWN_EX_def F_GETOWN_EX_def F_SETLEASE_def F_GETLEASE_def F_NOTIFY_def F_DUPFD_CLOEXEC_def
  F_SETPIPE_SZ_def F_GETPIPE_SZ_def

text \<open>
  What the switch does with the variable argument, a 64-bit register: an int, a pointer, or nothing is taken and passed on to
  the system's call.
\<close>

definition int_commands :: "int list" where
  "int_commands = [F_DUPFD, F_DUPFD_CLOEXEC, F_SETFD, F_SETOWN, F_SETSIG, F_SETLEASE, F_NOTIFY, F_SETPIPE_SZ]"

definition pointer_commands :: "int list" where
  "pointer_commands = [F_SETLK, F_SETLKW, F_GETLK, F_GETOWN_EX, F_SETOWN_EX]"

datatype forwarded = Forward_int "32 word" | Forward_pointer "64 word" | Forward_nothing

definition fcntl_forward :: "int \<Rightarrow> 64 word \<Rightarrow> forwarded" where
  "fcntl_forward cmd arg =
     (if cmd \<in> set int_commands then Forward_int (ucast arg)
      else if cmd \<in> set pointer_commands then Forward_pointer arg
      else Forward_nothing)"

text \<open>
  The hooked \<^verbatim>\<open>fcntl\<close>: \<open>old\<close> is the system's call for the commands other than \<^verbatim>\<open>F_SETFL\<close> and
  \<^verbatim>\<open>F_GETFL\<close>, on what it is passed.
\<close>

definition hook_fcntl :: "'k os \<Rightarrow> (int \<Rightarrow> int \<Rightarrow> forwarded \<Rightarrow> 'k \<Rightarrow> int \<times> 'k) \<Rightarrow> int \<Rightarrow> int \<Rightarrow> 64 word \<Rightarrow> ('k, 'e) hook_world
    \<Rightarrow> (int \<times> ('k, 'e) hook_world) hook_result" where
  "hook_fcntl os old fd cmd arg w =
     (if cmd = F_SETFL then hook_fcntl_setfl os fd (ucast arg) w
      else if cmd = F_GETFL then bindE (hook_fcntl_getfl os fd w) (\<lambda>r. Inr (sint r, w))
      else (case old fd cmd (fcntl_forward cmd arg) (hw_os w) of (r, k) \<Rightarrow> Inr (r, w\<lparr>hw_os := k\<rparr>)))"

definition FIONBIO :: "64 word" where "FIONBIO = 0x5421"

text \<open>The hooked \<^verbatim>\<open>ioctl\<close>: \<open>arg\<close> is the pointer it is passed, \<open>deref\<close> reads the int behind it, \<open>old\<close> is the system's call.\<close>

definition hook_ioctl :: "'k os \<Rightarrow> (int \<Rightarrow> 64 word \<Rightarrow> 64 word \<Rightarrow> 'k \<Rightarrow> int \<times> 'k) \<Rightarrow> (64 word \<Rightarrow> 32 word) \<Rightarrow> int \<Rightarrow> 64 word \<Rightarrow> 64 word
    \<Rightarrow> ('k, 'e) hook_world \<Rightarrow> (int \<times> ('k, 'e) hook_world) hook_result" where
  "hook_ioctl os old deref d request arg w =
     (if request = FIONBIO then hook_ioctl_fionbio os (\<lambda>fd nb k. old fd request arg k) d (deref arg \<noteq> 0) w
      else (case old d request arg (hw_os w) of (r, k) \<Rightarrow> Inr (r, w\<lparr>hw_os := k\<rparr>)))"

text \<open>
  The commands outside the switch lose their argument, also those that take one: \<^verbatim>\<open>F_ADD_SEALS\<close> is 1033 and
  \<^verbatim>\<open>F_OFD_SETLK\<close> is 37.
\<close>

lemma fcntl_drops_argument:
  "hook_fcntl os old fd 1033 arg w = hook_fcntl os old fd 1033 arg' w" "hook_fcntl os old fd 37 arg w = hook_fcntl os old fd 37 arg' w"
  by (simp_all add: hook_fcntl_def fcntl_forward_def int_commands_def pointer_commands_def fcntl_commands)

text \<open>The other commands touch neither the table nor the I/O manager.\<close>

lemma fcntl_keeps_table:
  assumes "hook_fcntl os old fd cmd arg w = Inr (r, w')" and "cmd \<noteq> F_SETFL"
  shows "hw_fds w' = hw_fds w \<and> hw_io w' = hw_io w \<and> hw_enable w' = hw_enable w"
  using assms by (auto simp: hook_fcntl_def bindE_Inr_iff split: if_splits prod.splits)

end
