(* ===== verification/Http.thy ===== *)
theory Http
  imports Ordered_Set Text
begin

text \<open>
  HTTP messages: \<^verbatim>\<open>src/hiper/http/http.h\<close> and \<^verbatim>\<open>http.cc\<close>, with the tables of methods and status codes of
  \<^verbatim>\<open>http-parser/http_parser.h\<close>.
  \<^item> Methods and status codes: the tables and the conversions from and to text; an unknown value is \<^verbatim>\<open>std::invalid_argument\<close>.
  \<^item> The maps of headers, parameters and cookies are ordered association lists under the case-insensitive comparison,
    the interpretation \<open>ci\<close> of the locale of strict weak orders.
  \<^item> Requests and responses are records; query, form and cookie texts are parsed at the first access, which the flag
    bits record, so that the accessors return the changed request. The field \<^verbatim>\<open>url_\<close> is left out: nothing sets or reads it.
  \<^item> Printing: the request and response as the text that is sent.
  \<^verbatim>\<open>lexical_cast\<close> and \<^verbatim>\<open>Time2Str\<close> are arguments.
\<close>

section \<open>Methods and status codes\<close>

datatype http_method =
    DELETE | GET | HEAD | POST | PUT | CONNECT | OPTIONS | TRACE
  | COPY | LOCK | MKCOL | MOVE | PROPFIND | PROPPATCH | SEARCH | UNLOCK
  | BIND | REBIND | UNBIND | ACL | REPORT | MKACTIVITY | CHECKOUT | MERGE
  | MSEARCH | NOTIFY | SUBSCRIBE | UNSUBSCRIBE | PATCH | PURGE | MKCALENDAR | LINK
  | UNLINK | SOURCE
  | INVALID_METHOD

text \<open>\<^verbatim>\<open>HTTP_METHOD_MAP\<close>: the number, the enumerator and the text of each method.\<close>

definition method_table :: "(nat \<times> http_method \<times> string) list" where
  "method_table =
    [(0, DELETE, ''DELETE''), (1, GET, ''GET''), (2, HEAD, ''HEAD''),
     (3, POST, ''POST''), (4, PUT, ''PUT''), (5, CONNECT, ''CONNECT''),
     (6, OPTIONS, ''OPTIONS''), (7, TRACE, ''TRACE''), (8, COPY, ''COPY''),
     (9, LOCK, ''LOCK''), (10, MKCOL, ''MKCOL''), (11, MOVE, ''MOVE''),
     (12, PROPFIND, ''PROPFIND''), (13, PROPPATCH, ''PROPPATCH''), (14, SEARCH, ''SEARCH''),
     (15, UNLOCK, ''UNLOCK''), (16, BIND, ''BIND''), (17, REBIND, ''REBIND''),
     (18, UNBIND, ''UNBIND''), (19, ACL, ''ACL''), (20, REPORT, ''REPORT''),
     (21, MKACTIVITY, ''MKACTIVITY''), (22, CHECKOUT, ''CHECKOUT''), (23, MERGE, ''MERGE''),
     (24, MSEARCH, ''M-SEARCH''), (25, NOTIFY, ''NOTIFY''), (26, SUBSCRIBE, ''SUBSCRIBE''),
     (27, UNSUBSCRIBE, ''UNSUBSCRIBE''), (28, PATCH, ''PATCH''), (29, PURGE, ''PURGE''),
     (30, MKCALENDAR, ''MKCALENDAR''), (31, LINK, ''LINK''), (32, UNLINK, ''UNLINK''),
     (33, SOURCE, ''SOURCE'')]"

datatype http_error = Invalid_argument string

type_synonym 'a http_result = "http_error + 'a"

definition StringToHttpMethod :: "string \<Rightarrow> http_method http_result" where
  "StringToHttpMethod methodStr =
     (case find (\<lambda>(_, _, s). s = methodStr) method_table of
        Some (_, m, _) \<Rightarrow> Inr m
      | None \<Rightarrow> Inl (Invalid_argument ''Invalid HTTP method string''))"

definition HttpMethodToString :: "http_method \<Rightarrow> string http_result" where
  "HttpMethodToString method =
     (case find (\<lambda>(_, m, _). m = method) method_table of
        Some (_, _, s) \<Rightarrow> Inr s
      | None \<Rightarrow> Inl (Invalid_argument ''Invalid HTTP method''))"

definition CharsToHttpMethod :: "string \<Rightarrow> http_method http_result" where
  "CharsToHttpMethod m = StringToHttpMethod (takeWhile (\<lambda>c. c \<noteq> chr 0) m)"

text \<open>The enumerator with a given number, as the cast of the parser's \<^verbatim>\<open>method\<close> field makes it.\<close>

definition method_of_num :: "nat \<Rightarrow> http_method" where
  "method_of_num n = (case find (\<lambda>(k, _, _). k = n) method_table of Some (_, m, _) \<Rightarrow> m | None \<Rightarrow> INVALID_METHOD)"

text \<open>\<^verbatim>\<open>HTTP_STATUS_MAP\<close>; a status is its number, since the casts of the program make statuses of any number.\<close>

type_synonym http_status = nat

definition status_table :: "(nat \<times> string) list" where
  "status_table =
    [(100, ''Continue''), (101, ''Switching Protocols''), (102, ''Processing''),
     (200, ''OK''), (201, ''Created''), (202, ''Accepted''),
     (203, ''Non-Authoritative Information''), (204, ''No Content''), (205, ''Reset Content''),
     (206, ''Partial Content''), (207, ''Multi-Status''), (208, ''Already Reported''),
     (226, ''IM Used''), (300, ''Multiple Choices''), (301, ''Moved Permanently''),
     (302, ''Found''), (303, ''See Other''), (304, ''Not Modified''),
     (305, ''Use Proxy''), (307, ''Temporary Redirect''), (308, ''Permanent Redirect''),
     (400, ''Bad Request''), (401, ''Unauthorized''), (402, ''Payment Required''),
     (403, ''Forbidden''), (404, ''Not Found''), (405, ''Method Not Allowed''),
     (406, ''Not Acceptable''), (407, ''Proxy Authentication Required''), (408, ''Request Timeout''),
     (409, ''Conflict''), (410, ''Gone''), (411, ''Length Required''),
     (412, ''Precondition Failed''), (413, ''Payload Too Large''), (414, ''URI Too Long''),
     (415, ''Unsupported Media Type''), (416, ''Range Not Satisfiable''), (417, ''Expectation Failed''),
     (421, ''Misdirected Request''), (422, ''Unprocessable Entity''), (423, ''Locked''),
     (424, ''Failed Dependency''), (426, ''Upgrade Required''), (428, ''Precondition Required''),
     (429, ''Too Many Requests''), (431, ''Request Header Fields Too Large''), (451, ''Unavailable For Legal Reasons''),
     (500, ''Internal Server Error''), (501, ''Not Implemented''), (502, ''Bad Gateway''),
     (503, ''Service Unavailable''), (504, ''Gateway Timeout''), (505, ''HTTP Version Not Supported''),
     (506, ''Variant Also Negotiates''), (507, ''Insufficient Storage''), (508, ''Loop Detected''),
     (510, ''Not Extended''), (511, ''Network Authentication Required'')]"

definition HttpStatusToString :: "http_status \<Rightarrow> string http_result" where
  "HttpStatusToString s =
     (case find (\<lambda>(c, _). c = s) status_table of
        Some (_, d) \<Rightarrow> Inr d
      | None \<Rightarrow> Inl (Invalid_argument ''Invalid HTTP method''))"

lemma method_string_method: "m \<noteq> INVALID_METHOD \<Longrightarrow> bindE (HttpMethodToString m) StringToHttpMethod = Inr m"
proof -
  assume "m \<noteq> INVALID_METHOD"
  then have "m \<in> (\<lambda>e. fst (snd e)) ` set method_table" by (cases m) (simp_all add: method_table_def)
  moreover have "\<forall>e\<in>set method_table. bindE (HttpMethodToString (fst (snd e))) StringToHttpMethod = Inr (fst (snd e))"
    by code_simp
  ultimately show ?thesis by auto
qed

lemma string_method_string: "StringToHttpMethod s = Inr m \<Longrightarrow> HttpMethodToString m = Inr s"
proof -
  assume a: "StringToHttpMethod s = Inr m"
  then obtain n where "(n, m, s) \<in> set method_table"
    by (auto simp: StringToHttpMethod_def find_Some_iff split: option.splits) (metis nth_mem)
  moreover have "\<forall>e\<in>set method_table. HttpMethodToString (fst (snd e)) = Inr (snd (snd e))" by code_simp
  ultimately show ?thesis by force
qed

section \<open>Case-insensitive maps\<close>

text \<open>\<^verbatim>\<open>strcasecmp\<close> on \<^verbatim>\<open>c_str()\<close>: the texts up to the first NUL, folded to lower case, byte by byte.\<close>

definition c_str :: "string \<Rightarrow> string" where "c_str s = takeWhile (\<lambda>c. c \<noteq> chr 0) s"

fun strcasecmp :: "string \<Rightarrow> string \<Rightarrow> int" where
  "strcasecmp [] [] = 0"
| "strcasecmp [] (b # bs) = - 1"
| "strcasecmp (a # as) [] = 1"
| "strcasecmp (a # as) (b # bs) =
     (if code (to_lower a) < code (to_lower b) then - 1
      else if code (to_lower b) < code (to_lower a) then 1
      else strcasecmp as bs)"

definition CaseInsensitiveLess :: "string \<Rightarrow> string \<Rightarrow> bool" where
  "CaseInsensitiveLess lhs rhs \<longleftrightarrow> strcasecmp (c_str lhs) (c_str rhs) < 0"

definition fold_key :: "string \<Rightarrow> string" where "fold_key s = ToLower (c_str s)"

lemma code_inj [simp]: "code a = code b \<longleftrightarrow> a = b"
  by (metis char_of_char)

lemma strcasecmp_range: "strcasecmp a b \<in> {- 1, 0, 1}"
  by (induction a b rule: strcasecmp.induct) auto

lemma strcasecmp_eq: "strcasecmp a b = 0 \<longleftrightarrow> map to_lower a = map to_lower b"
proof (induction a b rule: strcasecmp.induct)
  case (4 a as b bs)
  then show ?case using code_inj [of "to_lower a" "to_lower b"] by (auto simp del: code_inj)
qed auto

lemma strcasecmp_anti: "strcasecmp b a = - strcasecmp a b"
  by (induction a b rule: strcasecmp.induct) auto

lemma strcasecmp_trans: "strcasecmp a b < 0 \<Longrightarrow> strcasecmp b c < 0 \<Longrightarrow> strcasecmp a c < 0"
proof (induction a b arbitrary: c rule: strcasecmp.induct)
  case (2 b bs)
  then show ?case by (cases c) auto
next
  case (4 a as b bs)
  show ?case
  proof (cases c)
    case Nil
    then show ?thesis using 4(3) by simp
  next
    case (Cons d ds)
    let ?x = "code (to_lower a)" and ?y = "code (to_lower b)" and ?z = "code (to_lower d)"
    have ab: "?x < ?y \<or> ?x = ?y \<and> strcasecmp as bs < 0" using 4(2) by (simp split: if_splits)
    have bd: "?y < ?z \<or> ?y = ?z \<and> strcasecmp bs ds < 0" using 4(3) Cons by (simp split: if_splits)
    consider "?x < ?z" | "?x = ?z" "?x = ?y" "strcasecmp as bs < 0" "strcasecmp bs ds < 0" using ab bd by linarith
    then show ?thesis
    proof cases
      case 1
      then show ?thesis by (simp add: Cons)
    next
      case 2
      then have "strcasecmp as ds < 0" using 4(1) by simp
      then show ?thesis using 2(1) by (simp add: Cons)
    qed
  qed
qed auto

lemma strcasecmp_cong: "map to_lower a = map to_lower a' \<Longrightarrow> strcasecmp a b = strcasecmp a' b"
proof (induction a b arbitrary: a' rule: strcasecmp.induct)
  case (4 a as b bs)
  then show ?case by (cases a') auto
qed (auto simp: Cons_eq_map_conv)

interpretation ci: strict_weak CaseInsensitiveLess
proof unfold_locales
  fix x y z
  show "\<not> CaseInsensitiveLess x x" using strcasecmp_eq [of "c_str x" "c_str x"] by (simp add: CaseInsensitiveLess_def)
  show "CaseInsensitiveLess x y \<Longrightarrow> CaseInsensitiveLess y z \<Longrightarrow> CaseInsensitiveLess x z"
    by (auto simp: CaseInsensitiveLess_def intro: strcasecmp_trans)
  show "CaseInsensitiveLess x z \<Longrightarrow> CaseInsensitiveLess x y \<or> CaseInsensitiveLess y z"
  proof (rule ccontr)
    assume a: "CaseInsensitiveLess x z" and n: "\<not> (CaseInsensitiveLess x y \<or> CaseInsensitiveLess y z)"
    have yx: "strcasecmp (c_str y) (c_str x) \<le> 0" and zy: "strcasecmp (c_str z) (c_str y) \<le> 0"
      using n strcasecmp_anti [of "c_str y" "c_str x"] strcasecmp_anti [of "c_str z" "c_str y"]
      by (simp_all add: CaseInsensitiveLess_def)
    have "strcasecmp (c_str z) (c_str x) \<le> 0"
    proof (cases "strcasecmp (c_str z) (c_str y) = 0")
      case True
      then show ?thesis using yx strcasecmp_cong [of "c_str z" "c_str y" "c_str x"] by (simp add: strcasecmp_eq)
    next
      case zy0: False
      show ?thesis
      proof (cases "strcasecmp (c_str y) (c_str x) = 0")
        case True
        then have "strcasecmp (c_str x) (c_str z) = strcasecmp (c_str y) (c_str z)"
          using strcasecmp_cong [of "c_str x" "c_str y" "c_str z"] by (simp add: strcasecmp_eq)
        then show ?thesis using zy strcasecmp_anti [of "c_str z" "c_str x"] strcasecmp_anti [of "c_str z" "c_str y"] by simp
      next
        case False
        then show ?thesis using zy0 zy yx strcasecmp_trans [of "c_str z" "c_str y" "c_str x"] by simp
      qed
    qed
    then show False using a strcasecmp_anti [of "c_str z" "c_str x"] by (simp add: CaseInsensitiveLess_def)
  qed
qed

lemma ci_equiv: "ci.equiv a b \<longleftrightarrow> fold_key a = fold_key b"
proof -
  have "ci.equiv a b \<longleftrightarrow> strcasecmp (c_str a) (c_str b) = 0"
    using strcasecmp_range [of "c_str a" "c_str b"] strcasecmp_anti [of "c_str a" "c_str b"]
    by (auto simp: ci.equiv_def CaseInsensitiveLess_def)
  then show ?thesis by (simp add: strcasecmp_eq fold_key_def ToLower_def)
qed

type_synonym http_map = "(string \<times> string) list"

definition ci_sorted :: "http_map \<Rightarrow> bool" where
  "ci_sorted m \<longleftrightarrow> sorted_wrt CaseInsensitiveLess (map fst m)"

abbreviation ci_get :: "string \<Rightarrow> http_map \<Rightarrow> string option" where
  "ci_get \<equiv> map_find CaseInsensitiveLess"
abbreviation ci_set :: "string \<Rightarrow> string \<Rightarrow> http_map \<Rightarrow> http_map" where
  "ci_set \<equiv> map_assign CaseInsensitiveLess"
abbreviation ci_del :: "string \<Rightarrow> http_map \<Rightarrow> http_map" where
  "ci_del \<equiv> map_erase CaseInsensitiveLess"

text \<open>\<^verbatim>\<open>std::map::insert\<close> leaves an entry that is there alone.\<close>

definition ci_insert :: "string \<Rightarrow> string \<Rightarrow> http_map \<Rightarrow> http_map" where
  "ci_insert k v m = (if ci_get k m = None then ci_set k v m else m)"

lemma ci_laws:
  assumes "ci_sorted m"
  shows "ci_sorted (ci_set k v m)" and "ci_sorted (ci_del k m)" and "ci_sorted (ci_insert k v m)"
    and "ci_get k' (ci_set k v m) = (if fold_key k = fold_key k' then Some v else ci_get k' m)"
    and "ci_get k' (ci_del k m) = (if fold_key k = fold_key k' then None else ci_get k' m)"
    and "ci_get k' (ci_insert k v m) = (if fold_key k = fold_key k' \<and> ci_get k m = None then Some v else ci_get k' m)"
  using assms by (simp_all add: ci_sorted_def ci_insert_def ci.map_assign_sorted ci.map_erase_sorted
      ci.map_find_assign ci.map_find_erase ci_equiv)

lemma ci_get_fold: "fold_key k = fold_key k' \<Longrightarrow> ci_get k m = ci_get k' m"
  by (rule ci.map_find_equiv) (simp add: ci_equiv)

section \<open>Requests\<close>

record http_request =
  rq_method :: http_method
  rq_version :: u8
  rq_close :: bool
  rq_websocket :: bool
  rq_flag :: u8
  rq_path :: string
  rq_query :: string
  rq_fragment :: string
  rq_body :: string
  rq_headers :: http_map
  rq_params :: http_map
  rq_cookies :: http_map

record http_response =
  rs_status :: http_status
  rs_version :: u8
  rs_close :: bool
  rs_websocket :: bool
  rs_body :: string
  rs_reason :: string
  rs_headers :: http_map
  rs_cookies :: "string list"

definition new_HttpRequest :: "u8 \<Rightarrow> bool \<Rightarrow> http_request" where
  "new_HttpRequest version close = \<lparr>rq_method = GET, rq_version = version, rq_close = close, rq_websocket = False,
     rq_flag = 0, rq_path = ''/'', rq_query = '''', rq_fragment = '''', rq_body = '''', rq_headers = [], rq_params = [], rq_cookies = []\<rparr>"

definition new_HttpResponse :: "u8 \<Rightarrow> bool \<Rightarrow> http_response" where
  "new_HttpResponse version close = \<lparr>rs_status = 200, rs_version = version, rs_close = close, rs_websocket = False,
     rs_body = '''', rs_reason = '''', rs_headers = [], rs_cookies = []\<rparr>"

definition createResponse :: "http_request \<Rightarrow> http_response" where
  "createResponse r = new_HttpResponse (rq_version r) (rq_close r)"

definition map_get :: "http_map \<Rightarrow> string \<Rightarrow> string \<Rightarrow> string" where
  "map_get m key def = (case ci_get key m of None \<Rightarrow> def | Some v \<Rightarrow> v)"

definition getHeader :: "string \<Rightarrow> string \<Rightarrow> http_request \<Rightarrow> string" where
  "getHeader key def r = map_get (rq_headers r) key def"

definition setHeader :: "string \<Rightarrow> string \<Rightarrow> http_request \<Rightarrow> http_request" where
  "setHeader key val r = r\<lparr>rq_headers := ci_set key val (rq_headers r)\<rparr>"
definition setParam :: "string \<Rightarrow> string \<Rightarrow> http_request \<Rightarrow> http_request" where
  "setParam key val r = r\<lparr>rq_params := ci_set key val (rq_params r)\<rparr>"
definition setCookie :: "string \<Rightarrow> string \<Rightarrow> http_request \<Rightarrow> http_request" where
  "setCookie key val r = r\<lparr>rq_cookies := ci_set key val (rq_cookies r)\<rparr>"

definition delHeader :: "string \<Rightarrow> http_request \<Rightarrow> http_request" where
  "delHeader key r = r\<lparr>rq_headers := ci_del key (rq_headers r)\<rparr>"
definition delParam :: "string \<Rightarrow> http_request \<Rightarrow> http_request" where
  "delParam key r = r\<lparr>rq_params := ci_del key (rq_params r)\<rparr>"
definition delCookie :: "string \<Rightarrow> http_request \<Rightarrow> http_request" where
  "delCookie key r = r\<lparr>rq_cookies := ci_del key (rq_cookies r)\<rparr>"

definition hasHeader :: "string \<Rightarrow> http_request \<Rightarrow> string option" where
  "hasHeader key r = ci_get key (rq_headers r)"

section \<open>Parameters and cookies\<close>

text \<open>
  The macro \<^verbatim>\<open>PARSE_PARAM\<close> on the text from \<open>last\<close> on: the key up to the next equals sign, the value up to the next
  separator or the end. Separators are searched behind the equals sign only.
\<close>

definition split_at :: "char \<Rightarrow> string \<Rightarrow> (string \<times> string) option" where
  "split_at c s = (case first_idx (\<lambda>x. x = c) s of None \<Rightarrow> None | Some n \<Rightarrow> Some (take n s, drop (Suc n) s))"

lemma split_at_length: "split_at c s = Some (a, b) \<Longrightarrow> length b < length s"
proof -
  assume "split_at c s = Some (a, b)"
  then obtain n where n: "first_idx (\<lambda>x. x = c) s = Some n" "b = drop (Suc n) s"
    by (auto simp: split_at_def split: option.splits)
  then have "n < length s" by (auto simp: first_idx_def Let_def split: if_splits)
  then show ?thesis using n(2) by simp
qed

function parse_params :: "char \<Rightarrow> (string \<Rightarrow> string) \<Rightarrow> string \<Rightarrow> (string \<times> string) list" where
  "parse_params flag trim s =
     (case split_at (CHR ''='') s of
        None \<Rightarrow> []
      | Some (k, rest) \<Rightarrow>
          (case split_at flag rest of
             None \<Rightarrow> [(trim k, UrlDecode True rest)]
           | Some (v, rest') \<Rightarrow> (trim k, UrlDecode True v) # parse_params flag trim rest'))"
  by auto
termination
  by (relation "measure (\<lambda>(_, _, s). length s)") (auto dest!: split_at_length)

declare parse_params.simps [simp del]

definition insert_all :: "(string \<times> string) list \<Rightarrow> http_map \<Rightarrow> http_map" where
  "insert_all kvs m = fold (\<lambda>(k, v). ci_insert k v) kvs m"

definition strcasestr :: "string \<Rightarrow> string \<Rightarrow> bool" where
  "strcasestr haystack needle =
     (let h = ToLower (c_str haystack); n = ToLower (c_str needle)
      in list_ex (\<lambda>i. take (length n) (drop i h) = n) [0..<Suc (length h)])"

definition initQueryParam :: "http_request \<Rightarrow> http_request" where
  "initQueryParam r =
     (if rq_flag r AND 1 \<noteq> 0 then r
      else r\<lparr>rq_params := insert_all (parse_params (CHR ''&'') id (rq_query r)) (rq_params r), rq_flag := rq_flag r OR 1\<rparr>)"

definition initBodyParam :: "http_request \<Rightarrow> http_request" where
  "initBodyParam r =
     (if rq_flag r AND 2 \<noteq> 0 then r
      else if \<not> strcasestr (getHeader ''content-type'' '''' r) ''application/x-www-form-urlencoded'' then r\<lparr>rq_flag := rq_flag r OR 2\<rparr>
      else r\<lparr>rq_params := insert_all (parse_params (CHR ''&'') id (rq_body r)) (rq_params r), rq_flag := rq_flag r OR 2\<rparr>)"

definition initCookies :: "http_request \<Rightarrow> http_request" where
  "initCookies r =
     (if rq_flag r AND 4 \<noteq> 0 then r
      else
        let cookie = getHeader ''cookie'' '''' r in
        if cookie = [] then r\<lparr>rq_flag := rq_flag r OR 4\<rparr>
        else r\<lparr>rq_cookies := insert_all (parse_params (CHR '';'') (\<lambda>s. Trim s white) cookie) (rq_cookies r), rq_flag := rq_flag r OR 4\<rparr>)"

definition getParam :: "string \<Rightarrow> string \<Rightarrow> http_request \<Rightarrow> string \<times> http_request" where
  "getParam key def r = (let r1 = initBodyParam (initQueryParam r) in (map_get (rq_params r1) key def, r1))"

definition hasParam :: "string \<Rightarrow> http_request \<Rightarrow> string option \<times> http_request" where
  "hasParam key r = (let r1 = initBodyParam (initQueryParam r) in (ci_get key (rq_params r1), r1))"

definition getCookie :: "string \<Rightarrow> string \<Rightarrow> http_request \<Rightarrow> string \<times> http_request" where
  "getCookie key def r = (let r1 = initCookies r in (map_get (rq_cookies r1) key def, r1))"

definition hasCookie :: "string \<Rightarrow> http_request \<Rightarrow> string option \<times> http_request" where
  "hasCookie key r = (let r1 = initCookies r in (ci_get key (rq_cookies r1), r1))"

definition request_init :: "http_request \<Rightarrow> http_request" where
  "request_init r =
     (let conn = getHeader ''connection'' '''' r in
      if conn \<noteq> [] then r\<lparr>rq_close := (strcasecmp (c_str conn) ''keep-alive'' \<noteq> 0)\<rparr> else r)"

text \<open>\<open>cast\<close> is \<^verbatim>\<open>boost::lexical_cast\<close>, which throws on a text that is no value of the type.\<close>

definition checkGetAs :: "(string \<Rightarrow> 'a option) \<Rightarrow> http_map \<Rightarrow> string \<Rightarrow> 'a \<Rightarrow> bool \<times> 'a" where
  "checkGetAs cast m key def = (case ci_get key m of
     None \<Rightarrow> (False, def)
   | Some s \<Rightarrow> (case cast s of Some v \<Rightarrow> (True, v) | None \<Rightarrow> (False, def)))"

definition getAs :: "(string \<Rightarrow> 'a option) \<Rightarrow> http_map \<Rightarrow> string \<Rightarrow> 'a \<Rightarrow> 'a" where
  "getAs cast m key def = (case ci_get key m of
     None \<Rightarrow> def
   | Some s \<Rightarrow> (case cast s of Some v \<Rightarrow> v | None \<Rightarrow> def))"

section \<open>Printing\<close>

definition crlf :: string where "crlf = [CHR 0x0D, CHR 0x0A]"

definition version_text :: "u8 \<Rightarrow> string" where
  "version_text v = ''HTTP/'' @ show_nat (unat (drop_bit 4 v)) @ ''.'' @ show_nat (unat (v AND 0x0F))"

definition connection_line :: "bool \<Rightarrow> string" where
  "connection_line close = ''connection: '' @ (if close then ''close'' else ''keep-alive'') @ crlf"

definition header_line :: "string \<times> string \<Rightarrow> string" where
  "header_line i = fst i @ '': '' @ snd i @ crlf"

definition body_text :: "string \<Rightarrow> string" where
  "body_text body = (if body \<noteq> [] then ''content-length: '' @ show_nat (length body) @ crlf @ crlf @ body else crlf)"

definition skip_request :: "http_request \<Rightarrow> string \<times> string \<Rightarrow> bool" where
  "skip_request r i \<longleftrightarrow> \<not> rq_websocket r \<and> strcasecmp (c_str (fst i)) ''connection'' = 0
     \<or> rq_body r \<noteq> [] \<and> strcasecmp (c_str (fst i)) ''content-length'' = 0"

definition dump_request :: "http_request \<Rightarrow> string http_result" where
  "dump_request r =
     bindE (HttpMethodToString (rq_method r)) (\<lambda>m. Inr (
       m @ '' '' @ rq_path r @ (if rq_query r = [] then '''' else ''?'') @ rq_query r
       @ (if rq_fragment r = [] then '''' else ''#'') @ rq_fragment r @ '' '' @ version_text (rq_version r) @ crlf
       @ (if \<not> rq_websocket r then connection_line (rq_close r) else '''')
       @ concat (map (\<lambda>i. if skip_request r i then '''' else header_line i) (rq_headers r))
       @ body_text (rq_body r)))"

definition getHeader_rsp :: "string \<Rightarrow> string \<Rightarrow> http_response \<Rightarrow> string" where
  "getHeader_rsp key def r = map_get (rs_headers r) key def"
definition setHeader_rsp :: "string \<Rightarrow> string \<Rightarrow> http_response \<Rightarrow> http_response" where
  "setHeader_rsp key val r = r\<lparr>rs_headers := ci_set key val (rs_headers r)\<rparr>"
definition delHeader_rsp :: "string \<Rightarrow> http_response \<Rightarrow> http_response" where
  "delHeader_rsp key r = r\<lparr>rs_headers := ci_del key (rs_headers r)\<rparr>"

definition setRedirect :: "string \<Rightarrow> http_response \<Rightarrow> http_response" where
  "setRedirect uri r = setHeader_rsp ''Location'' uri (r\<lparr>rs_status := 302\<rparr>)"

text \<open>\<open>time_text\<close> is \<^verbatim>\<open>Time2Str\<close> with the format of the expiry date.\<close>

definition setCookie_rsp :: "(int \<Rightarrow> string) \<Rightarrow> string \<Rightarrow> string \<Rightarrow> int \<Rightarrow> string \<Rightarrow> string \<Rightarrow> bool \<Rightarrow> http_response \<Rightarrow> http_response" where
  "setCookie_rsp time_text key val expired path domain secure r =
     r\<lparr>rs_cookies := rs_cookies r @ [key @ ''='' @ val
        @ (if expired > 0 then '';expires='' @ time_text expired @ '' GMT'' else '''')
        @ (if domain \<noteq> [] then '';domain='' @ domain else '''')
        @ (if path \<noteq> [] then '';path='' @ path else '''')
        @ (if secure then '';secure'' else '''')]\<rparr>"

definition skip_response :: "http_response \<Rightarrow> string \<times> string \<Rightarrow> bool" where
  "skip_response r i \<longleftrightarrow> \<not> rs_websocket r \<and> strcasecmp (c_str (fst i)) ''connection'' = 0"

definition dump_response :: "http_response \<Rightarrow> string http_result" where
  "dump_response r =
     bindE (if rs_reason r = [] then HttpStatusToString (rs_status r) else Inr (rs_reason r)) (\<lambda>reason. Inr (
       version_text (rs_version r) @ '' '' @ show_nat (rs_status r) @ '' '' @ reason @ crlf
       @ concat (map (\<lambda>i. if skip_response r i then '''' else header_line i) (rs_headers r))
       @ concat (map (\<lambda>c. ''Set-Cookie: '' @ c @ crlf) (rs_cookies r))
       @ (if \<not> rs_websocket r then connection_line (rs_close r) else '''')
       @ body_text (rs_body r)))"

section \<open>Headers\<close>

definition rq_ok :: "http_request \<Rightarrow> bool" where
  "rq_ok r \<longleftrightarrow> ci_sorted (rq_headers r) \<and> ci_sorted (rq_params r) \<and> ci_sorted (rq_cookies r)"

lemma insert_all_sorted: "ci_sorted m \<Longrightarrow> ci_sorted (insert_all kvs m)"
  unfolding insert_all_def by (induction kvs arbitrary: m) (auto simp: ci_laws)

lemma insert_all_get:
  "ci_sorted m \<Longrightarrow> ci_get k (insert_all kvs m) =
     (case ci_get k m of Some v \<Rightarrow> Some v | None \<Rightarrow> map_option snd (find (\<lambda>p. fold_key (fst p) = fold_key k) kvs))"
proof (induction kvs arbitrary: m)
  case Nil
  then show ?case by (simp add: insert_all_def split: option.splits)
next
  case (Cons p kvs)
  obtain l w where p: "p = (l, w)" by force
  have s: "ci_sorted (ci_insert l w m)" by (rule ci_laws(3) [OF Cons.prems])
  have step: "insert_all (p # kvs) m = insert_all kvs (ci_insert l w m)" by (simp add: insert_all_def p)
  show ?case
    using Cons.IH [OF s] ci_get_fold [of l k m] unfolding step
    by (auto simp: ci_laws(6) [OF Cons.prems] p split: option.splits)
qed

lemma request_ops_ok:
  assumes "rq_ok r"
  shows "rq_ok (setHeader k v r)" "rq_ok (setParam k v r)" "rq_ok (setCookie k v r)"
    "rq_ok (delHeader k r)" "rq_ok (delParam k r)" "rq_ok (delCookie k r)"
    "rq_ok (initQueryParam r)" "rq_ok (initBodyParam r)" "rq_ok (initCookies r)" "rq_ok (request_init r)"
  using assms ci_laws insert_all_sorted
  by (auto simp: rq_ok_def setHeader_def setParam_def setCookie_def delHeader_def delParam_def delCookie_def
      initQueryParam_def initBodyParam_def initCookies_def request_init_def Let_def)

lemma new_request_ok: "rq_ok (new_HttpRequest v c)"
  by (simp add: rq_ok_def new_HttpRequest_def ci_sorted_def)

text \<open>
  Headers are found by their names in any case: after \<^verbatim>\<open>setHeader\<close> a lookup under any name that differs
  in case only gives the value, after \<^verbatim>\<open>delHeader\<close> the default; other headers stay, and every operation of a request
  keeps its maps ordered.
\<close>

theorem headers_ignore_case:
  assumes "rq_ok r"
  shows "getHeader k' d (setHeader k v r) = (if fold_key k = fold_key k' then v else getHeader k' d r)
    \<and> getHeader k' d (delHeader k r) = (if fold_key k = fold_key k' then d else getHeader k' d r)
    \<and> rq_ok (setHeader k v r) \<and> rq_ok (delHeader k r)"
  using assms request_ops_ok [OF assms]
  by (simp add: rq_ok_def getHeader_def setHeader_def delHeader_def map_get_def ci_laws)

theorem headers_ignore_case_witness:
  "getHeader ''HOST'' '''' (setHeader ''Host'' ''a'' (new_HttpRequest 0x11 True)) = ''a''"
proof -
  have "fold_key ''Host'' = fold_key ''HOST''" by code_simp
  then show ?thesis using headers_ignore_case [OF new_request_ok] by simp
qed

section \<open>Query strings\<close>

fun render_params :: "char \<Rightarrow> (string \<times> string) list \<Rightarrow> string" where
  "render_params flag [] = ''''"
| "render_params flag [(k, v)] = k @ ''='' @ UrlEncode True v"
| "render_params flag ((k, v) # p # ps) = k @ ''='' @ UrlEncode True v @ [flag] @ render_params flag (p # ps)"

lemma split_at_here: "c \<notin> set a \<Longrightarrow> split_at c (a @ c # b) = Some (a, b)"
proof -
  assume "c \<notin> set a"
  then have "first_idx (\<lambda>x. x = c) (a @ c # b) = Some (length a)" unfolding first_idx_Some by blast
  then show ?thesis by (simp add: split_at_def)
qed

lemma split_at_none: "c \<notin> set s \<Longrightarrow> split_at c s = None"
proof -
  assume "c \<notin> set s"
  then have "first_idx (\<lambda>x. x = c) s = None" unfolding first_idx_None by blast
  then show ?thesis by (simp add: split_at_def)
qed

lemma separator_not_encoded:
  "c \<in> {CHR ''&'', CHR '';''} \<Longrightarrow> c \<notin> set (UrlEncode p s)"
  using UrlEncode_alphabet [of c p s]
  by (auto simp: url_safe_def is_alnum_def is_digit_def is_upper_def is_lower_def)

lemma url_back: "UrlDecode True (UrlEncode True s) = s"
proof (induction s)
  case (Cons c s)
  have safe: "url_safe c \<Longrightarrow> c \<noteq> CHR ''%'' \<and> c \<noteq> CHR ''+''"
    by (auto simp: url_safe_def is_alnum_def is_digit_def is_upper_def is_lower_def)
  obtain a b where h: "hex2 (code c) = [a, b]" "is_xdigit a" "is_xdigit b" "read_hex [a, b] = code c"
    using hex2_facts [OF code_lt, of c] by blast
  show ?case using Cons.IH safe h by auto
qed simp

lemma parse_render:
  "flag \<in> {CHR ''&'', CHR '';''} \<Longrightarrow> \<forall>p\<in>set ps. CHR ''='' \<notin> set (fst p) \<Longrightarrow>
   parse_params flag trim (render_params flag ps) = map (\<lambda>(k, v). (trim k, v)) ps"
proof (induction flag ps rule: render_params.induct)
  case (1 flag)
  then show ?case by (subst parse_params.simps) (simp add: split_at_none)
next
  case (2 flag k v)
  then have "split_at (CHR ''='') (render_params flag [(k, v)]) = Some (k, UrlEncode True v)"
    using split_at_here [of "CHR ''=''" k "UrlEncode True v"] by simp
  moreover have "split_at flag (UrlEncode True v) = None" by (rule split_at_none [OF separator_not_encoded [OF 2(1)]])
  ultimately show ?case by (subst parse_params.simps) (simp add: url_back)
next
  case (3 flag k v p ps)
  let ?rest = "UrlEncode True v @ flag # render_params flag (p # ps)"
  have "split_at (CHR ''='') (render_params flag ((k, v) # p # ps)) = Some (k, ?rest)"
    using split_at_here [of "CHR ''=''" k ?rest] 3(3) by simp
  moreover have "split_at flag ?rest = Some (UrlEncode True v, render_params flag (p # ps))"
    by (rule split_at_here [OF separator_not_encoded [OF 3(2)]])
  moreover have "parse_params flag trim (render_params flag (p # ps)) = map (\<lambda>(k, v). (trim k, v)) (p # ps)"
    by (rule 3(1)) (use 3(2,3) in auto)
  ultimately show ?case by (subst parse_params.simps) (simp add: url_back)
qed

lemma flag_bits: "(f OR 1) AND 1 \<noteq> (0 :: u8)" "(f OR 2) AND 2 \<noteq> (0 :: u8)" "(f OR 1) AND 2 = (f AND 2 :: u8)" "(f OR 2) AND 1 = (f AND 1 :: u8)"
proof -
  have b: "bit (1::u8) n \<longleftrightarrow> n = 0" "bit (2::u8) n \<longleftrightarrow> n = 1" for n
    using bit_exp_iff [of 1 n, where 'a = u8] by (auto simp: bit_1_iff)
  have "bit ((f OR 1) AND 1) 0" "bit ((f OR 2) AND 2) 1" by (simp_all add: bit_and_iff bit_or_iff b)
  then show "(f OR 1) AND 1 \<noteq> 0" "(f OR 2) AND 2 \<noteq> 0" by (metis bit_0_eq bot_apply bot_bool_def)+
  show "(f OR 1) AND 2 = (f AND 2)" "(f OR 2) AND 1 = (f AND 1)"
    by (rule bit_word_eqI, auto simp: bit_and_iff bit_or_iff b)+
qed

text \<open>
  Property C33. A query string made of keys and URL-encoded values comes back through \<^verbatim>\<open>getParam\<close>: the value is the one
  that was set before, else the decoded value of the first pair whose key is the same up to case, else the default;
  the string is parsed once, so that asking again changes nothing.
\<close>

theorem query_roundtrip:
  assumes "rq_ok r" and "rq_flag r = 0" and "rq_query r = render_params (CHR ''&'') ps"
    and "\<forall>p\<in>set ps. CHR ''='' \<notin> set (fst p)"
    and "\<not> strcasestr (getHeader ''content-type'' '''' r) ''application/x-www-form-urlencoded''"
  shows "case getParam k d r of (v, r') \<Rightarrow>
      v = (case ci_get k (rq_params r) of Some w \<Rightarrow> w
           | None \<Rightarrow> (case find (\<lambda>p. fold_key (fst p) = fold_key k) ps of Some (_, w) \<Rightarrow> w | None \<Rightarrow> d))
    \<and> getParam k' d' r' = (map_get (rq_params r') k' d', r')"
proof -
  have p: "parse_params (CHR ''&'') id (rq_query r) = ps"
    using parse_render [of "CHR ''&''" ps id] assms(3,4) by simp
  let ?r1 = "r\<lparr>rq_params := insert_all ps (rq_params r), rq_flag := rq_flag r OR 1\<rparr>"
  have q: "initQueryParam r = ?r1" using assms(2) p by (simp add: initQueryParam_def)
  let ?r2 = "?r1\<lparr>rq_flag := rq_flag ?r1 OR 2\<rparr>"
  have b: "initBodyParam ?r1 = ?r2"
    using assms(2,5) by (simp add: initBodyParam_def getHeader_def)
  have g: "getParam k d r = (map_get (insert_all ps (rq_params r)) k d, ?r2)"
    unfolding getParam_def q Let_def b by simp
  have again: "initBodyParam (initQueryParam ?r2) = ?r2"
    using flag_bits by (simp add: initQueryParam_def initBodyParam_def assms(2))
  have "map_get (insert_all ps (rq_params r)) k d = (case ci_get k (rq_params r) of Some w \<Rightarrow> w
           | None \<Rightarrow> (case find (\<lambda>p. fold_key (fst p) = fold_key k) ps of Some (_, w) \<Rightarrow> w | None \<Rightarrow> d))"
    using insert_all_get [of "rq_params r" k ps] assms(1) by (auto simp: rq_ok_def map_get_def split: option.splits)
  moreover have "getParam k' d' ?r2 = (map_get (rq_params ?r2) k' d', ?r2)"
    unfolding getParam_def again Let_def by (rule refl)
  ultimately show ?thesis unfolding g by (simp only: prod.case)
qed

definition example_request :: http_request where
  "example_request = (new_HttpRequest 0x11 True)\<lparr>rq_query := render_params (CHR ''&'') [(''a'', ''1 2''), (''b'', ''&'')]\<rparr>"

theorem query_roundtrip_witness: "fst (getParam ''B'' '''' example_request) = ''&''"
proof -
  have ok: "rq_ok example_request" using new_request_ok by (simp add: example_request_def rq_ok_def)
  have 1: "rq_flag example_request = 0" "rq_query example_request = render_params (CHR ''&'') [(''a'', ''1 2''), (''b'', ''&'')]"
    by (simp_all add: example_request_def new_HttpRequest_def)
  have 2: "\<not> strcasestr (getHeader ''content-type'' '''' example_request) ''application/x-www-form-urlencoded''" by code_simp
  have 3: "ci_get ''B'' (rq_params example_request) = None" by code_simp
  have 4: "find (\<lambda>p. fold_key (fst p) = fold_key ''B'') [(''a'', ''1 2''), (''b'', ''&'')] = Some (''b'', ''&'')" by code_simp
  obtain v r' where g: "getParam ''B'' '''' example_request = (v, r')" by force
  show ?thesis using query_roundtrip [OF ok 1 _ 2, where k = "''B''" and d = "''''"] unfolding g
    by (simp add: 3 4 del: find.simps)
qed

section \<open>Framing\<close>

definition is_name :: "string \<Rightarrow> string \<times> string \<Rightarrow> bool" where
  "is_name n i \<longleftrightarrow> strcasecmp (c_str (fst i)) n = 0"

definition request_fields :: "http_request \<Rightarrow> (string \<times> string) list" where
  "request_fields r =
     (if rq_websocket r then [] else [(''connection'', if rq_close r then ''close'' else ''keep-alive'')])
     @ filter (\<lambda>i. \<not> skip_request r i) (rq_headers r)
     @ (if rq_body r = [] then [] else [(''content-length'', show_nat (length (rq_body r)))])"

definition response_fields :: "http_response \<Rightarrow> (string \<times> string) list" where
  "response_fields r =
     filter (\<lambda>i. \<not> skip_response r i) (rs_headers r) @ map (\<lambda>c. (''Set-Cookie'', c)) (rs_cookies r)
     @ (if rs_websocket r then [] else [(''connection'', if rs_close r then ''close'' else ''keep-alive'')])
     @ (if rs_body r = [] then [] else [(''content-length'', show_nat (length (rs_body r)))])"

lemma concat_filter: "concat (map (\<lambda>i. if P i then '''' else f i) xs) = concat (map f (filter (\<lambda>i. \<not> P i) xs))"
  by (induction xs) auto

lemma header_lines:
  "connection_line c = header_line (''connection'', if c then ''close'' else ''keep-alive'')"
  "(\<lambda>v. ''Set-Cookie: '' @ v @ crlf) = (\<lambda>v. header_line (''Set-Cookie'', v))"
  "body_text b = concat (map header_line (if b = [] then [] else [(''content-length'', show_nat (length b))])) @ crlf @ b"
  by (simp_all add: connection_line_def header_line_def body_text_def)

lemma dump_request_fields:
  "HttpMethodToString (rq_method r) = Inr m \<Longrightarrow>
   dump_request r = Inr (m @ '' '' @ rq_path r @ (if rq_query r = [] then '''' else ''?'') @ rq_query r
       @ (if rq_fragment r = [] then '''' else ''#'') @ rq_fragment r @ '' '' @ version_text (rq_version r) @ crlf
       @ concat (map header_line (request_fields r)) @ crlf @ rq_body r)"
  by (simp add: dump_request_def concat_filter request_fields_def header_lines)

lemma dump_response_fields:
  "(if rs_reason r = [] then HttpStatusToString (rs_status r) else Inr (rs_reason r)) = Inr reason \<Longrightarrow>
   dump_response r = Inr (version_text (rs_version r) @ '' '' @ show_nat (rs_status r) @ '' '' @ reason @ crlf
       @ concat (map header_line (response_fields r)) @ crlf @ rs_body r)"
  by (simp add: dump_response_def concat_filter response_fields_def header_lines(2) [simplified] header_lines(1,3) comp_def)

lemma no_fields: "filter (is_name n) (filter (\<lambda>i. \<not> P i) xs) = []" if "\<And>i. is_name n i \<Longrightarrow> P i"
  using that by (auto simp: filter_empty_conv)

lemma field_names:
  "strcasecmp (c_str ''content-length'') ''content-length'' = 0" "strcasecmp (c_str ''connection'') ''connection'' = 0"
  "strcasecmp (c_str ''connection'') ''content-length'' \<noteq> 0" "strcasecmp (c_str ''content-length'') ''connection'' \<noteq> 0"
  "strcasecmp (c_str ''Set-Cookie'') ''connection'' \<noteq> 0" "strcasecmp (c_str ''Set-Cookie'') ''content-length'' \<noteq> 0"
  by code_simp+

text \<open>
  A printed message is its first line, its header fields, an empty line and its body. A request with a body has exactly one content length and,
  unless it is a websocket, exactly one connection field, whatever headers were set; a response has one connection field too,
  but it prints a content length that was set as a header beside its own.
\<close>

theorem message_fields:
  "(\<forall>m. HttpMethodToString (rq_method rq) = Inr m \<longrightarrow>
      (\<exists>first. dump_request rq = Inr (m @ '' '' @ first @ crlf @ concat (map header_line (request_fields rq)) @ crlf @ rq_body rq)))
   \<and> (rs_reason rs \<noteq> [] \<longrightarrow>
      (\<exists>first. dump_response rs = Inr (first @ crlf @ concat (map header_line (response_fields rs)) @ crlf @ rs_body rs)))
   \<and> (rq_body rq \<noteq> [] \<longrightarrow> filter (is_name ''content-length'') (request_fields rq) = [(''content-length'', show_nat (length (rq_body rq)))])
   \<and> (\<not> rq_websocket rq \<longrightarrow> filter (is_name ''connection'') (request_fields rq) = [(''connection'', if rq_close rq then ''close'' else ''keep-alive'')])
   \<and> (\<not> rs_websocket rs \<longrightarrow> filter (is_name ''connection'') (response_fields rs) = [(''connection'', if rs_close rs then ''close'' else ''keep-alive'')])
   \<and> (rs_body rs \<noteq> [] \<longrightarrow> filter (is_name ''content-length'') (response_fields rs)
        = filter (is_name ''content-length'') (rs_headers rs) @ [(''content-length'', show_nat (length (rs_body rs)))])"
proof -
  have n: "is_name ''content-length'' (''content-length'', v)" "\<not> is_name ''content-length'' (''connection'', v)"
      "is_name ''connection'' (''connection'', v)" "\<not> is_name ''connection'' (''content-length'', v)"
      "\<not> is_name ''connection'' (''Set-Cookie'', v)" "\<not> is_name ''content-length'' (''Set-Cookie'', v)" for v
    by (simp_all add: is_name_def field_names)
  have sc: "filter (is_name ''connection'') (map (\<lambda>c. (''Set-Cookie'', c)) cs) = []"
      "filter (is_name ''content-length'') (map (\<lambda>c. (''Set-Cookie'', c)) cs) = []" for cs
    using n by (auto simp: filter_empty_conv)
  have keep: "filter (is_name ''content-length'') (filter (\<lambda>i. \<not> skip_response rs i) xs) = filter (is_name ''content-length'') xs" for xs
  proof -
    have "\<not> skip_response rs i" if "is_name ''content-length'' i" for i
    proof -
      have "map to_lower (c_str (fst i)) = map to_lower ''content-length''" using that by (simp add: is_name_def strcasecmp_eq)
      then have "map to_lower (c_str (fst i)) \<noteq> map to_lower ''connection''" by (simp add: to_lower_def is_upper_def)
      then show ?thesis by (simp add: skip_response_def strcasecmp_eq)
    qed
    then show ?thesis by (induction xs) auto
  qed
  have 1: "filter (is_name ''content-length'') (filter (\<lambda>i. \<not> skip_request rq i) xs) = []" if "rq_body rq \<noteq> []" for xs
    by (rule no_fields) (use that in \<open>simp add: is_name_def skip_request_def\<close>)
  have 2: "filter (is_name ''connection'') (filter (\<lambda>i. \<not> skip_request rq i) xs) = []" if "\<not> rq_websocket rq" for xs
    by (rule no_fields) (use that in \<open>simp add: is_name_def skip_request_def\<close>)
  have 3: "filter (is_name ''connection'') (filter (\<lambda>i. \<not> skip_response rs i) xs) = []" if "\<not> rs_websocket rs" for xs
    by (rule no_fields) (use that in \<open>simp add: is_name_def skip_response_def\<close>)
  have 4: "\<exists>first. dump_request rq = Inr (m @ '' '' @ first @ crlf @ concat (map header_line (request_fields rq)) @ crlf @ rq_body rq)"
    if "HttpMethodToString (rq_method rq) = Inr m" for m
    using dump_request_fields [OF that] by (metis append.assoc)
  have 5: "\<exists>first. dump_response rs = Inr (first @ crlf @ concat (map header_line (response_fields rs)) @ crlf @ rs_body rs)"
    if "rs_reason rs \<noteq> []"
    using dump_response_fields [of rs "rs_reason rs"] that by (simp del: append_assoc add: append_assoc [symmetric])
  show ?thesis
    by (intro conjI impI allI 4 5) (auto simp: request_fields_def response_fields_def sc n 1 [unfolded filter_filter] 2 [unfolded filter_filter] 3 [unfolded filter_filter] keep [unfolded filter_filter])
qed

theorem message_fields_witness:
  "filter (is_name ''content-length'') (response_fields ((setHeader_rsp ''Content-Length'' ''5'' (new_HttpResponse 0x11 True))\<lparr>rs_body := ''abc''\<rparr>))
     = [(''Content-Length'', ''5''), (''content-length'', show_nat (length ''abc''))]"
proof -
  let ?r = "(setHeader_rsp ''Content-Length'' ''5'' (new_HttpResponse 0x11 True))\<lparr>rs_body := ''abc''\<rparr>"
  have "filter (is_name ''content-length'') (rs_headers ?r) = [(''Content-Length'', ''5'')]" by code_simp
  moreover have "rs_body ?r = ''abc''" by simp
  ultimately show ?thesis using message_fields [of undefined ?r] by simp
qed

end
