(* ===== verification/UrlParser.thy ===== *)
theory UrlParser
  imports Hiper_Prelude Text
begin

text \<open>
  The URL parser of \<^verbatim>\<open>src/hiper/http/http-parser/http_parser.cc\<close>: the character classes, the state machine for the
  characters of a URL, which the request parser shares, and \<^verbatim>\<open>http_parser_parse_url\<close> with its parsing of the host.
\<close>

section \<open>States and characters\<close>

text \<open>\<^verbatim>\<open>enum state\<close>, in the order of the source.\<close>

datatype pstate =
    s_dead
  | s_start_req_or_res | s_res_or_resp_H | s_start_res | s_res_H | s_res_HT | s_res_HTT | s_res_HTTP
  | s_res_http_major | s_res_http_dot | s_res_http_minor | s_res_http_end
  | s_res_first_status_code | s_res_status_code | s_res_status_start | s_res_status | s_res_line_almost_done
  | s_start_req | s_req_method | s_req_spaces_before_url
  | s_req_schema | s_req_schema_slash | s_req_schema_slash_slash
  | s_req_server_start | s_req_server | s_req_server_with_at
  | s_req_path | s_req_query_string_start | s_req_query_string | s_req_fragment_start | s_req_fragment
  | s_req_http_start | s_req_http_H | s_req_http_HT | s_req_http_HTT | s_req_http_HTTP | s_req_http_I | s_req_http_IC
  | s_req_http_major | s_req_http_dot | s_req_http_minor | s_req_http_end | s_req_line_almost_done
  | s_header_field_start | s_header_field
  | s_header_value_discard_ws | s_header_value_discard_ws_almost_done | s_header_value_discard_lws
  | s_header_value_start | s_header_value | s_header_value_lws | s_header_almost_done
  | s_chunk_size_start | s_chunk_size | s_chunk_parameters | s_chunk_size_almost_done
  | s_headers_almost_done | s_headers_done
  | s_chunk_data | s_chunk_data_almost_done | s_chunk_data_done
  | s_body_identity | s_body_identity_eof
  | s_message_done

definition CR :: char where "CR = CHR 0x0D"
definition LF :: char where "LF = CHR 0x0A"
definition TAB :: char where "TAB = CHR 0x09"
definition FF :: char where "FF = CHR 0x0C"

text \<open>\<^verbatim>\<open>LOWER\<close> sets the bit 0x20.\<close>

definition LOWER :: "char \<Rightarrow> char" where "LOWER c = (if odd (code c div 32) then c else chr (code c + 32))"

definition IS_ALPHA :: "char \<Rightarrow> bool" where "IS_ALPHA c \<longleftrightarrow> 97 \<le> code (LOWER c) \<and> code (LOWER c) \<le> 122"
definition IS_NUM :: "char \<Rightarrow> bool" where "IS_NUM c \<longleftrightarrow> 48 \<le> code c \<and> code c \<le> 57"
definition IS_ALPHANUM :: "char \<Rightarrow> bool" where "IS_ALPHANUM c \<longleftrightarrow> IS_ALPHA c \<or> IS_NUM c"
definition IS_HEX :: "char \<Rightarrow> bool" where "IS_HEX c \<longleftrightarrow> IS_NUM c \<or> 97 \<le> code (LOWER c) \<and> code (LOWER c) \<le> 102"
definition IS_MARK :: "char \<Rightarrow> bool" where "IS_MARK c \<longleftrightarrow> c \<in> set ''-_.!~*'' \<or> c = CHR 0x27 \<or> c = CHR ''('' \<or> c = CHR '')''"
definition IS_USERINFO_CHAR :: "char \<Rightarrow> bool" where
  "IS_USERINFO_CHAR c \<longleftrightarrow> IS_ALPHANUM c \<or> IS_MARK c \<or> c \<in> set ''%;:&=+$,''"
definition IS_HOST_CHAR :: "char \<Rightarrow> bool" where "IS_HOST_CHAR c \<longleftrightarrow> IS_ALPHANUM c \<or> c = CHR ''.'' \<or> c = CHR ''-''"

text \<open>The bit map of the characters of a URL, as bytes.\<close>

definition normal_url_char :: "nat list" where
  "normal_url_char = [0, 0, 0, 0, 246, 255, 255, 127, 255, 255, 255, 255, 255, 255, 255, 127] @ replicate 16 0"

definition BIT_AT :: "nat list \<Rightarrow> nat \<Rightarrow> bool" where "BIT_AT a i \<longleftrightarrow> odd (a ! (i div 8) div 2 ^ (i mod 8))"

definition IS_URL_CHAR :: "char \<Rightarrow> bool" where "IS_URL_CHAR c \<longleftrightarrow> BIT_AT normal_url_char (code c)"

section \<open>Characters of a URL\<close>

definition server_char :: "char \<Rightarrow> pstate" where
  "server_char ch =
     (if ch = CHR ''/'' then s_req_path
      else if ch = CHR ''?'' then s_req_query_string_start
      else if ch = CHR ''@'' then s_req_server_with_at
      else if IS_USERINFO_CHAR ch \<or> ch = CHR ''['' \<or> ch = CHR '']'' then s_req_server
      else s_dead)"

definition parse_url_char :: "pstate \<Rightarrow> char \<Rightarrow> pstate" where
  "parse_url_char s ch =
     (if ch = CHR '' '' \<or> ch = CR \<or> ch = LF then s_dead
      else if ch = TAB \<or> ch = FF then s_dead
      else case s of
        s_req_spaces_before_url \<Rightarrow>
          if ch = CHR ''/'' \<or> ch = CHR ''*'' then s_req_path else if IS_ALPHA ch then s_req_schema else s_dead
      | s_req_schema \<Rightarrow> if IS_ALPHA ch then s else if ch = CHR '':'' then s_req_schema_slash else s_dead
      | s_req_schema_slash \<Rightarrow> if ch = CHR ''/'' then s_req_schema_slash_slash else s_dead
      | s_req_schema_slash_slash \<Rightarrow> if ch = CHR ''/'' then s_req_server_start else s_dead
      | s_req_server_with_at \<Rightarrow> if ch = CHR ''@'' then s_dead else server_char ch
      | s_req_server_start \<Rightarrow> server_char ch
      | s_req_server \<Rightarrow> server_char ch
      | s_req_path \<Rightarrow>
          if IS_URL_CHAR ch then s
          else if ch = CHR ''?'' then s_req_query_string_start
          else if ch = CHR ''#'' then s_req_fragment_start else s_dead
      | s_req_query_string_start \<Rightarrow>
          if IS_URL_CHAR ch \<or> ch = CHR ''?'' then s_req_query_string
          else if ch = CHR ''#'' then s_req_fragment_start else s_dead
      | s_req_query_string \<Rightarrow>
          if IS_URL_CHAR ch \<or> ch = CHR ''?'' then s_req_query_string
          else if ch = CHR ''#'' then s_req_fragment_start else s_dead
      | s_req_fragment_start \<Rightarrow>
          if IS_URL_CHAR ch \<or> ch = CHR ''?'' then s_req_fragment
          else if ch = CHR ''#'' then s else s_dead
      | s_req_fragment \<Rightarrow> if IS_URL_CHAR ch \<or> ch = CHR ''?'' \<or> ch = CHR ''#'' then s else s_dead
      | _ \<Rightarrow> s_dead)"

section \<open>The parts of a URL\<close>

datatype url_field = UF_SCHEMA | UF_HOST | UF_PORT | UF_PATH | UF_QUERY | UF_FRAGMENT | UF_USERINFO

text \<open>\<^verbatim>\<open>field_set\<close> and \<^verbatim>\<open>field_data\<close>: offset and length of the fields that are set.\<close>

type_synonym url_fields = "url_field \<Rightarrow> (u16 \<times> u16) option"

record http_parser_url =
  url_fields :: url_fields
  url_port :: u16

definition url_init :: http_parser_url where "url_init = \<lparr>url_fields = (\<lambda>_. None), url_port = 0\<rparr>"

definition longer :: "url_field \<Rightarrow> url_fields \<Rightarrow> url_fields" where
  "longer uf f = (case f uf of None \<Rightarrow> f | Some (off, len) \<Rightarrow> f(uf \<mapsto> (off, len + 1)))"

definition starts :: "url_field \<Rightarrow> nat \<Rightarrow> url_fields \<Rightarrow> url_fields" where
  "starts uf p f = f(uf \<mapsto> (of_nat p, 1))"

fun field_of :: "pstate \<Rightarrow> url_field option" where
  "field_of s_req_schema = Some UF_SCHEMA"
| "field_of s_req_server_with_at = Some UF_HOST"
| "field_of s_req_server = Some UF_HOST"
| "field_of s_req_path = Some UF_PATH"
| "field_of s_req_query_string = Some UF_QUERY"
| "field_of s_req_fragment = Some UF_FRAGMENT"
| "field_of _ = None"

text \<open>The loop over the URL from position \<open>p\<close>; \<open>None\<close> is the failing return.\<close>

fun url_loop :: "string \<Rightarrow> nat \<Rightarrow> pstate \<Rightarrow> url_field option \<Rightarrow> bool \<Rightarrow> url_fields \<Rightarrow> (bool \<times> url_fields) option" where
  "url_loop [] p s old_uf found_at f = Some (found_at, f)"
| "url_loop (ch # rest) p s old_uf found_at f =
     (let s1 = parse_url_char s ch in
      if s1 = s_dead then None
      else if s1 \<in> {s_req_schema_slash, s_req_schema_slash_slash, s_req_server_start, s_req_query_string_start, s_req_fragment_start}
      then url_loop rest (Suc p) s1 old_uf found_at f
      else case field_of s1 of
        None \<Rightarrow> None
      | Some uf \<Rightarrow>
          let at1 = (found_at \<or> s1 = s_req_server_with_at) in
          if old_uf = Some uf then url_loop rest (Suc p) s1 old_uf at1 (longer uf f)
          else url_loop rest (Suc p) s1 (Some uf) at1 (starts uf p f))"

datatype host_state =
    s_http_host_dead | s_http_userinfo_start | s_http_userinfo | s_http_host_start | s_http_host_v6_start
  | s_http_host | s_http_host_v6 | s_http_host_v6_end | s_http_host_v6_zone_start | s_http_host_v6_zone
  | s_http_host_port_start | s_http_host_port

definition IS_ZONE_CHAR :: "char \<Rightarrow> bool" where "IS_ZONE_CHAR c \<longleftrightarrow> IS_ALPHANUM c \<or> c \<in> set ''%.-_~''"

definition http_parse_host_char :: "host_state \<Rightarrow> char \<Rightarrow> host_state" where
  "http_parse_host_char s ch = (case s of
     s_http_userinfo \<Rightarrow> if ch = CHR ''@'' then s_http_host_start else if IS_USERINFO_CHAR ch then s_http_userinfo else s_http_host_dead
   | s_http_userinfo_start \<Rightarrow> if ch = CHR ''@'' then s_http_host_start else if IS_USERINFO_CHAR ch then s_http_userinfo else s_http_host_dead
   | s_http_host_start \<Rightarrow> if ch = CHR ''['' then s_http_host_v6_start else if IS_HOST_CHAR ch then s_http_host else s_http_host_dead
   | s_http_host \<Rightarrow> if IS_HOST_CHAR ch then s_http_host else if ch = CHR '':'' then s_http_host_port_start else s_http_host_dead
   | s_http_host_v6_end \<Rightarrow> if ch = CHR '':'' then s_http_host_port_start else s_http_host_dead
   | s_http_host_v6 \<Rightarrow>
       if ch = CHR '']'' then s_http_host_v6_end
       else if IS_HEX ch \<or> ch = CHR '':'' \<or> ch = CHR ''.'' then s_http_host_v6
       else if ch = CHR ''%'' then s_http_host_v6_zone_start else s_http_host_dead
   | s_http_host_v6_start \<Rightarrow> if IS_HEX ch \<or> ch = CHR '':'' \<or> ch = CHR ''.'' then s_http_host_v6 else s_http_host_dead
   | s_http_host_v6_zone \<Rightarrow> if ch = CHR '']'' then s_http_host_v6_end else if IS_ZONE_CHAR ch then s_http_host_v6_zone else s_http_host_dead
   | s_http_host_v6_zone_start \<Rightarrow> if IS_ZONE_CHAR ch then s_http_host_v6_zone else s_http_host_dead
   | s_http_host_port \<Rightarrow> if IS_NUM ch then s_http_host_port else s_http_host_dead
   | s_http_host_port_start \<Rightarrow> if IS_NUM ch then s_http_host_port else s_http_host_dead
   | _ \<Rightarrow> s_http_host_dead)"

text \<open>A field that starts anew gets its offset and length 0 first, then every field grows by the character.\<close>

definition moved :: "url_field \<Rightarrow> nat \<Rightarrow> url_fields \<Rightarrow> url_fields" where
  "moved uf p f = (case f uf of None \<Rightarrow> f | Some (off, len) \<Rightarrow> f(uf \<mapsto> (of_nat p, len)))"

definition host_update :: "host_state \<Rightarrow> host_state \<Rightarrow> nat \<Rightarrow> url_fields \<Rightarrow> url_fields" where
  "host_update s new_s p f = (case new_s of
     s_http_host \<Rightarrow> longer UF_HOST (if s \<noteq> s_http_host then moved UF_HOST p f else f)
   | s_http_host_v6 \<Rightarrow> longer UF_HOST (if s \<noteq> s_http_host_v6 then moved UF_HOST p f else f)
   | s_http_host_v6_zone_start \<Rightarrow> longer UF_HOST f
   | s_http_host_v6_zone \<Rightarrow> longer UF_HOST f
   | s_http_host_port \<Rightarrow> longer UF_PORT (if s \<noteq> s_http_host_port then f(UF_PORT \<mapsto> (of_nat p, 0)) else f)
   | s_http_userinfo \<Rightarrow> longer UF_USERINFO (if s \<noteq> s_http_userinfo then f(UF_USERINFO \<mapsto> (of_nat p, 0)) else f)
   | _ \<Rightarrow> f)"

fun host_loop :: "string \<Rightarrow> nat \<Rightarrow> host_state \<Rightarrow> url_fields \<Rightarrow> (host_state \<times> url_fields) option" where
  "host_loop [] p s f = Some (s, f)"
| "host_loop (ch # rest) p s f =
     (let new_s = http_parse_host_char s ch in
      if new_s = s_http_host_dead then None else host_loop rest (Suc p) new_s (host_update s new_s p f))"

definition http_parse_host :: "string \<Rightarrow> bool \<Rightarrow> url_fields \<Rightarrow> url_fields option" where
  "http_parse_host buf found_at f = (case f UF_HOST of
     None \<Rightarrow> None
   | Some (off, len) \<Rightarrow>
       (case host_loop (take (unat len) (drop (unat off) buf)) (unat off)
               (if found_at then s_http_userinfo_start else s_http_host_start) (f(UF_HOST \<mapsto> (off, 0))) of
          None \<Rightarrow> None
        | Some (s, f1) \<Rightarrow>
            if s \<in> {s_http_host_start, s_http_host_v6_start, s_http_host_v6, s_http_host_v6_zone_start, s_http_host_v6_zone,
                    s_http_host_port_start, s_http_userinfo, s_http_userinfo_start} then None
            else Some f1))"

fun port_loop :: "string \<Rightarrow> nat \<Rightarrow> nat option" where
  "port_loop [] v = Some v"
| "port_loop (c # cs) v = (let v1 = v * 10 + (code c - 48) in if v1 > 65535 then None else port_loop cs v1)"

text \<open>\<open>None\<close> is the nonzero return.\<close>

definition http_parser_parse_url :: "string \<Rightarrow> bool \<Rightarrow> http_parser_url option" where
  "http_parser_parse_url buf is_connect =
     (if buf = [] then None
      else case url_loop buf 0 (if is_connect then s_req_server_start else s_req_spaces_before_url) None False (\<lambda>_. None) of
        None \<Rightarrow> None
      | Some (found_at, f) \<Rightarrow>
          if f UF_SCHEMA \<noteq> None \<and> f UF_HOST = None then None
          else case (if f UF_HOST \<noteq> None then http_parse_host buf found_at f else Some f) of
            None \<Rightarrow> None
          | Some f1 \<Rightarrow>
              if is_connect \<and> \<not> (f1 UF_HOST \<noteq> None \<and> f1 UF_PORT \<noteq> None \<and> f1 UF_SCHEMA = None \<and> f1 UF_PATH = None
                   \<and> f1 UF_QUERY = None \<and> f1 UF_FRAGMENT = None \<and> f1 UF_USERINFO = None) then None
              else case f1 UF_PORT of
                None \<Rightarrow> Some \<lparr>url_fields = f1, url_port = 0\<rparr>
              | Some (off, len) \<Rightarrow>
                  map_option (\<lambda>v. \<lparr>url_fields = f1, url_port = of_nat v\<rparr>) (port_loop (take (unat len) (drop (unat off) buf)) 0))"

definition url_text :: "string \<Rightarrow> http_parser_url \<Rightarrow> url_field \<Rightarrow> string option" where
  "url_text buf u uf = map_option (\<lambda>(off, len). take (unat len) (drop (unat off) buf)) (url_fields u uf)"

end
