(* ===== verification/HttpMachine.thy ===== *)
theory HttpMachine
  imports UrlParser Http
begin

text \<open>
  The machine of \<^verbatim>\<open>http_parser_execute\<close> in \<^verbatim>\<open>src/hiper/http/http-parser/http_parser.cc\<close>: the record \<open>hparser\<close> is
  \<^verbatim>\<open>struct http_parser\<close>, \<open>scan\<close> holds the variables of the loop, one definition models the code of each state or of a
  group of states, and a \<open>flow\<close> says how that code ends: the next character, the same one again (\<^verbatim>\<open>goto reexecute\<close>), a
  return, a failed \<^verbatim>\<open>assert\<close>. The callbacks are the fields of \<open>settings\<close>. The strict build is modelled, as the header
  file sets \<^verbatim>\<open>HTTP_PARSER_STRICT\<close>. \<open>flow_all\<close> is the weakest precondition of a flow; its first uses are that reading the
  same character again ends (\<open>below_exec\<close>) and that positions only grow within the data (\<open>onward_exec\<close>), so the loops are
  total. Bits are the set of the flags that are set; lengths of the data are below \<open>2^32\<close> wherever \<open>nread\<close> counts them.
\<close>

section \<open>The parser\<close>

datatype http_errno =
    HPE_OK | HPE_CB_message_begin | HPE_CB_url | HPE_CB_header_field | HPE_CB_header_value | HPE_CB_headers_complete
  | HPE_CB_body | HPE_CB_message_complete | HPE_CB_status | HPE_CB_chunk_header | HPE_CB_chunk_complete
  | HPE_INVALID_EOF_STATE | HPE_HEADER_OVERFLOW | HPE_CLOSED_CONNECTION | HPE_INVALID_VERSION | HPE_INVALID_STATUS
  | HPE_INVALID_METHOD | HPE_INVALID_URL | HPE_INVALID_HOST | HPE_INVALID_PORT | HPE_INVALID_PATH | HPE_INVALID_QUERY_STRING
  | HPE_INVALID_FRAGMENT | HPE_LF_EXPECTED | HPE_INVALID_HEADER_TOKEN | HPE_INVALID_CONTENT_LENGTH
  | HPE_UNEXPECTED_CONTENT_LENGTH | HPE_INVALID_CHUNK_SIZE | HPE_INVALID_CONSTANT | HPE_INVALID_INTERNAL_STATE
  | HPE_STRICT | HPE_PAUSED | HPE_UNKNOWN

datatype parser_type = HTTP_REQUEST | HTTP_RESPONSE | HTTP_BOTH

datatype parser_flag =
    F_CHUNKED | F_CONNECTION_KEEP_ALIVE | F_CONNECTION_CLOSE | F_CONNECTION_UPGRADE | F_TRAILING | F_UPGRADE
  | F_SKIPBODY | F_CONTENTLENGTH

datatype header_state =
    h_general | h_C | h_CO | h_CON
  | h_matching_connection | h_matching_proxy_connection | h_matching_content_length | h_matching_transfer_encoding | h_matching_upgrade
  | h_connection | h_content_length | h_content_length_num | h_content_length_ws | h_transfer_encoding | h_upgrade
  | h_matching_transfer_encoding_chunked | h_matching_connection_token_start | h_matching_connection_keep_alive
  | h_matching_connection_close | h_matching_connection_upgrade | h_matching_connection_token
  | h_transfer_encoding_chunked | h_connection_keep_alive | h_connection_close | h_connection_upgrade

text \<open>The flags are the set of bits that are set.\<close>

record hparser =
  hp_type :: parser_type
  hp_flags :: "parser_flag set"
  hp_state :: pstate
  hp_hstate :: header_state
  hp_index :: nat
  hp_lenient :: bool
  hp_nread :: u32
  hp_clen :: u64
  hp_major :: nat
  hp_minor :: nat
  hp_status :: nat
  hp_method :: http_method
  hp_errno :: http_errno
  hp_upgrade :: bool

definition http_parser_init :: "parser_type \<Rightarrow> hparser" where
  "http_parser_init t = \<lparr>hp_type = t, hp_flags = {},
     hp_state = (case t of HTTP_REQUEST \<Rightarrow> s_start_req | HTTP_RESPONSE \<Rightarrow> s_start_res | HTTP_BOTH \<Rightarrow> s_start_req_or_res),
     hp_hstate = h_general, hp_index = 0, hp_lenient = False, hp_nread = 0, hp_clen = 0, hp_major = 0, hp_minor = 0,
     hp_status = 0, hp_method = DELETE, hp_errno = HPE_OK, hp_upgrade = False\<rparr>"

definition ULLONG_MAX :: u64 where "ULLONG_MAX = - 1"
definition max_header_size :: nat where "max_header_size = 80 * 1024"

definition http_message_needs_eof :: "hparser \<Rightarrow> bool" where
  "http_message_needs_eof h =
     (if hp_type h = HTTP_REQUEST then False
      else if hp_status h div 100 = 1 \<or> hp_status h = 204 \<or> hp_status h = 304 \<or> F_SKIPBODY \<in> hp_flags h then False
      else if F_CHUNKED \<in> hp_flags h \<or> hp_clen h \<noteq> ULLONG_MAX then False
      else True)"

definition http_should_keep_alive :: "hparser \<Rightarrow> bool" where
  "http_should_keep_alive h =
     (if hp_major h > 0 \<and> hp_minor h > 0
      then (if F_CONNECTION_CLOSE \<in> hp_flags h then False else \<not> http_message_needs_eof h)
      else (if F_CONNECTION_KEEP_ALIVE \<notin> hp_flags h then False else \<not> http_message_needs_eof h))"

definition start_state :: "hparser \<Rightarrow> pstate" where
  "start_state h = (if hp_type h = HTTP_REQUEST then s_start_req else s_start_res)"

definition NEW_MESSAGE :: "hparser \<Rightarrow> pstate" where
  "NEW_MESSAGE h = (if http_should_keep_alive h then start_state h else s_dead)"

definition PARSING_HEADER :: "pstate \<Rightarrow> bool" where
  "PARSING_HEADER s \<longleftrightarrow> s \<notin> {s_chunk_data, s_chunk_data_almost_done, s_chunk_data_done, s_body_identity, s_body_identity_eof, s_message_done}"

text \<open>\<^verbatim>\<open>STRICT_TOKEN\<close>: the character in lower case, or nothing for a character that no token has.\<close>

definition STRICT_TOKEN :: "char \<Rightarrow> char option" where
  "STRICT_TOKEN c =
     (if IS_ALPHA c then Some (LOWER c)
      else if IS_NUM c \<or> c \<in> set ''!#$%&*+-.^_|~'' \<or> c = CHR 0x27 \<or> c = CHR 0x60 then Some c
      else None)"

definition IS_HEADER_CHAR :: "char \<Rightarrow> bool" where
  "IS_HEADER_CHAR c \<longleftrightarrow> c = CR \<or> c = LF \<or> c = TAB \<or> code c > 31 \<and> code c \<noteq> 127"

text \<open>The table \<^verbatim>\<open>unhex\<close>: its initialiser ends at 127, the entries behind it are 0.\<close>

definition unhex :: "char \<Rightarrow> int" where
  "unhex c = (let n = code c in
     if 48 \<le> n \<and> n \<le> 57 then int (n - 48)
     else if 65 \<le> n \<and> n \<le> 70 then int (n - 55)
     else if 97 \<le> n \<and> n \<le> 102 then int (n - 87)
     else if n < 128 then - 1 else 0)"

section \<open>Callbacks and control flow\<close>

text \<open>
  The settings: the callbacks see the parser and change what its data pointer refers to, here \<open>'u\<close>. All of them are set
  in the tables of the program.
\<close>

record 'u settings =
  on_message_begin :: "hparser \<Rightarrow> 'u \<Rightarrow> int \<times> 'u"
  on_url :: "hparser \<Rightarrow> string \<Rightarrow> 'u \<Rightarrow> int \<times> 'u"
  on_status :: "hparser \<Rightarrow> string \<Rightarrow> 'u \<Rightarrow> int \<times> 'u"
  on_header_field :: "hparser \<Rightarrow> string \<Rightarrow> 'u \<Rightarrow> int \<times> 'u"
  on_header_value :: "hparser \<Rightarrow> string \<Rightarrow> 'u \<Rightarrow> int \<times> 'u"
  on_headers_complete :: "hparser \<Rightarrow> 'u \<Rightarrow> int \<times> 'u"
  on_body :: "hparser \<Rightarrow> string \<Rightarrow> 'u \<Rightarrow> int \<times> 'u"
  on_message_complete :: "hparser \<Rightarrow> 'u \<Rightarrow> int \<times> 'u"
  on_chunk_header :: "hparser \<Rightarrow> 'u \<Rightarrow> int \<times> 'u"
  on_chunk_complete :: "hparser \<Rightarrow> 'u \<Rightarrow> int \<times> 'u"

text \<open>
  The variables of the loop: the position, the parser (with the local copies of its state and its count of header bytes,
  which every exit stores), the callbacks' data and the marks.
\<close>

record 'u scan =
  sc_p :: nat
  sc_h :: hparser
  sc_u :: 'u
  sc_field :: "nat option"
  sc_value :: "nat option"
  sc_url :: "nat option"
  sc_body :: "nat option"
  sc_stat :: "nat option"

text \<open>How the code of a state ends: the next character, the same character again, a return, a failed assertion.\<close>

datatype 'u flow = Next "'u scan" | Redo "'u scan" | Done nat "'u scan" | Assertion

abbreviation upd_h :: "(hparser \<Rightarrow> hparser) \<Rightarrow> 'u scan \<Rightarrow> 'u scan" where
  "upd_h f s \<equiv> s\<lparr>sc_h := f (sc_h s)\<rparr>"

definition UPDATE_STATE :: "pstate \<Rightarrow> 'u scan \<Rightarrow> 'u scan" where
  "UPDATE_STATE v s = upd_h (\<lambda>h. h\<lparr>hp_state := v\<rparr>) s"

definition SET_ERRNO :: "http_errno \<Rightarrow> 'u scan \<Rightarrow> 'u scan" where
  "SET_ERRNO e s = upd_h (\<lambda>h. h\<lparr>hp_errno := e\<rparr>) s"

definition fail :: "http_errno \<Rightarrow> 'u scan \<Rightarrow> 'u flow" where "fail e s = Done (sc_p s) (SET_ERRNO e s)"

definition CALLBACK_NOTIFY :: "(hparser \<Rightarrow> 'u \<Rightarrow> int \<times> 'u) \<Rightarrow> http_errno \<Rightarrow> nat \<Rightarrow> ('u scan \<Rightarrow> 'u flow) \<Rightarrow> 'u scan \<Rightarrow> 'u flow" where
  "CALLBACK_NOTIFY cb e er k s =
     (if hp_errno (sc_h s) \<noteq> HPE_OK then Assertion
      else case cb (sc_h s) (sc_u s) of (r, u) \<Rightarrow>
        let s1 = s\<lparr>sc_u := u\<rparr> in if r \<noteq> 0 then Done er (SET_ERRNO e s1) else k s1)"

text \<open>The data callback for a mark: \<open>get\<close> and \<open>clear\<close> read and reset it.\<close>

definition CALLBACK_DATA :: "(hparser \<Rightarrow> string \<Rightarrow> 'u \<Rightarrow> int \<times> 'u) \<Rightarrow> http_errno \<Rightarrow> ('u scan \<Rightarrow> nat option) \<Rightarrow> ('u scan \<Rightarrow> 'u scan)
    \<Rightarrow> string \<Rightarrow> nat \<Rightarrow> nat \<Rightarrow> ('u scan \<Rightarrow> 'u flow) \<Rightarrow> 'u scan \<Rightarrow> 'u flow" where
  "CALLBACK_DATA cb e get clear data stop_at er k s =
     (if hp_errno (sc_h s) \<noteq> HPE_OK then Assertion
      else case get s of
        None \<Rightarrow> k s
      | Some m \<Rightarrow> (case cb (sc_h s) (take (stop_at - m) (drop m data)) (sc_u s) of (r, u) \<Rightarrow>
          let s1 = s\<lparr>sc_u := u\<rparr> in if r \<noteq> 0 then Done er (SET_ERRNO e s1) else k (clear s1)))"

definition data_field :: "'u settings \<Rightarrow> string \<Rightarrow> nat \<Rightarrow> nat \<Rightarrow> ('u scan \<Rightarrow> 'u flow) \<Rightarrow> 'u scan \<Rightarrow> 'u flow" where
  "data_field st = CALLBACK_DATA (on_header_field st) HPE_CB_header_field sc_field (\<lambda>s. s\<lparr>sc_field := None\<rparr>)"
definition data_value :: "'u settings \<Rightarrow> string \<Rightarrow> nat \<Rightarrow> nat \<Rightarrow> ('u scan \<Rightarrow> 'u flow) \<Rightarrow> 'u scan \<Rightarrow> 'u flow" where
  "data_value st = CALLBACK_DATA (on_header_value st) HPE_CB_header_value sc_value (\<lambda>s. s\<lparr>sc_value := None\<rparr>)"
definition data_url :: "'u settings \<Rightarrow> string \<Rightarrow> nat \<Rightarrow> nat \<Rightarrow> ('u scan \<Rightarrow> 'u flow) \<Rightarrow> 'u scan \<Rightarrow> 'u flow" where
  "data_url st = CALLBACK_DATA (on_url st) HPE_CB_url sc_url (\<lambda>s. s\<lparr>sc_url := None\<rparr>)"
definition data_body :: "'u settings \<Rightarrow> string \<Rightarrow> nat \<Rightarrow> nat \<Rightarrow> ('u scan \<Rightarrow> 'u flow) \<Rightarrow> 'u scan \<Rightarrow> 'u flow" where
  "data_body st = CALLBACK_DATA (on_body st) HPE_CB_body sc_body (\<lambda>s. s\<lparr>sc_body := None\<rparr>)"
definition data_status :: "'u settings \<Rightarrow> string \<Rightarrow> nat \<Rightarrow> nat \<Rightarrow> ('u scan \<Rightarrow> 'u flow) \<Rightarrow> 'u scan \<Rightarrow> 'u flow" where
  "data_status st = CALLBACK_DATA (on_status st) HPE_CB_status sc_stat (\<lambda>s. s\<lparr>sc_stat := None\<rparr>)"

definition MARK :: "nat option \<Rightarrow> nat \<Rightarrow> nat option" where "MARK m p = (case m of None \<Rightarrow> Some p | Some q \<Rightarrow> Some q)"

definition COUNT_HEADER_SIZE :: "nat \<Rightarrow> ('u scan \<Rightarrow> 'u flow) \<Rightarrow> 'u scan \<Rightarrow> 'u flow" where
  "COUNT_HEADER_SIZE v k s =
     (let s1 = upd_h (\<lambda>h. h\<lparr>hp_nread := hp_nread h + of_nat v\<rparr>) s in
      if unat (hp_nread (sc_h s1)) > max_header_size then fail HPE_HEADER_OVERFLOW s1 else k s1)"

text \<open>A state whose character is checked by \<^verbatim>\<open>STRICT_CHECK\<close>.\<close>

definition expect :: "char \<Rightarrow> pstate \<Rightarrow> char \<Rightarrow> 'u scan \<Rightarrow> 'u flow" where
  "expect c v ch s = (if ch \<noteq> c then fail HPE_STRICT s else Next (UPDATE_STATE v s))"

definition new_message :: "'u scan \<Rightarrow> 'u scan" where "new_message s = UPDATE_STATE (NEW_MESSAGE (sc_h s)) s"

definition flag_on :: "parser_flag \<Rightarrow> 'u scan \<Rightarrow> 'u scan" where "flag_on f s = upd_h (\<lambda>h. h\<lparr>hp_flags := insert f (hp_flags h)\<rparr>) s"
definition set_hstate :: "header_state \<Rightarrow> 'u scan \<Rightarrow> 'u scan" where "set_hstate v s = upd_h (\<lambda>h. h\<lparr>hp_hstate := v\<rparr>) s"
definition set_index :: "nat \<Rightarrow> 'u scan \<Rightarrow> 'u scan" where "set_index i s = upd_h (\<lambda>h. h\<lparr>hp_index := i\<rparr>) s"
definition set_clen :: "u64 \<Rightarrow> 'u scan \<Rightarrow> 'u scan" where "set_clen n s = upd_h (\<lambda>h. h\<lparr>hp_clen := n\<rparr>) s"
definition start_message :: "'u scan \<Rightarrow> 'u scan" where "start_message s = upd_h (\<lambda>h. h\<lparr>hp_flags := {}, hp_clen := ULLONG_MAX\<rparr>) s"

section \<open>The status line\<close>

definition digit :: "char \<Rightarrow> nat" where "digit ch = code ch - 48"

definition is_eol :: "char \<Rightarrow> bool" where "is_eol ch \<longleftrightarrow> ch = CR \<or> ch = LF"

definition st_response :: "'u settings \<Rightarrow> string \<Rightarrow> char \<Rightarrow> 'u scan \<Rightarrow> 'u flow" where
  "st_response st data ch s = (case hp_state (sc_h s) of
     s_start_req_or_res \<Rightarrow>
       if is_eol ch then Next s
       else let s1 = start_message s in
         if ch = CHR ''H'' then CALLBACK_NOTIFY (on_message_begin st) HPE_CB_message_begin (Suc (sc_p s)) Next (UPDATE_STATE s_res_or_resp_H s1)
         else Redo (UPDATE_STATE s_start_req (upd_h (\<lambda>h. h\<lparr>hp_type := HTTP_REQUEST\<rparr>) s1))
   | s_res_or_resp_H \<Rightarrow>
       if ch = CHR ''T'' then Next (UPDATE_STATE s_res_HT (upd_h (\<lambda>h. h\<lparr>hp_type := HTTP_RESPONSE\<rparr>) s))
       else if ch \<noteq> CHR ''E'' then fail HPE_INVALID_CONSTANT s
       else Next (UPDATE_STATE s_req_method (upd_h (\<lambda>h. h\<lparr>hp_type := HTTP_REQUEST, hp_method := HEAD, hp_index := 2\<rparr>) s))
   | s_start_res \<Rightarrow>
       if is_eol ch then Next s
       else let s1 = start_message s in
         if ch = CHR ''H'' then CALLBACK_NOTIFY (on_message_begin st) HPE_CB_message_begin (Suc (sc_p s)) Next (UPDATE_STATE s_res_H s1)
         else fail HPE_INVALID_CONSTANT s1
   | s_res_H \<Rightarrow> expect (CHR ''T'') s_res_HT ch s
   | s_res_HT \<Rightarrow> expect (CHR ''T'') s_res_HTT ch s
   | s_res_HTT \<Rightarrow> expect (CHR ''P'') s_res_HTTP ch s
   | s_res_HTTP \<Rightarrow> expect (CHR ''/'') s_res_http_major ch s
   | s_res_http_major \<Rightarrow>
       if \<not> IS_NUM ch then fail HPE_INVALID_VERSION s
       else Next (UPDATE_STATE s_res_http_dot (upd_h (\<lambda>h. h\<lparr>hp_major := digit ch\<rparr>) s))
   | s_res_http_dot \<Rightarrow> if ch \<noteq> CHR ''.'' then fail HPE_INVALID_VERSION s else Next (UPDATE_STATE s_res_http_minor s)
   | s_res_http_minor \<Rightarrow>
       if \<not> IS_NUM ch then fail HPE_INVALID_VERSION s
       else Next (UPDATE_STATE s_res_http_end (upd_h (\<lambda>h. h\<lparr>hp_minor := digit ch\<rparr>) s))
   | s_res_http_end \<Rightarrow> if ch \<noteq> CHR '' '' then fail HPE_INVALID_VERSION s else Next (UPDATE_STATE s_res_first_status_code s)
   | s_res_first_status_code \<Rightarrow>
       if \<not> IS_NUM ch then (if ch = CHR '' '' then Next s else fail HPE_INVALID_STATUS s)
       else Next (UPDATE_STATE s_res_status_code (upd_h (\<lambda>h. h\<lparr>hp_status := digit ch\<rparr>) s))
   | s_res_status_code \<Rightarrow>
       if \<not> IS_NUM ch then
         (if ch = CHR '' '' then Next (UPDATE_STATE s_res_status_start s)
          else if is_eol ch then Redo (UPDATE_STATE s_res_status_start s)
          else fail HPE_INVALID_STATUS s)
       else
         let s1 = upd_h (\<lambda>h. h\<lparr>hp_status := hp_status h * 10 + digit ch\<rparr>) s in
         if hp_status (sc_h s1) > 999 then fail HPE_INVALID_STATUS s1 else Next s1
   | s_res_status_start \<Rightarrow>
       let s1 = set_index 0 (UPDATE_STATE s_res_status (s\<lparr>sc_stat := MARK (sc_stat s) (sc_p s)\<rparr>)) in
       if is_eol ch then Redo s1 else Next s1
   | s_res_status \<Rightarrow>
       if ch = CR then data_status st data (sc_p s) (Suc (sc_p s)) Next (UPDATE_STATE s_res_line_almost_done s)
       else if ch = LF then data_status st data (sc_p s) (Suc (sc_p s)) Next (UPDATE_STATE s_header_field_start s)
       else Next s
   | s_res_line_almost_done \<Rightarrow> expect LF s_header_field_start ch s
   | _ \<Rightarrow> Assertion)"

section \<open>The request line\<close>

definition first_method :: "char \<Rightarrow> http_method option" where
  "first_method ch =
     map_of [(CHR ''A'', ACL), (CHR ''B'', BIND), (CHR ''C'', CONNECT), (CHR ''D'', DELETE), (CHR ''G'', GET), (CHR ''H'', HEAD),
       (CHR ''L'', LOCK), (CHR ''M'', MKCOL), (CHR ''N'', NOTIFY), (CHR ''O'', OPTIONS), (CHR ''P'', POST), (CHR ''R'', REPORT),
       (CHR ''S'', SUBSCRIBE), (CHR ''T'', TRACE), (CHR ''U'', UNLOCK)] ch"

definition method_text :: "http_method \<Rightarrow> string" where
  "method_text m = (case HttpMethodToString m of Inr t \<Rightarrow> t | Inl _ \<Rightarrow> [])"

text \<open>The character of a C string at an index, with the NUL behind its end.\<close>

definition char_at :: "string \<Rightarrow> nat \<Rightarrow> char" where "char_at t i = (if i < length t then t ! i else CHR 0x00)"

definition other_method :: "http_method \<Rightarrow> nat \<Rightarrow> char \<Rightarrow> http_method option" where
  "other_method m i ch =
     map_of [((POST, 1, CHR ''U''), PUT), ((POST, 1, CHR ''A''), PATCH), ((POST, 1, CHR ''R''), PROPFIND),
       ((PUT, 2, CHR ''R''), PURGE), ((CONNECT, 1, CHR ''H''), CHECKOUT), ((CONNECT, 2, CHR ''P''), COPY),
       ((MKCOL, 1, CHR ''O''), MOVE), ((MKCOL, 1, CHR ''E''), MERGE), ((MKCOL, 1, CHR ''-''), MSEARCH),
       ((MKCOL, 2, CHR ''A''), MKACTIVITY), ((MKCOL, 3, CHR ''A''), MKCALENDAR), ((SUBSCRIBE, 1, CHR ''E''), SEARCH),
       ((SUBSCRIBE, 1, CHR ''O''), SOURCE), ((REPORT, 2, CHR ''B''), REBIND), ((PROPFIND, 4, CHR ''P''), PROPPATCH),
       ((LOCK, 1, CHR ''I''), LINK), ((UNLOCK, 2, CHR ''S''), UNSUBSCRIBE), ((UNLOCK, 2, CHR ''B''), UNBIND),
       ((UNLOCK, 3, CHR ''I''), UNLINK)] (m, i, ch)"

definition url_step :: "char \<Rightarrow> 'u scan \<Rightarrow> 'u flow" where
  "url_step ch s =
     (let s1 = UPDATE_STATE (parse_url_char (hp_state (sc_h s)) ch) s in
      if hp_state (sc_h s1) = s_dead then fail HPE_INVALID_URL s1 else Next s1)"

definition st_url :: "'u settings \<Rightarrow> string \<Rightarrow> char \<Rightarrow> 'u scan \<Rightarrow> 'u flow" where
  "st_url st data ch s =
     (if ch = CHR '' '' then data_url st data (sc_p s) (Suc (sc_p s)) Next (UPDATE_STATE s_req_http_start s)
      else if is_eol ch then
        data_url st data (sc_p s) (Suc (sc_p s)) Next
          (UPDATE_STATE (if ch = CR then s_req_line_almost_done else s_header_field_start)
             (upd_h (\<lambda>h. h\<lparr>hp_major := 0, hp_minor := 9\<rparr>) s))
      else url_step ch s)"

definition st_method :: "char \<Rightarrow> 'u scan \<Rightarrow> 'u flow" where
  "st_method ch s =
     (let h = sc_h s; m = hp_method h; i = hp_index h; mch = char_at (method_text m) i; next = set_index (Suc i) in
      if ch = CHR 0x00 then fail HPE_INVALID_METHOD s
      else if ch = CHR '' '' \<and> mch = CHR 0x00 then Next (next (UPDATE_STATE s_req_spaces_before_url s))
      else if ch = mch then Next (next s)
      else if 65 \<le> code ch \<and> code ch \<le> 90 \<or> ch = CHR ''-'' then
        (case other_method m i ch of
           None \<Rightarrow> fail HPE_INVALID_METHOD s
         | Some m1 \<Rightarrow> Next (next (upd_h (\<lambda>h. h\<lparr>hp_method := m1\<rparr>) s)))
      else fail HPE_INVALID_METHOD s)"

definition st_request :: "'u settings \<Rightarrow> string \<Rightarrow> char \<Rightarrow> 'u scan \<Rightarrow> 'u flow" where
  "st_request st data ch s = (case hp_state (sc_h s) of
     s_start_req \<Rightarrow>
       if is_eol ch then Next s
       else let s1 = start_message s in
         if \<not> IS_ALPHA ch then fail HPE_INVALID_METHOD s1
         else (case first_method ch of
             None \<Rightarrow> fail HPE_INVALID_METHOD (upd_h (\<lambda>h. h\<lparr>hp_method := DELETE, hp_index := 1\<rparr>) s1)
           | Some m \<Rightarrow> CALLBACK_NOTIFY (on_message_begin st) HPE_CB_message_begin (Suc (sc_p s)) Next
               (UPDATE_STATE s_req_method (upd_h (\<lambda>h. h\<lparr>hp_method := m, hp_index := 1\<rparr>) s1)))
   | s_req_method \<Rightarrow> st_method ch s
   | s_req_spaces_before_url \<Rightarrow>
       if ch = CHR '' '' then Next s
       else
         let s1 = s\<lparr>sc_url := MARK (sc_url s) (sc_p s)\<rparr>
         in url_step ch (if hp_method (sc_h s1) = CONNECT then UPDATE_STATE s_req_server_start s1 else s1)
   | s_req_schema \<Rightarrow> if ch = CHR '' '' \<or> is_eol ch then fail HPE_INVALID_URL s else url_step ch s
   | s_req_schema_slash \<Rightarrow> if ch = CHR '' '' \<or> is_eol ch then fail HPE_INVALID_URL s else url_step ch s
   | s_req_schema_slash_slash \<Rightarrow> if ch = CHR '' '' \<or> is_eol ch then fail HPE_INVALID_URL s else url_step ch s
   | s_req_server_start \<Rightarrow> if ch = CHR '' '' \<or> is_eol ch then fail HPE_INVALID_URL s else url_step ch s
   | s_req_server \<Rightarrow> st_url st data ch s
   | s_req_server_with_at \<Rightarrow> st_url st data ch s
   | s_req_path \<Rightarrow> st_url st data ch s
   | s_req_query_string_start \<Rightarrow> st_url st data ch s
   | s_req_query_string \<Rightarrow> st_url st data ch s
   | s_req_fragment_start \<Rightarrow> st_url st data ch s
   | s_req_fragment \<Rightarrow> st_url st data ch s
   | s_req_http_start \<Rightarrow>
       if ch = CHR '' '' then Next s
       else if ch = CHR ''H'' then Next (UPDATE_STATE s_req_http_H s)
       else if ch = CHR ''I'' \<and> hp_method (sc_h s) = SOURCE then Next (UPDATE_STATE s_req_http_I s)
       else fail HPE_INVALID_CONSTANT s
   | s_req_http_H \<Rightarrow> expect (CHR ''T'') s_req_http_HT ch s
   | s_req_http_HT \<Rightarrow> expect (CHR ''T'') s_req_http_HTT ch s
   | s_req_http_HTT \<Rightarrow> expect (CHR ''P'') s_req_http_HTTP ch s
   | s_req_http_I \<Rightarrow> expect (CHR ''C'') s_req_http_IC ch s
   | s_req_http_IC \<Rightarrow> expect (CHR ''E'') s_req_http_HTTP ch s
   | s_req_http_HTTP \<Rightarrow> expect (CHR ''/'') s_req_http_major ch s
   | s_req_http_major \<Rightarrow>
       if \<not> IS_NUM ch then fail HPE_INVALID_VERSION s
       else Next (UPDATE_STATE s_req_http_dot (upd_h (\<lambda>h. h\<lparr>hp_major := digit ch\<rparr>) s))
   | s_req_http_dot \<Rightarrow> if ch \<noteq> CHR ''.'' then fail HPE_INVALID_VERSION s else Next (UPDATE_STATE s_req_http_minor s)
   | s_req_http_minor \<Rightarrow>
       if \<not> IS_NUM ch then fail HPE_INVALID_VERSION s
       else Next (UPDATE_STATE s_req_http_end (upd_h (\<lambda>h. h\<lparr>hp_minor := digit ch\<rparr>) s))
   | s_req_http_end \<Rightarrow>
       if ch = CR then Next (UPDATE_STATE s_req_line_almost_done s)
       else if ch = LF then Next (UPDATE_STATE s_header_field_start s)
       else fail HPE_INVALID_VERSION s
   | s_req_line_almost_done \<Rightarrow> if ch \<noteq> LF then fail HPE_LF_EXPECTED s else Next (UPDATE_STATE s_header_field_start s)
   | _ \<Rightarrow> Assertion)"

section \<open>Header fields\<close>

text \<open>One more character of a header name or value that the parser knows.\<close>

definition matching :: "string \<Rightarrow> header_state \<Rightarrow> header_state \<Rightarrow> char \<Rightarrow> hparser \<Rightarrow> hparser" where
  "matching word hit miss c h =
     (let i = Suc (hp_index h); h1 = h\<lparr>hp_index := i\<rparr> in
      if i > length word \<or> c \<noteq> char_at word i then h1\<lparr>hp_hstate := miss\<rparr>
      else if i = length word - 1 then h1\<lparr>hp_hstate := hit\<rparr>
      else h1)"

definition st_header_field_start :: "char \<Rightarrow> 'u scan \<Rightarrow> 'u flow" where
  "st_header_field_start ch s =
     (if ch = CR then Next (UPDATE_STATE s_headers_almost_done s)
      else if ch = LF then Redo (UPDATE_STATE s_headers_almost_done s)
      else case STRICT_TOKEN ch of
        None \<Rightarrow> fail HPE_INVALID_HEADER_TOKEN s
      | Some c \<Rightarrow>
          Next (set_hstate
            (if c = CHR ''c'' then h_C
             else if c = CHR ''p'' then h_matching_proxy_connection
             else if c = CHR ''t'' then h_matching_transfer_encoding
             else if c = CHR ''u'' then h_matching_upgrade
             else h_general)
            (UPDATE_STATE s_header_field (set_index 0 (s\<lparr>sc_field := MARK (sc_field s) (sc_p s)\<rparr>)))))"

text \<open>The characters of a token that follow \<open>p\<close>, up to the bound \<open>pe\<close>.\<close>

function skip_tokens :: "string \<Rightarrow> nat \<Rightarrow> nat \<Rightarrow> nat" where
  "skip_tokens data pe p = (if p + 1 < pe \<and> STRICT_TOKEN (data ! (p + 1)) \<noteq> None then skip_tokens data pe (p + 1) else p)"
  by auto
termination by (relation "measure (\<lambda>(_, pe, p). pe - p)") auto
declare skip_tokens.simps [simp del]

text \<open>One pass of the loop over a header name: the position and the parser, or the failed assertion.\<close>

definition field_char :: "string \<Rightarrow> char \<Rightarrow> char \<Rightarrow> nat \<Rightarrow> hparser \<Rightarrow> (nat \<times> hparser) option" where
  "field_char data ch c p h = (case hp_hstate h of
     h_general \<Rightarrow> Some (skip_tokens data (p + min (length data - p) max_header_size) p, h)
   | h_C \<Rightarrow> Some (p, h\<lparr>hp_index := Suc (hp_index h), hp_hstate := if c = CHR ''o'' then h_CO else h_general\<rparr>)
   | h_CO \<Rightarrow> Some (p, h\<lparr>hp_index := Suc (hp_index h), hp_hstate := if c = CHR ''n'' then h_CON else h_general\<rparr>)
   | h_CON \<Rightarrow> Some (p, h\<lparr>hp_index := Suc (hp_index h), hp_hstate :=
       if c = CHR ''n'' then h_matching_connection else if c = CHR ''t'' then h_matching_content_length else h_general\<rparr>)
   | h_matching_connection \<Rightarrow> Some (p, matching ''connection'' h_connection h_general c h)
   | h_matching_proxy_connection \<Rightarrow> Some (p, matching ''proxy-connection'' h_connection h_general c h)
   | h_matching_content_length \<Rightarrow> Some (p, matching ''content-length'' h_content_length h_general c h)
   | h_matching_transfer_encoding \<Rightarrow> Some (p, matching ''transfer-encoding'' h_transfer_encoding h_general c h)
   | h_matching_upgrade \<Rightarrow> Some (p, matching ''upgrade'' h_upgrade h_general c h)
   | h_connection \<Rightarrow> Some (p, if ch \<noteq> CHR '' '' then h\<lparr>hp_hstate := h_general\<rparr> else h)
   | h_content_length \<Rightarrow> Some (p, if ch \<noteq> CHR '' '' then h\<lparr>hp_hstate := h_general\<rparr> else h)
   | h_transfer_encoding \<Rightarrow> Some (p, if ch \<noteq> CHR '' '' then h\<lparr>hp_hstate := h_general\<rparr> else h)
   | h_upgrade \<Rightarrow> Some (p, if ch \<noteq> CHR '' '' then h\<lparr>hp_hstate := h_general\<rparr> else h)
   | _ \<Rightarrow> None)"

lemma skip_tokens_ge: "p \<le> skip_tokens data pe p"
proof (induction data pe p rule: skip_tokens.induct)
  case (1 data pe p)
  then show ?case by (subst skip_tokens.simps) (auto intro: order_trans [OF le_add1])
qed

lemma field_char_ge: "field_char data ch c p h = Some (p1, h1) \<Longrightarrow> p \<le> p1"
  using skip_tokens_ge by (auto simp: field_char_def split: header_state.splits)

function field_loop :: "string \<Rightarrow> nat \<Rightarrow> hparser \<Rightarrow> (nat \<times> hparser) option" where
  "field_loop data p h =
     (if p < length data then
        (case STRICT_TOKEN (data ! p) of
           None \<Rightarrow> Some (p, h)
         | Some c \<Rightarrow> (case field_char data (data ! p) c p h of
             None \<Rightarrow> None
           | Some (p1, h1) \<Rightarrow> field_loop data (Suc p1) h1))
      else Some (p, h))"
  by auto
termination
  by (relation "measure (\<lambda>(data, p, h). length data - p)") (auto dest: field_char_ge)
declare field_loop.simps [simp del]

definition st_header_field :: "'u settings \<Rightarrow> string \<Rightarrow> 'u scan \<Rightarrow> 'u flow" where
  "st_header_field st data s =
     (let start = sc_p s in
      case field_loop data start (sc_h s) of
        None \<Rightarrow> Assertion
      | Some (p, h) \<Rightarrow>
          let s1 = s\<lparr>sc_p := p, sc_h := h\<rparr> in
          if p = length data then
            let s2 = s1\<lparr>sc_p := p - 1\<rparr> in COUNT_HEADER_SIZE (sc_p s2 - start) Next s2
          else
            COUNT_HEADER_SIZE (p - start) (\<lambda>s2.
              if data ! p = CHR '':'' then
                data_field st data p (Suc p) Next (UPDATE_STATE s_header_value_discard_ws s2)
              else fail HPE_INVALID_HEADER_TOKEN s2) s1)"

section \<open>Header values\<close>

definition st_header_value_start :: "char \<Rightarrow> 'u scan \<Rightarrow> 'u flow" where
  "st_header_value_start ch s0 =
     (let s = set_index 0 (UPDATE_STATE s_header_value (s0\<lparr>sc_value := MARK (sc_value s0) (sc_p s0)\<rparr>)); c = LOWER ch in
      case hp_hstate (sc_h s) of
        h_upgrade \<Rightarrow> Next (set_hstate h_general (flag_on F_UPGRADE s))
      | h_transfer_encoding \<Rightarrow> Next (set_hstate (if c = CHR ''c'' then h_matching_transfer_encoding_chunked else h_general) s)
      | h_content_length \<Rightarrow>
          if \<not> IS_NUM ch then fail HPE_INVALID_CONTENT_LENGTH s
          else if F_CONTENTLENGTH \<in> hp_flags (sc_h s) then fail HPE_UNEXPECTED_CONTENT_LENGTH s
          else Next (set_hstate h_content_length_num (set_clen (of_nat (digit ch)) (flag_on F_CONTENTLENGTH s)))
      | h_content_length_ws \<Rightarrow> Next s
      | h_connection \<Rightarrow>
          Next (set_hstate
            (if c = CHR ''k'' then h_matching_connection_keep_alive
             else if c = CHR ''c'' then h_matching_connection_close
             else if c = CHR ''u'' then h_matching_connection_upgrade
             else h_matching_connection_token) s)
      | h_matching_connection_token_start \<Rightarrow> Next s
      | _ \<Rightarrow> Next (set_hstate h_general s))"

definition st_header_value_discard_ws :: "char \<Rightarrow> 'u scan \<Rightarrow> 'u flow" where
  "st_header_value_discard_ws ch s =
     (if ch = CHR '' '' \<or> ch = TAB then Next s
      else if ch = CR then Next (UPDATE_STATE s_header_value_discard_ws_almost_done s)
      else if ch = LF then Next (UPDATE_STATE s_header_value_discard_lws s)
      else st_header_value_start ch s)"

text \<open>The inner loop of a value that means nothing to the parser: the position before the line end, or the offending one.\<close>

function skip_value :: "bool \<Rightarrow> string \<Rightarrow> nat \<Rightarrow> nat \<Rightarrow> nat + nat" where
  "skip_value lenient data pe p =
     (if p < pe then
        (let ch = data ! p in
         if is_eol ch then Inr (p - 1)
         else if \<not> lenient \<and> \<not> IS_HEADER_CHAR ch then Inl p
         else skip_value lenient data pe (Suc p))
      else Inr p)"
  by auto
termination by (relation "measure (\<lambda>(_, _, pe, p). pe - p)") auto
declare skip_value.simps [simp del]

definition content_length_digit :: "char \<Rightarrow> hparser \<Rightarrow> http_errno + hparser" where
  "content_length_digit ch h =
     (if ch = CHR '' '' then Inr (h\<lparr>hp_hstate := h_content_length_ws\<rparr>)
      else if \<not> IS_NUM ch then Inl HPE_INVALID_CONTENT_LENGTH
      else if (ULLONG_MAX - 10) div 10 < hp_clen h then Inl HPE_INVALID_CONTENT_LENGTH
      else Inr (h\<lparr>hp_clen := hp_clen h * 10 + of_nat (digit ch)\<rparr>))"

definition connection_flag :: "hparser \<Rightarrow> hparser" where
  "connection_flag h = (case hp_hstate h of
     h_connection_keep_alive \<Rightarrow> h\<lparr>hp_flags := insert F_CONNECTION_KEEP_ALIVE (hp_flags h)\<rparr>
   | h_connection_close \<Rightarrow> h\<lparr>hp_flags := insert F_CONNECTION_CLOSE (hp_flags h)\<rparr>
   | h_connection_upgrade \<Rightarrow> h\<lparr>hp_flags := insert F_CONNECTION_UPGRADE (hp_flags h)\<rparr>
   | _ \<Rightarrow> h)"

definition connection_token_end :: "char \<Rightarrow> hparser \<Rightarrow> hparser" where
  "connection_token_end ch h =
     (if ch = CHR '','' then (connection_flag h)\<lparr>hp_hstate := h_matching_connection_token_start, hp_index := 0\<rparr>
      else if ch \<noteq> CHR '' '' then h\<lparr>hp_hstate := h_matching_connection_token\<rparr> else h)"

text \<open>
  One pass of the loop over a header value, with the local \<^verbatim>\<open>h_state\<close> in its field: the new position and parser, an
  error at a position, or a failed assertion.
\<close>

datatype value_step = V_go nat hparser | V_error http_errno nat | V_assert

definition value_char :: "string \<Rightarrow> char \<Rightarrow> nat \<Rightarrow> hparser \<Rightarrow> value_step" where
  "value_char data ch p h =
     (let c = LOWER ch; len = length data in case hp_hstate h of
        h_general \<Rightarrow>
          (case skip_value (hp_lenient h) data (p + min (len - p) max_header_size) p of
             Inl q \<Rightarrow> V_error HPE_INVALID_HEADER_TOKEN q
           | Inr q \<Rightarrow> V_go (if q = len then q - 1 else q) h)
      | h_connection \<Rightarrow> V_assert
      | h_transfer_encoding \<Rightarrow> V_assert
      | h_content_length \<Rightarrow>
          if ch = CHR '' '' then V_go p h
          else (case content_length_digit ch (h\<lparr>hp_hstate := h_content_length_num\<rparr>) of Inl e \<Rightarrow> V_error e p | Inr h1 \<Rightarrow> V_go p h1)
      | h_content_length_num \<Rightarrow> (case content_length_digit ch h of Inl e \<Rightarrow> V_error e p | Inr h1 \<Rightarrow> V_go p h1)
      | h_content_length_ws \<Rightarrow> if ch = CHR '' '' then V_go p h else V_error HPE_INVALID_CONTENT_LENGTH p
      | h_matching_transfer_encoding_chunked \<Rightarrow> V_go p (matching ''chunked'' h_transfer_encoding_chunked h_general c h)
      | h_matching_connection_token_start \<Rightarrow>
          if c = CHR ''k'' then V_go p (h\<lparr>hp_hstate := h_matching_connection_keep_alive\<rparr>)
          else if c = CHR ''c'' then V_go p (h\<lparr>hp_hstate := h_matching_connection_close\<rparr>)
          else if c = CHR ''u'' then V_go p (h\<lparr>hp_hstate := h_matching_connection_upgrade\<rparr>)
          else if STRICT_TOKEN c \<noteq> None then V_go p (h\<lparr>hp_hstate := h_matching_connection_token\<rparr>)
          else if c = CHR '' '' \<or> c = TAB then V_go p h
          else V_go p (h\<lparr>hp_hstate := h_general\<rparr>)
      | h_matching_connection_keep_alive \<Rightarrow> V_go p (matching ''keep-alive'' h_connection_keep_alive h_matching_connection_token c h)
      | h_matching_connection_close \<Rightarrow> V_go p (matching ''close'' h_connection_close h_matching_connection_token c h)
      | h_matching_connection_upgrade \<Rightarrow> V_go p (matching ''upgrade'' h_connection_upgrade h_matching_connection_token c h)
      | h_matching_connection_token \<Rightarrow>
          V_go p (if ch = CHR '','' then h\<lparr>hp_hstate := h_matching_connection_token_start, hp_index := 0\<rparr> else h)
      | h_transfer_encoding_chunked \<Rightarrow> V_go p (if ch \<noteq> CHR '' '' then h\<lparr>hp_hstate := h_general\<rparr> else h)
      | h_connection_keep_alive \<Rightarrow> V_go p (connection_token_end ch h)
      | h_connection_close \<Rightarrow> V_go p (connection_token_end ch h)
      | h_connection_upgrade \<Rightarrow> V_go p (connection_token_end ch h)
      | _ \<Rightarrow> V_go p (h\<lparr>hp_state := s_header_value, hp_hstate := h_general\<rparr>))"

lemma skip_value_bounds:
  "p \<le> q \<Longrightarrow> p < length data \<Longrightarrow> \<not> is_eol (data ! p) \<Longrightarrow> skip_value l data pe q = Inr r \<Longrightarrow> pe \<le> length data \<Longrightarrow> p < pe \<Longrightarrow>
    q \<le> pe \<Longrightarrow> p \<le> r \<and> r \<le> pe"
proof (induction l data pe q rule: skip_value.induct)
  case (1 l data pe q)
  show ?case
  proof (cases "q < pe")
    case False
    then show ?thesis using 1 by (subst (asm) (2) skip_value.simps) auto
  next
    case True
    show ?thesis
    proof (cases "is_eol (data ! q)")
      case eol: True
      then have "p \<noteq> q" using "1.prems"(3) by auto
      then show ?thesis using 1 True eol by (subst (asm) (2) skip_value.simps) auto
    next
      case False
      with True "1.prems" have s: "skip_value l data pe (Suc q) = Inr r" and ok: "\<not> (\<not> l \<and> \<not> IS_HEADER_CHAR (data ! q))"
        by (subst (asm) skip_value.simps, auto simp: Let_def split: if_splits)+
      show ?thesis by (rule "1.IH" [OF True refl False ok _ "1.prems"(2,3) s "1.prems"(5,6)]) (use True "1.prems"(1) in simp_all)
    qed
  qed
qed

lemma value_char_ge:
  assumes "p < length data" and "\<not> is_eol (data ! p)" and "value_char data (data ! p) p h = V_go q h1"
  shows "p \<le> q"
proof (cases "hp_hstate h = h_general")
  case True
  then obtain r where r: "skip_value (hp_lenient h) data (p + min (length data - p) max_header_size) p = Inr r"
    and q: "q = (if r = length data then r - 1 else r)"
    using assms(3) by (auto simp: value_char_def Let_def split: sum.splits)
  have "p \<le> r" using skip_value_bounds [OF order_refl assms(1,2) r] assms(1) by (simp add: max_header_size_def)
  then show ?thesis using q assms(1) by auto
next
  case False
  then show ?thesis using assms(3)
    by (cases "hp_hstate h") (auto simp: value_char_def Let_def split: if_splits sum.splits)
qed

definition value_end :: "string \<Rightarrow> nat \<Rightarrow> 'u scan \<Rightarrow> 'u flow" where
  "value_end data start s =
     (let s1 = (if sc_p s = length data then s\<lparr>sc_p := sc_p s - 1\<rparr> else s)
      in COUNT_HEADER_SIZE (sc_p s1 - start) Next s1)"

function value_loop :: "'u settings \<Rightarrow> string \<Rightarrow> nat \<Rightarrow> 'u scan \<Rightarrow> 'u flow" where
  "value_loop st data start s =
     (let p = sc_p s in
      if p < length data then
        (let ch = data ! p in
         if ch = CR then data_value st data p (Suc p) (value_end data start) (UPDATE_STATE s_header_almost_done s)
         else if ch = LF then
           COUNT_HEADER_SIZE (p - start) (data_value st data p p Redo) (UPDATE_STATE s_header_almost_done s)
         else if \<not> hp_lenient (sc_h s) \<and> \<not> IS_HEADER_CHAR ch then fail HPE_INVALID_HEADER_TOKEN s
         else case value_char data ch p (sc_h s) of
           V_assert \<Rightarrow> Assertion
         | V_error e q \<Rightarrow> fail e (s\<lparr>sc_p := q\<rparr>)
         | V_go q h \<Rightarrow> value_loop st data start (s\<lparr>sc_p := Suc q, sc_h := h\<rparr>))
      else value_end data start s)"
  by auto
termination
proof (relation "measure (\<lambda>(st, data, start, s). length data - sc_p s)", goal_cases)
  case (2 st data start s p ch q h)
  then have "p < length data" "\<not> is_eol (data ! p)" "value_char data (data ! p) p (sc_h s) = V_go q h"
    by (auto simp: is_eol_def)
  from value_char_ge [OF this] show ?case using 2 by auto
qed auto
declare value_loop.simps [simp del]

section \<open>The ends of lines and headers\<close>

definition finish_header :: "hparser \<Rightarrow> hparser" where
  "finish_header h = (if hp_hstate h = h_transfer_encoding_chunked then h\<lparr>hp_flags := insert F_CHUNKED (hp_flags h)\<rparr> else connection_flag h)"

definition st_header_value_lws :: "char \<Rightarrow> 'u scan \<Rightarrow> 'u flow" where
  "st_header_value_lws ch s =
     (if ch = CHR '' '' \<or> ch = TAB then
        Redo (UPDATE_STATE s_header_value_start
          (if hp_hstate (sc_h s) = h_content_length_num then set_hstate h_content_length_ws s else s))
      else Redo (UPDATE_STATE s_header_field_start (upd_h finish_header s)))"

definition st_header_value_discard_lws :: "'u settings \<Rightarrow> string \<Rightarrow> char \<Rightarrow> 'u scan \<Rightarrow> 'u flow" where
  "st_header_value_discard_lws st data ch s =
     (if ch = CHR '' '' \<or> ch = TAB then Next (UPDATE_STATE s_header_value_discard_ws s)
      else if hp_hstate (sc_h s) = h_content_length then fail HPE_INVALID_CONTENT_LENGTH s
      else
        let s1 = upd_h finish_header s; s2 = UPDATE_STATE s_header_field_start (s1\<lparr>sc_value := MARK (sc_value s1) (sc_p s1)\<rparr>)
        in data_value st data (sc_p s) (sc_p s) Redo s2)"

definition upgrade_of :: "hparser \<Rightarrow> bool" where
  "upgrade_of h = (if F_UPGRADE \<in> hp_flags h \<and> F_CONNECTION_UPGRADE \<in> hp_flags h
     then hp_type h = HTTP_REQUEST \<or> hp_status h = 101 else hp_method h = CONNECT)"

definition st_headers_almost_done :: "'u settings \<Rightarrow> char \<Rightarrow> 'u scan \<Rightarrow> 'u flow" where
  "st_headers_almost_done st ch s =
     (if ch \<noteq> LF then fail HPE_STRICT s
      else if F_TRAILING \<in> hp_flags (sc_h s) then
        CALLBACK_NOTIFY (on_chunk_complete st) HPE_CB_chunk_complete (sc_p s) Redo (UPDATE_STATE s_message_done s)
      else if F_CHUNKED \<in> hp_flags (sc_h s) \<and> F_CONTENTLENGTH \<in> hp_flags (sc_h s) then fail HPE_UNEXPECTED_CONTENT_LENGTH s
      else
        let s1 = upd_h (\<lambda>h. h\<lparr>hp_upgrade := upgrade_of h\<rparr>) (UPDATE_STATE s_headers_done s) in
        case on_headers_complete st (sc_h s1) (sc_u s1) of (r, u) \<Rightarrow>
          let s2 = s1\<lparr>sc_u := u\<rparr> in
          if r = 0 then Redo s2
          else if r = 1 then Redo (flag_on F_SKIPBODY s2)
          else if r = 2 then Redo (flag_on F_SKIPBODY (upd_h (\<lambda>h. h\<lparr>hp_upgrade := True\<rparr>) s2))
          else fail HPE_CB_headers_complete s2)"

definition message_complete :: "'u settings \<Rightarrow> ('u scan \<Rightarrow> 'u flow) \<Rightarrow> 'u scan \<Rightarrow> 'u flow" where
  "message_complete st k s =
     CALLBACK_NOTIFY (on_message_complete st) HPE_CB_message_complete (Suc (sc_p s)) k (new_message s)"

definition st_headers_done :: "'u settings \<Rightarrow> char \<Rightarrow> 'u scan \<Rightarrow> 'u flow" where
  "st_headers_done st ch s0 =
     (if ch \<noteq> LF then fail HPE_STRICT s0
      else
        let s = upd_h (\<lambda>h. h\<lparr>hp_nread := 0\<rparr>) s0; h = sc_h s;
            hasBody = (F_CHUNKED \<in> hp_flags h \<or> hp_clen h > 0 \<and> hp_clen h \<noteq> ULLONG_MAX)
        in if hp_upgrade h \<and> (hp_method h = CONNECT \<or> F_SKIPBODY \<in> hp_flags h \<or> \<not> hasBody)
           then message_complete st (\<lambda>s1. Done (Suc (sc_p s)) s1) s
           else if F_SKIPBODY \<in> hp_flags h then message_complete st Next s
           else if F_CHUNKED \<in> hp_flags h then Next (UPDATE_STATE s_chunk_size_start s)
           else if hp_clen h = 0 then message_complete st Next s
           else if hp_clen h \<noteq> ULLONG_MAX then Next (UPDATE_STATE s_body_identity s)
           else if \<not> http_message_needs_eof h then message_complete st Next s
           else Next (UPDATE_STATE s_body_identity_eof s))"

section \<open>Bodies\<close>

definition to_read :: "string \<Rightarrow> 'u scan \<Rightarrow> nat" where
  "to_read data s = min (unat (hp_clen (sc_h s))) (length data - sc_p s)"

definition take_body :: "string \<Rightarrow> 'u scan \<Rightarrow> 'u scan" where
  "take_body data s =
     (let n = to_read data s in
      set_clen (hp_clen (sc_h s) - of_nat n) (s\<lparr>sc_body := MARK (sc_body s) (sc_p s), sc_p := sc_p s + (n - 1)\<rparr>))"

definition st_body_identity :: "'u settings \<Rightarrow> string \<Rightarrow> 'u scan \<Rightarrow> 'u flow" where
  "st_body_identity st data s =
     (if hp_clen (sc_h s) = 0 \<or> hp_clen (sc_h s) = ULLONG_MAX then Assertion
      else
        let s1 = take_body data s in
        if hp_clen (sc_h s1) = 0
        then data_body st data (Suc (sc_p s1)) (sc_p s1) Redo (UPDATE_STATE s_message_done s1)
        else Next s1)"

definition st_message_done :: "'u settings \<Rightarrow> 'u scan \<Rightarrow> 'u flow" where
  "st_message_done st s =
     message_complete st (\<lambda>s1. if hp_upgrade (sc_h s1) then Done (Suc (sc_p s1)) s1 else Next s1) s"

definition st_chunk_size_start :: "char \<Rightarrow> 'u scan \<Rightarrow> 'u flow" where
  "st_chunk_size_start ch s =
     (if hp_nread (sc_h s) \<noteq> 1 \<or> F_CHUNKED \<notin> hp_flags (sc_h s) then Assertion
      else if unhex ch = - 1 then fail HPE_INVALID_CHUNK_SIZE s
      else Next (UPDATE_STATE s_chunk_size (set_clen (word_of_int (unhex ch)) s)))"

definition st_chunk_size :: "char \<Rightarrow> 'u scan \<Rightarrow> 'u flow" where
  "st_chunk_size ch s =
     (if F_CHUNKED \<notin> hp_flags (sc_h s) then Assertion
      else if ch = CR then Next (UPDATE_STATE s_chunk_size_almost_done s)
      else if unhex ch = - 1 then
        (if ch = CHR '';'' \<or> ch = CHR '' '' then Next (UPDATE_STATE s_chunk_parameters s) else fail HPE_INVALID_CHUNK_SIZE s)
      else if (ULLONG_MAX - 16) div 16 < hp_clen (sc_h s) then fail HPE_INVALID_CONTENT_LENGTH s
      else Next (set_clen (hp_clen (sc_h s) * 16 + word_of_int (unhex ch)) s))"

definition st_chunk_parameters :: "char \<Rightarrow> 'u scan \<Rightarrow> 'u flow" where
  "st_chunk_parameters ch s =
     (if F_CHUNKED \<notin> hp_flags (sc_h s) then Assertion
      else if ch = CR then Next (UPDATE_STATE s_chunk_size_almost_done s) else Next s)"

definition st_chunk_size_almost_done :: "'u settings \<Rightarrow> char \<Rightarrow> 'u scan \<Rightarrow> 'u flow" where
  "st_chunk_size_almost_done st ch s =
     (if F_CHUNKED \<notin> hp_flags (sc_h s) then Assertion
      else if ch \<noteq> LF then fail HPE_STRICT s
      else
        let s1 = upd_h (\<lambda>h. h\<lparr>hp_nread := 0\<rparr>) s;
            s2 = (if hp_clen (sc_h s1) = 0 then UPDATE_STATE s_header_field_start (flag_on F_TRAILING s1) else UPDATE_STATE s_chunk_data s1)
        in CALLBACK_NOTIFY (on_chunk_header st) HPE_CB_chunk_header (Suc (sc_p s)) Next s2)"

definition st_chunk_data :: "string \<Rightarrow> 'u scan \<Rightarrow> 'u flow" where
  "st_chunk_data data s =
     (if F_CHUNKED \<notin> hp_flags (sc_h s) \<or> hp_clen (sc_h s) = 0 \<or> hp_clen (sc_h s) = ULLONG_MAX then Assertion
      else
        let s1 = take_body data s in
        if hp_clen (sc_h s1) = 0 then Next (UPDATE_STATE s_chunk_data_almost_done s1) else Next s1)"

definition st_chunk_data_almost_done :: "'u settings \<Rightarrow> string \<Rightarrow> char \<Rightarrow> 'u scan \<Rightarrow> 'u flow" where
  "st_chunk_data_almost_done st data ch s =
     (if F_CHUNKED \<notin> hp_flags (sc_h s) \<or> hp_clen (sc_h s) \<noteq> 0 then Assertion
      else if ch \<noteq> CR then fail HPE_STRICT s
      else data_body st data (sc_p s) (Suc (sc_p s)) Next (UPDATE_STATE s_chunk_data_done s))"

definition st_chunk_data_done :: "'u settings \<Rightarrow> char \<Rightarrow> 'u scan \<Rightarrow> 'u flow" where
  "st_chunk_data_done st ch s =
     (if F_CHUNKED \<notin> hp_flags (sc_h s) then Assertion
      else if ch \<noteq> LF then fail HPE_STRICT s
      else CALLBACK_NOTIFY (on_chunk_complete st) HPE_CB_chunk_complete (Suc (sc_p s)) Next
        (UPDATE_STATE s_chunk_size_start (upd_h (\<lambda>h. h\<lparr>hp_nread := 0\<rparr>) s)))"

section \<open>The machine\<close>

definition exec_state :: "'u settings \<Rightarrow> string \<Rightarrow> 'u scan \<Rightarrow> 'u flow" where
  "exec_state st data s =
     (let ch = data ! sc_p s in case hp_state (sc_h s) of
        s_dead \<Rightarrow> if is_eol ch then Next s else fail HPE_CLOSED_CONNECTION s
      | s_header_field_start \<Rightarrow> st_header_field_start ch s
      | s_header_field \<Rightarrow> st_header_field st data s
      | s_header_value_discard_ws \<Rightarrow> st_header_value_discard_ws ch s
      | s_header_value_start \<Rightarrow> st_header_value_start ch s
      | s_header_value \<Rightarrow> value_loop st data (sc_p s) s
      | s_header_almost_done \<Rightarrow> if ch \<noteq> LF then fail HPE_LF_EXPECTED s else Next (UPDATE_STATE s_header_value_lws s)
      | s_header_value_lws \<Rightarrow> st_header_value_lws ch s
      | s_header_value_discard_ws_almost_done \<Rightarrow> expect LF s_header_value_discard_lws ch s
      | s_header_value_discard_lws \<Rightarrow> st_header_value_discard_lws st data ch s
      | s_headers_almost_done \<Rightarrow> st_headers_almost_done st ch s
      | s_headers_done \<Rightarrow> st_headers_done st ch s
      | s_body_identity \<Rightarrow> st_body_identity st data s
      | s_body_identity_eof \<Rightarrow> Next (s\<lparr>sc_body := MARK (sc_body s) (sc_p s), sc_p := length data - 1\<rparr>)
      | s_message_done \<Rightarrow> st_message_done st s
      | s_chunk_size_start \<Rightarrow> st_chunk_size_start ch s
      | s_chunk_size \<Rightarrow> st_chunk_size ch s
      | s_chunk_parameters \<Rightarrow> st_chunk_parameters ch s
      | s_chunk_size_almost_done \<Rightarrow> st_chunk_size_almost_done st ch s
      | s_chunk_data \<Rightarrow> st_chunk_data data s
      | s_chunk_data_almost_done \<Rightarrow> st_chunk_data_almost_done st data ch s
      | s_chunk_data_done \<Rightarrow> st_chunk_data_done st ch s
      | v \<Rightarrow> if v \<in> {s_start_req_or_res, s_res_or_resp_H, s_start_res, s_res_H, s_res_HT, s_res_HTT, s_res_HTTP, s_res_http_major,
                   s_res_http_dot, s_res_http_minor, s_res_http_end, s_res_first_status_code, s_res_status_code,
                   s_res_status_start, s_res_status, s_res_line_almost_done}
             then st_response st data ch s else st_request st data ch s)"

section \<open>Reasoning about the control flow\<close>

text \<open>What holds after a piece of code, by the way it ends.\<close>

definition flow_all :: "('u scan \<Rightarrow> bool) \<Rightarrow> ('u scan \<Rightarrow> bool) \<Rightarrow> (nat \<Rightarrow> 'u scan \<Rightarrow> bool) \<Rightarrow> bool \<Rightarrow> 'u flow \<Rightarrow> bool" where
  "flow_all N R D A f = (case f of Next s \<Rightarrow> N s | Redo s \<Rightarrow> R s | Done n s \<Rightarrow> D n s | Assertion \<Rightarrow> A)"

named_theorems flow_simps "weakest preconditions of the pieces of code"

lemma flow_all_simps [flow_simps]:
  "flow_all N R D A (Next s) = N s" "flow_all N R D A (Redo s) = R s" "flow_all N R D A (Done n s) = D n s"
  "flow_all N R D A Assertion = A" "flow_all N R D A (fail e s) = D (sc_p s) (SET_ERRNO e s)"
  by (simp_all add: flow_all_def fail_def)

lemma flow_all_if [flow_simps]: "flow_all N R D A (if b then f else g) = ((b \<longrightarrow> flow_all N R D A f) \<and> (\<not> b \<longrightarrow> flow_all N R D A g))"
  by simp

lemma flow_notify:
  assumes "hp_errno (sc_h s) = HPE_OK \<or> A" and "\<And>u. D er (SET_ERRNO e (s\<lparr>sc_u := u\<rparr>))" and "\<And>u. flow_all N R D A (k (s\<lparr>sc_u := u\<rparr>))"
  shows "flow_all N R D A (CALLBACK_NOTIFY cb e er k s)"
  using assms by (auto simp: CALLBACK_NOTIFY_def flow_all_simps Let_def split: prod.splits)

lemma flow_data:
  assumes "hp_errno (sc_h s) = HPE_OK \<or> A" and "\<And>u. D er (SET_ERRNO e (s\<lparr>sc_u := u\<rparr>))"
    and "get s = None \<Longrightarrow> flow_all N R D A (k s)" and "\<And>u. get s \<noteq> None \<Longrightarrow> flow_all N R D A (k (clear (s\<lparr>sc_u := u\<rparr>)))"
  shows "flow_all N R D A (CALLBACK_DATA cb e get clear data stop_at er k s)"
  using assms by (auto simp: CALLBACK_DATA_def flow_all_simps Let_def split: prod.splits option.splits)

lemma flow_count:
  assumes "\<And>n. D (sc_p s) (SET_ERRNO HPE_HEADER_OVERFLOW (upd_h (\<lambda>h. h\<lparr>hp_nread := n\<rparr>) s))"
    and "flow_all N R D A (k (upd_h (\<lambda>h. h\<lparr>hp_nread := hp_nread h + of_nat v\<rparr>) s))"
  shows "flow_all N R D A (COUNT_HEADER_SIZE v k s)"
  using assms by (auto simp: COUNT_HEADER_SIZE_def flow_all_simps Let_def)

lemmas setter_defs = UPDATE_STATE_def SET_ERRNO_def flag_on_def set_hstate_def set_index_def set_clen_def start_message_def new_message_def

section \<open>The same character again\<close>

fun redo_rank :: "pstate \<Rightarrow> nat" where
  "redo_rank s_start_req_or_res = 1"
| "redo_rank s_res_status_code = 2"
| "redo_rank s_res_status_start = 1"
| "redo_rank s_header_field_start = 2"
| "redo_rank s_headers_almost_done = 1"
| "redo_rank s_header_value = 1"
| "redo_rank s_header_value_lws = 3"
| "redo_rank s_header_value_discard_lws = 3"
| "redo_rank s_body_identity = 1"
| "redo_rank _ = 0"

abbreviation below :: "nat \<Rightarrow> 'u flow \<Rightarrow> bool" where
  "below n \<equiv> flow_all (\<lambda>_. True) (\<lambda>s1. redo_rank (hp_state (sc_h s1)) < n) (\<lambda>_ _. True) True"

lemma below_value_loop: "0 < n \<Longrightarrow> below n (value_loop st data start s)"
proof (induction st data start s rule: value_loop.induct)
  case (1 st data start s)
  have e: "below n (value_end data start s')" for s'
    unfolding value_end_def Let_def by (intro flow_count) (simp_all add: flow_simps)
  show ?case
    using 1 by (subst value_loop.simps)
      (auto simp: Let_def flow_simps data_value_def setter_defs intro!: flow_data flow_count e split: value_step.splits)
qed

lemma below_exec: "below (redo_rank (hp_state (sc_h s))) (exec_state st data s)"
proof (cases "hp_state (sc_h s) = s_header_value")
  case True
  then show ?thesis using below_value_loop [of 1] by (simp add: exec_state_def Let_def)
next
  case False
  have n: "flow_all (\<lambda>_. True) R (\<lambda>_ _. True) True (message_complete st k s')" if "\<And>s1. flow_all (\<lambda>_. True) R (\<lambda>_ _. True) True (k s1)" for R k s'
    unfolding message_complete_def by (intro flow_notify) (simp_all add: that)
  have f: "flow_all (\<lambda>_. True) R (\<lambda>_ _. True) True (st_header_field st data s)" for R
    unfolding st_header_field_def Let_def data_field_def
    by (auto simp: flow_simps intro!: flow_count flow_data split: option.splits)
  have v: "flow_all (\<lambda>_. True) R (\<lambda>_ _. True) True (st_header_value_start ch s)" for R ch
    by (auto simp: st_header_value_start_def Let_def flow_simps split: header_state.splits)
  have u: "flow_all (\<lambda>_. True) R (\<lambda>_ _. True) True (st_url st data ch s)" "flow_all (\<lambda>_. True) R (\<lambda>_ _. True) True (url_step ch s')"
      "flow_all (\<lambda>_. True) R (\<lambda>_ _. True) True (st_method ch s)" "flow_all (\<lambda>_. True) R (\<lambda>_ _. True) True (expect c' v' ch s)" for R ch s' c' v'
    by (auto simp: st_url_def url_step_def st_method_def expect_def Let_def flow_simps data_url_def intro!: flow_data split: option.splits)
  show ?thesis
    using False
    by (cases "hp_state (sc_h s)")
      (auto simp: exec_state_def Let_def flow_simps st_response_def st_request_def setter_defs f v u
         st_header_field_start_def st_header_value_discard_ws_def st_header_value_lws_def st_header_value_discard_lws_def
         st_headers_almost_done_def st_headers_done_def st_body_identity_def st_message_done_def st_chunk_size_start_def
         st_chunk_size_def st_chunk_parameters_def st_chunk_size_almost_done_def st_chunk_data_def st_chunk_data_almost_done_def
         st_chunk_data_done_def data_status_def data_value_def data_body_def
       intro!: flow_notify flow_data n split: option.splits prod.splits)
qed

function reexecute :: "'u settings \<Rightarrow> string \<Rightarrow> 'u scan \<Rightarrow> 'u flow" where
  "reexecute st data s = (case exec_state st data s of
     Next s1 \<Rightarrow> Next s1 | Redo s1 \<Rightarrow> reexecute st data s1 | Done n s1 \<Rightarrow> Done n s1 | Assertion \<Rightarrow> Assertion)"
  by auto
termination
proof (relation "measure (\<lambda>(st, data, s). redo_rank (hp_state (sc_h s)))", goal_cases)
  case (2 st data s s1)
  then show ?case using below_exec [of s st data] by (simp add: flow_simps)
qed simp
declare reexecute.simps [simp del]

text \<open>One pass of the loop over the data.\<close>

definition loop_pass :: "'u settings \<Rightarrow> string \<Rightarrow> 'u scan \<Rightarrow> 'u flow" where
  "loop_pass st data s =
     (if PARSING_HEADER (hp_state (sc_h s)) then COUNT_HEADER_SIZE 1 (reexecute st data) s else reexecute st data s)"

section \<open>Positions\<close>

abbreviation onward :: "string \<Rightarrow> nat \<Rightarrow> 'u flow \<Rightarrow> bool" where
  "onward data p \<equiv> flow_all (\<lambda>s1. p \<le> sc_p s1 \<and> sc_p s1 < length data) (\<lambda>s1. p \<le> sc_p s1 \<and> sc_p s1 < length data)
     (\<lambda>n s1. n \<le> length data) True"

lemma skip_tokens_less: "p < pe \<Longrightarrow> skip_tokens data pe p < pe"
proof (induction data pe p rule: skip_tokens.induct)
  case (1 data pe p)
  then show ?case by (subst skip_tokens.simps) auto
qed

lemma field_char_less: "field_char data ch c p h = Some (p1, h1) \<Longrightarrow> p < length data \<Longrightarrow> p1 < length data"
  using skip_tokens_less [of p "p + min (length data - p) max_header_size" data]
  by (auto simp: field_char_def max_header_size_def split: header_state.splits)

lemma field_loop_ge: "field_loop data p h = Some (q, h1) \<Longrightarrow> p \<le> length data \<Longrightarrow> p \<le> q \<and> q \<le> length data"
proof (induction data p h rule: field_loop.induct)
  case (1 data p h)
  show ?case
  proof (cases "p < length data \<and> STRICT_TOKEN (data ! p) \<noteq> None")
    case True
    then obtain c p1 h2 where c: "STRICT_TOKEN (data ! p) = Some c" "field_char data (data ! p) c p h = Some (p1, h2)"
      and l: "field_loop data (Suc p1) h2 = Some (q, h1)"
      using 1(2) by (subst (asm) field_loop.simps) (auto split: option.splits)
    then have "Suc p1 \<le> length data" using field_char_less True by (metis Suc_leI)
    then show ?thesis using 1(1) True c l field_char_ge [OF c(2)] by fastforce
  qed (use 1 in \<open>subst (asm) (2) field_loop.simps, auto split: option.splits\<close>)
qed

lemma skip_value_error: "skip_value l data pe q = Inl r \<Longrightarrow> r < pe"
proof (induction l data pe q rule: skip_value.induct)
  case (1 l data pe q)
  then show ?case by (subst (asm) (2) skip_value.simps) (auto simp: Let_def split: if_splits)
qed

lemma value_char_less:
  assumes "p < length data" and "\<not> is_eol (data ! p)"
  shows "value_char data (data ! p) p h = V_go q h1 \<Longrightarrow> q < length data"
    and "value_char data (data ! p) p h = V_error e q \<Longrightarrow> q < length data"
proof -
  have pe: "p + min (length data - p) max_header_size \<le> length data" using assms(1) by simp
  have b: "r \<le> p + min (length data - p) max_header_size"
    if "skip_value (hp_lenient h) data (p + min (length data - p) max_header_size) p = Inr r" for r
    using skip_value_bounds [OF order_refl assms that pe] assms(1) by (simp add: max_header_size_def)
  have e: "r < length data" if "skip_value (hp_lenient h) data (p + min (length data - p) max_header_size) p = Inl r" for r
    using skip_value_error [OF that] pe by simp
  have g: "value_char data (data ! p) p h = (case skip_value (hp_lenient h) data (p + min (length data - p) max_header_size) p of
      Inl q \<Rightarrow> V_error HPE_INVALID_HEADER_TOKEN q | Inr q \<Rightarrow> V_go (if q = length data then q - 1 else q) h)" if "hp_hstate h = h_general"
    using that by (simp add: value_char_def Let_def)
  have o: "value_char data (data ! p) p h = V_go q h1 \<Longrightarrow> q = p" "value_char data (data ! p) p h = V_error e q \<Longrightarrow> q = p"
    if "hp_hstate h \<noteq> h_general"
    using that by (auto simp: value_char_def Let_def split: header_state.splits if_splits sum.splits)
  show "q < length data" if v: "value_char data (data ! p) p h = V_go q h1"
  proof (cases "hp_hstate h = h_general")
    case True
    then obtain r where r: "skip_value (hp_lenient h) data (p + min (length data - p) max_header_size) p = Inr r"
      and q: "q = (if r = length data then r - 1 else r)" using v g by (auto split: sum.splits)
    then show ?thesis using b [OF r] pe assms(1) by auto
  qed (use o v assms(1) in simp)
  show "q < length data" if v: "value_char data (data ! p) p h = V_error e q"
  proof (cases "hp_hstate h = h_general")
    case True
    then show ?thesis using v g e by (auto split: sum.splits)
  qed (use o v assms(1) in simp)
qed

lemma onward_value_loop:
  "start \<le> sc_p s \<Longrightarrow> start < length data \<Longrightarrow> sc_p s \<le> length data \<Longrightarrow> onward data start (value_loop st data start s)"
proof (induction st data start s rule: value_loop.induct)
  case (1 st data start s)
  have e: "onward data start (value_end data start s')" if "start \<le> sc_p s'" "sc_p s' \<le> length data" for s'
    using that 1(3) unfolding value_end_def Let_def by (intro flow_count) (auto simp: flow_simps setter_defs)
  show ?case
  proof (cases "sc_p s < length data \<and> \<not> is_eol (data ! sc_p s) \<and> (hp_lenient (sc_h s) \<or> IS_HEADER_CHAR (data ! sc_p s))")
    case True
    then have p: "sc_p s < length data" "\<not> is_eol (data ! sc_p s)" by auto
    have step: "value_loop st data start s = (case value_char data (data ! sc_p s) (sc_p s) (sc_h s) of
        V_assert \<Rightarrow> Assertion | V_error e q \<Rightarrow> fail e (s\<lparr>sc_p := q\<rparr>)
      | V_go q h \<Rightarrow> value_loop st data start (s\<lparr>sc_p := Suc q, sc_h := h\<rparr>))"
      using True by (subst value_loop.simps) (auto simp: Let_def is_eol_def)
    show ?thesis
    proof (cases "value_char data (data ! sc_p s) (sc_p s) (sc_h s)")
      case (V_go q h)
      then have "q < length data" "sc_p s \<le> q" using value_char_less [OF p] value_char_ge [OF p] by auto
      then show ?thesis unfolding step V_go using 1 True V_go by (auto simp: is_eol_def)
    next
      case (V_error e q)
      then show ?thesis unfolding step using value_char_less(2) [OF p V_error] by (simp add: flow_simps setter_defs)
    qed (simp add: step flow_simps)
  qed (use 1 in \<open>subst value_loop.simps, auto simp: Let_def is_eol_def flow_simps data_value_def setter_defs intro!: flow_data flow_count e\<close>)
qed

lemma onward_exec: "sc_p s < length data \<Longrightarrow> onward data (sc_p s) (exec_state st data s)"
proof (cases "hp_state (sc_h s) = s_header_value")
  case True
  assume "sc_p s < length data"
  then show ?thesis using onward_value_loop [of "sc_p s" s data st] True by (simp add: exec_state_def Let_def)
next
  case False
  assume p: "sc_p s < length data"
  have n: "onward data (sc_p s) (message_complete st k s')"
    if "\<And>s1. sc_p s1 = sc_p s' \<Longrightarrow> onward data (sc_p s) (k s1)" "sc_p s' < length data" for k s'
    unfolding message_complete_def by (intro flow_notify) (use that in \<open>simp_all add: setter_defs\<close>)
  have f: "onward data (sc_p s) (st_header_field st data s)"
  proof (cases "field_loop data (sc_p s) (sc_h s)")
    case (Some r)
    obtain q h where r: "r = (q, h)" by force
    have "sc_p s \<le> q" "q \<le> length data" using field_loop_ge [OF Some [unfolded r]] p by auto
    then show ?thesis
      unfolding st_header_field_def Let_def data_field_def Some r using p
      by (auto simp: flow_simps setter_defs intro!: flow_count flow_data)
  qed (simp add: st_header_field_def Let_def flow_simps)
  have v: "onward data (sc_p s) (st_header_value_start ch s)" for ch
    using p by (auto simp: st_header_value_start_def Let_def flow_simps setter_defs split: header_state.splits)
  have u: "onward data (sc_p s) (st_url st data ch s)" "sc_p s' = sc_p s \<Longrightarrow> onward data (sc_p s) (url_step ch s')"
      "onward data (sc_p s) (st_method ch s)" "onward data (sc_p s) (expect c' v' ch s)" for ch s' c' v'
    using p by (auto simp: st_url_def url_step_def st_method_def expect_def Let_def flow_simps data_url_def setter_defs
        intro!: flow_data split: option.splits)
  show ?thesis
    using False p
    by (cases "hp_state (sc_h s)")
      (auto simp: exec_state_def Let_def flow_simps st_response_def st_request_def setter_defs f v u take_body_def to_read_def
         st_header_field_start_def st_header_value_discard_ws_def st_header_value_lws_def st_header_value_discard_lws_def
         st_headers_almost_done_def st_headers_done_def st_body_identity_def st_message_done_def st_chunk_size_start_def
         st_chunk_size_def st_chunk_parameters_def st_chunk_size_almost_done_def st_chunk_data_def st_chunk_data_almost_done_def
         st_chunk_data_done_def data_status_def data_value_def data_body_def
       intro!: flow_notify flow_data n split: option.splits prod.splits)
qed

lemma onward_reexecute: "sc_p s < length data \<Longrightarrow> onward data (sc_p s) (reexecute st data s)"
proof (induction st data s rule: reexecute.induct)
  case (1 st data s)
  note e = onward_exec [OF 1(2), of st]
  show ?case
  proof (cases "exec_state st data s")
    case (Redo s1)
    then have "sc_p s \<le> sc_p s1" "sc_p s1 < length data" using e by (simp_all add: flow_simps)
    then show ?thesis using 1(1) [OF Redo] Redo
      by (subst reexecute.simps) (auto simp: flow_all_def split: flow.splits)
  qed (use e in \<open>subst reexecute.simps, simp add: flow_all_def\<close>)+
qed

lemma onward_pass: "sc_p s < length data \<Longrightarrow> onward data (sc_p s) (loop_pass st data s)"
  unfolding loop_pass_def
  using onward_reexecute [of s data st] onward_reexecute [of "upd_h f s" data st for f]
  by (auto intro!: flow_count simp: setter_defs)

section \<open>The whole function\<close>

definition marks :: "'u scan \<Rightarrow> nat" where
  "marks s = length (filter (\<lambda>m. m \<noteq> None) [sc_field s, sc_value s, sc_url s, sc_body s, sc_stat s])"

text \<open>The callbacks for the marks that are left when the data are used up.\<close>

definition finish_scan :: "'u settings \<Rightarrow> string \<Rightarrow> 'u scan \<Rightarrow> 'u flow" where
  "finish_scan st data s =
     (let n = length data in
      if marks s > 1 then Assertion
      else data_field st data n n (data_value st data n n (data_url st data n n (data_body st data n n
             (data_status st data n n (Done n))))) s)"

function scan_loop :: "'u settings \<Rightarrow> string \<Rightarrow> 'u scan \<Rightarrow> 'u flow" where
  "scan_loop st data s =
     (if sc_p s < length data then
        (case loop_pass st data s of
           Next s1 \<Rightarrow> scan_loop st data (s1\<lparr>sc_p := Suc (sc_p s1)\<rparr>)
         | f \<Rightarrow> f)
      else finish_scan st data s)"
  by auto
termination
proof (relation "measure (\<lambda>(st, data, s). length data - sc_p s)", goal_cases)
  case (2 st data s s1)
  then show ?case using onward_pass [of s data st] by (auto simp: flow_simps)
qed simp
declare scan_loop.simps [simp del]

definition initial_scan :: "hparser \<Rightarrow> 'u \<Rightarrow> 'u scan" where
  "initial_scan h u = \<lparr>sc_p = 0, sc_h = h, sc_u = u,
     sc_field = (if hp_state h = s_header_field then Some 0 else None),
     sc_value = (if hp_state h = s_header_value then Some 0 else None),
     sc_url = (if hp_state h \<in> {s_req_path, s_req_schema, s_req_schema_slash, s_req_schema_slash_slash, s_req_server_start,
         s_req_server, s_req_server_with_at, s_req_query_string_start, s_req_query_string, s_req_fragment_start, s_req_fragment}
       then Some 0 else None),
     sc_body = None,
     sc_stat = (if hp_state h = s_res_status then Some 0 else None)\<rparr>"

text \<open>The number of bytes parsed, the parser and the callbacks' data; \<open>None\<close> is a failed assertion.\<close>

definition http_parser_execute :: "'u settings \<Rightarrow> string \<Rightarrow> hparser \<Rightarrow> 'u \<Rightarrow> (nat \<times> hparser \<times> 'u) option" where
  "http_parser_execute st data h u =
     (if hp_errno h \<noteq> HPE_OK then Some (0, h, u)
      else
        let flow = (if data = [] then
              (if hp_state h = s_body_identity_eof then
                 CALLBACK_NOTIFY (on_message_complete st) HPE_CB_message_complete 0 (Done 0) (initial_scan h u)
               else if hp_state h \<in> {s_dead, s_start_req_or_res, s_start_res, s_start_req} then Done 0 (initial_scan h u)
               else Done 1 (SET_ERRNO HPE_INVALID_EOF_STATE (initial_scan h u)))
            else scan_loop st data (initial_scan h u))
        in case flow of Done n s \<Rightarrow> Some (n, sc_h s, sc_u s) | _ \<Rightarrow> None)"

definition http_body_is_final :: "hparser \<Rightarrow> bool" where "http_body_is_final h \<longleftrightarrow> hp_state h = s_message_done"

definition http_parser_pause :: "bool \<Rightarrow> hparser \<Rightarrow> hparser option" where
  "http_parser_pause paused h =
     (if hp_errno h \<in> {HPE_OK, HPE_PAUSED} then Some (h\<lparr>hp_errno := if paused then HPE_PAUSED else HPE_OK\<rparr>) else None)"

end
