(* ===== verification/HttpInvariant.thy ===== *)
theory HttpInvariant
  imports HttpMachine
begin

text \<open>
  The invariant of the machine of \<^theory_text>\<open>HttpMachine\<close>: what the states of the parser say of the flags, of the content
  length, of the count of header bytes and of the header state (\<open>state_inv\<close>), and which marks can be set in which state
  (\<open>marks_inv\<close>). Every state keeps it, so no assertion of the code fails and the function returns on all data.
\<close>

section \<open>The invariant\<close>

definition chunk_states :: "pstate set" where
  "chunk_states = {s_chunk_size_start, s_chunk_size, s_chunk_parameters, s_chunk_size_almost_done, s_chunk_data,
     s_chunk_data_almost_done, s_chunk_data_done}"

definition url_states :: "pstate set" where
  "url_states = {s_req_path, s_req_schema, s_req_schema_slash, s_req_schema_slash_slash, s_req_server_start,
     s_req_server, s_req_server_with_at, s_req_query_string_start, s_req_query_string, s_req_fragment_start, s_req_fragment}"

definition field_hstates :: "header_state set" where
  "field_hstates = {h_general, h_C, h_CO, h_CON, h_matching_connection, h_matching_proxy_connection, h_matching_content_length,
     h_matching_transfer_encoding, h_matching_upgrade, h_connection, h_content_length, h_transfer_encoding, h_upgrade}"

definition state_inv :: "u32 \<Rightarrow> hparser \<Rightarrow> bool" where
  "state_inv n h \<longleftrightarrow>
     (hp_state h \<in> chunk_states \<longrightarrow> F_CHUNKED \<in> hp_flags h)
   \<and> (hp_state h = s_chunk_size_start \<longrightarrow> hp_nread h = n)
   \<and> (hp_state h \<in> {s_body_identity, s_chunk_data} \<longrightarrow> hp_clen h \<noteq> 0 \<and> hp_clen h \<noteq> ULLONG_MAX)
   \<and> (hp_state h = s_chunk_data_almost_done \<longrightarrow> hp_clen h = 0)
   \<and> (hp_state h \<in> {s_chunk_size, s_chunk_parameters, s_chunk_size_almost_done} \<longrightarrow> hp_clen h \<noteq> ULLONG_MAX)
   \<and> (hp_state h = s_header_field \<longrightarrow> hp_hstate h \<in> field_hstates)
   \<and> (hp_state h = s_header_value \<longrightarrow> hp_hstate h \<notin> {h_connection, h_transfer_encoding})"

definition marks_inv :: "'u scan \<Rightarrow> bool" where
  "marks_inv s \<longleftrightarrow> (let v = hp_state (sc_h s) in
     (sc_field s \<noteq> None \<longrightarrow> v = s_header_field) \<and> (sc_value s \<noteq> None \<longrightarrow> v = s_header_value)
   \<and> (sc_url s \<noteq> None \<longrightarrow> v \<in> url_states) \<and> (sc_stat s \<noteq> None \<longrightarrow> v = s_res_status)
   \<and> (sc_body s \<noteq> None \<longrightarrow> v \<in> {s_body_identity, s_body_identity_eof, s_chunk_data, s_chunk_data_almost_done}))"

definition scan_inv :: "u32 \<Rightarrow> 'u scan \<Rightarrow> bool" where
  "scan_inv n s \<longleftrightarrow> hp_errno (sc_h s) = HPE_OK \<and> state_inv n (sc_h s) \<and> marks_inv s"

definition done_inv :: "'u scan \<Rightarrow> bool" where
  "done_inv s \<longleftrightarrow> (hp_errno (sc_h s) = HPE_OK \<longrightarrow> hp_upgrade (sc_h s) \<and> state_inv 0 (sc_h s))"

abbreviation keeps :: "'u flow \<Rightarrow> bool" where
  "keeps \<equiv> flow_all (scan_inv 0) (scan_inv 1) (\<lambda>n s1. done_inv s1) False"

lemmas inv_defs = scan_inv_def state_inv_def marks_inv_def Let_def

lemma start_states: "start_state h \<in> {s_start_req, s_start_res}" by (simp add: start_state_def)

lemma new_message_state: "hp_state (sc_h (new_message s)) \<in> {s_dead, s_start_req, s_start_res}"
  using start_states by (auto simp: new_message_def UPDATE_STATE_def NEW_MESSAGE_def)

lemma done_error: "e \<noteq> HPE_OK \<Longrightarrow> done_inv (SET_ERRNO e s)"
  by (simp add: done_inv_def SET_ERRNO_def)

lemma matching_fields:
  "hp_state (matching w a b c h) = hp_state h" "hp_flags (matching w a b c h) = hp_flags h"
  "hp_errno (matching w a b c h) = hp_errno h" "hp_hstate (matching w a b c h) \<in> {a, b, hp_hstate h}"
  by (simp_all add: matching_def Let_def)

lemma matching_hstate: "a \<in> S \<Longrightarrow> b \<in> S \<Longrightarrow> hp_hstate h \<in> S \<Longrightarrow> hp_hstate (matching w a b c h) \<in> S"
  using matching_fields(4) [of w a b c h] by auto

lemma keeps_field_char:
  assumes "hp_hstate h \<in> field_hstates"
  shows "\<exists>p1 h1. field_char data ch c p h = Some (p1, h1) \<and> hp_hstate h1 \<in> field_hstates
     \<and> hp_state h1 = hp_state h \<and> hp_flags h1 = hp_flags h \<and> hp_errno h1 = hp_errno h"
proof -
  have m: "hp_hstate (matching w a h_general c h) \<in> field_hstates" if "a \<in> {h_connection, h_content_length, h_transfer_encoding, h_upgrade}" for w a
    by (rule matching_hstate) (use that assms in \<open>auto simp: field_hstates_def\<close>)
  have f: "v \<in> field_hstates" if "v \<in> {h_general, h_CO, h_CON, h_matching_connection, h_matching_content_length}" for v
    using that by (auto simp: field_hstates_def)
  show ?thesis
    using assms by (cases "hp_hstate h") (simp_all add: field_char_def matching_fields(1-3) m f, simp_all add: field_hstates_def)
qed

lemma keeps_field_loop:
  "hp_hstate h \<in> field_hstates \<Longrightarrow> \<exists>p1 h1. field_loop data p h = Some (p1, h1) \<and> hp_hstate h1 \<in> field_hstates
     \<and> hp_state h1 = hp_state h \<and> hp_flags h1 = hp_flags h \<and> hp_errno h1 = hp_errno h"
proof (induction data p h rule: field_loop.induct)
  case (1 data p h)
  show ?case
  proof (cases "p < length data \<and> STRICT_TOKEN (data ! p) \<noteq> None")
    case True
    then obtain c where c: "STRICT_TOKEN (data ! p) = Some c" by auto
    obtain p1 h1 where k: "field_char data (data ! p) c p h = Some (p1, h1)" "hp_hstate h1 \<in> field_hstates"
      "hp_state h1 = hp_state h" "hp_flags h1 = hp_flags h" "hp_errno h1 = hp_errno h" using keeps_field_char [OF 1(2)] by blast
    have s: "field_loop data p h = field_loop data (Suc p1) h1" using True by (subst field_loop.simps) (simp add: c k(1))
    obtain p2 h2 where r: "field_loop data (Suc p1) h1 = Some (p2, h2)" "hp_hstate h2 \<in> field_hstates"
      "hp_state h2 = hp_state h1" "hp_flags h2 = hp_flags h1" "hp_errno h2 = hp_errno h1"
      using 1(1) [OF _ c k(1) refl k(2)] True by blast
    then show ?thesis using s r k by auto
  next
    case False
    then show ?thesis using 1(2) by (subst field_loop.simps) (auto split: option.splits)
  qed
qed

definition value_hstates :: "header_state set" where
  "value_hstates = - {h_connection, h_transfer_encoding}"

lemma keeps_value_char:
  assumes "hp_hstate h \<in> value_hstates" and "hp_state h = s_header_value \<or> hp_state h = v"
  shows "case value_char data ch p h of V_go q h1 \<Rightarrow> hp_hstate h1 \<in> value_hstates \<and> hp_state h1 \<in> {s_header_value, v} \<and> hp_errno h1 = hp_errno h
    | V_error e q \<Rightarrow> e \<noteq> HPE_OK | V_assert \<Rightarrow> False"
  using assms
  by (cases "hp_hstate h")
    (auto simp: value_char_def Let_def value_hstates_def content_length_digit_def connection_token_end_def connection_flag_def
       matching_fields matching_def split: sum.splits)

lemma done_simp [simp]: "done_inv (SET_ERRNO e s)" if "e \<noteq> HPE_OK"
  using that by (rule done_error)

lemma scan_inv_count: "hp_state (sc_h s) \<noteq> s_chunk_size_start \<Longrightarrow> scan_inv n (upd_h (\<lambda>h. h\<lparr>hp_nread := m\<rparr>) s) = scan_inv n s"
  by (simp only: scan_inv_def state_inv_def marks_inv_def Let_def) simp

lemma scan_inv_p: "scan_inv n (s\<lparr>sc_p := q\<rparr>) = scan_inv n s"
  by (simp only: scan_inv_def state_inv_def marks_inv_def Let_def) simp

lemma keeps_value_end:
  assumes "scan_inv 0 s" and "hp_state (sc_h s) \<in> {s_header_value, s_header_almost_done}"
  shows "keeps (value_end data start s)"
proof -
  have "hp_state (sc_h s) \<noteq> s_chunk_size_start" using assms(2) by auto
  then show ?thesis
    unfolding value_end_def Let_def using assms(1)
    by (intro flow_count) (simp_all add: flow_simps scan_inv_count scan_inv_p)
qed

definition value_pre :: "'u scan \<Rightarrow> bool" where
  "value_pre s \<longleftrightarrow> hp_errno (sc_h s) = HPE_OK \<and> hp_state (sc_h s) = s_header_value \<and> hp_hstate (sc_h s) \<in> value_hstates
     \<and> sc_field s = None \<and> sc_url s = None \<and> sc_stat s = None \<and> sc_body s = None"

lemma value_pre_inv: "value_pre s \<Longrightarrow> scan_inv 0 s"
  by (auto simp: value_pre_def inv_defs chunk_states_def value_hstates_def)

lemma keeps_value_loop: "value_pre s \<Longrightarrow> keeps (value_loop st data start s)"
proof (induction st data start s rule: value_loop.induct)
  case (1 st data start s)
  note pre = 1(2) [unfolded value_pre_def]
  have cr: "keeps (data_value st data p er (value_end data start) (UPDATE_STATE s_header_almost_done s))" for p er
    unfolding data_value_def
    by (intro flow_data keeps_value_end) (use pre in \<open>auto simp: setter_defs inv_defs chunk_states_def done_inv_def\<close>)
  have lf: "keeps (COUNT_HEADER_SIZE n (data_value st data p er Redo) (UPDATE_STATE s_header_almost_done s))" for n p er
    unfolding data_value_def
    by (intro flow_count flow_data) (use pre in \<open>auto simp: flow_simps setter_defs inv_defs chunk_states_def done_inv_def\<close>)
  show ?case
  proof (cases "sc_p s < length data")
    case False
    then show ?thesis using keeps_value_end [OF value_pre_inv [OF 1(2)]] pre by (subst value_loop.simps) simp
  next
    case p: True
    let ?ch = "data ! sc_p s"
    show ?thesis
    proof (cases "?ch = CR \<or> ?ch = LF \<or> \<not> hp_lenient (sc_h s) \<and> \<not> IS_HEADER_CHAR ?ch")
      case True
      then show ?thesis using p cr lf by (subst value_loop.simps) (auto simp: Let_def flow_simps)
    next
      case False
      have step: "value_loop st data start s = (case value_char data ?ch (sc_p s) (sc_h s) of
          V_assert \<Rightarrow> Assertion | V_error e q \<Rightarrow> fail e (s\<lparr>sc_p := q\<rparr>)
        | V_go q h \<Rightarrow> value_loop st data start (s\<lparr>sc_p := Suc q, sc_h := h\<rparr>))"
        using p False by (subst value_loop.simps) (auto simp: Let_def)
      have k: "case value_char data ?ch (sc_p s) (sc_h s) of
          V_go q h1 \<Rightarrow> hp_hstate h1 \<in> value_hstates \<and> hp_state h1 \<in> {s_header_value, s_header_value} \<and> hp_errno h1 = hp_errno (sc_h s)
        | V_error e q \<Rightarrow> e \<noteq> HPE_OK | V_assert \<Rightarrow> False"
        by (rule keeps_value_char) (use pre in simp_all)
      show ?thesis
      proof (cases "value_char data ?ch (sc_p s) (sc_h s)")
        case (V_go q h)
        then have "value_pre (s\<lparr>sc_p := Suc q, sc_h := h\<rparr>)" using k pre by (simp add: value_pre_def)
        then show ?thesis unfolding step V_go using 1(1) [OF refl p refl _ _ _ V_go] False by simp
      qed (use k in \<open>simp_all add: step flow_simps\<close>)
    qed
  qed
qed

lemma keeps_header_field:
  assumes "scan_inv 1 s" and "hp_state (sc_h s) = s_header_field"
  shows "keeps (st_header_field st data s)"
proof -
  have h: "hp_hstate (sc_h s) \<in> field_hstates" using assms by (simp add: inv_defs)
  obtain p h1 where r: "field_loop data (sc_p s) (sc_h s) = Some (p, h1)" "hp_hstate h1 \<in> field_hstates"
    "hp_state h1 = hp_state (sc_h s)" "hp_flags h1 = hp_flags (sc_h s)" "hp_errno h1 = hp_errno (sc_h s)"
    using keeps_field_loop [OF h] by blast
  show ?thesis
    unfolding st_header_field_def Let_def r data_field_def using assms r
    by (auto simp: flow_simps setter_defs inv_defs chunk_states_def url_states_def done_inv_def intro!: flow_count flow_data)
qed

text \<open>What a state of the machine owes: nothing but that no mark is left where its state does not allow one.\<close>

definition quiet :: "'u scan \<Rightarrow> bool" where
  "quiet s \<longleftrightarrow> hp_errno (sc_h s) = HPE_OK \<and> sc_field s = None \<and> sc_value s = None \<and> sc_url s = None \<and> sc_stat s = None \<and> sc_body s = None"

definition plain_states :: "pstate set" where
  "plain_states = - (chunk_states \<union> {s_body_identity, s_header_field, s_header_value})"

lemma quiet_inv: "quiet s \<Longrightarrow> hp_state (sc_h s) \<in> plain_states \<Longrightarrow> scan_inv n s"
  by (auto simp: quiet_def plain_states_def inv_defs chunk_states_def)

lemma quiet_setters:
  "quiet (UPDATE_STATE v s) = quiet s" "quiet (flag_on f s) = quiet s" "quiet (set_hstate x s) = quiet s" "quiet (set_index i s) = quiet s"
  "quiet (set_clen n s) = quiet s" "quiet (start_message s) = quiet s" "quiet (new_message s) = quiet s" "quiet (s\<lparr>sc_u := u\<rparr>) = quiet s"
  "quiet (s\<lparr>sc_p := q\<rparr>) = quiet s"
  by (simp_all add: quiet_def setter_defs)

lemma setter_states:
  "hp_state (sc_h (UPDATE_STATE v s)) = v" "hp_state (sc_h (flag_on f s)) = hp_state (sc_h s)"
  "hp_state (sc_h (set_hstate x s)) = hp_state (sc_h s)" "hp_state (sc_h (set_index i s)) = hp_state (sc_h s)"
  "hp_state (sc_h (set_clen n s)) = hp_state (sc_h s)" "hp_state (sc_h (start_message s)) = hp_state (sc_h s)"
  by (simp_all add: setter_defs)

lemma inv_quiet:
  assumes "scan_inv n s" and "hp_state (sc_h s) \<notin> {s_header_field, s_header_value, s_res_status, s_body_identity, s_body_identity_eof,
      s_chunk_data, s_chunk_data_almost_done} \<union> url_states"
  shows "quiet s"
  using assms by (auto simp: inv_defs quiet_def)

lemma keeps_message_complete:
  assumes "quiet s" and "\<And>s1. quiet s1 \<Longrightarrow> hp_state (sc_h s1) \<in> {s_dead, s_start_req, s_start_res} \<Longrightarrow>
      hp_upgrade (sc_h s1) = hp_upgrade (sc_h s) \<Longrightarrow> keeps (k s1)"
  shows "keeps (message_complete st k s)"
  unfolding message_complete_def
proof (rule flow_notify)
  show "hp_errno (sc_h (new_message s)) = HPE_OK \<or> False" using assms(1) by (simp add: quiet_def setter_defs)
  show "keeps (k (new_message s\<lparr>sc_u := u\<rparr>))" for u
    by (rule assms(2)) (use assms(1) new_message_state [of s] in \<open>simp_all add: quiet_setters, simp add: setter_defs\<close>)
qed simp

lemma parse_url_char_states: "parse_url_char v ch \<in> insert s_dead url_states"
proof -
  have "server_char ch \<in> insert s_dead url_states" by (simp add: server_char_def url_states_def)
  then show ?thesis by (cases v) (simp_all add: parse_url_char_def, simp_all add: url_states_def)
qed

lemma url_quiet: "scan_inv n s \<Longrightarrow> hp_state (sc_h s) \<in> url_states \<Longrightarrow> quiet (s\<lparr>sc_url := None\<rparr>)"
  by (cases "hp_state (sc_h s)") (simp_all add: url_states_def scan_inv_def marks_inv_def quiet_def)

lemma url_inv: "quiet (s\<lparr>sc_url := None\<rparr>) \<Longrightarrow> hp_state (sc_h s) \<in> url_states \<Longrightarrow> scan_inv n s"
  by (cases "hp_state (sc_h s)") (simp_all add: url_states_def scan_inv_def state_inv_def chunk_states_def marks_inv_def quiet_def)

lemma quiet_url: "quiet ((UPDATE_STATE v s)\<lparr>sc_url := m\<rparr>) = quiet (s\<lparr>sc_url := m\<rparr>)"
  by (simp add: quiet_def setter_defs)

lemma keeps_url_step: "quiet (s\<lparr>sc_url := None\<rparr>) \<Longrightarrow> keeps (url_step ch s)"
  using parse_url_char_states [of "hp_state (sc_h s)" ch]
  by (auto simp: url_step_def Let_def flow_simps setter_states quiet_url intro!: url_inv)

lemma keeps_url:
  assumes "scan_inv 1 s" and "hp_state (sc_h s) \<in> url_states"
  shows "keeps (st_url st data ch s)"
proof -
  have q: "quiet (s\<lparr>sc_url := None\<rparr>)" by (rule url_quiet [OF assms])
  have d: "keeps (data_url st data p er Next s1)"
    if "quiet (s1\<lparr>sc_url := None\<rparr>)" "hp_state (sc_h s1) \<in> {s_req_http_start, s_req_line_almost_done, s_header_field_start}" for p er s1
    unfolding data_url_def
    by (intro flow_data) (use that in \<open>auto simp: flow_simps quiet_def plain_states_def chunk_states_def intro!: quiet_inv\<close>)
  have "quiet ((UPDATE_STATE v (upd_h (\<lambda>h. h\<lparr>hp_major := a, hp_minor := b\<rparr>) s))\<lparr>sc_url := None\<rparr>)" for v a b
    using q by (simp add: quiet_def setter_defs)
  then show ?thesis
    unfolding st_url_def using q
    by (auto simp: flow_simps setter_states is_eol_def quiet_url intro!: d keeps_url_step)
qed

lemma quiet_plain:
  "quiet s \<Longrightarrow> hp_state (sc_h s) \<notin> chunk_states \<Longrightarrow> hp_state (sc_h s) \<notin> {s_body_identity, s_header_field, s_header_value} \<Longrightarrow> scan_inv n s"
  by (intro quiet_inv) (auto simp: plain_states_def)

lemma stat_inv: "quiet (s\<lparr>sc_stat := None\<rparr>) \<Longrightarrow> hp_state (sc_h s) = s_res_status \<Longrightarrow> scan_inv n s"
  by (simp add: scan_inv_def state_inv_def chunk_states_def marks_inv_def quiet_def)

lemma quiet_upd: "hp_errno h = hp_errno (sc_h s) \<Longrightarrow> quiet (s\<lparr>sc_h := h\<rparr>) = quiet s"
  by (simp add: quiet_def)

lemma quiet_stat:
  "quiet ((UPDATE_STATE v s)\<lparr>sc_stat := m\<rparr>) = quiet (s\<lparr>sc_stat := m\<rparr>)" "quiet ((set_index i s)\<lparr>sc_stat := m\<rparr>) = quiet (s\<lparr>sc_stat := m\<rparr>)"
  "quiet s \<Longrightarrow> quiet (s\<lparr>sc_stat := None\<rparr>)"
  by (simp_all add: quiet_def setter_defs)

lemma keeps_notify:
  assumes "quiet s" and "e \<noteq> HPE_OK" and "hp_state (sc_h s) \<notin> chunk_states" and "hp_state (sc_h s) \<notin> {s_body_identity, s_header_field, s_header_value}"
  shows "keeps (CALLBACK_NOTIFY cb e er Next s)"
  by (intro flow_notify) (use assms in \<open>simp_all add: flow_simps quiet_plain quiet_setters, simp add: quiet_def\<close>)

lemma keeps_expect:
  assumes "quiet s" and "v \<notin> chunk_states" and "v \<notin> {s_body_identity, s_header_field, s_header_value}"
  shows "keeps (expect c v ch s)"
  using assms by (simp add: expect_def flow_simps quiet_setters setter_states quiet_plain)

definition response_states :: "pstate set" where
  "response_states = {s_start_req_or_res, s_res_or_resp_H, s_start_res, s_res_H, s_res_HT, s_res_HTT, s_res_HTTP, s_res_http_major,
     s_res_http_dot, s_res_http_minor, s_res_http_end, s_res_first_status_code, s_res_status_code,
     s_res_status_start, s_res_status, s_res_line_almost_done}"

lemmas keeps_simps = Let_def flow_simps quiet_plain keeps_expect keeps_notify quiet_setters quiet_upd setter_states chunk_states_def

lemma keeps_response:
  assumes "scan_inv 1 s" and "hp_state (sc_h s) \<in> response_states"
  shows "keeps (st_response st data ch s)"
proof (cases "hp_state (sc_h s) = s_res_status")
  case True
  then have q: "quiet (s\<lparr>sc_stat := None\<rparr>)" using assms(1) by (simp add: scan_inv_def marks_inv_def quiet_def url_states_def)
  have d: "keeps (data_status st data p er Next (UPDATE_STATE v s))" if "v \<in> {s_res_line_almost_done, s_header_field_start}" for p er v
    unfolding data_status_def
    by (intro flow_data done_error) (use that q in \<open>auto simp: flow_simps quiet_def setter_defs plain_states_def chunk_states_def intro!: quiet_inv\<close>)
  show ?thesis using True d stat_inv [OF q, of 0] q by (simp add: st_response_def flow_simps stat_inv)
next
  case False
  then have q: "quiet s"
    using assms by (cases "hp_state (sc_h s)") (simp_all add: response_states_def scan_inv_def marks_inv_def quiet_def url_states_def)
  show ?thesis
    using assms(2) False q
    by (cases "hp_state (sc_h s)")
      (simp_all add: response_states_def st_response_def keeps_simps stat_inv quiet_stat)
qed

definition request_states :: "pstate set" where
  "request_states = {s_start_req, s_req_method, s_req_spaces_before_url, s_req_http_start, s_req_http_H, s_req_http_HT, s_req_http_HTT,
     s_req_http_HTTP, s_req_http_I, s_req_http_IC, s_req_http_major, s_req_http_dot, s_req_http_minor, s_req_http_end,
     s_req_line_almost_done} \<union> url_states"

lemma quiet_inv_state:
  assumes "scan_inv n s" and "hp_state (sc_h s) \<notin> {s_header_field, s_header_value, s_res_status, s_body_identity, s_body_identity_eof,
      s_chunk_data, s_chunk_data_almost_done}" and "hp_state (sc_h s) \<notin> url_states"
  shows "quiet s"
  using assms by (cases "hp_state (sc_h s)") (simp_all add: scan_inv_def marks_inv_def quiet_def)

lemma keeps_request:
  assumes "scan_inv 1 s" and "hp_state (sc_h s) \<in> request_states"
  shows "keeps (st_request st data ch s)"
proof (cases "hp_state (sc_h s) \<in> url_states")
  case True
  then show ?thesis using keeps_url [OF assms(1) True] keeps_url_step [OF url_quiet [OF assms(1) True]]
    by (cases "hp_state (sc_h s)") (simp_all add: url_states_def st_request_def flow_simps)
next
  case False
  have q: "quiet s"
    by (rule quiet_inv_state [OF assms(1) _ False]) (use assms(2) False in \<open>auto simp: request_states_def url_states_def\<close>)
  have m: "keeps (st_method ch s)" if "hp_state (sc_h s) = s_req_method"
    using q that by (simp add: st_method_def keeps_simps split: option.splits)
  have u: "quiet (s\<lparr>sc_url := a\<rparr>\<lparr>sc_url := None\<rparr>)" for a using q by (simp add: quiet_def)
  have h: "quiet (start_message s)" using q by (simp add: quiet_setters)
  have us: "keeps (url_step ch (s\<lparr>sc_url := a\<rparr>))" "keeps (url_step ch (UPDATE_STATE v (s\<lparr>sc_url := a\<rparr>)))" for a v
    using u by (auto intro!: keeps_url_step simp: quiet_url)
  show ?thesis
    using assms(2) False q m us
    by (cases "hp_state (sc_h s)")
      (simp_all add: request_states_def url_states_def st_request_def keeps_simps split: option.splits)
qed

section \<open>Headers and bodies\<close>

lemma keeps_value_start:
  assumes "quiet s"
  shows "keeps (st_header_value_start ch s)"
proof -
  have v: "scan_inv 0 s1" if "quiet (s1\<lparr>sc_value := None\<rparr>)" "hp_state (sc_h s1) = s_header_value"
      "hp_hstate (sc_h s1) \<notin> {h_connection, h_transfer_encoding}" for s1 :: "'a scan"
    using that by (simp add: scan_inv_def state_inv_def chunk_states_def marks_inv_def quiet_def)
  define s1 where "s1 = set_index 0 (UPDATE_STATE s_header_value (s\<lparr>sc_value := MARK (sc_value s) (sc_p s)\<rparr>))"
  have q: "quiet (s1\<lparr>sc_value := None\<rparr>)" and st: "hp_state (sc_h s1) = s_header_value"
    using assms by (simp_all add: s1_def quiet_def setter_defs)
  show ?thesis
    unfolding st_header_value_start_def Let_def s1_def [symmetric]
    by (cases "hp_hstate (sc_h s1)")
      (use q st in \<open>auto simp: flow_simps setter_defs quiet_def done_inv_def intro!: v\<close>)
qed

lemma keeps_header_states:
  assumes "scan_inv 1 s" and "quiet s"
  shows "hp_state (sc_h s) = s_header_field_start \<Longrightarrow> keeps (st_header_field_start ch s)"
    and "hp_state (sc_h s) = s_header_value_discard_ws \<Longrightarrow> keeps (st_header_value_discard_ws ch s)"
    and "hp_state (sc_h s) = s_header_value_lws \<Longrightarrow> keeps (st_header_value_lws ch s)"
    and "hp_state (sc_h s) = s_header_value_discard_lws \<Longrightarrow> keeps (st_header_value_discard_lws st data ch s)"
    and "hp_state (sc_h s) = s_headers_almost_done \<Longrightarrow> keeps (st_headers_almost_done st ch s)"
    and "hp_state (sc_h s) = s_headers_done \<Longrightarrow> keeps (st_headers_done st ch s)"
proof -
  have f: "scan_inv 0 s1" if "quiet (s1\<lparr>sc_field := None\<rparr>)" "hp_state (sc_h s1) = s_header_field" "hp_hstate (sc_h s1) \<in> field_hstates" for s1 :: "'a scan"
    using that by (simp add: scan_inv_def state_inv_def chunk_states_def marks_inv_def quiet_def)
  show "keeps (st_header_field_start ch s)" if "hp_state (sc_h s) = s_header_field_start"
    using assms(2) unfolding st_header_field_start_def
    by (auto simp: flow_simps quiet_setters setter_states quiet_plain chunk_states_def intro!: f split: option.splits)
      (auto simp: quiet_def setter_defs field_hstates_def)
  show "keeps (st_header_value_discard_ws ch s)" if "hp_state (sc_h s) = s_header_value_discard_ws"
    using assms(2) that keeps_value_start [OF assms(2)] by (simp add: st_header_value_discard_ws_def keeps_simps)
  have fin: "hp_errno (finish_header h) = hp_errno h" for h
    by (simp add: finish_header_def connection_flag_def split: header_state.splits)
  show "keeps (st_header_value_lws ch s)" if "hp_state (sc_h s) = s_header_value_lws"
    using assms(2) that fin by (simp add: st_header_value_lws_def keeps_simps)
  have d: "keeps (data_value st data p er Redo s1)" if "quiet (s1\<lparr>sc_value := None\<rparr>)" "hp_state (sc_h s1) = s_header_field_start" for p er s1
    unfolding data_value_def
    by (intro flow_data) (use that in \<open>auto simp: flow_simps quiet_def plain_states_def chunk_states_def intro!: quiet_inv\<close>)
  show "keeps (st_header_value_discard_lws st data ch s)" if "hp_state (sc_h s) = s_header_value_discard_lws"
    using assms(2) that unfolding st_header_value_discard_lws_def
    by (auto simp: keeps_simps intro!: d) (simp add: quiet_def setter_defs fin)
  have n: "keeps (CALLBACK_NOTIFY cb e er Redo s1)" if "quiet s1" "e \<noteq> HPE_OK" "hp_state (sc_h s1) = s_message_done" for cb e er s1
    by (intro flow_notify) (use that in \<open>simp_all add: flow_simps quiet_setters quiet_plain chunk_states_def, simp add: quiet_def\<close>)
  show "keeps (st_headers_almost_done st ch s)" if "hp_state (sc_h s) = s_headers_almost_done"
    using assms(2) that by (auto simp: st_headers_almost_done_def keeps_simps intro!: n split: prod.splits)
  have e: "state_inv 0 (sc_h s1)" "scan_inv 0 s1" if "quiet s1" "hp_state (sc_h s1) \<in> {s_dead, s_start_req, s_start_res}" for s1 :: "'a scan"
    using quiet_inv [OF that(1), of 0] that(2) by (auto simp: plain_states_def chunk_states_def scan_inv_def)
  have mc: "keeps (message_complete st Next s1)" if "quiet s1" for s1
    by (rule keeps_message_complete [OF that]) (simp add: flow_simps e)
  have mu: "keeps (message_complete st (\<lambda>s2. Done i s2) s1)" if "quiet s1" "hp_upgrade (sc_h s1)" for s1 i
    by (rule keeps_message_complete [OF that(1)]) (use that in \<open>simp add: flow_simps done_inv_def e\<close>)
  show "keeps (st_headers_done st ch s)" if "hp_state (sc_h s) = s_headers_done"
  proof -
    let ?s = "upd_h (\<lambda>h. h\<lparr>hp_nread := 0\<rparr>) s"
    have q: "quiet ?s" using assms(2) by (simp add: quiet_def)
    have c: "scan_inv 0 (UPDATE_STATE s_chunk_size_start ?s)" if "F_CHUNKED \<in> hp_flags (sc_h s)"
      using q that by (simp add: scan_inv_def state_inv_def chunk_states_def marks_inv_def quiet_def setter_defs)
    have b: "scan_inv 0 (UPDATE_STATE s_body_identity ?s)" if "hp_clen (sc_h s) \<noteq> 0" "hp_clen (sc_h s) \<noteq> ULLONG_MAX"
      using q that by (simp add: scan_inv_def state_inv_def chunk_states_def marks_inv_def quiet_def setter_defs)
    show ?thesis
      using q mc [OF q] mu [OF q] c b unfolding st_headers_done_def Let_def
      by (auto simp: flow_simps quiet_plain quiet_setters setter_states chunk_states_def)
  qed
qed

definition body_ok :: "'u scan \<Rightarrow> bool" where "body_ok s \<longleftrightarrow> quiet (s\<lparr>sc_body := None\<rparr>)"

lemma body_inv:
  "body_ok s \<Longrightarrow> hp_state (sc_h s) = s_body_identity \<Longrightarrow> hp_clen (sc_h s) \<noteq> 0 \<Longrightarrow> hp_clen (sc_h s) \<noteq> ULLONG_MAX \<Longrightarrow> scan_inv n s"
  "body_ok s \<Longrightarrow> hp_state (sc_h s) = s_chunk_data \<Longrightarrow> F_CHUNKED \<in> hp_flags (sc_h s) \<Longrightarrow> hp_clen (sc_h s) \<noteq> 0 \<Longrightarrow>
     hp_clen (sc_h s) \<noteq> ULLONG_MAX \<Longrightarrow> scan_inv n s"
  "body_ok s \<Longrightarrow> hp_state (sc_h s) = s_chunk_data_almost_done \<Longrightarrow> F_CHUNKED \<in> hp_flags (sc_h s) \<Longrightarrow> hp_clen (sc_h s) = 0 \<Longrightarrow> scan_inv n s"
  "body_ok s \<Longrightarrow> hp_state (sc_h s) = s_body_identity_eof \<Longrightarrow> scan_inv n s"
  by (simp_all add: body_ok_def scan_inv_def state_inv_def chunk_states_def marks_inv_def quiet_def)

lemma body_ok_if:
  assumes "scan_inv n s" and "hp_state (sc_h s) \<in> {s_body_identity, s_body_identity_eof, s_chunk_data, s_chunk_data_almost_done}"
  shows "body_ok s"
  using assms by (cases "hp_state (sc_h s)") (simp_all add: body_ok_def scan_inv_def marks_inv_def quiet_def url_states_def)

lemma chunk_inv:
  "quiet s \<Longrightarrow> hp_state (sc_h s) \<in> {s_chunk_size, s_chunk_parameters, s_chunk_size_almost_done} \<Longrightarrow> F_CHUNKED \<in> hp_flags (sc_h s) \<Longrightarrow>
     hp_clen (sc_h s) \<noteq> ULLONG_MAX \<Longrightarrow> scan_inv n s"
  "quiet s \<Longrightarrow> hp_state (sc_h s) = s_chunk_size_start \<Longrightarrow> F_CHUNKED \<in> hp_flags (sc_h s) \<Longrightarrow> hp_nread (sc_h s) = n \<Longrightarrow> scan_inv n s"
  "quiet s \<Longrightarrow> hp_state (sc_h s) = s_chunk_data_done \<Longrightarrow> F_CHUNKED \<in> hp_flags (sc_h s) \<Longrightarrow> scan_inv n s"
  by (auto simp: scan_inv_def state_inv_def chunk_states_def marks_inv_def quiet_def)

lemma unhex_range: "- 1 \<le> unhex c \<and> unhex c \<le> 15"
  by (simp add: unhex_def Let_def)

lemma word_of_digit: "unhex c \<noteq> - 1 \<Longrightarrow> unat (word_of_int (unhex c) :: u64) \<le> 15"
proof -
  assume "unhex c \<noteq> - 1"
  then obtain n where n: "unhex c = int n" "n \<le> 15" using unhex_range [of c] by (metis int_ops(3) linorder_not_less nat_int nle_le of_nat_le_iff order.strict_trans1 zero_le_imp_eq_int add.left_neutral add_uminus_conv_diff diff_add_cancel of_nat_numeral order_less_le zless_imp_add1_zle)
  then show ?thesis by (simp add: unat_of_nat)
qed

lemma ULLONG_MAX_num: "ULLONG_MAX = 18446744073709551615"
  by (simp add: ULLONG_MAX_def)

lemma unat_ULLONG_MAX: "unat ULLONG_MAX = 18446744073709551615"
  unfolding ULLONG_MAX_num by simp

lemma below_ULLONG_MAX: "unat x < 18446744073709551615 \<Longrightarrow> x \<noteq> ULLONG_MAX"
  using unat_ULLONG_MAX by force

lemma not_ULLONG_MAX: "x \<noteq> ULLONG_MAX \<Longrightarrow> unat x < 18446744073709551615"
proof -
  assume "x \<noteq> ULLONG_MAX"
  then have "unat x \<noteq> 18446744073709551615" unfolding unat_ULLONG_MAX [symmetric] by (metis unsigned_word_eqI)
  moreover have "unat x < 18446744073709551616" using unsigned_less [of x] by simp
  ultimately show ?thesis by linarith
qed

lemma chunk_limit: "unat ((ULLONG_MAX - 16) div 16) = 1152921504606846974"
  unfolding ULLONG_MAX_num by (simp add: unat_div)

lemma chunk_size_bound:
  assumes "\<not> (ULLONG_MAX - 16) div 16 < n" and "unhex c \<noteq> - 1"
  shows "n * 16 + word_of_int (unhex c) \<noteq> ULLONG_MAX"
proof -
  let ?d = "word_of_int (unhex c) :: u64"
  have n: "unat n \<le> 1152921504606846974" using assms(1) unfolding word_less_nat_alt chunk_limit by linarith
  have d: "unat ?d \<le> 15" by (rule word_of_digit [OF assms(2)])
  have m: "unat (n * 16) = unat n * 16" using n by (simp add: unat_word_ariths)
  have "unat (n * 16 + ?d) = unat n * 16 + unat ?d"
    using n d m by (simp add: unat_word_ariths)
  then show ?thesis using n d by (intro below_ULLONG_MAX) linarith
qed

lemma chunk_digit: "unhex c \<noteq> - 1 \<Longrightarrow> word_of_int (unhex c) \<noteq> ULLONG_MAX"
  by (rule below_ULLONG_MAX, drule word_of_digit) simp

lemma take_body_facts:
  assumes "sc_p s < length data" and "hp_clen (sc_h s) \<noteq> 0" and "hp_clen (sc_h s) \<noteq> ULLONG_MAX"
  shows "hp_clen (sc_h (take_body data s)) \<noteq> ULLONG_MAX" "hp_state (sc_h (take_body data s)) = hp_state (sc_h s)"
    "hp_flags (sc_h (take_body data s)) = hp_flags (sc_h s)" "body_ok (take_body data s) = body_ok s"
proof -
  have "to_read data s \<le> unat (hp_clen (sc_h s))" by (simp add: to_read_def)
  then have "unat (hp_clen (sc_h s) - of_nat (to_read data s)) = unat (hp_clen (sc_h s)) - to_read data s"
    by (metis le_unat_uoi unat_sub word_le_nat_alt)
  then have "unat (hp_clen (sc_h s) - of_nat (to_read data s)) < 18446744073709551615" using not_ULLONG_MAX [OF assms(3)] by linarith
  then show "hp_clen (sc_h (take_body data s)) \<noteq> ULLONG_MAX"
    by (intro below_ULLONG_MAX) (simp add: take_body_def Let_def set_clen_def)
qed (simp_all add: take_body_def Let_def set_clen_def body_ok_def quiet_def)

lemma keeps_body_states:
  assumes inv: "scan_inv 1 s" and p: "sc_p s < length data"
  shows "hp_state (sc_h s) = s_body_identity \<Longrightarrow> keeps (st_body_identity st data s)"
    and "hp_state (sc_h s) = s_chunk_data \<Longrightarrow> keeps (st_chunk_data data s)"
    and "hp_state (sc_h s) = s_chunk_data_almost_done \<Longrightarrow> keeps (st_chunk_data_almost_done st data ch s)"
proof -
  have cb: "keeps (data_body st data q er k s1)"
    if "body_ok s1" "\<And>s2. quiet s2 \<Longrightarrow> sc_h s2 = sc_h s1 \<Longrightarrow> keeps (k s2)" for q er k s1
    unfolding data_body_def
    by (intro flow_data that(2)) (use that(1) in \<open>auto simp: body_ok_def quiet_def\<close>)
  show "keeps (st_body_identity st data s)" if st: "hp_state (sc_h s) = s_body_identity"
  proof -
    have c: "hp_clen (sc_h s) \<noteq> 0" "hp_clen (sc_h s) \<noteq> ULLONG_MAX" using inv st by (simp_all add: scan_inv_def state_inv_def)
    note t = take_body_facts [OF p c]
    have b: "body_ok (take_body data s)" using body_ok_if [OF inv] st t(4) by simp
    have m: "body_ok (UPDATE_STATE s_message_done (take_body data s))" using b by (simp add: body_ok_def quiet_def setter_defs)
    have r: "scan_inv n s2" if "quiet s2" "sc_h s2 = sc_h (UPDATE_STATE s_message_done (take_body data s))" for n s2
      using that by (intro quiet_plain) (simp_all add: setter_defs chunk_states_def)
    show ?thesis
    proof (cases "hp_clen (sc_h (take_body data s)) = 0")
      case True
      then show ?thesis using c by (simp add: st_body_identity_def Let_def) (rule cb [OF m], simp add: flow_simps r)
    next
      case False
      then show ?thesis using c body_inv(1) [OF b _ False t(1), of 0] t(2) st by (simp add: st_body_identity_def Let_def flow_simps)
    qed
  qed
  show "keeps (st_chunk_data data s)" if st: "hp_state (sc_h s) = s_chunk_data"
  proof -
    have c: "hp_clen (sc_h s) \<noteq> 0" "hp_clen (sc_h s) \<noteq> ULLONG_MAX" and f: "F_CHUNKED \<in> hp_flags (sc_h s)"
      using inv st by (simp_all add: scan_inv_def state_inv_def chunk_states_def)
    note t = take_body_facts [OF p c]
    have b: "body_ok (take_body data s)" using body_ok_if [OF inv] st t(4) by simp
    show ?thesis
    proof (cases "hp_clen (sc_h (take_body data s)) = 0")
      case True
      have "scan_inv 0 (UPDATE_STATE s_chunk_data_almost_done (take_body data s))"
        by (rule body_inv(3)) (use b f t True in \<open>simp_all add: body_ok_def quiet_def setter_defs\<close>)
      then show ?thesis using True c f by (simp add: st_chunk_data_def Let_def flow_simps)
    next
      case False
      then show ?thesis using c f body_inv(2) [OF b _ _ False t(1), of 0] t(2,3) st by (simp add: st_chunk_data_def Let_def flow_simps)
    qed
  qed
  show "keeps (st_chunk_data_almost_done st data ch s)" if st: "hp_state (sc_h s) = s_chunk_data_almost_done"
  proof -
    have f: "hp_clen (sc_h s) = 0" "F_CHUNKED \<in> hp_flags (sc_h s)" using inv st by (simp_all add: scan_inv_def state_inv_def chunk_states_def)
    have "body_ok (UPDATE_STATE s_chunk_data_done s)" using body_ok_if [OF inv] st by (simp add: body_ok_def quiet_def setter_defs)
    then show ?thesis using f
      by (auto simp: st_chunk_data_almost_done_def flow_simps intro!: cb chunk_inv) (simp_all add: setter_defs)
  qed
qed

lemma keeps_chunk_states:
  assumes inv: "scan_inv 1 s" and q: "quiet s"
  shows "hp_state (sc_h s) = s_chunk_size_start \<Longrightarrow> keeps (st_chunk_size_start ch s)"
    and "hp_state (sc_h s) = s_chunk_size \<Longrightarrow> keeps (st_chunk_size ch s)"
    and "hp_state (sc_h s) = s_chunk_parameters \<Longrightarrow> keeps (st_chunk_parameters ch s)"
    and "hp_state (sc_h s) = s_chunk_size_almost_done \<Longrightarrow> keeps (st_chunk_size_almost_done st ch s)"
    and "hp_state (sc_h s) = s_chunk_data_done \<Longrightarrow> keeps (st_chunk_data_done st ch s)"
proof -
  have f: "F_CHUNKED \<in> hp_flags (sc_h s)" if "hp_state (sc_h s) \<in> chunk_states"
    using inv that by (simp add: scan_inv_def state_inv_def)
  have flags: "hp_flags (sc_h (UPDATE_STATE v s1)) = hp_flags (sc_h s1)" "hp_clen (sc_h (UPDATE_STATE v s1)) = hp_clen (sc_h s1)"
      "hp_flags (sc_h (set_clen n s1)) = hp_flags (sc_h s1)" "hp_clen (sc_h (set_clen n s1)) = n" for v n and s1 :: "'a scan"
    by (simp_all add: setter_defs)
  show "keeps (st_chunk_size_start ch s)" if st: "hp_state (sc_h s) = s_chunk_size_start"
  proof -
    have "hp_nread (sc_h s) = 1" using inv st by (simp add: scan_inv_def state_inv_def)
    then show ?thesis using f st q chunk_digit [of ch]
      by (auto simp: st_chunk_size_start_def flow_simps chunk_states_def intro!: chunk_inv(1)) (simp_all add: quiet_setters setter_states flags)
  qed
  have m: "hp_clen (sc_h s) \<noteq> ULLONG_MAX" if "hp_state (sc_h s) \<in> {s_chunk_size, s_chunk_parameters, s_chunk_size_almost_done}"
    using inv that by (auto simp: scan_inv_def state_inv_def)
  show "keeps (st_chunk_size ch s)" if st: "hp_state (sc_h s) = s_chunk_size"
    using f st q m chunk_size_bound [of "hp_clen (sc_h s)" ch]
    by (auto simp: st_chunk_size_def flow_simps chunk_states_def intro!: chunk_inv(1)) (simp_all add: quiet_setters setter_states flags)
  show "keeps (st_chunk_parameters ch s)" if st: "hp_state (sc_h s) = s_chunk_parameters"
    using f st q m
    by (auto simp: st_chunk_parameters_def flow_simps chunk_states_def intro!: chunk_inv(1)) (simp_all add: quiet_setters setter_states flags)
  show "keeps (st_chunk_size_almost_done st ch s)" if st: "hp_state (sc_h s) = s_chunk_size_almost_done"
  proof -
    let ?s1 = "upd_h (\<lambda>h. h\<lparr>hp_nread := 0\<rparr>) s"
    have q1: "quiet ?s1" using q by (simp add: quiet_def)
    have F: "F_CHUNKED \<in> hp_flags (sc_h s)" and M: "hp_clen (sc_h s) \<noteq> ULLONG_MAX" using f m st by (simp_all add: chunk_states_def)
    have a: "quiet (UPDATE_STATE s_header_field_start (flag_on F_TRAILING ?s1))" using q1 by (simp add: quiet_setters)
    have b: "quiet (UPDATE_STATE s_chunk_data ?s1)" using q1 by (simp add: quiet_setters)
    have k: "keeps (CALLBACK_NOTIFY cb HPE_CB_chunk_header er Next (UPDATE_STATE s_chunk_data ?s1))" if "hp_clen (sc_h s) \<noteq> 0" for cb er
    proof (rule flow_notify)
      show "keeps (Next (UPDATE_STATE s_chunk_data ?s1\<lparr>sc_u := u\<rparr>))" for u
        unfolding flow_simps by (rule body_inv(2)) (use b F M that in \<open>simp_all add: body_ok_def quiet_def setter_defs\<close>)
    qed (use b in \<open>simp_all add: quiet_def\<close>)
    show ?thesis
      using F k keeps_notify [OF a, of HPE_CB_chunk_header]
      by (simp add: st_chunk_size_almost_done_def Let_def flow_simps setter_states chunk_states_def)
  qed
  show "keeps (st_chunk_data_done st ch s)" if st: "hp_state (sc_h s) = s_chunk_data_done"
  proof -
    let ?s1 = "UPDATE_STATE s_chunk_size_start (upd_h (\<lambda>h. h\<lparr>hp_nread := 0\<rparr>) s)"
    have F: "F_CHUNKED \<in> hp_flags (sc_h s)" using f st by (simp add: chunk_states_def)
    have "keeps (CALLBACK_NOTIFY cb HPE_CB_chunk_complete er Next ?s1)" for cb er
    proof (rule flow_notify)
      show "keeps (Next (?s1\<lparr>sc_u := u\<rparr>))" for u
        unfolding flow_simps by (rule chunk_inv(2)) (use q F in \<open>simp_all add: quiet_def setter_defs\<close>)
      show "done_inv (SET_ERRNO HPE_CB_chunk_complete (?s1\<lparr>sc_u := u\<rparr>))" for u by (rule done_error) simp
    qed (use q in \<open>simp_all add: quiet_def setter_defs\<close>)
    then show ?thesis using F by (simp add: st_chunk_data_done_def flow_simps)
  qed
qed

section \<open>The whole function\<close>

lemma keeps_message_done:
  assumes "quiet s"
  shows "keeps (st_message_done st s)"
  unfolding st_message_done_def
proof (rule keeps_message_complete [OF assms])
  fix s1 :: "'a scan"
  assume a: "quiet s1" "hp_state (sc_h s1) \<in> {s_dead, s_start_req, s_start_res}"
  then have "scan_inv 0 s1" by (intro quiet_inv) (auto simp: plain_states_def chunk_states_def)
  then show "keeps (if hp_upgrade (sc_h s1) then Done (Suc (sc_p s1)) s1 else Next s1)"
    by (simp add: flow_simps done_inv_def scan_inv_def)
qed

lemma value_pre_if: "scan_inv n s \<Longrightarrow> hp_state (sc_h s) = s_header_value \<Longrightarrow> value_pre s"
  by (auto simp: value_pre_def value_hstates_def scan_inv_def state_inv_def marks_inv_def url_states_def)

lemma keeps_exec:
  assumes inv: "scan_inv 1 s" and p: "sc_p s < length data"
  shows "keeps (exec_state st data s)"
proof -
  let ?v = "hp_state (sc_h s)"
  consider "?v = s_header_value" | "?v = s_header_field" | "?v \<in> response_states" | "?v \<in> request_states"
    | "?v \<in> {s_body_identity, s_chunk_data, s_chunk_data_almost_done}" | "?v = s_body_identity_eof"
    | "?v \<in> - ({s_header_value, s_header_field, s_body_identity, s_chunk_data, s_chunk_data_almost_done, s_body_identity_eof}
          \<union> response_states \<union> request_states)"
    by blast
  then show ?thesis
  proof cases
    case 1
    then show ?thesis using keeps_value_loop [OF value_pre_if [OF inv]] by (simp add: exec_state_def Let_def)
  next
    case 2
    then show ?thesis using keeps_header_field [OF inv] by (simp add: exec_state_def Let_def)
  next
    case 3
    then show ?thesis using keeps_response [OF inv 3] by (cases ?v) (simp_all add: exec_state_def Let_def response_states_def)
  next
    case 4
    then show ?thesis using keeps_request [OF inv 4]
      by (cases ?v) (simp_all add: exec_state_def Let_def request_states_def url_states_def)
  next
    case 5
    then show ?thesis using keeps_body_states [OF inv p] by (auto simp: exec_state_def Let_def)
  next
    case 6
    then have "body_ok s" by (intro body_ok_if [OF inv]) simp
    then have "scan_inv 0 (s\<lparr>sc_body := m, sc_p := q\<rparr>)" for m q
      by (intro body_inv(4)) (use 6 in \<open>simp_all add: body_ok_def quiet_def\<close>)
    then show ?thesis using 6 by (simp add: exec_state_def Let_def flow_simps)
  next
    case 7
    have q: "quiet s"
      by (rule quiet_inv_state [OF inv]) (use 7 in \<open>auto simp: response_states_def request_states_def\<close>)
    show ?thesis
      using 7 q keeps_header_states [OF inv q] keeps_chunk_states [OF inv q] keeps_message_done [OF q] keeps_value_start [OF q]
      by (cases ?v) (simp_all add: exec_state_def response_states_def request_states_def url_states_def keeps_simps)
  qed
qed

lemma keeps_reexecute:
  "scan_inv 1 s \<Longrightarrow> sc_p s < length data \<Longrightarrow> flow_all (scan_inv 0) (\<lambda>_. False) (\<lambda>n s1. done_inv s1) False (reexecute st data s)"
proof (induction st data s rule: reexecute.induct)
  case (1 st data s)
  note k = keeps_exec [OF 1(2,3), of st] onward_exec [OF 1(3), of st]
  show ?case
  proof (cases "exec_state st data s")
    case (Redo s1)
    then show ?thesis using 1(1) [OF Redo] k by (subst reexecute.simps) (simp add: flow_simps)
  qed (use k in \<open>subst reexecute.simps, simp add: flow_simps\<close>)+
qed

lemma scan_inv_any: "scan_inv n s \<Longrightarrow> hp_state (sc_h s) \<noteq> s_chunk_size_start \<Longrightarrow> scan_inv m s"
  by (simp add: scan_inv_def state_inv_def)

lemma scan_inv_counted:
  assumes "scan_inv 0 s"
  shows "scan_inv 1 (upd_h (\<lambda>h. h\<lparr>hp_nread := hp_nread h + of_nat 1\<rparr>) s)"
  using assms by (simp only: scan_inv_def state_inv_def marks_inv_def Let_def) simp

lemma keeps_pass:
  assumes "scan_inv 0 s" and "sc_p s < length data"
  shows "flow_all (scan_inv 0) (\<lambda>_. False) (\<lambda>n s1. done_inv s1) False (loop_pass st data s)"
proof (cases "PARSING_HEADER (hp_state (sc_h s))")
  case True
  have "flow_all (scan_inv 0) (\<lambda>_. False) (\<lambda>n s1. done_inv s1) False (COUNT_HEADER_SIZE 1 (reexecute st data) s)"
    by (intro flow_count keeps_reexecute done_error scan_inv_counted) (use assms in simp_all)
  then show ?thesis using True by (simp add: loop_pass_def)
next
  case False
  then have "hp_state (sc_h s) \<noteq> s_chunk_size_start" by (auto simp: PARSING_HEADER_def)
  then show ?thesis using keeps_reexecute [OF scan_inv_any [OF assms(1)] assms(2)] False by (simp add: loop_pass_def)
qed

text \<open>The marks exclude each other, so one callback at most is left for the end of the data.\<close>

lemma marks_le_1: "scan_inv n s \<Longrightarrow> marks s \<le> 1"
  by (cases "hp_state (sc_h s)")
    (auto simp: scan_inv_def marks_inv_def marks_def url_states_def)

lemma finish_ok:
  assumes "scan_inv 0 s"
  shows "flow_all (\<lambda>_. False) (\<lambda>_. False) (\<lambda>n s1. n = length data \<and> (hp_errno (sc_h s1) = HPE_OK \<longrightarrow> state_inv 0 (sc_h s1))) False (finish_scan st data s)"
  using assms marks_le_1 [OF assms]
  unfolding finish_scan_def Let_def data_field_def data_value_def data_url_def data_body_def data_status_def
  by (auto simp: flow_simps scan_inv_def SET_ERRNO_def intro!: flow_data)

text \<open>What a run ends with: a position in the data; all of them and a usable parser, if nothing went wrong.\<close>

definition end_inv :: "string \<Rightarrow> nat \<Rightarrow> 'u scan \<Rightarrow> bool" where
  "end_inv data n s \<longleftrightarrow> n \<le> length data
     \<and> (hp_errno (sc_h s) = HPE_OK \<longrightarrow> state_inv 0 (sc_h s) \<and> (n = length data \<or> hp_upgrade (sc_h s)))"

lemma scan_loop_ok:
  "scan_inv 0 s \<Longrightarrow> flow_all (\<lambda>_. False) (\<lambda>_. False) (end_inv data) False (scan_loop st data s)"
proof (induction st data s rule: scan_loop.induct)
  case (1 st data s)
  show ?case
  proof (cases "sc_p s < length data")
    case True
    note k = keeps_pass [OF 1(2) True, of st] onward_pass [OF True, of st]
    show ?thesis
    proof (cases "loop_pass st data s")
      case (Next s1)
      then show ?thesis using 1(1) [OF True Next] k True by (subst scan_loop.simps) (simp add: flow_simps scan_inv_p)
    qed (use k True in \<open>subst scan_loop.simps, simp add: flow_simps end_inv_def done_inv_def\<close>)+
  next
    case False
    have "scan_loop st data s = finish_scan st data s" using False by (subst scan_loop.simps) simp
    then show ?thesis using finish_ok [OF 1(2), of data st] by (auto simp: flow_all_def end_inv_def split: flow.splits)
  qed
qed

lemma initial_inv: "hp_errno h = HPE_OK \<Longrightarrow> state_inv 0 h \<Longrightarrow> scan_inv 0 (initial_scan h u)"
  by (cases "hp_state h") (auto simp: initial_scan_def scan_inv_def marks_inv_def url_states_def)

lemma init_inv: "state_inv 0 (http_parser_init t)"
  by (cases t) (simp_all add: http_parser_init_def state_inv_def chunk_states_def)

lemma execute_returns:
  assumes "hp_errno h = HPE_OK" and "state_inv 0 h"
  shows "\<exists>n h1 u1. http_parser_execute st data h u = Some (n, h1, u1) \<and> n \<le> max 1 (length data)
     \<and> (hp_errno h1 = HPE_OK \<longrightarrow> state_inv 0 h1 \<and> (n = length data \<or> hp_upgrade h1))"
proof (cases "data = []")
  case True
  have e: "hp_errno (sc_h (initial_scan h u)) = HPE_OK" "sc_h (initial_scan h u) = h" "\<And>u1. sc_h (initial_scan h u\<lparr>sc_u := u1\<rparr>) = h"
    using assms(1) by (simp_all add: initial_scan_def)
  show ?thesis
    using True assms e by (auto simp: http_parser_execute_def CALLBACK_NOTIFY_def Let_def SET_ERRNO_def split: prod.splits)
next
  case False
  then show ?thesis
    using scan_loop_ok [OF initial_inv [OF assms], of data st u] assms(1)
    by (cases "scan_loop st data (initial_scan h u)") (auto simp: http_parser_execute_def flow_simps end_inv_def)
qed

text \<open>
  Property C2. A parser in a valid state never runs into one of its assertions, whatever the bytes are and whatever the
  callbacks answer: \<^verbatim>\<open>http_parser_execute\<close> returns, the count it returns lies in the data (or is 1 for no data), and a
  parser without an error is in a valid state again and has read all of the data, unless it was upgraded.
\<close>
theorem execute_total:
  assumes "hp_errno h = HPE_OK" and "state_inv 0 h"
  shows "\<exists>n h1 u1. http_parser_execute st data h u = Some (n, h1, u1) \<and> n \<le> max 1 (length data)
     \<and> (hp_errno h1 = HPE_OK \<longrightarrow> state_inv 0 h1 \<and> (n = length data \<or> hp_upgrade h1))"
  by (rule execute_returns [OF assms])

definition example_settings :: "string list settings" where
  "example_settings = \<lparr>on_message_begin = \<lambda>h u. (0, u), on_url = \<lambda>h b u. (0, b # u), on_status = \<lambda>h b u. (0, u),
     on_header_field = \<lambda>h b u. (0, b # u), on_header_value = \<lambda>h b u. (0, b # u), on_headers_complete = \<lambda>h u. (0, u),
     on_body = \<lambda>h b u. (0, u), on_message_complete = \<lambda>h u. (1, u), on_chunk_header = \<lambda>h u. (0, u), on_chunk_complete = \<lambda>h u. (0, u)\<rparr>"

theorem execute_total_witness:
  "\<exists>n h1 u1. http_parser_execute example_settings ''GET /a'' (http_parser_init HTTP_REQUEST) [] = Some (n, h1, u1) \<and> n \<le> max 1 (length ''GET /a'')
     \<and> (hp_errno h1 = HPE_OK \<longrightarrow> state_inv 0 h1 \<and> (n = length ''GET /a'' \<or> hp_upgrade h1))"
proof -
  have "hp_errno (http_parser_init HTTP_REQUEST) = HPE_OK" by (simp add: http_parser_init_def)
  from execute_total [OF this init_inv] show ?thesis .
qed

end
