(* ===== verification/HttpParser.thy ===== *)
theory HttpParser
  imports HttpInvariant
begin

text \<open>
  The parsers of \<^verbatim>\<open>src/hiper/http/http_parser.cc\<close>: the callbacks that build an \<open>http_request\<close> or \<open>http_response\<close> and
  the methods \<^verbatim>\<open>execute\<close>, over the machine of \<^theory_text>\<open>HttpMachine\<close> and the messages of \<^theory_text>\<open>Http\<close>.
\<close>

section \<open>Requests\<close>

text \<open>What the callbacks of a request parser change, and the parser object.\<close>

record request_sink =
  rk_data :: http_request
  rk_finished :: bool
  rk_field :: string

record request_parser =
  rp_parser :: hparser
  rp_sink :: request_sink
  rp_error :: int

definition new_HttpRequestParser :: request_parser where
  "new_HttpRequestParser = \<lparr>rp_parser = http_parser_init HTTP_REQUEST,
     rp_sink = \<lparr>rk_data = new_HttpRequest 0x11 True, rk_finished = False, rk_field = []\<rparr>, rp_error = 0\<rparr>"

definition set_data :: "(http_request \<Rightarrow> http_request) \<Rightarrow> request_sink \<Rightarrow> request_sink" where
  "set_data f k = k\<lparr>rk_data := f (rk_data k)\<rparr>"

definition version_of :: "hparser \<Rightarrow> u8" where
  "version_of h = push_bit 4 (of_nat (hp_major h)) OR of_nat (hp_minor h)"

definition on_request_headers_complete_cb :: "hparser \<Rightarrow> request_sink \<Rightarrow> int \<times> request_sink" where
  "on_request_headers_complete_cb h k = (0, set_data (\<lambda>r. r\<lparr>rq_method := hp_method h, rq_version := version_of h\<rparr>) k)"

definition on_request_message_complete_cb :: "hparser \<Rightarrow> request_sink \<Rightarrow> int \<times> request_sink" where
  "on_request_message_complete_cb h k = (0, k\<lparr>rk_finished := True\<rparr>)"

definition on_request_url_cb :: "hparser \<Rightarrow> string \<Rightarrow> request_sink \<Rightarrow> int \<times> request_sink" where
  "on_request_url_cb h buf k = (case http_parser_parse_url buf False of
     None \<Rightarrow> (1, k)
   | Some u \<Rightarrow>
       let k1 = (case url_text buf u UF_PATH of None \<Rightarrow> k | Some t \<Rightarrow> set_data (\<lambda>r. r\<lparr>rq_path := t\<rparr>) k);
           k2 = (case url_text buf u UF_QUERY of None \<Rightarrow> k1 | Some t \<Rightarrow> set_data (\<lambda>r. r\<lparr>rq_query := t\<rparr>) k1);
           k3 = (case url_text buf u UF_FRAGMENT of None \<Rightarrow> k2 | Some t \<Rightarrow> set_data (\<lambda>r. r\<lparr>rq_fragment := t\<rparr>) k2)
       in (0, k3))"

definition on_request_header_field_cb :: "hparser \<Rightarrow> string \<Rightarrow> request_sink \<Rightarrow> int \<times> request_sink" where
  "on_request_header_field_cb h buf k = (0, k\<lparr>rk_field := buf\<rparr>)"

definition on_request_header_value_cb :: "hparser \<Rightarrow> string \<Rightarrow> request_sink \<Rightarrow> int \<times> request_sink" where
  "on_request_header_value_cb h buf k = (0, set_data (setHeader (rk_field k) buf) k)"

definition on_request_body_cb :: "hparser \<Rightarrow> string \<Rightarrow> request_sink \<Rightarrow> int \<times> request_sink" where
  "on_request_body_cb h buf k = (0, set_data (\<lambda>r. r\<lparr>rq_body := rq_body r @ buf\<rparr>) k)"

definition request_settings :: "request_sink settings" where
  "request_settings = \<lparr>
     on_message_begin = (\<lambda>h k. (0, k)), on_url = on_request_url_cb, on_status = (\<lambda>h b k. (0, k)),
     on_header_field = on_request_header_field_cb, on_header_value = on_request_header_value_cb,
     on_headers_complete = on_request_headers_complete_cb, on_body = on_request_body_cb,
     on_message_complete = on_request_message_complete_cb, on_chunk_header = (\<lambda>h k. (0, k)), on_chunk_complete = (\<lambda>h k. (0, k))\<rparr>"

text \<open>The number of an error; \<^verbatim>\<open>int8_t\<close> holds all of them.\<close>

definition errno_list :: "http_errno list" where
  "errno_list = [HPE_OK, HPE_CB_message_begin, HPE_CB_url, HPE_CB_header_field, HPE_CB_header_value, HPE_CB_headers_complete,
     HPE_CB_body, HPE_CB_message_complete, HPE_CB_status, HPE_CB_chunk_header, HPE_CB_chunk_complete,
     HPE_INVALID_EOF_STATE, HPE_HEADER_OVERFLOW, HPE_CLOSED_CONNECTION, HPE_INVALID_VERSION, HPE_INVALID_STATUS,
     HPE_INVALID_METHOD, HPE_INVALID_URL, HPE_INVALID_HOST, HPE_INVALID_PORT, HPE_INVALID_PATH, HPE_INVALID_QUERY_STRING,
     HPE_INVALID_FRAGMENT, HPE_LF_EXPECTED, HPE_INVALID_HEADER_TOKEN, HPE_INVALID_CONTENT_LENGTH,
     HPE_UNEXPECTED_CONTENT_LENGTH, HPE_INVALID_CHUNK_SIZE, HPE_INVALID_CONSTANT, HPE_INVALID_INTERNAL_STATE,
     HPE_STRICT, HPE_PAUSED, HPE_UNKNOWN]"

definition errno_num :: "http_errno \<Rightarrow> int" where
  "errno_num e = int (length (takeWhile (\<lambda>x. x \<noteq> e) errno_list))"

text \<open>The memory after \<^verbatim>\<open>memmove\<close> of the rest to the front.\<close>

definition move_rest :: "nat \<Rightarrow> string \<Rightarrow> string" where
  "move_rest n data = (if n < length data then drop n data @ drop (length data - n) data else data)"

definition request_execute :: "string \<Rightarrow> request_parser \<Rightarrow> (nat \<times> string \<times> request_parser) option" where
  "request_execute data rp = (case http_parser_execute request_settings data (rp_parser rp) (rp_sink rp) of
     None \<Rightarrow> None
   | Some (offset, h, k) \<Rightarrow>
       let rp1 = rp\<lparr>rp_parser := h, rp_sink := k\<rparr> in
       if hp_upgrade h then Some (offset, data, rp1\<lparr>rp_error := errno_num HPE_UNKNOWN\<rparr>)
       else if hp_errno h \<noteq> HPE_OK then Some (offset, data, rp1\<lparr>rp_error := errno_num (hp_errno h)\<rparr>)
       else Some (offset, move_rest offset data, rp1))"

section \<open>Responses\<close>

record response_sink =
  sk_data :: http_response
  sk_finished :: bool
  sk_field :: string

record response_parser =
  sp_parser :: hparser
  sp_sink :: response_sink
  sp_error :: int

definition new_HttpResponseParser :: response_parser where
  "new_HttpResponseParser = \<lparr>sp_parser = http_parser_init HTTP_RESPONSE,
     sp_sink = \<lparr>sk_data = new_HttpResponse 0x11 True, sk_finished = False, sk_field = []\<rparr>, sp_error = 0\<rparr>"

definition set_response :: "(http_response \<Rightarrow> http_response) \<Rightarrow> response_sink \<Rightarrow> response_sink" where
  "set_response f k = k\<lparr>sk_data := f (sk_data k)\<rparr>"

definition on_response_headers_complete_cb :: "hparser \<Rightarrow> response_sink \<Rightarrow> int \<times> response_sink" where
  "on_response_headers_complete_cb h k = (0, set_response (\<lambda>r. r\<lparr>rs_version := version_of h, rs_status := hp_status h\<rparr>) k)"

definition on_response_message_complete_cb :: "hparser \<Rightarrow> response_sink \<Rightarrow> int \<times> response_sink" where
  "on_response_message_complete_cb h k = (0, k\<lparr>sk_finished := True\<rparr>)"

definition on_response_header_field_cb :: "hparser \<Rightarrow> string \<Rightarrow> response_sink \<Rightarrow> int \<times> response_sink" where
  "on_response_header_field_cb h buf k = (0, k\<lparr>sk_field := buf\<rparr>)"

definition on_response_header_value_cb :: "hparser \<Rightarrow> string \<Rightarrow> response_sink \<Rightarrow> int \<times> response_sink" where
  "on_response_header_value_cb h buf k = (0, set_response (setHeader_rsp (sk_field k) buf) k)"

definition on_response_status_cb :: "hparser \<Rightarrow> string \<Rightarrow> response_sink \<Rightarrow> int \<times> response_sink" where
  "on_response_status_cb h buf k = (0, set_response (\<lambda>r. r\<lparr>rs_status := hp_status h\<rparr>) k)"

definition on_response_body_cb :: "hparser \<Rightarrow> string \<Rightarrow> response_sink \<Rightarrow> int \<times> response_sink" where
  "on_response_body_cb h buf k = (0, set_response (\<lambda>r. r\<lparr>rs_body := rs_body r @ buf\<rparr>) k)"

definition response_settings :: "response_sink settings" where
  "response_settings = \<lparr>
     on_message_begin = (\<lambda>h k. (0, k)), on_url = (\<lambda>h b k. (0, k)), on_status = on_response_status_cb,
     on_header_field = on_response_header_field_cb, on_header_value = on_response_header_value_cb,
     on_headers_complete = on_response_headers_complete_cb, on_body = on_response_body_cb,
     on_message_complete = on_response_message_complete_cb, on_chunk_header = (\<lambda>h k. (0, k)), on_chunk_complete = (\<lambda>h k. (0, k))\<rparr>"

definition response_execute :: "string \<Rightarrow> response_parser \<Rightarrow> (nat \<times> string \<times> response_parser) option" where
  "response_execute data sp = (case http_parser_execute response_settings data (sp_parser sp) (sp_sink sp) of
     None \<Rightarrow> None
   | Some (nparsed, h, k) \<Rightarrow>
       let sp1 = sp\<lparr>sp_parser := h, sp_sink := k\<rparr> in
       if hp_errno h \<noteq> HPE_OK then Some (nparsed, data, sp1\<lparr>sp_error := errno_num (hp_errno h)\<rparr>)
       else Some (nparsed, move_rest nparsed data, sp1))"

end
