(* ===== verification/HttpLines.thy ===== *)
theory HttpLines
  imports HttpParser
begin

text \<open>
  How the parser reads a request line. \<^verbatim>\<open>http_parser_execute\<close> is followed one character at a time: \<open>step\<close> says that the
  loop at one place of the data arrives at another one, and \<open>walk\<close> that a state passes over a piece of text. The lemmas on
  the URL show that \<^verbatim>\<open>http_parser_parse_url\<close> cuts a URL with a path, a query and a fragment at the right places.
\<close>

section \<open>Running the machine on known text\<close>

text \<open>The text \<open>w\<close> stands in the data at \<open>p\<close>.\<close>

definition here :: "string \<Rightarrow> nat \<Rightarrow> string \<Rightarrow> bool" where
  "here data p w \<longleftrightarrow> take (length w) (drop p data) = w"

named_theorems text_here "what stands at a position of the data"

lemma here_Nil [text_here]: "here data p []"
  by (simp add: here_def)

lemma here_Cons [text_here]: "here data p (c # w) \<longleftrightarrow> p < length data \<and> data ! p = c \<and> here data (Suc p) w"
proof (cases "p < length data")
  case True
  then have "drop p data = data ! p # drop (Suc p) data" by (rule Cons_nth_drop_Suc [symmetric])
  then show ?thesis using True by (simp add: here_def)
qed (simp add: here_def)

lemma here_append [text_here]: "here data p (a @ b) \<longleftrightarrow> here data p a \<and> here data (p + length a) b"
  by (induction a arbitrary: p) (simp_all add: here_Nil here_Cons)

lemma here_le: "here data p w \<Longrightarrow> p \<le> length data \<Longrightarrow> p + length w \<le> length data"
proof (induction w arbitrary: p)
  case (Cons c w)
  then show ?case using Cons.IH [of "Suc p"] by (simp add: here_Cons)
qed simp

lemma here_self: "here data 0 data" by (simp add: here_def)

lemma here_take: "here data p w \<Longrightarrow> take (length w) (drop p data) = w"
  by (simp add: here_def)

text \<open>
  While the headers are parsed, the count of bytes is the position. \<open>cur\<close> is the machine before the byte at \<open>p\<close> is
  counted, \<open>mid\<close> behind the count.
\<close>

definition cur :: "nat \<Rightarrow> hparser \<Rightarrow> 'u \<Rightarrow> nat option \<Rightarrow> nat option \<Rightarrow> nat option \<Rightarrow> 'u scan" where
  "cur p h u f v l = \<lparr>sc_p = p, sc_h = h\<lparr>hp_nread := of_nat p\<rparr>, sc_u = u, sc_field = f, sc_value = v, sc_url = l, sc_body = None, sc_stat = None\<rparr>"

definition mid :: "nat \<Rightarrow> hparser \<Rightarrow> 'u \<Rightarrow> nat option \<Rightarrow> nat option \<Rightarrow> nat option \<Rightarrow> 'u scan" where
  "mid p h u f v l = \<lparr>sc_p = p, sc_h = h\<lparr>hp_nread := of_nat (Suc p)\<rparr>, sc_u = u, sc_field = f, sc_value = v, sc_url = l, sc_body = None, sc_stat = None\<rparr>"

lemma mid_fields:
  "sc_p (mid p h u f v l) = p" "hp_state (sc_h (mid p h u f v l)) = hp_state h" "hp_errno (sc_h (mid p h u f v l)) = hp_errno h"
  "hp_hstate (sc_h (mid p h u f v l)) = hp_hstate h" "hp_flags (sc_h (mid p h u f v l)) = hp_flags h"
  "hp_method (sc_h (mid p h u f v l)) = hp_method h" "hp_index (sc_h (mid p h u f v l)) = hp_index h"
  "sc_u (mid p h u f v l) = u" "sc_field (mid p h u f v l) = f" "sc_value (mid p h u f v l) = v" "sc_url (mid p h u f v l) = l"
  by (simp_all add: mid_def)

lemma mid_set:
  "UPDATE_STATE x (mid p h u f v l) = mid p (h\<lparr>hp_state := x\<rparr>) u f v l"
  "set_hstate y (mid p h u f v l) = mid p (h\<lparr>hp_hstate := y\<rparr>) u f v l"
  "set_index i (mid p h u f v l) = mid p (h\<lparr>hp_index := i\<rparr>) u f v l"
  "start_message (mid p h u f v l) = mid p (h\<lparr>hp_flags := {}, hp_clen := ULLONG_MAX\<rparr>) u f v l"
  "(mid p h u f v l)\<lparr>sc_u := u'\<rparr> = mid p h u' f v l"
  "(mid p h u f v l)\<lparr>sc_field := f'\<rparr> = mid p h u f' v l" "(mid p h u f v l)\<lparr>sc_value := f'\<rparr> = mid p h u f f' l"
  "(mid p h u f v l)\<lparr>sc_url := f'\<rparr> = mid p h u f v f'"
  by (simp_all add: mid_def setter_defs)

lemma mid_upd:
  "upd_h (\<lambda>h. h\<lparr>hp_method := m\<rparr>) (mid p h u f v l) = mid p (h\<lparr>hp_method := m\<rparr>) u f v l"
  "upd_h (\<lambda>h. h\<lparr>hp_method := m, hp_index := i\<rparr>) (mid p h u f v l) = mid p (h\<lparr>hp_method := m, hp_index := i\<rparr>) u f v l"
  "upd_h (\<lambda>h. h\<lparr>hp_major := n\<rparr>) (mid p h u f v l) = mid p (h\<lparr>hp_major := n\<rparr>) u f v l"
  "upd_h (\<lambda>h. h\<lparr>hp_minor := n\<rparr>) (mid p h u f v l) = mid p (h\<lparr>hp_minor := n\<rparr>) u f v l"
  by (simp_all add: mid_def)

lemma step:
  assumes "p < length data" and "Suc p \<le> max_header_size" and "PARSING_HEADER (hp_state h)"
    and "reexecute st data (mid p h u f v l) = Next (mid q h1 u1 f1 v1 l1)"
  shows "scan_loop st data (cur p h u f v l) = scan_loop st data (cur (Suc q) h1 u1 f1 v1 l1)"
proof -
  have m: "upd_h (\<lambda>h. h\<lparr>hp_nread := hp_nread h + of_nat 1\<rparr>) (cur p h u f v l) = mid p h u f v l"
    by (simp add: cur_def mid_def)
  have n: "unat (of_nat (Suc p) :: u32) = Suc p" using assms(2) by (simp only: unat_of_nat) (simp add: max_header_size_def)
  have c: "hp_state (sc_h (cur p h u f v l)) = hp_state h" "hp_nread (sc_h (mid p h u f v l)) = of_nat (Suc p)" by (simp_all add: cur_def mid_def)
  have "loop_pass st data (cur p h u f v l) = reexecute st data (mid p h u f v l)"
    using assms(2,3) by (simp only: loop_pass_def COUNT_HEADER_SIZE_def Let_def m n c if_True not_less [symmetric]) simp
  moreover have "(mid q h1 u1 f1 v1 l1)\<lparr>sc_p := Suc q\<rparr> = cur (Suc q) h1 u1 f1 v1 l1" by (simp add: mid_def cur_def)
  ultimately show ?thesis
    using assms(1,4) by (subst scan_loop.simps) (simp add: cur_def mid_def)
qed

lemma reexecute_next: "exec_state st data s = Next s1 \<Longrightarrow> reexecute st data s = Next s1"
  by (subst reexecute.simps) simp

lemma reexecute_redo: "exec_state st data s = Redo s1 \<Longrightarrow> reexecute st data s = reexecute st data s1"
  by (subst reexecute.simps) simp

lemmas one = step [OF _ _ _ reexecute_next]

section \<open>Methods\<close>

text \<open>The method that the letters \<open>w\<close> lead to from method \<open>m\<close> and index \<open>i\<close>.\<close>

fun walk :: "http_method \<Rightarrow> nat \<Rightarrow> string \<Rightarrow> http_method option" where
  "walk m i [] = Some m"
| "walk m i (c # cs) =
     (if c = CHR 0x00 \<or> c = CHR '' '' \<and> char_at (method_text m) i = CHR 0x00 then None
      else if c = char_at (method_text m) i then walk m (Suc i) cs
      else if 65 \<le> code c \<and> code c \<le> 90 \<or> c = CHR ''-''
      then (case other_method m i c of None \<Rightarrow> None | Some m1 \<Rightarrow> walk m1 (Suc i) cs)
      else None)"

definition recognised :: "http_method \<Rightarrow> bool" where
  "recognised m \<longleftrightarrow> (case method_text m of [] \<Rightarrow> False | c # cs \<Rightarrow>
     IS_ALPHA c \<and> (case first_method c of None \<Rightarrow> False | Some m0 \<Rightarrow> walk m0 1 cs = Some m))"

lemma all_recognised: "m \<noteq> INVALID_METHOD \<Longrightarrow> recognised m"
proof -
  assume "m \<noteq> INVALID_METHOD"
  then have "m \<in> set (map (fst \<circ> snd) method_table)" by (cases m) (simp_all add: method_table_def)
  moreover have "\<forall>m\<in>set (map (fst \<circ> snd) method_table). recognised m" by code_simp
  ultimately show ?thesis by blast
qed


lemma run_walk:
  assumes "walk m i w = Some m1" and "here data p w" and "p + length w \<le> max_header_size"
    and "hp_state h = s_req_method" and "hp_method h = m" and "hp_index h = i"
  shows "scan_loop st data (cur p h u f v l) = scan_loop st data (cur (p + length w) (h\<lparr>hp_method := m1, hp_index := i + length w\<rparr>) u f v l)"
  using assms
proof (induction w arbitrary: m i p h)
  case (Cons c cs)
  have c: "p < length data" "data ! p = c" "here data (Suc p) cs" using Cons.prems(2) by (simp_all add: here_Cons)
  let ?m2 = "if c = char_at (method_text m) i then m else the (other_method m i c)"
  let ?h2 = "h\<lparr>hp_method := ?m2, hp_index := Suc i\<rparr>"
  have w: "walk ?m2 (Suc i) cs = Some m1" using Cons.prems(1) by (auto split: if_splits option.splits)
  have "exec_state st data (mid p h u f v l) = st_method c (mid p h u f v l)"
    using Cons.prems(4) c by (simp add: exec_state_def mid_fields st_request_def)
  also have "\<dots> = Next (mid p ?h2 u f v l)"
  proof (cases "c = char_at (method_text m) i")
    case True
    have h: "h\<lparr>hp_method := m, hp_index := Suc i\<rparr> = h\<lparr>hp_index := Suc i\<rparr>" using Cons.prems(5) by (cases h) simp
    have n: "c \<noteq> CHR 0x00" "\<not> (c = CHR '' '' \<and> char_at (method_text m) i = CHR 0x00)" using Cons.prems(1) by (auto split: if_splits)
    show ?thesis using True n Cons.prems(5,6) h by (simp add: st_method_def Let_def mid_fields mid_set h)
  next
    case False
    then obtain m2 where o: "other_method m i c = Some m2" and n: "c \<noteq> CHR 0x00" "\<not> (c = CHR '' '' \<and> char_at (method_text m) i = CHR 0x00)"
        "65 \<le> code c \<and> code c \<le> 90 \<or> c = CHR ''-''"
      using Cons.prems(1) by (auto split: if_splits option.splits)
    show ?thesis using False n o Cons.prems(5,6) by (auto simp: st_method_def Let_def mid_fields mid_set mid_upd)
  qed
  finally have "scan_loop st data (cur p h u f v l) = scan_loop st data (cur (Suc p) ?h2 u f v l)"
    using Cons.prems(3,4) c(1) by (intro one) (simp_all add: PARSING_HEADER_def)
  then show ?case using Cons.IH [OF w c(3), of ?h2] Cons.prems(3,4) by simp
next
  case (Nil m i p h)
  have "h\<lparr>hp_method := m1, hp_index := i\<rparr> = h" using Nil by (cases h) simp
  then show ?case by simp
qed

section \<open>URLs\<close>

definition path_ok :: "string \<Rightarrow> bool" where "path_ok w \<longleftrightarrow> (\<exists>cs. w = CHR ''/'' # cs \<and> (\<forall>c\<in>set cs. IS_URL_CHAR c))"
definition query_ok :: "string \<Rightarrow> bool" where "query_ok w \<longleftrightarrow> (\<forall>c\<in>set w. IS_URL_CHAR c \<or> c = CHR ''?'')"
definition fragment_ok :: "string \<Rightarrow> bool" where
  "fragment_ok w \<longleftrightarrow> (\<forall>c\<in>set w. IS_URL_CHAR c \<or> c = CHR ''?'' \<or> c = CHR ''#'') \<and> (w \<noteq> [] \<longrightarrow> hd w \<noteq> CHR ''#'')"

definition url_of :: "string \<Rightarrow> string \<Rightarrow> string \<Rightarrow> string" where
  "url_of path query fragment = path @ (if query = [] then [] else CHR ''?'' # query) @ (if fragment = [] then [] else CHR ''#'' # fragment)"

lemma url_char_not: "IS_URL_CHAR c \<Longrightarrow> c \<notin> {CHR '' '', CR, LF, TAB, FF, CHR ''?'', CHR ''#''}"
proof -
  have "\<forall>c\<in>{CHR '' '', CR, LF, TAB, FF, CHR ''?'', CHR ''#''}. \<not> IS_URL_CHAR c" by code_simp
  then show "IS_URL_CHAR c \<Longrightarrow> ?thesis" by blast
qed

lemma mark_not: "c \<in> {CHR ''?'', CHR ''#'', CHR ''/''} \<Longrightarrow> c \<notin> {CHR '' '', CR, LF, TAB, FF}"
  by (auto simp: CR_def LF_def TAB_def FF_def)

lemma path_step: "IS_URL_CHAR c \<Longrightarrow> parse_url_char s_req_path c = s_req_path"
  using url_char_not [of c] by (simp add: parse_url_char_def)

lemma query_step:
  assumes "IS_URL_CHAR c \<or> c = CHR ''?''"
  shows "parse_url_char s_req_query_string_start c = s_req_query_string" "parse_url_char s_req_query_string c = s_req_query_string"
proof -
  have "c \<noteq> CHR '' ''" "c \<noteq> CR" "c \<noteq> LF" "c \<noteq> TAB" "c \<noteq> FF" using assms url_char_not [of c] mark_not [of c] by auto
  then show "parse_url_char s_req_query_string_start c = s_req_query_string" "parse_url_char s_req_query_string c = s_req_query_string"
    using assms by (simp_all add: parse_url_char_def)
qed

lemma fragment_step:
  assumes "IS_URL_CHAR c \<or> c = CHR ''?'' \<or> c = CHR ''#''"
  shows "parse_url_char s_req_fragment c = s_req_fragment" "c \<noteq> CHR ''#'' \<Longrightarrow> parse_url_char s_req_fragment_start c = s_req_fragment"
proof -
  have "c \<noteq> CHR '' ''" "c \<noteq> CR" "c \<noteq> LF" "c \<noteq> TAB" "c \<noteq> FF" using assms url_char_not [of c] mark_not [of c] by auto
  then show "parse_url_char s_req_fragment c = s_req_fragment" "c \<noteq> CHR ''#'' \<Longrightarrow> parse_url_char s_req_fragment_start c = s_req_fragment"
    using assms by (auto simp: parse_url_char_def)
qed

declare url_loop.simps [simp del]

lemma separators:
  "parse_url_char s_req_path (CHR ''?'') = s_req_query_string_start" "parse_url_char s_req_path (CHR ''#'') = s_req_fragment_start"
  "parse_url_char s_req_query_string (CHR ''#'') = s_req_fragment_start" "parse_url_char s_req_spaces_before_url (CHR ''/'') = s_req_path"
  by code_simp+

text \<open>A run of characters of one field makes its length grow.\<close>

definition grow :: "nat \<Rightarrow> url_field \<Rightarrow> url_fields \<Rightarrow> url_fields" where
  "grow n uf f = (case f uf of None \<Rightarrow> f | Some (off, len) \<Rightarrow> f(uf \<mapsto> (off, len + of_nat n)))"

lemma grow_longer: "grow n uf (longer uf f) = grow (Suc n) uf f"
  by (simp add: grow_def longer_def add.assoc split: option.splits prod.splits)

lemma grow_0: "grow 0 uf f = f"
  by (auto simp: grow_def split: option.splits prod.splits)

lemma url_run:
  assumes "\<And>c. c \<in> set w \<Longrightarrow> parse_url_char v c = v" and "field_of v = Some uf" and "v \<noteq> s_req_server_with_at"
  shows "url_loop (w @ rest) p v (Some uf) b f = url_loop rest (p + length w) v (Some uf) b (grow (length w) uf f)"
  using assms(1)
proof (induction w arbitrary: p f)
  case (Cons c w)
  have "v \<noteq> s_dead" "v \<notin> {s_req_schema_slash, s_req_schema_slash_slash, s_req_server_start, s_req_query_string_start, s_req_fragment_start}"
    using assms(2) by auto
  then show ?case using Cons assms(2,3) by (simp add: grow_longer Let_def url_loop.simps)
qed (simp add: grow_0)

lemma url_path:
  assumes "path_ok w"
  shows "url_loop (w @ rest) 0 s_req_spaces_before_url None False (\<lambda>_. None)
     = url_loop rest (length w) s_req_path (Some UF_PATH) False ((\<lambda>_. None)(UF_PATH \<mapsto> (0, of_nat (length w))))"
proof -
  obtain cs where w: "w = CHR ''/'' # cs" "\<forall>c\<in>set cs. IS_URL_CHAR c" using assms by (auto simp: path_ok_def)
  have "url_loop (w @ rest) 0 s_req_spaces_before_url None False (\<lambda>_. None)
      = url_loop (cs @ rest) 1 s_req_path (Some UF_PATH) False (starts UF_PATH 0 (\<lambda>_. None))"
    by (simp add: w(1) Let_def separators url_loop.simps(2))
  also have "\<dots> = url_loop rest (1 + length cs) s_req_path (Some UF_PATH) False (grow (length cs) UF_PATH (starts UF_PATH 0 (\<lambda>_. None)))"
    by (rule url_run) (use w(2) path_step in auto)
  also have "grow (length cs) UF_PATH (starts UF_PATH 0 (\<lambda>_. None)) = (\<lambda>_. None)(UF_PATH \<mapsto> (0, of_nat (length w)))"
    by (simp add: grow_def starts_def w(1))
  finally show ?thesis by (simp add: w(1) fun_upd_def)
qed

lemma url_query:
  assumes "query_ok w" and "w \<noteq> []" and "f UF_QUERY = None"
  shows "url_loop (CHR ''?'' # w @ rest) p s_req_path (Some UF_PATH) b f
     = url_loop rest (p + Suc (length w)) s_req_query_string (Some UF_QUERY) b (f(UF_QUERY \<mapsto> (of_nat (Suc p), of_nat (length w))))"
proof -
  obtain c cs where w: "w = c # cs" using assms(2) by (cases w) auto
  have c: "parse_url_char s_req_query_string_start c = s_req_query_string" and cs: "\<And>c. c \<in> set cs \<Longrightarrow> parse_url_char s_req_query_string c = s_req_query_string"
    using assms(1) w query_step by (auto simp: query_ok_def)
  have "url_loop (CHR ''?'' # w @ rest) p s_req_path (Some UF_PATH) b f
      = url_loop (cs @ rest) (Suc (Suc p)) s_req_query_string (Some UF_QUERY) b (starts UF_QUERY (Suc p) f)"
    by (simp add: w separators c Let_def url_loop.simps(2))
  also have "\<dots> = url_loop rest (Suc (Suc p) + length cs) s_req_query_string (Some UF_QUERY) b (grow (length cs) UF_QUERY (starts UF_QUERY (Suc p) f))"
    by (rule url_run) (use cs in auto)
  also have "grow (length cs) UF_QUERY (starts UF_QUERY (Suc p) f) = f(UF_QUERY \<mapsto> (of_nat (Suc p), of_nat (length w)))"
    by (simp add: grow_def starts_def w)
  finally show ?thesis by (simp add: w fun_upd_def)
qed

lemma url_fragment:
  assumes "fragment_ok w" and "w \<noteq> []" and "v \<in> {s_req_path, s_req_query_string}" and "old \<noteq> Some UF_FRAGMENT"
  shows "url_loop (CHR ''#'' # w) p v old b f = Some (b, f(UF_FRAGMENT \<mapsto> (of_nat (Suc p), of_nat (length w))))"
proof -
  obtain c cs where w: "w = c # cs" using assms(2) by (cases w) auto
  have c: "parse_url_char s_req_fragment_start c = s_req_fragment" and cs: "\<And>c. c \<in> set cs \<Longrightarrow> parse_url_char s_req_fragment c = s_req_fragment"
    using assms(1) w fragment_step by (auto simp: fragment_ok_def)
  have v: "parse_url_char v (CHR ''#'') = s_req_fragment_start" using assms(3) separators by auto
  have "url_loop (CHR ''#'' # w) p v old b f = url_loop (cs @ []) (Suc (Suc p)) s_req_fragment (Some UF_FRAGMENT) b (starts UF_FRAGMENT (Suc p) f)"
    using assms(4) by (simp add: w v c Let_def url_loop.simps(2))
  also have "\<dots> = url_loop [] (Suc (Suc p) + length cs) s_req_fragment (Some UF_FRAGMENT) b (grow (length cs) UF_FRAGMENT (starts UF_FRAGMENT (Suc p) f))"
    by (rule url_run) (use cs in auto)
  also have "grow (length cs) UF_FRAGMENT (starts UF_FRAGMENT (Suc p) f) = f(UF_FRAGMENT \<mapsto> (of_nat (Suc p), of_nat (length w)))"
    by (simp add: grow_def starts_def w)
  finally show ?thesis by (simp add: url_loop.simps(1) fun_upd_def)
qed

definition url_parts :: "string \<Rightarrow> string \<Rightarrow> string \<Rightarrow> url_fields" where
  "url_parts path query fragment =
     (let q = length path; f = q + (if query = [] then 0 else Suc (length query)) in
      (\<lambda>uf. case uf of
         UF_PATH \<Rightarrow> Some (0, of_nat (length path))
       | UF_QUERY \<Rightarrow> if query = [] then None else Some (of_nat (Suc q), of_nat (length query))
       | UF_FRAGMENT \<Rightarrow> if fragment = [] then None else Some (of_nat (Suc f), of_nat (length fragment))
       | _ \<Rightarrow> None))"

lemma parse_url:
  assumes "path_ok path" and "query_ok query" and "fragment_ok fragment"
  shows "http_parser_parse_url (url_of path query fragment) False = Some \<lparr>url_fields = url_parts path query fragment, url_port = 0\<rparr>"
proof -
  define f0 where "f0 = (\<lambda>_. None)(UF_PATH \<mapsto> (0 :: u16, of_nat (length path) :: u16))"
  have l: "url_loop (url_of path query fragment) 0 s_req_spaces_before_url None False (\<lambda>_. None)
      = Some (False, url_parts path query fragment)"
  proof -
    have e: "url_loop (url_of path query fragment) 0 s_req_spaces_before_url None False (\<lambda>_. None)
      = url_loop ((if query = [] then [] else CHR ''?'' # query) @ (if fragment = [] then [] else CHR ''#'' # fragment))
          (length path) s_req_path (Some UF_PATH) False f0"
      unfolding url_of_def f0_def by (rule url_path [OF assms(1)])
    have q: "url_loop (CHR ''?'' # query @ rest) (length path) s_req_path (Some UF_PATH) False f0
      = url_loop rest (length path + Suc (length query)) s_req_query_string (Some UF_QUERY) False
          (f0(UF_QUERY \<mapsto> (of_nat (Suc (length path)), of_nat (length query))))" if "query \<noteq> []" for rest
      by (rule url_query [OF assms(2) that]) (simp add: f0_def)
    have r: "url_loop (CHR ''#'' # fragment) p v old False f = Some (False, f(UF_FRAGMENT \<mapsto> (of_nat (Suc p), of_nat (length fragment))))"
      if "fragment \<noteq> []" "v \<in> {s_req_path, s_req_query_string}" "old \<noteq> Some UF_FRAGMENT" for p v old f
      by (rule url_fragment [OF assms(3) that])
    show ?thesis
      unfolding e using q [of "[]"] q [of "CHR ''#'' # fragment"] r
      by (auto simp: url_loop.simps(1) url_parts_def f0_def Let_def fun_eq_iff split: url_field.splits)
  qed
  have "url_of path query fragment \<noteq> []" using assms(1) by (auto simp: path_ok_def url_of_def)
  then show ?thesis by (simp add: http_parser_parse_url_def l) (simp add: url_parts_def Let_def)
qed

lemma drop_take_mid: "take (length b) (drop (length a) (a @ b @ c)) = b"
  by simp

lemma url_cb:
  assumes "path_ok path" and "query_ok query" and "fragment_ok fragment" and "length (url_of path query fragment) < 65536"
    and "rq_query (rk_data k) = []" and "rq_fragment (rk_data k) = []"
  shows "on_request_url_cb h (url_of path query fragment) k
     = (0, set_data (\<lambda>r. r\<lparr>rq_path := path, rq_query := query, rq_fragment := fragment\<rparr>) k)"
proof -
  let ?u = "\<lparr>url_fields = url_parts path query fragment, url_port = 0\<rparr>"
  have n: "unat (of_nat n :: u16) = n" if "n \<le> length (url_of path query fragment)" for n
    using that assms(4) by (simp add: unat_of_nat)
  have l: "length path \<le> length (url_of path query fragment)"
      "query \<noteq> [] \<Longrightarrow> Suc (length path) + length query \<le> length (url_of path query fragment)"
      "fragment \<noteq> [] \<Longrightarrow> Suc (length path + (if query = [] then 0 else Suc (length query))) + length fragment = length (url_of path query fragment)"
    by (auto simp: url_of_def)
  have t: "url_text (url_of path query fragment) ?u UF_PATH = Some path"
    using n [OF l(1)] by (simp add: url_text_def url_parts_def Let_def) (simp add: url_of_def)
  have q: "url_text (url_of path query fragment) ?u UF_QUERY = (if query = [] then None else Some query)"
  proof (cases "query = []")
    case False
    then have "unat (of_nat (Suc (length path)) :: u16) = Suc (length path)" "unat (of_nat (length query) :: u16) = length query"
      using l(2) n by (simp_all del: of_nat_Suc)
    then show ?thesis using False by (simp add: url_text_def url_parts_def Let_def del: of_nat_Suc) (simp add: url_of_def)
  qed (simp add: url_text_def url_parts_def Let_def)
  have f: "url_text (url_of path query fragment) ?u UF_FRAGMENT = (if fragment = [] then None else Some fragment)"
  proof (cases "fragment = []")
    case False
    let ?o = "Suc (length path + (if query = [] then 0 else Suc (length query)))"
    have "unat (of_nat ?o :: u16) = ?o" "unat (of_nat (length fragment) :: u16) = length fragment"
      using l(3) [OF False] by (intro n, simp)+
    then show ?thesis using False by (simp add: url_text_def url_parts_def Let_def del: of_nat_Suc) (simp add: url_of_def)
  qed (simp add: url_text_def url_parts_def Let_def)
  show ?thesis
    using assms(5,6) by (simp add: on_request_url_cb_def parse_url [OF assms(1-3)] t q f Let_def set_data_def)
qed

section \<open>The request line\<close>

definition url_live :: "pstate set" where
  "url_live = {s_req_path, s_req_query_string_start, s_req_query_string, s_req_fragment_start, s_req_fragment}"

fun live :: "pstate \<Rightarrow> string \<Rightarrow> bool" where
  "live v [] = True"
| "live v (c # w) = (parse_url_char v c \<in> url_live \<and> live (parse_url_char v c) w)"

lemma live_append: "live v (a @ b) \<longleftrightarrow> live v a \<and> live (foldl parse_url_char v a) b"
  by (induction a arbitrary: v) simp_all

lemma live_run: "(\<And>c. c \<in> set a \<Longrightarrow> parse_url_char v c = v) \<Longrightarrow> v \<in> url_live \<Longrightarrow> live v a \<and> foldl parse_url_char v a = v"
  by (induction a) auto

lemma url_chars:
  assumes "here data p w" and "p + length w \<le> max_header_size" and "hp_state h \<in> url_live"
    and "live (hp_state h) w"
  shows "scan_loop st data (cur p h u f v l) = scan_loop st data (cur (p + length w) (h\<lparr>hp_state := foldl parse_url_char (hp_state h) w\<rparr>) u f v l)"
  using assms
proof (induction w arbitrary: p h)
  case (Cons c w)
  have p: "p < length data" "data ! p = c" "here data (Suc p) w" using Cons.prems(1) by (simp_all add: here_Cons)
  let ?v = "parse_url_char (hp_state h) c"
  have live: "?v \<in> url_live" using Cons.prems(4) by simp
  then have "?v \<noteq> s_dead" by (auto simp: url_live_def)
  moreover have "c \<noteq> CHR '' ''" "\<not> is_eol c" using live by (auto simp: parse_url_char_def url_live_def is_eol_def)
  ultimately have "st_url st data c (mid p h u f v l) = Next (mid p (h\<lparr>hp_state := ?v\<rparr>) u f v l)"
    by (simp add: st_url_def url_step_def mid_fields mid_set Let_def)
  then have e: "exec_state st data (mid p h u f v l) = Next (mid p (h\<lparr>hp_state := ?v\<rparr>) u f v l)"
    using Cons.prems(3) p(2) by (auto simp: exec_state_def mid_fields st_request_def url_live_def)
  have "PARSING_HEADER (hp_state h)" using Cons.prems(3) by (auto simp: url_live_def PARSING_HEADER_def)
  then have s: "scan_loop st data (cur p h u f v l) = scan_loop st data (cur (Suc p) (h\<lparr>hp_state := ?v\<rparr>) u f v l)"
    using Cons.prems(2) by (intro one [OF p(1) _ _ e]) simp_all
  show ?case using Cons.IH [OF p(3), of "h\<lparr>hp_state := ?v\<rparr>"] s Cons.prems(2,4) live by simp
qed simp

lemma url_states_live:
  assumes "path_ok path" and "query_ok query" and "fragment_ok fragment" and "url_of path query fragment = CHR ''/'' # w"
  shows "live s_req_path w"
proof -
  obtain cs where p: "path = CHR ''/'' # cs" "\<forall>c\<in>set cs. IS_URL_CHAR c" using assms(1) by (auto simp: path_ok_def)
  have P: "live s_req_path cs \<and> foldl parse_url_char s_req_path cs = s_req_path"
    by (rule live_run) (use p path_step in \<open>auto simp: url_live_def\<close>)
  have Q: "live s_req_path (CHR ''?'' # query) \<and> foldl parse_url_char s_req_path (CHR ''?'' # query) = s_req_query_string" if ne: "query \<noteq> []"
  proof -
    obtain d ds where q: "query = d # ds" using ne by (cases query) auto
    have "live s_req_query_string ds \<and> foldl parse_url_char s_req_query_string ds = s_req_query_string"
      by (rule live_run) (use assms(2) q query_step in \<open>auto simp: url_live_def query_ok_def\<close>)
    then show ?thesis using assms(2) q query_step by (auto simp: separators url_live_def query_ok_def)
  qed
  have F: "live v (CHR ''#'' # fragment)" if ne: "fragment \<noteq> []" and v: "v \<in> {s_req_path, s_req_query_string}" for v
  proof -
    obtain d ds where q: "fragment = d # ds" using ne by (cases fragment) auto
    have "live s_req_fragment ds \<and> foldl parse_url_char s_req_fragment ds = s_req_fragment"
      by (rule live_run) (use assms(3) q fragment_step in \<open>auto simp: url_live_def fragment_ok_def\<close>)
    moreover have "parse_url_char s_req_fragment_start d = s_req_fragment" using assms(3) q fragment_step by (auto simp: fragment_ok_def)
    moreover have "parse_url_char v (CHR ''#'') = s_req_fragment_start" using v separators by auto
    ultimately show ?thesis using q by simp (simp add: url_live_def)
  qed
  have w: "w = cs @ (if query = [] then [] else CHR ''?'' # query) @ (if fragment = [] then [] else CHR ''#'' # fragment)"
    using assms(4) p(1) by (simp add: url_of_def)
  show ?thesis unfolding w live_append using P Q F by (cases "query = []"; cases "fragment = []") simp_all
qed

lemma live_end: "live v w \<Longrightarrow> v \<in> url_live \<Longrightarrow> foldl parse_url_char v w \<in> url_live"
  by (induction w arbitrary: v) simp_all

text \<open>The states of the request line in which one character is expected.\<close>

definition letters :: "(pstate \<times> char \<times> pstate) set" where
  "letters = {(s_req_http_start, CHR ''H'', s_req_http_H), (s_req_http_H, CHR ''T'', s_req_http_HT), (s_req_http_HT, CHR ''T'', s_req_http_HTT),
     (s_req_http_HTT, CHR ''P'', s_req_http_HTTP), (s_req_http_HTTP, CHR ''/'', s_req_http_major), (s_req_http_dot, CHR ''.'', s_req_http_minor),
     (s_req_http_end, CR, s_req_line_almost_done), (s_req_line_almost_done, LF, s_header_field_start)}"

lemma letter:
  assumes "p < length data" and "Suc p \<le> max_header_size" and "(hp_state h, data ! p, v1) \<in> letters"
  shows "scan_loop st data (cur p h u f v l) = scan_loop st data (cur (Suc p) (h\<lparr>hp_state := v1\<rparr>) u f v l)"
proof (rule one [OF assms(1,2)])
  show "PARSING_HEADER (hp_state h)" using assms(3) by (auto simp: letters_def PARSING_HEADER_def)
  show "exec_state st data (mid p h u f v l) = Next (mid p (h\<lparr>hp_state := v1\<rparr>) u f v l)"
    using assms(3) by (auto simp: CR_def LF_def letters_def exec_state_def Let_def mid_fields st_request_def expect_def mid_set)
qed

lemma version_digit:
  assumes "p < length data" and "Suc p \<le> max_header_size" and "data ! p = dec_digit n" and "n < 10"
  shows "hp_state h = s_req_http_major \<Longrightarrow> scan_loop st data (cur p h u f v l) = scan_loop st data (cur (Suc p) (h\<lparr>hp_major := n, hp_state := s_req_http_dot\<rparr>) u f v l)"
    and "hp_state h = s_req_http_minor \<Longrightarrow> scan_loop st data (cur p h u f v l) = scan_loop st data (cur (Suc p) (h\<lparr>hp_minor := n, hp_state := s_req_http_end\<rparr>) u f v l)"
proof -
  have d: "IS_NUM (dec_digit n)" "digit (dec_digit n) = n" using assms(4) by (simp_all add: IS_NUM_def digit_def dec_digit_def)
  show "scan_loop st data (cur p h u f v l) = scan_loop st data (cur (Suc p) (h\<lparr>hp_major := n, hp_state := s_req_http_dot\<rparr>) u f v l)"
    if s: "hp_state h = s_req_http_major"
    by (rule one [OF assms(1,2)]) (simp_all add: s d assms(3) PARSING_HEADER_def exec_state_def mid_fields st_request_def mid_upd mid_set)
  show "scan_loop st data (cur p h u f v l) = scan_loop st data (cur (Suc p) (h\<lparr>hp_minor := n, hp_state := s_req_http_end\<rparr>) u f v l)"
    if s: "hp_state h = s_req_http_minor"
    by (rule one [OF assms(1,2)]) (simp_all add: s d assms(3) PARSING_HEADER_def exec_state_def mid_fields st_request_def mid_upd mid_set)
qed

definition version_line :: "nat \<Rightarrow> nat \<Rightarrow> string" where
  "version_line major minor = ''HTTP/'' @ [dec_digit major, CHR ''.'', dec_digit minor, CR, LF]"

lemma run_version:
  assumes "here data p (version_line major minor)" and "p + 10 \<le> max_header_size" and "major < 10" and "minor < 10"
    and "hp_state h = s_req_http_start"
  shows "scan_loop st data (cur p h u f v l)
     = scan_loop st data (cur (p + 10) (h\<lparr>hp_major := major, hp_minor := minor, hp_state := s_header_field_start\<rparr>) u f v l)"
proof -
  have d: "p + i < length data" "data ! (p + i) = version_line major minor ! i" if "i < 10" for i
  proof -
    have i: "i < length (version_line major minor)" using that by (simp add: version_line_def)
    have "take (length (version_line major minor)) (drop p data) = version_line major minor" using assms(1) by (rule here_take)
    then have e: "take (length (version_line major minor)) (drop p data) ! i = version_line major minor ! i"
      and l: "length (take (length (version_line major minor)) (drop p data)) = length (version_line major minor)" by simp_all
    show a: "p + i < length data" using l i by simp
    show "data ! (p + i) = version_line major minor ! i" using e i a by simp
  qed
  define S where "S q h = scan_loop st data (cur q h u f v l)" for q h
  have let1: "S (p + i) h1 = S (p + Suc i) (h1\<lparr>hp_state := v1\<rparr>)" if "i < 10" "(hp_state h1, version_line major minor ! i, v1) \<in> letters" for i h1 v1
    unfolding S_def using letter [OF d(1) [OF that(1)], of h1 v1] that d(2) [OF that(1)] assms(2) by simp
  have "S p h = S (p + 1) (h\<lparr>hp_state := s_req_http_H\<rparr>)"
    using let1 [of 0 h s_req_http_H] assms(5) by (simp add: letters_def version_line_def)
  also have "\<dots> = S (p + 2) (h\<lparr>hp_state := s_req_http_HT\<rparr>)"
    using let1 [of 1 "h\<lparr>hp_state := s_req_http_H\<rparr>" s_req_http_HT] by (simp add: letters_def version_line_def)
  also have "\<dots> = S (p + 3) (h\<lparr>hp_state := s_req_http_HTT\<rparr>)"
    using let1 [of 2 "h\<lparr>hp_state := s_req_http_HT\<rparr>" s_req_http_HTT] by (simp add: letters_def version_line_def)
  also have "\<dots> = S (p + 4) (h\<lparr>hp_state := s_req_http_HTTP\<rparr>)"
    using let1 [of 3 "h\<lparr>hp_state := s_req_http_HTT\<rparr>" s_req_http_HTTP] by (simp add: letters_def version_line_def)
  also have "\<dots> = S (p + 5) (h\<lparr>hp_state := s_req_http_major\<rparr>)"
    using let1 [of 4 "h\<lparr>hp_state := s_req_http_HTTP\<rparr>" s_req_http_major] by (simp add: letters_def version_line_def)
  also have "\<dots> = S (p + 6) (h\<lparr>hp_major := major, hp_state := s_req_http_dot\<rparr>)"
    unfolding S_def using version_digit(1) [OF d(1) [of 5], of major "h\<lparr>hp_state := s_req_http_major\<rparr>"] d(2) [of 5] assms(2,3)
    by (simp add: version_line_def add.commute)
  also have "\<dots> = S (p + 7) (h\<lparr>hp_major := major, hp_state := s_req_http_minor\<rparr>)"
    using let1 [of 6 "h\<lparr>hp_major := major, hp_state := s_req_http_dot\<rparr>" s_req_http_minor] by (simp add: letters_def version_line_def)
  also have "\<dots> = S (p + 8) (h\<lparr>hp_major := major, hp_minor := minor, hp_state := s_req_http_end\<rparr>)"
    unfolding S_def using version_digit(2) [OF d(1) [of 7], of minor "h\<lparr>hp_major := major, hp_state := s_req_http_minor\<rparr>"] d(2) [of 7] assms(2,4)
    by (simp add: version_line_def add.commute)
  also have "\<dots> = S (p + 9) (h\<lparr>hp_major := major, hp_minor := minor, hp_state := s_req_line_almost_done\<rparr>)"
    using let1 [of 8 "h\<lparr>hp_major := major, hp_minor := minor, hp_state := s_req_http_end\<rparr>" s_req_line_almost_done] by (simp add: letters_def version_line_def)
  also have "\<dots> = S (p + 10) (h\<lparr>hp_major := major, hp_minor := minor, hp_state := s_header_field_start\<rparr>)"
    using let1 [of 9 "h\<lparr>hp_major := major, hp_minor := minor, hp_state := s_req_line_almost_done\<rparr>" s_header_field_start] by (simp add: letters_def version_line_def)
  finally show ?thesis by (simp add: S_def)
qed

definition request_line :: "http_method \<Rightarrow> string \<Rightarrow> string \<Rightarrow> string \<Rightarrow> nat \<Rightarrow> nat \<Rightarrow> string" where
  "request_line m path query fragment major minor = method_text m @ '' '' @ url_of path query fragment @ '' '' @ version_line major minor"

definition line_parser :: "http_method \<Rightarrow> nat \<Rightarrow> nat \<Rightarrow> nat \<Rightarrow> hparser" where
  "line_parser m i major minor = (http_parser_init HTTP_REQUEST)\<lparr>hp_flags := {}, hp_clen := ULLONG_MAX, hp_method := m, hp_index := i,
     hp_major := major, hp_minor := minor, hp_state := s_header_field_start\<rparr>"

lemma run_method:
  assumes "m \<noteq> INVALID_METHOD" and "here data 0 (method_text m @ '' '')" and "length (method_text m) < max_header_size"
    and "on_message_begin st = (\<lambda>h k. (0, k))"
  shows "\<exists>i. scan_loop st data (cur 0 (http_parser_init HTTP_REQUEST) u None None None)
    = scan_loop st data (cur (Suc (length (method_text m)))
        ((http_parser_init HTTP_REQUEST)\<lparr>hp_flags := {}, hp_clen := ULLONG_MAX, hp_method := m, hp_index := i, hp_state := s_req_spaces_before_url\<rparr>) u None None None)"
proof -
  obtain c cs m0 where w: "method_text m = c # cs" "IS_ALPHA c" "first_method c = Some m0" "walk m0 1 cs = Some m"
    using all_recognised [OF assms(1)] by (auto simp: recognised_def split: list.splits option.splits)
  have p: "0 < length data" "data ! 0 = c" "here data 1 (cs @ '' '')" using assms(2) by (simp_all add: w(1) here_Cons)
  have b: "length cs + 2 \<le> max_header_size" using assms(3) by (simp add: w(1))
  define h0 where "h0 = http_parser_init HTTP_REQUEST"
  have h0: "hp_state h0 = s_start_req" "hp_errno h0 = HPE_OK" by (simp_all add: h0_def http_parser_init_def)
  define h1 where "h1 = h0\<lparr>hp_flags := {}, hp_clen := ULLONG_MAX, hp_method := m0, hp_index := 1, hp_state := s_req_method\<rparr>"
  have "\<not> is_eol c" using w(2) by (auto simp: is_eol_def CR_def LF_def IS_ALPHA_def LOWER_def)
  then have "exec_state st data (mid 0 h0 u None None None) = Next (mid 0 h1 u None None None)"
    using p(2) w(2,3) assms(4) h0
    by (simp add: exec_state_def mid_fields st_request_def Let_def mid_set mid_upd CALLBACK_NOTIFY_def h1_def)
  then have 1: "scan_loop st data (cur 0 h0 u None None None) = scan_loop st data (cur 1 h1 u None None None)"
    using one [OF p(1), of h0] h0 b by (simp add: PARSING_HEADER_def)
  have "here data 1 cs" using p(3) by (simp add: here_append)
  from run_walk [OF w(4) this, of h1 st u None None None]
  have 2: "scan_loop st data (cur 1 h1 u None None None) = scan_loop st data (cur (1 + length cs) (h1\<lparr>hp_method := m, hp_index := 1 + length cs\<rparr>) u None None None)"
    using b by (simp add: h1_def)
  have s: "1 + length cs < length data" "data ! (1 + length cs) = CHR '' ''" using p(3) by (simp_all add: here_append here_Cons)
  have "char_at (method_text m) (Suc (length cs)) = CHR 0x00" by (simp add: char_at_def w(1))
  then have 3: "scan_loop st data (cur (1 + length cs) (h1\<lparr>hp_method := m, hp_index := 1 + length cs\<rparr>) u None None None)
    = scan_loop st data (cur (Suc (1 + length cs)) (h1\<lparr>hp_method := m, hp_index := Suc (Suc (length cs)), hp_state := s_req_spaces_before_url\<rparr>) u None None None)"
    using s b by (intro one) (simp_all add: h1_def PARSING_HEADER_def exec_state_def mid_fields st_request_def st_method_def Let_def mid_set,
        cases h0, simp)
  show ?thesis
    using 1 2 3 by (intro exI [of _ "Suc (Suc (length cs))"]) (simp add: w(1) h0_def [symmetric] h1_def)
qed

lemma run_request_line:
  assumes "m \<noteq> INVALID_METHOD" "m \<noteq> CONNECT" and "path_ok path" "query_ok query" "fragment_ok fragment"
    and "major < 10" "minor < 10" and "here data 0 (request_line m path query fragment major minor)"
    and "length (request_line m path query fragment major minor) \<le> max_header_size" and "length (url_of path query fragment) < 65536"
    and "rq_query (rk_data k) = []" "rq_fragment (rk_data k) = []"
  shows "\<exists>i. scan_loop request_settings data (cur 0 (http_parser_init HTTP_REQUEST) k None None None)
    = scan_loop request_settings data (cur (length (request_line m path query fragment major minor)) (line_parser m i major minor)
        (set_data (\<lambda>r. r\<lparr>rq_path := path, rq_query := query, rq_fragment := fragment\<rparr>) k) None None None)"
proof -
  let ?url = "url_of path query fragment" and ?n = "length (method_text m)"
  let ?R = "\<lambda>s. scan_loop request_settings data s"
  have len: "length (request_line m path query fragment major minor) = ?n + length ?url + 12"
    by (simp add: request_line_def version_line_def)
  have H: "here data 0 (method_text m @ '' '')" "here data (Suc ?n) ?url" "data ! (Suc ?n + length ?url) = CHR '' ''"
      "Suc ?n + length ?url < length data" "here data (Suc (Suc ?n) + length ?url) (version_line major minor)"
    using assms(8) by (simp_all add: request_line_def text_here)
  obtain w where w: "?url = CHR ''/'' # w" using assms(3) by (auto simp: path_ok_def url_of_def)
  have B: "?n + length w + 13 \<le> max_header_size" using assms(9) len w by simp
  have "on_message_begin request_settings = (\<lambda>h k. (0, k))" by (simp add: request_settings_def)
  from run_method [OF assms(1) H(1) _ this, of k] B obtain i where
    1: "?R (cur 0 (http_parser_init HTTP_REQUEST) k None None None) = ?R (cur (Suc ?n) ((http_parser_init HTTP_REQUEST)\<lparr>hp_flags := {},
        hp_clen := ULLONG_MAX, hp_method := m, hp_index := i, hp_state := s_req_spaces_before_url\<rparr>) k None None None)" by auto
  define h where "h = (http_parser_init HTTP_REQUEST)\<lparr>hp_flags := {}, hp_clen := ULLONG_MAX, hp_method := m, hp_index := i\<rparr>"
  have ok: "hp_errno h = HPE_OK" by (simp add: h_def http_parser_init_def)
  have s: "Suc ?n < length data" "data ! Suc ?n = CHR ''/''" "here data (Suc (Suc ?n)) w" using H(2) by (simp_all add: w here_Cons)
  have 2: "?R (cur (Suc ?n) (h\<lparr>hp_state := s_req_spaces_before_url\<rparr>) k None None None)
      = ?R (cur (Suc (Suc ?n)) (h\<lparr>hp_state := s_req_path\<rparr>) k None None (Some (Suc ?n)))"
    using s B assms(2)
    by (intro one) (simp_all add: h_def PARSING_HEADER_def exec_state_def mid_fields st_request_def mid_set MARK_def Let_def url_step_def separators)
  have L: "live s_req_path w" by (rule url_states_live [OF assms(3-5) w])
  let ?v = "foldl parse_url_char s_req_path w"
  have v: "?v \<in> url_live" by (rule live_end [OF L]) (simp add: url_live_def)
  have 3: "?R (cur (Suc (Suc ?n)) (h\<lparr>hp_state := s_req_path\<rparr>) k None None (Some (Suc ?n)))
      = ?R (cur (Suc ?n + length ?url) (h\<lparr>hp_state := ?v\<rparr>) k None None (Some (Suc ?n)))"
    using url_chars [OF s(3), of "h\<lparr>hp_state := s_req_path\<rparr>" request_settings k None None "Some (Suc ?n)"] B L
    by (simp add: w url_live_def)
  let ?k = "set_data (\<lambda>r. r\<lparr>rq_path := path, rq_query := query, rq_fragment := fragment\<rparr>) k"
  have "take (Suc ?n + length ?url - Suc ?n) (drop (Suc ?n) data) = ?url" using here_take [OF H(2)] by simp
  then have cb: "on_url request_settings (sc_h (mid (Suc ?n + length ?url) (h\<lparr>hp_state := s_req_http_start\<rparr>) k None None (Some (Suc ?n))))
      (take (Suc ?n + length ?url - Suc ?n) (drop (Suc ?n) data)) k = (0, ?k)"
    using url_cb [OF assms(3-5,10-12)] by (simp add: request_settings_def)
  have "exec_state request_settings data (mid (Suc ?n + length ?url) (h\<lparr>hp_state := ?v\<rparr>) k None None (Some (Suc ?n)))
      = st_url request_settings data (CHR '' '') (mid (Suc ?n + length ?url) (h\<lparr>hp_state := ?v\<rparr>) k None None (Some (Suc ?n)))"
    using v H(3) by (auto simp: exec_state_def mid_fields st_request_def url_live_def)
  also have "\<dots> = Next (mid (Suc ?n + length ?url) (h\<lparr>hp_state := s_req_http_start\<rparr>) ?k None None None)"
    using cb ok by (simp add: st_url_def mid_set data_url_def CALLBACK_DATA_def mid_fields Let_def)
  finally have 4: "?R (cur (Suc ?n + length ?url) (h\<lparr>hp_state := ?v\<rparr>) k None None (Some (Suc ?n)))
      = ?R (cur (Suc (Suc ?n + length ?url)) (h\<lparr>hp_state := s_req_http_start\<rparr>) ?k None None None)"
    using H(4) B v by (intro one) (auto simp: w PARSING_HEADER_def url_live_def)
  have 5: "?R (cur (Suc (Suc ?n + length ?url)) (h\<lparr>hp_state := s_req_http_start\<rparr>) ?k None None None)
      = ?R (cur (Suc (Suc ?n + length ?url) + 10) (line_parser m i major minor) ?k None None None)"
    using run_version [of data "Suc (Suc ?n + length ?url)" major minor "h\<lparr>hp_state := s_req_http_start\<rparr>" request_settings ?k None None None]
      H(5) B assms(6,7) w by (simp add: line_parser_def h_def)
  show ?thesis using 1 2 3 4 5 by (intro exI [of _ i]) (simp add: h_def len add.commute)
qed

end
