(* ===== verification/HttpFields.thy ===== *)
theory HttpFields
  imports HttpLines
begin

text \<open>
  How the parser reads the header lines: the names (with the ones that it recognises), the values, the fields
  \<^verbatim>\<open>Connection\<close> and \<^verbatim>\<open>Content-Length\<close> with their effect on the flags and the length, and a whole list of lines.
\<close>

section \<open>Header names\<close>

definition tokens :: "string \<Rightarrow> nat \<Rightarrow> nat \<Rightarrow> bool" where
  "tokens data p q \<longleftrightarrow> p \<le> q \<and> q < length data \<and> (\<forall>j. p \<le> j \<and> j < q \<longrightarrow> STRICT_TOKEN (data ! j) \<noteq> None) \<and> STRICT_TOKEN (data ! q) = None"

lemma tokens_Suc: "tokens data p q \<Longrightarrow> p < q \<Longrightarrow> tokens data (Suc p) q"
  by (simp add: tokens_def)

lemma skip_tokens_to: "tokens data p q \<Longrightarrow> p < q \<Longrightarrow> q < pe \<Longrightarrow> skip_tokens data pe p = q - 1"
proof (induction data pe p rule: skip_tokens.induct)
  case (1 data pe p)
  show ?case
  proof (cases "Suc p = q")
    case True
    then show ?thesis using 1 by (subst skip_tokens.simps) (simp add: tokens_def)
  next
    case False
    then have "p + 1 < pe \<and> STRICT_TOKEN (data ! (p + 1)) \<noteq> None" using 1 by (simp add: tokens_def)
    moreover have "skip_tokens data pe (p + 1) = q - 1" using 1 False calculation by (intro 1(1)) (simp_all add: tokens_def)
    ultimately show ?thesis by (subst skip_tokens.simps) simp
  qed
qed

text \<open>What a character of a name does to the parser, and a whole name after its first character.\<close>

definition name_char :: "char \<Rightarrow> hparser \<Rightarrow> hparser" where
  "name_char ch h = snd (the (field_char [] ch (the (STRICT_TOKEN ch)) 0 h))"

lemma field_char_name:
  assumes "STRICT_TOKEN ch = Some c" and "hp_hstate h \<in> field_hstates" and "hp_hstate h \<noteq> h_general"
  shows "field_char data ch c p h = Some (p, name_char ch h)"
  using assms by (cases "hp_hstate h") (simp_all add: field_char_def name_char_def field_hstates_def)

lemma name_char_general: "STRICT_TOKEN ch = Some c \<Longrightarrow> hp_hstate h = h_general \<Longrightarrow> name_char ch h = h"
  by (simp add: name_char_def field_char_def)

lemma name_char_states:
  assumes "STRICT_TOKEN ch = Some c" and "hp_hstate h \<in> field_hstates"
  shows "hp_hstate (name_char ch h) \<in> field_hstates"
  using keeps_field_char [OF assms(2), of "[]" ch c 0] assms(1) by (auto simp: name_char_def)

lemma field_loop_name:
  assumes "here data p w" and "p + length w < length data" and "p + length w < max_header_size"
    and "\<And>c. c \<in> set w \<Longrightarrow> STRICT_TOKEN c \<noteq> None" and "STRICT_TOKEN (data ! (p + length w)) = None"
    and "hp_hstate h \<in> field_hstates"
  shows "field_loop data p h = Some (p + length w, foldl (\<lambda>h c. name_char c h) h w)"
  using assms
proof (induction w arbitrary: p h)
  case Nil
  then show ?case by (subst field_loop.simps) simp
next
  case (Cons ch w)
  have p: "p < length data" "data ! p = ch" "here data (Suc p) w" using Cons.prems(1) by (simp_all add: here_Cons)
  obtain c where c: "STRICT_TOKEN ch = Some c" using Cons.prems(4) [of ch] by auto
  show ?case
  proof (cases "hp_hstate h = h_general")
    case True
    let ?q = "p + length (ch # w)"
    have at: "data ! (p + i) = (ch # w) ! i" if "i < length (ch # w)" for i
    proof -
      have "take (length (ch # w)) (drop p data) ! i = (ch # w) ! i" using here_take [OF Cons.prems(1)] by simp
      then show ?thesis using that Cons.prems(2) by simp
    qed
    have t: "STRICT_TOKEN (data ! j) \<noteq> None" if "p \<le> j" "j < ?q" for j
      using at [of "j - p"] that Cons.prems(4) by (metis add_less_cancel_left le_add_diff_inverse nth_mem)
    have "tokens data p ?q" using t Cons.prems(2,5) by (simp add: tokens_def)
    then have "skip_tokens data (p + min (length data - p) max_header_size) p = ?q - 1"
      using Cons.prems(2,3) by (intro skip_tokens_to) auto
    then have "field_loop data p h = field_loop data ?q h"
      using p c True by (subst field_loop.simps) (simp add: field_char_def)
    also have "\<dots> = Some (?q, h)" using Cons.prems(2,5) by (subst field_loop.simps) simp
    finally have e: "field_loop data p h = Some (?q, h)" .
    have g: "(\<forall>c\<in>set v. STRICT_TOKEN c \<noteq> None) \<Longrightarrow> foldl (\<lambda>h c. name_char c h) h v = h" for v
      using True by (induction v) (auto simp: name_char_general)
    have "\<forall>c\<in>set (ch # w). STRICT_TOKEN c \<noteq> None" using Cons.prems(4) by blast
    from g [OF this] show ?thesis using e by simp
  next
    case False
    have "field_loop data p h = field_loop data (Suc p) (name_char ch h)"
      using p c field_char_name [OF c Cons.prems(6) False] by (subst field_loop.simps) simp
    also have "\<dots> = Some (Suc p + length w, foldl (\<lambda>h c. name_char c h) (name_char ch h) w)"
      by (rule Cons.IH [OF p(3)]) (use Cons.prems name_char_states [OF c] in auto)
    finally show ?thesis by simp
  qed
qed

definition first_hstate :: "char \<Rightarrow> header_state" where
  "first_hstate ch = (let c = the (STRICT_TOKEN ch) in
     if c = CHR ''c'' then h_C
     else if c = CHR ''p'' then h_matching_proxy_connection
     else if c = CHR ''t'' then h_matching_transfer_encoding
     else if c = CHR ''u'' then h_matching_upgrade
     else h_general)"

definition after_name :: "string \<Rightarrow> hparser \<Rightarrow> hparser" where
  "after_name w h = foldl (\<lambda>h c. name_char c h) (h\<lparr>hp_index := 0, hp_state := s_header_field, hp_hstate := first_hstate (hd w)\<rparr>) (tl w)"

definition name_ok :: "string \<Rightarrow> bool" where "name_ok w \<longleftrightarrow> w \<noteq> [] \<and> (\<forall>c\<in>set w. STRICT_TOKEN c \<noteq> None)"

lemma name_char_fields:
  assumes "STRICT_TOKEN ch \<noteq> None" and "hp_hstate h \<in> field_hstates"
  shows "\<exists>x i. name_char ch h = h\<lparr>hp_hstate := x, hp_index := i\<rparr> \<and> x \<in> field_hstates"
proof -
  define F where "F g \<longleftrightarrow> (\<exists>x i. g = h\<lparr>hp_hstate := x, hp_index := i\<rparr>)" for g
  have e: "F (h\<lparr>hp_hstate := x\<rparr>)" for x unfolding F_def by (rule exI [of _ x], rule exI [of _ "hp_index h"]) (cases h, simp)
  have s: "F h" unfolding F_def by (rule exI [of _ "hp_hstate h"], rule exI [of _ "hp_index h"]) (cases h, simp)
  have o: "F (h\<lparr>hp_index := i, hp_hstate := x\<rparr>)" for i x unfolding F_def by (rule exI [of _ x], rule exI [of _ i]) (cases h, simp)
  have n: "F (h\<lparr>hp_index := i\<rparr>)" for i unfolding F_def by (rule exI [of _ "hp_hstate h"], rule exI [of _ i]) (cases h, simp)
  have m: "F (matching v a b c h)" for v a b c by (simp add: matching_def Let_def o n)
  obtain c where "STRICT_TOKEN ch = Some c" using assms(1) by auto
  then have st: "hp_hstate (name_char ch h) \<in> field_hstates" by (rule name_char_states [OF _ assms(2)])
  have "F (name_char ch h)"
    using assms e s o m
    by (cases "hp_hstate h") (simp_all add: name_char_def field_char_def, simp_all add: field_hstates_def)
  then obtain x i where x: "name_char ch h = h\<lparr>hp_hstate := x, hp_index := i\<rparr>" by (auto simp: F_def)
  then have "x \<in> field_hstates" using st by simp
  then show ?thesis using x by blast
qed

lemma after_name_fields:
  assumes "name_ok w"
  shows "\<exists>x i. after_name w h = h\<lparr>hp_state := s_header_field, hp_hstate := x, hp_index := i\<rparr> \<and> x \<in> field_hstates"
proof -
  have run: "\<exists>y j. foldl (\<lambda>h c. name_char c h) (h\<lparr>hp_state := s_header_field, hp_hstate := x, hp_index := i\<rparr>) v
      = h\<lparr>hp_state := s_header_field, hp_hstate := y, hp_index := j\<rparr> \<and> y \<in> field_hstates"
    if "\<forall>c\<in>set v. STRICT_TOKEN c \<noteq> None" "x \<in> field_hstates" for v x i
    using that
  proof (induction v arbitrary: x i)
    case (Cons c v)
    obtain y j where "name_char c (h\<lparr>hp_state := s_header_field, hp_hstate := x, hp_index := i\<rparr>)
        = h\<lparr>hp_state := s_header_field, hp_hstate := y, hp_index := j\<rparr>" "y \<in> field_hstates"
      using name_char_fields [of c "h\<lparr>hp_state := s_header_field, hp_hstate := x, hp_index := i\<rparr>"] Cons.prems by auto
    then show ?case using Cons by auto
  qed auto
  have "first_hstate (hd w) \<in> field_hstates" by (simp add: first_hstate_def field_hstates_def Let_def)
  moreover have "\<forall>c\<in>set (tl w). STRICT_TOKEN c \<noteq> None" using assms by (cases w) (auto simp: name_ok_def)
  moreover have "h\<lparr>hp_index := 0, hp_state := s_header_field, hp_hstate := x\<rparr> = h\<lparr>hp_state := s_header_field, hp_hstate := x, hp_index := 0\<rparr>" for x
    by (cases h) simp
  ultimately show ?thesis unfolding after_name_def using run by metis
qed

text \<open>The parser takes a name for a special one only if it is one, in any case.\<close>

definition low :: "char \<Rightarrow> char" where "low c = the (STRICT_TOKEN c)"

fun seen :: "header_state \<Rightarrow> nat \<Rightarrow> string \<Rightarrow> bool" where
  "seen h_C i w = (w = ''c'' \<and> i = 0)"
| "seen h_CO i w = (w = ''co'' \<and> i = 1)"
| "seen h_CON i w = (w = ''con'' \<and> i = 2)"
| "seen h_matching_connection i w = (Suc i < length ''connection'' \<and> w = take (Suc i) ''connection'')"
| "seen h_matching_proxy_connection i w = (Suc i < length ''proxy-connection'' \<and> w = take (Suc i) ''proxy-connection'')"
| "seen h_matching_content_length i w = (Suc i < length ''content-length'' \<and> w = take (Suc i) ''content-length'')"
| "seen h_matching_transfer_encoding i w = (Suc i < length ''transfer-encoding'' \<and> w = take (Suc i) ''transfer-encoding'')"
| "seen h_matching_upgrade i w = (Suc i < length ''upgrade'' \<and> w = take (Suc i) ''upgrade'')"
| "seen h_connection i w = (w = ''connection'' \<or> w = ''proxy-connection'')"
| "seen h_content_length i w = (w = ''content-length'')"
| "seen h_transfer_encoding i w = (w = ''transfer-encoding'')"
| "seen h_upgrade i w = (w = ''upgrade'')"
| "seen _ i w = True"

lemma matching_seen:
  assumes "Suc (hp_index h) < length word" and "w = take (Suc (hp_index h)) word" and "h1 = matching word hit h_general c h"
  shows "hp_hstate h1 = h_general \<or> hp_hstate h1 = hit \<and> w @ [c] = word
    \<or> hp_hstate h1 = hp_hstate h \<and> Suc (hp_index h1) < length word \<and> w @ [c] = take (Suc (hp_index h1)) word"
proof -
  let ?i = "Suc (hp_index h)"
  show ?thesis
  proof (cases "c = char_at word ?i")
    case True
    then have "w @ [c] = take (Suc ?i) word" using assms(1,2) by (simp add: char_at_def take_Suc_conv_app_nth)
    then show ?thesis using assms(1,3) True by (auto simp: matching_def Let_def)
  qed (use assms(3) in \<open>simp add: matching_def Let_def\<close>)
qed

lemma seen_char:
  assumes "STRICT_TOKEN ch \<noteq> None" and "hp_hstate h \<in> field_hstates" and "seen (hp_hstate h) (hp_index h) w"
  shows "seen (hp_hstate (name_char ch h)) (hp_index (name_char ch h)) (w @ [low ch])"
proof -
  obtain c where c: "STRICT_TOKEN ch = Some c" "low ch = c" using assms(1) by (auto simp: low_def)
  have sp: "ch \<noteq> CHR '' ''" using assms(1) by (auto simp: STRICT_TOKEN_def IS_ALPHA_def IS_NUM_def LOWER_def)
  have m: "seen (hp_hstate (name_char ch h)) (hp_index (name_char ch h)) (w @ [low ch])"
    if n: "name_char ch h = matching word hit h_general c h" and s: "\<And>i u. seen (hp_hstate h) i u \<longleftrightarrow> Suc i < length word \<and> u = take (Suc i) word"
      and g: "\<And>i. seen hit i word" for word hit
    using matching_seen [of h word w "name_char ch h" hit c] assms(3) n s g c(2) by auto
  have f: "name_char ch h = snd (the (field_char [] ch c 0 h))" using c by (simp add: name_char_def)
  show ?thesis
  proof (cases "hp_hstate h")
    case h_matching_connection
    then show ?thesis by (intro m [of "''connection''" h_connection]) (simp_all add: f field_char_def)
  next
    case h_matching_proxy_connection
    then show ?thesis by (intro m [of "''proxy-connection''" h_connection]) (simp_all add: f field_char_def)
  next
    case h_matching_content_length
    then show ?thesis by (intro m [of "''content-length''" h_content_length]) (simp_all add: f field_char_def)
  next
    case h_matching_transfer_encoding
    then show ?thesis by (intro m [of "''transfer-encoding''" h_transfer_encoding]) (simp_all add: f field_char_def)
  next
    case h_matching_upgrade
    then show ?thesis by (intro m [of "''upgrade''" h_upgrade]) (simp_all add: f field_char_def)
  qed (use assms(2,3) c(2) sp in \<open>simp_all add: f field_char_def field_hstates_def\<close>)
qed

lemma seen_name:
  assumes "name_ok w"
  shows "seen (hp_hstate (after_name w h)) (hp_index (after_name w h)) (map low w)"
proof -
  have run: "seen (hp_hstate (foldl (\<lambda>h c. name_char c h) h v)) (hp_index (foldl (\<lambda>h c. name_char c h) h v)) (u @ map low v)"
    if "\<forall>c\<in>set v. STRICT_TOKEN c \<noteq> None" "hp_hstate h \<in> field_hstates" "seen (hp_hstate h) (hp_index h) u" for v u h
    using that
  proof (induction v arbitrary: u h)
    case (Cons c v)
    obtain d where "STRICT_TOKEN c = Some d" using Cons.prems(1) by auto
    then have "hp_hstate (name_char c h) \<in> field_hstates" by (rule name_char_states) (rule Cons.prems(2))
    moreover have "seen (hp_hstate (name_char c h)) (hp_index (name_char c h)) (u @ [low c])"
      by (rule seen_char) (use Cons.prems in auto)
    ultimately show ?case using Cons.IH [of "name_char c h" "u @ [low c]"] Cons.prems(1) by simp
  qed simp
  obtain c v where w: "w = c # v" "STRICT_TOKEN c \<noteq> None" "\<forall>c\<in>set v. STRICT_TOKEN c \<noteq> None"
    using assms by (cases w) (auto simp: name_ok_def)
  have "first_hstate c \<in> field_hstates" "seen (first_hstate c) 0 [low c]"
    by (simp_all add: first_hstate_def low_def field_hstates_def Let_def)
  then show ?thesis
    using run [of v "h\<lparr>hp_index := 0, hp_state := s_header_field, hp_hstate := first_hstate c\<rparr>" "[low c]"] w
    by (simp add: after_name_def)
qed

definition special_names :: "string set" where
  "special_names = {''connection'', ''proxy-connection'', ''content-length'', ''transfer-encoding'', ''upgrade''}"

definition name_plain :: "string \<Rightarrow> bool" where "name_plain w \<longleftrightarrow> name_ok w \<and> map low w \<notin> special_names"

lemma plain_hstate:
  assumes "name_plain w"
  shows "\<exists>x i. after_name w h = h\<lparr>hp_state := s_header_field, hp_hstate := x, hp_index := i\<rparr>
    \<and> x \<in> field_hstates - {h_connection, h_content_length, h_transfer_encoding, h_upgrade}"
proof -
  have ok: "name_ok w" and n: "map low w \<notin> special_names" using assms by (simp_all add: name_plain_def)
  obtain x i where x: "after_name w h = h\<lparr>hp_state := s_header_field, hp_hstate := x, hp_index := i\<rparr>" "x \<in> field_hstates"
    using after_name_fields [OF ok] by blast
  have "seen x i (map low w)" using seen_name [OF ok, of h] x(1) by simp
  then have "x \<notin> {h_connection, h_content_length, h_transfer_encoding, h_upgrade}" using n by (auto simp: special_names_def)
  then show ?thesis using x by blast
qed

lemma special_hstates:
  "\<exists>i. after_name ''connection'' h = h\<lparr>hp_state := s_header_field, hp_hstate := h_connection, hp_index := i\<rparr>"
  "\<exists>i. after_name ''content-length'' h = h\<lparr>hp_state := s_header_field, hp_hstate := h_content_length, hp_index := i\<rparr>"
proof -
  have "\<forall>c\<in>set ''connection-length''. STRICT_TOKEN c = Some c" by (simp add: STRICT_TOKEN_def IS_ALPHA_def IS_NUM_def LOWER_def)
  then have t: "STRICT_TOKEN c = Some c" if "c \<in> set ''connection-length''" for c using that by blast
  have n: "name_ok ''connection''" "name_ok ''content-length''" by (simp_all add: name_ok_def t)
  have "hp_hstate (after_name ''connection'' h) = h_connection" "hp_hstate (after_name ''content-length'' h) = h_content_length"
    by (simp_all add: after_name_def first_hstate_def name_char_def field_char_def matching_def char_at_def Let_def t)
  then show "\<exists>i. after_name ''connection'' h = h\<lparr>hp_state := s_header_field, hp_hstate := h_connection, hp_index := i\<rparr>"
      "\<exists>i. after_name ''content-length'' h = h\<lparr>hp_state := s_header_field, hp_hstate := h_content_length, hp_index := i\<rparr>"
    using after_name_fields [OF n(1), of h] after_name_fields [OF n(2), of h] by auto
qed

section \<open>Header lines\<close>

lemma name_chars_not: "STRICT_TOKEN c \<noteq> None \<Longrightarrow> c \<noteq> CHR '':'' \<and> c \<noteq> CHR '' '' \<and> c \<noteq> CR \<and> c \<noteq> LF \<and> c \<noteq> TAB"
  by (auto simp: STRICT_TOKEN_def IS_ALPHA_def IS_NUM_def LOWER_def CR_def LF_def TAB_def split: if_splits)

lemma colon_no_token: "STRICT_TOKEN (CHR '':'') = None"
  by (simp add: STRICT_TOKEN_def IS_ALPHA_def IS_NUM_def LOWER_def)

lemma run_name:
  assumes "here data p (w @ '':'')" and "name_ok w" and "p + length w < max_header_size" and "hp_state h = s_header_field_start" and "hp_errno h = HPE_OK"
    and "on_header_field st = (\<lambda>h b u. (0, F b u))"
  shows "scan_loop st data (cur p h u None None None)
    = scan_loop st data (cur (Suc (p + length w)) ((after_name w h)\<lparr>hp_state := s_header_value_discard_ws\<rparr>) (F w u) None None None)"
proof -
  obtain c v where w: "w = c # v" using assms(2) by (cases w) (auto simp: name_ok_def)
  have t: "STRICT_TOKEN c \<noteq> None" "\<And>c. c \<in> set v \<Longrightarrow> STRICT_TOKEN c \<noteq> None" using assms(2) w by (auto simp: name_ok_def)
  obtain d where d: "STRICT_TOKEN c = Some d" using t(1) by auto
  have p: "p < length data" "data ! p = c" "here data (Suc p) v" "Suc p + length v < length data" "data ! (Suc p + length v) = CHR '':''"
    using assms(1) by (simp_all add: w text_here)
  define h1 where "h1 = h\<lparr>hp_index := 0, hp_state := s_header_field, hp_hstate := first_hstate c\<rparr>"
  have "c \<noteq> CR" "c \<noteq> LF" using name_chars_not [OF t(1)] by auto
  then have "exec_state st data (mid p h u None None None) = Next (mid p h1 u (Some p) None None)"
    using p(2) assms(4) d by (simp add: exec_state_def mid_fields mid_set st_header_field_start_def MARK_def h1_def first_hstate_def Let_def)
  then have 1: "scan_loop st data (cur p h u None None None) = scan_loop st data (cur (Suc p) h1 u (Some p) None None)"
    using p(1) assms(3,4) by (intro one) (simp_all add: PARSING_HEADER_def)
  let ?q = "Suc p + length v"
  let ?h = "foldl (\<lambda>h c. name_char c h) h1 v"
  have hs: "hp_hstate h1 \<in> field_hstates" by (simp add: h1_def first_hstate_def field_hstates_def Let_def)
  let ?m = "mid (Suc p) h1 u (Some p) None None"
  have name: "after_name w h = ?h" by (simp add: after_name_def w h1_def)
  have fl: "field_loop data (Suc p) (sc_h ?m) = Some (?q, foldl (\<lambda>h c. name_char c h) (sc_h ?m) v)"
    by (rule field_loop_name [OF p(3,4)]) (use assms(3) w t(2) p(5) colon_no_token hs in \<open>simp_all add: mid_fields\<close>)
  have nread: "foldl (\<lambda>h c. name_char c h) (g\<lparr>hp_nread := n\<rparr>) v = (foldl (\<lambda>h c. name_char c h) g v)\<lparr>hp_nread := n\<rparr>"
    if "hp_hstate g \<in> field_hstates" for n g
    using that t(2)
  proof (induction v arbitrary: g)
    case (Cons c v)
    obtain e where e: "STRICT_TOKEN c = Some e" using Cons.prems(2) [of c] by auto
    have "name_char c (g\<lparr>hp_nread := n\<rparr>) = (name_char c g)\<lparr>hp_nread := n\<rparr>"
      using Cons.prems(1) by (cases "hp_hstate g") (simp_all add: name_char_def field_char_def matching_def Let_def field_hstates_def)
    then show ?case using Cons.IH [OF name_char_states [OF e Cons.prems(1)]] Cons.prems(2) by simp
  qed simp
  obtain x i where f: "?h = h1\<lparr>hp_state := s_header_field, hp_hstate := x, hp_index := i\<rparr>"
    using after_name_fields [OF assms(2), of h] name by (cases h) (auto simp: h1_def)
  have err: "hp_errno ?h = HPE_OK" using f assms(5) by (simp add: h1_def)
  have e: "exec_state st data ?m = Next (mid ?q (?h\<lparr>hp_state := s_header_value_discard_ws\<rparr>) (F w u) None None None)"
  proof -
    have b: "take (?q - p) (drop p data) = w" using here_take [of data p w] assms(1) by (simp add: w here_append here_Cons)
    have n: "unat (of_nat (Suc ?q) :: u32) \<le> max_header_size"
    proof -
      have "unat (of_nat (Suc ?q) :: u32) = Suc ?q" using assms(3) w by (simp only: unat_of_nat) (simp add: max_header_size_def)
      then show ?thesis using assms(3) w by simp
    qed
    have c: "(sc_h ?m) = h1\<lparr>hp_nread := of_nat (Suc (Suc p))\<rparr>" by (simp add: mid_def)
    have s: "(of_nat (Suc (Suc p)) :: u32) + of_nat (?q - Suc p) = of_nat (Suc ?q)" by simp
    have "exec_state st data ?m = st_header_field st data ?m" by (simp add: exec_state_def mid_fields h1_def)
    also have "\<dots> = COUNT_HEADER_SIZE (?q - Suc p) (\<lambda>s2. data_field st data ?q (Suc ?q) Next (UPDATE_STATE s_header_value_discard_ws s2))
        (?m\<lparr>sc_p := ?q, sc_h := ?h\<lparr>hp_nread := of_nat (Suc (Suc p))\<rparr>\<rparr>)"
    proof -
      have fl': "field_loop data (Suc p) (sc_h ?m) = Some (?q, ?h\<lparr>hp_nread := of_nat (Suc (Suc p))\<rparr>)"
        using fl nread [OF hs] unfolding c by simp
      show ?thesis unfolding st_header_field_def Let_def mid_fields fl' using p(4,5) by simp
    qed
    also have "\<dots> = data_field st data ?q (Suc ?q) Next (UPDATE_STATE s_header_value_discard_ws (mid ?q ?h u (Some p) None None))"
      using n s by (simp add: COUNT_HEADER_SIZE_def Let_def mid_def add.assoc)
    also have "\<dots> = Next (mid ?q (?h\<lparr>hp_state := s_header_value_discard_ws\<rparr>) (F w u) None None None)"
      using b err assms(6) by (simp add: data_field_def CALLBACK_DATA_def mid_set mid_fields Let_def)
    finally show ?thesis .
  qed
  have 2: "scan_loop st data (cur (Suc p) h1 u (Some p) None None)
      = scan_loop st data (cur (Suc ?q) (?h\<lparr>hp_state := s_header_value_discard_ws\<rparr>) (F w u) None None None)"
    by (rule one [OF _ _ _ e]) (use p(4) assms(3) w in \<open>simp_all add: h1_def PARSING_HEADER_def\<close>)
  show ?thesis using 1 2 name w by simp
qed

definition value_ok :: "string \<Rightarrow> bool" where
  "value_ok w \<longleftrightarrow> w \<noteq> [] \<and> hd w \<noteq> CHR '' '' \<and> hd w \<noteq> TAB \<and> (\<forall>c\<in>set w. IS_HEADER_CHAR c \<and> \<not> is_eol c)"

lemma skip_value_to:
  "p \<le> q \<Longrightarrow> q < pe \<Longrightarrow> is_eol (data ! q) \<Longrightarrow> (\<And>j. p \<le> j \<Longrightarrow> j < q \<Longrightarrow> IS_HEADER_CHAR (data ! j) \<and> \<not> is_eol (data ! j)) \<Longrightarrow>
    skip_value l data pe p = Inr (q - 1)"
proof (induction l data pe p rule: skip_value.induct)
  case (1 l data pe p)
  show ?case
  proof (cases "p = q")
    case True
    then show ?thesis using 1 by (subst skip_value.simps) (simp add: Let_def)
  next
    case False
    then have c: "\<not> is_eol (data ! p)" "IS_HEADER_CHAR (data ! p)" using "1.prems"(1) "1.prems"(4) [OF order_refl] by simp_all
    have l: "p < pe" "Suc p \<le> q" using "1.prems"(1,2) False by simp_all
    have "skip_value l data pe (Suc p) = Inr (q - 1)"
      by (rule "1.IH" [OF l(1) refl _ _ l(2) "1.prems"(2,3)]) (use c in simp, use c in simp, use "1.prems"(4) in simp)
    then show ?thesis using 1(2,3) False c by (subst skip_value.simps) (simp add: Let_def)
  qed
qed

lemma here_nth: "here data p w \<Longrightarrow> i < length w \<Longrightarrow> data ! (p + i) = w ! i \<and> p + i < length data"
proof (induction w arbitrary: p i)
  case (Cons c w)
  then show ?case using Cons.IH [of "Suc p" "i - 1"] by (cases i) (simp_all add: here_Cons)
qed simp

lemma value_general:
  assumes "here data (sc_p s) (w @ [CR])" and "sc_p s + length w < max_header_size" and "\<forall>c\<in>set w. IS_HEADER_CHAR c \<and> \<not> is_eol c"
    and "hp_hstate (sc_h s) = h_general"
  shows "value_loop st data start s = value_loop st data start (s\<lparr>sc_p := sc_p s + length w\<rparr>)"
proof (cases "w = []")
  case False
  let ?p = "sc_p s" let ?q = "?p + length w"
  have d: "data ! (?p + i) = (w @ [CR]) ! i" "?p + i < length data" if "i \<le> length w" for i
    using here_nth [OF assms(1), of i] that by simp_all
  have q: "is_eol (data ! ?q)" "?q < length data" using d [of "length w"] by (simp_all add: is_eol_def)
  have c: "IS_HEADER_CHAR (data ! j) \<and> \<not> is_eol (data ! j)" if "?p \<le> j" "j < ?q" for j
    using d(1) [of "j - ?p"] that assms(3) by (simp add: nth_append)
  have pq: "?p < ?q" using False by simp
  have sk: "skip_value (hp_lenient (sc_h s)) data (?p + min (length data - ?p) max_header_size) ?p = Inr (?q - 1)"
    using pq q assms(2) c by (intro skip_value_to) auto
  have v: "value_char data (data ! ?p) ?p (sc_h s) = V_go (?q - 1) (sc_h s)"
  proof -
    have "?q - 1 \<noteq> length data" using q(2) by linarith
    then show ?thesis using sk assms(4) by (simp add: value_char_def Let_def)
  qed
  have "\<not> is_eol (data ! ?p)" "IS_HEADER_CHAR (data ! ?p)" using c [OF order_refl pq] by auto
  moreover have "Suc (?q - 1) = ?q" "?p < length data" using pq q(2) by linarith+
  ultimately show ?thesis using v by (subst value_loop.simps) (simp add: Let_def is_eol_def)
qed simp

text \<open>Reading a value of a special header, character by character.\<close>

fun vread :: "string \<Rightarrow> hparser \<Rightarrow> hparser option" where
  "vread [] h = Some h"
| "vread (c # w) h =
     (if hp_hstate h = h_general then None
      else case value_char [] c 0 h of V_go _ h1 \<Rightarrow> vread w h1 | _ \<Rightarrow> None)"

lemma value_char_special:
  "hp_hstate h \<noteq> h_general \<Longrightarrow> value_char [] c 0 h = V_go q h1 \<Longrightarrow> value_char data c p h = V_go p h1"
  by (cases "hp_hstate h") (auto simp: value_char_def Let_def TAB_def split: if_splits sum.splits)

lemma value_special:
  assumes "here data (sc_p s) w" and "\<forall>c\<in>set w. IS_HEADER_CHAR c \<and> \<not> is_eol c" and "vread w (sc_h s) = Some h1"
  shows "value_loop st data start s = value_loop st data start (s\<lparr>sc_p := sc_p s + length w, sc_h := h1\<rparr>)"
  using assms
proof (induction w arbitrary: s)
  case (Cons c w)
  have p: "sc_p s < length data" "data ! sc_p s = c" "here data (Suc (sc_p s)) w" using Cons.prems(1) by (simp_all add: here_Cons)
  have g: "hp_hstate (sc_h s) \<noteq> h_general" using Cons.prems(3) by (auto split: if_splits)
  then obtain q h2 where v: "value_char [] c 0 (sc_h s) = V_go q h2" "vread w h2 = Some h1"
    using Cons.prems(3) by (auto split: value_step.splits)
  have "value_loop st data start s = value_loop st data start (s\<lparr>sc_p := Suc (sc_p s), sc_h := h2\<rparr>)"
    using p Cons.prems(2) value_char_special [OF g v(1)] by (subst value_loop.simps) (simp add: Let_def is_eol_def)
  also have "\<dots> = value_loop st data start (s\<lparr>sc_p := sc_p s + length (c # w), sc_h := h1\<rparr>)"
    using Cons.IH [of "s\<lparr>sc_p := Suc (sc_p s), sc_h := h2\<rparr>"] p(3) Cons.prems(2) v(2) by simp
  finally show ?case .
next
  case (Nil s)
  then have "s\<lparr>sc_p := sc_p s + length [], sc_h := h1\<rparr> = s" by (cases s) simp
  then show ?case by simp
qed

text \<open>The end of a line, behind the first character of its value.\<close>

lemma run_value_end:
  assumes "data ! q = CR" and "Suc q < length data" and "data ! Suc q = LF" and "Suc (Suc q) \<le> max_header_size" and "p \<le> q"
    and "hp_errno h1 = HPE_OK" and "on_header_value st = (\<lambda>h b u. (0, F b u))" and "hp_state h = s_header_value"
    and "value_loop st data p (mid p h u None (Some m) None)
      = value_loop st data p ((mid p h1 u None (Some m) None)\<lparr>sc_p := q\<rparr>)"
  shows "scan_loop st data (cur p h u None (Some m) None)
    = scan_loop st data (cur (Suc (Suc q)) (h1\<lparr>hp_state := s_header_value_lws\<rparr>) (F (take (q - m) (drop m data)) u) None None None)"
proof -
  let ?u = "F (take (q - m) (drop m data)) u"
  let ?s = "(mid p h1 u None (Some m) None)\<lparr>sc_p := q\<rparr>"
  have n: "unat (of_nat (Suc q) :: u32) \<le> max_header_size"
  proof -
    have "unat (of_nat (Suc q) :: u32) = Suc q" using assms(4) by (simp only: unat_of_nat) (simp add: max_header_size_def)
    then show ?thesis using assms(4) by simp
  qed
  have s: "(of_nat (Suc p) :: u32) + of_nat (q - p) = of_nat (Suc q)" using assms(5) by simp
  have "exec_state st data (mid p h u None (Some m) None) = value_loop st data p ?s"
    using assms(8,9) by (simp add: exec_state_def mid_fields)
  also have "\<dots> = data_value st data q (Suc q) (value_end data p) (UPDATE_STATE s_header_almost_done ?s)"
    using assms(1,2) by (subst value_loop.simps) (simp add: Let_def)
  also have "\<dots> = value_end data p ((mid p (h1\<lparr>hp_state := s_header_almost_done\<rparr>) ?u None None None)\<lparr>sc_p := q\<rparr>)"
    using assms(6,7) by (cases h1) (simp add: data_value_def CALLBACK_DATA_def mid_def UPDATE_STATE_def Let_def)
  also have "\<dots> = Next (mid q (h1\<lparr>hp_state := s_header_almost_done\<rparr>) ?u None None None)"
    using assms(2) n s by (simp add: value_end_def COUNT_HEADER_SIZE_def Let_def mid_def add.assoc)
  finally have 1: "scan_loop st data (cur p h u None (Some m) None)
      = scan_loop st data (cur (Suc q) (h1\<lparr>hp_state := s_header_almost_done\<rparr>) ?u None None None)"
    using assms(2,4,5,8) by (intro one) (simp_all add: PARSING_HEADER_def)
  have 2: "scan_loop st data (cur (Suc q) (h1\<lparr>hp_state := s_header_almost_done\<rparr>) ?u None None None)
      = scan_loop st data (cur (Suc (Suc q)) (h1\<lparr>hp_state := s_header_value_lws\<rparr>) ?u None None None)"
    using assms(2-4) by (intro one) (simp_all add: PARSING_HEADER_def exec_state_def mid_fields mid_set)
  show ?thesis using 1 2 by simp
qed

abbreviation R :: "string \<Rightarrow> request_sink scan \<Rightarrow> request_sink flow" where "R data s \<equiv> scan_loop request_settings data s"

definition put :: "string \<times> string \<Rightarrow> request_sink \<Rightarrow> request_sink" where
  "put i k = set_data (setHeader (fst i) (snd i)) (k\<lparr>rk_field := fst i\<rparr>)"

lemma put_put: "set_data (setHeader (rk_field (k\<lparr>rk_field := n\<rparr>)) v) (k\<lparr>rk_field := n\<rparr>) = put (n, v) k"
  by (simp add: put_def)

lemma callbacks:
  "on_header_field request_settings = (\<lambda>h b k. (0, k\<lparr>rk_field := b\<rparr>))"
  "on_header_value request_settings = (\<lambda>h b k. (0, set_data (setHeader (rk_field k) b) k))"
  by (simp_all add: request_settings_def on_request_header_field_cb_def on_request_header_value_cb_def fun_eq_iff)

lemma crlf_chars: "crlf = [CR, LF]"
  by (simp add: crlf_def CR_def LF_def)

lemma run_line:
  assumes "here data p (header_line (n, v))" and "name_ok n" and "value_ok v" and "p + length (header_line (n, v)) \<le> max_header_size"
    and "hp_state h = s_header_field_start" and "hp_errno h = HPE_OK"
    and "after_name n h = h\<lparr>hp_state := s_header_field, hp_hstate := x, hp_index := i\<rparr>"
    and first: "\<And>q (u :: request_sink). st_header_value_start (hd v) (mid q (h\<lparr>hp_state := s_header_value_discard_ws, hp_hstate := x, hp_index := i\<rparr>) u None None None)
          = Next (mid q h1 u None (Some q) None)"
    and rest: "\<And>q u. here data (Suc q) (tl v @ [CR]) \<Longrightarrow> Suc q + length (tl v) < max_header_size \<Longrightarrow>
        value_loop request_settings data (Suc q) (mid (Suc q) h1 u None (Some q) None)
        = value_loop request_settings data (Suc q) ((mid (Suc q) h2 u None (Some q) None)\<lparr>sc_p := Suc q + length (tl v)\<rparr>)"
    and "hp_state h1 = s_header_value" and "hp_errno h2 = HPE_OK"
  shows "R data (cur p h k None None None)
    = R data (cur (p + length (header_line (n, v))) (h2\<lparr>hp_state := s_header_value_lws\<rparr>) (put (n, v) k) None None None)"
proof -
  obtain c w where v: "v = c # w" using assms(3) by (cases v) (auto simp: value_ok_def)
  have c: "c \<noteq> CHR '' ''" "c \<noteq> TAB" "c \<noteq> CR" "c \<noteq> LF" using assms(3) v by (auto simp: value_ok_def is_eol_def)
  let ?q = "p + length n + 2"
  have len: "length (header_line (n, v)) = length n + length w + 5" by (simp add: header_line_def crlf_chars v)
  then have B: "p + length n + length w + 5 \<le> max_header_size" using assms(4) by simp
  have H: "here data p (n @ '':'')" "p + length n + 1 < length data" "data ! (p + length n + 1) = CHR '' ''"
      "?q < length data" "data ! ?q = c" "here data (Suc ?q) (w @ [CR])" "Suc (Suc ?q + length w) < length data"
      "data ! (Suc ?q + length w) = CR" "data ! (Suc (Suc ?q + length w)) = LF" "here data ?q v"
    using assms(1) by (simp_all add: header_line_def crlf_chars v text_here add.assoc)
  let ?h = "h\<lparr>hp_state := s_header_value_discard_ws, hp_hstate := x, hp_index := i\<rparr>"
  let ?k = "k\<lparr>rk_field := n\<rparr>"
  have a: "(after_name n h)\<lparr>hp_state := s_header_value_discard_ws\<rparr> = ?h" unfolding assms(7) by (cases h) simp
  have 1: "R data (cur p h k None None None) = R data (cur (p + length n + 1) ?h ?k None None None)"
    using run_name [OF H(1) assms(2) _ assms(5,6) callbacks(1)] assms(4) a by (simp add: len)
  have 2: "R data (cur (p + length n + 1) ?h ?k None None None) = R data (cur ?q ?h ?k None None None)"
    using H(2,3) assms(4) one [of "p + length n + 1" data ?h request_settings ?k None None None "p + length n + 1" ?h ?k None None None]
    by (simp add: len PARSING_HEADER_def exec_state_def mid_fields st_header_value_discard_ws_def)
  have e: "exec_state request_settings data (mid ?q ?h ?k None None None) = Next (mid ?q h1 ?k None (Some ?q) None)"
    using first [of ?q ?k] c H(5) by (simp add: v exec_state_def mid_fields st_header_value_discard_ws_def)
  have 3: "R data (cur ?q ?h ?k None None None) = R data (cur (Suc ?q) h1 ?k None (Some ?q) None)"
    by (rule one [OF _ _ _ e]) (use H(4) assms(4) in \<open>simp_all add: len PARSING_HEADER_def\<close>)
  have t: "take (Suc ?q + length w - ?q) (drop ?q data) = v" using here_take [OF H(10)] v by simp
  have 4: "R data (cur (Suc ?q) h1 ?k None (Some ?q) None)
      = R data (cur (Suc (Suc (Suc ?q + length w))) (h2\<lparr>hp_state := s_header_value_lws\<rparr>) (set_data (setHeader (rk_field ?k) (take (Suc ?q + length w - ?q) (drop ?q data))) ?k) None None None)"
    by (rule run_value_end [where F = "\<lambda>b k. set_data (setHeader (rk_field k) b) k" and q = "Suc ?q + length w", OF H(8,7,9) _ _ assms(11) callbacks(2) assms(10)])
      (use B rest [of ?q ?k] H(6) v in simp_all)
  have 5: "set_data (setHeader (rk_field ?k) (take (Suc ?q + length w - ?q) (drop ?q data))) ?k = put (n, v) k"
    unfolding t put_put ..
  have 6: "Suc (Suc (Suc ?q + length w)) = p + length (header_line (n, v))" by (simp add: len)
  show ?thesis using 1 2 3 4 unfolding 5 6 by simp
qed

text \<open>The lines of plain headers, of the connection and of the content length.\<close>

lemma run_plain:
  assumes "here data p (header_line (n, v))" and "name_plain n" and "value_ok v" and "p + length (header_line (n, v)) \<le> max_header_size"
    and "hp_state h = s_header_field_start" and "hp_errno h = HPE_OK"
  shows "R data (cur p h k None None None) = R data (cur (p + length (header_line (n, v)))
      (h\<lparr>hp_state := s_header_value_lws, hp_hstate := h_general, hp_index := 0\<rparr>) (put (n, v) k) None None None)"
proof -
  obtain x i where x: "after_name n h = h\<lparr>hp_state := s_header_field, hp_hstate := x, hp_index := i\<rparr>"
      "x \<in> field_hstates - {h_connection, h_content_length, h_transfer_encoding, h_upgrade}"
    using plain_hstate [OF assms(2), of h] by blast
  let ?h = "h\<lparr>hp_state := s_header_value, hp_hstate := h_general, hp_index := 0\<rparr>"
  have f: "st_header_value_start c (mid q (h\<lparr>hp_state := s_header_value_discard_ws, hp_hstate := x, hp_index := i\<rparr>) u None None None)
      = Next (mid q ?h u None (Some q) None)" for c q u
    using x(2) by (cases x) (simp_all add: field_hstates_def st_header_value_start_def Let_def mid_fields mid_set MARK_def, (cases h, simp)+)
  have vw: "\<forall>c\<in>set (tl v). IS_HEADER_CHAR c \<and> \<not> is_eol c" using assms(3) by (cases v) (auto simp: value_ok_def)
  have r: "value_loop request_settings data (Suc q) (mid (Suc q) ?h u None (Some q) None)
      = value_loop request_settings data (Suc q) ((mid (Suc q) ?h u None (Some q) None)\<lparr>sc_p := Suc q + length (tl v)\<rparr>)"
    if "here data (Suc q) (tl v @ [CR])" "Suc q + length (tl v) < max_header_size" for q u
    using value_general [of data "mid (Suc q) ?h u None (Some q) None" "tl v"] that vw by (simp add: mid_fields)
  have ok: "name_ok n" using assms(2) by (simp add: name_plain_def)
  have "R data (cur p h k None None None)
    = R data (cur (p + length (header_line (n, v))) (?h\<lparr>hp_state := s_header_value_lws\<rparr>) (put (n, v) k) None None None)"
    by (rule run_line [OF assms(1) ok assms(3-6) x(1) f r]) (use assms(6) in simp_all)
  moreover have "?h\<lparr>hp_state := s_header_value_lws\<rparr> = h\<lparr>hp_state := s_header_value_lws, hp_hstate := h_general, hp_index := 0\<rparr>" by (cases h) simp
  ultimately show ?thesis by simp
qed

lemma run_connection:
  assumes "here data p (connection_line close)" and "p + length (connection_line close) \<le> max_header_size"
    and "hp_state h = s_header_field_start" and "hp_errno h = HPE_OK"
  shows "\<exists>i. R data (cur p h k None None None) = R data (cur (p + length (connection_line close))
      (h\<lparr>hp_state := s_header_value_lws, hp_hstate := if close then h_connection_close else h_connection_keep_alive, hp_index := i\<rparr>)
      (put (''connection'', if close then ''close'' else ''keep-alive'') k) None None None)"
proof -
  define v where "v = (if close then ''close'' else ''keep-alive'')"
  define x0 where "x0 = (if close then h_matching_connection_close else h_matching_connection_keep_alive)"
  define x1 where "x1 = (if close then h_connection_close else h_connection_keep_alive)"
  define j where "j = length v - 1"
  obtain i where i: "after_name ''connection'' h = h\<lparr>hp_state := s_header_field, hp_hstate := h_connection, hp_index := i\<rparr>"
    using special_hstates by blast
  have line: "connection_line close = header_line (''connection'', v)" by (simp add: connection_line_def header_line_def v_def)
  have ch: "\<forall>c\<in>set ''keep-alivecos''. IS_HEADER_CHAR c \<and> \<not> is_eol c \<and> c \<noteq> CHR '' '' \<and> c \<noteq> TAB \<and> LOWER c = c"
    by (simp add: IS_HEADER_CHAR_def is_eol_def CR_def LF_def TAB_def LOWER_def)
  then have low: "LOWER c = c" if "c \<in> set ''keep-alivecos''" for c using that by blast
  have ok: "name_ok ''connection''"
    by (simp add: name_ok_def STRICT_TOKEN_def IS_ALPHA_def IS_NUM_def LOWER_def)
  have vok: "value_ok v" using ch by (simp add: value_ok_def v_def)
  let ?h = "h\<lparr>hp_state := s_header_value, hp_hstate := x0, hp_index := 0\<rparr>"
  let ?h2 = "h\<lparr>hp_state := s_header_value, hp_hstate := x1, hp_index := j\<rparr>"
  have f: "st_header_value_start (hd v) (mid q (h\<lparr>hp_state := s_header_value_discard_ws, hp_hstate := h_connection, hp_index := i\<rparr>) u None None None)
      = Next (mid q ?h u None (Some q) None)" for q and u :: request_sink
    by (simp add: st_header_value_start_def Let_def mid_fields mid_set MARK_def v_def x0_def low) (cases h, simp)
  have r0: "vread (tl v) (g\<lparr>hp_hstate := x0, hp_index := 0\<rparr>) = Some (g\<lparr>hp_hstate := x1, hp_index := j\<rparr>)" for g
    by (cases g) (simp add: v_def x0_def x1_def j_def value_char_def matching_def char_at_def Let_def low)
  have r: "value_loop request_settings data (Suc q) (mid (Suc q) ?h u None (Some q) None)
      = value_loop request_settings data (Suc q) ((mid (Suc q) ?h2 u None (Some q) None)\<lparr>sc_p := Suc q + length (tl v)\<rparr>)"
    if "here data (Suc q) (tl v @ [CR])" for q u
  proof -
    have h: "here data (Suc q) (tl v)" using that by (simp add: here_append)
    have c: "\<forall>c\<in>set (tl v). IS_HEADER_CHAR c \<and> \<not> is_eol c" using ch by (simp add: v_def)
    have s: "sc_h (mid (Suc q) ?h u None (Some q) None) = (h\<lparr>hp_state := s_header_value, hp_nread := of_nat (Suc (Suc q))\<rparr>)\<lparr>hp_hstate := x0, hp_index := 0\<rparr>"
      by (cases h) (simp add: mid_def)
    have m: "(mid (Suc q) ?h u None (Some q) None)\<lparr>sc_p := z, sc_h := (h\<lparr>hp_state := s_header_value, hp_nread := of_nat (Suc (Suc q))\<rparr>)\<lparr>hp_hstate := x1, hp_index := j\<rparr>\<rparr>
        = (mid (Suc q) ?h2 u None (Some q) None)\<lparr>sc_p := z\<rparr>" for z by (cases h) (simp add: mid_def)
    show ?thesis
      using value_special [of data "mid (Suc q) ?h u None (Some q) None" "tl v"] h c r0 [of "h\<lparr>hp_state := s_header_value, hp_nread := of_nat (Suc (Suc q))\<rparr>"]
      unfolding s by (simp only: mid_fields m)
  qed
  have 1: "R data (cur p h k None None None)
    = R data (cur (p + length (header_line (''connection'', v))) (?h2\<lparr>hp_state := s_header_value_lws\<rparr>) (put (''connection'', v) k) None None None)"
    by (rule run_line [OF _ ok vok _ assms(3,4) i f r]) (use assms line in simp_all)
  have 2: "?h2\<lparr>hp_state := s_header_value_lws\<rparr> = h\<lparr>hp_state := s_header_value_lws, hp_hstate := x1, hp_index := j\<rparr>" by (cases h) simp
  show ?thesis using 1 unfolding 2 line v_def [symmetric] x1_def [symmetric] by blast
qed

lemma digits_read:
  assumes "\<forall>c\<in>set ds. is_digit c" and "foldl (\<lambda>a c. 10 * a + dec_value c) a ds \<le> 10 ^ 18"
  shows "vread ds (h\<lparr>hp_hstate := h_content_length_num, hp_clen := of_nat a\<rparr>)
    = Some (h\<lparr>hp_hstate := h_content_length_num, hp_clen := of_nat (foldl (\<lambda>a c. 10 * a + dec_value c) a ds)\<rparr>)"
  using assms
proof (induction ds arbitrary: a)
  case (Cons c ds)
  have mono: "b \<le> foldl (\<lambda>a c. 10 * a + dec_value c) b ds" for b
  proof (induction ds arbitrary: b)
    case (Cons d ds)
    have "10 * b + dec_value d \<le> foldl (\<lambda>a c. 10 * a + dec_value c) (10 * b + dec_value d) ds" by (rule Cons.IH)
    then show ?case by simp
  qed simp
  have num: "IS_NUM c" "digit c = dec_value c" "c \<noteq> CHR '' ''"
    using Cons.prems(1) by (auto simp: is_digit_def IS_NUM_def digit_def dec_value_def)
  have "10 * a + dec_value c \<le> 10 ^ 18" using mono [of "10 * a + dec_value c"] Cons.prems(2) by simp
  then have a: "a \<le> 10 ^ 17" by simp
  have l: "unat ((ULLONG_MAX - 10) div 10) = 1844674407370955160" unfolding ULLONG_MAX_num by (simp add: unat_div)
  have "unat (of_nat a :: u64) = a" using a by (simp add: unat_of_nat)
  then have lim: "\<not> (ULLONG_MAX - 10) div 10 < (of_nat a :: u64)" using a unfolding word_less_nat_alt l by simp
  let ?h = "h\<lparr>hp_hstate := h_content_length_num, hp_clen := of_nat a\<rparr>"
  have "value_char [] c 0 ?h = (case content_length_digit c ?h of Inl e \<Rightarrow> V_error e 0 | Inr h1 \<Rightarrow> V_go 0 h1)"
    by (simp add: value_char_def)
  also have "content_length_digit c ?h = Inr (h\<lparr>hp_hstate := h_content_length_num, hp_clen := of_nat a * 10 + of_nat (dec_value c)\<rparr>)"
    using num lim by (simp only: content_length_digit_def hparser.simps) simp
  also have "(of_nat a * 10 + of_nat (dec_value c) :: u64) = of_nat (10 * a + dec_value c)" by simp
  finally have "value_char [] c 0 ?h = V_go 0 (h\<lparr>hp_hstate := h_content_length_num, hp_clen := of_nat (10 * a + dec_value c)\<rparr>)"
    by (simp only: sum.case)
  then have "vread (c # ds) ?h = vread ds (h\<lparr>hp_hstate := h_content_length_num, hp_clen := of_nat (10 * a + dec_value c)\<rparr>)"
    by (simp only: vread.simps value_step.case) simp
  also have "\<dots> = Some (h\<lparr>hp_hstate := h_content_length_num, hp_clen := of_nat (foldl (\<lambda>a c. 10 * a + dec_value c) (10 * a + dec_value c) ds)\<rparr>)"
    by (rule Cons.IH) (use Cons.prems in simp_all)
  finally show ?case by (simp only: foldl.simps)
qed simp

lemma run_length:
  assumes "here data p (header_line (''content-length'', show_nat n))" and "p + length (header_line (''content-length'', show_nat n)) \<le> max_header_size"
    and "hp_state h = s_header_field_start" and "hp_errno h = HPE_OK" and "n \<le> 10 ^ 18" and "F_CONTENTLENGTH \<notin> hp_flags h"
  shows "R data (cur p h k None None None) = R data (cur (p + length (header_line (''content-length'', show_nat n)))
      (h\<lparr>hp_state := s_header_value_lws, hp_hstate := h_content_length_num, hp_index := 0, hp_flags := insert F_CONTENTLENGTH (hp_flags h), hp_clen := of_nat n\<rparr>)
      (put (''content-length'', show_nat n) k) None None None)"
proof -
  let ?v = "show_nat n"
  obtain i where i: "after_name ''content-length'' h = h\<lparr>hp_state := s_header_field, hp_hstate := h_content_length, hp_index := i\<rparr>"
    using special_hstates by blast
  have dig: "\<forall>c\<in>set ?v. is_digit c" by (rule show_nat_digits)
  have "?v \<noteq> []" by (subst show_nat.simps) simp
  then obtain c w where v: "?v = c # w" by (cases ?v) auto
  have c: "IS_HEADER_CHAR c \<and> \<not> is_eol c \<and> c \<noteq> CHR '' '' \<and> c \<noteq> TAB \<and> IS_NUM c \<and> digit c = dec_value c" if "is_digit c" for c
    using that by (auto simp: IS_HEADER_CHAR_def is_eol_def CR_def LF_def TAB_def is_digit_def IS_NUM_def digit_def dec_value_def)
  have ok: "name_ok ''content-length''"
    by (simp add: name_ok_def STRICT_TOKEN_def IS_ALPHA_def IS_NUM_def LOWER_def)
  have vok: "value_ok ?v" using dig c v by (auto simp: value_ok_def)
  have n: "foldl (\<lambda>a c. 10 * a + dec_value c) (dec_value c) w = n" using read_show_nat [of n] by (simp add: read_dec_def v)
  let ?f = "insert F_CONTENTLENGTH (hp_flags h)"
  let ?h = "h\<lparr>hp_state := s_header_value, hp_index := 0, hp_flags := ?f, hp_hstate := h_content_length_num, hp_clen := of_nat (dec_value c)\<rparr>"
  let ?h2 = "h\<lparr>hp_state := s_header_value, hp_index := 0, hp_flags := ?f, hp_hstate := h_content_length_num, hp_clen := of_nat n\<rparr>"
  have set1: "flag_on F_CONTENTLENGTH (mid q g u f m l) = mid q (g\<lparr>hp_flags := insert F_CONTENTLENGTH (hp_flags g)\<rparr>) u f m l"
      "set_clen y (mid q g u f m l) = mid q (g\<lparr>hp_clen := y\<rparr>) u f m l" for q g f m l y and u :: request_sink
    by (simp_all add: mid_def flag_on_def set_clen_def)
  have f: "st_header_value_start (hd ?v) (mid q (h\<lparr>hp_state := s_header_value_discard_ws, hp_hstate := h_content_length, hp_index := i\<rparr>) u None None None)
      = Next (mid q ?h u None (Some q) None)" for q and u :: request_sink
    using c [of c] dig v assms(6) by (simp add: st_header_value_start_def Let_def mid_fields mid_set set1 MARK_def) (cases h, simp)
  have r: "value_loop request_settings data (Suc q) (mid (Suc q) ?h u None (Some q) None)
      = value_loop request_settings data (Suc q) ((mid (Suc q) ?h2 u None (Some q) None)\<lparr>sc_p := Suc q + length (tl ?v)\<rparr>)"
    if "here data (Suc q) (tl ?v @ [CR])" for q u
  proof -
    let ?g = "h\<lparr>hp_state := s_header_value, hp_index := 0, hp_flags := ?f, hp_nread := of_nat (Suc (Suc q))\<rparr>"
    have a: "here data (Suc q) w" using that v by (simp add: here_append)
    have b: "\<forall>c\<in>set w. IS_HEADER_CHAR c \<and> \<not> is_eol c" using dig c v by simp
    have s: "sc_h (mid (Suc q) ?h u None (Some q) None) = ?g\<lparr>hp_hstate := h_content_length_num, hp_clen := of_nat (dec_value c)\<rparr>"
      by (cases h) (simp add: mid_def)
    have m: "(mid (Suc q) ?h u None (Some q) None)\<lparr>sc_p := z, sc_h := ?g\<lparr>hp_hstate := h_content_length_num, hp_clen := of_nat n\<rparr>\<rparr>
        = (mid (Suc q) ?h2 u None (Some q) None)\<lparr>sc_p := z\<rparr>" for z by (cases h) (simp add: mid_def)
    have "vread w (?g\<lparr>hp_hstate := h_content_length_num, hp_clen := of_nat (dec_value c)\<rparr>) = Some (?g\<lparr>hp_hstate := h_content_length_num, hp_clen := of_nat n\<rparr>)"
      using digits_read [of w "dec_value c" ?g] dig v n assms(5) by simp
    then show ?thesis
      using value_special [of data "mid (Suc q) ?h u None (Some q) None" w] a b v unfolding s by (simp only: mid_fields m list.sel)
  qed
  have 1: "R data (cur p h k None None None)
    = R data (cur (p + length (header_line (''content-length'', ?v))) (?h2\<lparr>hp_state := s_header_value_lws\<rparr>) (put (''content-length'', ?v) k) None None None)"
    by (rule run_line [OF assms(1) ok vok assms(2-4) i f r]) (use assms(4) in simp_all)
  have 2: "?h2\<lparr>hp_state := s_header_value_lws\<rparr> = h\<lparr>hp_state := s_header_value_lws, hp_hstate := h_content_length_num, hp_index := 0, hp_flags := ?f, hp_clen := of_nat n\<rparr>"
    by (cases h) simp
  show ?thesis using 1 unfolding 2 .
qed

lemma pass_mid:
  assumes "Suc p \<le> max_header_size" and "PARSING_HEADER (hp_state h)"
  shows "loop_pass st data (cur p h u f v l) = reexecute st data (mid p h u f v l)"
proof -
  have m: "upd_h (\<lambda>h. h\<lparr>hp_nread := hp_nread h + of_nat 1\<rparr>) (cur p h u f v l) = mid p h u f v l"
    by (simp add: cur_def mid_def)
  have n: "unat (of_nat (Suc p) :: u32) = Suc p" using assms(1) by (simp only: unat_of_nat) (simp add: max_header_size_def)
  have c: "hp_state (sc_h (cur p h u f v l)) = hp_state h" "hp_nread (sc_h (mid p h u f v l)) = of_nat (Suc p)" by (simp_all add: cur_def mid_def)
  show ?thesis
    using assms by (simp only: loop_pass_def COUNT_HEADER_SIZE_def Let_def m n c if_True not_less [symmetric]) simp
qed

lemma finish_header_fields:
  "finish_header (h\<lparr>hp_state := v\<rparr>) = (finish_header h)\<lparr>hp_state := v\<rparr>" "finish_header (h\<lparr>hp_nread := n\<rparr>) = (finish_header h)\<lparr>hp_nread := n\<rparr>"
  by (cases h, cases "hp_hstate h", simp_all add: finish_header_def connection_flag_def)+

lemma lws:
  assumes "p < length data" and "data ! p \<noteq> CHR '' ''" and "data ! p \<noteq> TAB" and "Suc p \<le> max_header_size"
  shows "scan_loop st data (cur p (h\<lparr>hp_state := s_header_value_lws\<rparr>) u None None None)
    = scan_loop st data (cur p ((finish_header h)\<lparr>hp_state := s_header_field_start\<rparr>) u None None None)"
proof -
  have "exec_state st data (mid p (h\<lparr>hp_state := s_header_value_lws\<rparr>) u None None None)
      = Redo (mid p ((finish_header h)\<lparr>hp_state := s_header_field_start\<rparr>) u None None None)"
    using assms(2,3) by (simp add: exec_state_def mid_fields st_header_value_lws_def Let_def) (simp add: mid_def UPDATE_STATE_def finish_header_fields)
  then have "loop_pass st data (cur p (h\<lparr>hp_state := s_header_value_lws\<rparr>) u None None None)
      = loop_pass st data (cur p ((finish_header h)\<lparr>hp_state := s_header_field_start\<rparr>) u None None None)"
    using assms(4) by (simp add: pass_mid PARSING_HEADER_def reexecute_redo)
  then show ?thesis using assms(1) by (subst (1 2) scan_loop.simps) (simp add: cur_def)
qed

lemma token_start: "name_ok n \<Longrightarrow> hd (header_line (n, v)) \<noteq> CHR '' '' \<and> hd (header_line (n, v)) \<noteq> TAB \<and> header_line (n, v) \<noteq> []"
  using name_chars_not by (cases n) (auto simp: name_ok_def header_line_def)

lemma cr_start: "CR \<noteq> CHR '' '' \<and> CR \<noteq> TAB" by (simp add: CR_def TAB_def)

text \<open>A text that goes on with a header line or the empty line: its first character is no space.\<close>

definition no_space :: "string \<Rightarrow> bool" where "no_space w \<longleftrightarrow> w \<noteq> [] \<and> hd w \<noteq> CHR '' '' \<and> hd w \<noteq> TAB"

lemma lws_here:
  assumes "here data p w" and "no_space w" and "Suc p \<le> max_header_size"
  shows "R data (cur p (h\<lparr>hp_state := s_header_value_lws\<rparr>) k None None None)
    = R data (cur p ((finish_header h)\<lparr>hp_state := s_header_field_start\<rparr>) k None None None)"
  using assms by (intro lws) (cases w; simp add: no_space_def here_Cons)+

definition plain_field :: "string \<times> string \<Rightarrow> bool" where "plain_field i \<longleftrightarrow> name_plain (fst i) \<and> value_ok (snd i)"

lemma no_space_fields: "\<forall>i\<in>set is. plain_field i \<Longrightarrow> no_space w \<Longrightarrow> no_space (concat (map header_line is) @ w)"
  using token_start by (cases "is") (auto simp: no_space_def plain_field_def name_plain_def)

lemma run_fields:
  assumes "here data p (concat (map header_line is) @ w)" and "\<forall>i\<in>set is. plain_field i" and "no_space w"
    and "p + length (concat (map header_line is)) < max_header_size" and "hp_state h = s_header_field_start" and "hp_errno h = HPE_OK"
  shows "\<exists>x i. R data (cur p h k None None None) = R data (cur (p + length (concat (map header_line is)))
      (h\<lparr>hp_hstate := x, hp_index := i\<rparr>) (fold put is k) None None None)"
  using assms
proof (induction "is" arbitrary: p h k)
  case Nil
  have "h\<lparr>hp_hstate := hp_hstate h, hp_index := hp_index h\<rparr> = h" by (cases h) simp
  then show ?case by (intro exI [of _ "hp_hstate h"] exI [of _ "hp_index h"]) simp
next
  case (Cons i js)
  obtain n v where i: "i = (n, v)" by force
  have pf: "name_plain n" "value_ok v" using Cons.prems(2) i by (simp_all add: plain_field_def)
  let ?p = "p + length (header_line (n, v))"
  have a: "here data p (header_line (n, v))" "here data ?p (concat (map header_line js) @ w)"
    using Cons.prems(1) by (simp_all add: i text_here add.assoc)
  have b: "?p + length (concat (map header_line js)) < max_header_size" using Cons.prems(4) by (simp add: i)
  let ?h = "h\<lparr>hp_hstate := h_general, hp_index := 0\<rparr>"
  have 1: "R data (cur p h k None None None) = R data (cur ?p (h\<lparr>hp_state := s_header_value_lws, hp_hstate := h_general, hp_index := 0\<rparr>) (put (n, v) k) None None None)"
    by (rule run_plain [OF a(1) pf _ Cons.prems(5,6)]) (use b in simp)
  have e: "h\<lparr>hp_state := s_header_value_lws, hp_hstate := h_general, hp_index := 0\<rparr> = ?h\<lparr>hp_state := s_header_value_lws\<rparr>"
      "(finish_header ?h)\<lparr>hp_state := s_header_field_start\<rparr> = ?h"
    using Cons.prems(5) by (cases h, simp add: finish_header_def connection_flag_def)+
  have 2: "R data (cur ?p (?h\<lparr>hp_state := s_header_value_lws\<rparr>) (put (n, v) k) None None None) = R data (cur ?p ?h (put (n, v) k) None None None)"
    using lws_here [OF a(2) no_space_fields, of ?h "put (n, v) k"] Cons.prems(2,3) b unfolding e(2) by simp
  have ok: "hp_state ?h = s_header_field_start" "hp_errno ?h = HPE_OK" using Cons.prems(5,6) by simp_all
  obtain x j where 3: "R data (cur ?p ?h (put (n, v) k) None None None)
      = R data (cur (?p + length (concat (map header_line js))) (?h\<lparr>hp_hstate := x, hp_index := j\<rparr>) (fold put js (put (n, v) k)) None None None)"
    using Cons.IH [OF a(2) _ Cons.prems(3) b ok, of "put (n, v) k"] Cons.prems(2) by auto
  have 4: "?h\<lparr>hp_hstate := x, hp_index := j\<rparr> = h\<lparr>hp_hstate := x, hp_index := j\<rparr>" by (cases h) simp
  show ?case using 1 2 3 unfolding e(1) 4 by (intro exI [of _ x] exI [of _ j]) (simp add: i add.assoc)
qed

end
