(* ===== verification/HttpNames.thy ===== *)
theory HttpNames
  imports HttpParser
begin

text \<open>
  The name tables of src/hiper/http/http-parser/http_parser.cc and http_parser.h, and what the parsers of src/hiper/http/http_parser.cc
  log about an error. The lemmas show that every error has a name and that the request parser logs the wrong one.
\<close>

section \<open>The tables\<close>

text \<open>\<^verbatim>\<open>http_strerror_tab\<close>: each error with its name and description, in the order of their numbers.\<close>

definition strerror_tab :: "(http_errno \<times> string \<times> string) list" where
  "strerror_tab =
    [(HPE_OK, ''HPE_OK'', ''success''),
     (HPE_CB_message_begin, ''HPE_CB_message_begin'', ''the on_message_begin callback failed''),
     (HPE_CB_url, ''HPE_CB_url'', ''the on_url callback failed''),
     (HPE_CB_header_field, ''HPE_CB_header_field'', ''the on_header_field callback failed''),
     (HPE_CB_header_value, ''HPE_CB_header_value'', ''the on_header_value callback failed''),
     (HPE_CB_headers_complete, ''HPE_CB_headers_complete'', ''the on_headers_complete callback failed''),
     (HPE_CB_body, ''HPE_CB_body'', ''the on_body callback failed''),
     (HPE_CB_message_complete, ''HPE_CB_message_complete'', ''the on_message_complete callback failed''),
     (HPE_CB_status, ''HPE_CB_status'', ''the on_status callback failed''),
     (HPE_CB_chunk_header, ''HPE_CB_chunk_header'', ''the on_chunk_header callback failed''),
     (HPE_CB_chunk_complete, ''HPE_CB_chunk_complete'', ''the on_chunk_complete callback failed''),
     (HPE_INVALID_EOF_STATE, ''HPE_INVALID_EOF_STATE'', ''stream ended at an unexpected time''),
     (HPE_HEADER_OVERFLOW, ''HPE_HEADER_OVERFLOW'', ''too many header bytes seen; overflow detected''),
     (HPE_CLOSED_CONNECTION, ''HPE_CLOSED_CONNECTION'', ''data received after completed connection: close message''),
     (HPE_INVALID_VERSION, ''HPE_INVALID_VERSION'', ''invalid HTTP version''),
     (HPE_INVALID_STATUS, ''HPE_INVALID_STATUS'', ''invalid HTTP status code''),
     (HPE_INVALID_METHOD, ''HPE_INVALID_METHOD'', ''invalid HTTP method''),
     (HPE_INVALID_URL, ''HPE_INVALID_URL'', ''invalid URL''),
     (HPE_INVALID_HOST, ''HPE_INVALID_HOST'', ''invalid host''),
     (HPE_INVALID_PORT, ''HPE_INVALID_PORT'', ''invalid port''),
     (HPE_INVALID_PATH, ''HPE_INVALID_PATH'', ''invalid path''),
     (HPE_INVALID_QUERY_STRING, ''HPE_INVALID_QUERY_STRING'', ''invalid query string''),
     (HPE_INVALID_FRAGMENT, ''HPE_INVALID_FRAGMENT'', ''invalid fragment''),
     (HPE_LF_EXPECTED, ''HPE_LF_EXPECTED'', ''LF character expected''),
     (HPE_INVALID_HEADER_TOKEN, ''HPE_INVALID_HEADER_TOKEN'', ''invalid character in header''),
     (HPE_INVALID_CONTENT_LENGTH, ''HPE_INVALID_CONTENT_LENGTH'', ''invalid character in content-length header''),
     (HPE_UNEXPECTED_CONTENT_LENGTH, ''HPE_UNEXPECTED_CONTENT_LENGTH'', ''unexpected content-length header''),
     (HPE_INVALID_CHUNK_SIZE, ''HPE_INVALID_CHUNK_SIZE'', ''invalid character in chunk size header''),
     (HPE_INVALID_CONSTANT, ''HPE_INVALID_CONSTANT'', ''invalid constant string''),
     (HPE_INVALID_INTERNAL_STATE, ''HPE_INVALID_INTERNAL_STATE'', ''encountered unexpected internal state''),
     (HPE_STRICT, ''HPE_STRICT'', ''strict mode assertion failed''),
     (HPE_PAUSED, ''HPE_PAUSED'', ''parser is paused''),
     (HPE_UNKNOWN, ''HPE_UNKNOWN'', ''an unknown error occurred'')]"

text \<open>The two lookups by number; outside the table they fail their assertion.\<close>

definition http_errno_name :: "nat \<Rightarrow> string option" where
  "http_errno_name err = (if err < length strerror_tab then Some (fst (snd (strerror_tab ! err))) else None)"

definition http_errno_description :: "nat \<Rightarrow> string option" where
  "http_errno_description err = (if err < length strerror_tab then Some (snd (snd (strerror_tab ! err))) else None)"

definition http_method_str :: "nat \<Rightarrow> string" where
  "http_method_str m = (if m < length method_table then snd (snd (method_table ! m)) else ''<unknown>'')"

definition http_status_str :: "nat \<Rightarrow> string" where
  "http_status_str s = (case find (\<lambda>(c, _). c = s) status_table of Some (_, t) \<Rightarrow> t | None \<Rightarrow> ''<unknown>'')"

definition http_body_is_final :: "hparser \<Rightarrow> bool" where
  "http_body_is_final h \<longleftrightarrow> hp_state h = s_message_done"

definition http_parser_version :: u64 where
  "http_parser_version = (2 * 0x10000) OR (9 * 0x00100) OR (2 * 0x00001)"

section \<open>What is logged about an error\<close>

text \<open>The line that the request parser logs when its machine has stopped with an error; \<open>None\<close> is a failed assertion.\<close>

definition request_error_line :: "request_parser \<Rightarrow> string option" where
  "request_error_line rp =
     Option.bind (http_errno_name (nat (rp_error rp))) (\<lambda>n. Option.bind (http_errno_description (nat (rp_error rp))) (\<lambda>d.
       Some (''http request parse error: '' @ n @ '' '' @ d)))"

definition response_error_line :: "hparser \<Rightarrow> string option" where
  "response_error_line h = Option.bind (http_errno_name (nat (errno_num (hp_errno h)))) (\<lambda>n. Some (''parse response fail: '' @ n))"

lemma strerror_order: "map fst strerror_tab = errno_list"
  by (simp add: strerror_tab_def errno_list_def)

lemma errno_num_nth: "nat (errno_num e) < length errno_list \<and> errno_list ! nat (errno_num e) = e"
  by (cases e) (simp_all add: errno_num_def errno_list_def)

text \<open>Every error of the machine has a name and a description: the assertion does not fail for it.\<close>

lemma errno_named: "\<exists>n d. http_errno_name (nat (errno_num e)) = Some n \<and> http_errno_description (nat (errno_num e)) = Some d
    \<and> (e, n, d) \<in> set strerror_tab"
proof -
  let ?k = "nat (errno_num e)"
  have l: "?k < length strerror_tab" using errno_num_nth [of e] strerror_order by (metis length_map)
  then have "fst (strerror_tab ! ?k) = e" using errno_num_nth [of e] strerror_order by (metis nth_map)
  then show ?thesis using l nth_mem [OF l] by (cases "strerror_tab ! ?k") (auto simp: http_errno_name_def http_errno_description_def)
qed

text \<open>
  The response parser logs the error that has happened. The request parser logs the one stored before: for the first error of a
  parser that is always success.
\<close>

lemma request_error_misnamed: "rp_error rp = 0 \<Longrightarrow> request_error_line rp = Some ''http request parse error: HPE_OK success''"
  by (simp add: request_error_line_def http_errno_name_def http_errno_description_def strerror_tab_def)

lemma response_error_named: "\<exists>n d. response_error_line h = Some (''parse response fail: '' @ n) \<and> (hp_errno h, n, d) \<in> set strerror_tab"
  using errno_named [of "hp_errno h"] by (auto simp: response_error_line_def)

lemma method_names: "\<forall>e\<in>set method_table. http_method_str (fst e) = snd (snd e)"
  by (simp add: http_method_str_def method_table_def)

end
