(* ===== verification/HttpRoundtrip.thy ===== *)
theory HttpRoundtrip
  imports HttpFields
begin

text \<open>
  A request as \<^verbatim>\<open>HttpRequest::dump\<close> (\<^verbatim>\<open>http/http.cc\<close>) prints it, read by \<^verbatim>\<open>HttpRequestParser\<close> (\<^verbatim>\<open>http/http_parser.cc\<close>): it
  is finished without an error and has the method, version, path, query, fragment, headers and body of the printed one.
  The last section is about data that arrives in pieces: a header value that is cut in two loses its first piece.
\<close>

section \<open>The end of a message\<close>

definition ends :: "string \<Rightarrow> request_sink flow \<Rightarrow> request_sink \<Rightarrow> bool" where
  "ends data f k \<longleftrightarrow> (\<exists>s. f = Done (length data) s \<and> hp_errno (sc_h s) = HPE_OK \<and> \<not> hp_upgrade (sc_h s) \<and> sc_u s = k)"

definition completed :: "hparser \<Rightarrow> request_sink \<Rightarrow> request_sink" where
  "completed h k = set_data (\<lambda>r. r\<lparr>rq_method := hp_method h, rq_version := version_of h\<rparr>) k"

lemma ends_quiet:
  assumes "quiet s" and "sc_p s = length data" and "\<not> hp_upgrade (sc_h s)"
  shows "ends data (R data s) (sc_u s)"
  using assms by (subst scan_loop.simps)
    (simp add: ends_def finish_scan_def marks_def quiet_def data_field_def data_value_def data_url_def data_body_def data_status_def CALLBACK_DATA_def)

lemma end_callback: "on_message_complete request_settings = (\<lambda>h k. (0, k\<lparr>rk_finished := True\<rparr>))"
    "on_headers_complete request_settings = (\<lambda>h k. (0, completed h k))"
    "on_body request_settings = (\<lambda>h b k. (0, set_data (\<lambda>r. r\<lparr>rq_body := rq_body r @ b\<rparr>) k))"
  by (simp_all add: request_settings_def on_request_message_complete_cb_def on_request_headers_complete_cb_def on_request_body_cb_def completed_def fun_eq_iff)

lemma message_complete_next:
  assumes "quiet s"
  shows "message_complete request_settings f s = f ((new_message s)\<lparr>sc_u := (sc_u s)\<lparr>rk_finished := True\<rparr>\<rparr>)"
  using assms by (simp add: message_complete_def CALLBACK_NOTIFY_def end_callback quiet_def setter_defs)

definition plain_request :: "hparser \<Rightarrow> bool" where
  "plain_request h \<longleftrightarrow> hp_type h = HTTP_REQUEST \<and> hp_errno h = HPE_OK \<and> hp_method h \<noteq> CONNECT
     \<and> hp_flags h \<inter> {F_TRAILING, F_CHUNKED, F_UPGRADE, F_SKIPBODY} = {}"

text \<open>The empty line: what the second of its characters finds.\<close>

lemma run_empty_line:
  assumes "here data p [CR, LF]" and "p + 2 \<le> max_header_size" and "hp_state h = s_header_field_start" and "plain_request h"
  shows "R data (cur p h k None None None) =
    (case st_headers_done request_settings LF (mid (Suc p) (h\<lparr>hp_state := s_headers_done, hp_upgrade := False\<rparr>) (completed h k) None None None) of
       Next s1 \<Rightarrow> R data (s1\<lparr>sc_p := Suc (sc_p s1)\<rparr>) | Redo s1 \<Rightarrow> (case reexecute request_settings data s1 of Next s2 \<Rightarrow> R data (s2\<lparr>sc_p := Suc (sc_p s2)\<rparr>) | f \<Rightarrow> f)
     | Done n s1 \<Rightarrow> Done n s1 | Assertion \<Rightarrow> Assertion)"
proof -
  have p: "p < length data" "data ! p = CR" "Suc p < length data" "data ! Suc p = LF" using assms(1) by (simp_all add: text_here)
  have f: "hp_errno h = HPE_OK" "hp_method h \<noteq> CONNECT" "F_TRAILING \<notin> hp_flags h" "F_CHUNKED \<notin> hp_flags h" "F_UPGRADE \<notin> hp_flags h"
    using assms(4) by (auto simp: plain_request_def)
  let ?h = "h\<lparr>hp_state := s_headers_almost_done\<rparr>"
  have 1: "R data (cur p h k None None None) = R data (cur (Suc p) ?h k None None None)"
    using p assms(2,3) by (intro one) (simp_all add: PARSING_HEADER_def exec_state_def mid_fields mid_set st_header_field_start_def)
  let ?m = "mid (Suc p) (h\<lparr>hp_state := s_headers_done, hp_upgrade := False\<rparr>) (completed h k) None None None"
  have u: "upd_h (\<lambda>h. h\<lparr>hp_upgrade := upgrade_of h\<rparr>) (UPDATE_STATE s_headers_done (mid (Suc p) ?h k None None None))
      = mid (Suc p) (h\<lparr>hp_state := s_headers_done, hp_upgrade := False\<rparr>) k None None None"
    using f by (cases h) (simp add: mid_def UPDATE_STATE_def upgrade_of_def)
  have c: "completed (sc_h (mid (Suc p) (h\<lparr>hp_state := s_headers_done, hp_upgrade := False\<rparr>) k None None None)) k = completed h k"
    by (simp add: completed_def mid_def version_of_def)
  have e: "exec_state request_settings data (mid (Suc p) ?h k None None None) = Redo ?m"
    using f p(4) u c by (simp add: exec_state_def mid_fields st_headers_almost_done_def end_callback(2) Let_def mid_set)
  have d: "exec_state request_settings data ?m = st_headers_done request_settings LF ?m" using p(4) by (simp add: exec_state_def mid_fields)
  have "loop_pass request_settings data (cur (Suc p) ?h k None None None) = reexecute request_settings data ?m"
    using assms(2) by (simp add: pass_mid PARSING_HEADER_def reexecute_redo [OF e])
  also have "\<dots> = (case st_headers_done request_settings LF ?m of
     Next s1 \<Rightarrow> Next s1 | Redo s1 \<Rightarrow> reexecute request_settings data s1 | Done n s1 \<Rightarrow> Done n s1 | Assertion \<Rightarrow> Assertion)"
    unfolding d [symmetric] by (subst reexecute.simps) simp
  finally have "R data (cur (Suc p) ?h k None None None) =
    (case st_headers_done request_settings LF ?m of
       Next s1 \<Rightarrow> R data (s1\<lparr>sc_p := Suc (sc_p s1)\<rparr>) | Redo s1 \<Rightarrow> (case reexecute request_settings data s1 of Next s2 \<Rightarrow> R data (s2\<lparr>sc_p := Suc (sc_p s2)\<rparr>) | f \<Rightarrow> f)
     | Done n s1 \<Rightarrow> Done n s1 | Assertion \<Rightarrow> Assertion)"
    using p(3) by (subst scan_loop.simps) (simp add: cur_def split: flow.splits)
  then show ?thesis using 1 by simp
qed

lemma run_end_empty:
  assumes "here data p [CR, LF]" and "p + 2 \<le> max_header_size" and "hp_state h = s_header_field_start" and "plain_request h"
    and "length data = p + 2" and "hp_clen h = ULLONG_MAX"
  shows "ends data (R data (cur p h k None None None)) ((completed h k)\<lparr>rk_finished := True\<rparr>)"
proof -
  let ?m = "mid (Suc p) (h\<lparr>hp_state := s_headers_done, hp_upgrade := False\<rparr>) (completed h k) None None None"
  let ?s = "upd_h (\<lambda>h. h\<lparr>hp_nread := 0\<rparr>) ?m"
  have f: "hp_type h = HTTP_REQUEST" "hp_errno h = HPE_OK" "F_CHUNKED \<notin> hp_flags h" "F_SKIPBODY \<notin> hp_flags h"
    using assms(4) by (auto simp: plain_request_def)
  have q: "quiet ?s" using f by (simp add: quiet_def mid_def)
  have ne: "\<not> http_message_needs_eof (sc_h ?s)" using f by (simp add: http_message_needs_eof_def mid_def)
  have clen: "hp_clen (sc_h ?s) = ULLONG_MAX" "hp_upgrade (sc_h ?s) = False" "F_CHUNKED \<notin> hp_flags (sc_h ?s)" "F_SKIPBODY \<notin> hp_flags (sc_h ?s)"
    using f assms(6) by (simp_all add: mid_def)
  have z: "ULLONG_MAX \<noteq> 0" by (simp add: ULLONG_MAX_num)
  let ?n = "(new_message ?s)\<lparr>sc_u := (sc_u ?s)\<lparr>rk_finished := True\<rparr>\<rparr>"
  have "st_headers_done request_settings LF ?m = message_complete request_settings Next ?s"
    using clen ne z unfolding st_headers_done_def Let_def by (simp del: scan.simps hparser.simps)
  then have d: "st_headers_done request_settings LF ?m = Next ?n" using message_complete_next [OF q] by simp
  have "ends data (R data (?n\<lparr>sc_p := Suc (sc_p ?n)\<rparr>)) (sc_u (?n\<lparr>sc_p := Suc (sc_p ?n)\<rparr>))"
    by (rule ends_quiet) (use q assms(5) in \<open>simp_all add: quiet_def setter_defs mid_def\<close>)
  moreover have "sc_u (?n\<lparr>sc_p := Suc (sc_p ?n)\<rparr>) = (completed h k)\<lparr>rk_finished := True\<rparr>" by (simp add: mid_def)
  ultimately show ?thesis unfolding run_empty_line [OF assms(1-4)] d by (simp only: flow.case)
qed

lemma run_end_body:
  assumes "here data p ([CR, LF] @ body)" and "p + 2 \<le> max_header_size" and "hp_state h = s_header_field_start" and "plain_request h"
    and "length data = p + 2 + length body" and "hp_clen h = of_nat (length body)" and "body \<noteq> []" and "length body \<le> 10 ^ 18"
  shows "ends data (R data (cur p h k None None None)) ((set_data (\<lambda>r. r\<lparr>rq_body := rq_body r @ body\<rparr>) (completed h k))\<lparr>rk_finished := True\<rparr>)"
proof -
  let ?m = "mid (Suc p) (h\<lparr>hp_state := s_headers_done, hp_upgrade := False\<rparr>) (completed h k) None None None"
  let ?s = "upd_h (\<lambda>h. h\<lparr>hp_nread := 0\<rparr>) ?m"
  have f: "hp_type h = HTTP_REQUEST" "hp_errno h = HPE_OK" "F_CHUNKED \<notin> hp_flags h" "F_SKIPBODY \<notin> hp_flags h"
    using assms(4) by (auto simp: plain_request_def)
  have h: "here data p [CR, LF]" "here data (p + 2) body" using assms(1) by (simp_all only: here_append) simp
  have len: "unat (of_nat (length body) :: u64) = length body" using assms(8) by (simp add: unat_of_nat)
  have n0: "(of_nat (length body) :: u64) \<noteq> 0" using len assms(7) by (metis length_0_conv unat_0)
  have nm: "(of_nat (length body) :: u64) \<noteq> ULLONG_MAX" by (rule below_ULLONG_MAX) (use len assms(8) in simp)
  have clen: "hp_clen (sc_h ?s) = of_nat (length body)" "hp_upgrade (sc_h ?s) = False" "F_CHUNKED \<notin> hp_flags (sc_h ?s)" "F_SKIPBODY \<notin> hp_flags (sc_h ?s)"
    using f assms(6) by (simp_all add: mid_def)
  have d: "st_headers_done request_settings LF ?m = Next (UPDATE_STATE s_body_identity ?s)"
    using clen n0 nm unfolding st_headers_done_def Let_def by (simp del: scan.simps hparser.simps)
  let ?b = "(UPDATE_STATE s_body_identity ?s)\<lparr>sc_p := p + 2\<rparr>"
  have b: "sc_p ?b = p + 2" "hp_state (sc_h ?b) = s_body_identity" "hp_clen (sc_h ?b) = of_nat (length body)" "sc_u ?b = completed h k" "quiet ?b" "\<not> hp_upgrade (sc_h ?b)"
    using f assms(6) by (simp_all add: mid_def setter_defs quiet_def)
  have tr: "to_read data ?b = length body" using b(1,3) assms(5) len by (simp add: to_read_def)
  let ?t = "take_body data ?b"
  have t: "hp_clen (sc_h ?t) = 0" "sc_p ?t = p + 2 + (length body - 1)" "sc_body ?t = Some (p + 2)" "sc_u ?t = completed h k" "hp_errno (sc_h ?t) = HPE_OK"
    using tr b by (simp_all add: take_body_def Let_def set_clen_def MARK_def quiet_def)
  have bd: "take (Suc (sc_p ?t) - (p + 2)) (drop (p + 2) data) = body" using here_take [OF h(2)] t(2) assms(7) by (cases body) simp_all
  let ?k = "set_data (\<lambda>r. r\<lparr>rq_body := rq_body r @ body\<rparr>) (completed h k)"
  let ?d = "(UPDATE_STATE s_message_done ?t)\<lparr>sc_u := ?k, sc_body := None\<rparr>"
  have "exec_state request_settings data ?b = st_body_identity request_settings data ?b" using b(2) by (simp add: exec_state_def Let_def)
  also have "\<dots> = data_body request_settings data (Suc (sc_p ?t)) (sc_p ?t) Redo (UPDATE_STATE s_message_done ?t)"
    using b(3) n0 nm t(1) by (simp add: st_body_identity_def Let_def)
  also have "\<dots> = Redo ?d"
    using t bd by (simp add: data_body_def CALLBACK_DATA_def UPDATE_STATE_def end_callback(3) Let_def)
  finally have e: "exec_state request_settings data ?b = Redo ?d" .
  have dq: "quiet ?d" "\<not> hp_upgrade (sc_h ?d)" "hp_state (sc_h ?d) = s_message_done"
    using b by (simp_all add: quiet_def take_body_def Let_def setter_defs)
  let ?n = "(new_message ?d)\<lparr>sc_u := (sc_u ?d)\<lparr>rk_finished := True\<rparr>\<rparr>"
  have "exec_state request_settings data ?d = st_message_done request_settings ?d" using dq(3) by (simp add: exec_state_def Let_def)
  also have "\<dots> = Next ?n" unfolding st_message_done_def message_complete_next [OF dq(1)] using dq(2) by (simp add: setter_defs)
  finally have x: "reexecute request_settings data ?b = Next ?n" using e by (simp add: reexecute_redo reexecute_next)
  have "\<not> PARSING_HEADER (hp_state (sc_h ?b))" unfolding b(2) by (simp add: PARSING_HEADER_def)
  then have lp: "loop_pass request_settings data ?b = Next ?n" using x by (simp only: loop_pass_def if_False)
  have "p + 2 < length data" using assms(5,7) by simp
  then have r: "R data ?b = R data (?n\<lparr>sc_p := Suc (sc_p ?n)\<rparr>)" using lp b(1) by (subst scan_loop.simps) simp
  have np: "sc_p ?n = p + 2 + (length body - 1)" "sc_u ?n = ?k\<lparr>rk_finished := True\<rparr>" using t(2) by (simp_all add: setter_defs)
  have "ends data (R data (?n\<lparr>sc_p := Suc (sc_p ?n)\<rparr>)) (sc_u (?n\<lparr>sc_p := Suc (sc_p ?n)\<rparr>))"
  proof (rule ends_quiet)
    show "sc_p (?n\<lparr>sc_p := Suc (sc_p ?n)\<rparr>) = length data" using np(1) assms(5,7) by (cases body) simp_all
  qed (use dq in \<open>simp_all add: quiet_def setter_defs\<close>)
  moreover have "(UPDATE_STATE s_body_identity ?s)\<lparr>sc_p := Suc (sc_p (UPDATE_STATE s_body_identity ?s))\<rparr> = ?b" by (simp add: setter_defs mid_def)
  ultimately show ?thesis unfolding run_empty_line [OF h(1) assms(2-4)] d using r np(2) by simp
qed

section \<open>The maps of headers\<close>

lemma ci_get_Cons: "ci_get k (i # m) = (if fold_key k = fold_key (fst i) then Some (snd i) else ci_get k m)"
  using ci_equiv [of k "fst i"] by (cases i) (simp add: ci.equiv_def)

lemma ci_get_append: "ci_get k (a @ b) = (case ci_get k a of Some v \<Rightarrow> Some v | None \<Rightarrow> ci_get k b)"
  by (induction a) (simp_all add: ci_get_Cons)

lemma ci_get_None: "ci_get k m = None \<longleftrightarrow> fold_key k \<notin> (\<lambda>i. fold_key (fst i)) ` set m"
  by (induction m) (auto simp: ci_get_Cons)

lemma ci_get_filter:
  "(\<And>i. i \<in> set m \<Longrightarrow> fold_key (fst i) = fold_key k \<Longrightarrow> P i) \<Longrightarrow> ci_get k (filter P m) = ci_get k m"
  by (induction m) (auto simp: ci_get_Cons)

definition keys_distinct :: "http_map \<Rightarrow> bool" where "keys_distinct m \<longleftrightarrow> distinct (map (\<lambda>i. fold_key (fst i)) m)"

lemma ci_sorted_distinct: "ci_sorted m \<Longrightarrow> keys_distinct m"
proof (induction m)
  case (Cons i m)
  have "\<forall>j\<in>set m. CaseInsensitiveLess (fst i) (fst j)" "ci_sorted m" using Cons.prems by (auto simp: ci_sorted_def)
  moreover have "fold_key a \<noteq> fold_key b" if "CaseInsensitiveLess a b" for a b
    using that ci_equiv [of a b] by (auto simp: ci.equiv_def)
  ultimately show ?case using Cons.IH by (fastforce simp: keys_distinct_def)
qed (simp add: keys_distinct_def)

lemma set_all_get:
  "keys_distinct is \<Longrightarrow> ci_sorted m \<Longrightarrow> ci_get k (fold (\<lambda>i. ci_set (fst i) (snd i)) is m)
     = (case ci_get k is of Some v \<Rightarrow> Some v | None \<Rightarrow> ci_get k m)"
proof (induction "is" arbitrary: m)
  case (Cons i js)
  have d: "keys_distinct js" "fold_key (fst i) \<notin> (\<lambda>i. fold_key (fst i)) ` set js" using Cons.prems(1) by (auto simp: keys_distinct_def)
  have "ci_get k (fold (\<lambda>i. ci_set (fst i) (snd i)) js (ci_set (fst i) (snd i) m))
      = (case ci_get k js of Some v \<Rightarrow> Some v | None \<Rightarrow> ci_get k (ci_set (fst i) (snd i) m))"
    using Cons.IH [OF d(1)] ci_laws(1) [OF Cons.prems(2)] by blast
  moreover have "ci_get k js = None" if "fold_key k = fold_key (fst i)" using d(2) that by (simp add: ci_get_None)
  ultimately show ?case by (auto simp: ci_get_Cons ci_laws(4) [OF Cons.prems(2)] split: option.splits)
qed simp

lemma same_name: "strcasecmp (c_str a) b = 0 \<longleftrightarrow> fold_key a = ToLower b"
  by (simp add: strcasecmp_eq fold_key_def ToLower_def)

lemma names_folded: "ToLower ''connection'' = fold_key ''connection''" "ToLower ''content-length'' = fold_key ''content-length''"
    "fold_key ''connection'' \<noteq> fold_key ''content-length''"
  by code_simp+

lemma fields_get:
  assumes "ci_sorted (rq_headers r)" and "\<not> rq_websocket r"
  shows "keys_distinct (request_fields r)"
    and "ci_get k (request_fields r) =
      (if fold_key k = fold_key ''connection'' then Some (if rq_close r then ''close'' else ''keep-alive'')
       else if rq_body r \<noteq> [] \<and> fold_key k = fold_key ''content-length'' then Some (show_nat (length (rq_body r)))
       else ci_get k (rq_headers r))"
proof -
  have s: "skip_request r i \<longleftrightarrow> fold_key (fst i) = fold_key ''connection'' \<or> rq_body r \<noteq> [] \<and> fold_key (fst i) = fold_key ''content-length''" for i
    using assms(2) by (simp add: skip_request_def same_name names_folded(1,2))
  have d: "distinct (map (\<lambda>i. fold_key (fst i)) (filter (\<lambda>i. \<not> skip_request r i) (rq_headers r)))"
    using ci_sorted_distinct [OF assms(1)] by (simp add: keys_distinct_def distinct_map_filter)
  show "keys_distinct (request_fields r)"
    using assms(2) d s names_folded(3) by (auto simp: request_fields_def keys_distinct_def)
  show "ci_get k (request_fields r) =
      (if fold_key k = fold_key ''connection'' then Some (if rq_close r then ''close'' else ''keep-alive'')
       else if rq_body r \<noteq> [] \<and> fold_key k = fold_key ''content-length'' then Some (show_nat (length (rq_body r)))
       else ci_get k (rq_headers r))"
  proof -
    let ?f = "filter (\<lambda>i. \<not> skip_request r i) (rq_headers r)"
    have a: "ci_get k ?f = ci_get k (rq_headers r)" if "fold_key k \<noteq> fold_key ''connection''" "\<not> (rq_body r \<noteq> [] \<and> fold_key k = fold_key ''content-length'')"
      by (rule ci_get_filter) (use that s in auto)
    have b: "ci_get k ?f = None" if "rq_body r \<noteq> []" "fold_key k = fold_key ''content-length''"
      using that s by (auto simp: ci_get_None)
    have c: "ci_get k (request_fields r) = (if fold_key k = fold_key ''connection'' then Some (if rq_close r then ''close'' else ''keep-alive'')
        else case ci_get k ?f of Some v \<Rightarrow> Some v
        | None \<Rightarrow> if rq_body r \<noteq> [] \<and> fold_key k = fold_key ''content-length'' then Some (show_nat (length (rq_body r))) else None)"
      using assms(2)
      by (simp del: map_find.simps(2) add: request_fields_def ci_get_Cons ci_get_append cong: option.case_cong)
    consider "fold_key k = fold_key ''connection''" | "fold_key k \<noteq> fold_key ''connection''" "rq_body r \<noteq> []" "fold_key k = fold_key ''content-length''"
      | "fold_key k \<noteq> fold_key ''connection''" "\<not> (rq_body r \<noteq> [] \<and> fold_key k = fold_key ''content-length'')" by blast
    then show ?thesis
    proof cases
      case 1
      then show ?thesis unfolding c by simp
    next
      case 2
      then show ?thesis unfolding c using b by simp
    next
      case 3
      then show ?thesis unfolding c a [OF 3] by (simp only: if_False) (simp split: option.split)
    qed
  qed
qed

lemma put_all:
  "rk_data (fold put is k) = (rk_data k)\<lparr>rq_headers := fold (\<lambda>i. ci_set (fst i) (snd i)) is (rq_headers (rk_data k))\<rparr>"
proof (induction "is" arbitrary: k)
  case (Cons i js)
  have "rk_data (put i k) = (rk_data k)\<lparr>rq_headers := ci_set (fst i) (snd i) (rq_headers (rk_data k))\<rparr>"
    by (simp add: put_def set_data_def setHeader_def)
  then show ?case using Cons by simp
qed simp

section \<open>A printed request\<close>

definition printable :: "http_request \<Rightarrow> bool" where
  "printable r \<longleftrightarrow> rq_ok r \<and> rq_method r \<noteq> INVALID_METHOD \<and> rq_method r \<noteq> CONNECT
     \<and> unat (drop_bit 4 (rq_version r)) < 10 \<and> unat (rq_version r AND 0x0F) < 10
     \<and> path_ok (rq_path r) \<and> query_ok (rq_query r) \<and> fragment_ok (rq_fragment r)
     \<and> length (url_of (rq_path r) (rq_query r) (rq_fragment r)) < 65536
     \<and> \<not> rq_websocket r \<and> (\<forall>i\<in>set (rq_headers r). \<not> skip_request r i \<longrightarrow> plain_field i) \<and> length (rq_body r) \<le> 10 ^ 18"

lemma version_back: "push_bit 4 (of_nat (unat (drop_bit 4 v)) :: u8) OR of_nat (unat (v AND 0x0F)) = v"
proof -
  have "push_bit 4 (drop_bit 4 v) OR (v AND mask 4) = v"
    by (rule bit_word_eqI) (auto simp: bit_or_iff bit_and_iff bit_mask_iff bit_push_bit_iff bit_drop_bit_eq)
  moreover have "(mask 4 :: u8) = 0x0F" by (simp add: mask_eq_exp_minus_1)
  ultimately show ?thesis by simp
qed

lemma printed_text:
  assumes "printable r"
  shows "dump_request r = Inr (request_line (rq_method r) (rq_path r) (rq_query r) (rq_fragment r) (unat (drop_bit 4 (rq_version r))) (unat (rq_version r AND 0x0F))
      @ connection_line (rq_close r) @ concat (map header_line (filter (\<lambda>i. \<not> skip_request r i) (rq_headers r)))
      @ (if rq_body r = [] then [] else header_line (''content-length'', show_nat (length (rq_body r)))) @ [CR, LF] @ rq_body r)"
proof -
  have m: "HttpMethodToString (rq_method r) = Inr (method_text (rq_method r))"
    using assms method_string_method [of "rq_method r"] by (auto simp: printable_def method_text_def split: sum.splits)
  have d: "show_nat n = [dec_digit n]" if "n < 10" for n using that by (subst show_nat.simps) simp
  have v: "version_text (rq_version r) @ crlf = version_line (unat (drop_bit 4 (rq_version r))) (unat (rq_version r AND 0x0F))"
    using assms d by (simp add: printable_def version_text_def version_line_def crlf_chars)
  have u: "rq_path r @ (if rq_query r = [] then '''' else ''?'') @ rq_query r @ (if rq_fragment r = [] then '''' else ''#'') @ rq_fragment r
      = url_of (rq_path r) (rq_query r) (rq_fragment r)"
    by (simp add: url_of_def)
  have f: "concat (map header_line (request_fields r)) = connection_line (rq_close r) @ concat (map header_line (filter (\<lambda>i. \<not> skip_request r i) (rq_headers r)))
      @ (if rq_body r = [] then [] else header_line (''content-length'', show_nat (length (rq_body r))))"
    using assms by (simp add: request_fields_def printable_def header_lines(1))
  show ?thesis
    unfolding dump_request_fields [OF m] f request_line_def using u v by (simp add: crlf_chars)
qed

lemma no_space_cr: "no_space (CR # w)" using cr_start by (simp add: no_space_def)

lemma no_space_line: "name_ok n \<Longrightarrow> no_space (header_line (n, v) @ w)"
  using token_start [of n v] by (simp add: no_space_def)

lemma finish_plain:
  "hp_hstate h = h_general \<or> hp_hstate h = h_content_length_num \<Longrightarrow> finish_header h = h"
  by (auto simp: finish_header_def connection_flag_def)

lemma finish_connection:
  "finish_header (h\<lparr>hp_hstate := if c then h_connection_close else h_connection_keep_alive\<rparr>)
    = h\<lparr>hp_hstate := if c then h_connection_close else h_connection_keep_alive,
        hp_flags := insert (if c then F_CONNECTION_CLOSE else F_CONNECTION_KEEP_ALIVE) (hp_flags h)\<rparr>"
  by (cases h) (simp add: finish_header_def connection_flag_def)

text \<open>The header lines, from the connection on; the parser behind them, up to what they leave in its scratch fields.\<close>

definition behind_fields :: "hparser \<Rightarrow> string \<Rightarrow> hparser \<Rightarrow> bool" where
  "behind_fields h body h1 \<longleftrightarrow> hp_state h1 = s_header_field_start \<and> plain_request h1 \<and> hp_method h1 = hp_method h
     \<and> hp_major h1 = hp_major h \<and> hp_minor h1 = hp_minor h
     \<and> hp_clen h1 = (if body = [] then ULLONG_MAX else of_nat (length body))"

lemma run_all_fields:
  assumes "here data p (connection_line close @ concat (map header_line fs)
      @ (if body = [] then [] else header_line (''content-length'', show_nat (length body))) @ [CR, LF] @ body)"
    and "\<forall>i\<in>set fs. plain_field i" and "length body \<le> 10 ^ 18"
    and "p + length (connection_line close @ concat (map header_line fs)
      @ (if body = [] then [] else header_line (''content-length'', show_nat (length body)))) + 2 \<le> max_header_size"
    and "hp_state h = s_header_field_start" and "plain_request h" and "hp_flags h = {}" and "hp_clen h = ULLONG_MAX"
  shows "\<exists>h1. behind_fields h body h1 \<and> R data (cur p h k None None None)
    = R data (cur (p + length (connection_line close @ concat (map header_line fs)
         @ (if body = [] then [] else header_line (''content-length'', show_nat (length body))))) h1
        (fold put ([(''connection'', if close then ''close'' else ''keep-alive'')] @ fs
          @ (if body = [] then [] else [(''content-length'', show_nat (length body))])) k) None None None)"
proof -
  let ?C = "length (connection_line close)" and ?F = "length (concat (map header_line fs))"
  let ?L = "header_line (''content-length'', show_nat (length body))"
  let ?rest = "(if body = [] then [] else ?L) @ [CR, LF] @ body"
  have H: "here data p (connection_line close)" "here data (p + ?C) (concat (map header_line fs) @ ?rest)"
      "here data (p + ?C + ?F) ?rest"
    using assms(1) by (simp_all only: here_append add.assoc)
  have ok: "hp_errno h = HPE_OK" using assms(6) by (simp add: plain_request_def)
  have len_ok: "name_ok ''content-length''" by (simp add: name_ok_def STRICT_TOKEN_def IS_ALPHA_def IS_NUM_def LOWER_def)
  have ns: "no_space ?rest" using no_space_cr no_space_line [OF len_ok] by simp
  have ns2: "no_space (concat (map header_line fs) @ ?rest)" by (rule no_space_fields [OF assms(2) ns])
  have B: "p + ?C + ?F + 2 \<le> max_header_size" using assms(4) by simp
  let ?x = "if close then h_connection_close else h_connection_keep_alive"
  let ?c = "(''connection'', if close then ''close'' else ''keep-alive'')"
  obtain i where 1: "R data (cur p h k None None None) = R data (cur (p + ?C)
      (h\<lparr>hp_state := s_header_value_lws, hp_hstate := ?x, hp_index := i\<rparr>) (put ?c k) None None None)"
    using run_connection [OF H(1) _ assms(5) ok, of k] B by auto
  let ?g = "h\<lparr>hp_index := i\<rparr>\<lparr>hp_hstate := ?x\<rparr>"
  have r1: "h\<lparr>hp_state := s_header_value_lws, hp_hstate := ?x, hp_index := i\<rparr> = ?g\<lparr>hp_state := s_header_value_lws\<rparr>" by (cases h) simp
  define h2 where "h2 = (finish_header ?g)\<lparr>hp_state := s_header_field_start\<rparr>"
  have h2: "hp_state h2 = s_header_field_start" "hp_errno h2 = HPE_OK" "hp_type h2 = hp_type h" "hp_method h2 = hp_method h" "hp_major h2 = hp_major h"
      "hp_minor h2 = hp_minor h" "hp_clen h2 = ULLONG_MAX" "hp_flags h2 \<subseteq> {F_CONNECTION_CLOSE, F_CONNECTION_KEEP_ALIVE}"
    unfolding h2_def finish_connection using ok assms(7,8) by simp_all
  have 2: "R data (cur (p + ?C) (?g\<lparr>hp_state := s_header_value_lws\<rparr>) (put ?c k) None None None) = R data (cur (p + ?C) h2 (put ?c k) None None None)"
    unfolding h2_def by (rule lws_here [OF H(2) ns2]) (use B in simp)
  obtain x j where 3: "R data (cur (p + ?C) h2 (put ?c k) None None None)
      = R data (cur (p + ?C + ?F) (h2\<lparr>hp_hstate := x, hp_index := j\<rparr>) (fold put fs (put ?c k)) None None None)"
    using run_fields [OF H(2) assms(2) ns _ h2(1,2), of "put ?c k"] B by auto
  let ?h3 = "h2\<lparr>hp_hstate := x, hp_index := j\<rparr>"
  have pr: "plain_request (h'\<lparr>hp_state := s\<rparr>)" if "hp_type h' = hp_type h" "hp_errno h' = HPE_OK" "hp_method h' = hp_method h"
      "hp_flags h' \<subseteq> {F_CONNECTION_CLOSE, F_CONNECTION_KEEP_ALIVE, F_CONTENTLENGTH}" for h' s
    using that assms(6) by (auto simp: plain_request_def)
  show ?thesis
  proof (cases "body = []")
    case True
    have "plain_request (?h3\<lparr>hp_state := s_header_field_start\<rparr>)" by (rule pr) (use h2 in auto)
    moreover have "?h3\<lparr>hp_state := s_header_field_start\<rparr> = ?h3" using h2(1) by (cases h2) simp
    ultimately have "behind_fields h body ?h3" using h2 True by (simp add: behind_fields_def)
    then show ?thesis using 1 2 3 True unfolding r1 by (intro exI [of _ ?h3]) (simp add: add.assoc)
  next
    case False
    let ?p = "p + ?C + ?F"
    have L: "here data ?p ?L" "here data (?p + length ?L) ([CR, LF] @ body)" using H(3) False by (simp_all only: here_append if_False)
    have BL: "?p + length ?L + 2 \<le> max_header_size" using assms(4) False by (simp add: add.assoc)
    let ?h4 = "h2\<lparr>hp_hstate := h_content_length_num, hp_index := 0, hp_flags := insert F_CONTENTLENGTH (hp_flags h2), hp_clen := of_nat (length body)\<rparr>"
    let ?k = "fold put fs (put ?c k)"
    have "R data (cur ?p ?h3 ?k None None None) = R data (cur (?p + length ?L)
      (?h3\<lparr>hp_state := s_header_value_lws, hp_hstate := h_content_length_num, hp_index := 0, hp_flags := insert F_CONTENTLENGTH (hp_flags ?h3), hp_clen := of_nat (length body)\<rparr>)
      (put (''content-length'', show_nat (length body)) ?k) None None None)"
      by (rule run_length [OF L(1) _ _ _ assms(3)]) (use h2 BL in auto)
    moreover have "?h3\<lparr>hp_state := s_header_value_lws, hp_hstate := h_content_length_num, hp_index := 0, hp_flags := insert F_CONTENTLENGTH (hp_flags ?h3), hp_clen := of_nat (length body)\<rparr>
        = ?h4\<lparr>hp_state := s_header_value_lws\<rparr>" by (cases h2) simp
    ultimately have 4: "R data (cur ?p ?h3 ?k None None None) = R data (cur (?p + length ?L) (?h4\<lparr>hp_state := s_header_value_lws\<rparr>)
        (put (''content-length'', show_nat (length body)) ?k) None None None)" by metis
    have f: "finish_header ?h4 = ?h4" by (rule finish_plain) simp
    have nsb: "no_space ([CR, LF] @ body)" by (simp add: no_space_cr)
    have 5: "R data (cur (?p + length ?L) (?h4\<lparr>hp_state := s_header_value_lws\<rparr>) (put (''content-length'', show_nat (length body)) ?k) None None None)
      = R data (cur (?p + length ?L) (?h4\<lparr>hp_state := s_header_field_start\<rparr>) (put (''content-length'', show_nat (length body)) ?k) None None None)"
      using lws_here [OF L(2) nsb, of ?h4] BL unfolding f by simp
    have "plain_request (?h4\<lparr>hp_state := s_header_field_start\<rparr>)" by (rule pr) (use h2 in auto)
    then have "behind_fields h body (?h4\<lparr>hp_state := s_header_field_start\<rparr>)" using h2 False by (simp add: behind_fields_def)
    then show ?thesis using 1 2 3 4 5 False unfolding r1 by (intro exI [of _ "?h4\<lparr>hp_state := s_header_field_start\<rparr>"]) (simp add: add.assoc)
  qed
qed

lemma parse_printed:
  assumes "printable r" and "dump_request r = Inr msg" and "length msg \<le> max_header_size + length (rq_body r)"
  shows "\<exists>rp. request_execute msg new_HttpRequestParser = Some (length msg, msg, rp) \<and> rp_error rp = 0 \<and> rk_finished (rp_sink rp)
    \<and> (let q = rk_data (rp_sink rp) in rq_method q = rq_method r \<and> rq_version q = rq_version r \<and> rq_path q = rq_path r \<and> rq_query q = rq_query r
       \<and> rq_fragment q = rq_fragment r \<and> rq_body q = rq_body r
       \<and> rq_headers q = fold (\<lambda>i. ci_set (fst i) (snd i)) (request_fields r) [])"
proof -
  let ?a = "unat (drop_bit 4 (rq_version r))" and ?b = "unat (rq_version r AND 0x0F)"
  let ?line = "request_line (rq_method r) (rq_path r) (rq_query r) (rq_fragment r) ?a ?b"
  let ?fs = "filter (\<lambda>i. \<not> skip_request r i) (rq_headers r)"
  let ?len = "if rq_body r = [] then [] else header_line (''content-length'', show_nat (length (rq_body r)))"
  let ?mid = "connection_line (rq_close r) @ concat (map header_line ?fs) @ ?len"
  have t: "msg = ?line @ ?mid @ [CR, LF] @ rq_body r" using printed_text [OF assms(1)] assms(2) by simp
  have P: "rq_method r \<noteq> INVALID_METHOD" "rq_method r \<noteq> CONNECT" "path_ok (rq_path r)" "query_ok (rq_query r)" "fragment_ok (rq_fragment r)"
      "?a < 10" "?b < 10" "length (url_of (rq_path r) (rq_query r) (rq_fragment r)) < 65536" "length (rq_body r) \<le> 10 ^ 18"
      "\<forall>i\<in>set ?fs. plain_field i" "\<not> rq_websocket r"
    using assms(1) by (auto simp: printable_def)
  have H: "here msg 0 ?line" "here msg (length ?line) (?mid @ [CR, LF] @ rq_body r)"
      "here msg (length ?line + length ?mid) ([CR, LF] @ rq_body r)"
    using here_self [of msg] unfolding t by (simp_all only: here_append add.assoc) simp_all
  have B: "length ?line + length ?mid + 2 \<le> max_header_size" "length msg = length ?line + length ?mid + 2 + length (rq_body r)"
    using assms(3) by (simp_all add: t)
  define k0 where "k0 = rp_sink new_HttpRequestParser"
  have k0: "rq_query (rk_data k0) = []" "rq_fragment (rk_data k0) = []" "rq_headers (rk_data k0) = []" "rq_body (rk_data k0) = []"
    by (simp_all add: k0_def new_HttpRequestParser_def new_HttpRequest_def)
  define k1 where "k1 = set_data (\<lambda>q. q\<lparr>rq_path := rq_path r, rq_query := rq_query r, rq_fragment := rq_fragment r\<rparr>) k0"
  have "length ?line \<le> max_header_size" using B(1) by simp
  from run_request_line [OF P(1-7) H(1) this P(8) k0(1,2)] obtain i where
    1: "R msg (cur 0 (http_parser_init HTTP_REQUEST) k0 None None None) = R msg (cur (length ?line) (line_parser (rq_method r) i ?a ?b) k1 None None None)"
    by (auto simp: k1_def)
  let ?h = "line_parser (rq_method r) i ?a ?b"
  have h: "hp_state ?h = s_header_field_start" "plain_request ?h" "hp_flags ?h = {}" "hp_clen ?h = ULLONG_MAX" "hp_method ?h = rq_method r"
      "hp_major ?h = ?a" "hp_minor ?h = ?b"
    using P(2) by (simp_all add: line_parser_def plain_request_def http_parser_init_def)
  let ?fields = "request_fields r"
  have fields: "?fields = [(''connection'', if rq_close r then ''close'' else ''keep-alive'')] @ ?fs
      @ (if rq_body r = [] then [] else [(''content-length'', show_nat (length (rq_body r)))])"
    using P(11) by (simp add: request_fields_def)
  have "length ?line + length ?mid + 2 \<le> max_header_size" by (rule B(1))
  then obtain h1 where h1: "behind_fields ?h (rq_body r) h1"
    and 2: "R msg (cur (length ?line) ?h k1 None None None) = R msg (cur (length ?line + length ?mid) h1 (fold put ?fields k1) None None None)"
    using run_all_fields [OF _ P(10,9) _ h(1-4), of msg "length ?line" "rq_close r" k1] H(2) unfolding fields by auto
  let ?k = "fold put ?fields k1"
  let ?done = "(set_data (\<lambda>q. q\<lparr>rq_body := rq_body q @ rq_body r\<rparr>) (completed h1 ?k))\<lparr>rk_finished := True\<rparr>"
  have b: "hp_state h1 = s_header_field_start" "plain_request h1" "hp_clen h1 = (if rq_body r = [] then ULLONG_MAX else of_nat (length (rq_body r)))"
      "hp_method h1 = rq_method r" "hp_major h1 = ?a" "hp_minor h1 = ?b"
    using h1 h by (simp_all add: behind_fields_def)
  have e: "ends msg (R msg (cur (length ?line + length ?mid) h1 ?k None None None)) ?done"
  proof (cases "rq_body r = []")
    case True
    have "ends msg (R msg (cur (length ?line + length ?mid) h1 ?k None None None)) ((completed h1 ?k)\<lparr>rk_finished := True\<rparr>)"
      by (rule run_end_empty [OF _ B(1) b(1,2)]) (use H(3) B(2) b(3) True in simp_all)
    moreover have "(completed h1 ?k)\<lparr>rk_finished := True\<rparr> = ?done" using True by (simp add: set_data_def)
    ultimately show ?thesis by simp
  next
    case False
    show ?thesis by (rule run_end_body [OF H(3) B(1) b(1,2) B(2) _ False P(9)]) (use b(3) False in simp)
  qed
  have c0: "initial_scan (http_parser_init HTTP_REQUEST) k0 = cur 0 (http_parser_init HTTP_REQUEST) k0 None None None"
    by (simp add: initial_scan_def cur_def http_parser_init_def)
  from e obtain s where s: "R msg (initial_scan (http_parser_init HTTP_REQUEST) k0) = Done (length msg) s" "hp_errno (sc_h s) = HPE_OK"
      "\<not> hp_upgrade (sc_h s)" "sc_u s = ?done" unfolding c0 1 2 ends_def by auto
  have ne: "msg \<noteq> []" using B(2) by auto
  have ok: "hp_errno (http_parser_init HTTP_REQUEST) = HPE_OK" by (simp add: http_parser_init_def)
  have "http_parser_execute request_settings msg (http_parser_init HTTP_REQUEST) k0 = Some (length msg, sc_h s, ?done)"
    using s ne ok by (simp add: http_parser_execute_def Let_def)
  then have x: "request_execute msg new_HttpRequestParser = Some (length msg, msg, new_HttpRequestParser\<lparr>rp_parser := sc_h s, rp_sink := ?done\<rparr>)"
    using s(2,3) by (simp add: request_execute_def Let_def k0_def) (simp add: new_HttpRequestParser_def move_rest_def)
  have v: "version_of h1 = rq_version r" using b(5,6) version_back by (simp add: version_of_def)
  have d: "rk_data ?done = (rk_data ?k)\<lparr>rq_method := rq_method r, rq_version := rq_version r, rq_body := rq_body (rk_data ?k) @ rq_body r\<rparr>"
    by (simp add: set_data_def completed_def b(4) v)
  have k: "rk_data ?k = (rk_data k1)\<lparr>rq_headers := fold (\<lambda>i. ci_set (fst i) (snd i)) ?fields (rq_headers (rk_data k1))\<rparr>" by (rule put_all)
  have k1: "rq_headers (rk_data k1) = []" "rq_body (rk_data k1) = []" "rq_path (rk_data k1) = rq_path r" "rq_query (rk_data k1) = rq_query r"
      "rq_fragment (rk_data k1) = rq_fragment r" using k0 by (simp_all add: k1_def set_data_def)
  show ?thesis
    by (rule exI [of _ "new_HttpRequestParser\<lparr>rp_parser := sc_h s, rp_sink := ?done\<rparr>"])
      (use x d k k1 in \<open>simp add: Let_def, simp add: new_HttpRequestParser_def\<close>)
qed

definition parsed_as :: "http_request \<Rightarrow> http_request \<Rightarrow> bool" where
  "parsed_as r q \<longleftrightarrow> rq_method q = rq_method r \<and> rq_version q = rq_version r \<and> rq_path q = rq_path r \<and> rq_query q = rq_query r
     \<and> rq_fragment q = rq_fragment r \<and> rq_body q = rq_body r \<and> rq_close q = rq_close r
     \<and> (\<forall>key d. getHeader key d q =
          (if fold_key key = fold_key ''connection'' then (if rq_close r then ''close'' else ''keep-alive'')
           else if rq_body r \<noteq> [] \<and> fold_key key = fold_key ''content-length'' then show_nat (length (rq_body r))
           else getHeader key d r))"

lemma parsed_request:
  assumes "printable r" and "dump_request r = Inr msg" and "length msg \<le> max_header_size + length (rq_body r)"
  shows "\<exists>rp. request_execute msg new_HttpRequestParser = Some (length msg, msg, rp) \<and> rp_error rp = 0 \<and> rk_finished (rp_sink rp)
    \<and> parsed_as r (request_init (rk_data (rp_sink rp)))"
proof -
  obtain rp where rp: "request_execute msg new_HttpRequestParser = Some (length msg, msg, rp)" "rp_error rp = 0" "rk_finished (rp_sink rp)"
    and q: "rq_method (rk_data (rp_sink rp)) = rq_method r" "rq_version (rk_data (rp_sink rp)) = rq_version r" "rq_path (rk_data (rp_sink rp)) = rq_path r"
      "rq_query (rk_data (rp_sink rp)) = rq_query r" "rq_fragment (rk_data (rp_sink rp)) = rq_fragment r" "rq_body (rk_data (rp_sink rp)) = rq_body r"
      "rq_headers (rk_data (rp_sink rp)) = fold (\<lambda>i. ci_set (fst i) (snd i)) (request_fields r) []"
    using parse_printed [OF assms] by (auto simp: Let_def)
  let ?q = "rk_data (rp_sink rp)"
  have s: "ci_sorted (rq_headers r)" "\<not> rq_websocket r" using assms(1) by (simp_all add: printable_def rq_ok_def)
  have "ci_sorted []" by (simp add: ci_sorted_def)
  then have g: "ci_get k (rq_headers ?q) = (if fold_key k = fold_key ''connection'' then Some (if rq_close r then ''close'' else ''keep-alive'')
       else if rq_body r \<noteq> [] \<and> fold_key k = fold_key ''content-length'' then Some (show_nat (length (rq_body r))) else ci_get k (rq_headers r))" for k
    using set_all_get [OF fields_get(1) [OF s], of "[]" k] fields_get(2) [OF s, of k] by (simp add: q(7) split: option.split)
  have c: "getHeader ''connection'' [] ?q = (if rq_close r then ''close'' else ''keep-alive'')"
    using g [of "''connection''"] by (simp add: getHeader_def map_get_def)
  have k: "strcasecmp (c_str ''keep-alive'') ''keep-alive'' = 0" "strcasecmp (c_str ''close'') ''keep-alive'' \<noteq> 0" by code_simp+
  have i: "request_init ?q = ?q\<lparr>rq_close := rq_close r\<rparr>" using k by (simp add: request_init_def c Let_def)
  have "parsed_as r (request_init ?q)"
    unfolding i parsed_as_def using q(1-6) g by (simp add: getHeader_def map_get_def)
  then show ?thesis using rp by blast
qed

text \<open>
  Property C1. A printable request that \<^verbatim>\<open>HttpRequest::dump\<close> prints is read back by the parser. Printable are the requests with every
  method but CONNECT, not of a websocket, with one-digit version numbers, a path, query and fragment of URL characters that make a URL below
  65536 characters, headers whose names are tokens other than the five special ones and whose values are
  header text, and a body of any bytes up to \<open>10 ^ 18\<close>; what precedes the body is within the limit of 80 KB of the parser. One call of \<^verbatim>\<open>execute\<close> takes the whole text, finishes the message without an error,
  and after \<^verbatim>\<open>init\<close> the request has the same method, version, path, query, fragment, body and close flag; a header lookup
  gives what was set, the connection and, with a body, its length.
\<close>

theorem request_roundtrip:
  assumes "printable r" and "dump_request r = Inr msg" and "length msg \<le> max_header_size + length (rq_body r)"
  shows "\<exists>rp. request_execute msg new_HttpRequestParser = Some (length msg, msg, rp) \<and> rp_error rp = 0 \<and> rk_finished (rp_sink rp)
    \<and> parsed_as r (request_init (rk_data (rp_sink rp)))"
  by (rule parsed_request [OF assms])

definition sample_request :: http_request where
  "sample_request = (new_HttpRequest 0x11 False)\<lparr>rq_method := POST, rq_path := ''/a'', rq_query := ''x=1'', rq_fragment := ''f'',
     rq_headers := [(''Host'', ''h'')], rq_body := ''hi''\<rparr>"

lemma sample_printable: "printable sample_request"
proof -
  have u: "\<forall>c\<in>set ''ax=1f''. IS_URL_CHAR c" by code_simp
  have t: "\<forall>c\<in>set ''Host''. STRICT_TOKEN c \<noteq> None" by (simp add: STRICT_TOKEN_def IS_ALPHA_def IS_NUM_def LOWER_def)
  have "LOWER (CHR ''H'') = CHR ''h''" "\<forall>c\<in>set ''ost''. LOWER c = c" by code_simp+
  then have l: "map low ''Host'' = ''host''" by (simp add: low_def STRICT_TOKEN_def IS_ALPHA_def)
  have h: "IS_HEADER_CHAR (CHR ''h'') \<and> \<not> is_eol (CHR ''h'') \<and> CHR ''h'' \<noteq> TAB" by (simp add: IS_HEADER_CHAR_def is_eol_def CR_def LF_def TAB_def)
  have f: "plain_field (''Host'', ''h'')" using t l h by (simp add: plain_field_def name_plain_def name_ok_def value_ok_def special_names_def)
  have p: "path_ok ''/a''" "query_ok ''x=1''" "fragment_ok ''f''" using u by (simp_all add: path_ok_def query_ok_def fragment_ok_def)
  have v: "unat (drop_bit 4 (0x11 :: u8)) < 10" "unat ((0x11 :: u8) AND 0x0F) < 10" by code_simp+
  have o: "rq_ok sample_request" by (simp add: sample_request_def rq_ok_def new_HttpRequest_def ci_sorted_def)
  show ?thesis using f p v o by (simp add: printable_def sample_request_def new_HttpRequest_def url_of_def)
qed

theorem request_roundtrip_witness:
  "\<exists>msg rp. dump_request sample_request = Inr msg \<and> request_execute msg new_HttpRequestParser = Some (length msg, msg, rp)
    \<and> rk_finished (rp_sink rp) \<and> rq_body (request_init (rk_data (rp_sink rp))) = ''hi''"
proof -
  obtain msg where m: "dump_request sample_request = Inr msg" using printed_text [OF sample_printable] by blast
  have "case dump_request sample_request of Inr t \<Rightarrow> length t \<le> 1000 | Inl _ \<Rightarrow> False" by code_simp
  then have "length msg \<le> max_header_size + length (rq_body sample_request)" using m by (simp add: max_header_size_def)
  from request_roundtrip [OF sample_printable m this] obtain rp where
    "request_execute msg new_HttpRequestParser = Some (length msg, msg, rp)" "rk_finished (rp_sink rp)"
    "rq_body (request_init (rk_data (rp_sink rp))) = rq_body sample_request" by (auto simp: parsed_as_def)
  then show ?thesis using m by (intro exI [of _ msg] exI [of _ rp]) (simp add: sample_request_def)
qed

section \<open>A value in two pieces\<close>

lemma skip_value_all:
  "p \<le> pe \<Longrightarrow> (\<And>j. p \<le> j \<Longrightarrow> j < pe \<Longrightarrow> IS_HEADER_CHAR (data ! j) \<and> \<not> is_eol (data ! j)) \<Longrightarrow> skip_value l data pe p = Inr pe"
proof (induction l data pe p rule: skip_value.induct)
  case (1 l data pe p)
  show ?case
  proof (cases "p = pe")
    case True
    then show ?thesis by (subst skip_value.simps) simp
  next
    case False
    then have l: "p < pe" "Suc p \<le> pe" using "1.prems"(1) by simp_all
    have c: "\<not> is_eol (data ! p)" "IS_HEADER_CHAR (data ! p)" using "1.prems"(2) [OF order_refl l(1)] by simp_all
    have "skip_value l data pe (Suc p) = Inr pe"
      by (rule "1.IH" [OF l(1) refl _ _ l(2)]) (use c in simp, use c in simp, use "1.prems"(2) in simp)
    then show ?thesis using l c by (subst skip_value.simps) (simp add: Let_def)
  qed
qed

definition value_text :: "string \<Rightarrow> bool" where "value_text w \<longleftrightarrow> w \<noteq> [] \<and> (\<forall>c\<in>set w. IS_HEADER_CHAR c \<and> \<not> is_eol c)"

definition in_value :: "nat \<Rightarrow> hparser \<Rightarrow> bool" where
  "in_value n h \<longleftrightarrow> hp_errno h = HPE_OK \<and> hp_state h = s_header_value \<and> hp_hstate h = h_general \<and> unat (hp_nread h) \<le> n \<and> \<not> hp_upgrade h"

lemma nread_add: "unat (h :: u32) \<le> n \<Longrightarrow> n + m \<le> max_header_size \<Longrightarrow> unat (h + of_nat m) \<le> n + m \<and> unat (h + of_nat m) = unat h + m"
proof -
  assume a: "unat h \<le> n" "n + m \<le> max_header_size"
  then have "unat (of_nat m :: u32) = m" by (simp add: unat_of_nat max_header_size_def)
  then have "unat (h + of_nat m) = unat h + m" using a by (simp add: unat_word_ariths max_header_size_def)
  then show ?thesis using a by simp
qed

text \<open>What a call does with a piece of a value: it hands it to the callback as the whole value.\<close>

lemma value_piece:
  assumes "value_text w" and "in_value n h" and "n + length w \<le> max_header_size"
  shows "\<exists>h1. http_parser_execute request_settings w h k = Some (length w, h1, set_data (setHeader (rk_field k) w) k) \<and> in_value (n + length w) h1"
proof -
  have h: "hp_errno h = HPE_OK" "hp_state h = s_header_value" "hp_hstate h = h_general" "unat (hp_nread h) \<le> n" "\<not> hp_upgrade h"
    using assms(2) by (simp_all add: in_value_def)
  let ?len = "length w"
  have pos: "0 < ?len" using assms(1) by (simp add: value_text_def)
  have c: "IS_HEADER_CHAR (w ! j) \<and> \<not> is_eol (w ! j)" if "j < ?len" for j using assms(1) that by (simp add: value_text_def)
  define s where "s = upd_h (\<lambda>h. h\<lparr>hp_nread := hp_nread h + of_nat 1\<rparr>) (initial_scan h k)"
  have s: "sc_p s = 0" "sc_h s = h\<lparr>hp_nread := hp_nread h + 1\<rparr>" "sc_value s = Some 0" "sc_field s = None" "sc_url s = None" "sc_body s = None" "sc_stat s = None" "sc_u s = k"
    using h by (simp_all add: s_def initial_scan_def)
  have n1: "unat (hp_nread (sc_h s)) = unat (hp_nread h) + 1" using nread_add [OF h(4), of 1] assms(3) pos s(2) by simp
  define s1 where "s1 = s\<lparr>sc_p := ?len - Suc 0, sc_h := h\<lparr>hp_nread := hp_nread h + 1 + of_nat (?len - Suc 0)\<rparr>\<rparr>"
  have w2: "hp_nread h + 1 + of_nat (?len - Suc 0) = hp_nread h + of_nat ?len"
  proof -
    have "hp_nread h + 1 + of_nat (?len - Suc 0) = hp_nread h + of_nat (Suc (?len - Suc 0))" by (simp only: of_nat_Suc add.assoc)
    also have "Suc (?len - Suc 0) = ?len" using pos by simp
    finally show ?thesis .
  qed
  have n2: "unat (hp_nread h + 1 + of_nat (?len - Suc 0)) = unat (hp_nread h) + ?len"
    using nread_add [OF h(4) assms(3)] by (simp only: w2)
  have sk: "skip_value (hp_lenient (sc_h s)) w (0 + min (?len - 0) max_header_size) 0 = Inr ?len"
  proof -
    have "0 + min (?len - 0) max_header_size = ?len" using assms(3) by simp
    then show ?thesis using skip_value_all [of 0 ?len w] c by simp
  qed
  have "value_loop request_settings w 0 s = value_loop request_settings w 0 (s\<lparr>sc_p := ?len\<rparr>)"
  proof -
    have v: "value_char w (w ! 0) 0 (sc_h s) = V_go (?len - Suc 0) (sc_h s)"
      using sk h(3) by (simp add: value_char_def s(2) Let_def)
    have "\<not> is_eol (w ! 0)" "IS_HEADER_CHAR (w ! 0)" using c [OF pos] by auto
    moreover have "Suc (?len - Suc 0) = ?len" using pos by simp
    ultimately show ?thesis using v pos s(1) by (subst value_loop.simps) (simp add: Let_def is_eol_def)
  qed
  also have "\<dots> = value_end w 0 (s\<lparr>sc_p := ?len\<rparr>)" by (subst value_loop.simps) simp
  also have "\<dots> = Next s1"
    using n2 assms(3) h(4) by (simp add: value_end_def COUNT_HEADER_SIZE_def Let_def s(2) s1_def)
  finally have e: "exec_state request_settings w s = Next s1" using h(2) by (simp add: exec_state_def s(1,2))
  have "loop_pass request_settings w (initial_scan h k) = reexecute request_settings w s"
  proof -
    have "PARSING_HEADER (hp_state (sc_h (initial_scan h k)))" using h(2) by (simp add: initial_scan_def PARSING_HEADER_def)
    moreover have "\<not> max_header_size < unat (hp_nread (sc_h s))" using n1 h(4) assms(3) pos by linarith
    ultimately show ?thesis by (simp only: loop_pass_def if_True COUNT_HEADER_SIZE_def Let_def s_def [symmetric] if_False)
  qed
  then have "loop_pass request_settings w (initial_scan h k) = Next s1" using reexecute_next [OF e] by simp
  then have r: "R w (initial_scan h k) = R w (s1\<lparr>sc_p := ?len\<rparr>)"
    using pos by (subst scan_loop.simps) (simp add: s1_def initial_scan_def w2)
  let ?h1 = "h\<lparr>hp_nread := hp_nread h + of_nat ?len\<rparr>"
  have "R w (s1\<lparr>sc_p := ?len\<rparr>) = finish_scan request_settings w (s1\<lparr>sc_p := ?len\<rparr>)" by (subst scan_loop.simps) simp
  also have "\<dots> = Done ?len (s1\<lparr>sc_p := ?len, sc_u := set_data (setHeader (rk_field k) w) k, sc_value := None\<rparr>)"
    using s h(1) by (simp add: finish_scan_def marks_def data_field_def data_value_def data_url_def data_body_def data_status_def
        CALLBACK_DATA_def s1_def callbacks(2) Let_def)
  finally have "http_parser_execute request_settings w h k = Some (?len, ?h1, set_data (setHeader (rk_field k) w) k)"
    using r h(1) pos by (simp add: http_parser_execute_def Let_def s1_def w2)
  moreover have "in_value (n + ?len) ?h1" using h n2 by (simp add: in_value_def w2)
  ultimately show ?thesis by blast
qed

text \<open>
  A header value that arrives in two pieces is cut to its second piece: each call of \<^verbatim>\<open>execute\<close> stores the piece
  that it was given as the whole value of the field, so after both the first piece is lost, and no error is reported.
\<close>

theorem fragmented_value:
  assumes "value_text v" and "value_text w" and "in_value n (rp_parser rp)" and "n + length v + length w \<le> max_header_size"
    and "ci_sorted (rq_headers (rk_data (rp_sink rp)))" and "rp_error rp = 0"
  shows "\<exists>rp1 rp2. request_execute v rp = Some (length v, v, rp1) \<and> request_execute w rp1 = Some (length w, w, rp2)
    \<and> getHeader (rk_field (rp_sink rp)) d (rk_data (rp_sink rp1)) = v
    \<and> getHeader (rk_field (rp_sink rp)) d (rk_data (rp_sink rp2)) = w \<and> rp_error rp2 = 0"
proof -
  let ?k = "rp_sink rp"
  let ?k1 = "set_data (setHeader (rk_field ?k) v) ?k"
  let ?k2 = "set_data (setHeader (rk_field ?k) w) ?k1"
  have "n + length v \<le> max_header_size" using assms(4) by simp
  from value_piece [OF assms(1,3) this, of ?k] obtain h1 where
    1: "http_parser_execute request_settings v (rp_parser rp) ?k = Some (length v, h1, ?k1)" "in_value (n + length v) h1" by auto
  from value_piece [OF assms(2) 1(2) assms(4), of ?k1] obtain h2 where
    2: "http_parser_execute request_settings w h1 ?k1 = Some (length w, h2, ?k2)" "in_value (n + length v + length w) h2"
    by (auto simp: set_data_def)
  let ?r1 = "rp\<lparr>rp_parser := h1, rp_sink := ?k1\<rparr>"
  let ?r2 = "?r1\<lparr>rp_parser := h2, rp_sink := ?k2\<rparr>"
  have x1: "request_execute v rp = Some (length v, v, ?r1)"
    using 1 by (simp add: request_execute_def Let_def in_value_def move_rest_def)
  have x2: "request_execute w ?r1 = Some (length w, w, ?r2)"
    using 2 by (simp add: request_execute_def Let_def in_value_def move_rest_def)
  let ?f = "rk_field ?k" and ?m = "rq_headers (rk_data ?k)"
  have s: "ci_sorted (ci_set ?f v ?m)" by (rule ci_laws(1) [OF assms(5)])
  have "ci_get ?f (ci_set ?f v ?m) = Some v" "ci_get ?f (ci_set ?f w (ci_set ?f v ?m)) = Some w"
    using ci_laws(4) [OF assms(5)] ci_laws(4) [OF s] by simp_all
  then have "getHeader ?f d (rk_data ?k1) = v" "getHeader ?f d (rk_data ?k2) = w"
    by (simp_all add: getHeader_def map_get_def set_data_def setHeader_def)
  then show ?thesis using x1 x2 assms(6) by (intro exI [of _ ?r1] exI [of _ ?r2]) simp
qed

theorem fragmented_value_witness:
  "\<exists>rp rp1 rp2. request_execute ''ab'' rp = Some (2, ''ab'', rp1) \<and> request_execute ''cd'' rp1 = Some (2, ''cd'', rp2)
    \<and> getHeader ''Host'' '''' (rk_data (rp_sink rp2)) = ''cd''"
proof -
  let ?rp = "new_HttpRequestParser\<lparr>rp_parser := (http_parser_init HTTP_REQUEST)\<lparr>hp_state := s_header_value\<rparr>,
      rp_sink := (rp_sink new_HttpRequestParser)\<lparr>rk_field := ''Host''\<rparr>\<rparr>"
  have t: "value_text ''ab''" "value_text ''cd''" by (simp_all add: value_text_def IS_HEADER_CHAR_def is_eol_def CR_def LF_def TAB_def)
  have i: "in_value 0 (rp_parser ?rp)" by (simp add: in_value_def http_parser_init_def)
  have b: "0 + length ''ab'' + length ''cd'' \<le> max_header_size" by (simp add: max_header_size_def)
  have c: "ci_sorted (rq_headers (rk_data (rp_sink ?rp)))" "rp_error ?rp = 0" by (simp_all add: new_HttpRequestParser_def new_HttpRequest_def ci_sorted_def)
  from fragmented_value [OF t i b c, of "''''"] obtain rp1 rp2 where
    r: "request_execute ''ab'' ?rp = Some (length ''ab'', ''ab'', rp1)" "request_execute ''cd'' rp1 = Some (length ''cd'', ''cd'', rp2)"
       "getHeader (rk_field (rp_sink ?rp)) '''' (rk_data (rp_sink rp2)) = ''cd''" by blast
  show ?thesis by (rule exI [of _ ?rp], rule exI [of _ rp1], rule exI [of _ rp2]) (use r in simp)
qed

end
