(* ===== verification/Socket.thy ===== *)
theory Socket
  imports Address FdManager Text "HOL-Library.Signed_Division"
begin

text \<open>
  Sockets: \<^verbatim>\<open>src/hiper/base/socket.cc\<close> and \<^verbatim>\<open>socket.h\<close>. A socket is a record; every call to the system, the
  descriptor table or the event loop is a field of \<open>syscalls\<close>, on an arbitrary state of the rest of the process. The
  logging lines are left out. \<open>sock_init\<close> has the error of a missing descriptor context, which the code dereferences.
\<close>

section \<open>The system calls\<close>

text \<open>
  The calls behind a socket, on the state \<open>'w\<close> of the rest of the process: the (hooked) system calls, the descriptor
  table and the event loop. Addresses go to the kernel with their \<^verbatim>\<open>getAddr()\<close> and \<^verbatim>\<open>getAddrLen()\<close>;
  \<open>sys_getpeername\<close> and \<open>sys_getsockname\<close> fill the address object they get and return its new length.
\<close>

record 'w syscalls =
  sys_socket :: "int \<Rightarrow> int \<Rightarrow> int \<Rightarrow> 'w \<Rightarrow> int \<times> 'w"
  sys_setsockopt :: "int \<Rightarrow> int \<Rightarrow> int \<Rightarrow> byte list \<Rightarrow> 'w \<Rightarrow> int \<times> 'w"
  sys_getsockopt :: "int \<Rightarrow> int \<Rightarrow> int \<Rightarrow> nat \<Rightarrow> 'w \<Rightarrow> byte list option"
  sys_accept :: "int \<Rightarrow> 'w \<Rightarrow> int \<times> 'w"
  sys_bind :: "int \<Rightarrow> address \<Rightarrow> 'w \<Rightarrow> int \<times> 'w"
  sys_listen :: "int \<Rightarrow> int \<Rightarrow> 'w \<Rightarrow> int \<times> 'w"
  sys_connect :: "int \<Rightarrow> address \<Rightarrow> 'w \<Rightarrow> int \<times> 'w"
  sys_connect_with_timeout :: "int \<Rightarrow> address \<Rightarrow> u64 \<Rightarrow> 'w \<Rightarrow> int \<times> 'w"
  sys_close :: "int \<Rightarrow> 'w \<Rightarrow> 'w"
  sys_send :: "int \<Rightarrow> byte list \<Rightarrow> int \<Rightarrow> 'w \<Rightarrow> int \<times> 'w"
  sys_sendmsg :: "int \<Rightarrow> byte list list \<Rightarrow> address option \<Rightarrow> int \<Rightarrow> 'w \<Rightarrow> int \<times> 'w"
  sys_sendto :: "int \<Rightarrow> byte list \<Rightarrow> address \<Rightarrow> int \<Rightarrow> 'w \<Rightarrow> int \<times> 'w"
  sys_recv :: "int \<Rightarrow> nat \<Rightarrow> int \<Rightarrow> 'w \<Rightarrow> (int \<times> byte list) \<times> 'w"
  sys_recvmsg :: "int \<Rightarrow> nat list \<Rightarrow> address option \<Rightarrow> int \<Rightarrow> 'w \<Rightarrow> (int \<times> byte list \<times> address option) \<times> 'w"
  sys_recvfrom :: "int \<Rightarrow> nat \<Rightarrow> address \<Rightarrow> int \<Rightarrow> 'w \<Rightarrow> (int \<times> byte list \<times> address) \<times> 'w"
  sys_getpeername :: "int \<Rightarrow> address \<Rightarrow> 'w \<Rightarrow> (address \<times> nat) option"
  sys_getsockname :: "int \<Rightarrow> address \<Rightarrow> 'w \<Rightarrow> (address \<times> nat) option"
  sys_errno :: "'w \<Rightarrow> int"
  sys_set_errno :: "int \<Rightarrow> 'w \<Rightarrow> 'w"
  sys_unlink :: "string \<Rightarrow> 'w \<Rightarrow> 'w"
  fd_context :: "int \<Rightarrow> 'w \<Rightarrow> fd_ctx option"
  cancel_event :: "int \<Rightarrow> int \<Rightarrow> 'w \<Rightarrow> bool \<times> 'w"
  cancel_all :: "int \<Rightarrow> 'w \<Rightarrow> bool \<times> 'w"

text \<open>Values of the system headers.\<close>

definition SOCK_STREAM :: int where "SOCK_STREAM = 1"
definition SOCK_DGRAM :: int where "SOCK_DGRAM = 2"
definition SOL_SOCKET_LEVEL :: int where "SOL_SOCKET_LEVEL = 1"
definition SO_REUSEADDR :: int where "SO_REUSEADDR = 2"
definition SO_ERROR :: int where "SO_ERROR = 4"
definition IPPROTO_TCP :: int where "IPPROTO_TCP = 6"
definition TCP_NODELAY :: int where "TCP_NODELAY = 1"
definition EBADF_NO :: int where "EBADF_NO = 9"

section \<open>Sockets\<close>

record sock =
  so_fd :: int
  so_family :: int
  so_type :: int
  so_protocol :: int
  so_connected :: bool
  so_local :: "address option"
  so_remote :: "address option"

definition new_Socket :: "int \<Rightarrow> int \<Rightarrow> int \<Rightarrow> sock" where
  "new_Socket family type protocol = \<lparr>so_fd = - 1, so_family = family, so_type = type, so_protocol = protocol,
     so_connected = False, so_local = None, so_remote = None\<rparr>"

definition isValid :: "sock \<Rightarrow> bool" where "isValid s \<longleftrightarrow> so_fd s \<noteq> - 1"

definition sock_setOption :: "'w syscalls \<Rightarrow> sock \<Rightarrow> int \<Rightarrow> int \<Rightarrow> byte list \<Rightarrow> 'w \<Rightarrow> bool \<times> 'w" where
  "sock_setOption sys s level opt val w =
     (case sys_setsockopt sys (so_fd s) level opt val w of (ret, w') \<Rightarrow> (ret = 0, w'))"

definition sock_getOption :: "'w syscalls \<Rightarrow> sock \<Rightarrow> int \<Rightarrow> int \<Rightarrow> nat \<Rightarrow> 'w \<Rightarrow> byte list option" where
  "sock_getOption sys s level opt len w = sys_getsockopt sys (so_fd s) level opt len w"

definition initSocket :: "'w syscalls \<Rightarrow> sock \<Rightarrow> 'w \<Rightarrow> 'w" where
  "initSocket sys s w =
     (let w1 = snd (sock_setOption sys s SOL_SOCKET_LEVEL SO_REUSEADDR (mem (1 :: u32)) w)
      in if so_type s = SOCK_STREAM then snd (sock_setOption sys s IPPROTO_TCP TCP_NODELAY (mem (1 :: u32)) w1) else w1)"

definition newSocket :: "'w syscalls \<Rightarrow> sock \<Rightarrow> 'w \<Rightarrow> sock \<times> 'w" where
  "newSocket sys s w =
     (case sys_socket sys (so_family s) (so_type s) (so_protocol s) w of (fd, w1) \<Rightarrow>
        let s1 = s\<lparr>so_fd := fd\<rparr> in if fd \<noteq> - 1 then (s1, initSocket sys s1 w1) else (s1, w1))"

definition CreateTCP :: "address \<Rightarrow> sock" where
  "CreateTCP a = new_Socket (uint (getFamily a)) SOCK_STREAM 0"

definition create_udp :: "'w syscalls \<Rightarrow> int \<Rightarrow> 'w \<Rightarrow> sock \<times> 'w" where
  "create_udp sys family w =
     (case newSocket sys (new_Socket family SOCK_DGRAM 0) w of (s, w1) \<Rightarrow> (s\<lparr>so_connected := True\<rparr>, w1))"

definition CreateUDP :: "'w syscalls \<Rightarrow> address \<Rightarrow> 'w \<Rightarrow> sock \<times> 'w" where
  "CreateUDP sys a w = create_udp sys (uint (getFamily a)) w"
definition CreateTCPSocket :: sock where "CreateTCPSocket = new_Socket (uint AF_INET) SOCK_STREAM 0"
definition CreateUDPSocket :: "'w syscalls \<Rightarrow> 'w \<Rightarrow> sock \<times> 'w" where "CreateUDPSocket sys = create_udp sys (uint AF_INET)"
definition CreateTCPSocket6 :: sock where "CreateTCPSocket6 = new_Socket (uint AF_INET6) SOCK_STREAM 0"
definition CreateUDPSocket6 :: "'w syscalls \<Rightarrow> 'w \<Rightarrow> sock \<times> 'w" where "CreateUDPSocket6 sys = create_udp sys (uint AF_INET6)"
definition CreateUnixTCPSocket :: sock where "CreateUnixTCPSocket = new_Socket (uint AF_UNIX) SOCK_STREAM 0"
definition CreateUnixUDPSocket :: sock where "CreateUnixUDPSocket = new_Socket (uint AF_UNIX) SOCK_DGRAM 0"

text \<open>The bytes of a \<^verbatim>\<open>timeval\<close>.\<close>

definition timeval :: "int \<Rightarrow> int \<Rightarrow> byte list" where
  "timeval sec usec = mem (word_of_int sec :: u64) @ mem (word_of_int usec :: u64)"

definition int32 :: "int \<Rightarrow> int" where "int32 x = sint (word_of_int x :: u32)"

text \<open>
  The receive timeout passes the structure, the send timeout the bytes of its address \<open>tv_ptr\<close>: the template takes the
  address of what it gets, which is \<^verbatim>\<open>&tv\<close> there.
\<close>

definition setRecvTimeout :: "'w syscalls \<Rightarrow> sock \<Rightarrow> u64 \<Rightarrow> 'w \<Rightarrow> 'w" where
  "setRecvTimeout sys s v w =
     snd (sock_setOption sys s SOL_SOCKET_LEVEL SO_RCVTIMEO (timeval (int32 (sint v sdiv 1000)) (int32 (sint v smod 1000 * 1000))) w)"

definition setSendTimeout :: "'w syscalls \<Rightarrow> u64 \<Rightarrow> sock \<Rightarrow> u64 \<Rightarrow> 'w \<Rightarrow> 'w" where
  "setSendTimeout sys tv_ptr s v w = snd (sock_setOption sys s SOL_SOCKET_LEVEL SO_SNDTIMEO (mem tv_ptr) w)"

definition getRecvTimeout :: "'w syscalls \<Rightarrow> sock \<Rightarrow> 'w \<Rightarrow> int" where
  "getRecvTimeout sys s w = (case fd_context sys (so_fd s) w of None \<Rightarrow> - 1 | Some c \<Rightarrow> sint (getTimeout SO_RCVTIMEO c))"

definition getSendTimeout :: "'w syscalls \<Rightarrow> sock \<Rightarrow> 'w \<Rightarrow> int" where
  "getSendTimeout sys s w = (case fd_context sys (so_fd s) w of None \<Rightarrow> - 1 | Some c \<Rightarrow> sint (getTimeout SO_SNDTIMEO c))"

section \<open>Addresses of a socket\<close>

definition unknown_address :: "int \<Rightarrow> address" where
  "unknown_address family = UnknownAddress \<lparr>sa_family = word_of_int family, sa_data = replicate 14 0\<rparr>"

definition empty_address :: "int \<Rightarrow> address" where
  "empty_address family =
     (if family = uint AF_INET then IPv4Address (new_IPv4 0 0)
      else if family = uint AF_INET6 then IPv6Address empty_IPv6
      else if family = uint AF_UNIX then (case empty_Unix of (a, n) \<Rightarrow> UnixAddress a n)
      else unknown_address family)"

fun setAddrLen :: "nat \<Rightarrow> address \<Rightarrow> address" where
  "setAddrLen n (UnixAddress a _) = UnixAddress a n"
| "setAddrLen n a = a"

definition named_address :: "int \<Rightarrow> (address \<times> nat) option \<Rightarrow> address option" where
  "named_address family r = (case r of None \<Rightarrow> None
     | Some (a, len) \<Rightarrow> Some (if family = uint AF_UNIX then setAddrLen len a else a))"

definition getRemoteAddress :: "'w syscalls \<Rightarrow> sock \<Rightarrow> 'w \<Rightarrow> address \<times> sock" where
  "getRemoteAddress sys s w = (case so_remote s of
     Some a \<Rightarrow> (a, s)
   | None \<Rightarrow> (case named_address (so_family s) (sys_getpeername sys (so_fd s) (empty_address (so_family s)) w) of
        None \<Rightarrow> (unknown_address (so_family s), s)
      | Some a \<Rightarrow> (a, s\<lparr>so_remote := Some a\<rparr>)))"

definition getLocalAddress :: "'w syscalls \<Rightarrow> sock \<Rightarrow> 'w \<Rightarrow> address \<times> sock" where
  "getLocalAddress sys s w = (case so_local s of
     Some a \<Rightarrow> (a, s)
   | None \<Rightarrow> (case named_address (so_family s) (sys_getsockname sys (so_fd s) (empty_address (so_family s)) w) of
        None \<Rightarrow> (unknown_address (so_family s), s)
      | Some a \<Rightarrow> (a, s\<lparr>so_local := Some a\<rparr>)))"

section \<open>Connections\<close>

definition sock_close :: "'w syscalls \<Rightarrow> sock \<Rightarrow> 'w \<Rightarrow> bool \<times> sock \<times> 'w" where
  "sock_close sys s w =
     (if \<not> so_connected s \<and> so_fd s = - 1 then (True, s, w)
      else let s1 = s\<lparr>so_connected := False\<rparr> in
        if so_fd s1 \<noteq> - 1 then (False, s1\<lparr>so_fd := - 1\<rparr>, sys_close sys (so_fd s1) w)
        else (False, s1, w))"

definition destroy :: "'w syscalls \<Rightarrow> sock \<Rightarrow> 'w \<Rightarrow> 'w" where
  "destroy sys s w = snd (snd (sock_close sys s w))"

text \<open>The part that \<^verbatim>\<open>bind\<close> and \<^verbatim>\<open>connect\<close> share: a descriptor, if there is none yet, and the check of the family.\<close>

definition prepare :: "'w syscalls \<Rightarrow> address \<Rightarrow> sock \<Rightarrow> 'w \<Rightarrow> bool \<times> sock \<times> 'w" where
  "prepare sys addr s w =
     (case (if isValid s then (s, w) else newSocket sys s w) of (s1, w1) \<Rightarrow>
        (isValid s1 \<and> uint (getFamily addr) = so_family s1, s1, w1))"

definition sock_connect :: "'w syscalls \<Rightarrow> address \<Rightarrow> u64 \<Rightarrow> sock \<Rightarrow> 'w \<Rightarrow> bool \<times> sock \<times> 'w" where
  "sock_connect sys addr timeout_ms s w =
     (case prepare sys addr (s\<lparr>so_remote := Some addr\<rparr>) w of (ok, s1, w1) \<Rightarrow>
        if \<not> ok then (False, s1, w1)
        else case (if timeout_ms = - 1 then sys_connect sys (so_fd s1) addr w1
                   else sys_connect_with_timeout sys (so_fd s1) addr timeout_ms w1) of (r, w2) \<Rightarrow>
          if r \<noteq> 0 then (case sock_close sys s1 w2 of (_, s2, w3) \<Rightarrow> (False, s2, w3))
          else
            let s2 = s1\<lparr>so_connected := True\<rparr>;
                s3 = snd (getRemoteAddress sys s2 w2);
                s4 = snd (getLocalAddress sys s3 w2)
            in (True, s4, w2))"

definition sock_reconnect :: "'w syscalls \<Rightarrow> u64 \<Rightarrow> sock \<Rightarrow> 'w \<Rightarrow> bool \<times> sock \<times> 'w" where
  "sock_reconnect sys timeout_ms s w = (case so_remote s of
     None \<Rightarrow> (False, s, w)
   | Some a \<Rightarrow> sock_connect sys a timeout_ms (s\<lparr>so_local := None\<rparr>) w)"

text \<open>A path that somebody listens on is in use; otherwise the file is removed. The probing socket dies at the end of its block.\<close>

definition unix_probe :: "'w syscalls \<Rightarrow> address \<Rightarrow> 'w \<Rightarrow> bool \<times> 'w" where
  "unix_probe sys addr w = (case addr of
     UnixAddress a n \<Rightarrow>
       (case sock_connect sys addr (- 1) CreateUnixTCPSocket w of (c, p, w1) \<Rightarrow>
          if c then (False, destroy sys p w1)
          else (True, destroy sys p (sys_unlink sys (getPath a n) w1)))
   | _ \<Rightarrow> (True, w))"

definition sock_bind :: "'w syscalls \<Rightarrow> address \<Rightarrow> sock \<Rightarrow> 'w \<Rightarrow> bool \<times> sock \<times> 'w" where
  "sock_bind sys addr s w =
     (case prepare sys addr (s\<lparr>so_local := Some addr\<rparr>) w of (ok, s1, w1) \<Rightarrow>
        if \<not> ok then (False, s1, w1)
        else case unix_probe sys addr w1 of (free, w2) \<Rightarrow>
          if \<not> free then (False, s1, w2)
          else case sys_bind sys (so_fd s1) addr w2 of (r, w3) \<Rightarrow>
            if r \<noteq> 0 then (False, s1, w3)
            else (True, snd (getLocalAddress sys s1 w3), w3))"

definition sock_listen :: "'w syscalls \<Rightarrow> int \<Rightarrow> sock \<Rightarrow> 'w \<Rightarrow> bool \<times> 'w" where
  "sock_listen sys backlog s w =
     (if \<not> isValid s then (False, w)
      else case sys_listen sys (so_fd s) backlog w of (r, w1) \<Rightarrow> (r = 0, w1))"

datatype sock_error = Null_context

text \<open>\<^verbatim>\<open>init\<close> dereferences the context of the new descriptor without a test.\<close>

definition sock_init :: "'w syscalls \<Rightarrow> int \<Rightarrow> sock \<Rightarrow> 'w \<Rightarrow> sock_error + bool \<times> sock \<times> 'w" where
  "sock_init sys fd s w = (case fd_context sys fd w of
     None \<Rightarrow> Inl Null_context
   | Some c \<Rightarrow>
       if \<not> is_socket c then Inr (False, s, sys_set_errno sys EBADF_NO w)
       else if is_closed c then Inr (False, s, sys_set_errno sys EBADF_NO w)
       else
         let s1 = s\<lparr>so_fd := fd\<rparr>; w1 = initSocket sys s1 w;
             s2 = snd (getLocalAddress sys s1 w1);
             s3 = snd (getRemoteAddress sys s2 w1)
         in Inr (True, s3, w1))"

definition sock_accept :: "'w syscalls \<Rightarrow> sock \<Rightarrow> 'w \<Rightarrow> sock_error + sock option \<times> 'w" where
  "sock_accept sys s w =
     (let s0 = new_Socket (so_family s) (so_type s) (so_protocol s) in
      case sys_accept sys (so_fd s) w of (fd, w1) \<Rightarrow>
        if fd = - 1 then Inr (None, destroy sys s0 w1)
        else bindE (sock_init sys fd s0 w1) (\<lambda>(ok, s1, w2).
          if ok then Inr (Some s1, w2) else Inr (None, destroy sys s1 w2)))"

section \<open>Transfer\<close>

definition sock_send :: "'w syscalls \<Rightarrow> byte list \<Rightarrow> int \<Rightarrow> sock \<Rightarrow> 'w \<Rightarrow> int \<times> 'w" where
  "sock_send sys buf flags s w = (if so_connected s then sys_send sys (so_fd s) buf flags w else (- 1, w))"

definition sock_send_iov :: "'w syscalls \<Rightarrow> byte list list \<Rightarrow> int \<Rightarrow> sock \<Rightarrow> 'w \<Rightarrow> int \<times> 'w" where
  "sock_send_iov sys bufs flags s w = (if so_connected s then sys_sendmsg sys (so_fd s) bufs None flags w else (- 1, w))"

definition sock_sendTo :: "'w syscalls \<Rightarrow> byte list \<Rightarrow> address \<Rightarrow> int \<Rightarrow> sock \<Rightarrow> 'w \<Rightarrow> int \<times> 'w" where
  "sock_sendTo sys buf dest flags s w = (if so_connected s then sys_sendto sys (so_fd s) buf dest flags w else (- 1, w))"

definition sock_sendTo_iov :: "'w syscalls \<Rightarrow> byte list list \<Rightarrow> address \<Rightarrow> int \<Rightarrow> sock \<Rightarrow> 'w \<Rightarrow> int \<times> 'w" where
  "sock_sendTo_iov sys bufs dest flags s w = (if so_connected s then sys_sendmsg sys (so_fd s) bufs (Some dest) flags w else (- 1, w))"

definition sock_recv :: "'w syscalls \<Rightarrow> nat \<Rightarrow> int \<Rightarrow> sock \<Rightarrow> 'w \<Rightarrow> (int \<times> byte list) \<times> 'w" where
  "sock_recv sys len flags s w = (if so_connected s then sys_recv sys (so_fd s) len flags w else ((- 1, []), w))"

definition sock_recv_iov :: "'w syscalls \<Rightarrow> nat list \<Rightarrow> int \<Rightarrow> sock \<Rightarrow> 'w \<Rightarrow> (int \<times> byte list) \<times> 'w" where
  "sock_recv_iov sys lens flags s w =
     (if so_connected s then (case sys_recvmsg sys (so_fd s) lens None flags w of ((r, bs, _), w') \<Rightarrow> ((r, bs), w'))
      else ((- 1, []), w))"

definition sock_recvFrom :: "'w syscalls \<Rightarrow> nat \<Rightarrow> address \<Rightarrow> int \<Rightarrow> sock \<Rightarrow> 'w \<Rightarrow> (int \<times> byte list \<times> address) \<times> 'w" where
  "sock_recvFrom sys len src flags s w = (if so_connected s then sys_recvfrom sys (so_fd s) len src flags w else ((- 1, [], src), w))"

definition sock_recvFrom_iov :: "'w syscalls \<Rightarrow> nat list \<Rightarrow> address \<Rightarrow> int \<Rightarrow> sock \<Rightarrow> 'w \<Rightarrow> (int \<times> byte list \<times> address option) \<times> 'w" where
  "sock_recvFrom_iov sys lens src flags s w =
     (if so_connected s then sys_recvmsg sys (so_fd s) lens (Some src) flags w else ((- 1, [], Some src), w))"

definition getError :: "'w syscalls \<Rightarrow> sock \<Rightarrow> 'w \<Rightarrow> int" where
  "getError sys s w = (case sock_getOption sys s SOL_SOCKET_LEVEL SO_ERROR 4 w of
     Some bs \<Rightarrow> sint (of_mem bs :: u32) | None \<Rightarrow> sys_errno sys w)"

definition sock_toString :: "sock \<Rightarrow> string" where
  "sock_toString s = ''[Socket sock='' @ show_int (so_fd s) @ '' is_connected='' @ (if so_connected s then ''1'' else ''0'')
     @ '' family='' @ show_int (so_family s) @ '' type='' @ show_int (so_type s) @ '' protocol='' @ show_int (so_protocol s)
     @ (case so_local s of None \<Rightarrow> '''' | Some a \<Rightarrow> '' local_address='' @ addr_toString a)
     @ (case so_remote s of None \<Rightarrow> '''' | Some a \<Rightarrow> '' remote_address='' @ addr_toString a) @ '']''"

definition cancelRead :: "'w syscalls \<Rightarrow> sock \<Rightarrow> 'w \<Rightarrow> bool \<times> 'w" where "cancelRead sys s = cancel_event sys (so_fd s) 1"
definition cancelWrite :: "'w syscalls \<Rightarrow> sock \<Rightarrow> 'w \<Rightarrow> bool \<times> 'w" where "cancelWrite sys s = cancel_event sys (so_fd s) 4"
definition cancelAccept :: "'w syscalls \<Rightarrow> sock \<Rightarrow> 'w \<Rightarrow> bool \<times> 'w" where "cancelAccept sys s = cancel_event sys (so_fd s) 1"
definition sock_cancelAll :: "'w syscalls \<Rightarrow> sock \<Rightarrow> 'w \<Rightarrow> bool \<times> 'w" where "sock_cancelAll sys s = cancel_all sys (so_fd s)"

end
