(* ===== verification/TcpServer.thy ===== *)
theory TcpServer
  imports Socket ByteArrayBuffers
begin

text \<open>
  Streams and the server: \<^verbatim>\<open>src/hiper/base/stream.cc\<close>, \<^verbatim>\<open>src/hiper/streams/socket_stream.cc\<close> and
  \<^verbatim>\<open>src/hiper/base/tcp_server.cc\<close>, on the sockets of \<^theory_text>\<open>Socket\<close> and the byte arrays of \<^theory_text>\<open>ByteArrayBuffers\<close>.
  The loops of fixed-size transfers are total, since a call that goes on lowers what is left. The lemmas show that
  accepted sockets are mute, that binding a server is all or nothing and leaks no descriptor (\<open>fd_laws\<close> says what the
  kernel does with the set of open descriptors), and that a fixed-size read moves the bytes of the connection into a byte
  array (\<open>recvmsg_ok\<close> is the contract of a stream socket).
\<close>

section \<open>Streams\<close>

text \<open>
  A stream is the state \<open>'w\<close> with a read and a write call. A read of \<open>n\<close> bytes returns its result and the bytes it
  stored, a write gets the bytes from the pointer on.
\<close>

type_synonym 'w reader = "nat \<Rightarrow> 'w \<Rightarrow> (int \<times> byte list) \<times> 'w"
type_synonym 'w writer = "byte list \<Rightarrow> 'w \<Rightarrow> int \<times> 'w"

text \<open>The loops return \<open>None\<close> when nothing is left, else the result of the call that ended them.\<close>

function read_fix_loop :: "'w reader \<Rightarrow> int \<Rightarrow> byte list \<Rightarrow> 'w \<Rightarrow> int option \<times> byte list \<times> 'w" where
  "read_fix_loop rd left got w =
     (if left > 0 then
        (case rd (nat left) w of ((len, bs), w1) \<Rightarrow>
           if len \<le> 0 then (Some len, got @ bs, w1)
           else read_fix_loop rd (left - len) (got @ bs) w1)
      else (None, got, w))"
  by auto
termination by (relation "measure (\<lambda>(_, left, _, _). nat left)") auto

declare read_fix_loop.simps [simp del]

text \<open>The returned \<^verbatim>\<open>size_t\<close> length is converted to \<^verbatim>\<open>int\<close>.\<close>

definition fix_result :: "int option \<Rightarrow> nat \<Rightarrow> int" where
  "fix_result r len = (case r of Some e \<Rightarrow> e | None \<Rightarrow> int32 (int len))"

definition readFixSize :: "'w reader \<Rightarrow> nat \<Rightarrow> 'w \<Rightarrow> int \<times> byte list \<times> 'w" where
  "readFixSize rd len w = (case read_fix_loop rd (int len) [] w of (r, bs, w1) \<Rightarrow> (fix_result r len, bs, w1))"

function write_fix_loop :: "'w writer \<Rightarrow> byte list \<Rightarrow> nat \<Rightarrow> int \<Rightarrow> 'w \<Rightarrow> int option \<times> 'w" where
  "write_fix_loop wr buf offset left w =
     (if left > 0 then
        (case wr (take (nat left) (drop offset buf)) w of (len, w1) \<Rightarrow>
           if len \<le> 0 then (Some len, w1)
           else write_fix_loop wr buf (offset + nat len) (left - len) w1)
      else (None, w))"
  by auto
termination by (relation "measure (\<lambda>(_, _, _, left, _). nat left)") auto

declare write_fix_loop.simps [simp del]

definition writeFixSize :: "'w writer \<Rightarrow> byte list \<Rightarrow> nat \<Rightarrow> 'w \<Rightarrow> int \<times> 'w" where
  "writeFixSize wr buf len w = (case write_fix_loop wr buf 0 (int len) w of (r, w1) \<Rightarrow> (fix_result r len, w1))"

text \<open>The same loops on a byte array; \<open>io\<close> is the stream's read or write of a byte array.\<close>

type_synonym 'w ba_io = "bytearray \<Rightarrow> nat \<Rightarrow> 'w \<Rightarrow> ba_error + int \<times> bytearray \<times> 'w"

function ba_fix_loop :: "'w ba_io \<Rightarrow> bytearray \<Rightarrow> int \<Rightarrow> 'w \<Rightarrow> ba_error + int option \<times> bytearray \<times> 'w" where
  "ba_fix_loop io ba left w =
     (if left > 0 then
        bindE (io ba (nat left) w) (\<lambda>(len, ba1, w1).
           if len \<le> 0 then Inr (Some len, ba1, w1) else ba_fix_loop io ba1 (left - len) w1)
      else Inr (None, ba, w))"
  by auto
termination by (relation "measure (\<lambda>(_, _, left, _). nat left)") auto

declare ba_fix_loop.simps [simp del]

definition readFixSize_ba :: "'w ba_io \<Rightarrow> bytearray \<Rightarrow> nat \<Rightarrow> 'w \<Rightarrow> ba_error + int \<times> bytearray \<times> 'w" where
  "readFixSize_ba rd ba len w = bindE (ba_fix_loop rd ba (int len) w) (\<lambda>(r, ba1, w1). Inr (fix_result r len, ba1, w1))"

definition writeFixSize_ba :: "'w ba_io \<Rightarrow> bytearray \<Rightarrow> nat \<Rightarrow> 'w \<Rightarrow> ba_error + int \<times> bytearray \<times> 'w" where
  "writeFixSize_ba wr ba len w = bindE (ba_fix_loop wr ba (int len) w) (\<lambda>(r, ba1, w1). Inr (fix_result r len, ba1, w1))"

section \<open>Socket streams\<close>

record socket_stream =
  ss_sock :: "sock option"
  ss_owner :: bool

definition ss_isConnected :: "socket_stream \<Rightarrow> bool" where
  "ss_isConnected st \<longleftrightarrow> (case ss_sock st of None \<Rightarrow> False | Some s \<Rightarrow> so_connected s)"

definition ss_read :: "'w syscalls \<Rightarrow> socket_stream \<Rightarrow> 'w reader" where
  "ss_read sys st len w = (case ss_sock st of
     Some s \<Rightarrow> if \<not> ss_isConnected st then ((- 1, []), w) else sock_recv sys len 0 s w
   | None \<Rightarrow> ((- 1, []), w))"

definition ss_write :: "'w syscalls \<Rightarrow> socket_stream \<Rightarrow> 'w writer" where
  "ss_write sys st buf w = (case ss_sock st of
     Some s \<Rightarrow> if \<not> ss_isConnected st then (- 1, w) else sock_send sys buf 0 s w
   | None \<Rightarrow> (- 1, w))"

definition ss_read_ba :: "'w syscalls \<Rightarrow> socket_stream \<Rightarrow> 'w ba_io" where
  "ss_read_ba sys st ba len w = (case ss_sock st of
     Some s \<Rightarrow>
       if \<not> ss_isConnected st then Inr (- 1, ba, w)
       else bindE (getWriteBuffers [] len ba) (\<lambda>(_, iovs, ba1).
         case sock_recv_iov sys (map iov_len iovs) 0 s w of ((rt, bs), w1) \<Rightarrow>
           let ba2 = ba1\<lparr>ba_nodes := iov_store (ba_nodes ba1) iovs bs\<rparr> in
           if rt > 0 then bindE (setPosition (ba_pos ba2 + nat rt) ba2) (\<lambda>ba3. Inr (rt, ba3, w1))
           else Inr (rt, ba2, w1))
   | None \<Rightarrow> Inr (- 1, ba, w))"

definition iov_data :: "byte list list \<Rightarrow> iovec \<Rightarrow> byte list" where
  "iov_data ns v = take (iov_len v) (drop (iov_off v) (ns ! iov_block v))"

definition ss_write_ba :: "'w syscalls \<Rightarrow> socket_stream \<Rightarrow> 'w ba_io" where
  "ss_write_ba sys st ba len w = (case ss_sock st of
     Some s \<Rightarrow>
       if \<not> ss_isConnected st then Inr (- 1, ba, w)
       else bindE (getReadBuffers [] len ba) (\<lambda>(_, iovs).
         case sock_send_iov sys (map (iov_data (ba_nodes ba)) iovs) 0 s w of (rt, w1) \<Rightarrow>
           if rt > 0 then bindE (setPosition (ba_pos ba + nat rt) ba) (\<lambda>ba1. Inr (rt, ba1, w1))
           else Inr (rt, ba, w1))
   | None \<Rightarrow> Inr (- 1, ba, w))"

definition ss_close :: "'w syscalls \<Rightarrow> socket_stream \<Rightarrow> 'w \<Rightarrow> socket_stream \<times> 'w" where
  "ss_close sys st w = (case ss_sock st of None \<Rightarrow> (st, w)
     | Some s \<Rightarrow> (case sock_close sys s w of (_, s1, w1) \<Rightarrow> (st\<lparr>ss_sock := Some s1\<rparr>, w1)))"

definition ss_destroy :: "'w syscalls \<Rightarrow> socket_stream \<Rightarrow> 'w \<Rightarrow> socket_stream \<times> 'w" where
  "ss_destroy sys st w = (if ss_owner st then ss_close sys st w else (st, w))"

definition ss_getRemoteAddress :: "'w syscalls \<Rightarrow> socket_stream \<Rightarrow> 'w \<Rightarrow> address option \<times> socket_stream" where
  "ss_getRemoteAddress sys st w = (case ss_sock st of None \<Rightarrow> (None, st)
     | Some s \<Rightarrow> (case getRemoteAddress sys s w of (a, s1) \<Rightarrow> (Some a, st\<lparr>ss_sock := Some s1\<rparr>)))"

definition ss_getLocalAddress :: "'w syscalls \<Rightarrow> socket_stream \<Rightarrow> 'w \<Rightarrow> address option \<times> socket_stream" where
  "ss_getLocalAddress sys st w = (case ss_sock st of None \<Rightarrow> (None, st)
     | Some s \<Rightarrow> (case getLocalAddress sys s w of (a, s1) \<Rightarrow> (Some a, st\<lparr>ss_sock := Some s1\<rparr>)))"

definition address_string :: "address option \<Rightarrow> string" where
  "address_string a = (case a of None \<Rightarrow> '''' | Some b \<Rightarrow> addr_toString b)"

definition ss_getRemoteAddressString :: "'w syscalls \<Rightarrow> socket_stream \<Rightarrow> 'w \<Rightarrow> string \<times> socket_stream" where
  "ss_getRemoteAddressString sys st w = (case ss_getRemoteAddress sys st w of (a, st1) \<Rightarrow> (address_string a, st1))"

definition ss_getLocalAddressString :: "'w syscalls \<Rightarrow> socket_stream \<Rightarrow> 'w \<Rightarrow> string \<times> socket_stream" where
  "ss_getLocalAddressString sys st w = (case ss_getLocalAddress sys st w of (a, st1) \<Rightarrow> (address_string a, st1))"

section \<open>The server\<close>

text \<open>
  The tasks that a server schedules: to serve a client, to accept on a listening socket, to close the listening sockets.
  \<open>schedule\<close> is the scheduler's \<^verbatim>\<open>schedule\<close> on one of the two I/O managers. A listening socket is shared between the
  server and its accepting fiber; the server's list holds it.
\<close>

datatype server_task = Handle_client sock | Start_accept nat | Close_all

datatype worker = Io_worker | Accept_worker

record tcp_server =
  sv_sockets :: "sock list"
  sv_recv_timeout :: u64
  sv_name :: string
  sv_type :: string
  sv_stop :: bool

definition new_TcpServer :: "u64 \<Rightarrow> tcp_server" where
  "new_TcpServer read_timeout = \<lparr>sv_sockets = [], sv_recv_timeout = read_timeout, sv_name = ''hiper/1.0.0'', sv_type = ''tcp'', sv_stop = True\<rparr>"

definition destroy_all :: "'w syscalls \<Rightarrow> sock list \<Rightarrow> 'w \<Rightarrow> 'w" where
  "destroy_all sys socks w = fold (destroy sys) socks w"

text \<open>One address after the other; a socket that fails is destroyed with the end of its iteration.\<close>

fun bind_loop :: "'w syscalls \<Rightarrow> address list \<Rightarrow> sock list \<Rightarrow> address list \<Rightarrow> 'w \<Rightarrow> sock list \<times> address list \<times> 'w" where
  "bind_loop sys [] socks fails w = (socks, fails, w)"
| "bind_loop sys (addr # addrs) socks fails w =
     (case sock_bind sys addr (CreateTCP addr) w of (bound, s1, w1) \<Rightarrow>
        if \<not> bound then bind_loop sys addrs socks (fails @ [addr]) (destroy sys s1 w1)
        else case sock_listen sys 1024 s1 w1 of (listening, w2) \<Rightarrow>
          if \<not> listening then bind_loop sys addrs socks (fails @ [addr]) (destroy sys s1 w2)
          else bind_loop sys addrs (socks @ [s1]) fails w2)"

definition tcp_bind :: "'w syscalls \<Rightarrow> address list \<Rightarrow> address list \<Rightarrow> tcp_server \<Rightarrow> 'w \<Rightarrow> bool \<times> address list \<times> tcp_server \<times> 'w" where
  "tcp_bind sys addrs fails sv w =
     (case bind_loop sys addrs (sv_sockets sv) fails w of (socks, fails1, w1) \<Rightarrow>
        if fails1 \<noteq> [] then (False, fails1, sv\<lparr>sv_sockets := []\<rparr>, destroy_all sys socks w1)
        else (True, fails1, sv\<lparr>sv_sockets := socks\<rparr>, w1))"

definition tcp_bind1 :: "'w syscalls \<Rightarrow> address \<Rightarrow> tcp_server \<Rightarrow> 'w \<Rightarrow> bool \<times> tcp_server \<times> 'w" where
  "tcp_bind1 sys addr sv w = (case tcp_bind sys [addr] [] sv w of (ok, _, sv1, w1) \<Rightarrow> (ok, sv1, w1))"

definition tcp_start :: "(worker \<Rightarrow> server_task \<Rightarrow> 'w \<Rightarrow> 'w) \<Rightarrow> tcp_server \<Rightarrow> 'w \<Rightarrow> bool \<times> tcp_server \<times> 'w" where
  "tcp_start schedule sv w =
     (if \<not> sv_stop sv then (True, sv, w)
      else (True, sv\<lparr>sv_stop := False\<rparr>,
            fold (\<lambda>i. schedule Accept_worker (Start_accept i)) [0..<length (sv_sockets sv)] w))"

definition tcp_stop :: "(worker \<Rightarrow> server_task \<Rightarrow> 'w \<Rightarrow> 'w) \<Rightarrow> tcp_server \<Rightarrow> 'w \<Rightarrow> tcp_server \<times> 'w" where
  "tcp_stop schedule sv w = (sv\<lparr>sv_stop := True\<rparr>, schedule Accept_worker Close_all w)"

text \<open>The task of \<^verbatim>\<open>stop\<close>.\<close>

definition tcp_close_all :: "'w syscalls \<Rightarrow> tcp_server \<Rightarrow> 'w \<Rightarrow> tcp_server \<times> 'w" where
  "tcp_close_all sys sv w =
     (sv\<lparr>sv_sockets := []\<rparr>, fold (\<lambda>s w. destroy sys s (snd (sock_cancelAll sys s w))) (sv_sockets sv) w)"

text \<open>
  One pass of the loop of \<^verbatim>\<open>startAccept\<close>, and the loop for what its passes see: the flag and the listening socket, which
  \<^verbatim>\<open>stop\<close> changes meanwhile. A list that ends without the flag is a loop that still runs.
\<close>

definition accept_pass :: "'w syscalls \<Rightarrow> (worker \<Rightarrow> server_task \<Rightarrow> 'w \<Rightarrow> 'w) \<Rightarrow> u64 \<Rightarrow> sock \<Rightarrow> 'w \<Rightarrow> sock_error + 'w" where
  "accept_pass sys schedule timeout s w =
     bindE (sock_accept sys s w) (\<lambda>(client, w1). case client of
       Some c \<Rightarrow> Inr (schedule Io_worker (Handle_client c) (setRecvTimeout sys c timeout w1))
     | None \<Rightarrow> Inr w1)"

fun startAccept :: "'w syscalls \<Rightarrow> (worker \<Rightarrow> server_task \<Rightarrow> 'w \<Rightarrow> 'w) \<Rightarrow> u64 \<Rightarrow> (bool \<times> sock) list \<Rightarrow> 'w \<Rightarrow> sock_error + 'w" where
  "startAccept sys schedule timeout [] w = Inr w"
| "startAccept sys schedule timeout ((stopped, s) # passes) w =
     (if stopped then Inr w
      else bindE (accept_pass sys schedule timeout s w) (startAccept sys schedule timeout passes))"

definition tcp_toString :: "string \<Rightarrow> string \<Rightarrow> string \<Rightarrow> tcp_server \<Rightarrow> string" where
  "tcp_toString io_name accept_name prefix sv =
     prefix @ ''[type='' @ sv_type sv @ '' name='' @ sv_name sv @ '' io_worker='' @ io_name @ '' accept='' @ accept_name
     @ '' recv_timeout='' @ show_nat (unat (sv_recv_timeout sv)) @ '']'' @ [CHR 0x0A]
     @ (let pfx = (if prefix = [] then ''    '' else prefix)
        in concat (map (\<lambda>s. pfx @ pfx @ sock_toString s @ [CHR 0x0A]) (sv_sockets sv)))"

section \<open>Sockets that were accepted\<close>

lemma getLocalAddress_fields: "snd (getLocalAddress sys s w) = s\<lparr>so_local := so_local (snd (getLocalAddress sys s w))\<rparr>"
  by (auto simp: getLocalAddress_def split: option.splits)

lemma getRemoteAddress_fields: "snd (getRemoteAddress sys s w) = s\<lparr>so_remote := so_remote (snd (getRemoteAddress sys s w))\<rparr>"
  by (auto simp: getRemoteAddress_def split: option.splits)

lemma address_fields [simp]:
  "so_fd (snd (getLocalAddress sys s w)) = so_fd s" "so_connected (snd (getLocalAddress sys s w)) = so_connected s"
  "so_family (snd (getLocalAddress sys s w)) = so_family s" "so_remote (snd (getLocalAddress sys s w)) = so_remote s"
  "so_type (snd (getLocalAddress sys s w)) = so_type s" "so_protocol (snd (getLocalAddress sys s w)) = so_protocol s"
  "so_fd (snd (getRemoteAddress sys s w)) = so_fd s" "so_connected (snd (getRemoteAddress sys s w)) = so_connected s"
  "so_family (snd (getRemoteAddress sys s w)) = so_family s" "so_local (snd (getRemoteAddress sys s w)) = so_local s"
  "so_type (snd (getRemoteAddress sys s w)) = so_type s" "so_protocol (snd (getRemoteAddress sys s w)) = so_protocol s"
  by (subst getLocalAddress_fields, simp)+ (subst getRemoteAddress_fields, simp)+

lemma known_address [simp]:
  "so_local s = Some a \<Longrightarrow> getLocalAddress sys s w = (a, s)" "so_remote s = Some a \<Longrightarrow> getRemoteAddress sys s w = (a, s)"
  by (simp_all add: getLocalAddress_def getRemoteAddress_def)

lemma sock_init_result:
  "sock_init sys fd s w = Inr (True, s', w') \<Longrightarrow> so_fd s' = fd \<and> so_connected s' = so_connected s"
  by (auto simp: sock_init_def Let_def split: option.splits if_splits)

lemma sock_accept_result:
  "sock_accept sys l w = Inr (Some s, w') \<Longrightarrow> so_fd s = fst (sys_accept sys (so_fd l) w) \<and> so_fd s \<noteq> - 1 \<and> \<not> so_connected s"
  unfolding sock_accept_def Let_def
  by (auto split: prod.splits if_splits simp: bindE_Inr_iff new_Socket_def dest!: sock_init_result)

definition muted :: "'w syscalls \<Rightarrow> sock \<Rightarrow> bool" where
  "muted sys s \<longleftrightarrow> (\<forall>buf bufs dest n ns flags w.
     sock_send sys buf flags s w = (- 1, w) \<and> sock_send_iov sys bufs flags s w = (- 1, w)
   \<and> sock_sendTo sys buf dest flags s w = (- 1, w) \<and> sock_sendTo_iov sys bufs dest flags s w = (- 1, w)
   \<and> sock_recv sys n flags s w = ((- 1, []), w) \<and> sock_recv_iov sys ns flags s w = ((- 1, []), w)
   \<and> sock_recvFrom sys n dest flags s w = ((- 1, [], dest), w) \<and> sock_recvFrom_iov sys ns dest flags s w = ((- 1, [], Some dest), w))"

lemma muted_iff: "muted sys s" if "\<not> so_connected s"
  using that by (simp add: muted_def sock_send_def sock_send_iov_def sock_sendTo_def sock_sendTo_iov_def
      sock_recv_def sock_recv_iov_def sock_recvFrom_def sock_recvFrom_iov_def)

lemma read_fix_muted: "0 < n \<Longrightarrow> (\<And>k w. rd k w = ((- 1, []), w)) \<Longrightarrow> readFixSize rd n w = (- 1, [], w)"
  unfolding readFixSize_def by (subst read_fix_loop.simps) (simp add: fix_result_def)

lemma write_fix_muted: "0 < n \<Longrightarrow> (\<And>b w. wr b w = (- 1, w)) \<Longrightarrow> writeFixSize wr buf n w = (- 1, w)"
  unfolding writeFixSize_def by (subst write_fix_loop.simps) (simp add: fix_result_def)

text \<open>
  A socket that \<^verbatim>\<open>accept\<close> returns has a descriptor but is not marked connected, so every transfer on it and
  every fixed-size read and write of a stream on it fails with -1 without a system call, until \<^verbatim>\<open>connect\<close> is called.
\<close>

theorem accepted_socket_mute:
  assumes "sock_accept sys l w = Inr (Some s, w')"
  shows "isValid s \<and> \<not> so_connected s \<and> muted sys s
    \<and> (0 < n \<longrightarrow> readFixSize (ss_read sys \<lparr>ss_sock = Some s, ss_owner = own\<rparr>) n w'' = (- 1, [], w'')
              \<and> writeFixSize (ss_write sys \<lparr>ss_sock = Some s, ss_owner = own\<rparr>) buf n w'' = (- 1, w''))"
  using sock_accept_result [OF assms] muted_iff
  by (auto simp: isValid_def ss_read_def ss_write_def ss_isConnected_def intro!: read_fix_muted write_fix_muted)

text \<open>A small kernel: the state is the list of open descriptors; binding to port 0 fails.\<close>

definition example_sys :: "int list syscalls" where
  "example_sys = \<lparr>
     sys_socket = \<lambda>f t p w. (let fd = int (Suc (fold max (map nat w) 2)) in (fd, fd # w)),
     sys_setsockopt = \<lambda>fd l q v w. (0, w),
     sys_getsockopt = \<lambda>fd l q n w. None,
     sys_accept = \<lambda>fd w. (let c = int (Suc (fold max (map nat w) 2)) in (c, c # w)),
     sys_bind = \<lambda>fd a w. (case a of IPv4Address i \<Rightarrow> if sin_port i = 0 then (- 1, w) else (0, w) | _ \<Rightarrow> (- 1, w)),
     sys_listen = \<lambda>fd n w. (0, w),
     sys_connect = \<lambda>fd a w. (- 1, w),
     sys_connect_with_timeout = \<lambda>fd a t w. (- 1, w),
     sys_close = \<lambda>fd w. filter (\<lambda>x. x \<noteq> fd) w,
     sys_send = \<lambda>fd b q w. (int (length b), w),
     sys_sendmsg = \<lambda>fd b a q w. (int (length (concat b)), w),
     sys_sendto = \<lambda>fd b a q w. (int (length b), w),
     sys_recv = \<lambda>fd n q w. ((0, []), w),
     sys_recvmsg = \<lambda>fd ns a q w. ((0, [], a), w),
     sys_recvfrom = \<lambda>fd n a q w. ((0, [], a), w),
     sys_getpeername = \<lambda>fd a w. Some (a, getAddrLen a),
     sys_getsockname = \<lambda>fd a w. Some (a, getAddrLen a),
     sys_errno = \<lambda>w. 0, sys_set_errno = \<lambda>e w. w, sys_unlink = \<lambda>p w. w,
     fd_context = \<lambda>fd w. Some \<lparr>is_init = True, is_socket = True, sys_nonblock = True, user_nonblock = False,
        is_closed = False, ctx_fd = fd, recv_timeout = - 1, send_timeout = - 1\<rparr>,
     cancel_event = \<lambda>fd e w. (False, w), cancel_all = \<lambda>fd w. (False, w)\<rparr>"

theorem accepted_socket_mute_witness:
  "\<exists>s w'. sock_accept example_sys (CreateTCPSocket\<lparr>so_fd := 3\<rparr>) [3] = Inr (Some s, w') \<and> so_fd s = 4 \<and> muted example_sys s"
proof -
  have "\<exists>s w'. sock_accept example_sys (CreateTCPSocket\<lparr>so_fd := 3\<rparr>) [3] = Inr (Some s, w') \<and> so_fd s = 4"
    by (simp add: sock_accept_def example_sys_def CreateTCPSocket_def new_Socket_def sock_init_def initSocket_def sock_setOption_def Let_def)
  then obtain s w' where s: "sock_accept example_sys (CreateTCPSocket\<lparr>so_fd := 3\<rparr>) [3] = Inr (Some s, w')" "so_fd s = 4" by blast
  then show ?thesis using accepted_socket_mute [OF s(1)] by blast
qed

section \<open>Descriptors\<close>

text \<open>What the kernel does with the set of open descriptors.\<close>

definition fd_laws :: "'w syscalls \<Rightarrow> ('w \<Rightarrow> int set) \<Rightarrow> bool" where
  "fd_laws sys opens \<longleftrightarrow>
     (\<forall>f t p w fd w1. sys_socket sys f t p w = (fd, w1) \<longrightarrow>
        (if fd = - 1 then opens w1 = opens w else fd \<notin> opens w \<and> opens w1 = insert fd (opens w)))
   \<and> (\<forall>fd w. opens (sys_close sys fd w) = opens w - {fd})
   \<and> (\<forall>fd l q v w. opens (snd (sys_setsockopt sys fd l q v w)) = opens w)
   \<and> (\<forall>fd a w. opens (snd (sys_bind sys fd a w)) = opens w)
   \<and> (\<forall>fd n w. opens (snd (sys_listen sys fd n w)) = opens w)
   \<and> (\<forall>fd a w. opens (snd (sys_connect sys fd a w)) = opens w)
   \<and> (\<forall>fd a t w. opens (snd (sys_connect_with_timeout sys fd a t w)) = opens w)
   \<and> (\<forall>p w. opens (sys_unlink sys p w) = opens w)
   \<and> (\<forall>fd w. opens (snd (cancel_all sys fd w)) = opens w)"

text \<open>\<open>holds\<close>: the open descriptors are those of before and, one each, those of the sockets.\<close>

definition holds :: "('w \<Rightarrow> int set) \<Rightarrow> int set \<Rightarrow> sock list \<Rightarrow> 'w \<Rightarrow> bool" where
  "holds opens before socks w \<longleftrightarrow>
     opens w = before \<union> set (map so_fd socks) \<and> before \<inter> set (map so_fd socks) = {}
     \<and> distinct (map so_fd socks) \<and> - 1 \<notin> set (map so_fd socks)"

definition own :: "('w \<Rightarrow> int set) \<Rightarrow> int set \<Rightarrow> sock \<Rightarrow> 'w \<Rightarrow> bool" where
  "own opens before s w \<longleftrightarrow> (if so_fd s = - 1 then opens w = before else so_fd s \<notin> before \<and> opens w = insert (so_fd s) before)"

lemma fd_laws_simps:
  assumes "fd_laws sys opens"
  shows "opens (sys_close sys fd w) = opens w - {fd}"
    and "opens (snd (sock_setOption sys s l q v w)) = opens w"
    and "sys_bind sys fd a w = (r, w1) \<Longrightarrow> opens w1 = opens w"
    and "sys_listen sys fd n w = (r, w1) \<Longrightarrow> opens w1 = opens w"
    and "sys_connect sys fd a w = (r, w1) \<Longrightarrow> opens w1 = opens w"
    and "sys_connect_with_timeout sys fd a t w = (r, w1) \<Longrightarrow> opens w1 = opens w"
    and "opens (sys_unlink sys p w) = opens w"
    and "opens (snd (cancel_all sys fd w)) = opens w"
    and "opens (initSocket sys s w) = opens w"
  using assms by (auto simp: fd_laws_def sock_setOption_def initSocket_def Let_def split: prod.splits) (metis snd_conv)+

lemma newSocket_own:
  assumes "fd_laws sys opens" and "so_fd s = - 1" and "newSocket sys s w = (s1, w1)"
  shows "own opens (opens w) s1 w1 \<and> s1 = s\<lparr>so_fd := so_fd s1\<rparr>"
proof -
  obtain fd w2 where k: "sys_socket sys (so_family s) (so_type s) (so_protocol s) w = (fd, w2)" by force
  have l: "if fd = - 1 then opens w2 = opens w else fd \<notin> opens w \<and> opens w2 = insert fd (opens w)"
    by (rule assms(1) [unfolded fd_laws_def, THEN conjunct1, rule_format, OF k])
  have n: "s1 = s\<lparr>so_fd := fd\<rparr>" "opens w1 = opens w2"
    using assms(3) by (simp_all add: newSocket_def k Let_def fd_laws_simps(9) [OF assms(1)] split: if_splits)
      (metis fd_laws_simps(9) [OF assms(1)])+
  show ?thesis using l by (simp add: own_def n split: if_splits)
qed

lemma own_local: "own opens before (s\<lparr>so_local := a\<rparr>) w = own opens before s w"
  "own opens before (s\<lparr>so_remote := b\<rparr>) w = own opens before s w"
  "own opens before (s\<lparr>so_connected := c\<rparr>) w = own opens before s w"
  by (simp_all add: own_def)

lemma prepare_own:
  assumes "fd_laws sys opens" and "own opens before s w" and "prepare sys a s w = (ok, s1, w1)"
  shows "own opens before s1 w1 \<and> so_local s1 = so_local s \<and> so_remote s1 = so_remote s \<and> (ok \<longrightarrow> so_fd s1 \<noteq> - 1)"
proof (cases "isValid s")
  case True
  then have "s1 = s" "w1 = w" using assms(3) by (simp_all add: prepare_def)
  then show ?thesis using True assms(2) by (simp add: isValid_def)
next
  case False
  then have "opens w = before" "so_fd s = - 1" using assms(2) by (simp_all add: own_def isValid_def)
  moreover obtain s2 w2 where n: "newSocket sys s w = (s2, w2)" by force
  ultimately have "own opens before s2 w2 \<and> s2 = s\<lparr>so_fd := so_fd s2\<rparr>" using newSocket_own [OF assms(1) _ n] by simp
  moreover from this have "so_local s2 = so_local s" "so_remote s2 = so_remote s" by (metis sock.simps(6,7) sock.surjective sock.update_convs(1))+
  ultimately show ?thesis using False n assms(3) by (auto simp: prepare_def isValid_def)
qed

lemma sock_close_own:
  assumes "fd_laws sys opens" and "own opens before s w" and "sock_close sys s w = (r, s1, w1)"
  shows "opens w1 = before \<and> so_fd s1 = - 1 \<and> \<not> so_connected s1 \<and> so_remote s1 = so_remote s"
  using assms(2,3) by (auto simp: sock_close_def own_def Let_def fd_laws_simps(1) [OF assms(1)] split: if_splits)

lemma destroy_own: "fd_laws sys opens \<Longrightarrow> own opens before s w \<Longrightarrow> opens (destroy sys s w) = before"
  using sock_close_own [of sys opens before s w] unfolding destroy_def by (metis prod.collapse)

lemma sock_connect_own:
  assumes "fd_laws sys opens" and "own opens before s w" and "sock_connect sys a t s w = (ok, s1, w1)"
  shows "own opens before s1 w1"
proof -
  obtain ok2 s2 w2 where p: "prepare sys a (s\<lparr>so_remote := Some a\<rparr>) w = (ok2, s2, w2)" by (metis prod_cases3)
  note o = prepare_own [OF assms(1) _ p, of before, unfolded own_local, OF assms(2)]
  define call where "call = (if t = - 1 then sys_connect sys (so_fd s2) a w2 else sys_connect_with_timeout sys (so_fd s2) a t w2)"
  obtain r w3 where c: "call = (r, w3)" by force
  have w3: "opens w3 = opens w2"
    using c fd_laws_simps(5,6) [OF assms(1)] unfolding call_def by (metis (full_types))
  then have o3: "own opens before s2 w3" using o by (simp add: own_def)
  obtain q s4 w4 where cl: "sock_close sys s2 w3 = (q, s4, w4)" by (metis prod_cases3)
  have o4: "own opens before s4 w4" using sock_close_own [OF assms(1) o3 cl] by (simp add: own_def)
  have r: "sock_connect sys a t s w = (if \<not> ok2 then (False, s2, w2) else if r \<noteq> 0 then (False, s4, w4)
      else (True, snd (getLocalAddress sys (snd (getRemoteAddress sys (s2\<lparr>so_connected := True\<rparr>) w3)) w3), w3))"
    unfolding sock_connect_def p call_def [symmetric] c prod.case cl Let_def by (rule refl)
  have "own opens before (snd (getLocalAddress sys (snd (getRemoteAddress sys (s2\<lparr>so_connected := True\<rparr>) w3)) w3)) w3"
    using o3 by (simp add: own_def)
  then show ?thesis using assms(3) [unfolded r] o o4 by (auto simp del: known_address address_fields split: if_splits)
qed

lemma unix_probe_opens:
  assumes "fd_laws sys opens" and "unix_probe sys a w = (free, w1)"
  shows "opens w1 = opens w"
proof (cases a)
  case (UnixAddress u n)
  obtain c p w2 where k: "sock_connect sys a (- 1) CreateUnixTCPSocket w = (c, p, w2)" by (metis prod_cases3)
  have "own opens (opens w) CreateUnixTCPSocket w" by (simp add: own_def CreateUnixTCPSocket_def new_Socket_def)
  note o = sock_connect_own [OF assms(1) this k]
  have "own opens (opens w) p (sys_unlink sys (getPath u n) w2)"
    using o fd_laws_simps(7) [OF assms(1)] by (simp add: own_def)
  then show ?thesis
    using assms(2) k UnixAddress destroy_own [OF assms(1) o] destroy_own [OF assms(1)]
    by (auto simp: unix_probe_def split: if_splits)
qed (use assms(2) in \<open>simp_all add: unix_probe_def\<close>)

lemma sock_bind_own:
  assumes "fd_laws sys opens" and "own opens before s w" and "sock_bind sys a s w = (ok, s1, w1)"
  shows "own opens before s1 w1 \<and> so_local s1 = Some a \<and> (ok \<longrightarrow> so_fd s1 \<noteq> - 1)"
proof -
  obtain ok2 s2 w2 where p: "prepare sys a (s\<lparr>so_local := Some a\<rparr>) w = (ok2, s2, w2)" by (metis prod_cases3)
  note o = prepare_own [OF assms(1) _ p, of before, unfolded own_local, OF assms(2)]
  obtain free w3 where u: "unix_probe sys a w2 = (free, w3)" by force
  obtain r w4 where b: "sys_bind sys (so_fd s2) a w3 = (r, w4)" by force
  have "opens w3 = opens w2" "opens w4 = opens w3"
    by (rule unix_probe_opens [OF assms(1) u], rule fd_laws_simps(3) [OF assms(1) b])
  then have "own opens before s2 w3" "own opens before s2 w4" using o by (simp_all add: own_def)
  then show ?thesis
    using assms(3) o unfolding sock_bind_def p prod.case u b by (auto split: if_splits)
qed

section \<open>The server's sockets\<close>

lemma holds_append:
  "holds opens before socks w \<Longrightarrow> own opens (opens w) s w1 \<Longrightarrow> so_fd s \<noteq> - 1 \<Longrightarrow> holds opens before (socks @ [s]) w1"
  by (auto simp: holds_def own_def)

lemma holds_same: "opens w = opens w1 \<Longrightarrow> holds opens before socks w \<Longrightarrow> holds opens before socks w1"
  by (simp add: holds_def)

lemma bind_loop_holds:
  assumes "fd_laws sys opens"
  shows "holds opens before socks w \<Longrightarrow> bind_loop sys addrs socks fails w = (socks1, fails1, w1) \<Longrightarrow>
    holds opens before socks1 w1 \<and> (\<exists>more. fails1 = fails @ more
      \<and> (more = [] \<longrightarrow> (\<exists>new. socks1 = socks @ new \<and> map so_local new = map Some addrs)))"
proof (induction addrs arbitrary: socks fails w)
  case (Cons a addrs)
  obtain b s2 w2 where bd: "sock_bind sys a (CreateTCP a) w = (b, s2, w2)" by (metis prod_cases3)
  have "own opens (opens w) (CreateTCP a) w" by (simp add: own_def CreateTCP_def new_Socket_def)
  note o = sock_bind_own [OF assms this bd]
  obtain l w3 where ls: "sock_listen sys 1024 s2 w2 = (l, w3)" by force
  have w3: "opens w3 = opens w2"
    using ls fd_laws_simps(4) [OF assms] by (auto simp: sock_listen_def split: if_splits prod.splits)
  have o3: "own opens (opens w) s2 w3" using o w3 by (simp add: own_def)
  have d2: "holds opens before socks (destroy sys s2 w2)" and d3: "holds opens before socks (destroy sys s2 w3)"
    using destroy_own [OF assms, of "opens w"] o o3 Cons.prems(1) by (simp_all add: holds_def)
  consider "\<not> b \<or> \<not> l" | "b" "l" by blast
  then show ?case
  proof cases
    case 1
    then obtain w4 where "bind_loop sys (a # addrs) socks fails w = bind_loop sys addrs socks (fails @ [a]) w4"
      and "holds opens before socks w4" using bd ls d2 d3 by (cases b) auto
    then show ?thesis using Cons.IH [of socks w4 "fails @ [a]"] Cons.prems(2) by auto
  next
    case 2
    then have step: "bind_loop sys (a # addrs) socks fails w = bind_loop sys addrs (socks @ [s2]) fails w3" using bd ls by simp
    have h: "holds opens before (socks @ [s2]) w3" by (rule holds_append [OF Cons.prems(1) o3]) (use o 2 in simp)
    then show ?thesis using Cons.IH [OF h] Cons.prems(2) o unfolding step by force
  qed
qed auto

lemma destroy_all_holds:
  assumes "fd_laws sys opens"
  shows "holds opens before socks w \<Longrightarrow> opens (destroy_all sys socks w) = before"
    and "holds opens before socks w \<Longrightarrow> opens (fold (\<lambda>s w. destroy sys s (snd (sock_cancelAll sys s w))) socks w) = before"
proof -
  have step: "holds opens before socks (destroy sys s w)" if h: "holds opens before (s # socks) w" for s socks w
  proof -
    have "own opens (before \<union> set (map so_fd socks)) s w" using h by (auto simp: holds_def own_def)
    from destroy_own [OF assms this] show ?thesis using h by (auto simp: holds_def)
  qed
  show "holds opens before socks w \<Longrightarrow> opens (destroy_all sys socks w) = before"
    by (induction socks arbitrary: w) (auto simp: destroy_all_def holds_def [of _ _ "[]"] dest: step)
  show "holds opens before socks w \<Longrightarrow> opens (fold (\<lambda>s w. destroy sys s (snd (sock_cancelAll sys s w))) socks w) = before"
  proof (induction socks arbitrary: w)
    case (Cons s socks)
    have "holds opens before (s # socks) (snd (sock_cancelAll sys s w))"
      by (rule holds_same [OF _ Cons.prems]) (simp add: sock_cancelAll_def fd_laws_simps(8) [OF assms])
    then show ?case using Cons.IH step by simp
  qed (simp add: holds_def)
qed

text \<open>
  Property C14. \<^verbatim>\<open>TcpServer::bind\<close> is all or nothing and leaks no descriptor: it succeeds when every address got a socket,
  bound to it and listening, behind those of the server; otherwise the addresses that failed are reported and the server
  has no socket left. In both cases the open descriptors are those of before and one for each socket of the server, and
  the task of \<^verbatim>\<open>stop\<close> closes these.
\<close>

theorem tcp_bind_all_or_nothing:
  assumes "fd_laws sys opens" and "holds opens before (sv_sockets sv) w" and "tcp_bind sys addrs [] sv w = (ok, fails, sv', w')"
  shows "holds opens before (sv_sockets sv') w' \<and> (ok \<longleftrightarrow> fails = [])
    \<and> (if ok then \<exists>new. sv_sockets sv' = sv_sockets sv @ new \<and> map so_local new = map Some addrs else sv_sockets sv' = [])
    \<and> holds opens before (sv_sockets (fst (tcp_close_all sys sv' w'))) (snd (tcp_close_all sys sv' w'))"
proof -
  obtain socks1 fails1 w1 where b: "bind_loop sys addrs (sv_sockets sv) [] w = (socks1, fails1, w1)" by (metis prod_cases3)
  note h = bind_loop_holds [OF assms(1,2) b]
  have 1: "holds opens before (sv_sockets sv') w'"
    using assms(3) h destroy_all_holds(1) [OF assms(1), of before socks1 w1] by (auto simp: tcp_bind_def b holds_def [of _ _ "[]"] split: if_splits)
  have 2: "holds opens before (sv_sockets (fst (tcp_close_all sys sv' w'))) (snd (tcp_close_all sys sv' w'))"
    using destroy_all_holds(2) [OF assms(1) 1] by (simp add: tcp_close_all_def holds_def)
  show ?thesis using 1 2 h assms(3) by (auto simp: tcp_bind_def b split: if_splits)
qed

lemma fold_max_ge: "(a :: nat) \<le> fold max xs a" "x \<in> set xs \<Longrightarrow> x \<le> fold max xs a"
  by (induction xs arbitrary: a) (auto intro: order_trans [OF max.cobounded1] max.cobounded2 order_trans [OF max.cobounded2])

lemma example_laws: "fd_laws example_sys set"
proof -
  have "int (Suc (fold max (map nat w) 2)) \<notin> set w" for w :: "int list"
  proof
    assume "int (Suc (fold max (map nat w) 2)) \<in> set w"
    then have "nat (int (Suc (fold max (map nat w) 2))) \<in> set (map nat w)" by (metis image_eqI set_map)
    from fold_max_ge(2) [OF this, of 2] show False by simp
  qed
  then show ?thesis by (auto simp: fd_laws_def example_sys_def Let_def split: address.splits)
qed

theorem tcp_bind_all_or_nothing_witness:
  "fst (tcp_bind example_sys [IPv4Address (new_IPv4 0 80)] [] (new_TcpServer 100) [0])
   \<and> sv_sockets (fst (snd (snd (tcp_bind example_sys [IPv4Address (new_IPv4 0 80), IPv4Address (new_IPv4 0 0)] [] (new_TcpServer 100) [0])))) = []
   \<and> set (snd (snd (snd (tcp_bind example_sys [IPv4Address (new_IPv4 0 80), IPv4Address (new_IPv4 0 0)] [] (new_TcpServer 100) [0])))) = {0}"
proof -
  let ?g = "[IPv4Address (new_IPv4 0 80)]" and ?b = "[IPv4Address (new_IPv4 0 80), IPv4Address (new_IPv4 0 0)]"
  have h: "holds set {0} (sv_sockets (new_TcpServer 100)) [0]" by (simp add: holds_def new_TcpServer_def)
  obtain ok f sv w where g: "tcp_bind example_sys ?g [] (new_TcpServer 100) [0] = (ok, f, sv, w)" by (metis prod_cases4)
  obtain ok' f' sv' w' where b: "tcp_bind example_sys ?b [] (new_TcpServer 100) [0] = (ok', f', sv', w')" by (metis prod_cases4)
  have "fst (snd (tcp_bind example_sys ?g [] (new_TcpServer 100) [0])) = []" by code_simp
  moreover have "fst (snd (tcp_bind example_sys ?b [] (new_TcpServer 100) [0])) \<noteq> []" by code_simp
  ultimately show ?thesis
    using tcp_bind_all_or_nothing [OF example_laws h g] tcp_bind_all_or_nothing [OF example_laws h b] g b
    by (auto simp: holds_def)
qed

section \<open>Fixed-size transfers\<close>

text \<open>
  What a byte stream promises: \<open>src\<close> are the bytes still to come, \<open>dst\<close> those that went out. A call that returns a
  positive number moved as many bytes, one that returns zero or less moved none.
\<close>

definition recv_law :: "('w \<Rightarrow> byte list) \<Rightarrow> nat \<Rightarrow> int \<Rightarrow> byte list \<Rightarrow> 'w \<Rightarrow> 'w \<Rightarrow> bool" where
  "recv_law src n len bs w w1 \<longleftrightarrow> src w = bs @ src w1 \<and> length bs \<le> n \<and> nat len = length bs"

definition send_law :: "('w \<Rightarrow> byte list) \<Rightarrow> byte list \<Rightarrow> int \<Rightarrow> 'w \<Rightarrow> 'w \<Rightarrow> bool" where
  "send_law dst buf len w w1 \<longleftrightarrow> nat len \<le> length buf \<and> dst w1 = dst w @ take (nat len) buf"

definition reader_ok :: "'w reader \<Rightarrow> ('w \<Rightarrow> byte list) \<Rightarrow> bool" where
  "reader_ok rd src \<longleftrightarrow> (\<forall>n w len bs w1. rd n w = ((len, bs), w1) \<longrightarrow> recv_law src n len bs w w1)"

definition writer_ok :: "'w writer \<Rightarrow> ('w \<Rightarrow> byte list) \<Rightarrow> bool" where
  "writer_ok wr dst \<longleftrightarrow> (\<forall>buf w len w1. wr buf w = (len, w1) \<longrightarrow> send_law dst buf len w w1)"

definition recvmsg_ok :: "'w syscalls \<Rightarrow> int \<Rightarrow> ('w \<Rightarrow> byte list) \<Rightarrow> bool" where
  "recvmsg_ok sys fd src \<longleftrightarrow>
     (\<forall>lens w len bs a w1. sys_recvmsg sys fd lens None 0 w = ((len, bs, a), w1) \<longrightarrow> recv_law src (sum_list lens) len bs w w1)"

lemma read_fix_loop_spec:
  assumes "reader_ok rd src"
  shows "read_fix_loop rd left got w = (r, got', w') \<Longrightarrow> 0 \<le> left \<Longrightarrow>
    \<exists>bs. got' = got @ bs \<and> src w = bs @ src w'
      \<and> (case r of None \<Rightarrow> int (length bs) = left | Some e \<Rightarrow> e \<le> 0 \<and> int (length bs) < left)"
proof (induction "nat left" arbitrary: left got w rule: less_induct)
  case less
  show ?case
  proof (cases "left > 0")
    case True
    obtain len bs w1 where rd: "rd (nat left) w = ((len, bs), w1)" by (metis prod.collapse)
    then have l: "src w = bs @ src w1" "length bs \<le> nat left" "nat len = length bs"
      using assms unfolding reader_ok_def recv_law_def by blast+
    show ?thesis
    proof (cases "len \<le> 0")
      case True
      then show ?thesis using \<open>left > 0\<close> rd l less(2) by (subst (asm) read_fix_loop.simps) auto
    next
      case False
      have s: "read_fix_loop rd left got w = read_fix_loop rd (left - len) (got @ bs) w1"
        using \<open>left > 0\<close> False by (subst read_fix_loop.simps) (simp add: rd)
      have k: "nat (left - len) < nat left" "0 \<le> left - len" using l False True by linarith+
      from less(1) [OF k(1) less(2) [unfolded s] k(2)] obtain more where
        "got' = (got @ bs) @ more" "src w1 = more @ src w'"
        "case r of None \<Rightarrow> int (length more) = left - len | Some e \<Rightarrow> e \<le> 0 \<and> int (length more) < left - len" by auto
      then show ?thesis using l False by (intro exI [of _ "bs @ more"]) (auto split: option.splits)
    qed
  qed (use less in \<open>subst (asm) read_fix_loop.simps, auto\<close>)
qed

lemma readFixSize_spec:
  assumes "reader_ok rd src" and "readFixSize rd n w = (r, bs, w')"
  shows "src w = bs @ src w' \<and> (if length bs = n then r = int32 (int n) else r \<le> 0 \<and> length bs < n)"
proof -
  obtain r0 got w1 where l: "read_fix_loop rd (int n) [] w = (r0, got, w1)" by (metis prod_cases3)
  from read_fix_loop_spec [OF assms(1) l] show ?thesis
    using assms(2) by (auto simp: readFixSize_def l fix_result_def split: option.splits)
qed

lemma write_fix_loop_spec:
  assumes "writer_ok wr dst"
  shows "write_fix_loop wr buf off left w = (r, w') \<Longrightarrow> 0 \<le> left \<Longrightarrow> off + nat left \<le> length buf \<Longrightarrow>
    \<exists>k. dst w' = dst w @ take k (drop off buf) \<and> (case r of None \<Rightarrow> int k = left | Some e \<Rightarrow> e \<le> 0 \<and> int k < left)"
proof (induction "nat left" arbitrary: left off w rule: less_induct)
  case less
  show ?case
  proof (cases "left > 0")
    case True
    obtain len w1 where wr: "wr (take (nat left) (drop off buf)) w = (len, w1)" by force
    then have l: "nat len \<le> length (take (nat left) (drop off buf))"
        "dst w1 = dst w @ take (nat len) (take (nat left) (drop off buf))"
      using assms unfolding writer_ok_def send_law_def by blast+
    have le: "nat len \<le> nat left" using l(1) less(4) by simp
    show ?thesis
    proof (cases "len \<le> 0")
      case True
      then show ?thesis using \<open>left > 0\<close> wr l less(2) by (subst (asm) write_fix_loop.simps) (auto intro: exI [of _ 0])
    next
      case False
      have s: "write_fix_loop wr buf off left w = write_fix_loop wr buf (off + nat len) (left - len) w1"
        using \<open>left > 0\<close> False by (subst write_fix_loop.simps) (simp add: wr)
      have k: "nat (left - len) < nat left" "0 \<le> left - len" "off + nat len + nat (left - len) \<le> length buf"
        using le False True less(4) by linarith+
      from less(1) [OF k(1) _ k(2,3)] less(2) s obtain m where
        m: "dst w' = dst w1 @ take m (drop (off + nat len) buf)"
        "case r of None \<Rightarrow> int m = left - len | Some e \<Rightarrow> e \<le> 0 \<and> int m < left - len" by auto
      have "dst w' = dst w @ take (nat len + m) (drop off buf)"
        using m(1) l(2) le by (simp add: take_add min_def add.commute [of off])
      then show ?thesis using m(2) False by (intro exI [of _ "nat len + m"]) (auto split: option.splits)
    qed
  qed (use less in \<open>subst (asm) write_fix_loop.simps, auto intro: exI [of _ 0]\<close>)
qed

lemma writeFixSize_spec:
  assumes "writer_ok wr dst" and "writeFixSize wr buf n w = (r, w')" and "n \<le> length buf"
  shows "\<exists>k. dst w' = dst w @ take k buf \<and> (if k = n then r = int32 (int n) else r \<le> 0 \<and> k < n)"
proof -
  obtain r0 w1 where l: "write_fix_loop wr buf 0 (int n) w = (r0, w1)" by force
  from write_fix_loop_spec [OF assms(1) l] obtain k where
    "dst w1 = dst w @ take k buf" "case r0 of None \<Rightarrow> int k = int n | Some e \<Rightarrow> e \<le> 0 \<and> int k < int n" using assms(3) by auto
  then show ?thesis using assms(2) by (intro exI [of _ k]) (auto simp: writeFixSize_def l fix_result_def split: option.splits)
qed

lemma iov_store_none: "iov_store ns iovs [] = ns"
  by (induction iovs arbitrary: ns) simp_all

lemma ss_read_ba_spec:
  assumes "ba_wf ba" and "so_connected s" and "recvmsg_ok sys (so_fd s) src"
  shows "\<exists>rt bs ba1 w1. ss_read_ba sys \<lparr>ss_sock = Some s, ss_owner = ow\<rparr> ba n w = Inr (rt, ba1, w1)
    \<and> recv_law src n rt bs w w1 \<and> ba_wf ba1
    \<and> ba_content ba1 = overwrite (ba_content ba) (ba_pos ba) bs \<and> ba_pos ba1 = ba_pos ba + length bs"
proof -
  note a = addCapacity_spec [OF assms(1), of n]
  obtain iovs where g: "getWriteBuffers [] n ba = Inr (n, iovs, addCapacity n ba)"
    and c: "covers (ba_base ba) (length (ba_nodes (addCapacity n ba))) (ba_pos ba) iovs n"
    using getWriteBuffers_spec [OF assms(1), of "[]" n] by auto
  obtain rt bs ad w1 where k: "sys_recvmsg sys (so_fd s) (map iov_len iovs) None 0 w = ((rt, bs, ad), w1)" by (metis prod.collapse)
  then have l: "recv_law src n rt bs w w1" using assms(3) covers_length [OF c] unfolding recvmsg_ok_def by metis
  then have len: "length bs \<le> n" "nat rt = length bs" by (simp_all add: recv_law_def)
  let ?b = "(addCapacity n ba)\<lparr>ba_nodes := iov_store (ba_nodes (addCapacity n ba)) iovs bs\<rparr>"
  have step: "ss_read_ba sys \<lparr>ss_sock = Some s, ss_owner = ow\<rparr> ba n w
    = (if rt > 0 then bindE (setPosition (ba_pos ?b + nat rt) ?b) (\<lambda>ba3. Inr (rt, ba3, w1)) else Inr (rt, ?b, w1))"
    using assms(2) by (simp add: ss_read_ba_def ss_isConnected_def g sock_recv_iov_def k Let_def)
  show ?thesis
  proof (cases "rt > 0")
    case True
    obtain ba2 where "setPosition (ba_pos (addCapacity n ba) + length bs) ?b = Inr ba2" "ba_wf ba2"
      "ba_content ba2 = overwrite (ba_content ba) (ba_pos ba) bs" "ba_pos ba2 = ba_pos ba + length bs"
      using scatter_fill [OF assms(1) len(1) g] by blast
    then show ?thesis using True l len(2) unfolding step by auto
  next
    case False
    then have "bs = []" using len(2) by simp
    then have "?b = addCapacity n ba" by (simp add: iov_store_none)
    then show ?thesis using False l a \<open>bs = []\<close> unfolding step by auto
  qed
qed

lemma ba_read_loop_spec:
  assumes "so_connected s" and "recvmsg_ok sys (so_fd s) src"
  shows "ba_wf ba \<Longrightarrow> 0 \<le> left \<Longrightarrow>
    \<exists>r bs ba' w'. ba_fix_loop (ss_read_ba sys \<lparr>ss_sock = Some s, ss_owner = ow\<rparr>) ba left w = Inr (r, ba', w')
      \<and> src w = bs @ src w' \<and> ba_wf ba' \<and> ba_content ba' = overwrite (ba_content ba) (ba_pos ba) bs
      \<and> ba_pos ba' = ba_pos ba + length bs
      \<and> (case r of None \<Rightarrow> int (length bs) = left | Some e \<Rightarrow> e \<le> 0 \<and> int (length bs) < left)"
proof (induction "nat left" arbitrary: left ba w rule: less_induct)
  case less
  let ?io = "ss_read_ba sys \<lparr>ss_sock = Some s, ss_owner = ow\<rparr>"
  show ?case
  proof (cases "left > 0")
    case False
    then show ?thesis using less by (subst ba_fix_loop.simps) auto
  next
    case True
    obtain rt bs ba1 w1 where io: "?io ba (nat left) w = Inr (rt, ba1, w1)" and l: "recv_law src (nat left) rt bs w w1"
      and b: "ba_wf ba1" "ba_content ba1 = overwrite (ba_content ba) (ba_pos ba) bs" "ba_pos ba1 = ba_pos ba + length bs"
      using ss_read_ba_spec [OF less(2) assms] by metis
    have lb: "length bs \<le> nat left" "nat rt = length bs" "src w = bs @ src w1" using l by (simp_all add: recv_law_def)
    show ?thesis
    proof (cases "rt \<le> 0")
      case le: True
      then show ?thesis using True io lb b by (subst ba_fix_loop.simps) auto
    next
      case False
      have s: "ba_fix_loop ?io ba left w = ba_fix_loop ?io ba1 (left - rt) w1"
        using True False by (subst ba_fix_loop.simps) (simp add: io)
      have k: "nat (left - rt) < nat left" "0 \<le> left - rt" using lb False True by linarith+
      from less(1) [OF k(1) b(1) k(2), of w1] obtain r more ba' w' where
        m: "ba_fix_loop ?io ba1 (left - rt) w1 = Inr (r, ba', w')" "src w1 = more @ src w'" "ba_wf ba'"
        "ba_content ba' = overwrite (ba_content ba1) (ba_pos ba1) more" "ba_pos ba' = ba_pos ba1 + length more"
        "case r of None \<Rightarrow> int (length more) = left - rt | Some e \<Rightarrow> e \<le> 0 \<and> int (length more) < left - rt" by blast
      have "ba_pos ba \<le> length (ba_content ba)" using less(2) by (simp add: length_ba_content) (simp add: ba_wf_def)
      then have "ba_content ba' = overwrite (ba_content ba) (ba_pos ba) (bs @ more)"
        using m(4) b by (simp add: overwrite_append)
      then show ?thesis unfolding s m(1) using m lb b False
        by (intro exI [of _ r] exI [of _ "bs @ more"] exI [of _ ba'] exI [of _ w']) (auto split: option.splits)
    qed
  qed
qed

text \<open>
  Property C29. \<^verbatim>\<open>Stream::readFixSize\<close> into a byte array over a connected socket never fails inside the array, loses no
  byte and keeps their order: the bytes taken from the connection are those written at the position, which moves behind
  them, and the length is returned when all arrived, else the result of the receive call that ended the loop.
\<close>

theorem readFixSize_into_bytearray:
  assumes "ba_wf ba" and "so_connected s" and "recvmsg_ok sys (so_fd s) src"
  shows "\<exists>r bs ba' w'. readFixSize_ba (ss_read_ba sys \<lparr>ss_sock = Some s, ss_owner = ow\<rparr>) ba n w = Inr (r, ba', w')
    \<and> src w = bs @ src w' \<and> ba_wf ba' \<and> ba_content ba' = overwrite (ba_content ba) (ba_pos ba) bs
    \<and> ba_pos ba' = ba_pos ba + length bs \<and> (if length bs = n then r = int32 (int n) else r \<le> 0 \<and> length bs < n)"
proof -
  obtain r bs ba' w' where l: "ba_fix_loop (ss_read_ba sys \<lparr>ss_sock = Some s, ss_owner = ow\<rparr>) ba (int n) w = Inr (r, ba', w')"
    "src w = bs @ src w'" "ba_wf ba'" "ba_content ba' = overwrite (ba_content ba) (ba_pos ba) bs" "ba_pos ba' = ba_pos ba + length bs"
    "case r of None \<Rightarrow> int (length bs) = int n | Some e \<Rightarrow> e \<le> 0 \<and> int (length bs) < int n"
    using ba_read_loop_spec [OF assms(2,3,1), of "int n" ow w] by auto
  then show ?thesis by (auto simp: readFixSize_ba_def fix_result_def split: option.splits)
qed

text \<open>A kernel whose state is the bytes to come; a call delivers at most three.\<close>

definition example_recv :: "byte list syscalls" where
  "example_recv = \<lparr>
     sys_socket = \<lambda>f t p w. (3, w), sys_setsockopt = \<lambda>fd l q v w. (0, w), sys_getsockopt = \<lambda>fd l q n w. None,
     sys_accept = \<lambda>fd w. (4, w), sys_bind = \<lambda>fd a w. (0, w), sys_listen = \<lambda>fd n w. (0, w),
     sys_connect = \<lambda>fd a w. (0, w), sys_connect_with_timeout = \<lambda>fd a t w. (0, w), sys_close = \<lambda>fd w. w,
     sys_send = \<lambda>fd b q w. (int (length b), w), sys_sendmsg = \<lambda>fd b a q w. (int (length (concat b)), w),
     sys_sendto = \<lambda>fd b a q w. (int (length b), w),
     sys_recv = \<lambda>fd n q w. ((int (length (take (min n 3) w)), take (min n 3) w), drop (min n 3) w),
     sys_recvmsg = \<lambda>fd ns a q w. (let n = min (sum_list ns) 3 in ((int (length (take n w)), take n w, a), drop n w)),
     sys_recvfrom = \<lambda>fd n a q w. ((0, [], a), w),
     sys_getpeername = \<lambda>fd a w. None, sys_getsockname = \<lambda>fd a w. None,
     sys_errno = \<lambda>w. 0, sys_set_errno = \<lambda>e w. w, sys_unlink = \<lambda>p w. w, fd_context = \<lambda>fd w. None,
     cancel_event = \<lambda>fd e w. (False, w), cancel_all = \<lambda>fd w. (False, w)\<rparr>"

lemma example_recv_ok: "recvmsg_ok example_recv fd id"
  by (auto simp: recvmsg_ok_def example_recv_def recv_law_def Let_def)

theorem readFixSize_into_bytearray_witness:
  "\<exists>ba' w'. readFixSize_ba (ss_read_ba example_recv \<lparr>ss_sock = Some (CreateTCPSocket\<lparr>so_fd := 3, so_connected := True\<rparr>), ss_owner = True\<rparr>)
      (new_bytearray 2) 5 [1, 2, 3, 4, 5, 6, 7] = Inr (5, ba', w') \<and> ba_content ba' = [1, 2, 3, 4, 5] \<and> w' = [6, 7]"
proof -
  let ?s = "CreateTCPSocket\<lparr>so_fd := 3, so_connected := True\<rparr>"
  let ?run = "readFixSize_ba (ss_read_ba example_recv \<lparr>ss_sock = Some ?s, ss_owner = True\<rparr>) (new_bytearray 2) 5 [1, 2, 3, 4, 5, 6, 7]"
  have e: "case ?run of Inr (r, ba', w') \<Rightarrow> r = 5 \<and> w' = [6, 7] | Inl _ \<Rightarrow> False" by code_simp
  have c: "so_connected ?s" by simp
  obtain r bs ba' w' where r: "?run = Inr (r, ba', w')" "id [1, 2, 3, 4, 5, 6, 7] = bs @ id w'"
    "ba_content ba' = overwrite (ba_content (new_bytearray 2)) (ba_pos (new_bytearray 2)) bs"
    using readFixSize_into_bytearray [OF ba_wf_new [of 2, simplified] c example_recv_ok, of True 5 "[1, 2, 3, 4, 5, 6, 7]"]
    by (elim exE conjE) (rule that, assumption+)
  then have "r = 5" "w' = [6, 7]" using e by auto
  then have "bs @ [6, 7] = [1, 2, 3, 4, 5] @ [6, 7 :: byte]" using r(2) by simp
  then have "bs = [1, 2, 3, 4, 5]" by (rule append_same_eq [THEN iffD1])
  moreover have "overwrite (ba_content (new_bytearray 2)) (ba_pos (new_bytearray 2)) bs = bs" by (simp add: new_bytearray_def ba_content_def overwrite_def)
  ultimately show ?thesis using r \<open>r = 5\<close> \<open>w' = [6, 7]\<close> by auto
qed

section \<open>Smaller facts\<close>

lemma close_twice: "sock_close sys s w = (r, s1, w1) \<Longrightarrow> sock_close sys s1 w1 = (True, s1, w1)"
  by (auto simp: sock_close_def Let_def split: if_splits)

lemma setSendTimeout_ignores_value: "setSendTimeout sys p s v w = setSendTimeout sys p s v' w"
  by (simp add: setSendTimeout_def)

lemma udp_marked_connected: "so_connected (fst (CreateUDPSocket sys w))"
  by (simp add: CreateUDPSocket_def create_udp_def split: prod.splits)

lemma bind_local_address:
  assumes "sock_bind sys a s w = (True, s1, w1)"
  shows "getLocalAddress sys s1 w2 = (a, s1)"
proof -
  have p: "so_local s2 = so_local s0" if "prepare sys a s0 w0 = (ok, s2, w2)" for s0 w0 ok s2 w2
    using that by (auto simp: prepare_def newSocket_def Let_def split: if_splits prod.splits)
  have "so_local s1 = Some a"
    using assms unfolding sock_bind_def by (auto split: prod.splits if_splits dest!: p)
  then show ?thesis by simp
qed

end
