(* ===== verification/HttpSession.thy ===== *)
theory HttpSession
  imports HttpRoundtrip TcpServer
begin

text \<open>
  \<^verbatim>\<open>HttpSession\<close> of \<^verbatim>\<open>http/http_session.cc\<close>: the loop that reads a request off a socket stream and parses it, and the
  sending of a response. The loop is a \<open>partial_function\<close>, so that a loop that goes on for ever is \<open>None\<close>; it is shown to
  end for every peer that sends finitely many bytes.
\<close>

definition char_bytes :: "string \<Rightarrow> byte list" where "char_bytes = map (\<lambda>c. of_nat (code c))"
definition byte_chars :: "byte list \<Rightarrow> string" where "byte_chars = map (\<lambda>b. chr (unat b))"

text \<open>
  The loop of \<^verbatim>\<open>recvRequest\<close>. \<open>buf\<close> is the buffer, whose first \<open>offset\<close> bytes are still to be parsed. \<open>None\<close> is a loop
  that goes on for ever, \<open>Aborted\<close> a failed assertion of the parser.
\<close>

datatype recv_result = Received request_parser | Closed | Aborted

partial_function (option) recv_loop :: "'w reader \<Rightarrow> nat \<Rightarrow> request_parser \<Rightarrow> string \<Rightarrow> int \<Rightarrow> 'w \<Rightarrow> (recv_result \<times> 'w) option" where
  "recv_loop rd bsize rp buf offset w =
     (case rd (bsize - nat offset) w of ((len, bs), w1) \<Rightarrow>
        if len \<le> 0 then Some (Closed, w1)
        else case request_execute (take (nat offset) buf @ byte_chars bs) rp of
          None \<Rightarrow> Some (Aborted, w1)
        | Some (nparse, buf1, rp1) \<Rightarrow>
            if rp_error rp1 \<noteq> 0 then Some (Closed, w1)
            else if int32 (len + offset - int nparse) = int32 (int bsize) then Some (Closed, w1)
            else if rk_finished (rp_sink rp1) then Some (Received rp1, w1)
            else recv_loop rd bsize rp1 buf1 (int32 (len + offset - int nparse)) w1)"

declare recv_loop.simps [code]

text \<open>The session is a socket stream; \<open>bsize\<close> is the configured buffer bsize. Every failure closes the stream.\<close>

definition recvRequest :: "'w syscalls \<Rightarrow> nat \<Rightarrow> socket_stream \<Rightarrow> 'w \<Rightarrow> (unit + http_request option \<times> socket_stream \<times> 'w) option" where
  "recvRequest sys bsize ss w = (case recv_loop (ss_read sys ss) bsize new_HttpRequestParser [] 0 w of
     None \<Rightarrow> None
   | Some (Received rp, w1) \<Rightarrow> Some (Inr (Some (request_init (rk_data (rp_sink rp))), ss, w1))
   | Some (Closed, w1) \<Rightarrow> (case ss_close sys ss w1 of (ss1, w2) \<Rightarrow> Some (Inr (None, ss1, w2)))
   | Some (Aborted, w1) \<Rightarrow> Some (Inl ()))"

definition sendResponse :: "'w syscalls \<Rightarrow> socket_stream \<Rightarrow> http_response \<Rightarrow> 'w \<Rightarrow> http_error + int \<times> 'w" where
  "sendResponse sys ss rsp w = bindE (dump_response rsp) (\<lambda>data. Inr (writeFixSize (ss_write sys ss) (char_bytes data) (length data) w))"

section \<open>The parser under the session\<close>

definition parser_ok :: "request_parser \<Rightarrow> bool" where
  "parser_ok rp \<longleftrightarrow> rp_error rp = 0 \<and> hp_errno (rp_parser rp) = HPE_OK \<and> state_inv 0 (rp_parser rp)"

lemma new_parser_ok: "parser_ok new_HttpRequestParser"
  by (simp add: parser_ok_def new_HttpRequestParser_def init_inv) (simp add: http_parser_init_def)

lemma errno_num_0: "errno_num e = 0 \<longleftrightarrow> e = HPE_OK"
  by (cases e) (simp_all add: errno_num_def errno_list_def)

lemma request_execute_total:
  assumes "parser_ok rp" and "data \<noteq> []"
  shows "\<exists>n buf rp1. request_execute data rp = Some (n, buf, rp1) \<and> n \<le> length data
     \<and> (rp_error rp1 = 0 \<longrightarrow> n = length data \<and> parser_ok rp1)"
proof -
  from assms(1) have "hp_errno (rp_parser rp) = HPE_OK" "state_inv 0 (rp_parser rp)" and e: "rp_error rp = 0"
    by (simp_all add: parser_ok_def)
  from execute_returns [OF this(1,2), of request_settings data "rp_sink rp"] obtain n h k where
    r: "http_parser_execute request_settings data (rp_parser rp) (rp_sink rp) = Some (n, h, k)" "n \<le> max 1 (length data)"
    "hp_errno h = HPE_OK \<longrightarrow> state_inv 0 h \<and> (n = length data \<or> hp_upgrade h)" by auto
  have "1 \<le> length data" using assms(2) by (cases data) auto
  then show ?thesis
    using r e errno_num_0 by (auto simp: request_execute_def parser_ok_def Let_def max_def split: if_splits)
qed

text \<open>The parser after pieces of data, one call of \<^verbatim>\<open>execute\<close> for each.\<close>

primrec feed :: "request_parser \<Rightarrow> string list \<Rightarrow> request_parser option" where
  "feed rp [] = Some rp"
| "feed rp (d # ds) = (case request_execute d rp of None \<Rightarrow> None | Some (n, buf, rp1) \<Rightarrow> feed rp1 ds)"

definition recv_ok :: "'w syscalls \<Rightarrow> int \<Rightarrow> ('w \<Rightarrow> byte list) \<Rightarrow> bool" where
  "recv_ok sys fd src \<longleftrightarrow>
     (\<forall>n w len bs w1. sys_recv sys fd n 0 w = ((len, bs), w1) \<longrightarrow> recv_law src n len bs w w1)"

lemma reader_of_recv:
  assumes "recv_ok sys (so_fd s) src" and "so_connected s"
  shows "reader_ok (ss_read sys \<lparr>ss_sock = Some s, ss_owner = ow\<rparr>) src"
  using assms by (simp add: reader_ok_def recv_ok_def ss_read_def ss_isConnected_def sock_recv_def)

lemma char_byte: "char_bytes (byte_chars bs) = bs"
proof (induction bs)
  case (Cons b bs)
  have "unat b < 256" using unsigned_less [of b] by simp
  then show ?case using Cons by (simp add: char_bytes_def byte_chars_def)
qed (simp add: char_bytes_def byte_chars_def)

lemma char_bytes_append: "char_bytes (s @ t) = char_bytes s @ char_bytes t"
  by (simp add: char_bytes_def)

text \<open>How the loop ends, for a reader of a finite stream and a buffer bsize that an \<^verbatim>\<open>int\<close> holds.\<close>

lemma int32_small: "n < 2 ^ 31 \<Longrightarrow> int32 (int n) = int n"
  unfolding int32_def by (simp add: signed_of_int signed_of_nat signed_take_bit_int_eq_self)

lemma recv_loop_ends:
  assumes "reader_ok rd src" and "0 < bsize" and "bsize < 2 ^ 31"
  shows "parser_ok rp \<Longrightarrow> \<not> rk_finished (rp_sink rp) \<Longrightarrow>
    \<exists>r w1 pieces rp1. recv_loop rd bsize rp buf 0 w = Some (r, w1) \<and> feed rp pieces = Some rp1
      \<and> src w = char_bytes (concat pieces) @ src w1
      \<and> (r = Received rp1 \<and> rp_error rp1 = 0 \<and> rk_finished (rp_sink rp1)
         \<or> r = Closed \<and> (rp_error rp1 \<noteq> 0 \<or> \<not> rk_finished (rp_sink rp1)))"
proof (induction "length (src w)" arbitrary: rp buf w rule: less_induct)
  case less
  obtain len bs w1 where rd: "rd bsize w = ((len, bs), w1)" by (metis prod.collapse)
  then have l: "src w = bs @ src w1" "length bs \<le> bsize" "nat len = length bs"
    using assms(1) unfolding reader_ok_def recv_law_def by blast+
  show ?case
  proof (cases "len \<le> 0")
    case True
    then have "bs = []" using l by simp
    then show ?thesis using True rd l less(3)
      by (intro exI [of _ Closed] exI [of _ w1] exI [of _ "[]"] exI [of _ rp]) (subst recv_loop.simps, simp add: char_bytes_def)
  next
    case False
    let ?d = "byte_chars bs"
    have ne: "?d \<noteq> []" and len: "len = int (length ?d)" using False l by (auto simp: byte_chars_def)
    obtain n buf1 rp1 where x: "request_execute ?d rp = Some (n, buf1, rp1)"
      "rp_error rp1 = 0 \<longrightarrow> n = length ?d \<and> parser_ok rp1" using request_execute_total [OF less(2) ne] by blast
    have i: "int32 0 = 0" "int32 (int bsize) = int bsize" using int32_small [of 0] int32_small [OF assms(3)] by simp_all
    have step: "recv_loop rd bsize rp buf 0 w =
        (if rp_error rp1 \<noteq> 0 then Some (Closed, w1)
         else if rk_finished (rp_sink rp1) then Some (Received rp1, w1) else recv_loop rd bsize rp1 buf1 0 w1)"
      using False x len i assms(2) by (subst recv_loop.simps) (simp add: rd)
    have src: "src w = char_bytes (concat [?d]) @ src w1" using l(1) by (simp add: char_byte)
    show ?thesis
    proof (cases "rp_error rp1 \<noteq> 0 \<or> rk_finished (rp_sink rp1)")
      case True
      then show ?thesis using step src x
        by (intro exI [of _ "if rp_error rp1 \<noteq> 0 then Closed else Received rp1"] exI [of _ w1] exI [of _ "[?d]"] exI [of _ rp1]) simp
    next
      case go: False
      have "length (src w1) < length (src w)" using l False by (cases bs) simp_all
      moreover have "parser_ok rp1" "\<not> rk_finished (rp_sink rp1)" using go x by auto
      ultimately obtain r w2 ps rp2 where m: "recv_loop rd bsize rp1 buf1 0 w1 = Some (r, w2)" "feed rp1 ps = Some rp2"
        "src w1 = char_bytes (concat ps) @ src w2"
        "r = Received rp2 \<and> rp_error rp2 = 0 \<and> rk_finished (rp_sink rp2) \<or> r = Closed \<and> (rp_error rp2 \<noteq> 0 \<or> \<not> rk_finished (rp_sink rp2))"
        using less(1) [of w1 rp1 buf1] by blast
      then show ?thesis using step go src x
        by (intro exI [of _ r] exI [of _ w2] exI [of _ "?d # ps"] exI [of _ rp2]) (simp add: char_bytes_append)
    qed
  qed
qed

text \<open>
  Property C9. \<^verbatim>\<open>recvRequest\<close> on a connected socket whose stream of bytes is finite always returns, and the parser never
  aborts under it. Some pieces, whose bytes are what was taken from the stream, were parsed one after the other. A request
  is returned exactly when they completed one without an error: it is what the parser built from them, with its close flag
  set from the connection header, and the stream stays open; otherwise the stream is closed.
\<close>

theorem recvRequest_returns:
  assumes "recv_ok sys (so_fd s) src" and "so_connected s" and "0 < bsize" and "bsize < 2 ^ 31"
  shows "\<exists>r ss1 w1 w2 pieces rp. recvRequest sys bsize \<lparr>ss_sock = Some s, ss_owner = ow\<rparr> w = Some (Inr (r, ss1, w2))
     \<and> feed new_HttpRequestParser pieces = Some rp \<and> src w = char_bytes (concat pieces) @ src w1
     \<and> (if rp_error rp = 0 \<and> rk_finished (rp_sink rp)
        then r = Some (request_init (rk_data (rp_sink rp))) \<and> ss1 = \<lparr>ss_sock = Some s, ss_owner = ow\<rparr> \<and> w2 = w1
        else r = None \<and> (ss1, w2) = ss_close sys \<lparr>ss_sock = Some s, ss_owner = ow\<rparr> w1)"
proof -
  let ?ss = "\<lparr>ss_sock = Some s, ss_owner = ow\<rparr>"
  have "\<not> rk_finished (rp_sink new_HttpRequestParser)" by (simp add: new_HttpRequestParser_def)
  from recv_loop_ends [OF reader_of_recv [OF assms(1,2)] assms(3,4) new_parser_ok this, of ow "[]" w] obtain r w1 pieces rp where
    l: "recv_loop (ss_read sys ?ss) bsize new_HttpRequestParser [] 0 w = Some (r, w1)" "feed new_HttpRequestParser pieces = Some rp"
      "src w = char_bytes (concat pieces) @ src w1"
      "r = Received rp \<and> rp_error rp = 0 \<and> rk_finished (rp_sink rp) \<or> r = Closed \<and> (rp_error rp \<noteq> 0 \<or> \<not> rk_finished (rp_sink rp))"
    by blast
  from l(4) show ?thesis
  proof
    assume "r = Received rp \<and> rp_error rp = 0 \<and> rk_finished (rp_sink rp)"
    then show ?thesis using l
      by (intro exI [of _ "Some (request_init (rk_data (rp_sink rp)))"] exI [of _ ?ss] exI [of _ w1] exI [of _ pieces] exI [of _ rp])
        (simp add: recvRequest_def)
  next
    assume "r = Closed \<and> (rp_error rp \<noteq> 0 \<or> \<not> rk_finished (rp_sink rp))"
    then show ?thesis using l
      by (intro exI [of _ None] exI [of _ "fst (ss_close sys ?ss w1)"] exI [of _ w1] exI [of _ "snd (ss_close sys ?ss w1)"]
            exI [of _ pieces] exI [of _ rp])
        (auto simp: recvRequest_def split: prod.splits)
  qed
qed

text \<open>A connection that holds a request, delivered three bytes at a time.\<close>

lemma example_stream_ok: "recv_ok example_recv fd id"
  by (auto simp: recv_ok_def example_recv_def recv_law_def)

theorem recvRequest_returns_witness:
  "\<exists>r ss1 w1 w2 pieces rp. recvRequest example_recv 4096 \<lparr>ss_sock = Some (CreateTCPSocket\<lparr>so_fd := 3, so_connected := True\<rparr>), ss_owner = True\<rparr>
       (char_bytes ''GET / HTTP/1.1'') = Some (Inr (r, ss1, w2))
     \<and> feed new_HttpRequestParser pieces = Some rp \<and> id (char_bytes ''GET / HTTP/1.1'') = char_bytes (concat pieces) @ id w1
     \<and> (if rp_error rp = 0 \<and> rk_finished (rp_sink rp)
        then r = Some (request_init (rk_data (rp_sink rp))) \<and> ss1 = \<lparr>ss_sock = Some (CreateTCPSocket\<lparr>so_fd := 3, so_connected := True\<rparr>), ss_owner = True\<rparr> \<and> w2 = w1
        else r = None \<and> (ss1, w2) = ss_close example_recv \<lparr>ss_sock = Some (CreateTCPSocket\<lparr>so_fd := 3, so_connected := True\<rparr>), ss_owner = True\<rparr> w1)"
proof -
  have "so_connected (CreateTCPSocket\<lparr>so_fd := 3, so_connected := True\<rparr>)" "(0 :: nat) < 4096" "(4096 :: nat) < 2 ^ 31" by simp_all
  from recvRequest_returns [OF example_stream_ok this] show ?thesis .
qed

lemma byte_char: "byte_chars (char_bytes s) = s"
proof (induction s)
  case (Cons c s)
  have "code c < 256" by (rule nat_of_char_less_256)
  then have "unat (of_nat (code c) :: byte) = code c" by (simp add: unat_of_nat)
  then show ?case using Cons by (simp add: char_bytes_def byte_chars_def)
qed (simp add: char_bytes_def byte_chars_def)

lemma recv_loop_one:
  assumes "rd bsize w = ((int (length msg), char_bytes msg), w1)" and "msg \<noteq> []" and "0 < bsize" and "bsize < 2 ^ 31"
    and "request_execute msg rp = Some (length msg, buf, rp1)" and "rp_error rp1 = 0" and "rk_finished (rp_sink rp1)"
  shows "recv_loop rd bsize rp [] 0 w = Some (Received rp1, w1)"
proof -
  have "int32 0 \<noteq> int32 (int bsize)" using int32_small [of 0] int32_small [OF assms(4)] assms(3) by simp
  then show ?thesis using assms by (subst recv_loop.simps) (simp add: byte_char)
qed

text \<open>
  Property C10. From one end to the other, for the printable requests (no CONNECT, no websocket, a URL below 65536 characters, plain
  header names, at most 80 KB before the body): a client prints a request with \<^verbatim>\<open>HttpRequest::dump\<close> and its text arrives with one
  receive call that the buffer holds. Then \<^verbatim>\<open>recvRequest\<close> returns a request with the same method, version, path, query,
  fragment, body, close flag and headers, leaves the stream open and has read the text and no more.
\<close>

theorem request_served:
  assumes "printable r" and "dump_request r = Inr msg" and "length msg \<le> max_header_size + length (rq_body r)"
    and "so_connected s" and "0 < bsize" and "bsize < 2 ^ 31"
    and "sys_recv sys (so_fd s) bsize 0 w = ((int (length msg), char_bytes msg), w1)"
  shows "\<exists>q. recvRequest sys bsize \<lparr>ss_sock = Some s, ss_owner = ow\<rparr> w = Some (Inr (Some q, \<lparr>ss_sock = Some s, ss_owner = ow\<rparr>, w1)) \<and> parsed_as r q"
proof -
  obtain rp where rp: "request_execute msg new_HttpRequestParser = Some (length msg, msg, rp)" "rp_error rp = 0" "rk_finished (rp_sink rp)"
      "parsed_as r (request_init (rk_data (rp_sink rp)))"
    using parsed_request [OF assms(1-3)] by blast
  have ne: "msg \<noteq> []" using printed_text [OF assms(1)] assms(2) by auto
  have "ss_read sys \<lparr>ss_sock = Some s, ss_owner = ow\<rparr> bsize w = ((int (length msg), char_bytes msg), w1)"
    using assms(4,7) by (simp add: ss_read_def ss_isConnected_def sock_recv_def)
  from recv_loop_one [where rd = "ss_read sys \<lparr>ss_sock = Some s, ss_owner = ow\<rparr>", OF this ne assms(5,6) rp(1-3)] show ?thesis using rp(4) by (simp add: recvRequest_def)
qed

text \<open>A kernel that delivers all that is there.\<close>

definition whole_recv :: "byte list syscalls" where
  "whole_recv = example_recv\<lparr>sys_recv := \<lambda>fd n q w. ((int (length (take n w)), take n w), drop n w)\<rparr>"

theorem request_served_witness:
  "\<exists>q w. recvRequest whole_recv 4096 \<lparr>ss_sock = Some (CreateTCPSocket\<lparr>so_fd := 3, so_connected := True\<rparr>), ss_owner = True\<rparr> w
      = Some (Inr (Some q, \<lparr>ss_sock = Some (CreateTCPSocket\<lparr>so_fd := 3, so_connected := True\<rparr>), ss_owner = True\<rparr>, []))
    \<and> rq_path q = ''/a'' \<and> rq_body q = ''hi''"
proof -
  let ?s = "CreateTCPSocket\<lparr>so_fd := 3, so_connected := True\<rparr>"
  obtain msg where m: "dump_request sample_request = Inr msg" using printed_text [OF sample_printable] by blast
  have "case dump_request sample_request of Inr t \<Rightarrow> length t \<le> 1000 | Inl _ \<Rightarrow> False" by code_simp
  then have l: "length msg \<le> 1000" using m by simp
  then have b: "length msg \<le> max_header_size + length (rq_body sample_request)" by (simp add: max_header_size_def)
  have r: "sys_recv whole_recv (so_fd ?s) 4096 0 (char_bytes msg) = ((int (length msg), char_bytes msg), [])"
    using l by (simp add: whole_recv_def char_bytes_def)
  have "so_connected ?s" "(0 :: nat) < 4096" "(4096 :: nat) < 2 ^ 31" by simp_all
  from request_served [OF sample_printable m b this r, of True] obtain q where
    q: "recvRequest whole_recv 4096 \<lparr>ss_sock = Some ?s, ss_owner = True\<rparr> (char_bytes msg) = Some (Inr (Some q, \<lparr>ss_sock = Some ?s, ss_owner = True\<rparr>, []))"
    "parsed_as sample_request q" by blast
  have "rq_path q = ''/a''" "rq_body q = ''hi''" using q(2) by (simp_all add: parsed_as_def) (simp_all add: sample_request_def)
  then show ?thesis using q(1) by blast
qed

lemma sendResponse_sends:
  assumes "writer_ok (ss_write sys ss) dst" and "dump_response rsp = Inr msg" and "sendResponse sys ss rsp w = Inr (n, w1)"
  shows "\<exists>k. dst w1 = dst w @ take k (char_bytes msg) \<and> (if k = length msg then n = int32 (int (length msg)) else n \<le> 0 \<and> k < length msg)"
proof -
  have "writeFixSize (ss_write sys ss) (char_bytes msg) (length msg) w = (n, w1)" using assms(2,3) by (simp add: sendResponse_def)
  moreover have "length msg \<le> length (char_bytes msg)" by (simp add: char_bytes_def)
  ultimately show ?thesis using writeFixSize_spec [OF assms(1)] by blast
qed

end
