(* ===== verification/IOManagerLife.thy ===== *)
theory IOManagerLife
  imports IOManager Text
begin

text \<open>
  The life of an I/O manager and its waiting: the constructor with its system calls, the destructor, the loop around epoll_wait, and the
  printing of epoll events, src/hiper/base/iomanager.cc. The answers of the system are arguments. The lemmas show what a constructed
  manager has and that an interrupted wait starts again with its full time.
\<close>

section \<open>Construction and destruction\<close>

text \<open>The descriptors of an I/O manager: of epoll, and the two ends of the pipe that wakes it.\<close>

record io_handles =
  ih_epoll :: int
  ih_read_end :: int
  ih_write_end :: int

text \<open>
  The answers of the system to the calls of the constructor: \<^verbatim>\<open>epoll_create\<close>, \<^verbatim>\<open>pipe\<close> with its two
  descriptors, \<^verbatim>\<open>fcntl\<close>, \<^verbatim>\<open>epoll_ctl\<close>, and the ids of the threads that \<^verbatim>\<open>start\<close> makes.
\<close>

record io_answers =
  an_epoll :: int
  an_pipe :: "int \<times> int \<times> int"
  an_fcntl :: int
  an_ctl :: int
  an_threads :: "int list"

definition IOManager_new :: "io_answers \<Rightarrow> nat \<Rightarrow> 'k \<Rightarrow> (nat \<Rightarrow> scheduler) \<Rightarrow> (io_handles \<times> 'k iomanager) io_result" where
  "IOManager_new an self k scheds =
     bindE (io_assert (0 < an_epoll an) ''epoll_fd_ > 0'') (\<lambda>_.
     case an_pipe an of (ret, a, b) \<Rightarrow>
     bindE (io_assert (ret = 0) ''!ret'') (\<lambda>_.
     bindE (io_assert (an_fcntl an = 0) ''!ret'') (\<lambda>_.
     bindE (io_assert (an_ctl an = 0) ''!ret'') (\<lambda>_.
     case start (an_threads an) (scheds self) of
       Inl e \<Rightarrow> Inl (Io_assert ''threads_.empty()'')
     | Inr s \<Rightarrow> Inr (\<lparr>ih_epoll = an_epoll an, ih_read_end = a, ih_write_end = b\<rparr>, new_iomanager self k (scheds(self := s)))))))"

text \<open>The descriptors that the destructor closes, in order, and the contexts that it deletes, by index.\<close>

definition IOManager_destroy :: "bool \<Rightarrow> fiber_state \<Rightarrow> io_handles \<Rightarrow> 'k iomanager \<Rightarrow> (int list \<times> nat list \<times> scheduler) fiber_result" where
  "IOManager_destroy is_current st h w =
     bindE (stop is_current st (io_scheds w (io_self w))) (\<lambda>(_, s).
       Inr ([ih_epoll h, ih_read_end h, ih_write_end h],
            filter (\<lambda>i. io_contexts w ! i \<noteq> None) [0..<length (io_contexts w)], s))"

text \<open>\<^verbatim>\<open>GetThis\<close>: a \<^verbatim>\<open>dynamic_cast\<close> of the current scheduler; \<open>is_io\<close> says which schedulers are I/O managers.\<close>

definition IOManager_GetThis :: "(nat \<Rightarrow> bool) \<Rightarrow> nat option \<Rightarrow> nat option" where
  "IOManager_GetThis is_io current = (case current of None \<Rightarrow> None | Some k \<Rightarrow> if is_io k then Some k else None)"

section \<open>Waiting\<close>

text \<open>
  The loop around \<^verbatim>\<open>epoll_wait\<close> on the answers it gets, each a result and \<^verbatim>\<open>errno\<close>: the arguments it passes
  and the result that ends it; \<open>None\<close> while it still waits. The clamped time is what the next round starts from.
\<close>

definition clamp_timeout :: "u64 \<Rightarrow> u64" where
  "clamp_timeout next_timeout =
     (if next_timeout \<noteq> - 1 then if sint (ucast next_timeout :: u32) > 5000 then 5000 else next_timeout else 5000)"

fun wait_loop :: "u64 \<Rightarrow> (int \<times> int) list \<Rightarrow> int list \<times> int option" where
  "wait_loop next_timeout [] = ([], None)"
| "wait_loop next_timeout ((ret, err) # as) =
     (let t = clamp_timeout next_timeout; arg = sint (ucast t :: u32)
      in if ret < 0 \<and> err = 4 then (case wait_loop t as of (args, r) \<Rightarrow> (arg # args, r)) else ([arg], Some ret))"

lemma clamp_poll: "sint (ucast (clamp_timeout v) :: u32) = poll_timeout v"
  by (simp add: clamp_timeout_def poll_timeout_def MAX_TIMEOUT_def Let_def)

lemma clamp_again: "clamp_timeout (clamp_timeout v) = clamp_timeout v"
  by (auto simp: clamp_timeout_def)

text \<open>
  However often the wait is interrupted, it starts again with the same time and not with what is left of it; it ends with the first
  answer that is no interruption.
\<close>

lemma wait_loop_restarts:
  assumes "\<forall>(ret, err)\<in>set is. ret < 0 \<and> err = 4" and "\<not> (ret < 0 \<and> err = 4)"
  shows "wait_loop v (is @ (ret, err) # as) = (replicate (length is + 1) (poll_timeout v), Some ret)"
  using assms
proof (induction "is" arbitrary: v)
  case (Cons i "is")
  obtain r e where i: "i = (r, e)" by force
  have "poll_timeout (clamp_timeout v) = poll_timeout v" using clamp_poll [of "clamp_timeout v"] clamp_poll [of v] clamp_again [of v] by simp
  then show ?case using Cons i by (auto simp: Let_def clamp_poll)
qed (auto simp: Let_def clamp_poll)

section \<open>Printing\<close>

definition epoll_names :: "(u32 \<times> string) list" where
  "epoll_names = [(0x001, ''EPOLLIN''), (0x002, ''EPOLLPRI''), (0x004, ''EPOLLOUT''), (0x040, ''EPOLLRDNORM''), (0x080, ''EPOLLRDBAND''),
     (0x100, ''EPOLLWRNORM''), (0x200, ''EPOLLWRBAND''), (0x400, ''EPOLLMSG''), (0x008, ''EPOLLERR''), (0x010, ''EPOLLHUP''),
     (0x2000, ''EPOLLRDHUP''), (0x40000000, ''EPOLLONESHOT''), (0x80000000, ''EPOLLET'')]"

fun show_flags :: "(u32 \<times> string) list \<Rightarrow> u32 \<Rightarrow> bool \<Rightarrow> string" where
  "show_flags [] events first = []"
| "show_flags ((e, n) # es) events first =
     (if events AND e \<noteq> 0 then (if \<not> first then ''|'' else []) @ n @ show_flags es events False else show_flags es events first)"

definition show_epoll_events :: "u32 \<Rightarrow> string" where
  "show_epoll_events events = (if events = 0 then ''0'' else show_flags epoll_names events True)"

definition show_ctl_op :: "int \<Rightarrow> string" where
  "show_ctl_op op = (if op = 1 then ''EPOLL_CTL_ADD'' else if op = 3 then ''EPOLL_CTL_MOD'' else if op = 2 then ''EPOLL_CTL_DEL'' else show_int op)"

lemma new_iomanager_descriptors:
  assumes "IOManager_new an self k scheds = Inr (h, w)"
  shows "0 < ih_epoll h \<and> fst (an_pipe an) = 0 \<and> length (io_contexts w) = 32 \<and> io_pending w = 0
    \<and> snd (snd (an_pipe an)) = ih_write_end h"
  using assms by (auto simp: IOManager_new_def io_assert_def new_iomanager_contexts bindE_Inr_iff split: prod.splits sum.splits if_splits)
    (simp_all add: new_iomanager_def contextResize_def Let_def)

end
