(* ===== verification/Locks.thy ===== *)
theory Locks
  imports Hiper_Prelude
begin

text \<open>
  The locks of src/hiper/base/mutex.h and mutex.cc: the guards ScopeLock, RScopeLock and WScopeLock as the calls that they
  make on their mutex, CASLock and its atomic flag, and Semaphore. The pthread mutexes and locks enter through their contract,
  the locale exclusive_lock, which is interpreted on CASLock. A step relation interleaves the calls of any number of threads
  on one mutex. The lemmas show which guards release exactly what they took (locale tracking_guard), that guarded blocks
  exclude each other and never all wait, and what the explicit unlock of a ScopeLock does to that.
\<close>

text \<open>The calls that a guard makes on its mutex.\<close>

datatype mutex_op = Lock_op | Rdlock_op | Wrlock_op | Unlock_op

record scope_guard = is_lock :: bool

definition ScopeLock_new :: "mutex_op list \<times> scope_guard" where
  "ScopeLock_new = ([Lock_op], \<lparr>is_lock = True\<rparr>)"

definition ScopeLock_unlock :: "scope_guard \<Rightarrow> mutex_op list \<times> scope_guard" where
  "ScopeLock_unlock g = (if is_lock g then ([Unlock_op], g) else ([], g))"

definition ScopeLock_lock :: "scope_guard \<Rightarrow> mutex_op list \<times> scope_guard" where
  "ScopeLock_lock g = (if \<not> is_lock g then ([Lock_op], g) else ([], g))"

definition ScopeLock_destroy :: "scope_guard \<Rightarrow> mutex_op list \<times> scope_guard" where
  "ScopeLock_destroy g = (if is_lock g then ([Unlock_op], g\<lparr>is_lock := False\<rparr>) else ([], g))"

definition RScopeLock_new :: "mutex_op list \<times> scope_guard" where
  "RScopeLock_new = ([Rdlock_op], \<lparr>is_lock = True\<rparr>)"

definition RScopeLock_destroy :: "scope_guard \<Rightarrow> mutex_op list \<times> scope_guard" where
  "RScopeLock_destroy g = (if is_lock g then ([Unlock_op], g) else ([], g))"

definition RScopeLock_lock :: "scope_guard \<Rightarrow> mutex_op list \<times> scope_guard" where
  "RScopeLock_lock g = (if \<not> is_lock g then ([Rdlock_op], g\<lparr>is_lock := True\<rparr>) else ([], g))"

definition RScopeLock_unlock :: "scope_guard \<Rightarrow> mutex_op list \<times> scope_guard" where
  "RScopeLock_unlock g = (if is_lock g then ([Unlock_op], g\<lparr>is_lock := False\<rparr>) else ([], g))"

definition WScopeLock_new :: "mutex_op list \<times> scope_guard" where
  "WScopeLock_new = ([Wrlock_op], \<lparr>is_lock = True\<rparr>)"

definition WScopeLock_destroy :: "scope_guard \<Rightarrow> mutex_op list \<times> scope_guard" where
  "WScopeLock_destroy g = (if is_lock g then ([Unlock_op], g) else ([], g))"

definition WScopeLock_lock :: "scope_guard \<Rightarrow> mutex_op list \<times> scope_guard" where
  "WScopeLock_lock g = (if \<not> is_lock g then ([Wrlock_op], g\<lparr>is_lock := True\<rparr>) else ([], g))"

definition WScopeLock_unlock :: "scope_guard \<Rightarrow> mutex_op list \<times> scope_guard" where
  "WScopeLock_unlock g = (if is_lock g then ([Unlock_op], g\<lparr>is_lock := False\<rparr>) else ([], g))"

text \<open>A guard class, the explicit uses of a guard in its block, and the calls of the whole block from the constructor to the destructor.\<close>

datatype guard_use = Use_lock | Use_unlock

record guard_class =
  gc_new :: "mutex_op list \<times> scope_guard"
  gc_use :: "guard_use \<Rightarrow> scope_guard \<Rightarrow> mutex_op list \<times> scope_guard"
  gc_destroy :: "scope_guard \<Rightarrow> mutex_op list \<times> scope_guard"

definition ScopeLock :: guard_class where
  "ScopeLock = \<lparr>gc_new = ScopeLock_new, gc_use = (\<lambda>u. case u of Use_lock \<Rightarrow> ScopeLock_lock | Use_unlock \<Rightarrow> ScopeLock_unlock),
     gc_destroy = ScopeLock_destroy\<rparr>"

definition RScopeLock :: guard_class where
  "RScopeLock = \<lparr>gc_new = RScopeLock_new, gc_use = (\<lambda>u. case u of Use_lock \<Rightarrow> RScopeLock_lock | Use_unlock \<Rightarrow> RScopeLock_unlock),
     gc_destroy = RScopeLock_destroy\<rparr>"

definition WScopeLock :: guard_class where
  "WScopeLock = \<lparr>gc_new = WScopeLock_new, gc_use = (\<lambda>u. case u of Use_lock \<Rightarrow> WScopeLock_lock | Use_unlock \<Rightarrow> WScopeLock_unlock),
     gc_destroy = WScopeLock_destroy\<rparr>"

primrec guard_uses :: "guard_class \<Rightarrow> guard_use list \<Rightarrow> scope_guard \<Rightarrow> mutex_op list \<times> scope_guard" where
  "guard_uses c [] g = ([], g)"
| "guard_uses c (u # us) g = (case gc_use c u g of (os, g1) \<Rightarrow> case guard_uses c us g1 of (os', g2) \<Rightarrow> (os @ os', g2))"

definition guard_scope :: "guard_class \<Rightarrow> guard_use list \<Rightarrow> mutex_op list" where
  "guard_scope c us = (case gc_new c of (os, g) \<Rightarrow> case guard_uses c us g of (os', g1) \<Rightarrow> os @ os' @ fst (gc_destroy c g1))"

text \<open>Ownership along a sequence of calls of one thread: \<open>None\<close> is a lock of a mutex it holds or an unlock of a mutex it does not hold.\<close>

fun owns_after :: "mutex_op list \<Rightarrow> bool \<Rightarrow> bool option" where
  "owns_after [] h = Some h"
| "owns_after (Unlock_op # os) h = (if h then owns_after os False else None)"
| "owns_after (_ # os) h = (if h then None else owns_after os True)"

lemma owns_after_append: "owns_after (os @ os') h = Option.bind (owns_after os h) (owns_after os')"
  by (induction os h rule: owns_after.induct) auto

locale tracking_guard =
  fixes c :: guard_class
  assumes new_tracks: "owns_after (fst (gc_new c)) False = Some (is_lock (snd (gc_new c)))"
    and use_tracks: "owns_after (fst (gc_use c u g)) (is_lock g) = Some (is_lock (snd (gc_use c u g)))"
    and destroy_releases: "owns_after (fst (gc_destroy c g)) (is_lock g) = Some False"
begin

lemma uses_track: "owns_after (fst (guard_uses c us g)) (is_lock g) = Some (is_lock (snd (guard_uses c us g)))"
proof (induction us arbitrary: g)
  case (Cons u us)
  show ?case using use_tracks [of u g] Cons [of "snd (gc_use c u g)"] by (simp add: owns_after_append split_beta)
qed simp

lemma scope_balanced: "owns_after (guard_scope c us) False = Some False"
  using new_tracks uses_track [of us "snd (gc_new c)"] destroy_releases [of "snd (guard_uses c us (snd (gc_new c)))"]
  by (simp add: guard_scope_def owns_after_append split_beta)

end

lemmas guard_defs = ScopeLock_def ScopeLock_new_def ScopeLock_unlock_def ScopeLock_lock_def ScopeLock_destroy_def
  RScopeLock_def RScopeLock_new_def RScopeLock_unlock_def RScopeLock_lock_def RScopeLock_destroy_def
  WScopeLock_def WScopeLock_new_def WScopeLock_unlock_def WScopeLock_lock_def WScopeLock_destroy_def

interpretation rlock: tracking_guard RScopeLock
  by unfold_locales (simp_all add: guard_defs split: guard_use.split)

interpretation wlock: tracking_guard WScopeLock
  by unfold_locales (simp_all add: guard_defs split: guard_use.split)

text \<open>The flag of a \<open>ScopeLock\<close> stays set until the destructor, whatever its block does.\<close>

lemma scope_lock_uses:
  "guard_uses ScopeLock us \<lparr>is_lock = True\<rparr> = (replicate (count_list us Use_unlock) Unlock_op, \<lparr>is_lock = True\<rparr>)"
proof (induction us)
  case (Cons u us)
  then show ?case by (cases u) (simp_all add: guard_defs)
qed simp

lemma scope_lock_scope: "guard_scope ScopeLock us = Lock_op # replicate (count_list us Use_unlock) Unlock_op @ [Unlock_op]"
  using scope_lock_uses [of us] by (simp add: guard_scope_def ScopeLock_def ScopeLock_new_def ScopeLock_destroy_def)

lemma unlocks_twice: "owns_after (replicate n Unlock_op @ [Unlock_op]) True = (if n = 0 then Some False else None)"
  by (cases n; cases "n - 1") (auto)

text \<open>Property Cx. The guards of the read-write lock release exactly what they took, whatever explicit lock and unlock calls
  their block makes. A \<open>ScopeLock\<close> does so exactly when its block never calls \<open>unlock\<close>: its flag is not reset there,
  so the destructor unlocks the mutex a second time.\<close>

theorem guards_balanced:
  "owns_after (guard_scope RScopeLock us) False = Some False
   \<and> owns_after (guard_scope WScopeLock us) False = Some False
   \<and> owns_after (guard_scope ScopeLock us) False = (if Use_unlock \<in> set us then None else Some False)"
  using rlock.scope_balanced wlock.scope_balanced
  by (auto simp: scope_lock_scope unlocks_twice count_list_0_iff)

text \<open>
  The calls of \<^verbatim>\<open>CASLock\<close> on its flag: one turn of the loop in \<^verbatim>\<open>lock\<close>, which returns whether the loop
  ends, and \<^verbatim>\<open>unlock\<close>.
\<close>

definition CASLock_try :: "bool \<Rightarrow> bool \<times> bool" where
  "CASLock_try flag = (\<not> flag, True)"

definition CASLock_unlock :: "bool \<Rightarrow> bool" where
  "CASLock_unlock flag = False"

text \<open>
  Threads that share one mutex. Each thread has the calls it has still to make; a thread is inside from a lock that
  succeeded to its next unlock. A step is one attempt to lock or one unlock. The mutex is given by its attempt to lock, which
  says whether it succeeded, and its unlock.
\<close>

record 'l lock_world =
  lw_lock :: 'l
  lw_todo :: "nat \<Rightarrow> mutex_op list"
  lw_inside :: "nat \<Rightarrow> bool"

inductive lock_step :: "('l \<Rightarrow> bool \<times> 'l) \<Rightarrow> ('l \<Rightarrow> 'l) \<Rightarrow> nat \<Rightarrow> 'l lock_world \<Rightarrow> 'l lock_world \<Rightarrow> bool"
  for attempt release i where
  acquire: "lw_todo w i = Lock_op # os \<Longrightarrow> attempt (lw_lock w) = (True, l) \<Longrightarrow>
    lock_step attempt release i w (w\<lparr>lw_lock := l, lw_todo := (lw_todo w)(i := os), lw_inside := (lw_inside w)(i := True)\<rparr>)"
| retry: "lw_todo w i = Lock_op # os \<Longrightarrow> attempt (lw_lock w) = (False, l) \<Longrightarrow> lock_step attempt release i w (w\<lparr>lw_lock := l\<rparr>)"
| release: "lw_todo w i = Unlock_op # os \<Longrightarrow>
    lock_step attempt release i w (w\<lparr>lw_lock := release (lw_lock w), lw_todo := (lw_todo w)(i := os), lw_inside := (lw_inside w)(i := False)\<rparr>)"

definition lock_reach :: "('l \<Rightarrow> bool \<times> 'l) \<Rightarrow> ('l \<Rightarrow> 'l) \<Rightarrow> 'l lock_world \<Rightarrow> 'l lock_world \<Rightarrow> bool" where
  "lock_reach attempt release = (\<lambda>w w'. \<exists>i. lock_step attempt release i w w')\<^sup>*\<^sup>*"

definition lock_start :: "'l \<Rightarrow> (nat \<Rightarrow> mutex_op list) \<Rightarrow> 'l lock_world" where
  "lock_start l todo = \<lparr>lw_lock = l, lw_todo = todo, lw_inside = (\<lambda>_. False)\<rparr>"

text \<open>The contract of a mutex: an attempt succeeds exactly when it is free and leaves it taken, and an unlock frees it.\<close>

locale exclusive_lock =
  fixes free :: "'l \<Rightarrow> bool" and attempt :: "'l \<Rightarrow> bool \<times> 'l" and release :: "'l \<Rightarrow> 'l"
  assumes try_free: "fst (attempt l) \<longleftrightarrow> free l"
    and try_takes: "\<not> free (snd (attempt l))"
    and release_frees: "free (release l)"
begin

definition lock_inv :: "'l lock_world \<Rightarrow> bool" where
  "lock_inv w \<longleftrightarrow> (\<forall>i. owns_after (lw_todo w i) (lw_inside w i) = Some False)
     \<and> (\<forall>i j. lw_inside w i \<longrightarrow> lw_inside w j \<longrightarrow> i = j) \<and> (free (lw_lock w) \<longleftrightarrow> (\<forall>i. \<not> lw_inside w i))"

lemma lock_invD:
  assumes "lock_inv w"
  shows "owns_after (lw_todo w i) (lw_inside w i) = Some False" "lw_inside w i \<Longrightarrow> lw_inside w j \<Longrightarrow> i = j"
    "free (lw_lock w) \<longleftrightarrow> (\<forall>i. \<not> lw_inside w i)"
  using assms unfolding lock_inv_def by blast+

lemma owner_only:
  "owns_after (Lock_op # os) h = Some False \<Longrightarrow> \<not> h \<and> owns_after os True = Some False"
  "owns_after (Unlock_op # os) h = Some False \<Longrightarrow> h \<and> owns_after os False = Some False"
  "owns_after (Rdlock_op # os) h = Some False \<Longrightarrow> \<not> h" "owns_after (Wrlock_op # os) h = Some False \<Longrightarrow> \<not> h"
  by (auto split: if_splits)

lemma lock_step_inv:
  assumes "lock_step attempt release k w w'" and "lock_inv w"
  shows "lock_inv w'"
  using assms(1)
proof cases
  case (acquire os l)
  have "free (lw_lock w)" using acquire(3) try_free [of "lw_lock w"] by simp
  then have none: "\<not> lw_inside w j" for j using assms(2) by (simp add: lock_inv_def)
  have own: "owns_after os True = Some False" using lock_invD(1) [OF assms(2), of k] owner_only(1) [of os "lw_inside w k"] acquire(2) by simp
  have "\<not> free l" using acquire(3) try_takes [of "lw_lock w"] by simp
  then show ?thesis using lock_invD [OF assms(2)] none own unfolding acquire(1) lock_inv_def by simp
next
  case (retry os l)
  have "\<not> free (lw_lock w)" "\<not> free l" using retry(3) try_free [of "lw_lock w"] try_takes [of "lw_lock w"] by simp_all
  then show ?thesis using lock_invD [OF assms(2)] unfolding retry(1) lock_inv_def by simp
next
  case (release os)
  have own: "lw_inside w k \<and> owns_after os False = Some False" using lock_invD(1) [OF assms(2), of k] owner_only(2) [of os "lw_inside w k"] release(2)
    by simp
  then have "\<not> lw_inside w j" if "j \<noteq> k" for j using that lock_invD(2) [OF assms(2), of j k] by blast
  moreover have "owns_after (lw_todo w j) False = Some False" if "j \<noteq> k" for j
    using that calculation lock_invD(1) [OF assms(2), of j] by simp
  ultimately show ?thesis using own release_frees [of "lw_lock w"] unfolding release(1) lock_inv_def by auto
qed

lemma lock_reach_inv:
  assumes "lock_reach attempt release w w'" and "lock_inv w"
  shows "lock_inv w'"
  using assms(1) unfolding lock_reach_def by induction (use assms(2) lock_step_inv in blast)+

lemma lock_start_inv:
  assumes "free l" and "\<And>i. owns_after (todo i) False = Some False"
  shows "lock_inv (lock_start l todo)"
  using assms by (simp add: lock_inv_def lock_start_def)

text \<open>Some thread can always go on: the one that is inside, or any thread that waits when none is.\<close>

lemma lock_inv_progress:
  assumes "lock_inv w" and "lw_todo w i \<noteq> []" and "\<And>j. set (lw_todo w j) \<subseteq> {Lock_op, Unlock_op}"
  shows "\<exists>k w'. lock_step attempt release k w w' \<and> length (lw_todo w' k) < length (lw_todo w k)"
proof (cases "\<exists>k. lw_inside w k")
  case True
  then obtain k where k: "lw_inside w k" ..
  then have "owns_after (lw_todo w k) True = Some False" using assms(1) unfolding lock_inv_def by metis
  then obtain os where "lw_todo w k = Unlock_op # os" using owner_only
    by (cases "lw_todo w k"; cases "hd (lw_todo w k)") auto
  then have "lock_step attempt release k w (w\<lparr>lw_lock := release (lw_lock w), lw_todo := (lw_todo w)(k := os), lw_inside := (lw_inside w)(k := False)\<rparr>)"
    by (rule lock_step.release)
  then show ?thesis using \<open>lw_todo w k = Unlock_op # os\<close> by (intro exI) (auto intro: exI)
next
  case False
  then have free: "free (lw_lock w)" and own: "owns_after (lw_todo w i) False = Some False"
    using assms(1) unfolding lock_inv_def by auto
  obtain o1 os where t: "lw_todo w i = o1 # os" using assms(2) by (cases "lw_todo w i") auto
  then have "o1 = Lock_op" using own assms(3) [of i] by auto
  moreover obtain l where "attempt (lw_lock w) = (True, l)" using free try_free [of "lw_lock w"] by (cases "attempt (lw_lock w)") auto
  ultimately show ?thesis using t lock_step.acquire [of w i os attempt l release] by (intro exI) (auto intro: exI)
qed

end

interpretation cas: exclusive_lock Not CASLock_try CASLock_unlock
  by unfold_locales (simp_all add: CASLock_try_def CASLock_unlock_def)

text \<open>A thread that goes through blocks guarded by a \<open>ScopeLock\<close>, each with its explicit uses of the guard.\<close>

definition scope_program :: "guard_use list list \<Rightarrow> mutex_op list" where
  "scope_program bs = concat (map (guard_scope ScopeLock) bs)"

lemma scope_program_balanced:
  assumes "\<forall>us\<in>set bs. Use_unlock \<notin> set us"
  shows "owns_after (scope_program bs) False = Some False"
  using assms by (induction bs) (auto simp: scope_program_def owns_after_append scope_lock_scope unlocks_twice count_list_0_iff)

lemma scope_program_ops: "set (scope_program bs) \<subseteq> {Lock_op, Unlock_op}"
  by (induction bs) (auto simp: scope_program_def scope_lock_scope)

lemma lock_step_todo: "lock_step attempt release k w w' \<Longrightarrow> set (lw_todo w' j) \<subseteq> set (lw_todo w j)"
  by (induction rule: lock_step.induct) auto

lemma lock_reach_todo:
  assumes "lock_reach attempt release w w'"
  shows "set (lw_todo w' j) \<subseteq> set (lw_todo w j)"
  using assms unfolding lock_reach_def
proof induction
  case (step v u)
  then show ?case using lock_step_todo [of attempt release _ v u j] by blast
qed simp

text \<open>Property C17. Threads whose blocks are guarded by a \<open>ScopeLock\<close> with no explicit \<open>unlock\<close>, over a mutex that
  keeps its contract, are inside their blocks one at a time in every interleaving, and as long as a thread has calls to make,
  some thread can make one that is not a failed attempt.\<close>

theorem scope_locks_exclude:
  assumes "exclusive_lock free attempt release" and "free l"
    and "\<forall>i. \<forall>us\<in>set (prog i). Use_unlock \<notin> set us"
    and "lock_reach attempt release (lock_start l (\<lambda>i. scope_program (prog i))) w"
  shows "(lw_inside w i \<and> lw_inside w j \<longrightarrow> i = j)
    \<and> (lw_todo w i \<noteq> [] \<longrightarrow> (\<exists>k w'. lock_step attempt release k w w' \<and> length (lw_todo w' k) < length (lw_todo w k)))"
proof -
  have inv: "exclusive_lock.lock_inv free w"
  proof (rule exclusive_lock.lock_reach_inv [OF assms(1,4)], rule exclusive_lock.lock_start_inv [OF assms(1,2)])
    show "owns_after (scope_program (prog i)) False = Some False" for i using assms(3) by (intro scope_program_balanced) blast
  qed
  have ops: "set (lw_todo w j) \<subseteq> {Lock_op, Unlock_op}" for j
    using lock_reach_todo [OF assms(4), of j] scope_program_ops [of "prog j"] by (auto simp: lock_start_def)
  show ?thesis
    by (intro conjI impI, erule conjE, rule exclusive_lock.lock_invD(2) [OF assms(1) inv], assumption+,
      rule exclusive_lock.lock_inv_progress [OF assms(1) inv _ ops], assumption)
qed

lemma reach_here: "lock_reach attempt release w w"
  by (simp add: lock_reach_def)

lemma reach_step: "lock_reach attempt release w v \<Longrightarrow> lock_step attempt release k v u \<Longrightarrow> lock_reach attempt release w u"
  by (auto simp: lock_reach_def intro: rtranclp.rtrancl_into_rtrancl)

theorem scope_locks_exclude_witness:
  "\<exists>w. lock_reach CASLock_try CASLock_unlock (lock_start False (\<lambda>i. scope_program [[]])) w \<and> lw_inside w (0::nat) \<and> \<not> lw_inside w 1
     \<and> (\<exists>k w'. lock_step CASLock_try CASLock_unlock k w w' \<and> length (lw_todo w' k) < length (lw_todo w k))"
proof -
  let ?p = "\<lambda>i::nat. [[]] :: guard_use list list"
  let ?s = "lock_start False (\<lambda>i. scope_program (?p i))"
  let ?w = "?s\<lparr>lw_lock := True, lw_todo := (lw_todo ?s)(0 := [Unlock_op]), lw_inside := (lw_inside ?s)(0 := True)\<rparr>"
  have p: "scope_program [[]] = [Lock_op, Unlock_op]" by (simp add: scope_program_def scope_lock_scope)
  have r: "lock_reach CASLock_try CASLock_unlock ?s ?w"
    by (rule reach_step [OF reach_here lock_step.acquire]) (simp_all add: lock_start_def p CASLock_try_def)
  note c = scope_locks_exclude [OF cas.exclusive_lock_axioms _ _ r]
  have "lw_inside ?w 0 \<and> lw_todo ?w 0 \<noteq> []" by (simp add: lock_start_def)
  moreover have "\<not> lw_inside ?w 1" using c [of 0 1] by simp
  ultimately show ?thesis using c [of 0 0] r by (intro exI [of _ ?w]) simp
qed

text \<open>
  Thread 0 is in \<^verbatim>\<open>Scheduler::start\<close>, which calls \<open>unlock\<close> on the \<open>ScopeLock\<close> of its mutex before the block
  ends; the others are workers in a plain block on the same mutex.
\<close>

definition start_program :: "nat \<Rightarrow> guard_use list list" where
  "start_program i = (if i = 0 then [[Use_unlock]] else [[]])"

text \<open>
  Property C20. While \<^verbatim>\<open>Scheduler::start\<close> leaves its block, two workers can be inside theirs at the same time, over any
  mutex whose unlock frees it: the first enters after the explicit \<open>unlock\<close>, the destructor then frees the mutex under
  it, and the second enters. (For the pthread mutex that the scheduler uses, POSIX leaves the second unlock undefined.)
\<close>

theorem start_breaks_exclusion:
  assumes "exclusive_lock free attempt release" and "free l"
  shows "\<exists>w. lock_reach attempt release (lock_start l (\<lambda>i. scope_program (start_program i))) w \<and> lw_inside w 1 \<and> lw_inside w 2"
proof -
  let ?s = "lock_start l (\<lambda>i. scope_program (start_program i))"
  have p: "scope_program (start_program i) = (if i = 0 then [Lock_op, Unlock_op, Unlock_op] else [Lock_op, Unlock_op])" for i
    by (simp add: start_program_def scope_program_def scope_lock_scope)
  have take: "\<exists>m. attempt k = (True, m)" if "free k" for k
    using exclusive_lock.try_free [OF assms(1), of k] that by (cases "attempt k") auto
  note frees = exclusive_lock.release_frees [OF assms(1)]
  obtain l1 where l1: "attempt l = (True, l1)" using take assms(2) by blast
  obtain l2 where l2: "attempt (release l1) = (True, l2)" using take frees by blast
  obtain l3 where l3: "attempt (release l2) = (True, l3)" using take frees by blast
  note step = reach_step [OF _ lock_step.acquire] and unlock = reach_step [OF _ lock_step.release]
  have "lock_reach attempt release ?s
      (?s\<lparr>lw_lock := l1, lw_todo := (lw_todo ?s)(0 := [Unlock_op, Unlock_op]), lw_inside := (lw_inside ?s)(0 := True)\<rparr>)" (is "lock_reach _ _ _ ?a")
    by (rule step [OF reach_here]) (simp_all add: lock_start_def p l1)
  then have "lock_reach attempt release ?s
      (?a\<lparr>lw_lock := release (lw_lock ?a), lw_todo := (lw_todo ?a)(0 := [Unlock_op]), lw_inside := (lw_inside ?a)(0 := False)\<rparr>)" (is "lock_reach _ _ _ ?b")
    by (rule unlock) simp
  then have "lock_reach attempt release ?s
      (?b\<lparr>lw_lock := l2, lw_todo := (lw_todo ?b)(1 := [Unlock_op]), lw_inside := (lw_inside ?b)(1 := True)\<rparr>)" (is "lock_reach _ _ _ ?c")
    by (rule step) (simp_all add: lock_start_def p l2)
  then have "lock_reach attempt release ?s
      (?c\<lparr>lw_lock := release (lw_lock ?c), lw_todo := (lw_todo ?c)(0 := []), lw_inside := (lw_inside ?c)(0 := False)\<rparr>)" (is "lock_reach _ _ _ ?d")
    by (rule unlock) simp
  then have "lock_reach attempt release ?s
      (?d\<lparr>lw_lock := l3, lw_todo := (lw_todo ?d)(2 := [Unlock_op]), lw_inside := (lw_inside ?d)(2 := True)\<rparr>)" (is "lock_reach _ _ _ ?e")
    by (rule step) (simp_all add: lock_start_def p l3)
  then show ?thesis by (rule exI [of _ ?e, OF conjI]) simp
qed

theorem start_breaks_exclusion_witness:
  "\<exists>w. lock_reach CASLock_try CASLock_unlock (lock_start False (\<lambda>i. scope_program (start_program i))) w \<and> lw_inside w 1 \<and> lw_inside w 2"
  by (rule start_breaks_exclusion [OF cas.exclusive_lock_axioms]) simp

text \<open>
  \<^verbatim>\<open>Semaphore\<close>: the counter of its \<^verbatim>\<open>sem_t\<close>. The answer of the C call is an argument of each operation; a
  call that blocks is one that has no answer yet.
\<close>

definition Semaphore_new :: "int \<Rightarrow> nat \<Rightarrow> string + nat" where
  "Semaphore_new r n = (if r \<noteq> 0 then Inl ''sem_init error'' else Inr n)"

definition Semaphore_wait :: "int \<Rightarrow> nat \<Rightarrow> string + nat" where
  "Semaphore_wait r n = (if r \<noteq> 0 then Inl ''sem_wait error'' else Inr (n - 1))"

definition Semaphore_notify :: "int \<Rightarrow> nat \<Rightarrow> string + nat" where
  "Semaphore_notify r n = (if r \<noteq> 0 then Inl ''sem_post error'' else Inr (n + 1))"

definition wait_answers :: "nat \<Rightarrow> int \<Rightarrow> bool" where
  "wait_answers n r \<longleftrightarrow> r \<noteq> 0 \<or> 0 < n"

end
