(* ===== verification/SchedulerSwitch.thy ===== *)
theory SchedulerSwitch
  imports Scheduler Text
begin

text \<open>
  SchedulerSwitcher and the printing of a scheduler: src/hiper/base/scheduler.cc, lines 329 to 357. The lemmas show what a switch
  to another scheduler and back queues where.
\<close>

text \<open>\<^verbatim>\<open>Scheduler::dump\<close>: a boolean prints as 0 or 1, and the newline of \<^verbatim>\<open>std::endl\<close> is character 10.\<close>

primrec dump_ids :: "nat \<Rightarrow> int list \<Rightarrow> string" where
  "dump_ids i [] = []"
| "dump_ids i (t # ts) = (if i \<noteq> 0 then '', '' else []) @ show_int t @ dump_ids (i + 1) ts"

definition dump_scheduler :: "scheduler \<Rightarrow> string" where
  "dump_scheduler s =
     ''[Scheduler name='' @ sc_name s @ '' size='' @ show_nat (sc_thread_count s) @ '' active_count='' @ show_nat (sc_active s)
     @ '' idle_count='' @ show_nat (sc_idle s) @ '' stopping='' @ (if sc_stopping s then ''1'' else ''0'') @ '' ]'' @ [CHR 0x0A]
     @ ''    '' @ dump_ids 0 (sc_thread_ids s)"

text \<open>
  \<^verbatim>\<open>SchedulerSwitcher\<close> among several schedulers, numbered, that share the fibers: \<open>current\<close> is \<^verbatim>\<open>t_scheduler\<close>
  of the thread \<open>me\<close>, on which the switch happens. The second result of the constructor is \<^verbatim>\<open>caller_\<close>.
\<close>

definition on_scheduler :: "nat \<Rightarrow> (sworld \<Rightarrow> (sched_event list \<times> sworld) fiber_result) \<Rightarrow> (nat \<Rightarrow> sworld)
    \<Rightarrow> (sched_event list \<times> (nat \<Rightarrow> sworld)) fiber_result" where
  "on_scheduler k f ws = bindE (f (ws k)) (\<lambda>(ev, w). Inr (ev, \<lambda>j. if j = k then w else (ws j)\<lparr>sw_fibers := sw_fibers w\<rparr>))"

definition SchedulerSwitcher_new :: "nat option \<Rightarrow> nat option \<Rightarrow> int \<Rightarrow> nat \<Rightarrow> (nat \<Rightarrow> sworld)
    \<Rightarrow> (nat option \<times> sched_event list \<times> (nat \<Rightarrow> sworld)) fiber_result" where
  "SchedulerSwitcher_new current target me fresh ws =
     (case target of None \<Rightarrow> Inr (current, [], ws)
      | Some k \<Rightarrow> bindE (on_scheduler k (switchTo (current = Some k) (- 1) me fresh) ws) (\<lambda>(ev, ws1). Inr (current, ev, ws1)))"

definition SchedulerSwitcher_destroy :: "nat option \<Rightarrow> nat option \<Rightarrow> int \<Rightarrow> nat \<Rightarrow> (nat \<Rightarrow> sworld)
    \<Rightarrow> (sched_event list \<times> (nat \<Rightarrow> sworld)) fiber_result" where
  "SchedulerSwitcher_destroy caller current me fresh ws =
     (case caller of None \<Rightarrow> Inr ([], ws) | Some k \<Rightarrow> on_scheduler k (switchTo (current = Some k) (- 1) me fresh) ws)"

text \<open>A switch moves the running fiber, and nothing else, to the queue of the other scheduler; on the current scheduler it does nothing.\<close>

lemma switchTo_queues:
  assumes "switchTo here (- 1) me fresh w = Inr (ev, w')"
  shows "sc_queue (sw_sched w') = sc_queue (sw_sched w)
      @ (if here then [] else [make_task (Fiber_task (Some (fst (GetThis me fresh (sw_fibers w))))) (- 1)])"
  using assms
  by (auto simp: switchTo_def sched_task_def schedule_def scheduleNoLock_def bindE_Inr_iff Let_def split: prod.splits if_splits)

lemma on_scheduler_queues:
  assumes "on_scheduler k (switchTo here (- 1) me fresh) ws = Inr (ev, ws')"
  shows "sc_queue (sw_sched (ws' j)) = sc_queue (sw_sched (ws j))
      @ (if j = k \<and> \<not> here then [make_task (Fiber_task (Some (fst (GetThis me fresh (sw_fibers (ws k)))))) (- 1)] else [])"
  using assms switchTo_queues [of here me fresh "ws k"]
  by (auto simp: on_scheduler_def bindE_Inr_iff split: prod.splits)

text \<open>
  A switcher for another scheduler \<open>k\<close> made on a thread of scheduler \<open>c\<close> and destroyed on a thread of \<open>k\<close>, where
  other workers may have run in between: the running fiber is queued for \<open>k\<close>, and in the end, whatever fiber then runs, for \<open>c\<close>.
\<close>

lemma switcher_there_and_back:
  assumes "SchedulerSwitcher_new (Some c) (Some k) me fresh ws = Inr (caller, ev, ws1)" and "c \<noteq> k"
    and "SchedulerSwitcher_destroy caller (Some k) me' fresh' ws2 = Inr (ev', ws3)"
  shows "sc_queue (sw_sched (ws1 j)) = sc_queue (sw_sched (ws j))
        @ (if j = k then [make_task (Fiber_task (Some (fst (GetThis me fresh (sw_fibers (ws k)))))) (- 1)] else [])
    \<and> sc_queue (sw_sched (ws3 j)) = sc_queue (sw_sched (ws2 j))
        @ (if j = c then [make_task (Fiber_task (Some (fst (GetThis me' fresh' (sw_fibers (ws2 c)))))) (- 1)] else [])"
proof -
  have "on_scheduler k (switchTo False (- 1) me fresh) ws = Inr (ev, ws1)" and c: "caller = Some c"
    using assms(1,2) by (auto simp: SchedulerSwitcher_new_def bindE_Inr_iff)
  moreover have "on_scheduler c (switchTo False (- 1) me' fresh') ws2 = Inr (ev', ws3)"
    using assms(2,3) c by (auto simp: SchedulerSwitcher_destroy_def)
  ultimately show ?thesis using on_scheduler_queues by auto
qed

end
