(* ===== verification/Settings.thy ===== *)
theory Settings
  imports Config
begin

text \<open>
  Settings that are copied into static variables at the start of the program and kept up to date by listeners: src/hiper/http/http_parser.cc
  (the sizes of the HTTP parsers) and src/hiper/base/hook.cc (the timeout of connect), over Config. The lemmas show that the
  copies follow their settings whatever the order of the static initialisers.
\<close>

section \<open>Registration\<close>

text \<open>The values of the settings that the program keeps copies of, as the reads of their types see them.\<close>

datatype setting_value = Val_u64 u64 | Val_int "32 word"

fun as_u64 :: "setting_value \<Rightarrow> u64" where
  "as_u64 (Val_u64 v) = v"
| "as_u64 (Val_int v) = scast v"

text \<open>The static variables: \<^verbatim>\<open>s_connect_timeout\<close> starts as -1 and takes an int by sign extension.\<close>

record statics =
  s_http_request_buffer_size :: u64
  s_http_request_max_body_size :: u64
  s_http_response_buffer_size :: u64
  s_http_response_max_body_size :: u64
  s_connect_timeout :: u64

definition new_statics :: statics where
  "new_statics = \<lparr>s_http_request_buffer_size = 0, s_http_request_max_body_size = 0, s_http_response_buffer_size = 0,
     s_http_response_max_body_size = 0, s_connect_timeout = - 1\<rparr>"

type_synonym settings = "(setting_value, statics) config"

text \<open>A static initialisation by \<^verbatim>\<open>Config::Lookup\<close>; \<open>None\<close> is an exception or a null pointer, which the initialisers use at once.\<close>

definition static_lookup :: "string \<Rightarrow> string \<Rightarrow> setting_value \<Rightarrow> string \<Rightarrow> settings \<Rightarrow> (nat \<times> settings) option" where
  "static_lookup ty name v description s = (case Config_Lookup ty name v description s of
     Inr (Some i, t) \<Rightarrow> Some (i, t)
   | _ \<Rightarrow> None)"

text \<open>\<^verbatim>\<open>x = g->getValue()\<close>, and the listener that assigns the new value to \<^verbatim>\<open>x\<close>; \<open>put\<close> is the assignment.\<close>

definition copy_value :: "(u64 \<Rightarrow> statics \<Rightarrow> statics) \<Rightarrow> nat \<Rightarrow> settings \<Rightarrow> settings" where
  "copy_value put i s = s\<lparr>cf_world := put (as_u64 (getValue i s)) (cf_world s)\<rparr>"

definition copy_listener :: "(u64 \<Rightarrow> statics \<Rightarrow> statics) \<Rightarrow> (setting_value, statics) on_change_cb" where
  "copy_listener put ov nv w = (True, put (as_u64 nv) w)"

abbreviation "put_request_buffer v w \<equiv> w\<lparr>s_http_request_buffer_size := v\<rparr>"
abbreviation "put_request_body v w \<equiv> w\<lparr>s_http_request_max_body_size := v\<rparr>"
abbreviation "put_response_buffer v w \<equiv> w\<lparr>s_http_response_buffer_size := v\<rparr>"
abbreviation "put_response_body v w \<equiv> w\<lparr>s_http_response_max_body_size := v\<rparr>"
abbreviation "put_connect_timeout v w \<equiv> w\<lparr>s_connect_timeout := v\<rparr>"

definition http_lookups :: "settings \<Rightarrow> ((nat \<times> nat \<times> nat \<times> nat) \<times> settings) option" where
  "http_lookups s =
     Option.bind (static_lookup ''uint64_t'' ''http.request.buffer_size'' (Val_u64 (4 * 1024)) ''http request buffer size'' s) (\<lambda>(a, s1).
     Option.bind (static_lookup ''uint64_t'' ''http.request.max_body_size'' (Val_u64 (64 * 1024 * 1024)) ''http request max body size'' s1) (\<lambda>(b, s2).
     Option.bind (static_lookup ''uint64_t'' ''http.response.buffer_size'' (Val_u64 (4 * 1024)) ''http response buffer size'' s2) (\<lambda>(c, s3).
     Option.bind (static_lookup ''uint64_t'' ''http.response.max_body_size'' (Val_u64 (64 * 1024 * 1024)) ''http response max body size'' s3) (\<lambda>(d, s4).
       Some ((a, b, c, d), s4)))))"

definition RequestSizeIniter :: "nat \<times> nat \<times> nat \<times> nat \<Rightarrow> settings \<Rightarrow> settings" where
  "RequestSizeIniter g s = (case g of (a, b, c, d) \<Rightarrow>
     let s1 = copy_value put_response_body d (copy_value put_response_buffer c (copy_value put_request_body b (copy_value put_request_buffer a s)));
         s2 = snd (addListener a (copy_listener put_request_buffer) s1);
         s3 = snd (addListener b (copy_listener put_request_body) s2);
         s4 = snd (addListener c (copy_listener put_response_buffer) s3)
     in snd (addListener d (copy_listener put_response_body) s4))"

definition HookIniter :: "nat \<Rightarrow> settings \<Rightarrow> settings" where
  "HookIniter g s = snd (addListener g (copy_listener put_connect_timeout) (copy_value put_connect_timeout g s))"

text \<open>The two translation units, each lookups first; their order is not fixed by the language.\<close>

definition http_unit :: "settings \<Rightarrow> settings option" where
  "http_unit s = map_option (\<lambda>(g, t). RequestSizeIniter g t) (http_lookups s)"

definition hook_unit :: "settings \<Rightarrow> settings option" where
  "hook_unit s = map_option (\<lambda>(g, t). HookIniter g t) (static_lookup ''int'' ''tcp.connect.timeout'' (Val_int 5000) ''tcp connect timeout'' s)"

text \<open>The settings as the sessions and the hooked \<^verbatim>\<open>connect\<close> read them.\<close>

definition GetHttpRequestBufferSize :: "statics \<Rightarrow> u64" where "GetHttpRequestBufferSize w = s_http_request_buffer_size w"
definition GetHttpRequestMaxBodySize :: "statics \<Rightarrow> u64" where "GetHttpRequestMaxBodySize w = s_http_request_max_body_size w"
definition GetHttpResponseBufferSize :: "statics \<Rightarrow> u64" where "GetHttpResponseBufferSize w = s_http_response_buffer_size w"
definition GetHttpResponseMaxBodySize :: "statics \<Rightarrow> u64" where "GetHttpResponseMaxBodySize w = s_http_response_max_body_size w"

section \<open>Copies that follow their settings\<close>

text \<open>
  A copy that follows a setting: the setting has one listener, which assigns the copy, the copy is the value now, and no other
  setting has a listener that touches it.
\<close>

definition ignores :: "(statics \<Rightarrow> u64) \<Rightarrow> (u64 \<times> (setting_value, statics) on_change_cb) list \<Rightarrow> bool" where
  "ignores get cbs \<longleftrightarrow> (\<forall>p\<in>set cbs. \<forall>ov nv w. get (snd (snd p ov nv w)) = get w)"

definition follows :: "(u64 \<Rightarrow> statics \<Rightarrow> statics) \<Rightarrow> (statics \<Rightarrow> u64) \<Rightarrow> nat \<Rightarrow> settings \<Rightarrow> bool" where
  "follows put get i s \<longleftrightarrow> i < length (cf_vars s) \<and> (\<exists>k. cv_cbs (cf_vars s ! i) = [(k, copy_listener put)])
     \<and> get (cf_world s) = as_u64 (getValue i s)
     \<and> (\<forall>j<length (cf_vars s). j \<noteq> i \<longrightarrow> ignores get (cv_cbs (cf_vars s ! j)))"

definition known_settings :: "settings \<Rightarrow> bool" where
  "known_settings s \<longleftrightarrow> (\<forall>n i. cf_datas s n = Some i \<longrightarrow> i < length (cf_vars s))"

lemma call_all_ignored:
  assumes "ignores get cbs"
  shows "get (snd (call_all cbs ov nv w)) = get w"
  using assms
proof (induction cbs arbitrary: w)
  case (Cons cb cbs)
  then have "get (snd (snd cb ov nv w)) = get w" "ignores get cbs" by (simp_all add: ignores_def)
  then show ?case using Cons(1) by (cases "snd cb ov nv w") simp
qed simp

lemma new_value_cbs [simp]:
  "cv_cbs ((cf_vars s)[j := (cf_vars s ! j)\<lparr>cv_val := v\<rparr>] ! k) = cv_cbs (cf_vars s ! k)"
  by (cases "j < length (cf_vars s)") (auto simp: nth_list_update list_update_beyond not_less)

lemma setValue_follows:
  assumes "follows put get i s" and "j < length (cf_vars s)" and "\<And>v w. get (put v w) = v"
  shows "follows put get i (snd (setValue j v s))"
proof (cases "j = i")
  case True
  then show ?thesis using assms
    by (auto simp: follows_def setValue_def upd_var_def copy_listener_def getValue_def Let_def nth_list_update)
next
  case False
  let ?x = "cf_vars s ! j"
  have "get (snd (call_all (cv_cbs ?x) (cv_val ?x) v (cf_world s))) = get (cf_world s)"
    using assms(1,2) False by (intro call_all_ignored) (simp add: follows_def)
  then show ?thesis using assms(1) False
    by (cases "call_all (cv_cbs ?x) (cv_val ?x) v (cf_world s)")
      (auto simp: follows_def setValue_def upd_var_def getValue_def Let_def)
qed

lemma setValue_known: "known_settings (snd (setValue j v s)) = known_settings s"
  by (simp add: known_settings_def setValue_def upd_var_def Let_def split: prod.split)

lemma load_node_follows:
  assumes "follows put get i s" and "known_settings s" and "\<And>v w. get (put v w) = v"
  shows "follows put get i (load_node y c n s) \<and> known_settings (load_node y c n s)"
  using assms setValue_follows [OF assms(1) _ assms(3)]
  by (auto simp: load_node_def fromString_def LookupBase_def setValue_known split: option.split)
    (auto simp: known_settings_def)

lemma load_nodes_follow:
  assumes "\<And>v w. get (put v w) = v"
  shows "follows put get i s \<Longrightarrow> known_settings s \<Longrightarrow>
    follows put get i (fold (load_node y c) ns s) \<and> known_settings (fold (load_node y c) ns s)"
proof (induction ns arbitrary: s)
  case (Cons n ns)
  then show ?case using load_node_follows [OF Cons(2,3) assms, of y c n] by simp
qed simp

text \<open>The ways in which settings change while the program runs.\<close>

inductive settings_step :: "'n yaml \<Rightarrow> setting_value casts \<Rightarrow> settings \<Rightarrow> settings \<Rightarrow> bool" for y c where
  set_value: "j < length (cf_vars s) \<Longrightarrow> settings_step y c s (snd (setValue j v s))"
| from_text: "j < length (cf_vars s) \<Longrightarrow> settings_step y c s (snd (fromString c j str s))"
| whole_doc: "LoadFromYaml y c root s = Some t \<Longrightarrow> settings_step y c s t"
| conf_file: "load_file y c mtime LoadFile force f s = Some t \<Longrightarrow> settings_step y c s t"

lemma document_follows:
  assumes "LoadFromYaml y c root s = Some t" and "follows put get i s" and "known_settings s" and "\<And>v w. get (put v w) = v"
  shows "follows put get i t \<and> known_settings t"
  using assms(1) load_nodes_follow [OF assms(4,2,3)] by (auto simp: LoadFromYaml_def)

lemma load_file_follows:
  assumes "load_file y c mtime LoadFile force f s = Some t" and "follows put get i s" and "known_settings s" and "\<And>v w. get (put v w) = v"
  shows "follows put get i t \<and> known_settings t"
proof -
  let ?s = "s\<lparr>cf_times := (cf_times s)(f := mtime (cf_world s) f)\<rparr>"
  have s: "follows put get i ?s" "known_settings ?s" using assms(2,3) by (simp_all add: follows_def known_settings_def getValue_def)
  have "t = s \<or> t = ?s \<or> (\<exists>root. LoadFromYaml y c root ?s = Some t)"
    using assms(1) by (cases "\<not> force \<and> cf_times s f = mtime (cf_world s) f"; cases "LoadFile (cf_world s) f") (auto simp: load_file_def Let_def)
  then show ?thesis
  proof (elim disjE exE)
    fix root
    assume "LoadFromYaml y c root ?s = Some t"
    then show ?thesis by (rule document_follows [OF _ s assms(4)])
  qed (use s assms(2,3) in simp_all)
qed

lemma settings_step_follows:
  assumes "settings_step y c s t" and "follows put get i s" and "known_settings s" and gp: "\<And>v w. get (put v w) = v"
  shows "follows put get i t \<and> known_settings t"
  using assms(1)
proof cases
  case (set_value j v)
  then show ?thesis using setValue_follows [OF assms(2) set_value(2) gp] assms(3) by (simp add: setValue_known)
next
  case (from_text j str)
  then show ?thesis using setValue_follows [OF assms(2) from_text(2) gp] assms(2,3)
    by (cases "FromStr c (cv_type (cf_vars s ! j)) str") (simp_all add: fromString_def setValue_known)
next
  case (whole_doc root)
  then show ?thesis by (rule document_follows [OF _ assms(2-4)])
next
  case (conf_file mtime LoadFile force f)
  then show ?thesis by (rule load_file_follows [OF _ assms(2-4)])
qed

lemma settings_steps_follow:
  assumes "(settings_step y c)\<^sup>*\<^sup>* s t" and "follows put get i s" and "known_settings s" and "\<And>v w. get (put v w) = v"
  shows "follows put get i t \<and> known_settings t"
  using assms(1) by induction (use assms(2-4) settings_step_follows in blast)+

section \<open>From the start of the program\<close>

lemma setting_names: "name_valid ''http.request.buffer_size''" "name_valid ''http.request.max_body_size''"
  "name_valid ''http.response.buffer_size''" "name_valid ''http.response.max_body_size''" "name_valid ''tcp.connect.timeout''"
  by (simp_all add: name_valid_def name_chars_def)

text \<open>What each part of a static initialisation does to a copy that is there.\<close>

definition plain :: "(statics \<Rightarrow> u64) \<Rightarrow> settings \<Rightarrow> bool" where
  "plain get s \<longleftrightarrow> (\<forall>j<length (cf_vars s). ignores get (cv_cbs (cf_vars s ! j)))"

lemma copy_fields [simp]:
  "cf_vars (copy_value put i s) = cf_vars s" "cf_datas (copy_value put i s) = cf_datas s" "getValue j (copy_value put i s) = getValue j s"
  "cf_world (copy_value put i s) = put (as_u64 (getValue i s)) (cf_world s)"
  by (simp_all add: copy_value_def getValue_def)

lemma add_fields [simp]:
  "length (cf_vars (snd (addListener i cb s))) = length (cf_vars s)" "cf_datas (snd (addListener i cb s)) = cf_datas s"
  "cf_world (snd (addListener i cb s)) = cf_world s" "getValue j (snd (addListener i cb s)) = getValue j s"
  by (simp_all add: addListener_def upd_var_def getValue_def Let_def)
    (cases "i < length (cf_vars s)"; auto simp: nth_list_update list_update_beyond not_less)

lemma add_cbs:
  "i < length (cf_vars s) \<Longrightarrow> cv_cbs (cf_vars (snd (addListener i cb s)) ! j) =
    (if j = i then cb_insert (cf_fun_id s (cv_type (cf_vars s ! i)) + 1) cb (cv_cbs (cf_vars s ! i)) else cv_cbs (cf_vars s ! j))"
  by (simp add: addListener_def upd_var_def Let_def nth_list_update)

lemma ignores_copy [simp]: "ignores get []" "ignores get [(k, copy_listener put)] \<longleftrightarrow> (\<forall>v w. get (put (as_u64 v) w) = get w)"
  by (simp_all add: ignores_def copy_listener_def)

lemma lookup_new:
  assumes "cf_datas s name = None" and "name_valid name"
  shows "\<exists>t. static_lookup ty name v d s = Some (length (cf_vars s), t) \<and> cf_datas t = (cf_datas s)(name \<mapsto> length (cf_vars s))
    \<and> cf_world t = cf_world s \<and> length (cf_vars t) = length (cf_vars s) + 1 \<and> cv_cbs (cf_vars t ! length (cf_vars s)) = []
    \<and> (\<forall>j<length (cf_vars s). cf_vars t ! j = cf_vars s ! j)"
  using assms by (simp add: static_lookup_def Config_Lookup_def nth_append new_ConfigVar_def)

text \<open>The states that grow out of one another without changing what a copy depends on.\<close>

definition extends :: "(statics \<Rightarrow> u64) set \<Rightarrow> settings \<Rightarrow> settings \<Rightarrow> bool" where
  "extends G s t \<longleftrightarrow> (\<forall>g\<in>G. \<forall>put i. follows put g i s \<longrightarrow> follows put g i t) \<and> (\<forall>g\<in>G. plain g s \<longrightarrow> plain g t)
     \<and> cf_datas s \<subseteq>\<^sub>m cf_datas t \<and> (known_settings s \<longrightarrow> known_settings t)"

lemma extends_trans: "extends G s t \<Longrightarrow> extends G t u \<Longrightarrow> extends G s u"
  unfolding extends_def by (blast intro: map_le_trans)

lemma extends_mono: "extends G s t \<Longrightarrow> H \<subseteq> G \<Longrightarrow> extends H s t"
  unfolding extends_def by blast

definition kept_by :: "(u64 \<Rightarrow> statics \<Rightarrow> statics) \<Rightarrow> (statics \<Rightarrow> u64) set" where
  "kept_by put = {g. \<forall>v w. g (put v w) = g w}"

lemma lookup_extends:
  assumes "static_lookup ty name v d s = Some (i, t)" and "cf_datas s name = None" and "name_valid name"
  shows "extends UNIV s t"
proof -
  have t: "i = length (cf_vars s)" "cf_datas t = (cf_datas s)(name \<mapsto> i)" "cf_world t = cf_world s" "length (cf_vars t) = i + 1"
    "cv_cbs (cf_vars t ! i) = []" "\<And>j. j < i \<Longrightarrow> cf_vars t ! j = cf_vars s ! j"
    using lookup_new [OF assms(2,3), of ty v d] assms(1) by auto
  have cbs: "ignores g (cv_cbs (cf_vars t ! j))" if "j < i \<Longrightarrow> ignores g (cv_cbs (cf_vars s ! j))" "j < i + 1" for g j
    using that t(5,6) by (cases "j = i") auto
  have "follows put g k t" if "follows put g k s" for put g k
    using that t unfolding follows_def getValue_def by (auto intro: cbs)
  moreover have "plain g t" if "plain g s" for g
    using that t(1,4) by (auto simp: plain_def intro: cbs)
  moreover have "cf_datas s \<subseteq>\<^sub>m cf_datas t" using assms(2) t(2) by (auto simp: map_le_def)
  moreover have "known_settings t" if "known_settings s" using that t(1,2,4) by (auto simp: known_settings_def less_Suc_eq)
  ultimately show ?thesis by (simp add: extends_def)
qed

lemma copy_extends: "extends (kept_by put) s (copy_value put i s)"
  by (auto simp: extends_def follows_def plain_def kept_by_def known_settings_def)

lemma add_extends:
  assumes "k < length (cf_vars s)" and "cv_cbs (cf_vars s ! k) = []"
  shows "extends (kept_by put) s (snd (addListener k (copy_listener put) s))" (is "extends _ _ ?t")
proof -
  have cbs: "cv_cbs (cf_vars ?t ! j) = (if j = k then [(cf_fun_id s (cv_type (cf_vars s ! k)) + 1, copy_listener put)] else cv_cbs (cf_vars s ! j))" for j
    using add_cbs [OF assms(1)] assms(2) by simp
  have "follows put' g i ?t" if "g \<in> kept_by put" "follows put' g i s" for g put' i
  proof -
    have "i \<noteq> k" using that(2) assms(2) by (auto simp: follows_def)
    then show ?thesis using that unfolding follows_def kept_by_def by (simp add: cbs)
  qed
  moreover have "plain g ?t" if "g \<in> kept_by put" "plain g s" for g
    using that unfolding plain_def kept_by_def by (simp add: cbs)
  ultimately show ?thesis by (simp add: extends_def known_settings_def)
qed

lemma add_follows:
  assumes "i < length (cf_vars s)" and "cv_cbs (cf_vars s ! i) = []" and "g (cf_world s) = as_u64 (getValue i s)" and "plain g s"
  shows "follows put g i (snd (addListener i (copy_listener put) s))"
  using assms by (simp add: follows_def add_cbs plain_def)

lemma kept_fields [simp]:
  "s_http_request_max_body_size \<in> kept_by put_request_buffer" "s_http_response_buffer_size \<in> kept_by put_request_buffer"
  "s_http_response_max_body_size \<in> kept_by put_request_buffer" "s_connect_timeout \<in> kept_by put_request_buffer"
  "s_http_request_buffer_size \<in> kept_by put_request_body" "s_http_response_buffer_size \<in> kept_by put_request_body"
  "s_http_response_max_body_size \<in> kept_by put_request_body" "s_connect_timeout \<in> kept_by put_request_body"
  "s_http_request_buffer_size \<in> kept_by put_response_buffer" "s_http_request_max_body_size \<in> kept_by put_response_buffer"
  "s_http_response_max_body_size \<in> kept_by put_response_buffer" "s_connect_timeout \<in> kept_by put_response_buffer"
  "s_http_request_buffer_size \<in> kept_by put_response_body" "s_http_request_max_body_size \<in> kept_by put_response_body"
  "s_http_response_buffer_size \<in> kept_by put_response_body" "s_connect_timeout \<in> kept_by put_response_body"
  "s_http_request_buffer_size \<in> kept_by put_connect_timeout" "s_http_request_max_body_size \<in> kept_by put_connect_timeout"
  "s_http_response_buffer_size \<in> kept_by put_connect_timeout" "s_http_response_max_body_size \<in> kept_by put_connect_timeout"
  by (simp_all add: kept_by_def)

lemma hook_unit_follows:
  assumes "cf_datas s ''tcp.connect.timeout'' = None" and "plain s_connect_timeout s"
  shows "\<exists>t. hook_unit s = Some t \<and> extends (kept_by put_connect_timeout) s t
    \<and> follows put_connect_timeout s_connect_timeout (length (cf_vars s)) t \<and> cf_datas t = (cf_datas s)(''tcp.connect.timeout'' \<mapsto> length (cf_vars s))"
proof -
  let ?i = "length (cf_vars s)"
  obtain t where l: "static_lookup ''int'' ''tcp.connect.timeout'' (Val_int 5000) ''tcp connect timeout'' s = Some (?i, t)"
    and t: "cf_datas t = (cf_datas s)(''tcp.connect.timeout'' \<mapsto> ?i)" "length (cf_vars t) = ?i + 1" "cv_cbs (cf_vars t ! ?i) = []"
    using lookup_new [OF assms(1) setting_names(5)] by blast
  let ?c = "copy_value put_connect_timeout ?i t"
  have e: "extends UNIV s t" by (rule lookup_extends [OF l assms(1) setting_names(5)])
  have "plain s_connect_timeout ?c" using e assms(2) by (simp add: extends_def plain_def)
  then have f: "follows put_connect_timeout s_connect_timeout ?i (HookIniter ?i t)"
    unfolding HookIniter_def using t(2,3) by (intro add_follows) simp_all
  have "extends (kept_by put_connect_timeout) s (HookIniter ?i t)"
    unfolding HookIniter_def using t(2,3)
    by (intro extends_trans [OF extends_mono [OF e] extends_trans [OF copy_extends add_extends]]) simp_all
  then show ?thesis using f t(1) by (simp add: hook_unit_def l HookIniter_def)
qed

lemma lookup_step:
  assumes "cf_datas s name = None" and "name_valid name"
  shows "\<exists>t. static_lookup ty name v d s = Some (length (cf_vars s), t) \<and> cf_datas t = (cf_datas s)(name \<mapsto> length (cf_vars s))
    \<and> length (cf_vars t) = length (cf_vars s) + 1 \<and> cv_cbs (cf_vars t ! length (cf_vars s)) = []
    \<and> (\<forall>j<length (cf_vars s). cf_vars t ! j = cf_vars s ! j) \<and> extends UNIV s t"
  using lookup_new [OF assms, of ty v d] lookup_extends [OF _ assms] by blast

lemma http_lookups_new:
  assumes "cf_datas s ''http.request.buffer_size'' = None" and "cf_datas s ''http.request.max_body_size'' = None"
    and "cf_datas s ''http.response.buffer_size'' = None" and "cf_datas s ''http.response.max_body_size'' = None"
    and "n = length (cf_vars s)"
  shows "\<exists>t. http_lookups s = Some ((n, n + 1, n + 1 + 1, n + 1 + 1 + 1), t) \<and> extends UNIV s t \<and> length (cf_vars t) = n + 1 + 1 + 1 + 1
    \<and> (\<forall>j\<in>{n, n + 1, n + 1 + 1, n + 1 + 1 + 1}. cv_cbs (cf_vars t ! j) = [])
    \<and> cf_datas t = (cf_datas s)(''http.request.buffer_size'' \<mapsto> n, ''http.request.max_body_size'' \<mapsto> n + 1,
      ''http.response.buffer_size'' \<mapsto> n + 1 + 1, ''http.response.max_body_size'' \<mapsto> n + 1 + 1 + 1)"
proof -
  note look = lookup_step [where ty = "''uint64_t''"]
  obtain s1 where s1: "static_lookup ''uint64_t'' ''http.request.buffer_size'' (Val_u64 (4 * 1024)) ''http request buffer size'' s = Some (n, s1)"
    "cf_datas s1 = (cf_datas s)(''http.request.buffer_size'' \<mapsto> n)" "length (cf_vars s1) = n + 1" "cv_cbs (cf_vars s1 ! n) = []" "extends UNIV s s1"
    using look [OF assms(1) setting_names(1)] unfolding assms(5) by blast
  have f1: "cf_datas s1 ''http.request.max_body_size'' = None" using assms(2) s1(2) by simp
  obtain s2 where s2: "static_lookup ''uint64_t'' ''http.request.max_body_size'' (Val_u64 (64 * 1024 * 1024)) ''http request max body size'' s1 = Some (n + 1, s2)"
    "cf_datas s2 = (cf_datas s1)(''http.request.max_body_size'' \<mapsto> n + 1)" "length (cf_vars s2) = n + 1 + 1" "cv_cbs (cf_vars s2 ! (n + 1)) = []"
    "\<forall>j<n + 1. cf_vars s2 ! j = cf_vars s1 ! j" "extends UNIV s1 s2"
    using look [OF f1 setting_names(2)] unfolding s1(3) by blast
  have f2: "cf_datas s2 ''http.response.buffer_size'' = None" using assms(3) s1(2) s2(2) by simp
  obtain s3 where s3: "static_lookup ''uint64_t'' ''http.response.buffer_size'' (Val_u64 (4 * 1024)) ''http response buffer size'' s2 = Some (n + 1 + 1, s3)"
    "cf_datas s3 = (cf_datas s2)(''http.response.buffer_size'' \<mapsto> n + 1 + 1)" "length (cf_vars s3) = n + 1 + 1 + 1" "cv_cbs (cf_vars s3 ! (n + 1 + 1)) = []"
    "\<forall>j<n + 1 + 1. cf_vars s3 ! j = cf_vars s2 ! j" "extends UNIV s2 s3"
    using look [OF f2 setting_names(3)] unfolding s2(3) by blast
  have f3: "cf_datas s3 ''http.response.max_body_size'' = None" using assms(4) s1(2) s2(2) s3(2) by simp
  obtain s4 where s4: "static_lookup ''uint64_t'' ''http.response.max_body_size'' (Val_u64 (64 * 1024 * 1024)) ''http response max body size'' s3 = Some (n + 1 + 1 + 1, s4)"
    "cf_datas s4 = (cf_datas s3)(''http.response.max_body_size'' \<mapsto> n + 1 + 1 + 1)" "length (cf_vars s4) = n + 1 + 1 + 1 + 1"
    "cv_cbs (cf_vars s4 ! (n + 1 + 1 + 1)) = []" "\<forall>j<n + 1 + 1 + 1. cf_vars s4 ! j = cf_vars s3 ! j" "extends UNIV s3 s4"
    using look [OF f3 setting_names(4)] unfolding s3(3) by blast
  have "http_lookups s = Some ((n, n + 1, n + 1 + 1, n + 1 + 1 + 1), s4)" by (simp only: http_lookups_def s1(1) s2(1) s3(1) s4(1) Option.bind.simps prod.case)
  moreover have "extends UNIV s s4" using extends_trans s1(5) s2(6) s3(6) s4(6) by blast
  moreover have "\<forall>j\<in>{n, n + 1, n + 1 + 1, n + 1 + 1 + 1}. cv_cbs (cf_vars s4 ! j) = []" using s1(4) s2(4,5) s3(4,5) s4(4,5) by simp
  ultimately show ?thesis using s1(2) s2(2) s3(2) s4(2,3) by (intro exI [of _ s4]) simp
qed

lemma http_unit_follows:
  assumes "cf_datas s ''http.request.buffer_size'' = None" and "cf_datas s ''http.request.max_body_size'' = None"
    and "cf_datas s ''http.response.buffer_size'' = None" and "cf_datas s ''http.response.max_body_size'' = None"
    and "\<And>g. g \<in> {s_http_request_buffer_size, s_http_request_max_body_size, s_http_response_buffer_size, s_http_response_max_body_size} \<Longrightarrow> plain g s"
    and "n = length (cf_vars s)"
  shows "\<exists>t. http_unit s = Some t
    \<and> extends (kept_by put_request_buffer \<inter> kept_by put_request_body \<inter> kept_by put_response_buffer \<inter> kept_by put_response_body) s t
    \<and> follows put_request_buffer s_http_request_buffer_size n t \<and> follows put_request_body s_http_request_max_body_size (n + 1) t
    \<and> follows put_response_buffer s_http_response_buffer_size (n + 1 + 1) t \<and> follows put_response_body s_http_response_max_body_size (n + 1 + 1 + 1) t
    \<and> cf_datas t = (cf_datas s)(''http.request.buffer_size'' \<mapsto> n, ''http.request.max_body_size'' \<mapsto> n + 1,
      ''http.response.buffer_size'' \<mapsto> n + 1 + 1, ''http.response.max_body_size'' \<mapsto> n + 1 + 1 + 1)"
proof -
  obtain l where l: "http_lookups s = Some ((n, n + 1, n + 1 + 1, n + 1 + 1 + 1), l)" "extends UNIV s l" "length (cf_vars l) = n + 1 + 1 + 1 + 1"
    "\<forall>j\<in>{n, n + 1, n + 1 + 1, n + 1 + 1 + 1}. cv_cbs (cf_vars l ! j) = []"
    "cf_datas l = (cf_datas s)(''http.request.buffer_size'' \<mapsto> n, ''http.request.max_body_size'' \<mapsto> n + 1,
      ''http.response.buffer_size'' \<mapsto> n + 1 + 1, ''http.response.max_body_size'' \<mapsto> n + 1 + 1 + 1)"
    using http_lookups_new [OF assms(1-4,6)] by blast
  define s1 where "s1 = copy_value put_response_body (n + 1 + 1 + 1) (copy_value put_response_buffer (n + 1 + 1)
    (copy_value put_request_body (n + 1) (copy_value put_request_buffer n l)))"
  define s2 where "s2 = snd (addListener n (copy_listener put_request_buffer) s1)"
  define s3 where "s3 = snd (addListener (n + 1) (copy_listener put_request_body) s2)"
  define s4 where "s4 = snd (addListener (n + 1 + 1) (copy_listener put_response_buffer) s3)"
  define t where "t = snd (addListener (n + 1 + 1 + 1) (copy_listener put_response_body) s4)"
  have u: "http_unit s = Some t" by (simp add: http_unit_def RequestSizeIniter_def l(1) Let_def t_def s4_def s3_def s2_def s1_def)
  have len: "length (cf_vars s1) = n + 1 + 1 + 1 + 1" "length (cf_vars s2) = n + 1 + 1 + 1 + 1" "length (cf_vars s3) = n + 1 + 1 + 1 + 1"
    "length (cf_vars s4) = n + 1 + 1 + 1 + 1" using l(3) by (simp_all add: s4_def s3_def s2_def s1_def)
  have cbs: "cv_cbs (cf_vars s1 ! n) = []" "cv_cbs (cf_vars s2 ! (n + 1)) = []" "cv_cbs (cf_vars s3 ! (n + 1 + 1)) = []" "cv_cbs (cf_vars s4 ! (n + 1 + 1 + 1)) = []"
    using l(3,4) by (simp_all add: s4_def s3_def s2_def s1_def add_cbs)
  note world = s1_def s2_def s3_def s4_def
  have p1: "plain g s1" if "g \<in> {s_http_request_buffer_size, s_http_request_max_body_size, s_http_response_buffer_size, s_http_response_max_body_size}" for g
    using assms(5) [OF that] l(2) by (simp add: extends_def plain_def s1_def)
  have e12: "extends (kept_by put_request_buffer) s1 s2" unfolding s2_def using len(1) cbs(1) by (intro add_extends) simp_all
  have e23: "extends (kept_by put_request_body) s2 s3" unfolding s3_def using len(2) cbs(2) by (intro add_extends) simp_all
  have e34: "extends (kept_by put_response_buffer) s3 s4" unfolding s4_def using len(3) cbs(3) by (intro add_extends) simp_all
  have e4t: "extends (kept_by put_response_body) s4 t" unfolding t_def using len(4) cbs(4) by (intro add_extends) simp_all
  have pl: "extends G x y \<Longrightarrow> g \<in> G \<Longrightarrow> plain g x \<Longrightarrow> plain g y" and fo: "extends G x y \<Longrightarrow> g \<in> G \<Longrightarrow> follows put g i x \<Longrightarrow> follows put g i y" for G x y g put i
    unfolding extends_def by blast+
  have w: "s_http_request_buffer_size (cf_world s1) = as_u64 (getValue n s1)" "s_http_request_max_body_size (cf_world s2) = as_u64 (getValue (n + 1) s2)"
    "s_http_response_buffer_size (cf_world s3) = as_u64 (getValue (n + 1 + 1) s3)" "s_http_response_max_body_size (cf_world s4) = as_u64 (getValue (n + 1 + 1 + 1) s4)"
    by (simp_all only: s4_def s3_def s2_def s1_def add_fields copy_fields, simp_all)
  have q: "plain s_http_request_max_body_size s2" "plain s_http_response_buffer_size s3" "plain s_http_response_max_body_size s4"
    by (rule pl [OF e12 _ p1], simp, simp) (rule pl [OF e23 _ pl [OF e12 _ p1]], simp, simp, simp,
      rule pl [OF e34 _ pl [OF e23 _ pl [OF e12 _ p1]]], simp, simp, simp, simp)
  have "plain s_http_request_buffer_size s1" using p1 by simp
  then have "follows put_request_buffer s_http_request_buffer_size n s2"
    unfolding s2_def using len(1) cbs(1) w(1)  by (intro add_follows) simp_all
  then have a: "follows put_request_buffer s_http_request_buffer_size n t" using fo e23 e34 e4t by simp
  have "follows put_request_body s_http_request_max_body_size (n + 1) s3"
    unfolding s3_def using len(2) cbs(2) w(2) q(1) by (intro add_follows) simp_all
  then have b: "follows put_request_body s_http_request_max_body_size (n + 1) t" using fo e34 e4t by simp
  have "follows put_response_buffer s_http_response_buffer_size (n + 1 + 1) s4"
    unfolding s4_def using len(3) cbs(3) w(3) q(2) by (intro add_follows) simp_all
  then have c: "follows put_response_buffer s_http_response_buffer_size (n + 1 + 1) t" using fo e4t by simp
  have d: "follows put_response_body s_http_response_max_body_size (n + 1 + 1 + 1) t"
    unfolding t_def using len(4) cbs(4) w(4) q(3) by (intro add_follows) simp_all
  let ?G = "kept_by put_request_buffer \<inter> kept_by put_request_body \<inter> kept_by put_response_buffer \<inter> kept_by put_response_body"
  let ?a = "copy_value put_request_buffer n l" let ?b = "copy_value put_request_body (n + 1) ?a" let ?c = "copy_value put_response_buffer (n + 1 + 1) ?b"
  have "extends ?G l ?a" "extends ?G ?a ?b" "extends ?G ?b ?c" "extends ?G ?c s1" unfolding s1_def
    by (rule extends_mono [OF copy_extends], blast)+
  then have ls1: "extends ?G l s1" by (meson extends_trans)
  have "extends ?G s l" "extends ?G s1 s2" "extends ?G s2 s3" "extends ?G s3 s4" "extends ?G s4 t"
    by (rule extends_mono [OF l(2)] extends_mono [OF e12] extends_mono [OF e23] extends_mono [OF e34] extends_mono [OF e4t], blast)+
  then have "extends ?G s t" using ls1 by (meson extends_trans)
  moreover have "cf_datas t = cf_datas l" by (simp add: t_def s4_def s3_def s2_def s1_def)
  ultimately show ?thesis using u a b c d l(5) by (intro exI [of _ t]) simp
qed

text \<open>The settings after both units have been initialised, in either order.\<close>

definition started :: "settings \<Rightarrow> bool" where
  "started s \<longleftrightarrow> Option.bind (http_unit (new_Config new_statics)) hook_unit = Some s
     \<or> Option.bind (hook_unit (new_Config new_statics)) http_unit = Some s"

definition named_copy :: "string \<Rightarrow> (statics \<Rightarrow> u64) \<Rightarrow> settings \<Rightarrow> bool" where
  "named_copy name g s \<longleftrightarrow> (\<exists>put i. (\<forall>v w. g (put v w) = v) \<and> cf_datas s name = Some i \<and> follows put g i s)"

lemma named_extends:
  assumes "named_copy name g s" and "extends G s t" and "g \<in> G"
  shows "named_copy name g t"
  using assms unfolding named_copy_def extends_def map_le_def by (metis domI)

definition all_copies :: "settings \<Rightarrow> bool" where
  "all_copies s \<longleftrightarrow> named_copy ''http.request.buffer_size'' s_http_request_buffer_size s
     \<and> named_copy ''http.request.max_body_size'' s_http_request_max_body_size s
     \<and> named_copy ''http.response.buffer_size'' s_http_response_buffer_size s
     \<and> named_copy ''http.response.max_body_size'' s_http_response_max_body_size s
     \<and> named_copy ''tcp.connect.timeout'' s_connect_timeout s \<and> known_settings s"

lemma nothing_known [simp]: "plain g (new_Config w)" "known_settings (new_Config w)" "cf_datas (new_Config w) = Map.empty"
  by (simp_all add: plain_def known_settings_def new_Config_def)

lemma hook_named:
  assumes "cf_datas s ''tcp.connect.timeout'' = None" and "plain s_connect_timeout s" and "hook_unit s = Some t"
  shows "extends (kept_by put_connect_timeout) s t \<and> named_copy ''tcp.connect.timeout'' s_connect_timeout t
    \<and> cf_datas t = (cf_datas s)(''tcp.connect.timeout'' \<mapsto> length (cf_vars s))"
proof -
  from hook_unit_follows [OF assms(1,2)] assms(3) have f: "extends (kept_by put_connect_timeout) s t"
    "follows put_connect_timeout s_connect_timeout (length (cf_vars s)) t" "cf_datas t = (cf_datas s)(''tcp.connect.timeout'' \<mapsto> length (cf_vars s))"
    by auto
  then show ?thesis unfolding named_copy_def by (intro conjI exI [of _ put_connect_timeout] exI [of _ "length (cf_vars s)"]) simp_all
qed

lemma http_named:
  assumes "\<forall>n\<in>{''http.request.buffer_size'', ''http.request.max_body_size'', ''http.response.buffer_size'', ''http.response.max_body_size''}. cf_datas s n = None"
    and "\<And>g. g \<in> {s_http_request_buffer_size, s_http_request_max_body_size, s_http_response_buffer_size, s_http_response_max_body_size} \<Longrightarrow> plain g s"
    and "http_unit s = Some t"
  shows "extends (kept_by put_request_buffer \<inter> kept_by put_request_body \<inter> kept_by put_response_buffer \<inter> kept_by put_response_body) s t
    \<and> named_copy ''http.request.buffer_size'' s_http_request_buffer_size t \<and> named_copy ''http.request.max_body_size'' s_http_request_max_body_size t
    \<and> named_copy ''http.response.buffer_size'' s_http_response_buffer_size t \<and> named_copy ''http.response.max_body_size'' s_http_response_max_body_size t
    \<and> (\<forall>n. n \<notin> {''http.request.buffer_size'', ''http.request.max_body_size'', ''http.response.buffer_size'', ''http.response.max_body_size''} \<longrightarrow> cf_datas t n = cf_datas s n)"
proof -
  let ?n = "length (cf_vars s)"
  from http_unit_follows [OF _ _ _ _ assms(2) refl] assms(1,3) have f:
    "extends (kept_by put_request_buffer \<inter> kept_by put_request_body \<inter> kept_by put_response_buffer \<inter> kept_by put_response_body) s t"
    "follows put_request_buffer s_http_request_buffer_size ?n t" "follows put_request_body s_http_request_max_body_size (?n + 1) t"
    "follows put_response_buffer s_http_response_buffer_size (?n + 1 + 1) t" "follows put_response_body s_http_response_max_body_size (?n + 1 + 1 + 1) t"
    and d: "cf_datas t = (cf_datas s)(''http.request.buffer_size'' \<mapsto> ?n, ''http.request.max_body_size'' \<mapsto> ?n + 1,
      ''http.response.buffer_size'' \<mapsto> ?n + 1 + 1, ''http.response.max_body_size'' \<mapsto> ?n + 1 + 1 + 1)"
    by auto
  have n: "named_copy m g t" if "follows put g i t" "cf_datas t m = Some i" "\<And>v w. g (put v w) = v" for m g put i
    using that unfolding named_copy_def by blast
  have "named_copy ''http.request.buffer_size'' s_http_request_buffer_size t" by (rule n [OF f(2)]) (simp_all add: d)
  moreover have "named_copy ''http.request.max_body_size'' s_http_request_max_body_size t" by (rule n [OF f(3)]) (simp_all add: d)
  moreover have "named_copy ''http.response.buffer_size'' s_http_response_buffer_size t" by (rule n [OF f(4)]) (simp_all add: d)
  moreover have "named_copy ''http.response.max_body_size'' s_http_response_max_body_size t" by (rule n [OF f(5)]) (simp_all add: d)
  ultimately show ?thesis using f(1) d by simp
qed

lemma started_copies:
  assumes "started s"
  shows "all_copies s"
  using assms unfolding started_def
proof
  assume "Option.bind (http_unit (new_Config new_statics)) hook_unit = Some s"
  then obtain m where m: "http_unit (new_Config new_statics) = Some m" "hook_unit m = Some s" by (auto simp: bind_eq_Some_conv)
  note h = http_named [OF _ _ m(1)]
  have p: "plain s_connect_timeout m" "known_settings m" "cf_datas m ''tcp.connect.timeout'' = None" using h by (auto simp: extends_def)
  note k = hook_named [OF p(3,1) m(2)]
  have "known_settings s" using k p(2) by (simp add: extends_def)
  then show ?thesis using h k named_extends [OF _ conjunct1 [OF k]] by (simp add: all_copies_def)
next
  assume "Option.bind (hook_unit (new_Config new_statics)) http_unit = Some s"
  then obtain m where m: "hook_unit (new_Config new_statics) = Some m" "http_unit m = Some s" by (auto simp: bind_eq_Some_conv)
  note k = hook_named [OF _ _ m(1)]
  have p: "plain g m" if "g \<in> kept_by put_connect_timeout" for g using k that by (simp add: extends_def)
  have "known_settings m" using k by (simp add: extends_def)
  have h: "extends (kept_by put_request_buffer \<inter> kept_by put_request_body \<inter> kept_by put_response_buffer \<inter> kept_by put_response_body) m s
    \<and> named_copy ''http.request.buffer_size'' s_http_request_buffer_size s \<and> named_copy ''http.request.max_body_size'' s_http_request_max_body_size s
    \<and> named_copy ''http.response.buffer_size'' s_http_response_buffer_size s \<and> named_copy ''http.response.max_body_size'' s_http_response_max_body_size s"
  proof -
    have "plain g m" if "g \<in> {s_http_request_buffer_size, s_http_request_max_body_size, s_http_response_buffer_size, s_http_response_max_body_size}" for g
      using that p by auto
    moreover have "\<forall>n\<in>{''http.request.buffer_size'', ''http.request.max_body_size'', ''http.response.buffer_size'', ''http.response.max_body_size''}. cf_datas m n = None"
      using k by simp
    ultimately show ?thesis using http_named [OF _ _ m(2)] by blast
  qed
  then show ?thesis using k \<open>known_settings m\<close> named_extends [OF _ conjunct1 [OF h]] by (simp add: all_copies_def extends_def)
qed

lemma setValue_datas [simp]: "cf_datas (snd (setValue j v s)) = cf_datas s"
  by (simp add: setValue_def upd_var_def Let_def split: prod.split)

lemma load_nodes_datas: "cf_datas (fold (load_node y c) ns s) = cf_datas s"
proof (induction ns arbitrary: s)
  case (Cons n ns)
  have "cf_datas (load_node y c n s) = cf_datas s" by (simp add: load_node_def fromString_def split: option.split)
  then show ?case using Cons by simp
qed simp

lemma document_datas: "LoadFromYaml y c root s = Some t \<Longrightarrow> cf_datas t = cf_datas s"
  by (auto simp: LoadFromYaml_def load_nodes_datas)

lemma settings_step_datas: "settings_step y c s t \<Longrightarrow> cf_datas t = cf_datas s"
proof (induction rule: settings_step.induct)
  case (conf_file mtime LoadFile force f s t)
  then show ?case by (auto simp: load_file_def Let_def dest!: document_datas split: if_splits option.splits)
qed (auto simp: fromString_def document_datas split: option.split)

lemma steps_named:
  assumes "(settings_step y c)\<^sup>*\<^sup>* s t" and "named_copy name g s" and "known_settings s"
  shows "named_copy name g t"
proof -
  obtain put i where p: "\<And>v w. g (put v w) = v" "cf_datas s name = Some i" "follows put g i s" using assms(2) by (auto simp: named_copy_def)
  have "cf_datas t = cf_datas s" using assms(1) by induction (simp_all add: settings_step_datas)
  then show ?thesis using p settings_steps_follow [OF assms(1) p(3) assms(3) p(1)] unfolding named_copy_def by metis
qed

lemma named_value: "named_copy name g s \<Longrightarrow> \<exists>i. LookupBase name s = Some i \<and> g (cf_world s) = as_u64 (getValue i s)"
  by (auto simp: named_copy_def follows_def LookupBase_def)

text \<open>
  Property C18. After the static initialisers of the HTTP parser and of the hooks, in either order, and after any number of changes
  by \<open>setValue\<close>, from texts, documents and files, each static copy of a setting has the value that the setting has.
\<close>

theorem copies_follow_settings:
  assumes "started s" and "(settings_step y c)\<^sup>*\<^sup>* s t"
  shows "\<exists>a b d e f.
      LookupBase ''http.request.buffer_size'' t = Some a \<and> GetHttpRequestBufferSize (cf_world t) = as_u64 (getValue a t)
    \<and> LookupBase ''http.request.max_body_size'' t = Some b \<and> GetHttpRequestMaxBodySize (cf_world t) = as_u64 (getValue b t)
    \<and> LookupBase ''http.response.buffer_size'' t = Some d \<and> GetHttpResponseBufferSize (cf_world t) = as_u64 (getValue d t)
    \<and> LookupBase ''http.response.max_body_size'' t = Some e \<and> GetHttpResponseMaxBodySize (cf_world t) = as_u64 (getValue e t)
    \<and> LookupBase ''tcp.connect.timeout'' t = Some f \<and> s_connect_timeout (cf_world t) = as_u64 (getValue f t)"
proof -
  have a: "all_copies s" by (rule started_copies [OF assms(1)])
  note steps = named_value [OF steps_named [OF assms(2)]]
  show ?thesis
    unfolding GetHttpRequestBufferSize_def GetHttpRequestMaxBodySize_def GetHttpResponseBufferSize_def GetHttpResponseMaxBodySize_def
    using a steps [of "''http.request.buffer_size''"] steps [of "''http.request.max_body_size''"] steps [of "''http.response.buffer_size''"]
      steps [of "''http.response.max_body_size''"] steps [of "''tcp.connect.timeout''"]
    unfolding all_copies_def by blast
qed

lemma start_exists: "\<exists>s. Option.bind (http_unit (new_Config new_statics)) hook_unit = Some s"
proof -
  obtain m where m: "http_unit (new_Config new_statics) = Some m" using http_unit_follows [of "new_Config new_statics"] by auto
  note h = http_named [OF _ _ m]
  have "plain s_connect_timeout m" "cf_datas m ''tcp.connect.timeout'' = None" using h by (auto simp: extends_def)
  then show ?thesis using m hook_unit_follows [of m] by auto
qed

lemma follows_set: "follows put g i s \<Longrightarrow> getValue i (snd (setValue i v s)) = v"
  by (auto simp: follows_def setValue_def copy_listener_def upd_var_def getValue_def Let_def)

text \<open>The program starts, and a change of the connect timeout to -1, which stands for no timeout, reaches the copy.\<close>

theorem copies_follow_settings_witness:
  "\<exists>s f. Option.bind (http_unit (new_Config new_statics)) hook_unit = Some s \<and> LookupBase ''tcp.connect.timeout'' s = Some f
     \<and> s_connect_timeout (cf_world (snd (setValue f (Val_int (- 1)) s))) = - 1"
proof -
  obtain s where s: "Option.bind (http_unit (new_Config new_statics)) hook_unit = Some s" using start_exists by blast
  then have st: "started s" by (simp add: started_def)
  obtain put f where f: "cf_datas s ''tcp.connect.timeout'' = Some f" "follows put s_connect_timeout f s"
    using started_copies [OF st] by (auto simp: all_copies_def named_copy_def)
  let ?t = "snd (setValue f (Val_int (- 1)) s)"
  have "f < length (cf_vars s)" using f(2) by (simp add: follows_def)
  then have "(settings_step doc_yaml \<lparr>FromStr = \<lambda>ty t. None, ToStr = \<lambda>ty v. None\<rparr>)\<^sup>*\<^sup>* s ?t"
    by (intro r_into_rtranclp settings_step.set_value)
  from copies_follow_settings [OF st this] have "s_connect_timeout (cf_world ?t) = as_u64 (getValue f ?t)"
    using f(1) by (auto simp: LookupBase_def)
  moreover have "as_u64 (getValue f ?t) = - 1" unfolding follows_set [OF f(2)] by simp
  ultimately show ?thesis using s f(1) by (auto simp: LookupBase_def)
qed

end
