(* ===== verification/SystemText.thy ===== *)
theory SystemText
  imports Text "HOL-Library.Signed_Division"
begin

text \<open>
  The functions of src/hiper/base/util.cc that wrap calls of the C library: clocks, thread names, times as text, backtraces, printf and wide
  characters. The answers of the library are arguments. The lemmas show what a backtrace leaves out and what the conversions of wide
  characters give and leave behind.
\<close>

section \<open>Clocks and names\<close>

text \<open>\<^verbatim>\<open>GetElapsedMS\<close> on the answer of the monotonic clock, in 64-bit arithmetic.\<close>

definition GetElapsedMS :: "64 word \<Rightarrow> 64 word \<Rightarrow> u64" where
  "GetElapsedMS tv_sec tv_nsec = tv_sec * 1000 + word_of_int (sint tv_nsec sdiv 1000000)"

text \<open>The name of a thread as the kernel keeps it; the buffer holds 16 bytes with their terminator.\<close>

definition SetThreadName :: "string \<Rightarrow> string" where "SetThreadName name = take 15 name"

definition GetThreadName :: "string \<Rightarrow> string" where "GetThreadName name = takeWhile (\<lambda>c. c \<noteq> CHR 0x00) (take 15 name)"

text \<open>
  Times as text: \<open>strftime\<close> gives the formatted time; the buffer of 64 bytes is left as it is, with the content
  \<open>junk\<close>, when it does not fit with its terminator. \<open>strptime\<close> gives the broken-down time or fails.
\<close>

definition Time2Str :: "(string \<Rightarrow> 'tm \<Rightarrow> string) \<Rightarrow> ('t \<Rightarrow> 'tm) \<Rightarrow> string \<Rightarrow> 't \<Rightarrow> string \<Rightarrow> string" where
  "Time2Str strftime localtime junk ts format = (let s = strftime format (localtime ts) in if length s < 64 then s else junk)"

definition Str2Time :: "(string \<Rightarrow> string \<Rightarrow> 'tm option) \<Rightarrow> ('tm \<Rightarrow> int) \<Rightarrow> string \<Rightarrow> string \<Rightarrow> int" where
  "Str2Time strptime mktime str format = (case strptime str format of None \<Rightarrow> 0 | Some t \<Rightarrow> mktime t)"

section \<open>Backtraces\<close>

text \<open>
  \<open>symbols\<close> is the answer of \<^verbatim>\<open>backtrace_symbols\<close>, \<open>None\<close> for a null pointer. \<open>skip\<close> becomes a
  \<^verbatim>\<open>size_t\<close>: the frames from it on are appended.
\<close>

definition Backtrace :: "string list option \<Rightarrow> 32 word \<Rightarrow> string list \<Rightarrow> string list" where
  "Backtrace symbols skip bt = (case symbols of
     None \<Rightarrow> bt
   | Some strings \<Rightarrow> bt @ map (\<lambda>i. strings ! i) [unat (scast skip :: u64)..<length strings])"

definition BacktraceToString :: "string list option \<Rightarrow> 32 word \<Rightarrow> string \<Rightarrow> string" where
  "BacktraceToString symbols skip prefix = concat (map (\<lambda>l. prefix @ l @ [CHR 0x0A]) (Backtrace symbols skip []))"

text \<open>\<^verbatim>\<open>Formatv\<close> on the answer of \<^verbatim>\<open>vasprintf\<close>, \<open>None\<close> for -1.\<close>

definition Formatv :: "string option \<Rightarrow> string" where
  "Formatv answer = (case answer of None \<Rightarrow> [] | Some buf \<Rightarrow> buf)"

section \<open>Wide characters\<close>

text \<open>
  The conversions run in the locale of the environment: \<^verbatim>\<open>setlocale\<close> returns the name of the locale it has set. \<open>conv\<close>
  is \<^verbatim>\<open>wcstombs\<close> or \<^verbatim>\<open>mbstowcs\<close> under a locale, \<open>None\<close> for -1: the buffer then has length 0 and is read
  behind its end, which is the result \<open>None\<close>. The result ends at the first terminator. The second component is the locale left.
\<close>

definition setlocale_env :: "'l \<Rightarrow> 'l \<Rightarrow> 'l \<times> 'l" where
  "setlocale_env env cur = (env, env)"

definition convert_text :: "('l \<Rightarrow> 'a list \<Rightarrow> 'b list option) \<Rightarrow> ('b \<Rightarrow> bool) \<Rightarrow> 'l \<Rightarrow> 'l \<Rightarrow> 'a list \<Rightarrow> 'b list option \<times> 'l" where
  "convert_text conv is_end env cur s =
     (case setlocale_env env cur of (str_locale, cur1) \<Rightarrow>
        (case conv cur1 s of None \<Rightarrow> None | Some dest \<Rightarrow> Some (takeWhile (\<lambda>c. \<not> is_end c) dest), str_locale))"

definition WStringToString :: "('l \<Rightarrow> int list \<Rightarrow> string option) \<Rightarrow> 'l \<Rightarrow> 'l \<Rightarrow> int list \<Rightarrow> string option \<times> 'l" where
  "WStringToString wcstombs env cur ws = convert_text wcstombs (\<lambda>c. c = CHR 0x00) env cur ws"

definition StringToWString :: "('l \<Rightarrow> string \<Rightarrow> int list option) \<Rightarrow> 'l \<Rightarrow> 'l \<Rightarrow> string \<Rightarrow> int list option \<times> 'l" where
  "StringToWString mbstowcs env cur s = convert_text mbstowcs (\<lambda>c. c = 0) env cur s"

text \<open>A conversion and its inverse under the locale of the environment; both leave that locale set, whatever was set before.\<close>

lemma wide_roundtrip:
  assumes "mbstowcs env s = Some ws" and "wcstombs env ws = Some s" and "0 \<notin> set ws" and "CHR 0x00 \<notin> set s"
  shows "StringToWString mbstowcs env cur s = (Some ws, env) \<and> WStringToString wcstombs env cur ws = (Some s, env)"
proof -
  have "takeWhile (\<lambda>c. c \<noteq> 0) ws = ws" "takeWhile (\<lambda>c. c \<noteq> CHR 0x00) s = s" using assms(3,4) by (auto simp: takeWhile_eq_all_conv)
  then show ?thesis using assms(1,2) by (simp add: StringToWString_def WStringToString_def convert_text_def setlocale_env_def)
qed

lemma backtrace_skip:
  assumes "0 \<le> sint skip"
  shows "Backtrace (Some strings) skip bt = bt @ drop (nat (sint skip)) strings"
proof -
  have "uint (scast skip :: u64) = take_bit 64 (sint skip)" by transfer simp
  also have "\<dots> = sint skip" using assms sint_lt [of skip] by (simp add: take_bit_int_eq_self)
  finally have "nat (uint (scast skip :: u64)) = nat (sint skip)" by (rule arg_cong)
  then have "unat (scast skip :: u64) = nat (sint skip)" by (simp only: nat_uint_eq)
  moreover have "map (\<lambda>i. strings ! i) [n..<length strings] = drop n strings" for n by (rule nth_equalityI) simp_all
  ultimately show ?thesis by (simp add: Backtrace_def)
qed

end
