(* ===== verification/Threads.thy ===== *)
theory Threads
  imports Locks
begin

text \<open>
  Threads: src/hiper/base/thread.cc and thread.h. The constructor and run() are steps that interleave, one statement each, and
  meet at the semaphore of Locks; the thread-local variables, the names, join and the destructor are definitions beside them.
  The answers of pthread_create, pthread_join, gettid and sem_wait are arguments. The lemmas show what a constructed thread
  looks like and that the two sides always finish.
\<close>

text \<open>The fields of a \<^verbatim>\<open>Thread\<close>; a handle of 0 is no thread. The callbacks are of any type.\<close>

record 'c thread_obj =
  th_id :: int
  th_handle :: nat
  th_name :: string
  th_cb :: "'c option"
  th_sem :: nat

text \<open>The variables of one operating-system thread: \<^verbatim>\<open>g_cur_thread\<close>, \<^verbatim>\<open>g_cur_thread_name\<close> and the name the kernel shows.\<close>

record thread_locals =
  tl_cur :: "nat option"
  tl_name :: string
  tl_kernel :: string

definition new_locals :: "string \<Rightarrow> thread_locals" where
  "new_locals process = \<lparr>tl_cur = None, tl_name = ''unnamed'', tl_kernel = process\<rparr>"

definition Thread_GetThis :: "string \<Rightarrow> thread_locals \<Rightarrow> nat option" where
  "Thread_GetThis name l = tl_cur l"

definition Thread_GetName :: "thread_locals \<Rightarrow> string" where
  "Thread_GetName l = tl_name l"

definition Thread_getId :: "'c thread_obj \<Rightarrow> int" where
  "Thread_getId t = th_id t"

definition Thread_getName :: "'c thread_obj \<Rightarrow> thread_locals \<Rightarrow> string" where
  "Thread_getName t l = tl_name l"

definition Thread_SetName :: "string \<Rightarrow> thread_locals \<Rightarrow> (nat \<Rightarrow> 'c thread_obj) \<Rightarrow> thread_locals \<times> (nat \<Rightarrow> 'c thread_obj)" where
  "Thread_SetName name l heap =
     (l\<lparr>tl_name := name, tl_kernel := take 15 name\<rparr>,
      case tl_cur l of None \<Rightarrow> heap | Some a \<Rightarrow> heap(a := (heap a)\<lparr>th_name := name\<rparr>))"

definition Thread_join :: "int \<Rightarrow> 'c thread_obj \<Rightarrow> string + 'c thread_obj" where
  "Thread_join r t =
     (if th_handle t \<noteq> 0 then if r \<noteq> 0 then Inl ''pthread_join error'' else Inr (t\<lparr>th_handle := 0\<rparr>) else Inr t)"

text \<open>The destructor says whether it detaches the thread.\<close>

definition Thread_destroy :: "'c thread_obj \<Rightarrow> bool" where
  "Thread_destroy t \<longleftrightarrow> th_handle t \<noteq> 0"

text \<open>
  The constructor in one thread and \<^verbatim>\<open>run\<close> in the thread it creates. Each step is one statement. The object lies at
  the address \<open>tw_self\<close>; the answers of \<^verbatim>\<open>pthread_create\<close>, \<^verbatim>\<open>gettid\<close> and of the semaphore are arguments.
\<close>

datatype creator_phase = Creating | Waiting | Constructed | Thrown string
datatype 'c runner_phase = Not_started | Set_this | Set_local_name | Set_kernel_name | Set_id | Swap_cb | Notify 'c | Call 'c | Ended

record 'c thread_world =
  tw_obj :: "'c thread_obj"
  tw_self :: nat
  tw_creator :: creator_phase
  tw_runner :: "'c runner_phase"
  tw_local :: thread_locals
  tw_called :: "'c list"

definition new_Thread :: "nat \<Rightarrow> string \<Rightarrow> 'c \<Rightarrow> string \<Rightarrow> 'c thread_world" where
  "new_Thread self process cb name =
     \<lparr>tw_obj = \<lparr>th_id = - 1, th_handle = 0, th_name = (if name = [] then ''unnamed'' else name), th_cb = Some cb, th_sem = 0\<rparr>,
      tw_self = self, tw_creator = Creating, tw_runner = Not_started, tw_local = new_locals process, tw_called = []\<rparr>"

definition thread_create :: "int \<Rightarrow> nat \<Rightarrow> 'c thread_world \<Rightarrow> 'c thread_world" where
  "thread_create r h w =
     (if r \<noteq> 0 then w\<lparr>tw_creator := Thrown ''pthread_create error''\<rparr>
      else w\<lparr>tw_obj := (tw_obj w)\<lparr>th_handle := h\<rparr>, tw_creator := Waiting, tw_runner := Set_this\<rparr>)"

definition thread_wait :: "int \<Rightarrow> 'c thread_world \<Rightarrow> 'c thread_world" where
  "thread_wait r w = (case Semaphore_wait r (th_sem (tw_obj w)) of
     Inl e \<Rightarrow> w\<lparr>tw_creator := Thrown e\<rparr>
   | Inr n \<Rightarrow> w\<lparr>tw_obj := (tw_obj w)\<lparr>th_sem := n\<rparr>, tw_creator := Constructed\<rparr>)"

definition thread_run :: "int \<Rightarrow> 'c thread_world \<Rightarrow> 'c thread_world option" where
  "thread_run tid w = (case tw_runner w of
     Set_this \<Rightarrow> Some (w\<lparr>tw_local := (tw_local w)\<lparr>tl_cur := Some (tw_self w)\<rparr>, tw_runner := Set_local_name\<rparr>)
   | Set_local_name \<Rightarrow> Some (w\<lparr>tw_local := (tw_local w)\<lparr>tl_name := th_name (tw_obj w)\<rparr>, tw_runner := Set_kernel_name\<rparr>)
   | Set_kernel_name \<Rightarrow> Some (w\<lparr>tw_local := (tw_local w)\<lparr>tl_kernel := take 15 (tl_name (tw_local w))\<rparr>, tw_runner := Set_id\<rparr>)
   | Set_id \<Rightarrow> Some (w\<lparr>tw_obj := (tw_obj w)\<lparr>th_id := tid\<rparr>, tw_runner := Swap_cb\<rparr>)
   | Swap_cb \<Rightarrow> (case th_cb (tw_obj w) of None \<Rightarrow> None
       | Some cb \<Rightarrow> Some (w\<lparr>tw_obj := (tw_obj w)\<lparr>th_cb := None\<rparr>, tw_runner := Notify cb\<rparr>))
   | Notify cb \<Rightarrow> (case Semaphore_notify 0 (th_sem (tw_obj w)) of Inl e \<Rightarrow> None
       | Inr n \<Rightarrow> Some (w\<lparr>tw_obj := (tw_obj w)\<lparr>th_sem := n\<rparr>, tw_runner := Call cb\<rparr>))
   | Call cb \<Rightarrow> Some (w\<lparr>tw_called := tw_called w @ [cb], tw_runner := Ended\<rparr>)
   | _ \<Rightarrow> None)"

inductive thread_step :: "int \<Rightarrow> 'c thread_world \<Rightarrow> 'c thread_world \<Rightarrow> bool" for tid where
  create: "tw_creator w = Creating \<Longrightarrow> h \<noteq> 0 \<Longrightarrow> thread_step tid w (thread_create r h w)"
| wait: "tw_creator w = Waiting \<Longrightarrow> wait_answers (th_sem (tw_obj w)) r \<Longrightarrow> thread_step tid w (thread_wait r w)"
| run: "thread_run tid w = Some w' \<Longrightarrow> thread_step tid w w'"

lemma joined_thread:
  assumes "Thread_join r t = Inr t'"
  shows "\<not> Thread_destroy t' \<and> Thread_join r' t' = Inr t'"
  using assms by (auto simp: Thread_join_def Thread_destroy_def split: if_splits)

text \<open>How far \<^verbatim>\<open>run\<close> has got, and what holds there.\<close>

primrec run_progress :: "'c runner_phase \<Rightarrow> nat" where
  "run_progress Not_started = 0" | "run_progress Set_this = 1" | "run_progress Set_local_name = 2" | "run_progress Set_kernel_name = 3"
| "run_progress Set_id = 4" | "run_progress Swap_cb = 5" | "run_progress (Notify cb) = 6" | "run_progress (Call cb) = 7" | "run_progress Ended = 8"

definition thread_inv :: "int \<Rightarrow> nat \<Rightarrow> string \<Rightarrow> 'c \<Rightarrow> string \<Rightarrow> 'c thread_world \<Rightarrow> bool" where
  "thread_inv tid self process cb name w \<longleftrightarrow>
     (let k = run_progress (tw_runner w); t = tw_obj w; l = tw_local w; nm = (if name = [] then ''unnamed'' else name)
      in (k = 0 \<longleftrightarrow> tw_creator w = Creating \<or> tw_creator w = Thrown ''pthread_create error'') \<and> tw_self w = self \<and> th_name t = nm
       \<and> (th_handle t = 0 \<longleftrightarrow> k = 0) \<and> th_id t = (if 4 < k then tid else - 1) \<and> th_cb t = (if 5 < k then None else Some cb)
       \<and> (case tw_runner w of Notify c \<Rightarrow> c = cb | Call c \<Rightarrow> c = cb | _ \<Rightarrow> True)
       \<and> th_sem t = (if 6 < k \<and> tw_creator w \<noteq> Constructed then 1 else 0) \<and> (tw_creator w = Constructed \<longrightarrow> 6 < k)
       \<and> l = \<lparr>tl_cur = (if 1 < k then Some self else None), tl_name = (if 2 < k then nm else ''unnamed''),
              tl_kernel = (if 3 < k then take 15 nm else process)\<rparr>
       \<and> tw_called w = (if k = 8 then [cb] else []))"

lemma thread_inv_start: "thread_inv tid self process cb name (new_Thread self process cb name)"
  by (simp add: thread_inv_def new_Thread_def new_locals_def Let_def)

lemma thread_inv_create:
  assumes "thread_inv tid self process cb name w" and "tw_creator w = Creating" and "h \<noteq> 0"
  shows "thread_inv tid self process cb name (thread_create r h w)"
proof -
  have "tw_runner w = Not_started" using assms(1,2) by (cases "tw_runner w") (simp_all add: thread_inv_def Let_def)
  then show ?thesis using assms by (simp add: thread_inv_def thread_create_def Let_def)
qed

lemma thread_inv_wait:
  assumes "thread_inv tid self process cb name w" and "tw_creator w = Waiting" and "wait_answers (th_sem (tw_obj w)) r"
  shows "thread_inv tid self process cb name (thread_wait r w)"
proof (cases "r = 0")
  case True
  then have "6 < run_progress (tw_runner w)" using assms by (simp add: thread_inv_def wait_answers_def Let_def split: if_splits)
  then show ?thesis using assms True by (simp add: thread_inv_def thread_wait_def Semaphore_wait_def Let_def)
next
  case False
  then show ?thesis using assms by (simp add: thread_inv_def thread_wait_def Semaphore_wait_def Let_def)
qed

lemma thread_inv_run:
  assumes "thread_inv tid self process cb name w" and "thread_run tid w = Some w'"
  shows "thread_inv tid self process cb name w'"
  using assms(2)
proof (cases "tw_runner w")
  case Set_this
  have "w' = w\<lparr>tw_local := (tw_local w)\<lparr>tl_cur := Some (tw_self w)\<rparr>, tw_runner := Set_local_name\<rparr>"
    using assms Set_this by (simp add: thread_inv_def thread_run_def Semaphore_notify_def Let_def)
  then show ?thesis using assms(1) Set_this by (simp add: thread_inv_def Let_def)
next
  case Set_local_name
  have "w' = w\<lparr>tw_local := (tw_local w)\<lparr>tl_name := th_name (tw_obj w)\<rparr>, tw_runner := Set_kernel_name\<rparr>"
    using assms Set_local_name by (simp add: thread_inv_def thread_run_def Semaphore_notify_def Let_def)
  then show ?thesis using assms(1) Set_local_name by (simp add: thread_inv_def Let_def)
next
  case Set_kernel_name
  have "w' = w\<lparr>tw_local := (tw_local w)\<lparr>tl_kernel := take 15 (tl_name (tw_local w))\<rparr>, tw_runner := Set_id\<rparr>"
    using assms Set_kernel_name by (simp add: thread_inv_def thread_run_def Semaphore_notify_def Let_def)
  then show ?thesis using assms(1) Set_kernel_name by (simp add: thread_inv_def Let_def)
next
  case Set_id
  have "w' = w\<lparr>tw_obj := (tw_obj w)\<lparr>th_id := tid\<rparr>, tw_runner := Swap_cb\<rparr>"
    using assms Set_id by (simp add: thread_inv_def thread_run_def Semaphore_notify_def Let_def)
  then show ?thesis using assms(1) Set_id by (simp add: thread_inv_def Let_def)
next
  case Swap_cb
  have "w' = w\<lparr>tw_obj := (tw_obj w)\<lparr>th_cb := None\<rparr>, tw_runner := Notify cb\<rparr>"
    using assms Swap_cb by (simp add: thread_inv_def thread_run_def Semaphore_notify_def Let_def)
  then show ?thesis using assms(1) Swap_cb by (simp add: thread_inv_def Let_def)
next
  case (Notify c)
  have "w' = w\<lparr>tw_obj := (tw_obj w)\<lparr>th_sem := th_sem (tw_obj w) + 1\<rparr>, tw_runner := Call c\<rparr>"
    using assms Notify by (simp add: thread_inv_def thread_run_def Semaphore_notify_def Let_def)
  then show ?thesis using assms(1) Notify by (simp add: thread_inv_def Let_def)
next
  case (Call c)
  have "w' = w\<lparr>tw_called := tw_called w @ [c], tw_runner := Ended\<rparr>"
    using assms Call by (simp add: thread_inv_def thread_run_def Semaphore_notify_def Let_def)
  then show ?thesis using assms(1) Call by (simp add: thread_inv_def Let_def)
qed (simp_all add: thread_run_def)

lemma thread_inv_reach:
  assumes "(thread_step tid)\<^sup>*\<^sup>* (new_Thread self process cb name) w"
  shows "thread_inv tid self process cb name w"
  using assms
proof induction
  case (step v u)
  from step(2) show ?case by cases (use step(3) in \<open>auto intro: thread_inv_create thread_inv_wait thread_inv_run\<close>)
qed (rule thread_inv_start)

text \<open>
  Property C19. In every interleaving of a constructor with the thread it creates: when the constructor has returned, the
  thread has its id, its handle, its name and its own copy of the callback; the callback is called at most once, and only by
  a thread that knows itself; and the two never wait for each other: until the callback has been called and the constructor
  is over, one of them can make a step.
\<close>

theorem thread_ready:
  assumes "(thread_step tid)\<^sup>*\<^sup>* (new_Thread self process cb name) w"
  shows "(tw_creator w = Constructed \<longrightarrow> Thread_getId (tw_obj w) = tid \<and> th_handle (tw_obj w) \<noteq> 0 \<and> th_cb (tw_obj w) = None
      \<and> Thread_GetThis n (tw_local w) = Some self \<and> Thread_GetName (tw_local w) = (if name = [] then ''unnamed'' else name) \<and> th_sem (tw_obj w) = 0)
    \<and> tw_called w = (if tw_runner w = Ended then [cb] else [])
    \<and> ((\<exists>w'. thread_step tid w w' \<and> w' \<noteq> w \<and> (\<forall>e. tw_creator w' = Thrown e \<longrightarrow> tw_creator w = Thrown e))
      \<or> tw_creator w = Thrown ''pthread_create error'' \<or> tw_runner w = Ended \<and> tw_creator w \<noteq> Waiting)"
proof -
  have inv: "thread_inv tid self process cb name w" by (rule thread_inv_reach [OF assms])
  have phases: "tw_creator w = Constructed \<Longrightarrow> 6 < run_progress (tw_runner w)" "tw_runner w = Ended \<Longrightarrow> tw_creator w = Waiting \<Longrightarrow> th_sem (tw_obj w) = 1"
    "tw_runner w = Not_started \<longleftrightarrow> tw_creator w = Creating \<or> tw_creator w = Thrown ''pthread_create error''"
    using inv by (cases "tw_runner w"; simp add: thread_inv_def Let_def)+
  have called: "tw_called w = (if tw_runner w = Ended then [cb] else [])"
    using inv by (cases "tw_runner w") (simp_all add: thread_inv_def Let_def)
  have ready: "tw_creator w = Constructed \<longrightarrow> Thread_getId (tw_obj w) = tid \<and> th_handle (tw_obj w) \<noteq> 0 \<and> th_cb (tw_obj w) = None
      \<and> Thread_GetThis n (tw_local w) = Some self \<and> Thread_GetName (tw_local w) = (if name = [] then ''unnamed'' else name) \<and> th_sem (tw_obj w) = 0"
    using inv phases(1) by (auto simp: thread_inv_def Let_def Thread_getId_def Thread_GetThis_def Thread_GetName_def)
  let ?P = "\<lambda>w'. thread_step tid w w' \<and> w' \<noteq> w \<and> (\<forall>e. tw_creator w' = Thrown e \<longrightarrow> tw_creator w = Thrown e)"
  have "Ex ?P \<or> tw_creator w = Thrown ''pthread_create error'' \<or> tw_runner w = Ended \<and> tw_creator w \<noteq> Waiting"
  proof (cases "tw_runner w = Not_started")
    case True
    have "?P (thread_create 0 1 w)" if "tw_creator w = Creating"
      using that thread_step.create [where r = 0 and h = 1 and w = w and tid = tid] by (auto simp: thread_create_def dest: arg_cong [where f = tw_creator])
    then show ?thesis using True phases(3) by blast
  next
    case started: False
    show ?thesis
    proof (cases "tw_runner w = Ended")
      case True
      have "?P (thread_wait 0 w)" if "tw_creator w = Waiting"
        using that thread_step.wait [OF that, of 0] phases(2) [OF True that]
        by (auto simp: thread_wait_def Semaphore_wait_def wait_answers_def dest: arg_cong [where f = tw_creator])
      then show ?thesis using True by blast
    next
      case False
      obtain w' where w': "thread_run tid w = Some w'" using started False inv
        by (cases "tw_runner w") (simp_all add: thread_run_def Semaphore_notify_def, simp add: thread_inv_def Let_def)
      have "tw_runner w' \<noteq> tw_runner w \<and> tw_creator w' = tw_creator w" using w'
        by (cases "tw_runner w") (auto simp: thread_run_def Semaphore_notify_def split: option.splits)
      then have "?P w'" using thread_step.run [OF w'] by auto
      then show ?thesis by blast
    qed
  qed
  then show ?thesis using called ready by blast
qed

lemma run_once: "(thread_step tid)\<^sup>*\<^sup>* s w \<Longrightarrow> thread_run tid w = Some w' \<Longrightarrow> (thread_step tid)\<^sup>*\<^sup>* s w'"
  by (erule rtranclp.rtrancl_into_rtrancl) (rule thread_step.run)

primrec thread_runs :: "int \<Rightarrow> nat \<Rightarrow> 'c thread_world \<Rightarrow> 'c thread_world option" where
  "thread_runs tid 0 w = Some w"
| "thread_runs tid (Suc n) w = Option.bind (thread_run tid w) (thread_runs tid n)"

lemma run_many: "thread_runs tid n w = Some w' \<Longrightarrow> (thread_step tid)\<^sup>*\<^sup>* s w \<Longrightarrow> (thread_step tid)\<^sup>*\<^sup>* s w'"
  by (induction n arbitrary: w) (auto split: Option.bind_splits intro: run_once)

text \<open>A run of both threads to the end.\<close>

theorem thread_ready_witness:
  "\<exists>w. (thread_step 41)\<^sup>*\<^sup>* (new_Thread 7 ''hiper'' (1::nat) ''worker'') w \<and> tw_creator w = Constructed \<and> tw_runner w = Ended
    \<and> Thread_getId (tw_obj w) = 41 \<and> Thread_GetName (tw_local w) = ''worker'' \<and> tw_called w = [1]"
proof -
  let ?s = "new_Thread 7 ''hiper'' (1::nat) ''worker''"
  note simps = new_Thread_def thread_create_def thread_run_def Semaphore_notify_def eval_nat_numeral thread_wait_def Semaphore_wait_def
  have c: "(thread_step 41)\<^sup>*\<^sup>* ?s (thread_create 0 5 ?s)" by (rule r_into_rtranclp, rule thread_step.create) (simp_all add: new_Thread_def)
  obtain n where n: "thread_runs 41 6 (thread_create 0 5 ?s) = Some n" "th_sem (tw_obj n) = 1" "tw_creator n = Waiting" "tw_runner n = Call 1"
    by (simp add: simps)
  have w: "(thread_step 41)\<^sup>*\<^sup>* ?s (thread_wait 0 n)"
    by (rule rtranclp.rtrancl_into_rtrancl [OF run_many [OF n(1) c]], rule thread_step.wait [OF n(3)]) (simp add: n(2) wait_answers_def)
  obtain z where z: "thread_run 41 (thread_wait 0 n) = Some z" "tw_creator z = Constructed" "tw_runner z = Ended"
    using n by (simp add: thread_wait_def Semaphore_wait_def thread_run_def)
  have r: "(thread_step 41)\<^sup>*\<^sup>* ?s z" by (rule run_once [OF w z(1)])
  then show ?thesis using z thread_ready [OF r] by (intro exI [of _ z]) simp
qed

end
