(* ===== verification/Spec2Isabelle.thy ===== *)
theory Spec2Isabelle
  imports Address ByteArray ByteArrayBuffers ByteArrayCodec Byte_Store Config ConfigLog Endian Env FdManager Fiber FileUtil Hiper_Prelude Hook HookCalls Http HttpFields HttpInvariant HttpLines HttpMachine HttpNames HttpParser HttpRoundtrip HttpSession IOManager IOManagerLife LexicalCast Locks LogConfig LogFormat LogSystem LogYaml Ordered_Set Scheduler SchedulerSwitch Settings Socket SystemText TcpServer Text Threads Timer Timer_Source UrlParser
begin

text \<open>
  \<^bold>\<open>A verification development for hiper.\<close> hiper is a C++ framework for network servers: coroutines on a scheduler with an I/O
  loop, timers and hooked system calls; sockets, addresses and streams; byte arrays; HTTP messages with their parsers and
  sessions; and below these logging, configuration, the command line and file utilities. The theories are a shallow embedding of
  the sources under src/hiper. A class is a record, an enum a datatype, an integer of the machine a word, an exception or an
  assertion that fails an \<open>Inl\<close> or \<open>None\<close>, and every operation is a function from state to state; what runs
  concurrently is a step relation. All definitions compute.

  \<^bold>\<open>The parts and how they interact.\<close>
  \<^item> A server (\<open>TcpServer\<close>) binds sockets (\<open>Socket\<close>, \<open>Address\<close>) and accepts connections on them; a session
    (\<open>HttpSession\<close>) reads a connection through the socket stream of \<open>Socket\<close> into the request parser (\<open>HttpParser\<close> over
    the state machine \<open>HttpMachine\<close>), which fills a request (\<open>Http\<close>).
  \<^item> Every call on a socket goes through the hooks (\<open>Hook\<close>, \<open>HookCalls\<close>). They look the descriptor up (\<open>FdManager\<close>), and a call
    that would block is registered with the I/O manager (\<open>IOManager\<close>, \<open>IOManagerLife\<close>), with a timer (\<open>Timer\<close>) for its
    timeout; the fiber (\<open>Fiber\<close>) yields and the scheduler (\<open>Scheduler\<close>, \<open>SchedulerSwitch\<close>) runs others on its threads
    (\<open>Threads\<close>, \<open>Locks\<close>).
  \<^item> Settings (\<open>Config\<close>, over \<open>Env\<close> and \<open>FileUtil\<close>) are read from documents through the conversions of
    \<open>LexicalCast\<close> and \<open>LogYaml\<close>; their listeners set up the loggers (\<open>ConfigLog\<close>, \<open>LogConfig\<close>, \<open>LogSystem\<close>,
    \<open>LogFormat\<close>) and the sizes and timeouts of the parsers and hooks (\<open>Settings\<close>).

  \<^bold>\<open>Foundations.\<close>
  \<^item> \<open>Hiper_Prelude\<close>: words, results with errors (\<open>bindE\<close>), overwriting in byte lists.
  \<^item> \<open>Ordered_Set\<close>: std::set and std::map over a comparator; the locales \<open>strict_weak\<close> and \<open>strict_total\<close> state what the
    standard asks of one and are interpreted on the comparators of timers, header names and addresses.
  \<^item> \<open>Byte_Store\<close>: the locale of a store with a cursor, from which reading back what was written follows once for all codecs; interpreted
    by \<open>ByteArray\<close>. \<open>Timer_Source\<close>: what the I/O loop needs of a timer queue; interpreted by \<open>Timer\<close>.

  \<^bold>\<open>Data.\<close>
  \<^item> \<open>Endian\<close> (base/endian.hpp): byte orders. \<open>ByteArray\<close> (base/bytearray.cc, read, write, setPosition, addCapacity): the
    chain of blocks refines a byte list with a position. \<open>ByteArrayCodec\<close> (the read and write functions of every type, varints and
    zigzag): any sequence of typed fields, with no string empty or too long for its prefix, is read back as it was written. \<open>ByteArrayBuffers\<close> (files and iovec buffers).
  \<^item> \<open>Text\<close>, \<open>SystemText\<close> (base/util.cc): strings, paths, URL coding; clocks, names, backtraces, wide characters.
    \<open>FileUtil\<close> (FSUtil of the same file): listing, creating, removing and moving trees over the calls of the
    system; what Rm leaves and what Mkdir makes is given exactly, also when calls are refused on the way.
  \<^item> \<open>Address\<close> (base/address.cc): construction, comparison as a strict order, masks bit by bit, printing against a reference.

  \<^bold>\<open>Concurrency and I/O.\<close>
  \<^item> \<open>Locks\<close> (base/mutex.h, mutex.cc): the guards as the calls they make, the spin lock, the semaphore; the locales
    \<open>tracking_guard\<close> and \<open>exclusive_lock\<close>. Guarded blocks exclude each other and some thread can always go on; the explicit unlock
    in Scheduler::start breaks this. \<open>Threads\<close> (base/thread.cc): the constructor and run as interleaved statements.
  \<^item> \<open>Fiber\<close> (base/fiber.cc): states and context switches. \<open>Scheduler\<close> (base/scheduler.cc): the queue, and run as steps of any
    number of workers; no task is lost or run twice, stopping is quiescent, and one interleaving runs a fiber on two threads.
  \<^item> \<open>Timer\<close> (base/timer.cc): the ordered set of timers, all its operations and runs of them; a one-shot timer fires at most
    once, a cancelled one never, expiry takes exactly what is due.
  \<^item> \<open>IOManager\<close>, \<open>IOManagerLife\<close> (base/iomanager.cc): contexts, registered events and the kernel's interest list agree in every run;
    the wait is bounded by the next timer. \<open>FdManager\<close> (base/fdmanager.cc) refines a map. \<open>Hook\<close>, \<open>HookCalls\<close> (base/hook.cc):
    a call that would block waits when epoll accepts its event and fails at once when not; a wait is retried or times out; the flags a
    program sees change as on a plain descriptor.
  \<^item> \<open>Socket\<close> (base/socket.cc, base/stream.cc, streams/socket_stream.cc) and \<open>TcpServer\<close> (base/tcp_server.cc): no
    descriptor leaks when a bind fails; reads of a fixed size.

  \<^bold>\<open>HTTP.\<close>
  \<^item> \<open>Http\<close> (http/http.cc): methods, headers without case, parameters, cookies, printing. \<open>UrlParser\<close> and \<open>HttpMachine\<close>
    (http/http-parser/http_parser.cc): every state of the machine in the strict build; \<open>HttpInvariant\<close> shows that it always
    returns, never trips an assertion and consumes what it says. \<open>HttpParser\<close> (http/http_parser.cc): the callbacks.
    \<open>HttpNames\<close>: the tables of names and the errors that are logged.
  \<^item> \<open>HttpLines\<close>, \<open>HttpFields\<close> and \<open>HttpRoundtrip\<close> run the machine over the request line, the header lines and the body: a
    printed request is parsed back. \<open>HttpSession\<close> (http/http_session.cc): receiving a request from any stream that ends returns.

  \<^bold>\<open>Configuration and logging.\<close>
  \<^item> \<open>Env\<close> (base/env.cc): the command line is read back as it was given. \<open>Config\<close> (base/config.h, config.cc): typed variables with
    listeners, loading of documents and directories; types are kept, values are those of the document.
  \<^item> \<open>LogFormat\<close>, \<open>LogSystem\<close>, \<open>LogConfig\<close>, \<open>LogYaml\<close> (base/log.h, log.cc): patterns, loggers, appenders and the manager; an
    event goes exactly where the levels say, and a change of the setting configures the loggers whose definitions differ in level or
    pattern (a change of appenders alone is not seen). \<open>ConfigLog\<close> joins this to \<open>Config\<close>, from the text of a document through the
    program's conversion to the loggers, for the first load and for reloads.
  \<^item> \<open>LexicalCast\<close> (base/lexicalcast.h): conversions of containers, one locale for the insertion loops, interpreted on every container.
    \<open>Settings\<close>: the static copies of settings in http_parser.cc and hook.cc follow them in either order of initialisation.

  \<^bold>\<open>Kinds of lemmas.\<close> Each component has an invariant that its operations keep (\<open>ba_wf\<close>, \<open>tm_wf\<close>, \<open>sched_inv\<close>, \<open>io_wf\<close>,
  \<open>state_inv\<close>, \<open>config_ok\<close>, \<open>logs_ok\<close>, \<open>thread_inv\<close>), lemmas on what each operation does on each branch, and the properties. A property
  has a number, C1 to C40, and stands beside the theorem that proves it; a property with hypotheses is followed by its use
  on a concrete input.

  \<^bold>\<open>Loops and bounds.\<close> Loops over data are structural recursions. Varints end because the shift grows or the value shrinks (measures);
  \<open>scan_loop\<close> of the HTTP machine goes down with the rest of the data and the few re-executions of one character. Loops that need
  not end are partial functions with \<open>None\<close> for no result: \<open>recv_loop\<close> (returns on every stream that reports its end), \<open>rm_run\<close> and
  \<open>list_run\<close> (on finite trees), \<open>members_run\<close> (on finite documents), \<open>Logger_log\<close> (when roots do not form a cycle); each has a theorem that
  gives its result. The parser keeps the default limit of 80 KB for headers. The round trip of requests is for \<open>printable\<close> ones: no
  CONNECT, no websocket, a URL below 65536 characters (its lengths are 16-bit fields), plain header names, and that limit.

  \<^bold>\<open>What is a parameter.\<close> The system calls (epoll, sockets, files, clocks, pthread), the resolver, the allocator's addresses, yaml-cpp,
  boost::lexical_cast and strftime are arguments of the definitions that use them. Laws about them state their documented behaviour, and
  each has an instance:
  \<^item> \<open>ctl_law\<close>: an epoll_ctl that fails changes nothing. \<open>fd_laws\<close>: sockets are opened, bound and closed one at a time.
    \<open>recv_ok\<close>: a receive call gives the bytes of the stream in order.
  \<^item> \<open>setfl_law\<close>: F_SETFL changes just the flags that fcntl(2) lists, a failed call none, and adding O_NONBLOCK does not fail.
  \<^item> \<open>fs_laws\<close> and \<open>mkdir_rules\<close>: the file system as a tree walked by absolute paths of plain names; every call may be refused, as the
    argument \<open>deny\<close> of the state says, and then changes nothing; nobody else changes the tree meanwhile.
  \<^item> \<open>files_ok\<close>: files can be opened for appending and written, so that the properties of logging and of its setting are those of
    a benign environment; the branches for a failing open and write are in the definitions.
  \<^item> \<open>yaml_laws\<close>: yaml-cpp reads what it prints. \<open>exclusive_lock\<close>: a mutex of pthread excludes, used by its owner.

  \<^bold>\<open>Where the model is coarser than the code.\<close>
  \<^item> Callbacks of the HTTP machine get the parser to read and change only their own data: http_parser_pause from a callback is not covered.
    After an error on an invalid header value \<open>hp_hstate\<close> holds a local of the loop that the code drops; nothing reads it any more.
  \<^item> \<open>addEvent\<close> takes any scheduler, but the runs of \<open>io_bookkeeping\<close> register events from threads that have one. The two flags that
    Scheduler::stop writes are one step. A failed \<open>tcp_bind\<close> closes the sockets of its list at once, as the code does when nothing else
    holds a reference, which is so before the server starts.
  \<^item> Values of settings are compared by equality. The code's == on sets of definitions ignores appenders, so \<open>ConfigLog\<close> speaks of
    documents whose definitions do not compare equal to the current ones in the sense of \<open>define_eq\<close>.
  \<^item> Signed arithmetic that overflows in EncodeZigzag is undefined in C++ and wraps here, as compilers make it.

  \<^bold>\<open>Not modelled.\<close> Singletons, deleted copies and the macros have no state of their own. Logging inside the other components is left out:
  it does not feed back into their state. The contents of stacks and what user callbacks do are outside the model of fibers, which keeps
  states and switches. Memory order enters only through the atomicity of steps. The setter of the parser for its
  header limit is not called by the program. The tests are programs that use the library.
\<close>

end
